(* ===== verification/Prelude.thy ===== *)
theory Prelude
  imports Main "HOL-Library.Word"
begin

text \<open>
  Shared vocabulary of the development: the C integer types as machine words, results that may be
  a fault, byte strings in little-endian order, a file written at an offset, and the parts of
  \<^verbatim>\<open>printf\<close> formatting that the trace runtime uses.  The generic lemmas on these are declared here so
  that the component theories only reason about their own code.
\<close>

section \<open>Machine integers\<close>

type_synonym u8 = "8 word"
type_synonym u16 = "16 word"
type_synonym u32 = "32 word"
type_synonym u64 = "64 word"

lemma unat_add_less:
  fixes a b :: "'a::len word"
  assumes "unat a + unat b < 2 ^ LENGTH('a)"
  shows "unat (a + b) = unat a + unat b"
  using assms by (simp add: unat_word_ariths)

lemma unat_mult_less:
  fixes a b :: "'a::len word"
  assumes "unat a * unat b < 2 ^ LENGTH('a)"
  shows "unat (a * b) = unat a * unat b"
  using assms by (simp add: unat_word_ariths)

lemma unat_bound: "unat (x :: 'a::len word) < 2 ^ LENGTH('a)"
  by (rule unsigned_less)

lemma unat_of_nat_less:
  assumes "n < 2 ^ LENGTH('a)"
  shows "unat (of_nat n :: 'a::len word) = n"
  using assms by (simp add: unat_of_nat take_bit_nat_eq_self)

text \<open>Comparisons of words as comparisons of natural numbers, for the component proofs.\<close>

lemmas word_nat_simps = word_less_nat_alt word_le_nat_alt word_unat_eq_iff

lemma unat_plus1:
  fixes a b :: "'a::len word"
  assumes "a < b"
  shows "unat (a + 1) = Suc (unat a)"
proof -
  from assms have "unat a < unat b" by (simp add: word_less_nat_alt)
  with unat_bound [of b] have "unat a + 1 < 2 ^ LENGTH('a)" by linarith
  then show ?thesis by (subst unat_add_less) simp_all
qed

lemma unat_minus1:
  fixes a b :: "'a::len word"
  assumes "a < b"
  shows "unat (b - 1) = unat b - 1"
proof -
  have "1 \<le> b" using assms by (simp add: word_le_nat_alt word_less_nat_alt Suc_le_eq)
  then show ?thesis by (simp add: unat_sub)
qed

lemma unat_sub_le:
  fixes a b :: "'a::len word"
  assumes "unat b \<le> unat a"
  shows "unat (a - b) = unat a - unat b"
  using assms by (simp add: unat_sub word_le_nat_alt)

text \<open>Rounding down to a multiple of a power of two.\<close>

lemma and_not_mask_eq:
  fixes x :: "'a::len word"
  shows "and x (not (mask k)) = push_bit k (drop_bit k x)"
  by (rule bit_eqI) (auto simp: bit_simps)

lemma unat_and_not_mask:
  fixes x :: "'a::len word"
  assumes "k < LENGTH('a)"
  shows "unat (and x (not (mask k))) = unat x div 2 ^ k * 2 ^ k"
proof -
  have "unat (drop_bit k x) = unat x div 2 ^ k"
    by (simp only: unat_drop_bit_eq) (simp add: drop_bit_eq_div)
  moreover have "unat x div 2 ^ k * 2 ^ k < 2 ^ LENGTH('a)"
    using unat_bound [of x] div_times_less_eq_dividend [of "unat x" "2 ^ k"] by linarith
  moreover have "unat (2 ^ k :: 'a word) = 2 ^ k"
    using unat_of_nat_less [of "2 ^ k", where 'a = 'a] assms by simp
  ultimately show ?thesis
    by (simp add: and_not_mask_eq push_bit_eq_mult unat_word_ariths)
qed

section \<open>Error codes\<close>

definition EIO :: int where "EIO = 5"
definition ENOMEM :: int where "ENOMEM = 12"
definition EINVAL :: int where "EINVAL = 22"
definition ENOSPC :: int where "ENOSPC = 28"

section \<open>Computations that may fault\<close>

text \<open>
  A faulting computation is a sum: \<open>Inl\<close> carries the fault, \<open>Inr\<close> the result.
\<close>

definition rbind :: "'e + 'a \<Rightarrow> ('a \<Rightarrow> 'e + 'b) \<Rightarrow> 'e + 'b" where
  "rbind m f = (case m of Inl e \<Rightarrow> Inl e | Inr x \<Rightarrow> f x)"

lemma rbind_simps [simp]:
  "rbind (Inl e) f = Inl e"
  "rbind (Inr x) f = f x"
  by (simp_all add: rbind_def)

lemma rbind_Inr_iff:
  "rbind m f = Inr y \<longleftrightarrow> (\<exists>x. m = Inr x \<and> f x = Inr y)"
  by (cases m) simp_all

lemma rbind_Inl_iff:
  "rbind m f = Inl e \<longleftrightarrow> m = Inl e \<or> (\<exists>x. m = Inr x \<and> f x = Inl e)"
  by (cases m) simp_all

lemma rbind_assoc: "rbind (rbind m f) g = rbind m (\<lambda>x. rbind (f x) g)"
  by (cases m) simp_all

section \<open>Little-endian bytes\<close>

primrec le_bytes :: "nat \<Rightarrow> nat \<Rightarrow> u8 list" where
  "le_bytes 0 x = []"
| "le_bytes (Suc n) x = of_nat (x mod 256) # le_bytes n (x div 256)"

primrec le_nat :: "u8 list \<Rightarrow> nat" where
  "le_nat [] = 0"
| "le_nat (b # bs) = unat b + 256 * le_nat bs"

lemma length_le_bytes [simp]: "length (le_bytes n x) = n"
  by (induction n arbitrary: x) auto

lemma unat_byte_mod: "unat (of_nat (x mod 256) :: u8) = x mod 256"
  by (rule unat_of_nat_less) simp

lemma le_nat_le_bytes: "x < 256 ^ n \<Longrightarrow> le_nat (le_bytes n x) = x"
proof (induction n arbitrary: x)
  case 0
  then show ?case by simp
next
  case (Suc n)
  then have "x div 256 < 256 ^ n"
    by (simp add: less_mult_imp_div_less mult.commute)
  then have "le_nat (le_bytes n (x div 256)) = x div 256"
    by (rule Suc.IH)
  then show ?case by (simp add: unat_byte_mod del: of_nat_mod)
qed

lemma le_nat_le_bytes_u64 [simp]: "le_nat (le_bytes 8 (unat (x :: u64))) = unat x"
proof (rule le_nat_le_bytes)
  show "unat x < 256 ^ 8"
    using unsigned_less [of x] by simp
qed

section \<open>A file written at an offset\<close>

text \<open>
  \<open>pwrite c off d\<close> is the content \<open>c\<close> after \<open>d\<close> was written at offset \<open>off\<close>; a gap between the
  old end and \<open>off\<close> reads as zero bytes.
\<close>

definition pwrite :: "u8 list \<Rightarrow> nat \<Rightarrow> u8 list \<Rightarrow> u8 list" where
  "pwrite c off d =
     take off (c @ replicate (off - length c) 0) @ d @ drop (off + length d) c"

lemma pwrite_at_end [simp]: "pwrite c (length c) d = c @ d"
  by (simp add: pwrite_def)

lemma pwrite_at_end' : "off = length c \<Longrightarrow> pwrite c off d = c @ d"
  by simp

section \<open>Formatting\<close>

definition digit_char :: "nat \<Rightarrow> char" where
  "digit_char d = (if d < 10 then char_of (48 + d) else char_of (87 + d))"

fun base_str :: "nat \<Rightarrow> nat \<Rightarrow> string" where
  "base_str b n =
     (if b < 2 \<or> n < b then [digit_char n]
      else base_str b (n div b) @ [digit_char (n mod b)])"

declare base_str.simps [simp del]

definition dec_str :: "nat \<Rightarrow> string" where "dec_str = base_str 10"

definition hex_str :: "nat \<Rightarrow> string" where "hex_str = base_str 16"

definition int_str :: "int \<Rightarrow> string" where
  "int_str i = (if i < 0 then CHR ''-'' # dec_str (nat (- i)) else dec_str (nat i))"

text \<open>\<^verbatim>\<open>%8lu\<close> pads on the left to a minimal width, \<^verbatim>\<open>%-15s\<close> on the right.\<close>

definition pad_left :: "nat \<Rightarrow> string \<Rightarrow> string" where
  "pad_left w s = replicate (w - length s) CHR '' '' @ s"

definition pad_right :: "nat \<Rightarrow> string \<Rightarrow> string" where
  "pad_right w s = s @ replicate (w - length s) CHR '' ''"

lemma length_pad_left [simp]: "length (pad_left w s) = max w (length s)"
  by (simp add: pad_left_def)

lemma length_pad_right [simp]: "length (pad_right w s) = max w (length s)"
  by (simp add: pad_right_def)

lemma length_base_str:
  assumes "2 \<le> b"
  shows "n < b ^ Suc k \<Longrightarrow> length (base_str b n) \<le> Suc k"
proof (induction k arbitrary: n)
  case 0
  then show ?case by (simp add: base_str.simps)
next
  case (Suc k)
  show ?case
  proof (cases "n < b")
    case True
    then show ?thesis by (simp add: base_str.simps)
  next
    case False
    from Suc.prems assms have "n div b < b ^ Suc k"
      by (simp add: less_mult_imp_div_less mult.commute mult.left_commute)
    then have "length (base_str b (n div b)) \<le> Suc k" by (rule Suc.IH)
    with False assms show ?thesis
      by (simp add: base_str.simps [of b n])
  qed
qed

lemma length_dec_str_u64: "length (dec_str (unat (x :: u64))) \<le> 20"
  unfolding dec_str_def
  using length_base_str [of 10 "unat x" 19] unat_bound [of x] by simp

lemma length_dec_str_u32: "length (dec_str (unat (x :: u32))) \<le> 10"
  unfolding dec_str_def
  using length_base_str [of 10 "unat x" 9] unat_bound [of x] by simp

lemma length_hex_str_u64: "length (hex_str (unat (x :: u64))) \<le> 16"
  unfolding hex_str_def
  using length_base_str [of 16 "unat x" 15] unat_bound [of x] by simp

lemma length_int_str_i32:
  assumes "- (2 ^ 31) \<le> i" and "i < 2 ^ 31"
  shows "length (int_str i) \<le> 11"
proof -
  have dec: "length (dec_str n) \<le> 10" if "n < 10 ^ 10" for n
    unfolding dec_str_def using length_base_str [of 10 n 9] that by simp
  from assms have "nat i < 10 ^ 10" and "nat (- i) < 10 ^ 10" by auto
  then have "length (dec_str (nat i)) \<le> 10" and "length (dec_str (nat (- i))) \<le> 10"
    by (simp_all only: dec)
  then show ?thesis by (simp add: int_str_def)
qed

section \<open>Bytes of text\<close>

definition bytes_of :: "string \<Rightarrow> u8 list" where
  "bytes_of s = map of_char s"

lemma length_bytes_of [simp]: "length (bytes_of s) = length s"
  by (simp add: bytes_of_def)

lemma bytes_of_append [simp]: "bytes_of (s @ t) = bytes_of s @ bytes_of t"
  by (simp add: bytes_of_def)

end
