(* ===== verification/Trace_Kernel.thy ===== *)
theory Trace_Kernel
  imports Prelude
begin

unbundle bit_operations_syntax

text \<open>
  The output side of the trace runtime (codebase/trace/runtime/NOVA/KernelTracing.c): its global
  variables, the two output files, the two write buffers for records produced in atomic context, and
  \<^verbatim>\<open>output_record\<close> / \<^verbatim>\<open>output_store_value\<close>.

  The Linux kernel is not part of the repository.  The functions of it that the runtime calls are the
  fields of the record \<open>kern\<close>, an argument of every definition; \<open>'w\<close> is the kernel's own state.  What
  a call sees of its context (interrupt flags, pid, memory) is the record \<open>kctx\<close>.  A use of the kernel
  that has no defined meaning (writing through a closed file, taking a held spin lock, reading past a
  buffer) is a fault of the model.
\<close>

section \<open>The kernel as a parameter\<close>

datatype kfault = Deadlock | NullDeref | BadPointer | UseAfterClose | Overread

text \<open>A \<^verbatim>\<open>struct file *\<close>: null, an error pointer of \<^verbatim>\<open>ERR_PTR\<close>, or a file.\<close>

datatype fptr = FNull | FErr int | FFile nat

record 'w kern =
  k_filp_open :: "string \<Rightarrow> 'w \<Rightarrow> fptr \<times> 'w"
  k_filp_close :: "fptr \<Rightarrow> 'w \<Rightarrow> 'w"
  k_kernel_write :: "fptr \<Rightarrow> u8 list \<Rightarrow> u64 \<Rightarrow> 'w \<Rightarrow> int \<times> 'w"
  k_kmem_cache_create :: "string \<Rightarrow> 'w \<Rightarrow> bool \<times> 'w"
  k_kmem_cache_alloc :: "string \<Rightarrow> 'w \<Rightarrow> bool \<times> 'w"
  k_kmalloc :: "nat \<Rightarrow> 'w \<Rightarrow> bool \<times> 'w"

record kctx =
  in_irq :: bool
  in_softirq :: bool
  in_interrupt :: bool
  in_nmi :: bool
  in_atomic :: bool
  in_atomic_preempt_off :: bool
  current_pid :: int
  k_mem :: "u64 \<Rightarrow> u8"

definition mem_bytes :: "kctx \<Rightarrow> u64 \<Rightarrow> nat \<Rightarrow> u8 list" where
  "mem_bytes c p n = map (\<lambda>i. k_mem c (p + of_nat i)) [0..<n]"

lemma length_mem_bytes [simp]: "length (mem_bytes c p n) = n"
  by (simp add: mem_bytes_def)

section \<open>State of the runtime\<close>

definition wr_filename :: string where
  "wr_filename = ''/mnt/ramfs/nova.inject.func.trace''"

definition sv_filename :: string where
  "sv_filename = ''/mnt/ramfs/nova.inject.storevalue.trace''"

definition MAX_SV_BUF_SIZE :: nat where "MAX_SV_BUF_SIZE = 104857600"

record trace_wbuf_t =
  wb_size :: nat
  wb_buf :: "u8 list option"

record trace_svbuf_t =
  sb_seq :: u64
  sb_size :: u64
  sb_buf :: "u8 list option"

record 'w trace_state =
  filp :: fptr
  sv_filp :: fptr
  offset :: u64
  sv_offset :: u64
  nvmm_virt_start_addr :: u64
  nvmm_virt_end_addr :: u64
  nvmm_virt_size :: u64
  trace_enabled :: int
  trace_order_num :: u64
  trace_lock :: bool
  trace_wbuf_header :: "trace_wbuf_t list"
  trace_num_wbuf :: u32
  trace_wbuf_cachep :: bool
  trace_svbuf_header :: "trace_svbuf_t list"
  trace_num_svbuf :: u32
  trace_svbuf_cachep :: bool
  live_files :: "nat list"
  world :: 'w

type_synonym 'w tres = "kfault + 'w trace_state"

text \<open>
  The globals before the module is loaded.  \<open>live_files\<close> lists the files opened and not yet closed: it
  is not a variable of the code, it records which \<^verbatim>\<open>struct file\<close> pointers are valid.
\<close>

definition trace_globals :: "'w \<Rightarrow> 'w trace_state" where
  "trace_globals w = \<lparr>
     filp = FNull, sv_filp = FNull, offset = 0, sv_offset = 0,
     nvmm_virt_start_addr = 0, nvmm_virt_end_addr = 0, nvmm_virt_size = 0,
     trace_enabled = 0, trace_order_num = 1, trace_lock = False,
     trace_wbuf_header = [], trace_num_wbuf = 0, trace_wbuf_cachep = False,
     trace_svbuf_header = [], trace_num_svbuf = 0, trace_svbuf_cachep = False,
     live_files = [], world = w\<rparr>"

section \<open>Locking and buffers\<close>

text \<open>
  \<^verbatim>\<open>trace_lock\<close> is a spin lock: taking it again on the same path never returns.  The two offset
  locks guard one read-modify-write of an offset each and are taken nowhere else, so the update is one
  step of the model.
\<close>

definition trace_lock_lock :: "'w trace_state \<Rightarrow> 'w tres" where
  "trace_lock_lock st =
     (if trace_lock st then Inl Deadlock else Inr (st\<lparr>trace_lock := True\<rparr>))"

definition trace_lock_unlock :: "'w trace_state \<Rightarrow> 'w trace_state" where
  "trace_lock_unlock st = st\<lparr>trace_lock := False\<rparr>"

text \<open>Reading \<open>n\<close> bytes out of a buffer object.\<close>

definition read_buf :: "u8 list \<Rightarrow> nat \<Rightarrow> kfault + u8 list" where
  "read_buf buf n = (if n \<le> length buf then Inr (take n buf) else Inl Overread)"

text \<open>A \<^verbatim>\<open>struct file *\<close> handed to the kernel has to be a file that is open.\<close>

definition check_file :: "fptr \<Rightarrow> 'w trace_state \<Rightarrow> kfault + nat" where
  "check_file fp st =
     (case fp of
        FNull \<Rightarrow> Inl NullDeref
      | FErr e \<Rightarrow> Inl BadPointer
      | FFile h \<Rightarrow> if h \<in> set (live_files st) then Inr h else Inl UseAfterClose)"

definition kernel_write :: "'w kern \<Rightarrow> fptr \<Rightarrow> u8 list \<Rightarrow> nat \<Rightarrow> u64 \<Rightarrow> 'w trace_state \<Rightarrow> 'w tres"
  where
  "kernel_write K fp data len off st =
     rbind (check_file fp st) (\<lambda>_.
     rbind (read_buf data len) (\<lambda>bs.
       Inr (st\<lparr>world := snd (k_kernel_write K fp bs off (world st))\<rparr>)))"

definition do_filp_open :: "'w kern \<Rightarrow> string \<Rightarrow> 'w trace_state \<Rightarrow> fptr \<times> 'w trace_state" where
  "do_filp_open K path st =
     (let (fp, w) = k_filp_open K path (world st)
      in (fp, st\<lparr>world := w,
               live_files := (case fp of FFile h \<Rightarrow> h # live_files st | _ \<Rightarrow> live_files st)\<rparr>))"

definition do_filp_close :: "'w kern \<Rightarrow> fptr \<Rightarrow> 'w trace_state \<Rightarrow> 'w tres" where
  "do_filp_close K fp st =
     rbind (check_file fp st) (\<lambda>h.
       Inr (st\<lparr>world := k_filp_close K fp (world st),
               live_files := removeAll h (live_files st)\<rparr>))"

section \<open>Output file\<close>

definition open_file :: "'w kern \<Rightarrow> 'w trace_state \<Rightarrow> 'w trace_state" where
  "open_file K st =
     (if filp st \<noteq> FNull then st
      else let (fp, st1) = do_filp_open K wr_filename st in st1\<lparr>filp := fp\<rparr>)"

definition close_file :: "'w kern \<Rightarrow> 'w trace_state \<Rightarrow> 'w tres" where
  "close_file K st =
     (if filp st = FNull then Inr st
      else rbind (do_filp_close K (filp st) st) (\<lambda>st1. Inr (st1\<lparr>filp := FNull\<rparr>)))"

definition write_file :: "'w kern \<Rightarrow> u8 list \<Rightarrow> nat \<Rightarrow> 'w trace_state \<Rightarrow> 'w tres" where
  "write_file K data len st =
     (let off = offset st;
          st1 = st\<lparr>offset := offset st + of_nat len\<rparr>
      in if filp st1 \<noteq> FNull then kernel_write K (filp st1) data len off st1 else Inr st1)"

section \<open>Output store value file\<close>

definition open_sv_file :: "'w kern \<Rightarrow> 'w trace_state \<Rightarrow> 'w trace_state" where
  "open_sv_file K st =
     (if sv_filp st \<noteq> FNull then st
      else let (fp, st1) = do_filp_open K sv_filename st in st1\<lparr>sv_filp := fp\<rparr>)"

text \<open>After closing \<^verbatim>\<open>sv_filp\<close> the code clears \<^verbatim>\<open>filp\<close>, not \<^verbatim>\<open>sv_filp\<close>.\<close>

definition close_sv_file :: "'w kern \<Rightarrow> 'w trace_state \<Rightarrow> 'w tres" where
  "close_sv_file K st =
     (if sv_filp st = FNull then Inr st
      else rbind (do_filp_close K (sv_filp st) st) (\<lambda>st1. Inr (st1\<lparr>filp := FNull\<rparr>)))"

definition write_sv_file :: "'w kern \<Rightarrow> u64 \<Rightarrow> u8 list \<Rightarrow> u64 \<Rightarrow> 'w trace_state \<Rightarrow> 'w tres" where
  "write_sv_file K seq data len st =
     (if MAX_SV_BUF_SIZE < unat len then Inr st
      else
        let start_off = sv_offset st;
            st1 = st\<lparr>sv_offset := sv_offset st + (8 + 8 + len)\<rparr>
        in if sv_filp st1 \<noteq> FNull then
             rbind (kernel_write K (sv_filp st1) (le_bytes 8 (unat seq)) 8 start_off st1) (\<lambda>st2.
             rbind (kernel_write K (sv_filp st2) (le_bytes 8 (unat len)) 8 (start_off + 8) st2) (\<lambda>st3.
               kernel_write K (sv_filp st3) data (unat len) (start_off + 8 + 8) st3))
           else Inr st1)"

section \<open>Write buffer\<close>

definition create_trace_wbuf_cache :: "'w kern \<Rightarrow> 'w trace_state \<Rightarrow> 'w trace_state" where
  "create_trace_wbuf_cache K st =
     (if trace_wbuf_cachep st then st
      else let (ok, w) = k_kmem_cache_create K ''trace_wbuf'' (world st)
           in st\<lparr>trace_wbuf_cachep := ok, world := w\<rparr>)"

definition destroy_trace_wbuf_cache :: "'w trace_state \<Rightarrow> 'w trace_state" where
  "destroy_trace_wbuf_cache st = st\<lparr>trace_wbuf_cachep := False\<rparr>"

text \<open>The NOVA runtime allocates from the cache without testing that the cache exists.\<close>

definition new_trace_wbuf_node :: "'w kern \<Rightarrow> 'w trace_state \<Rightarrow> kfault + (bool \<times> 'w trace_state)" where
  "new_trace_wbuf_node K st =
     (if \<not> trace_wbuf_cachep st then Inl NullDeref
      else let (ok, w) = k_kmem_cache_alloc K ''trace_wbuf'' (world st)
           in Inr (ok, st\<lparr>world := w\<rparr>))"

definition trace_wbuf_add_node :: "'w kern \<Rightarrow> u8 list \<Rightarrow> nat \<Rightarrow> 'w trace_state \<Rightarrow> 'w tres" where
  "trace_wbuf_add_node K src sz st =
     (let (buf_ok, w) = k_kmalloc K sz (world st); st1 = st\<lparr>world := w\<rparr>
      in if \<not> buf_ok then Inr st1
         else
           rbind (read_buf src sz) (\<lambda>bs.
           rbind (trace_lock_lock st1) (\<lambda>st2.
             Inr (trace_lock_unlock
               (st2\<lparr>trace_num_wbuf := trace_num_wbuf st2 + 1,
                    trace_wbuf_header := trace_wbuf_header st2 @
                      [\<lparr>wb_size = sz, wb_buf = Some bs\<rparr>]\<rparr>)))))"

definition trace_wbuf_add :: "'w kern \<Rightarrow> u8 list \<Rightarrow> nat \<Rightarrow> 'w trace_state \<Rightarrow> 'w tres" where
  "trace_wbuf_add K src sz0 st =
     (let sz = (if 512 < sz0 then 512 else sz0)
      in rbind (new_trace_wbuf_node K st) (\<lambda>(node, st1).
           if \<not> node then Inr st1 else trace_wbuf_add_node K src sz st1))"

fun trace_wbuf_drain :: "'w kern \<Rightarrow> trace_wbuf_t list \<Rightarrow> 'w trace_state \<Rightarrow> 'w tres" where
  "trace_wbuf_drain K [] st = Inr st"
| "trace_wbuf_drain K (pos # n) st =
     rbind (case wb_buf pos of None \<Rightarrow> Inr st | Some b \<Rightarrow> write_file K b (wb_size pos) st) (\<lambda>st1.
       trace_wbuf_drain K n
         (st1\<lparr>trace_num_wbuf := trace_num_wbuf st1 - 1, trace_wbuf_header := n\<rparr>))"

definition trace_wbuf_write_all :: "'w kern \<Rightarrow> 'w trace_state \<Rightarrow> 'w tres" where
  "trace_wbuf_write_all K st =
     (if trace_wbuf_header st = [] then Inr st
      else rbind (trace_lock_lock st) (\<lambda>st1.
           rbind (trace_wbuf_drain K (trace_wbuf_header st1) st1) (\<lambda>st2.
             Inr (trace_lock_unlock st2))))"

section \<open>Store value buffer\<close>

definition create_trace_svbuf_cache :: "'w kern \<Rightarrow> 'w trace_state \<Rightarrow> 'w trace_state" where
  "create_trace_svbuf_cache K st =
     (if trace_svbuf_cachep st then st
      else let (ok, w) = k_kmem_cache_create K ''trace_svbuf'' (world st)
           in st\<lparr>trace_svbuf_cachep := ok, world := w\<rparr>)"

definition destroy_trace_svbuf_cache :: "'w trace_state \<Rightarrow> 'w trace_state" where
  "destroy_trace_svbuf_cache st = st\<lparr>trace_svbuf_cachep := False\<rparr>"

definition new_trace_svbuf_node :: "'w kern \<Rightarrow> 'w trace_state \<Rightarrow> kfault + (bool \<times> 'w trace_state)" where
  "new_trace_svbuf_node K st =
     (if \<not> trace_svbuf_cachep st then Inl NullDeref
      else let (ok, w) = k_kmem_cache_alloc K ''trace_svbuf'' (world st)
           in Inr (ok, st\<lparr>world := w\<rparr>))"

definition trace_svbuf_add_node :: "'w kern \<Rightarrow> u64 \<Rightarrow> u8 list \<Rightarrow> u64 \<Rightarrow> 'w trace_state \<Rightarrow> 'w tres" where
  "trace_svbuf_add_node K seq src sz st =
     (let (buf_ok, w) = k_kmalloc K (unat sz) (world st); st1 = st\<lparr>world := w\<rparr>
      in if \<not> buf_ok then Inr st1
         else
           rbind (read_buf src (unat sz)) (\<lambda>bs.
           rbind (trace_lock_lock st1) (\<lambda>st2.
             Inr (trace_lock_unlock
               (st2\<lparr>trace_num_svbuf := trace_num_svbuf st2 + 1,
                    trace_svbuf_header := trace_svbuf_header st2 @
                      [\<lparr>sb_seq = seq, sb_size = sz, sb_buf = Some bs\<rparr>]\<rparr>)))))"

definition trace_svbuf_add :: "'w kern \<Rightarrow> u64 \<Rightarrow> u8 list \<Rightarrow> u64 \<Rightarrow> 'w trace_state \<Rightarrow> 'w tres" where
  "trace_svbuf_add K seq src sz st =
     (if MAX_SV_BUF_SIZE < unat sz then Inr st
      else rbind (new_trace_svbuf_node K st) (\<lambda>(node, st1).
             if \<not> node then Inr st1 else trace_svbuf_add_node K seq src sz st1))"

fun trace_svbuf_drain :: "'w kern \<Rightarrow> trace_svbuf_t list \<Rightarrow> 'w trace_state \<Rightarrow> 'w tres" where
  "trace_svbuf_drain K [] st = Inr st"
| "trace_svbuf_drain K (pos # n) st =
     rbind (case sb_buf pos of None \<Rightarrow> Inr st
            | Some b \<Rightarrow> write_sv_file K (sb_seq pos) b (sb_size pos) st) (\<lambda>st1.
       trace_svbuf_drain K n
         (st1\<lparr>trace_num_svbuf := trace_num_svbuf st1 - 1, trace_svbuf_header := n\<rparr>))"

definition trace_svbuf_write_all :: "'w kern \<Rightarrow> 'w trace_state \<Rightarrow> 'w tres" where
  "trace_svbuf_write_all K st =
     (if trace_svbuf_header st = [] then Inr st
      else rbind (trace_lock_lock st) (\<lambda>st1.
           rbind (trace_svbuf_drain K (trace_svbuf_header st1) st1) (\<lambda>st2.
             Inr (trace_lock_unlock st2))))"

section \<open>Address tests\<close>

text \<open>Pointer arithmetic is on 64-bit addresses, so \<open>ptr + sz\<close> may wrap.\<close>

definition check_dest_addr_nvmm :: "'w trace_state \<Rightarrow> u64 \<Rightarrow> u64 \<Rightarrow> bool" where
  "check_dest_addr_nvmm st ptr sz \<longleftrightarrow>
     nvmm_virt_start_addr st > 0 \<and> ptr \<ge> nvmm_virt_start_addr st \<and>
     ptr + sz \<le> nvmm_virt_end_addr st"

definition is_user_space_address :: "u64 \<Rightarrow> bool" where
  "is_user_space_address addr \<longleftrightarrow> addr < 0x8000000000000000"

section \<open>Output of messages\<close>

definition output_open_file :: "'w kern \<Rightarrow> 'w trace_state \<Rightarrow> 'w trace_state" where
  "output_open_file K st = open_sv_file K (open_file K st)"

definition output_close_file :: "'w kern \<Rightarrow> 'w trace_state \<Rightarrow> 'w tres" where
  "output_close_file K st = rbind (close_file K st) (close_sv_file K)"

definition in_atomic_context :: "kctx \<Rightarrow> bool" where
  "in_atomic_context c \<longleftrightarrow>
     in_irq c \<or> in_softirq c \<or> in_interrupt c \<or> in_nmi c \<or> in_atomic c \<or> in_atomic_preempt_off c"

text \<open>
  \<^verbatim>\<open>char buf[512]\<close> after the two \<^verbatim>\<open>snprintf\<close> calls: at most 511 characters of the text, a NUL, and
  bytes of no defined value after it (zero here); \<open>size1 + size2\<close> is the length of the whole text,
  also when it did not fit.
\<close>

definition record_prefix :: "kctx \<Rightarrow> u64 \<Rightarrow> string" where
  "record_prefix c seq =
     pad_left 8 (dec_str (unat seq)) @ '', '' @ pad_left 8 (int_str (current_pid c)) @ '', ''"

definition record_buf :: "string \<Rightarrow> u8 list" where
  "record_buf s =
     (let buf = take 511 (bytes_of s) @ replicate (512 - length (take 511 s)) 0
      in if length s = 512 then buf[511 := of_char (CHR 0x0A)] else buf)"

definition output_record :: "'w kern \<Rightarrow> kctx \<Rightarrow> u64 \<Rightarrow> string \<Rightarrow> 'w trace_state \<Rightarrow> 'w tres" where
  "output_record K c seq msg st =
     (let s = record_prefix c seq @ msg; buf = record_buf s
      in if in_atomic_context c then trace_wbuf_add K buf (length s) st
         else rbind (trace_wbuf_write_all K st) (write_file K buf (length s)))"

definition output_store_value :: "'w kern \<Rightarrow> kctx \<Rightarrow> u64 \<Rightarrow> u64 \<Rightarrow> u64 \<Rightarrow> 'w trace_state \<Rightarrow> 'w tres"
  where
  "output_store_value K c seq buf len st =
     (if in_atomic_context c then trace_svbuf_add K seq (mem_bytes c buf (unat len)) len st
      else rbind (trace_svbuf_write_all K st)
             (write_sv_file K seq (mem_bytes c buf (unat len)) len))"

end
