(* ===== verification/Trace_Api.thy ===== *)
theory Trace_Api
  imports Trace_Kernel
begin

text \<open>
  The functions of the trace runtime that instrumented code calls: set-up and tear-down, sequence
  numbers, and one function per kind of traced instruction (codebase/trace/runtime/NOVA/KernelTracing.c,
  lines 495 to 970).  The bodies of the per-instruction functions are the same in the NOVA, PMFS and
  WineFS copies of the file; the copies differ in the two output functions, which are therefore an
  argument here (\<open>outf\<close>).  \<^verbatim>\<open>DEBUG_INFO\<close> and \<^verbatim>\<open>OUTPUT_DBG_INFO\<close> expand to nothing in the build and
  their arguments are left out.
\<close>

section \<open>Initialisation and exit\<close>

definition trace_init_all :: "'w kern \<Rightarrow> 'w trace_state \<Rightarrow> 'w tres" where
  "trace_init_all K st0 =
     rbind (trace_lock_lock st0) (\<lambda>st.
       if trace_enabled st \<noteq> 0 then Inr (trace_lock_unlock st)
       else
         let st1 = create_trace_svbuf_cache K (create_trace_wbuf_cache K st);
             st2 = (if \<not> trace_wbuf_cachep st1 then st1\<lparr>trace_enabled := - 1\<rparr> else st1);
             st3 = output_open_file K st2;
             st4 = st3\<lparr>offset := 0, nvmm_virt_start_addr := 0, nvmm_virt_end_addr := 0,
                       nvmm_virt_size := 0, trace_order_num := 1, trace_enabled := 1\<rparr>;
             st5 = (if filp st4 = FNull \<or> sv_filp st4 = FNull
                    then st4\<lparr>trace_enabled := - 1\<rparr> else st4)
         in Inr (trace_lock_unlock st5))"

definition trace_destroy_all :: "'w kern \<Rightarrow> int \<Rightarrow> 'w trace_state \<Rightarrow> 'w tres" where
  "trace_destroy_all K init_fs_ret_val st0 =
     rbind (trace_lock_lock st0) (\<lambda>st.
       if init_fs_ret_val = 0 then Inr (trace_lock_unlock st)
       else if trace_enabled st = 0 then Inr (trace_lock_unlock st)
       else
         rbind (trace_wbuf_write_all K st) (\<lambda>st1.
         rbind (trace_svbuf_write_all K st1) (\<lambda>st2.
           let st3 = st2\<lparr>offset := 0, nvmm_virt_start_addr := 0, nvmm_virt_end_addr := 0,
                         nvmm_virt_size := 0, trace_enabled := 0\<rparr>;
               st4 = destroy_trace_wbuf_cache (destroy_trace_svbuf_cache st3)
           in rbind (output_close_file K st4) (\<lambda>st5. Inr (trace_lock_unlock st5)))))"

section \<open>Sequence numbers\<close>

definition MAX_TRACE_SEQ_NUM :: u64 where "MAX_TRACE_SEQ_NUM = 2000000000000"

definition OLDSV_START_SEQ :: u64 where "OLDSV_START_SEQ = 1000000000000"

text \<open>
  \<^verbatim>\<open>trace_lock_lock(); TRACE_UNLOCK_OR_RETURN(incby)\<close>: the caller goes on (with \<open>k\<close>) only when tracing
  is enabled, and then owns the sequence numbers from the returned one.
\<close>

definition TRACE_UNLOCK_OR_RETURN ::
    "u64 \<Rightarrow> 'w trace_state \<Rightarrow> (u64 \<Rightarrow> 'w trace_state \<Rightarrow> 'w tres) \<Rightarrow> 'w tres" where
  "TRACE_UNLOCK_OR_RETURN incby st0 k =
     rbind (trace_lock_lock st0) (\<lambda>st.
       if trace_enabled st = 0 then Inr (trace_lock_unlock st)
       else k (trace_order_num st)
              (trace_lock_unlock (st\<lparr>trace_order_num := trace_order_num st + incby\<rparr>)))"

definition TRACE_CHECK_SEQ_RETURN :: "u64 \<Rightarrow> 'w trace_state \<Rightarrow> 'w tres \<Rightarrow> 'w tres" where
  "TRACE_CHECK_SEQ_RETURN seq st k = (if seq \<ge> MAX_TRACE_SEQ_NUM then Inr st else k)"

definition trace_acquire_sequence :: "u64 \<Rightarrow> 'w trace_state \<Rightarrow> kfault + (u64 \<times> 'w trace_state)" where
  "trace_acquire_sequence incby st0 =
     rbind (trace_lock_lock st0) (\<lambda>st.
       if trace_enabled st \<noteq> 0
       then Inr (trace_order_num st,
                 trace_lock_unlock (st\<lparr>trace_order_num := trace_order_num st + incby\<rparr>))
       else Inr (MAX_TRACE_SEQ_NUM, trace_lock_unlock st))"

section \<open>Output functions as an argument\<close>

record 'w outf =
  o_record :: "kctx \<Rightarrow> u64 \<Rightarrow> string \<Rightarrow> 'w trace_state \<Rightarrow> 'w tres"
  o_value :: "kctx \<Rightarrow> u64 \<Rightarrow> u64 \<Rightarrow> u64 \<Rightarrow> 'w trace_state \<Rightarrow> 'w tres"

definition nova_out :: "'w kern \<Rightarrow> 'w outf" where
  "nova_out K = \<lparr>o_record = output_record K, o_value = output_store_value K\<rparr>"

definition TRACE_DRAM_ADDR :: bool where "TRACE_DRAM_ADDR = True"

text \<open>Pieces of the format strings.\<close>

definition nl :: string where "nl = [CHR 0x0A]"

definition f_kind :: "string \<Rightarrow> string" where "f_kind s = pad_right 15 s"

definition f_id :: "u32 \<Rightarrow> string" where
  "f_id i = '', id: '' @ pad_left 8 (dec_str (unat i))"

definition f_ptr :: "u64 \<Rightarrow> string" where "f_ptr p = '', ptr: 0x'' @ hex_str (unat p)"

definition f_size :: "u64 \<Rightarrow> string" where
  "f_size n = '', size: '' @ pad_left 8 (dec_str (unat n))"

text \<open>The message \<^verbatim>\<open>"%-15s, id: %8u, ptr: 0x%lx, size: %8llu.\n"\<close> that most functions print.\<close>

definition access_msg :: "string \<Rightarrow> u32 \<Rightarrow> u64 \<Rightarrow> u64 \<Rightarrow> string" where
  "access_msg s i ptr sz = f_kind s @ f_id i @ f_ptr ptr @ f_size sz @ ''.'' @ nl"

section \<open>Tracking of old values\<close>

definition trace_old_store_value :: "'w outf \<Rightarrow> kctx \<Rightarrow> u64 \<Rightarrow> u64 \<Rightarrow> u64 \<Rightarrow> u64 \<Rightarrow> 'w trace_state \<Rightarrow> 'w tres" where
  "trace_old_store_value out c seq ptr sz shift st =
     TRACE_CHECK_SEQ_RETURN seq st
       (if is_user_space_address ptr then Inr st
        else if TRACE_DRAM_ADDR \<or> check_dest_addr_nvmm st ptr sz
        then o_value out c (seq + shift + OLDSV_START_SEQ) ptr sz st
        else Inr st)"

section \<open>Inline assembly\<close>

definition trace_inline_asm_flush :: "'w outf \<Rightarrow> kctx \<Rightarrow> u32 \<Rightarrow> u64 \<Rightarrow> 'w trace_state \<Rightarrow> 'w tres" where
  "trace_inline_asm_flush out c i src st =
     TRACE_UNLOCK_OR_RETURN 1 st (\<lambda>seq st.
       if TRACE_DRAM_ADDR \<or> check_dest_addr_nvmm st src 64
       then o_record out c seq (f_kind ''asmFlush'' @ f_id i @ f_ptr src @ ''.'' @ nl) st
       else Inr st)"

definition trace_inline_asm_fence :: "'w outf \<Rightarrow> kctx \<Rightarrow> u32 \<Rightarrow> 'w trace_state \<Rightarrow> 'w tres" where
  "trace_inline_asm_fence out c i st =
     TRACE_UNLOCK_OR_RETURN 1 st (\<lambda>seq st.
       o_record out c seq (f_kind ''asmFence'' @ f_id i @ ''.'' @ nl) st)"

definition trace_implicit_fence :: "'w outf \<Rightarrow> kctx \<Rightarrow> u32 \<Rightarrow> 'w trace_state \<Rightarrow> 'w tres" where
  "trace_implicit_fence out c i st =
     TRACE_UNLOCK_OR_RETURN 1 st (\<lambda>seq st.
       o_record out c seq (f_kind ''impFence'' @ f_id i @ ''.'' @ nl) st)"

definition trace_inline_asm_xchglq :: "'w outf \<Rightarrow> kctx \<Rightarrow> u64 \<Rightarrow> u32 \<Rightarrow> u64 \<Rightarrow> u64 \<Rightarrow> 'w trace_state \<Rightarrow> 'w tres" where
  "trace_inline_asm_xchglq out c seq i ptr sz st =
     TRACE_CHECK_SEQ_RETURN seq st
       (if TRACE_DRAM_ADDR \<or> check_dest_addr_nvmm st ptr sz
        then rbind (o_record out c seq (access_msg ''asmxchg'' i ptr sz) st) (o_value out c seq ptr sz)
        else Inr st)"

definition trace_inline_asm_cas :: "'w outf \<Rightarrow> kctx \<Rightarrow> u64 \<Rightarrow> u32 \<Rightarrow> u64 \<Rightarrow> u64 \<Rightarrow> 'w trace_state \<Rightarrow> 'w tres" where
  "trace_inline_asm_cas out c seq i ptr sz st =
     TRACE_CHECK_SEQ_RETURN seq st
       (if TRACE_DRAM_ADDR \<or> check_dest_addr_nvmm st ptr sz
        then rbind (o_record out c seq (access_msg ''cas'' i ptr sz) st) (o_value out c seq ptr sz)
        else Inr st)"

definition trace_inline_asm_memsetnt :: "'w outf \<Rightarrow> kctx \<Rightarrow> u64 \<Rightarrow> u32 \<Rightarrow> u64 \<Rightarrow> u64 \<Rightarrow> 'w trace_state \<Rightarrow> 'w tres" where
  "trace_inline_asm_memsetnt out c seq i ptr sz st =
     TRACE_CHECK_SEQ_RETURN seq st
       (if TRACE_DRAM_ADDR \<or> check_dest_addr_nvmm st ptr sz
        then rbind (o_record out c seq (access_msg ''asmmemsetnt'' i ptr sz) st) (o_value out c seq ptr sz)
        else Inr st)"

definition trace_inline_asm_unknown :: "'w outf \<Rightarrow> kctx \<Rightarrow> u32 \<Rightarrow> string \<Rightarrow> string \<Rightarrow> u32 \<Rightarrow> string \<Rightarrow> 'w trace_state \<Rightarrow> 'w tres" where
  "trace_inline_asm_unknown out c i caller_name fname line asm_str st =
     TRACE_UNLOCK_OR_RETURN 1 st (\<lambda>seq st.
       o_record out c seq
         (f_kind ''ukasm'' @ f_id i @ '', caller: '' @ caller_name @ '', fname: '' @ fname @
          '', line: '' @ dec_str (unat line) @ '', asm: '' @
          (if length asm_str < 400 then asm_str else ''TooLong'') @ ''.'' @ nl) st)"

section \<open>Functions and basic blocks\<close>

definition trace_start_func :: "'w outf \<Rightarrow> kctx \<Rightarrow> u32 \<Rightarrow> u64 \<Rightarrow> string \<Rightarrow> 'w trace_state \<Rightarrow> 'w tres" where
  "trace_start_func out c i func_ptr func_name st =
     TRACE_UNLOCK_OR_RETURN 1 st (\<lambda>seq st.
       o_record out c seq
         (f_kind ''startFunc'' @ f_id i @ f_ptr func_ptr @ '', fn: '' @ func_name @ ''.'' @ nl) st)"

definition trace_end_func :: "'w outf \<Rightarrow> kctx \<Rightarrow> u32 \<Rightarrow> u64 \<Rightarrow> string \<Rightarrow> 'w trace_state \<Rightarrow> 'w tres" where
  "trace_end_func out c i func_ptr func_name st =
     TRACE_UNLOCK_OR_RETURN 1 st (\<lambda>seq st.
       o_record out c seq
         (f_kind ''endFunc'' @ f_id i @ f_ptr func_ptr @ '', fn: '' @ func_name @ ''.'' @ nl) st)"

definition trace_start_bb :: "'w outf \<Rightarrow> kctx \<Rightarrow> u32 \<Rightarrow> u64 \<Rightarrow> string \<Rightarrow> 'w trace_state \<Rightarrow> 'w tres" where
  "trace_start_bb out c i func_ptr func_name st =
     TRACE_UNLOCK_OR_RETURN 1 st (\<lambda>seq st.
       o_record out c seq
         (f_kind ''startBB'' @ f_id i @ f_ptr func_ptr @ '', fn: '' @ func_name @ ''.'' @ nl) st)"

definition trace_end_bb :: "'w outf \<Rightarrow> kctx \<Rightarrow> u32 \<Rightarrow> u64 \<Rightarrow> string \<Rightarrow> u32 \<Rightarrow> 'w trace_state \<Rightarrow> 'w tres" where
  "trace_end_bb out c i func_ptr func_name lastBB st =
     TRACE_UNLOCK_OR_RETURN 1 st (\<lambda>seq st.
       o_record out c seq
         (f_kind ''endBB'' @ f_id i @ f_ptr func_ptr @ '', fn: '' @ func_name @
          '', call_id: '' @ pad_left 8 (dec_str 0) @ ''.'' @ nl) st)"

section \<open>Memory accesses\<close>

definition trace_load_inst :: "'w outf \<Rightarrow> kctx \<Rightarrow> u32 \<Rightarrow> u64 \<Rightarrow> u64 \<Rightarrow> 'w trace_state \<Rightarrow> 'w tres" where
  "trace_load_inst out c i ptr sz st =
     TRACE_UNLOCK_OR_RETURN 1 st (\<lambda>seq st.
       if TRACE_DRAM_ADDR \<or> check_dest_addr_nvmm st ptr sz
       then o_record out c seq (access_msg ''load'' i ptr sz) st
       else Inr st)"

definition trace_store_inst :: "'w outf \<Rightarrow> kctx \<Rightarrow> u64 \<Rightarrow> u32 \<Rightarrow> u64 \<Rightarrow> u64 \<Rightarrow> 'w trace_state \<Rightarrow> 'w tres" where
  "trace_store_inst out c seq i ptr sz st =
     TRACE_CHECK_SEQ_RETURN seq st
       (if TRACE_DRAM_ADDR \<or> check_dest_addr_nvmm st ptr sz
        then rbind (o_record out c seq (access_msg ''store'' i ptr sz) st) (o_value out c seq ptr sz)
        else Inr st)"

definition trace_fence_inst :: "'w outf \<Rightarrow> kctx \<Rightarrow> u32 \<Rightarrow> 'w trace_state \<Rightarrow> 'w tres" where
  "trace_fence_inst out c i st =
     trace_inline_asm_fence out c i st"

definition trace_xchg_inst :: "'w outf \<Rightarrow> kctx \<Rightarrow> u64 \<Rightarrow> u32 \<Rightarrow> u64 \<Rightarrow> u64 \<Rightarrow> 'w trace_state \<Rightarrow> 'w tres" where
  "trace_xchg_inst out c seq i ptr sz st =
     TRACE_CHECK_SEQ_RETURN seq st
       (if TRACE_DRAM_ADDR \<or> check_dest_addr_nvmm st ptr sz
        then rbind (o_record out c seq (access_msg ''xchg'' i ptr sz) st) (o_value out c seq ptr sz)
        else Inr st)"

definition trace_rmw_inst :: "'w outf \<Rightarrow> kctx \<Rightarrow> u64 \<Rightarrow> u32 \<Rightarrow> u64 \<Rightarrow> u64 \<Rightarrow> 'w trace_state \<Rightarrow> 'w tres" where
  "trace_rmw_inst out c seq i ptr sz st =
     TRACE_CHECK_SEQ_RETURN seq st
       (if TRACE_DRAM_ADDR \<or> check_dest_addr_nvmm st ptr sz
        then rbind (o_record out c seq (access_msg ''rmw'' i ptr sz) st) (o_value out c seq ptr sz)
        else Inr st)"

definition trace_memset_inst :: "'w outf \<Rightarrow> kctx \<Rightarrow> u64 \<Rightarrow> u32 \<Rightarrow> u64 \<Rightarrow> u64 \<Rightarrow> 'w trace_state \<Rightarrow> 'w tres" where
  "trace_memset_inst out c seq i ptr sz st =
     TRACE_CHECK_SEQ_RETURN seq st
       (if TRACE_DRAM_ADDR \<or> check_dest_addr_nvmm st ptr sz
        then rbind (o_record out c seq (access_msg ''memset'' i ptr sz) st) (o_value out c seq ptr sz)
        else Inr st)"

definition trace_memtransfer_inst :: "'w outf \<Rightarrow> kctx \<Rightarrow> u64 \<Rightarrow> u32 \<Rightarrow> u64 \<Rightarrow> u64 \<Rightarrow> u64 \<Rightarrow> 'w trace_state \<Rightarrow> 'w tres" where
  "trace_memtransfer_inst out c seq i dest src sz st =
     TRACE_CHECK_SEQ_RETURN seq st
       (rbind (if TRACE_DRAM_ADDR \<or> check_dest_addr_nvmm st src sz
               then o_record out c seq (access_msg ''memtransLoad'' i src sz) st
               else Inr st) (\<lambda>st1.
          if TRACE_DRAM_ADDR \<or> check_dest_addr_nvmm st1 dest sz
          then rbind (o_record out c (seq + 1) (access_msg ''memtransStore'' i dest sz) st1)
                 (o_value out c (seq + 1) dest sz)
          else Inr st1))"

section \<open>Branches and calls\<close>

definition trace_select_inst :: "'w outf \<Rightarrow> kctx \<Rightarrow> u32 \<Rightarrow> u64 \<Rightarrow> 'w trace_state \<Rightarrow> 'w tres" where
  "trace_select_inst out c i flag st =
     TRACE_UNLOCK_OR_RETURN 1 st (\<lambda>seq st.
       o_record out c seq
         (f_kind ''select'' @ f_id i @ '', flag: '' @ dec_str (unat flag) @ ''.'' @ nl) st)"

definition trace_start_calls :: "'w outf \<Rightarrow> kctx \<Rightarrow> u32 \<Rightarrow> string \<Rightarrow> string \<Rightarrow> string \<Rightarrow> u32 \<Rightarrow> 'w trace_state \<Rightarrow> 'w tres" where
  "trace_start_calls out c i caller_name callee_name fname line st =
     TRACE_UNLOCK_OR_RETURN 1 st (\<lambda>seq st.
       o_record out c seq
         (f_kind ''startCall'' @ f_id i @ '', caller: '' @ caller_name @ '', callee: '' @
          callee_name @ '', fname: '' @ fname @ '', line: '' @ dec_str (unat line) @ ''.'' @ nl) st)"

definition trace_end_calls :: "'w outf \<Rightarrow> kctx \<Rightarrow> u32 \<Rightarrow> string \<Rightarrow> string \<Rightarrow> string \<Rightarrow> u32 \<Rightarrow> 'w trace_state \<Rightarrow> 'w tres" where
  "trace_end_calls out c i caller_name callee_name fname line st =
     TRACE_UNLOCK_OR_RETURN 1 st (\<lambda>seq st.
       o_record out c seq
         (f_kind ''endCall'' @ f_id i @ '', caller: '' @ caller_name @ '', callee: '' @
          callee_name @ '', fname: '' @ fname @ '', line: '' @ dec_str (unat line) @ ''.'' @ nl) st)"

definition uaccess_msg :: "string \<Rightarrow> u32 \<Rightarrow> u64 \<Rightarrow> u64 \<Rightarrow> u64 \<Rightarrow> string" where
  "uaccess_msg s i frm to sz =
     f_kind s @ f_id i @ '', from: 0x'' @ hex_str (unat frm) @ '', to: 0x'' @ hex_str (unat to) @
     f_size sz @ ''.'' @ nl"

definition trace_uaccess_calls :: "'w outf \<Rightarrow> kctx \<Rightarrow> u64 \<Rightarrow> u32 \<Rightarrow> u64 \<Rightarrow> u64 \<Rightarrow> u64 \<Rightarrow> 'w trace_state \<Rightarrow> 'w tres" where
  "trace_uaccess_calls out c seq i to frm sz st =
     TRACE_CHECK_SEQ_RETURN seq st
       (if is_user_space_address to then Inr st
        else
          rbind (if TRACE_DRAM_ADDR \<or> check_dest_addr_nvmm st frm sz
                 then o_record out c seq (uaccess_msg ''uaccessLoad'' i frm to sz) st
                 else Inr st) (\<lambda>st1.
            if TRACE_DRAM_ADDR \<or> check_dest_addr_nvmm st1 to sz
            then rbind (o_record out c (seq + 1) (uaccess_msg ''uaccessStore'' i frm to sz) st1)
                   (o_value out c (seq + 1) to sz)
            else Inr st1))"

definition trace_uaccess_nt_calls :: "'w outf \<Rightarrow> kctx \<Rightarrow> u64 \<Rightarrow> u32 \<Rightarrow> u64 \<Rightarrow> u64 \<Rightarrow> u64 \<Rightarrow> 'w trace_state \<Rightarrow> 'w tres" where
  "trace_uaccess_nt_calls out c seq i to frm sz st =
     TRACE_CHECK_SEQ_RETURN seq st
       (if is_user_space_address to then Inr st
        else
          rbind (if TRACE_DRAM_ADDR \<or> check_dest_addr_nvmm st frm sz
                 then o_record out c seq (uaccess_msg ''uaccessNTLoad'' i frm to sz) st
                 else Inr st) (\<lambda>st1.
            if TRACE_DRAM_ADDR \<or> check_dest_addr_nvmm st1 to sz
            then rbind (o_record out c (seq + 1) (uaccess_msg ''uaccessNTStore'' i frm to sz) st1)
                   (o_value out c (seq + 1) to sz)
            else Inr st1))"

section \<open>The DAX device, flushes and structure pointers\<close>

text \<open>
  \<open>addr\<close> is the value the pointer argument points to.  The size is a signed \<^verbatim>\<open>long\<close>; the record prints
  it divided by one mebibyte, rounded towards zero.
\<close>

definition mib_str :: "u64 \<Rightarrow> string" where
  "mib_str n =
     (let i = sint n
      in int_str (if i < 0 then - ((- i) div 1048576) else i div 1048576))"

definition trace_dax_access :: "'w outf \<Rightarrow> kctx \<Rightarrow> u32 \<Rightarrow> u64 \<Rightarrow> u64 \<Rightarrow> 'w trace_state \<Rightarrow> 'w tres" where
  "trace_dax_access out c i addr sz st =
     TRACE_UNLOCK_OR_RETURN 1 st (\<lambda>seq st.
       let st1 = st\<lparr>nvmm_virt_start_addr := addr, nvmm_virt_size := sz * 4096\<rparr>;
           st2 = st1\<lparr>nvmm_virt_end_addr := nvmm_virt_start_addr st1 + nvmm_virt_size st1\<rparr>
       in o_record out c seq
            (f_kind ''DaxDevInfo'' @ f_id 0 @ '', 0x'' @ hex_str (unat (nvmm_virt_start_addr st2)) @
             '', 0x'' @ hex_str (unat (nvmm_virt_end_addr st2)) @ '', '' @
             mib_str (nvmm_virt_size st2) @ ''.'' @ nl) st2)"

definition trace_centralized_flush :: "'w outf \<Rightarrow> kctx \<Rightarrow> u64 \<Rightarrow> u32 \<Rightarrow> u64 \<Rightarrow> u32 \<Rightarrow> 'w trace_state \<Rightarrow> 'w tres" where
  "trace_centralized_flush out c seq i ptr sz st =
     TRACE_CHECK_SEQ_RETURN seq st
       (if TRACE_DRAM_ADDR \<or> check_dest_addr_nvmm st ptr (ucast sz)
        then o_record out c seq
               (f_kind ''centflush'' @ f_id i @ f_ptr ptr @ '', size: '' @
                pad_left 8 (dec_str (unat sz)) @ ''.'' @ nl) st
        else Inr st)"

definition struct_msg :: "string \<Rightarrow> u32 \<Rightarrow> string \<Rightarrow> u64 \<Rightarrow> u32 \<Rightarrow> u64 \<Rightarrow> string" where
  "struct_msg s i stname ptr idx sz =
     f_kind s @ f_id i @ '', type: '' @ pad_right 15 stname @ f_ptr ptr @ '', idx: '' @
     pad_left 4 (dec_str (unat idx)) @ f_size sz @ ''.'' @ nl"

definition trace_pm_struct_ptr_inst :: "'w outf \<Rightarrow> kctx \<Rightarrow> u32 \<Rightarrow> u64 \<Rightarrow> u32 \<Rightarrow> u64 \<Rightarrow> string \<Rightarrow> 'w trace_state \<Rightarrow> 'w tres" where
  "trace_pm_struct_ptr_inst out c i ptr idx sz stname st =
     TRACE_UNLOCK_OR_RETURN 1 st (\<lambda>seq st.
       if TRACE_DRAM_ADDR \<or> check_dest_addr_nvmm st ptr sz
       then o_record out c seq (struct_msg ''PMStructPtr'' i stname ptr idx sz) st
       else Inr st)"

definition trace_dram_struct_ptr_inst :: "'w outf \<Rightarrow> kctx \<Rightarrow> u32 \<Rightarrow> u64 \<Rightarrow> u32 \<Rightarrow> u64 \<Rightarrow> string \<Rightarrow> 'w trace_state \<Rightarrow> 'w tres" where
  "trace_dram_struct_ptr_inst out c i ptr idx sz stname st =
     TRACE_UNLOCK_OR_RETURN 1 st (\<lambda>seq st.
       o_record out c seq (struct_msg ''DRAMStructPtr'' i stname ptr idx sz) st)"

definition trace_unknown_struct_ptr_inst :: "'w outf \<Rightarrow> kctx \<Rightarrow> u32 \<Rightarrow> u64 \<Rightarrow> u32 \<Rightarrow> u64 \<Rightarrow> string \<Rightarrow> 'w trace_state \<Rightarrow> 'w tres" where
  "trace_unknown_struct_ptr_inst out c i ptr idx sz stname st =
     (if nvmm_virt_start_addr st \<noteq> 0 \<and> nvmm_virt_end_addr st \<noteq> 0 \<and> nvmm_virt_size st \<noteq> 0
      then TRACE_UNLOCK_OR_RETURN 1 st (\<lambda>seq st.
             o_record out c seq (struct_msg ''UKStructPtr'' i stname ptr idx sz) st)
      else if check_dest_addr_nvmm st ptr sz
      then trace_pm_struct_ptr_inst out c i ptr idx sz stname st
      else trace_dram_struct_ptr_inst out c i ptr idx sz stname st)"

definition trace_dbg_var_store :: "'w outf \<Rightarrow> kctx \<Rightarrow> u32 \<Rightarrow> u64 \<Rightarrow> string \<Rightarrow> u64 \<Rightarrow> 'w trace_state \<Rightarrow> 'w tres" where
  "trace_dbg_var_store out c i ptr stname sz st =
     TRACE_UNLOCK_OR_RETURN 1 st (\<lambda>seq st.
       o_record out c seq
         (f_kind ''dbgStore'' @ f_id i @ '', type: '' @ pad_right 15 stname @ f_ptr ptr @
          f_size sz @ ''.'' @ nl) st)"

end
