(* ===== verification/Trace_Pmfs.thy ===== *)
theory Trace_Pmfs
  imports Trace_Api
begin

text \<open>
  The output functions of the PMFS runtime (codebase/trace/runtime/pmfs/KernelTracing.c) where they
  differ from the NOVA copy; the WineFS copy has the same text.  Nodes are allocated only from an
  existing cache, every record and every stored value is buffered until the module is unloaded, and
  the two \<^verbatim>\<open>write_all\<close> functions are told whether the caller already holds the lock.
\<close>

section \<open>Buffers\<close>

definition pmfs_new_trace_wbuf_node :: "'w kern \<Rightarrow> 'w trace_state \<Rightarrow> bool \<times> 'w trace_state" where
  "pmfs_new_trace_wbuf_node K st =
     (if trace_wbuf_cachep st
      then let (ok, w) = k_kmem_cache_alloc K ''trace_wbuf'' (world st) in (ok, st\<lparr>world := w\<rparr>)
      else (False, st))"

definition pmfs_trace_wbuf_add :: "'w kern \<Rightarrow> u8 list \<Rightarrow> nat \<Rightarrow> 'w trace_state \<Rightarrow> 'w tres" where
  "pmfs_trace_wbuf_add K src sz0 st =
     (let sz = (if 512 < sz0 then 512 else sz0);
          (node, st1) = pmfs_new_trace_wbuf_node K st
      in if \<not> node then Inr st1 else trace_wbuf_add_node K src sz st1)"

definition pmfs_trace_wbuf_write_all :: "'w kern \<Rightarrow> bool \<Rightarrow> 'w trace_state \<Rightarrow> 'w tres" where
  "pmfs_trace_wbuf_write_all K is_locked st =
     (if trace_wbuf_header st = [] then Inr st
      else rbind (if \<not> is_locked then trace_lock_lock st else Inr st) (\<lambda>st1.
           rbind (trace_wbuf_drain K (trace_wbuf_header st1) st1) (\<lambda>st2.
             Inr (if \<not> is_locked then trace_lock_unlock st2 else st2))))"

definition pmfs_new_trace_svbuf_node :: "'w kern \<Rightarrow> 'w trace_state \<Rightarrow> bool \<times> 'w trace_state" where
  "pmfs_new_trace_svbuf_node K st =
     (if trace_svbuf_cachep st
      then let (ok, w) = k_kmem_cache_alloc K ''trace_svbuf'' (world st) in (ok, st\<lparr>world := w\<rparr>)
      else (False, st))"

definition pmfs_trace_svbuf_add ::
    "'w kern \<Rightarrow> u64 \<Rightarrow> u8 list \<Rightarrow> u64 \<Rightarrow> 'w trace_state \<Rightarrow> 'w tres" where
  "pmfs_trace_svbuf_add K seq src sz st =
     (if MAX_SV_BUF_SIZE < unat sz then Inr st
      else
        let (node, st1) = pmfs_new_trace_svbuf_node K st
        in if \<not> node then Inr st1 else trace_svbuf_add_node K seq src sz st1)"

definition pmfs_trace_svbuf_write_all :: "'w kern \<Rightarrow> bool \<Rightarrow> 'w trace_state \<Rightarrow> 'w tres" where
  "pmfs_trace_svbuf_write_all K is_locked st =
     (if trace_svbuf_header st = [] then Inr st
      else rbind (if \<not> is_locked then trace_lock_lock st else Inr st) (\<lambda>st1.
           rbind (trace_svbuf_drain K (trace_svbuf_header st1) st1) (\<lambda>st2.
             Inr (if \<not> is_locked then trace_lock_unlock st2 else st2))))"

section \<open>Output and exit\<close>

text \<open>Both functions return after buffering; the code below their \<^verbatim>\<open>return\<close> is never reached.\<close>

definition pmfs_output_record :: "'w kern \<Rightarrow> kctx \<Rightarrow> u64 \<Rightarrow> string \<Rightarrow> 'w trace_state \<Rightarrow> 'w tres" where
  "pmfs_output_record K c seq msg st =
     (let s = record_prefix c seq @ msg in pmfs_trace_wbuf_add K (record_buf s) (length s) st)"

definition pmfs_output_store_value ::
    "'w kern \<Rightarrow> kctx \<Rightarrow> u64 \<Rightarrow> u64 \<Rightarrow> u64 \<Rightarrow> 'w trace_state \<Rightarrow> 'w tres" where
  "pmfs_output_store_value K c seq buf len st =
     pmfs_trace_svbuf_add K seq (mem_bytes c buf (unat len)) len st"

definition pmfs_trace_destroy_all :: "'w kern \<Rightarrow> int \<Rightarrow> 'w trace_state \<Rightarrow> 'w tres" where
  "pmfs_trace_destroy_all K init_fs_ret_val st0 =
     rbind (trace_lock_lock st0) (\<lambda>st.
       if init_fs_ret_val = 0 then Inr (trace_lock_unlock st)
       else if trace_enabled st = 0 then Inr (trace_lock_unlock st)
       else
         rbind (pmfs_trace_wbuf_write_all K True st) (\<lambda>st1.
         rbind (pmfs_trace_svbuf_write_all K True st1) (\<lambda>st2.
           let st3 = st2\<lparr>offset := 0, nvmm_virt_start_addr := 0, nvmm_virt_end_addr := 0,
                         nvmm_virt_size := 0, trace_enabled := 0\<rparr>;
               st4 = destroy_trace_wbuf_cache (destroy_trace_svbuf_cache st3)
           in rbind (output_close_file K st4) (\<lambda>st5. Inr (trace_lock_unlock st5)))))"

definition pmfs_out :: "'w kern \<Rightarrow> 'w outf" where
  "pmfs_out K = \<lparr>o_record = pmfs_output_record K, o_value = pmfs_output_store_value K\<rparr>"

end
