(* ===== verification/Trace_Log.thy ===== *)
theory Trace_Log
  imports Trace_Pmfs
begin

text \<open>
  What the output side of the trace runtime promises to the instrumented program: a record or a value
  that is emitted becomes the next entry of a log, whatever context it is emitted in.  The contract is
  the locale \<open>trace_sink\<close>; it is interpreted on the output functions of the NOVA runtime (direct
  writes, buffering in atomic context) and on those of the PMFS runtime (always buffered).
\<close>

section \<open>Documented behaviour of the kernel\<close>

text \<open>
  \<open>fd w h\<close> is the content of file \<open>h\<close>.  \<^verbatim>\<open>kernel_write\<close> returns the number of bytes it wrote (or a
  negative error) and writes a prefix of the data of that length; \<^verbatim>\<open>filp_open\<close> with \<^verbatim>\<open>O_TRUNC\<close> returns
  an empty file or an error pointer, never a null pointer; allocations do not touch files.
\<close>

definition kernel_laws :: "'w kern \<Rightarrow> ('w \<Rightarrow> nat \<Rightarrow> u8 list) \<Rightarrow> bool" where
  "kernel_laws K fd \<longleftrightarrow>
     (\<forall>h d off w. fd (snd (k_kernel_write K (FFile h) d off w)) =
        (fd w)(h := pwrite (fd w h) (unat off) (take (nat (fst (k_kernel_write K (FFile h) d off w))) d))) \<and>
     (\<forall>p w. case fst (k_filp_open K p w) of
        FNull \<Rightarrow> False
      | FErr e \<Rightarrow> fd (snd (k_filp_open K p w)) = fd w
      | FFile h \<Rightarrow> fd (snd (k_filp_open K p w)) = (fd w)(h := [])) \<and>
     (\<forall>s w. fd (snd (k_kmem_cache_create K s w)) = fd w) \<and>
     (\<forall>s w. fd (snd (k_kmem_cache_alloc K s w)) = fd w) \<and>
     (\<forall>n w. fd (snd (k_kmalloc K n w)) = fd w) \<and>
     (\<forall>p w. fd (k_filp_close K p w) = fd w)"

text \<open>No allocation fails and no write is short.\<close>

definition kernel_no_failure :: "'w kern \<Rightarrow> bool" where
  "kernel_no_failure K \<longleftrightarrow>
     (\<forall>h d off w. fst (k_kernel_write K (FFile h) d off w) = int (length d)) \<and>
     (\<forall>s w. fst (k_kmem_cache_alloc K s w)) \<and>
     (\<forall>n w. fst (k_kmalloc K n w))"

lemma kernel_write_data:
  assumes "kernel_laws K fd" and "kernel_no_failure K"
  shows "fd (snd (k_kernel_write K (FFile h) d off w)) = (fd w)(h := pwrite (fd w h) (unat off) d)"
  using assms by (simp add: kernel_laws_def kernel_no_failure_def)

lemma kernel_alloc_data:
  assumes "kernel_laws K fd"
  shows "fd (snd (k_kmem_cache_create K s w)) = fd w"
    and "fd (snd (k_kmem_cache_alloc K s w)) = fd w"
    and "fd (snd (k_kmalloc K n w)) = fd w"
    and "fd (k_filp_close K p w) = fd w"
  using assms by (simp_all add: kernel_laws_def)

lemma kernel_alloc_ok:
  assumes "kernel_no_failure K"
  shows "fst (k_kmem_cache_alloc K s w)" and "fst (k_kmalloc K n w)"
  using assms by (simp_all add: kernel_no_failure_def)

section \<open>Contents of the two files and of the buffers\<close>

definition sv_entry :: "u64 \<Rightarrow> u8 list \<Rightarrow> u8 list" where
  "sv_entry seq d = le_bytes 8 (unat seq) @ le_bytes 8 (length d) @ d"

definition file_data :: "('w \<Rightarrow> nat \<Rightarrow> u8 list) \<Rightarrow> 'w \<Rightarrow> fptr \<Rightarrow> u8 list" where
  "file_data fd w fp = (case fp of FFile h \<Rightarrow> fd w h | _ \<Rightarrow> [])"

definition wbuf_data :: "trace_wbuf_t list \<Rightarrow> u8 list" where
  "wbuf_data ns = concat (map (\<lambda>n. the (wb_buf n)) ns)"

definition svbuf_data :: "trace_svbuf_t list \<Rightarrow> u8 list" where
  "svbuf_data ns = concat (map (\<lambda>n. sv_entry (sb_seq n) (the (sb_buf n))) ns)"

definition rec_log :: "('w \<Rightarrow> nat \<Rightarrow> u8 list) \<Rightarrow> 'w trace_state \<Rightarrow> u8 list" where
  "rec_log fd st = file_data fd (world st) (filp st) @ wbuf_data (trace_wbuf_header st)"

definition val_log :: "('w \<Rightarrow> nat \<Rightarrow> u8 list) \<Rightarrow> 'w trace_state \<Rightarrow> u8 list" where
  "val_log fd st = file_data fd (world st) (sv_filp st) @ svbuf_data (trace_svbuf_header st)"

definition wbuf_ok :: "trace_wbuf_t \<Rightarrow> bool" where
  "wbuf_ok n \<longleftrightarrow> (case wb_buf n of None \<Rightarrow> False | Some b \<Rightarrow> wb_size n = length b)"

definition svbuf_ok :: "trace_svbuf_t \<Rightarrow> bool" where
  "svbuf_ok n \<longleftrightarrow> (case sb_buf n of None \<Rightarrow> False
     | Some b \<Rightarrow> unat (sb_size n) = length b \<and> length b \<le> MAX_SV_BUF_SIZE)"

text \<open>The files are open and distinct, and the offsets are the sizes of the files.\<close>

definition files_ok :: "('w \<Rightarrow> nat \<Rightarrow> u8 list) \<Rightarrow> 'w trace_state \<Rightarrow> bool" where
  "files_ok fd st \<longleftrightarrow>
     (case (filp st, sv_filp st) of
        (FFile h, FFile g) \<Rightarrow>
          h \<noteq> g \<and> h \<in> set (live_files st) \<and> g \<in> set (live_files st) \<and>
          unat (offset st) = length (fd (world st) h) \<and>
          unat (sv_offset st) = length (fd (world st) g)
      | _ \<Rightarrow> False)"

lemma files_okE:
  assumes "files_ok fd st"
  obtains h g where "filp st = FFile h" "sv_filp st = FFile g" "h \<noteq> g"
    "h \<in> set (live_files st)" "g \<in> set (live_files st)"
    "unat (offset st) = length (fd (world st) h)"
    "unat (sv_offset st) = length (fd (world st) g)"
  using assms by (auto simp: files_ok_def split: fptr.splits)

lemma files_ok_update [simp]:
  "files_ok fd (st\<lparr>trace_wbuf_header := ns\<rparr>) = files_ok fd st"
  "files_ok fd (st\<lparr>trace_svbuf_header := ms\<rparr>) = files_ok fd st"
  "files_ok fd (st\<lparr>trace_num_wbuf := n\<rparr>) = files_ok fd st"
  "files_ok fd (st\<lparr>trace_num_svbuf := n\<rparr>) = files_ok fd st"
  "files_ok fd (st\<lparr>trace_lock := b\<rparr>) = files_ok fd st"
  "files_ok fd (st\<lparr>trace_order_num := q\<rparr>) = files_ok fd st"
  by (simp_all add: files_ok_def split: fptr.splits)

definition bufs_ok :: "'w trace_state \<Rightarrow> bool" where
  "bufs_ok st \<longleftrightarrow>
     list_all wbuf_ok (trace_wbuf_header st) \<and> list_all svbuf_ok (trace_svbuf_header st) \<and>
     trace_num_wbuf st = of_nat (length (trace_wbuf_header st)) \<and>
     trace_num_svbuf st = of_nat (length (trace_svbuf_header st))"

definition sink_ok :: "'w kern \<Rightarrow> ('w \<Rightarrow> nat \<Rightarrow> u8 list) \<Rightarrow> 'w trace_state \<Rightarrow> bool" where
  "sink_ok K fd st \<longleftrightarrow>
     kernel_laws K fd \<and> kernel_no_failure K \<and> files_ok fd st \<and> bufs_ok st \<and>
     trace_wbuf_cachep st \<and> trace_svbuf_cachep st \<and> \<not> trace_lock st"

text \<open>The fields that no output function changes.\<close>

definition same_control :: "'w trace_state \<Rightarrow> 'w trace_state \<Rightarrow> bool" where
  "same_control st st' \<longleftrightarrow>
     filp st' = filp st \<and> sv_filp st' = sv_filp st \<and> live_files st' = live_files st \<and>
     nvmm_virt_start_addr st' = nvmm_virt_start_addr st \<and>
     nvmm_virt_end_addr st' = nvmm_virt_end_addr st \<and>
     nvmm_virt_size st' = nvmm_virt_size st \<and>
     trace_enabled st' = trace_enabled st \<and> trace_order_num st' = trace_order_num st \<and>
     trace_lock st' = trace_lock st \<and>
     trace_wbuf_cachep st' = trace_wbuf_cachep st \<and> trace_svbuf_cachep st' = trace_svbuf_cachep st"

lemma same_control_refl [simp]: "same_control st st"
  by (simp add: same_control_def)

lemma same_control_trans:
  "same_control a b \<Longrightarrow> same_control b c \<Longrightarrow> same_control a c"
  by (simp add: same_control_def)

section \<open>Direct writes\<close>

lemma write_file_ok:
  assumes laws: "kernel_laws K fd" "kernel_no_failure K"
    and files: "files_ok fd st"
    and len: "len \<le> length data"
    and room: "length (file_data fd (world st) (filp st)) + len < 2 ^ 64"
  shows "\<exists>st'. write_file K data len st = Inr st' \<and> files_ok fd st' \<and> same_control st st' \<and>
     file_data fd (world st') (filp st) = file_data fd (world st) (filp st) @ take len data \<and>
     file_data fd (world st') (sv_filp st) = file_data fd (world st) (sv_filp st) \<and>
     st' = st\<lparr>offset := offset st', world := world st'\<rparr>"
proof -
  from files obtain h g where hg: "filp st = FFile h" "sv_filp st = FFile g" "h \<noteq> g"
      "h \<in> set (live_files st)" "g \<in> set (live_files st)"
    and off: "unat (offset st) = length (fd (world st) h)"
      "unat (sv_offset st) = length (fd (world st) g)"
    by (rule files_okE)
  let ?w = "snd (k_kernel_write K (FFile h) (take len data) (offset st) (world st))"
  let ?st' = "st\<lparr>offset := offset st + of_nat len, world := ?w\<rparr>"
  have run: "write_file K data len st = Inr ?st'"
    using hg len by (simp add: write_file_def kernel_write_def check_file_def read_buf_def)
  have data: "fd ?w = (fd (world st))(h := fd (world st) h @ take len data)"
    using off by (simp add: kernel_write_data [OF laws] pwrite_at_end')
  have "unat (of_nat len :: u64) = len"
    using room by (intro unat_of_nat_less) simp
  with room off hg have "unat (offset st + of_nat len) = length (fd (world st) h) + len"
    by (subst unat_add_less) (simp_all add: file_data_def)
  with hg off data len have "files_ok fd ?st'"
    by (simp add: files_ok_def min_def)
  with run data hg show ?thesis
    by (simp add: same_control_def file_data_def)
qed

lemma write_sv_file_ok:
  assumes laws: "kernel_laws K fd" "kernel_no_failure K"
    and files: "files_ok fd st"
    and len: "unat len = length data" "length data \<le> MAX_SV_BUF_SIZE"
    and room: "length (file_data fd (world st) (sv_filp st)) + (16 + length data) < 2 ^ 64"
  shows "\<exists>st'. write_sv_file K seq data len st = Inr st' \<and> files_ok fd st' \<and> same_control st st' \<and>
     file_data fd (world st') (sv_filp st) =
       file_data fd (world st) (sv_filp st) @ sv_entry seq data \<and>
     file_data fd (world st') (filp st) = file_data fd (world st) (filp st) \<and>
     st' = st\<lparr>sv_offset := sv_offset st', world := world st'\<rparr>"
proof -
  from files obtain h g where hg: "filp st = FFile h" "sv_filp st = FFile g" "h \<noteq> g"
      "h \<in> set (live_files st)" "g \<in> set (live_files st)"
    and off: "unat (offset st) = length (fd (world st) h)"
      "unat (sv_offset st) = length (fd (world st) g)"
    by (rule files_okE)
  define o0 where "o0 = sv_offset st"
  define w1 where "w1 = snd (k_kernel_write K (FFile g) (le_bytes 8 (unat seq)) o0 (world st))"
  define w2 where "w2 = snd (k_kernel_write K (FFile g) (le_bytes 8 (unat len)) (o0 + 8) w1)"
  define w3 where "w3 = snd (k_kernel_write K (FFile g) data (o0 + 8 + 8) w2)"
  let ?st' = "st\<lparr>sv_offset := o0 + (8 + 8 + len), world := w3\<rparr>"
  have run: "write_sv_file K seq data len st = Inr ?st'"
    using hg len
    by (simp add: write_sv_file_def kernel_write_def check_file_def read_buf_def
        o0_def w1_def w2_def w3_def Let_def)
  have room': "length (fd (world st) g) + (16 + length data) < 2 ^ 64"
    using room hg by (simp add: file_data_def)
  have off1: "unat (o0 + 8) = length (fd (world st) g) + 8"
    using room' off by (subst unat_add_less) (simp_all add: o0_def)
  have off2: "unat (16 + o0) = length (fd (world st) g) + 16"
    using room' off by (subst unat_add_less) (simp_all add: o0_def)
  have "unat (8 + 8 + len) = 16 + length data"
    using room' len(1) by (subst unat_add_less) simp_all
  then have off3: "unat (o0 + (8 + 8 + len)) = length (fd (world st) g) + (16 + length data)"
    using room' off by (subst unat_add_less) (simp_all add: o0_def)
  have d1: "fd w1 = (fd (world st))(g := fd (world st) g @ le_bytes 8 (unat seq))"
    using off by (simp add: w1_def o0_def kernel_write_data [OF laws] pwrite_at_end')
  have d2: "fd w2 = (fd (world st))(g := fd (world st) g @ le_bytes 8 (unat seq) @ le_bytes 8 (unat len))"
    by (simp add: w2_def kernel_write_data [OF laws] pwrite_at_end' off1 d1)
  have d3: "fd w3 = (fd (world st))(g := fd (world st) g @ sv_entry seq data)"
    by (simp add: w3_def kernel_write_data [OF laws] pwrite_at_end' off2 d2 sv_entry_def len(1))
  have "files_ok fd ?st'"
    using hg off d3 off3 by (simp add: files_ok_def sv_entry_def)
  with run d3 hg show ?thesis
    by (simp add: same_control_def file_data_def)
qed

section \<open>Draining the buffers\<close>

lemma wbuf_data_simps [simp]:
  "wbuf_data [] = []"
  "wbuf_data (n # ns) = the (wb_buf n) @ wbuf_data ns"
  "wbuf_data (ns @ ms) = wbuf_data ns @ wbuf_data ms"
  by (simp_all add: wbuf_data_def)

lemma svbuf_data_simps [simp]:
  "svbuf_data [] = []"
  "svbuf_data (n # ns) = sv_entry (sb_seq n) (the (sb_buf n)) @ svbuf_data ns"
  "svbuf_data (ns @ ms) = svbuf_data ns @ svbuf_data ms"
  by (simp_all add: svbuf_data_def)

lemma trace_wbuf_drain_ok:
  assumes laws: "kernel_laws K fd" "kernel_no_failure K"
  shows "\<lbrakk>files_ok fd st; list_all wbuf_ok ns;
     length (file_data fd (world st) (filp st)) + length (wbuf_data ns) < 2 ^ 64\<rbrakk> \<Longrightarrow>
   \<exists>st'. trace_wbuf_drain K ns st = Inr st' \<and> files_ok fd st' \<and> same_control st st' \<and>
     file_data fd (world st') (filp st) = file_data fd (world st) (filp st) @ wbuf_data ns \<and>
     file_data fd (world st') (sv_filp st) = file_data fd (world st) (sv_filp st) \<and>
     trace_wbuf_header st' = (if ns = [] then trace_wbuf_header st else []) \<and>
     trace_num_wbuf st' = trace_num_wbuf st - of_nat (length ns) \<and>
     trace_svbuf_header st' = trace_svbuf_header st \<and> trace_num_svbuf st' = trace_num_svbuf st"
proof (induction ns arbitrary: st)
  case Nil
  then show ?case by simp
next
  case (Cons n ns)
  from Cons.prems obtain b where b: "wb_buf n = Some b" "wb_size n = length b"
    by (auto simp: wbuf_ok_def split: option.splits)
  from Cons.prems b have "length (file_data fd (world st) (filp st)) + length b < 2 ^ 64" by simp
  from write_file_ok [OF laws Cons.prems(1) order_refl this] b obtain st1 where
    st1: "write_file K b (wb_size n) st = Inr st1" "files_ok fd st1" "same_control st st1"
      "file_data fd (world st1) (filp st) = file_data fd (world st) (filp st) @ b"
      "file_data fd (world st1) (sv_filp st) = file_data fd (world st) (sv_filp st)"
      "st1 = st\<lparr>offset := offset st1, world := world st1\<rparr>" by auto
  let ?st2 = "st1\<lparr>trace_num_wbuf := trace_num_wbuf st1 - 1, trace_wbuf_header := ns\<rparr>"
  have eqs: "trace_num_wbuf st1 = trace_num_wbuf st" "trace_svbuf_header st1 = trace_svbuf_header st"
    "trace_num_svbuf st1 = trace_num_svbuf st"
    by (subst st1(6); simp)+
  have "files_ok fd ?st2" using st1(2) by simp
  moreover have "filp st1 = filp st" "sv_filp st1 = sv_filp st" using st1(3) by (simp_all add: same_control_def)
  ultimately have "\<exists>st'. trace_wbuf_drain K ns ?st2 = Inr st' \<and> files_ok fd st' \<and> same_control ?st2 st' \<and>
     file_data fd (world st') (filp st) = file_data fd (world st1) (filp st) @ wbuf_data ns \<and>
     file_data fd (world st') (sv_filp st) = file_data fd (world st1) (sv_filp st) \<and>
     trace_wbuf_header st' = (if ns = [] then trace_wbuf_header ?st2 else []) \<and>
     trace_num_wbuf st' = trace_num_wbuf ?st2 - of_nat (length ns) \<and>
     trace_svbuf_header st' = trace_svbuf_header st \<and> trace_num_svbuf st' = trace_num_svbuf st"
    using Cons.IH [of ?st2] Cons.prems b st1(4) eqs by simp
  then obtain st' where st': "trace_wbuf_drain K ns ?st2 = Inr st'" "files_ok fd st'" "same_control ?st2 st'"
     "file_data fd (world st') (filp st) = file_data fd (world st1) (filp st) @ wbuf_data ns"
     "file_data fd (world st') (sv_filp st) = file_data fd (world st1) (sv_filp st)"
     "trace_wbuf_header st' = []"
     "trace_num_wbuf st' = trace_num_wbuf ?st2 - of_nat (length ns)"
     "trace_svbuf_header st' = trace_svbuf_header st" "trace_num_svbuf st' = trace_num_svbuf st"
    by (auto split: if_splits)
  have "same_control st st'"
    using st1(3) st'(3) by (simp add: same_control_def)
  with st' st1 b eqs show ?case by simp
qed

lemma trace_svbuf_drain_ok:
  assumes laws: "kernel_laws K fd" "kernel_no_failure K"
  shows "\<lbrakk>files_ok fd st; list_all svbuf_ok ns;
     length (file_data fd (world st) (sv_filp st)) + length (svbuf_data ns) < 2 ^ 64\<rbrakk> \<Longrightarrow>
   \<exists>st'. trace_svbuf_drain K ns st = Inr st' \<and> files_ok fd st' \<and> same_control st st' \<and>
     file_data fd (world st') (sv_filp st) = file_data fd (world st) (sv_filp st) @ svbuf_data ns \<and>
     file_data fd (world st') (filp st) = file_data fd (world st) (filp st) \<and>
     trace_svbuf_header st' = (if ns = [] then trace_svbuf_header st else []) \<and>
     trace_num_svbuf st' = trace_num_svbuf st - of_nat (length ns) \<and>
     trace_wbuf_header st' = trace_wbuf_header st \<and> trace_num_wbuf st' = trace_num_wbuf st"
proof (induction ns arbitrary: st)
  case Nil
  then show ?case by simp
next
  case (Cons n ns)
  from Cons.prems obtain b where b: "sb_buf n = Some b" "unat (sb_size n) = length b"
      "length b \<le> MAX_SV_BUF_SIZE"
    by (auto simp: svbuf_ok_def split: option.splits)
  from Cons.prems b have "length (file_data fd (world st) (sv_filp st)) + (16 + length b) < 2 ^ 64"
    by (simp add: sv_entry_def)
  from write_sv_file_ok [OF laws Cons.prems(1) b(2,3) this] b obtain st1 where
    st1: "write_sv_file K (sb_seq n) b (sb_size n) st = Inr st1" "files_ok fd st1" "same_control st st1"
      "file_data fd (world st1) (sv_filp st) =
         file_data fd (world st) (sv_filp st) @ sv_entry (sb_seq n) b"
      "file_data fd (world st1) (filp st) = file_data fd (world st) (filp st)"
      "st1 = st\<lparr>sv_offset := sv_offset st1, world := world st1\<rparr>" by blast
  let ?st2 = "st1\<lparr>trace_num_svbuf := trace_num_svbuf st1 - 1, trace_svbuf_header := ns\<rparr>"
  have eqs: "trace_num_svbuf st1 = trace_num_svbuf st" "trace_wbuf_header st1 = trace_wbuf_header st"
    "trace_num_wbuf st1 = trace_num_wbuf st"
    by (subst st1(6); simp)+
  have "files_ok fd ?st2" using st1(2) by simp
  moreover have "filp st1 = filp st" "sv_filp st1 = sv_filp st"
    using st1(3) by (simp_all add: same_control_def)
  ultimately obtain st' where st': "trace_svbuf_drain K ns ?st2 = Inr st'" "files_ok fd st'"
     "same_control ?st2 st'"
     "file_data fd (world st') (sv_filp st) = file_data fd (world st1) (sv_filp st) @ svbuf_data ns"
     "file_data fd (world st') (filp st) = file_data fd (world st1) (filp st)"
     "trace_svbuf_header st' = (if ns = [] then trace_svbuf_header ?st2 else [])"
     "trace_num_svbuf st' = trace_num_svbuf ?st2 - of_nat (length ns)"
     "trace_wbuf_header st' = trace_wbuf_header st" "trace_num_wbuf st' = trace_num_wbuf st"
    using Cons.IH [of ?st2] Cons.prems b st1(4) eqs by (auto simp: sv_entry_def)
  have "same_control st st'"
    using st1(3) st'(3) by (simp add: same_control_def)
  with st' st1 b eqs show ?case by (auto split: if_splits)
qed

lemma file_data_update [simp]:
  "file_data fd (world (trace_lock_unlock st)) fp = file_data fd (world st) fp"
  by (simp add: trace_lock_unlock_def)

lemmas trace_lock_defs = trace_lock_lock_def trace_lock_unlock_def

lemma trace_wbuf_drain_all:
  assumes laws: "kernel_laws K fd" "kernel_no_failure K"
    and ok: "files_ok fd st" "bufs_ok st" and room: "length (rec_log fd st) < 2 ^ 64"
  shows "\<exists>st'. trace_wbuf_drain K (trace_wbuf_header st) st = Inr st' \<and> files_ok fd st' \<and> bufs_ok st' \<and>
     same_control st st' \<and> rec_log fd st' = rec_log fd st \<and> val_log fd st' = val_log fd st \<and>
     trace_wbuf_header st' = [] \<and> trace_svbuf_header st' = trace_svbuf_header st"
proof -
  from trace_wbuf_drain_ok [OF laws ok(1), of "trace_wbuf_header st"] ok(2) room
  obtain st' where "trace_wbuf_drain K (trace_wbuf_header st) st = Inr st'" "files_ok fd st'"
     "same_control st st'"
     "file_data fd (world st') (filp st) = rec_log fd st"
     "file_data fd (world st') (sv_filp st) = file_data fd (world st) (sv_filp st)"
     "trace_wbuf_header st' = []"
     "trace_num_wbuf st' = 0"
     "trace_svbuf_header st' = trace_svbuf_header st" "trace_num_svbuf st' = trace_num_svbuf st"
    by (auto simp: bufs_ok_def rec_log_def split: if_splits)
  with ok(2) show ?thesis
    by (simp add: bufs_ok_def rec_log_def val_log_def same_control_def)
qed

lemma trace_svbuf_drain_all:
  assumes laws: "kernel_laws K fd" "kernel_no_failure K"
    and ok: "files_ok fd st" "bufs_ok st" and room: "length (val_log fd st) < 2 ^ 64"
  shows "\<exists>st'. trace_svbuf_drain K (trace_svbuf_header st) st = Inr st' \<and> files_ok fd st' \<and> bufs_ok st' \<and>
     same_control st st' \<and> rec_log fd st' = rec_log fd st \<and> val_log fd st' = val_log fd st \<and>
     trace_svbuf_header st' = [] \<and> trace_wbuf_header st' = trace_wbuf_header st"
proof -
  from trace_svbuf_drain_ok [OF laws ok(1), of "trace_svbuf_header st"] ok(2) room
  obtain st' where "trace_svbuf_drain K (trace_svbuf_header st) st = Inr st'" "files_ok fd st'"
     "same_control st st'"
     "file_data fd (world st') (sv_filp st) = val_log fd st"
     "file_data fd (world st') (filp st) = file_data fd (world st) (filp st)"
     "trace_svbuf_header st' = []"
     "trace_num_svbuf st' = 0"
     "trace_wbuf_header st' = trace_wbuf_header st" "trace_num_wbuf st' = trace_num_wbuf st"
    by (auto simp: bufs_ok_def val_log_def split: if_splits)
  with ok(2) show ?thesis
    by (simp add: bufs_ok_def rec_log_def val_log_def same_control_def)
qed

lemma log_lock_update [simp]:
  "rec_log fd (st\<lparr>trace_lock := b\<rparr>) = rec_log fd st"
  "val_log fd (st\<lparr>trace_lock := b\<rparr>) = val_log fd st"
  "bufs_ok (st\<lparr>trace_lock := b\<rparr>) = bufs_ok st"
  "rec_log fd (st\<lparr>trace_order_num := q\<rparr>) = rec_log fd st"
  "val_log fd (st\<lparr>trace_order_num := q\<rparr>) = val_log fd st"
  "bufs_ok (st\<lparr>trace_order_num := q\<rparr>) = bufs_ok st"
  by (simp_all add: rec_log_def val_log_def bufs_ok_def)

lemma trace_wbuf_write_all_ok:
  assumes ok: "sink_ok K fd st" and room: "length (rec_log fd st) < 2 ^ 64"
  shows "\<exists>st'. trace_wbuf_write_all K st = Inr st' \<and> sink_ok K fd st' \<and> same_control st st' \<and>
     rec_log fd st' = rec_log fd st \<and> val_log fd st' = val_log fd st \<and> trace_wbuf_header st' = []"
proof (cases "trace_wbuf_header st = []")
  case True
  with ok show ?thesis by (simp add: trace_wbuf_write_all_def)
next
  case False
  have "files_ok fd (st\<lparr>trace_lock := True\<rparr>)" "bufs_ok (st\<lparr>trace_lock := True\<rparr>)"
    using ok by (simp_all add: sink_ok_def)
  with trace_wbuf_drain_all [of K fd "st\<lparr>trace_lock := True\<rparr>"] ok room
  obtain st1 where "trace_wbuf_drain K (trace_wbuf_header st) (st\<lparr>trace_lock := True\<rparr>) = Inr st1"
    "files_ok fd st1" "bufs_ok st1" "same_control (st\<lparr>trace_lock := True\<rparr>) st1"
    "rec_log fd st1 = rec_log fd st" "val_log fd st1 = val_log fd st" "trace_wbuf_header st1 = []"
    by (auto simp: sink_ok_def)
  with False ok show ?thesis
    by (simp add: trace_wbuf_write_all_def trace_lock_defs sink_ok_def same_control_def)
qed

lemma trace_svbuf_write_all_ok:
  assumes ok: "sink_ok K fd st" and room: "length (val_log fd st) < 2 ^ 64"
  shows "\<exists>st'. trace_svbuf_write_all K st = Inr st' \<and> sink_ok K fd st' \<and> same_control st st' \<and>
     rec_log fd st' = rec_log fd st \<and> val_log fd st' = val_log fd st \<and> trace_svbuf_header st' = []"
proof (cases "trace_svbuf_header st = []")
  case True
  with ok show ?thesis by (simp add: trace_svbuf_write_all_def)
next
  case False
  have "files_ok fd (st\<lparr>trace_lock := True\<rparr>)" "bufs_ok (st\<lparr>trace_lock := True\<rparr>)"
    using ok by (simp_all add: sink_ok_def)
  with trace_svbuf_drain_all [of K fd "st\<lparr>trace_lock := True\<rparr>"] ok room
  obtain st1 where "trace_svbuf_drain K (trace_svbuf_header st) (st\<lparr>trace_lock := True\<rparr>) = Inr st1"
    "files_ok fd st1" "bufs_ok st1" "same_control (st\<lparr>trace_lock := True\<rparr>) st1"
    "rec_log fd st1 = rec_log fd st" "val_log fd st1 = val_log fd st" "trace_svbuf_header st1 = []"
    by (auto simp: sink_ok_def)
  with False ok show ?thesis
    by (simp add: trace_svbuf_write_all_def trace_lock_defs sink_ok_def same_control_def)
qed

section \<open>Buffered records\<close>

text \<open>
  A record fits the 512-byte buffer when its text is shorter than 512 bytes, or has exactly 512 bytes
  and ends with the newline that the code stores over the last one.
\<close>

definition record_ok :: "string \<Rightarrow> bool" where
  "record_ok s \<longleftrightarrow> length s < 512 \<or> length s = 512 \<and> last s = CHR 0x0A"

lemma length_record_buf [simp]: "length (record_buf s) = 512"
  by (simp add: record_buf_def Let_def min_def)

lemma record_buf_take:
  assumes "record_ok s"
  shows "take (length s) (record_buf s) = bytes_of s"
proof (cases "length s < 512")
  case True
  then show ?thesis by (simp add: record_buf_def bytes_of_def)
next
  case False
  with assms have len: "length s = 512" and nl: "last s = CHR 0x0A" by (auto simp: record_ok_def)
  define s' where "s' = butlast s"
  from len have "s \<noteq> []" by auto
  then have "s = s' @ [CHR 0x0A]" using nl append_butlast_last_id [of s] by (simp add: s'_def)
  moreover have "length s' = 511" using len by (simp add: s'_def)
  ultimately show ?thesis by (simp add: record_buf_def bytes_of_def list_update_append)
qed

lemma trace_wbuf_add_node_ok:
  assumes ok: "sink_ok K fd st" and len: "sz \<le> length src"
  shows "\<exists>st'. trace_wbuf_add_node K src sz st = Inr st' \<and> sink_ok K fd st' \<and> same_control st st' \<and>
     rec_log fd st' = rec_log fd st @ take sz src \<and> val_log fd st' = val_log fd st"
proof -
  from ok have laws: "kernel_laws K fd" and nf: "kernel_no_failure K" by (simp_all add: sink_ok_def)
  obtain w where w: "k_kmalloc K sz (world st) = (True, w)" "fd w = fd (world st)"
    using kernel_alloc_ok(2) [OF nf, of sz "world st"] kernel_alloc_data(3) [OF laws, of sz "world st"]
    by (cases "k_kmalloc K sz (world st)") simp
  with ok len show ?thesis
    by (auto simp: trace_wbuf_add_node_def read_buf_def trace_lock_defs sink_ok_def same_control_def
        files_ok_def bufs_ok_def rec_log_def val_log_def file_data_def wbuf_ok_def split: fptr.splits)
qed

lemma trace_svbuf_add_node_ok:
  assumes ok: "sink_ok K fd st" and len: "unat sz = length src" "length src \<le> MAX_SV_BUF_SIZE"
  shows "\<exists>st'. trace_svbuf_add_node K seq src sz st = Inr st' \<and> sink_ok K fd st' \<and> same_control st st' \<and>
     rec_log fd st' = rec_log fd st \<and> val_log fd st' = val_log fd st @ sv_entry seq src"
proof -
  from ok have laws: "kernel_laws K fd" and nf: "kernel_no_failure K" by (simp_all add: sink_ok_def)
  obtain w where w: "k_kmalloc K (unat sz) (world st) = (True, w)" "fd w = fd (world st)"
    using kernel_alloc_ok(2) [OF nf, of "unat sz" "world st"]
      kernel_alloc_data(3) [OF laws, of "unat sz" "world st"]
    by (cases "k_kmalloc K (unat sz) (world st)") simp
  with ok len show ?thesis
    by (auto simp: trace_svbuf_add_node_def read_buf_def trace_lock_defs sink_ok_def same_control_def
        files_ok_def bufs_ok_def rec_log_def val_log_def file_data_def svbuf_ok_def split: fptr.splits)
qed

end
