(* ===== verification/Trace_Sink.thy ===== *)
theory Trace_Sink
  imports Trace_Log
begin

text \<open>
  The interface between the per-instruction functions and the output functions (locale \<open>trace_sink\<close>),
  its two implementations, and what a traced program gets from it: the records and the values of a
  sequence of instrumented stores, in program order.
\<close>

section \<open>The contract\<close>

definition record_text :: "kctx \<Rightarrow> u64 \<Rightarrow> string \<Rightarrow> string" where
  "record_text c seq msg = record_prefix c seq @ msg"

locale trace_sink =
  fixes out :: "'w outf"
    and rlog vlog :: "'w trace_state \<Rightarrow> u8 list"
    and ok :: "'w trace_state \<Rightarrow> bool"
  assumes record_law:
    "\<lbrakk>ok st; record_ok (record_text c seq msg);
      length (rlog st) + length (record_text c seq msg) < 2 ^ 64\<rbrakk> \<Longrightarrow>
     \<exists>st'. o_record out c seq msg st = Inr st' \<and> ok st' \<and> same_control st st' \<and>
       rlog st' = rlog st @ bytes_of (record_text c seq msg) \<and> vlog st' = vlog st"
  and value_law:
    "\<lbrakk>ok st; unat len \<le> MAX_SV_BUF_SIZE; length (vlog st) + (16 + unat len) < 2 ^ 64\<rbrakk> \<Longrightarrow>
     \<exists>st'. o_value out c seq buf len st = Inr st' \<and> ok st' \<and> same_control st st' \<and>
       vlog st' = vlog st @ sv_entry seq (mem_bytes c buf (unat len)) \<and> rlog st' = rlog st"
  and ok_unlocked: "ok st \<Longrightarrow> \<not> trace_lock st"
  and seq_update:
    "ok (st\<lparr>trace_order_num := q\<rparr>) = ok st"
    "rlog (st\<lparr>trace_order_num := q\<rparr>) = rlog st"
    "vlog (st\<lparr>trace_order_num := q\<rparr>) = vlog st"
begin

text \<open>A list of records becomes the same list in the log, in the order of emission.\<close>

fun emit_all :: "(kctx \<times> u64 \<times> string) list \<Rightarrow> 'w trace_state \<Rightarrow> 'w tres" where
  "emit_all [] st = Inr st"
| "emit_all ((c, seq, msg) # rs) st = rbind (o_record out c seq msg st) (emit_all rs)"

lemma emit_all_ok:
  "\<lbrakk>ok st; \<forall>(c, seq, msg) \<in> set rs. record_ok (record_text c seq msg);
    length (rlog st) + length (concat (map (\<lambda>(c, seq, msg). record_text c seq msg) rs)) < 2 ^ 64\<rbrakk> \<Longrightarrow>
   \<exists>st'. emit_all rs st = Inr st' \<and> ok st' \<and> same_control st st' \<and> vlog st' = vlog st \<and>
     rlog st' = rlog st @ bytes_of (concat (map (\<lambda>(c, seq, msg). record_text c seq msg) rs))"
proof (induction rs arbitrary: st)
  case Nil
  then show ?case by (simp add: bytes_of_def)
next
  case (Cons r rs)
  obtain c seq msg where r: "r = (c, seq, msg)" by (cases r)
  from Cons.prems r record_law [of st c seq msg] obtain st1 where
    st1: "o_record out c seq msg st = Inr st1" "ok st1" "same_control st st1" "vlog st1 = vlog st"
      "rlog st1 = rlog st @ bytes_of (record_text c seq msg)" by auto
  from Cons.prems r st1 Cons.IH [of st1] obtain st' where "emit_all rs st1 = Inr st'" "ok st'"
      "same_control st1 st'" "vlog st' = vlog st1"
      "rlog st' = rlog st1 @ bytes_of (concat (map (\<lambda>(c, seq, msg). record_text c seq msg) rs))"
    by auto
  with r st1 show ?case by (auto dest: same_control_trans [of st st1 st'])
qed

end

section \<open>Implementations\<close>

lemma sink_ok_world:
  assumes "sink_ok K fd st" and "fd w = fd (world st)"
  shows "sink_ok K fd (st\<lparr>world := w\<rparr>)"
    and "rec_log fd (st\<lparr>world := w\<rparr>) = rec_log fd st"
    and "val_log fd (st\<lparr>world := w\<rparr>) = val_log fd st"
    and "same_control st (st\<lparr>world := w\<rparr>)"
  using assms
  by (auto simp: sink_ok_def files_ok_def bufs_ok_def rec_log_def val_log_def file_data_def
      same_control_def split: fptr.splits)

lemma cache_alloc_ok:
  assumes "sink_ok K fd st"
  obtains w where "k_kmem_cache_alloc K s (world st) = (True, w)" "fd w = fd (world st)"
proof -
  have "fst (k_kmem_cache_alloc K s (world st))"
    and "fd (snd (k_kmem_cache_alloc K s (world st))) = fd (world st)"
    using assms by (simp_all add: sink_ok_def kernel_alloc_ok kernel_alloc_data)
  then show thesis
    using that by (cases "k_kmem_cache_alloc K s (world st)") simp
qed

text \<open>Buffering a record that fits, in either runtime.\<close>

lemma trace_wbuf_add_ok:
  assumes ok: "sink_ok K fd st" and rec: "record_ok s"
  shows "\<exists>st'. trace_wbuf_add K (record_buf s) (length s) st = Inr st' \<and>
       pmfs_trace_wbuf_add K (record_buf s) (length s) st = Inr st' \<and>
       sink_ok K fd st' \<and> same_control st st' \<and>
       rec_log fd st' = rec_log fd st @ bytes_of s \<and> val_log fd st' = val_log fd st"
proof -
  from ok obtain w where w: "k_kmem_cache_alloc K ''trace_wbuf'' (world st) = (True, w)"
      "fd w = fd (world st)" by (rule cache_alloc_ok)
  note ok1 = sink_ok_world [OF ok w(2)]
  from rec have len: "length s \<le> length (record_buf s)" by (auto simp: record_ok_def)
  from trace_wbuf_add_node_ok [OF ok1(1) len] obtain st' where
    "trace_wbuf_add_node K (record_buf s) (length s) (st\<lparr>world := w\<rparr>) = Inr st'" "sink_ok K fd st'"
    "same_control st st'" "rec_log fd st' = rec_log fd st @ bytes_of s" "val_log fd st' = val_log fd st"
    using record_buf_take [OF rec] ok1(2-4) same_control_trans by fastforce
  then show ?thesis
    using w(1) ok len
    by (simp add: trace_wbuf_add_def new_trace_wbuf_node_def pmfs_trace_wbuf_add_def
        pmfs_new_trace_wbuf_node_def sink_ok_def)
qed

text \<open>Writing a record directly, which first drains the buffer.\<close>

lemma direct_record_ok:
  assumes ok: "sink_ok K fd st" and rec: "record_ok s"
    and room: "length (rec_log fd st) + length s < 2 ^ 64"
  shows "\<exists>st'. rbind (trace_wbuf_write_all K st) (write_file K (record_buf s) (length s)) = Inr st' \<and>
     sink_ok K fd st' \<and> same_control st st' \<and> trace_wbuf_header st' = [] \<and>
     rec_log fd st' = rec_log fd st @ bytes_of s \<and> val_log fd st' = val_log fd st"
proof -
  from trace_wbuf_write_all_ok [OF ok] room obtain st1 where
    st1: "trace_wbuf_write_all K st = Inr st1" "sink_ok K fd st1" "same_control st st1"
      "rec_log fd st1 = rec_log fd st" "val_log fd st1 = val_log fd st" "trace_wbuf_header st1 = []"
    by auto
  from rec have len: "length s \<le> length (record_buf s)" by (auto simp: record_ok_def)
  from st1(4,6) room have "length (file_data fd (world st1) (filp st1)) + length s < 2 ^ 64"
    by (simp add: rec_log_def)
  with st1(2) len obtain st' where st': "write_file K (record_buf s) (length s) st1 = Inr st'"
      "files_ok fd st'" "same_control st1 st'"
      "file_data fd (world st') (filp st1) = file_data fd (world st1) (filp st1) @ bytes_of s"
      "file_data fd (world st') (sv_filp st1) = file_data fd (world st1) (sv_filp st1)"
      "st' = st1\<lparr>offset := offset st', world := world st'\<rparr>"
    using write_file_ok [of K fd st1 "length s" "record_buf s"] record_buf_take [OF rec]
    by (auto simp: sink_ok_def)
  have bufs: "trace_wbuf_header st' = trace_wbuf_header st1" "trace_svbuf_header st' = trace_svbuf_header st1"
     "trace_num_wbuf st' = trace_num_wbuf st1" "trace_num_svbuf st' = trace_num_svbuf st1"
    by (subst st'(6); simp)+
  have "sink_ok K fd st'"
    using st1(2) st'(2,3) bufs by (simp add: sink_ok_def bufs_ok_def same_control_def)
  moreover have "rec_log fd st' = rec_log fd st @ bytes_of s" "val_log fd st' = val_log fd st"
    using st'(3,4,5) st1(4,5,6) bufs by (simp_all add: rec_log_def val_log_def same_control_def)
  ultimately show ?thesis
    using st1(1,3,6) st'(1,3) bufs(1) by (auto dest: same_control_trans)
qed

text \<open>The same two lemmas for values.\<close>

lemma trace_svbuf_add_ok:
  assumes ok: "sink_ok K fd st" and len: "unat len = length d" "length d \<le> MAX_SV_BUF_SIZE"
  shows "\<exists>st'. trace_svbuf_add K seq d len st = Inr st' \<and> pmfs_trace_svbuf_add K seq d len st = Inr st' \<and>
       sink_ok K fd st' \<and> same_control st st' \<and>
       val_log fd st' = val_log fd st @ sv_entry seq d \<and> rec_log fd st' = rec_log fd st"
proof -
  from ok obtain w where w: "k_kmem_cache_alloc K ''trace_svbuf'' (world st) = (True, w)"
      "fd w = fd (world st)" by (rule cache_alloc_ok)
  note ok1 = sink_ok_world [OF ok w(2)]
  from trace_svbuf_add_node_ok [OF ok1(1) len] obtain st' where
    "trace_svbuf_add_node K seq d len (st\<lparr>world := w\<rparr>) = Inr st'" "sink_ok K fd st'"
    "same_control st st'" "val_log fd st' = val_log fd st @ sv_entry seq d" "rec_log fd st' = rec_log fd st"
    using ok1(2-4) same_control_trans by fastforce
  then show ?thesis
    using w(1) ok len
    by (simp add: trace_svbuf_add_def new_trace_svbuf_node_def pmfs_trace_svbuf_add_def
        pmfs_new_trace_svbuf_node_def sink_ok_def)
qed

lemma direct_value_ok:
  assumes ok: "sink_ok K fd st" and len: "unat len = length d" "length d \<le> MAX_SV_BUF_SIZE"
    and room: "length (val_log fd st) + (16 + length d) < 2 ^ 64"
  shows "\<exists>st'. rbind (trace_svbuf_write_all K st) (write_sv_file K seq d len) = Inr st' \<and>
     sink_ok K fd st' \<and> same_control st st' \<and> trace_svbuf_header st' = [] \<and>
     val_log fd st' = val_log fd st @ sv_entry seq d \<and> rec_log fd st' = rec_log fd st"
proof -
  from trace_svbuf_write_all_ok [OF ok] room obtain st1 where
    st1: "trace_svbuf_write_all K st = Inr st1" "sink_ok K fd st1" "same_control st st1"
      "rec_log fd st1 = rec_log fd st" "val_log fd st1 = val_log fd st" "trace_svbuf_header st1 = []"
    by auto
  from st1(5,6) room have "length (file_data fd (world st1) (sv_filp st1)) + (16 + length d) < 2 ^ 64"
    by (simp add: val_log_def)
  with st1(2) obtain st' where st': "write_sv_file K seq d len st1 = Inr st'"
      "files_ok fd st'" "same_control st1 st'"
      "file_data fd (world st') (sv_filp st1) = file_data fd (world st1) (sv_filp st1) @ sv_entry seq d"
      "file_data fd (world st') (filp st1) = file_data fd (world st1) (filp st1)"
      "st' = st1\<lparr>sv_offset := sv_offset st', world := world st'\<rparr>"
    using write_sv_file_ok [of K fd st1 len d seq] len by (auto simp: sink_ok_def)
  have bufs: "trace_wbuf_header st' = trace_wbuf_header st1" "trace_svbuf_header st' = trace_svbuf_header st1"
     "trace_num_wbuf st' = trace_num_wbuf st1" "trace_num_svbuf st' = trace_num_svbuf st1"
    by (subst st'(6); simp)+
  have "sink_ok K fd st'"
    using st1(2) st'(2,3) bufs by (simp add: sink_ok_def bufs_ok_def same_control_def)
  moreover have "val_log fd st' = val_log fd st @ sv_entry seq d" "rec_log fd st' = rec_log fd st"
    using st'(3,4,5) st1(4,5,6) bufs by (simp_all add: rec_log_def val_log_def same_control_def)
  ultimately show ?thesis
    using st1(1,3,6) st'(1,3) bufs(2) by (auto dest: same_control_trans)
qed

lemma sink_ok_seq_update: "sink_ok K fd (st\<lparr>trace_order_num := q\<rparr>) = sink_ok K fd st"
  by (simp add: sink_ok_def)

interpretation nova: trace_sink "nova_out K" "rec_log fd" "val_log fd" "sink_ok K fd" for K fd
proof
  fix st :: "'a trace_state" and c seq msg
  assume "sink_ok K fd st" "record_ok (record_text c seq msg)"
    "length (rec_log fd st) + length (record_text c seq msg) < 2 ^ 64"
  then show "\<exists>st'. o_record (nova_out K) c seq msg st = Inr st' \<and> sink_ok K fd st' \<and> same_control st st' \<and>
      rec_log fd st' = rec_log fd st @ bytes_of (record_text c seq msg) \<and> val_log fd st' = val_log fd st"
    using trace_wbuf_add_ok [of K fd st "record_text c seq msg"]
      direct_record_ok [of K fd st "record_text c seq msg"]
    by (auto simp: nova_out_def output_record_def record_text_def Let_def)
next
  fix st :: "'a trace_state" and len c seq buf
  assume "sink_ok K fd st" "unat (len :: u64) \<le> MAX_SV_BUF_SIZE" "length (val_log fd st) + (16 + unat len) < 2 ^ 64"
  then show "\<exists>st'. o_value (nova_out K) c seq buf len st = Inr st' \<and> sink_ok K fd st' \<and> same_control st st' \<and>
      val_log fd st' = val_log fd st @ sv_entry seq (mem_bytes c buf (unat len)) \<and> rec_log fd st' = rec_log fd st"
    using trace_svbuf_add_ok [of K fd st len "mem_bytes c buf (unat len)" seq]
      direct_value_ok [of K fd st len "mem_bytes c buf (unat len)" seq]
    by (auto simp: nova_out_def output_store_value_def)
qed (simp_all add: sink_ok_seq_update, simp add: sink_ok_def)

interpretation pmfs: trace_sink "pmfs_out K" "rec_log fd" "val_log fd" "sink_ok K fd" for K fd
proof
  fix st :: "'a trace_state" and c seq msg
  assume "sink_ok K fd st" "record_ok (record_text c seq msg)"
  then show "\<exists>st'. o_record (pmfs_out K) c seq msg st = Inr st' \<and> sink_ok K fd st' \<and> same_control st st' \<and>
      rec_log fd st' = rec_log fd st @ bytes_of (record_text c seq msg) \<and> val_log fd st' = val_log fd st"
    using trace_wbuf_add_ok [of K fd st "record_text c seq msg"]
    by (auto simp: pmfs_out_def pmfs_output_record_def record_text_def Let_def)
next
  fix st :: "'a trace_state" and len c seq buf
  assume "sink_ok K fd st" "unat (len :: u64) \<le> MAX_SV_BUF_SIZE"
  then show "\<exists>st'. o_value (pmfs_out K) c seq buf len st = Inr st' \<and> sink_ok K fd st' \<and> same_control st st' \<and>
      val_log fd st' = val_log fd st @ sv_entry seq (mem_bytes c buf (unat len)) \<and> rec_log fd st' = rec_log fd st"
    using trace_svbuf_add_ok [of K fd st len "mem_bytes c buf (unat len)" seq]
    by (auto simp: pmfs_out_def pmfs_output_store_value_def)
qed (simp_all add: sink_ok_seq_update, simp add: sink_ok_def)

end
