(* ===== verification/Trace_Clients.thy ===== *)
theory Trace_Clients
  imports Trace_Sink
begin

text \<open>
  Clients of the trace runtime: an instrumented store, as the compiler pass emits it
  (codebase/trace/src/Giri/TracingNoGiri.cpp, \<^verbatim>\<open>visitStoreInst\<close>), and the reader of the stored-value file
  (codebase/scripts/trace_proc/trace_reader/trace_value_reader.py).
\<close>

section \<open>Instrumented stores\<close>

text \<open>
  The pass inserts a call that acquires one sequence number and a call that records the old value
  before the store, and a call of \<^verbatim>\<open>trace_store_inst\<close> after it; \<open>c\<close> and \<open>c'\<close> are the contexts of the
  calls before and after the store.
\<close>

definition instrumented_store ::
    "'w outf \<Rightarrow> kctx \<Rightarrow> kctx \<Rightarrow> u32 \<Rightarrow> u64 \<Rightarrow> u64 \<Rightarrow> 'w trace_state \<Rightarrow> 'w tres" where
  "instrumented_store out c c' i ptr sz st =
     rbind (trace_acquire_sequence 1 st) (\<lambda>(seq, st1).
     rbind (trace_old_store_value out c seq ptr sz 0 st1) (\<lambda>st2.
       trace_store_inst out c' seq i ptr sz st2))"

record store_ev =
  ev_before :: kctx
  ev_after :: kctx
  ev_id :: u32
  ev_ptr :: u64
  ev_size :: u64

fun run_stores :: "'w outf \<Rightarrow> store_ev list \<Rightarrow> 'w trace_state \<Rightarrow> 'w tres" where
  "run_stores out [] st = Inr st"
| "run_stores out (e # es) st =
     rbind (instrumented_store out (ev_before e) (ev_after e) (ev_id e) (ev_ptr e) (ev_size e) st)
       (run_stores out es)"

text \<open>What one store should leave in the two logs when it has sequence number \<open>q\<close>.\<close>

definition old_bytes :: "store_ev \<Rightarrow> u8 list" where
  "old_bytes e = mem_bytes (ev_before e) (ev_ptr e) (unat (ev_size e))"

definition new_bytes :: "store_ev \<Rightarrow> u8 list" where
  "new_bytes e = mem_bytes (ev_after e) (ev_ptr e) (unat (ev_size e))"

definition store_text :: "u64 \<Rightarrow> store_ev \<Rightarrow> string" where
  "store_text q e =
     record_text (ev_after e) q (access_msg ''store'' (ev_id e) (ev_ptr e) (ev_size e))"

definition store_values :: "u64 \<Rightarrow> store_ev \<Rightarrow> u8 list" where
  "store_values q e = sv_entry (q + OLDSV_START_SEQ) (old_bytes e) @ sv_entry q (new_bytes e)"

fun stores_text :: "u64 \<Rightarrow> store_ev list \<Rightarrow> string" where
  "stores_text q [] = []"
| "stores_text q (e # es) = store_text q e @ stores_text (q + 1) es"

fun stores_values :: "u64 \<Rightarrow> store_ev list \<Rightarrow> u8 list" where
  "stores_values q [] = []"
| "stores_values q (e # es) = store_values q e @ stores_values (q + 1) es"

text \<open>Stores the runtime can trace in full: kernel addresses, values below the buffer limit.\<close>

definition ctx_ok :: "kctx \<Rightarrow> bool" where
  "ctx_ok c \<longleftrightarrow> - (2 ^ 31) \<le> current_pid c \<and> current_pid c < 2 ^ 31"

definition store_ok :: "store_ev \<Rightarrow> bool" where
  "store_ok e \<longleftrightarrow> \<not> is_user_space_address (ev_ptr e) \<and> unat (ev_size e) \<le> MAX_SV_BUF_SIZE \<and>
     ctx_ok (ev_before e) \<and> ctx_ok (ev_after e)"

text \<open>A record whose message has only numeric fields always fits the buffer.\<close>

lemma length_record_prefix:
  assumes "ctx_ok c"
  shows "length (record_prefix c seq) \<le> 35"
  using assms length_dec_str_u64 [of seq] length_int_str_i32 [of "current_pid c"]
  by (simp add: record_prefix_def ctx_ok_def)

lemma length_access_msg: "length (access_msg s i ptr sz) \<le> max 15 (length s) + 72"
  using length_dec_str_u32 [of i] length_hex_str_u64 [of ptr] length_dec_str_u64 [of sz]
  by (simp add: access_msg_def f_kind_def f_id_def f_ptr_def f_size_def nl_def)

lemma access_record_ok:
  assumes "ctx_ok c" and "length s \<le> 15"
  shows "record_ok (record_text c seq (access_msg s i ptr sz))"
    and "length (record_text c seq (access_msg s i ptr sz)) \<le> 122"
  using length_record_prefix [OF assms(1), of seq] length_access_msg [of s i ptr sz] assms(2)
  by (simp_all add: record_ok_def record_text_def)

lemma length_store_text: "store_ok e \<Longrightarrow> length (store_text q e) \<le> 122"
  by (simp add: store_text_def store_ok_def access_record_ok(2))

lemma length_store_values: "length (store_values q e) = 2 * (16 + unat (ev_size e))"
  by (simp add: store_values_def sv_entry_def old_bytes_def new_bytes_def)

context trace_sink
begin

lemma instrumented_store_ok:
  assumes ok: "ok st" and en: "trace_enabled st \<noteq> 0" and ev: "store_ok e"
    and seq: "trace_order_num st < MAX_TRACE_SEQ_NUM"
    and room: "length (rlog st) + length (store_text (trace_order_num st) e) < 2 ^ 64"
      "length (vlog st) + length (store_values (trace_order_num st) e) < 2 ^ 64"
  shows "\<exists>st'. instrumented_store out (ev_before e) (ev_after e) (ev_id e) (ev_ptr e) (ev_size e) st = Inr st' \<and>
     ok st' \<and> same_control (st\<lparr>trace_order_num := trace_order_num st + 1\<rparr>) st' \<and>
     rlog st' = rlog st @ bytes_of (store_text (trace_order_num st) e) \<and>
     vlog st' = vlog st @ store_values (trace_order_num st) e"
proof -
  let ?q = "trace_order_num st"
  let ?c = "ev_before e" and ?c' = "ev_after e" and ?p = "ev_ptr e" and ?n = "ev_size e"
  define st1 where "st1 = trace_lock_unlock (st\<lparr>trace_lock := True, trace_order_num := ?q + 1\<rparr>)"
  have st1: "st1 = st\<lparr>trace_order_num := ?q + 1\<rparr>"
    using ok_unlocked [OF ok] by (simp add: st1_def trace_lock_unlock_def)
  have ok1: "ok st1" "rlog st1 = rlog st" "vlog st1 = vlog st"
    using ok by (simp_all add: st1 seq_update)
  from ev have n: "unat ?n \<le> MAX_SV_BUF_SIZE" by (simp add: store_ok_def)
  have "length (vlog st1) + (16 + unat ?n) < 2 ^ 64"
    using room(2) ok1(3) by (simp add: length_store_values)
  from value_law [OF ok1(1) n this, of ?c "?q + OLDSV_START_SEQ" ?p] ok1(2,3) obtain st2 where
    st2: "o_value out ?c (?q + OLDSV_START_SEQ) ?p ?n st1 = Inr st2" "ok st2" "same_control st1 st2"
      "vlog st2 = vlog st @ sv_entry (?q + OLDSV_START_SEQ) (old_bytes e)" "rlog st2 = rlog st"
    by (auto simp: old_bytes_def)
  have "record_ok (record_text ?c' ?q (access_msg ''store'' (ev_id e) ?p ?n))"
    using ev by (simp add: store_ok_def access_record_ok)
  from record_law [OF st2(2) this] room(1) st2(5) obtain st3 where
    st3: "o_record out ?c' ?q (access_msg ''store'' (ev_id e) ?p ?n) st2 = Inr st3" "ok st3"
      "same_control st2 st3" "rlog st3 = rlog st @ bytes_of (store_text ?q e)" "vlog st3 = vlog st2"
    by (auto simp: store_text_def)
  have "length (vlog st3) + (16 + unat ?n) < 2 ^ 64"
    using room(2) st2(4) st3(5) by (simp add: length_store_values sv_entry_def old_bytes_def)
  from value_law [OF st3(2) n this, of ?c' ?q ?p] obtain st4 where
    st4: "o_value out ?c' ?q ?p ?n st3 = Inr st4" "ok st4" "same_control st3 st4"
      "vlog st4 = vlog st3 @ sv_entry ?q (new_bytes e)" "rlog st4 = rlog st3"
    by (auto simp: new_bytes_def)
  have "trace_acquire_sequence 1 st = Inr (?q, st1)"
    using ok_unlocked [OF ok] en by (simp add: trace_acquire_sequence_def trace_lock_lock_def st1_def)
  moreover have "\<not> MAX_TRACE_SEQ_NUM \<le> ?q" using seq by simp
  moreover have "same_control (st\<lparr>trace_order_num := ?q + 1\<rparr>) st4"
    using st1 st2(3) st3(3) st4(3) by (simp add: same_control_def)
  ultimately show ?thesis
    using st2 st3 st4 ev
    by (simp add: instrumented_store_def trace_old_store_value_def trace_store_inst_def
        TRACE_CHECK_SEQ_RETURN_def TRACE_DRAM_ADDR_def store_ok_def store_values_def)
qed

text \<open>A run of instrumented stores: consecutive sequence numbers, records and values in program order.\<close>

lemma run_stores_ok:
  "\<lbrakk>ok st; trace_enabled st \<noteq> 0; list_all store_ok es;
    unat (trace_order_num st) + length es \<le> unat MAX_TRACE_SEQ_NUM;
    length (rlog st) + length (stores_text (trace_order_num st) es) < 2 ^ 64;
    length (vlog st) + length (stores_values (trace_order_num st) es) < 2 ^ 64\<rbrakk> \<Longrightarrow>
   \<exists>st'. run_stores out es st = Inr st' \<and> ok st' \<and>
     same_control (st\<lparr>trace_order_num := trace_order_num st + of_nat (length es)\<rparr>) st' \<and>
     rlog st' = rlog st @ bytes_of (stores_text (trace_order_num st) es) \<and>
     vlog st' = vlog st @ stores_values (trace_order_num st) es"
proof (induction es arbitrary: st)
  case Nil
  then show ?case by (simp add: bytes_of_def)
next
  case (Cons e es)
  let ?q = "trace_order_num st"
  from Cons.prems(4) have lt: "?q < MAX_TRACE_SEQ_NUM" by (simp add: word_less_nat_alt)
  from Cons.prems instrumented_store_ok [of st e] lt obtain st1 where
    st1: "instrumented_store out (ev_before e) (ev_after e) (ev_id e) (ev_ptr e) (ev_size e) st = Inr st1"
      "ok st1" "same_control (st\<lparr>trace_order_num := ?q + 1\<rparr>) st1"
      "rlog st1 = rlog st @ bytes_of (store_text ?q e)" "vlog st1 = vlog st @ store_values ?q e"
    by auto
  have "unat (?q + 1) = unat ?q + 1"
    using Cons.prems(4) by (subst unat_add_less) (simp_all add: MAX_TRACE_SEQ_NUM_def)
  moreover have st1': "trace_enabled st1 = trace_enabled st" "trace_order_num st1 = ?q + 1"
    using st1(3) by (simp_all add: same_control_def)
  ultimately obtain st' where "run_stores out es st1 = Inr st'" "ok st'"
      "same_control (st1\<lparr>trace_order_num := ?q + 1 + of_nat (length es)\<rparr>) st'"
      "rlog st' = rlog st1 @ bytes_of (stores_text (?q + 1) es)"
      "vlog st' = vlog st1 @ stores_values (?q + 1) es"
    using Cons.prems st1 Cons.IH [of st1] by auto
  with st1 st1' show ?case by (auto simp: same_control_def algebra_simps)
qed

end

section \<open>The reader of the stored-value file\<close>

definition OLD_VALUE_SEQ_BASE :: nat where "OLD_VALUE_SEQ_BASE = 1000000000000"

datatype read_error = BadSeqLength | BadSizeLength | DupOld nat | DupNew nat

type_synonym value_map = "nat \<rightharpoonup> u8 list \<times> nat"

definition is_old_value_seq :: "nat \<Rightarrow> bool" where
  "is_old_value_seq seq \<longleftrightarrow> seq \<ge> OLD_VALUE_SEQ_BASE"

definition conv_to_trace_seq :: "nat \<Rightarrow> nat" where
  "conv_to_trace_seq seq = (if is_old_value_seq seq then seq - OLD_VALUE_SEQ_BASE else seq)"

text \<open>
  The loop of \<^verbatim>\<open>read_from_file\<close>.  \<^verbatim>\<open>fd.read(n)\<close> returns at most \<open>n\<close> bytes; a short read of the data
  itself is not an error in the code.
\<close>

function read_values :: "u8 list \<Rightarrow> value_map \<Rightarrow> value_map \<Rightarrow> read_error + (value_map \<times> value_map)" where
  "read_values bs ov sv =
     (let seq_data = take 8 bs; r1 = drop 8 bs; size_data = take 8 r1; r2 = drop 8 r1 in
      if bs = [] then Inr (ov, sv)
      else if length seq_data \<noteq> 8 then Inl BadSeqLength
      else if length size_data \<noteq> 8 then Inl BadSizeLength
      else
        let seq = le_nat seq_data; sz = le_nat size_data; data = take sz r2; rest = drop sz r2 in
        if is_old_value_seq seq then
          let q = conv_to_trace_seq seq in
          if q \<in> dom ov then Inl (DupOld q) else read_values rest (ov(q \<mapsto> (data, sz))) sv
        else
          if seq \<in> dom sv then Inl (DupNew seq) else read_values rest ov (sv(seq \<mapsto> (data, sz))))"
  by pat_completeness auto
termination
  by (relation "measure (\<lambda>(bs, ov, sv). length bs)") auto

declare read_values.simps [simp del]

lemma read_values_Nil [simp]: "read_values [] ov sv = Inr (ov, sv)"
  by (simp add: read_values.simps)

text \<open>Reading back one entry that the runtime wrote.\<close>

lemma sv_entry_parts:
  assumes "length d < 2 ^ 64"
  shows "take 8 (sv_entry seq d @ bs) = le_bytes 8 (unat seq)"
    and "take 8 (drop 8 (sv_entry seq d @ bs)) = le_bytes 8 (length d)"
    and "drop 8 (drop 8 (sv_entry seq d @ bs)) = d @ bs"
    and "sv_entry seq d \<noteq> []"
    and "le_nat (le_bytes 8 (length d)) = length d"
proof -
  show "le_nat (le_bytes 8 (length d)) = length d"
    using assms by (intro le_nat_le_bytes) simp
  have "length (sv_entry seq d) \<noteq> 0" by (simp add: sv_entry_def)
  then show "sv_entry seq d \<noteq> []" by (simp only: length_0_conv) simp
qed (simp_all add: sv_entry_def)

lemma read_values_entry:
  assumes "length d < 2 ^ 64"
  shows "read_values (sv_entry seq d @ bs) ov sv =
     (if is_old_value_seq (unat seq)
      then let q = conv_to_trace_seq (unat seq) in
           if q \<in> dom ov then Inl (DupOld q) else read_values bs (ov(q \<mapsto> (d, length d))) sv
      else if unat seq \<in> dom sv then Inl (DupNew (unat seq))
           else read_values bs ov (sv(unat seq \<mapsto> (d, length d))))"
  unfolding read_values.simps [of "sv_entry seq d @ bs" ov sv] Let_def sv_entry_parts [OF assms]
  using sv_entry_parts(4) [OF assms, of seq] by simp

section \<open>Reading back a run of stores\<close>

fun old_map :: "nat \<Rightarrow> store_ev list \<Rightarrow> value_map \<Rightarrow> value_map" where
  "old_map q [] m = m"
| "old_map q (e # es) m = old_map (Suc q) es (m(q \<mapsto> (old_bytes e, unat (ev_size e))))"

fun new_map :: "nat \<Rightarrow> store_ev list \<Rightarrow> value_map \<Rightarrow> value_map" where
  "new_map q [] m = m"
| "new_map q (e # es) m = new_map (Suc q) es (m(q \<mapsto> (new_bytes e, unat (ev_size e))))"

lemma map_of_stores:
  "old_map q es m x =
     (if q \<le> x \<and> x < q + length es
      then Some (old_bytes (es ! (x - q)), unat (ev_size (es ! (x - q)))) else m x)"
  "new_map q es m x =
     (if q \<le> x \<and> x < q + length es
      then Some (new_bytes (es ! (x - q)), unat (ev_size (es ! (x - q)))) else m x)"
  by (induction es arbitrary: q m) (auto simp: nth_Cons' Suc_diff_le)

lemma length_event_bytes [simp]:
  "length (old_bytes e) = unat (ev_size e)" "length (new_bytes e) = unat (ev_size e)"
  by (simp_all add: old_bytes_def new_bytes_def)

lemma read_stores_values:
  "\<lbrakk>unat q + length es \<le> OLD_VALUE_SEQ_BASE;
    \<forall>x \<ge> unat q. x \<notin> dom ov \<and> x \<notin> dom sv\<rbrakk> \<Longrightarrow>
   read_values (stores_values q es) ov sv = Inr (old_map (unat q) es ov, new_map (unat q) es sv)"
proof (induction es arbitrary: q ov sv)
  case Nil
  then show ?case by simp
next
  case (Cons e es)
  have bound: "unat q + 1 < 2 ^ 64" and q: "unat q < OLD_VALUE_SEQ_BASE"
    using Cons.prems(1) by (simp_all add: OLD_VALUE_SEQ_BASE_def)
  have q1: "unat (q + 1) = Suc (unat q)"
    using bound by (subst unat_add_less) simp_all
  have "unat (q + OLDSV_START_SEQ) = unat q + OLD_VALUE_SEQ_BASE"
    using q by (subst unat_add_less) (simp_all add: OLDSV_START_SEQ_def OLD_VALUE_SEQ_BASE_def)
  moreover have "length (old_bytes e) < 2 ^ 64" "length (new_bytes e) < 2 ^ 64"
    using unat_bound [of "ev_size e"] by simp_all
  ultimately have "read_values (stores_values q (e # es)) ov sv =
      read_values (stores_values (q + 1) es)
        (ov(unat q \<mapsto> (old_bytes e, unat (ev_size e))))
        (sv(unat q \<mapsto> (new_bytes e, unat (ev_size e))))"
    using q Cons.prems(2)
    by (simp add: store_values_def read_values_entry is_old_value_seq_def conv_to_trace_seq_def
        Let_def)
  also have "\<dots> = Inr (old_map (unat q) (e # es) ov, new_map (unat q) (e # es) sv)"
    using Cons.IH [of "q + 1"] Cons.prems q1 by simp
  finally show ?case .
qed

end
