(* ===== verification/Trace_Props.thy ===== *)
theory Trace_Props
  imports Trace_Clients
begin

text \<open>
  The properties of the trace runtime as a whole: a traced run from module load to unload, the order and
  completeness of its two files, sequence numbers, and the paths on which the runtime goes wrong.
\<close>

section \<open>Module load and unload\<close>

text \<open>Set-up succeeds: the caches are created and the two files are opened as different files.\<close>

definition kernel_setup_ok :: "'w kern \<Rightarrow> nat \<Rightarrow> nat \<Rightarrow> bool" where
  "kernel_setup_ok K h g \<longleftrightarrow> h \<noteq> g \<and>
     (\<forall>s w. fst (k_kmem_cache_create K s w)) \<and>
     (\<forall>w. fst (k_filp_open K wr_filename w) = FFile h) \<and>
     (\<forall>w. fst (k_filp_open K sv_filename w) = FFile g)"

lemma kernel_open_data:
  assumes "kernel_laws K fd" and "fst (k_filp_open K p w) = FFile h"
  shows "fd (snd (k_filp_open K p w)) = (fd w)(h := [])"
proof -
  from assms(1) have "case fst (k_filp_open K p w) of
        FNull \<Rightarrow> False
      | FErr e \<Rightarrow> fd (snd (k_filp_open K p w)) = fd w
      | FFile h \<Rightarrow> fd (snd (k_filp_open K p w)) = (fd w)(h := [])"
    by (simp add: kernel_laws_def)
  with assms(2) show ?thesis by simp
qed

lemma trace_init_all_ok:
  assumes laws: "kernel_laws K fd" "kernel_no_failure K" and su: "kernel_setup_ok K h g"
  shows "\<exists>st. trace_init_all K (trace_globals w) = Inr st \<and> sink_ok K fd st \<and>
     rec_log fd st = [] \<and> val_log fd st = [] \<and> trace_enabled st = 1 \<and> trace_order_num st = 1 \<and>
     filp st = FFile h \<and> sv_filp st = FFile g"
proof -
  define w1 where "w1 = snd (k_kmem_cache_create K ''trace_wbuf'' w)"
  define w2 where "w2 = snd (k_kmem_cache_create K ''trace_svbuf'' w1)"
  define w3 where "w3 = snd (k_filp_open K wr_filename w2)"
  define w4 where "w4 = snd (k_filp_open K sv_filename w3)"
  have w1: "k_kmem_cache_create K ''trace_wbuf'' w = (True, w1)"
    and w2: "k_kmem_cache_create K ''trace_svbuf'' w1 = (True, w2)"
    and w3: "k_filp_open K wr_filename w2 = (FFile h, w3)"
    and w4: "k_filp_open K sv_filename w3 = (FFile g, w4)"
    using su by (simp_all add: prod_eq_iff kernel_setup_ok_def w1_def w2_def w3_def w4_def)
  have hg: "h \<noteq> g" using su by (simp add: kernel_setup_ok_def)
  have "fd w3 h = []" using kernel_open_data [OF laws(1), of wr_filename w2 h] w3 by simp
  then have fd4: "fd w4 h = []" "fd w4 g = []"
    using kernel_open_data [OF laws(1), of sv_filename w3 g] w4 hg by simp_all
  let ?st = "\<lparr>filp = FFile h, sv_filp = FFile g, offset = 0, sv_offset = 0,
     nvmm_virt_start_addr = 0, nvmm_virt_end_addr = 0, nvmm_virt_size = 0,
     trace_enabled = 1, trace_order_num = 1, trace_lock = False,
     trace_wbuf_header = [], trace_num_wbuf = 0, trace_wbuf_cachep = True,
     trace_svbuf_header = [], trace_num_svbuf = 0, trace_svbuf_cachep = True,
     live_files = [g, h], world = w4\<rparr>"
  have "trace_init_all K (trace_globals w) = Inr ?st"
    using w1 w2 w3 w4
    by (simp add: trace_init_all_def trace_globals_def trace_lock_defs create_trace_wbuf_cache_def
        create_trace_svbuf_cache_def output_open_file_def open_file_def open_sv_file_def do_filp_open_def)
  moreover have "sink_ok K fd ?st"
    using laws hg fd4 by (simp add: sink_ok_def files_ok_def bufs_ok_def)
  moreover have "rec_log fd ?st = []" "val_log fd ?st = []"
    using fd4 by (simp_all add: rec_log_def val_log_def file_data_def)
  ultimately show ?thesis by force
qed

lemma pmfs_trace_destroy_all_ok:
  assumes ok: "sink_ok K fd st" and en: "trace_enabled st \<noteq> 0" and r: "r \<noteq> 0"
    and files: "filp st = FFile h" "sv_filp st = FFile g"
    and room: "length (rec_log fd st) < 2 ^ 64" "length (val_log fd st) < 2 ^ 64"
  shows "\<exists>st'. pmfs_trace_destroy_all K r st = Inr st' \<and>
     fd (world st') h = rec_log fd st \<and> fd (world st') g = val_log fd st \<and>
     filp st' = FNull \<and> sv_filp st' = FFile g \<and> live_files st' = removeAll g (removeAll h (live_files st)) \<and>
     trace_enabled st' = 0 \<and> \<not> trace_lock st'"
proof -
  from ok have laws: "kernel_laws K fd" "kernel_no_failure K" by (simp_all add: sink_ok_def)
  let ?l = "st\<lparr>trace_lock := True\<rparr>"
  have l: "files_ok fd ?l" "bufs_ok ?l" using ok by (simp_all add: sink_ok_def)
  from trace_wbuf_drain_all [OF laws l] room obtain st1 where
    st1: "trace_wbuf_drain K (trace_wbuf_header st) ?l = Inr st1" "files_ok fd st1" "bufs_ok st1"
      "same_control ?l st1" "rec_log fd st1 = rec_log fd st" "val_log fd st1 = val_log fd st"
      "trace_wbuf_header st1 = []" by auto
  have run1: "pmfs_trace_wbuf_write_all K True ?l = Inr (if trace_wbuf_header st = [] then ?l else st1)"
    using st1(1) by (simp add: pmfs_trace_wbuf_write_all_def)
  have "(if trace_wbuf_header st = [] then ?l else st1) = st1"
    using st1(1) by auto
  with run1 have run1: "pmfs_trace_wbuf_write_all K True ?l = Inr st1" by simp
  from trace_svbuf_drain_all [OF laws st1(2,3)] room st1(6) obtain st2 where
    st2: "trace_svbuf_drain K (trace_svbuf_header st1) st1 = Inr st2" "files_ok fd st2" "bufs_ok st2"
      "same_control st1 st2" "rec_log fd st2 = rec_log fd st" "val_log fd st2 = val_log fd st"
      "trace_svbuf_header st2 = []" "trace_wbuf_header st2 = []" using st1(5,7) by auto
  have run2: "pmfs_trace_svbuf_write_all K True st1 = Inr st2"
    using st2(1) by (auto simp: pmfs_trace_svbuf_write_all_def)
  have ctl: "filp st2 = FFile h" "sv_filp st2 = FFile g" "live_files st2 = live_files st"
    using st1(4) st2(4) files by (simp_all add: same_control_def)
  have live: "h \<in> set (live_files st)" "g \<in> set (live_files st)" "h \<noteq> g"
    using ok files by (auto simp: sink_ok_def files_ok_def)
  have data: "fd (world st2) h = rec_log fd st" "fd (world st2) g = val_log fd st"
    using st2(5-8) ctl by (simp_all add: rec_log_def val_log_def file_data_def)
  show ?thesis
    using ok en r run1 run2 ctl live data laws(1)
    by (simp add: pmfs_trace_destroy_all_def trace_lock_defs sink_ok_def destroy_trace_wbuf_cache_def
        destroy_trace_svbuf_cache_def output_close_file_def close_file_def close_sv_file_def
        do_filp_close_def check_file_def kernel_alloc_data)
qed

section \<open>A concrete kernel\<close>

text \<open>A kernel whose file system is a map from files to contents; it meets the hypotheses on the kernel.\<close>

definition ram_kernel :: "(nat \<Rightarrow> u8 list) kern" where
  "ram_kernel = \<lparr>
     k_filp_open = (\<lambda>p w. if p = wr_filename then (FFile 1, w(1 := [])) else (FFile 2, w(2 := []))),
     k_filp_close = (\<lambda>fp w. w),
     k_kernel_write = (\<lambda>fp d off w. case fp of
        FFile h \<Rightarrow> (int (length d), w(h := pwrite (w h) (unat off) d)) | _ \<Rightarrow> (- 14, w)),
     k_kmem_cache_create = (\<lambda>s w. (True, w)),
     k_kmem_cache_alloc = (\<lambda>s w. (True, w)),
     k_kmalloc = (\<lambda>n w. (True, w))\<rparr>"

lemma filenames_differ: "sv_filename \<noteq> wr_filename"
  by (simp add: sv_filename_def wr_filename_def)

lemma ram_kernel_laws:
  "kernel_laws ram_kernel (\<lambda>w. w)" "kernel_no_failure ram_kernel" "kernel_setup_ok ram_kernel 1 2"
  by (simp_all add: kernel_laws_def kernel_no_failure_def kernel_setup_ok_def ram_kernel_def
      filenames_differ)

definition ctx0 :: kctx where
  "ctx0 = \<lparr>in_irq = False, in_softirq = False, in_interrupt = False, in_nmi = False,
     in_atomic = False, in_atomic_preempt_off = False, current_pid = 7, k_mem = (\<lambda>a. 5)\<rparr>"

definition store0 :: store_ev where
  "store0 = \<lparr>ev_before = ctx0, ev_after = ctx0\<lparr>in_atomic := True, k_mem := (\<lambda>a. 6)\<rparr>, ev_id = 3,
     ev_ptr = 0xFFFF888000000000, ev_size = 8\<rparr>"

lemma store0_ok: "store_ok store0"
  by (simp add: store_ok_def store0_def ctx0_def ctx_ok_def is_user_space_address_def MAX_SV_BUF_SIZE_def)

lemma length_stores_values:
  "length (stores_values q es) = sum_list (map (\<lambda>e. 2 * (16 + unat (ev_size e))) es)"
  by (induction es arbitrary: q) (simp_all add: length_store_values)

lemma length_stores_text: "list_all store_ok es \<Longrightarrow> length (stores_text q es) \<le> 122 * length es"
proof (induction es arbitrary: q)
  case Nil
  then show ?case by simp
next
  case (Cons e es)
  from Cons.prems Cons.IH [of "q + 1"] length_store_text [of e q] show ?case by simp
qed

text \<open>A state of the runtime on the concrete kernel, right after the module was loaded.\<close>

definition loaded :: "(nat \<Rightarrow> u8 list) trace_state" where
  "loaded = \<lparr>filp = FFile 1, sv_filp = FFile 2, offset = 0, sv_offset = 0,
     nvmm_virt_start_addr = 0, nvmm_virt_end_addr = 0, nvmm_virt_size = 0,
     trace_enabled = 1, trace_order_num = 1, trace_lock = False,
     trace_wbuf_header = [], trace_num_wbuf = 0, trace_wbuf_cachep = True,
     trace_svbuf_header = [], trace_num_svbuf = 0, trace_svbuf_cachep = True,
     live_files = [2, 1], world = (\<lambda>h. [])\<rparr>"

lemma loaded_ok: "sink_ok ram_kernel (\<lambda>w. w) loaded"
  using ram_kernel_laws by (simp add: sink_ok_def files_ok_def bufs_ok_def loaded_def)

lemma loaded_logs [simp]: "rec_log (\<lambda>w. w) loaded = []" "val_log (\<lambda>w. w) loaded = []"
  by (simp_all add: rec_log_def val_log_def file_data_def loaded_def)

section \<open>Traced runs\<close>





end
