(* ===== verification/Trace_Faults.thy ===== *)
theory Trace_Faults
  imports Trace_Props
begin

text \<open>
  The error paths of the trace runtime and its smaller contracts: sequence numbers, disabled tracing,
  address tests, records that do not fit their buffer, files that could not be opened, unloading with
  buffered records, and loading the module a second time.
\<close>

section \<open>Sequence numbers\<close>

text \<open>A run of acquisitions, each for one instrumented instruction that needs \<open>n\<close> numbers.\<close>

fun acquire_all :: "u64 list \<Rightarrow> 'w trace_state \<Rightarrow> kfault + (u64 list \<times> 'w trace_state)" where
  "acquire_all [] st = Inr ([], st)"
| "acquire_all (n # ns) st =
     rbind (trace_acquire_sequence n st) (\<lambda>(q, st1).
     rbind (acquire_all ns st1) (\<lambda>(qs, st2). Inr (q # qs, st2)))"

definition sum_of :: "u64 list \<Rightarrow> nat" where "sum_of ns = sum_list (map unat ns)"

lemma sum_of_simps [simp]: "sum_of [] = 0" "sum_of (n # ns) = unat n + sum_of ns"
  by (simp_all add: sum_of_def)

lemma acquire_one:
  assumes "\<not> trace_lock st" and "trace_enabled st \<noteq> 0"
  shows "trace_acquire_sequence n st = Inr (trace_order_num st, st\<lparr>trace_order_num := trace_order_num st + n\<rparr>)"
proof -
  have "st\<lparr>trace_lock := False\<rparr> = st" using assms(1) by simp
  then show ?thesis
    using assms by (simp add: trace_acquire_sequence_def trace_lock_lock_def trace_lock_unlock_def)
qed

lemma acquire_all_positions:
  "\<lbrakk>\<not> trace_lock st; trace_enabled st \<noteq> 0; unat (trace_order_num st) + sum_of ns < 2 ^ 64\<rbrakk> \<Longrightarrow>
   \<exists>qs st'. acquire_all ns st = Inr (qs, st') \<and> length qs = length ns \<and>
     unat (trace_order_num st') = unat (trace_order_num st) + sum_of ns \<and>
     (\<forall>i < length ns. unat (qs ! i) = unat (trace_order_num st) + sum_of (take i ns))"
proof (induction ns arbitrary: st)
  case Nil
  then show ?case by simp
next
  case (Cons n ns)
  let ?st1 = "st\<lparr>trace_order_num := trace_order_num st + n\<rparr>"
  have q: "unat (trace_order_num st + n) = unat (trace_order_num st) + unat n"
    using Cons.prems(3) by (intro unat_add_less) simp
  from Cons.IH [of ?st1] Cons.prems q obtain qs st' where
    r: "acquire_all ns ?st1 = Inr (qs, st')" "length qs = length ns"
      "unat (trace_order_num st') = unat (trace_order_num st) + unat n + sum_of ns"
      "\<forall>i < length ns. unat (qs ! i) = unat (trace_order_num st) + unat n + sum_of (take i ns)"
    by auto
  have "unat ((trace_order_num st # qs) ! i) = unat (trace_order_num st) + sum_of (take i (n # ns))"
    if "i < length (n # ns)" for i
    using that r(4) by (cases i) simp_all
  with r(1-3) Cons.prems show ?case
    by (intro exI [of _ "trace_order_num st # qs"] exI [of _ st']) (simp add: acquire_one)
qed

lemma sum_of_take_mono: "i < j \<Longrightarrow> j < length ns \<Longrightarrow> sum_of (take i ns) + unat (ns ! i) \<le> sum_of (take j ns)"
proof (induction ns arbitrary: i j)
  case Nil
  then show ?case by simp
next
  case (Cons n ns)
  obtain k where k: "j = Suc k" using Cons.prems(1) by (cases j) auto
  with Cons show ?case by (cases i) (simp_all add: sum_of_def)
qed

text \<open>
  C32: the blocks of sequence numbers handed out by \<^verbatim>\<open>trace_acquire_sequence\<close> are disjoint and ordered as
  acquired: while the counter does not overflow, every later block starts at or after the end of every
  earlier one, and none starts below the counter's initial value.
\<close>

theorem acquired_blocks_disjoint:
  assumes "\<not> trace_lock st" and "trace_enabled st \<noteq> 0"
    and "unat (trace_order_num st) + sum_of ns < 2 ^ 64"
  shows "\<exists>qs st'. acquire_all ns st = Inr (qs, st') \<and> length qs = length ns \<and>
     (\<forall>i j. i < j \<and> j < length ns \<longrightarrow>
        unat (trace_order_num st) \<le> unat (qs ! i) \<and> unat (qs ! i) + unat (ns ! i) \<le> unat (qs ! j))"
proof -
  from acquire_all_positions [OF assms] obtain qs st' where
    r: "acquire_all ns st = Inr (qs, st')" "length qs = length ns"
      "\<forall>i < length ns. unat (qs ! i) = unat (trace_order_num st) + sum_of (take i ns)" by blast
  have "unat (trace_order_num st) \<le> unat (qs ! i) \<and> unat (qs ! i) + unat (ns ! i) \<le> unat (qs ! j)"
    if "i < j" "j < length ns" for i j
    using that r(3) sum_of_take_mono [OF that] by simp
  with r(1,2) show ?thesis by blast
qed

theorem acquired_blocks_disjoint_witness:
  "\<exists>qs st'. acquire_all [1, 2, 1] loaded = Inr (qs, st') \<and>
     unat (qs ! 1) + 2 \<le> unat (qs ! 2)"
proof -
  have "\<not> trace_lock loaded" "trace_enabled loaded \<noteq> 0"
    "unat (trace_order_num loaded) + sum_of [1, 2, 1] < 2 ^ 64"
    by (simp_all add: loaded_def)
  from acquired_blocks_disjoint [OF this] obtain qs st' where "acquire_all [1, 2, 1] loaded = Inr (qs, st')"
    "\<forall>i j. i < j \<and> j < length [1 :: u64, 2, 1] \<longrightarrow> unat (qs ! i) + unat ([1 :: u64, 2, 1] ! i) \<le> unat (qs ! j)"
    by blast
  moreover from this(2) [rule_format, of 1 2] have "unat (qs ! 1) + 2 \<le> unat (qs ! 2)"
    by simp
  ultimately show ?thesis by blast
qed

section \<open>Disabled tracing\<close>

text \<open>
  with tracing disabled (before the module is loaded and after it is unloaded) an instrumented store
  leaves the runtime exactly as it was and writes nothing, whatever output functions are used.
\<close>

lemma disabled_store_no_effect:
  assumes "trace_enabled st = 0" and "\<not> trace_lock st"
  shows "instrumented_store out c c' i ptr sz st = Inr st"
proof -
  have "st\<lparr>trace_lock := False\<rparr> = st" using assms(2) by simp
  then show ?thesis
    using assms
    by (simp add: instrumented_store_def trace_acquire_sequence_def trace_lock_lock_def
        trace_lock_unlock_def trace_old_store_value_def trace_store_inst_def
        TRACE_CHECK_SEQ_RETURN_def)
qed

section \<open>Unloading the NOVA runtime\<close>

lemma write_all_held:
  assumes "trace_lock st"
  shows "trace_wbuf_write_all K st = (if trace_wbuf_header st = [] then Inr st else Inl Deadlock)"
    and "trace_svbuf_write_all K st = (if trace_svbuf_header st = [] then Inr st else Inl Deadlock)"
  using assms by (simp_all add: trace_wbuf_write_all_def trace_svbuf_write_all_def trace_lock_lock_def)

lemma nova_destroy_clean:
  assumes ok: "sink_ok K fd st" and en: "trace_enabled st \<noteq> 0" and r: "r \<noteq> 0"
    and files: "filp st = FFile h" "sv_filp st = FFile g"
    and bufs: "trace_wbuf_header st = []" "trace_svbuf_header st = []"
  shows "trace_destroy_all K r st =
     Inr (st\<lparr>offset := 0, nvmm_virt_start_addr := 0, nvmm_virt_end_addr := 0, nvmm_virt_size := 0,
            trace_enabled := 0, trace_wbuf_cachep := False, trace_svbuf_cachep := False, filp := FNull,
            world := k_filp_close K (FFile g) (k_filp_close K (FFile h) (world st)),
            live_files := removeAll g (removeAll h (live_files st)), trace_lock := False\<rparr>)"
proof -
  have live: "h \<in> set (live_files st)" "g \<in> set (live_files st)" "h \<noteq> g"
    using ok files by (auto simp: sink_ok_def files_ok_def)
  show ?thesis
    using assms live
    by (simp add: trace_destroy_all_def trace_lock_defs sink_ok_def write_all_held
        destroy_trace_wbuf_cache_def destroy_trace_svbuf_cache_def output_close_file_def
        close_file_def close_sv_file_def do_filp_close_def check_file_def)
qed

text \<open>
  C37: \<^verbatim>\<open>trace_destroy_all\<close> of the NOVA runtime takes \<^verbatim>\<open>trace_lock\<close> and then calls the two
  \<^verbatim>\<open>write_all\<close> functions, which take it again when there is something to write: unloading the module
  dead-locks exactly when a record or a value is still buffered.
\<close>

theorem nova_unload_deadlock_iff:
  assumes "sink_ok K fd st" and "trace_enabled st \<noteq> 0" and "r \<noteq> 0"
  shows "trace_destroy_all K r st = Inl Deadlock \<longleftrightarrow>
     trace_wbuf_header st \<noteq> [] \<or> trace_svbuf_header st \<noteq> []"
proof (cases "trace_wbuf_header st = [] \<and> trace_svbuf_header st = []")
  case True
  from assms(1) obtain h g where "filp st = FFile h" "sv_filp st = FFile g"
    by (auto simp: sink_ok_def elim: files_okE)
  with nova_destroy_clean [OF assms] True show ?thesis by simp
next
  case False
  with assms show ?thesis
    by (auto simp: trace_destroy_all_def trace_lock_defs sink_ok_def write_all_held)
qed

theorem nova_unload_deadlock_iff_witness:
  "(trace_destroy_all ram_kernel 1 loaded = Inl Deadlock) = False \<and>
   (let st = loaded\<lparr>trace_wbuf_header := [\<lparr>wb_size = 1, wb_buf = Some [0]\<rparr>], trace_num_wbuf := 1\<rparr>
    in trace_destroy_all ram_kernel 1 st = Inl Deadlock)"
proof -
  let ?st = "loaded\<lparr>trace_wbuf_header := [\<lparr>wb_size = 1, wb_buf = Some [0]\<rparr>], trace_num_wbuf := 1\<rparr>"
  have "sink_ok ram_kernel (\<lambda>w. w) ?st"
    using loaded_ok by (simp add: sink_ok_def bufs_ok_def wbuf_ok_def files_ok_def loaded_def)
  then show ?thesis
    using nova_unload_deadlock_iff [OF loaded_ok, of 1] nova_unload_deadlock_iff [of ram_kernel _ ?st 1]
    by (simp add: loaded_def Let_def)
qed

section \<open>Loading the module again\<close>

text \<open>
  \<^verbatim>\<open>close_sv_file\<close> clears \<^verbatim>\<open>filp\<close> where it should clear \<^verbatim>\<open>sv_filp\<close>.  After the module was unloaded
  and loaded again, \<^verbatim>\<open>sv_filp\<close> is therefore not reopened and still names the closed file: the first value
  that the NOVA runtime writes outside atomic context goes to a closed file.
\<close>

lemma reload_uses_closed_file:
  assumes ok: "sink_ok K fd st" and en: "trace_enabled st \<noteq> 0"
    and su: "kernel_setup_ok K h g" and files: "filp st = FFile h" "sv_filp st = FFile g"
    and bufs: "trace_wbuf_header st = []" "trace_svbuf_header st = []"
    and c: "\<not> in_atomic_context c" and len: "unat len \<le> MAX_SV_BUF_SIZE"
  shows "\<exists>st1 st2. trace_destroy_all K 1 st = Inr st1 \<and> trace_init_all K st1 = Inr st2 \<and>
     trace_enabled st2 = 1 \<and> sv_filp st2 = FFile g \<and>
     output_store_value K c seq buf len st2 = Inl UseAfterClose"
proof -
  note d = nova_destroy_clean [OF ok en _ files bufs, of 1, simplified]
  define st1 where "st1 = (st\<lparr>offset := 0, nvmm_virt_start_addr := 0, nvmm_virt_end_addr := 0,
      nvmm_virt_size := 0, trace_enabled := 0, trace_wbuf_cachep := False, trace_svbuf_cachep := False,
      filp := FNull, world := k_filp_close K (FFile g) (k_filp_close K (FFile h) (world st)),
      live_files := removeAll g (removeAll h (live_files st)), trace_lock := False\<rparr>)"
  define w1 where "w1 = snd (k_kmem_cache_create K ''trace_wbuf'' (world st1))"
  define w2 where "w2 = snd (k_kmem_cache_create K ''trace_svbuf'' w1)"
  define w3 where "w3 = snd (k_filp_open K wr_filename w2)"
  have w: "k_kmem_cache_create K ''trace_wbuf'' (world st1) = (True, w1)"
    "k_kmem_cache_create K ''trace_svbuf'' w1 = (True, w2)" "k_filp_open K wr_filename w2 = (FFile h, w3)"
    and hg: "h \<noteq> g"
    using su by (simp_all add: prod_eq_iff kernel_setup_ok_def w1_def w2_def w3_def)
  have st1: "filp st1 = FNull" "sv_filp st1 = FFile g" "trace_enabled st1 = 0" "\<not> trace_lock st1"
    "live_files st1 = removeAll g (removeAll h (live_files st))" "trace_svbuf_header st1 = []"
    "\<not> trace_wbuf_cachep st1" "\<not> trace_svbuf_cachep st1"
    using files bufs by (simp_all add: st1_def)
  obtain st2 where st2: "trace_init_all K st1 = Inr st2" "trace_enabled st2 = 1" "sv_filp st2 = FFile g"
     "live_files st2 = h # live_files st1" "trace_svbuf_header st2 = []"
    using st1 w
    by (simp add: trace_init_all_def trace_lock_defs create_trace_wbuf_cache_def
        create_trace_svbuf_cache_def output_open_file_def open_file_def open_sv_file_def do_filp_open_def)
  have "output_store_value K c seq buf len st2 = Inl UseAfterClose"
    using st2 st1(5) hg c len
    by (simp add: output_store_value_def trace_svbuf_write_all_def write_sv_file_def kernel_write_def
        check_file_def)
  with d st2 show ?thesis unfolding st1_def [symmetric] by blast
qed

section \<open>Records that do not fit\<close>

text \<open>
  a record longer than the 512-byte buffer.  Outside atomic context the NOVA runtime asks the kernel to
  write the full length of the formatted text from that buffer, which reads past its end; the PMFS runtime
  instead logs the first 511 bytes and a NUL byte, so the record has no line end.
\<close>

lemma long_record_overread:
  assumes ok: "sink_ok K fd st" and c: "\<not> in_atomic_context c"
    and long: "512 < length (record_text c seq msg)"
    and room: "length (rec_log fd st) < 2 ^ 64"
  shows "output_record K c seq msg st = Inl Overread \<and>
     (\<exists>st'. pmfs_output_record K c seq msg st = Inr st' \<and>
        rec_log fd st' = rec_log fd st @ take 511 (bytes_of (record_text c seq msg)) @ [0])"
proof
  let ?s = "record_text c seq msg"
  have buf: "record_buf ?s = take 511 (bytes_of ?s) @ [0]"
    using long by (simp add: record_buf_def min_def)
  from trace_wbuf_write_all_ok [OF ok room] obtain st1 where
    st1: "trace_wbuf_write_all K st = Inr st1" "sink_ok K fd st1" by auto
  then obtain h g where "filp st1 = FFile h" "h \<in> set (live_files st1)"
    by (auto simp: sink_ok_def elim: files_okE)
  with st1 c long show "output_record K c seq msg st = Inl Overread"
    by (simp add: output_record_def write_file_def kernel_write_def check_file_def read_buf_def Let_def
        flip: record_text_def)
  from ok obtain w where w: "k_kmem_cache_alloc K ''trace_wbuf'' (world st) = (True, w)"
      "fd w = fd (world st)" by (rule cache_alloc_ok)
  note ok1 = sink_ok_world [OF ok w(2)]
  have "512 \<le> length (record_buf ?s)" by simp
  from trace_wbuf_add_node_ok [OF ok1(1) this] obtain st' where
    "trace_wbuf_add_node K (record_buf ?s) 512 (st\<lparr>world := w\<rparr>) = Inr st'"
    "rec_log fd st' = rec_log fd st @ record_buf ?s" using ok1(2) by auto
  with w(1) ok long buf show "\<exists>st'. pmfs_output_record K c seq msg st = Inr st' \<and>
      rec_log fd st' = rec_log fd st @ take 511 (bytes_of ?s) @ [0]"
    by (auto simp: pmfs_output_record_def pmfs_trace_wbuf_add_def pmfs_new_trace_wbuf_node_def
        sink_ok_def Let_def simp flip: record_text_def)
qed

section \<open>Files that cannot be opened\<close>

text \<open>
  \<^verbatim>\<open>filp_open\<close> reports a failure by an error pointer, which is not null; the code tests for null only.
  When the record file cannot be opened, loading the module enables tracing all the same and the first
  record written outside atomic context goes through the error pointer.
\<close>

lemma failed_open_enables_tracing:
  assumes c: "\<And>s w. fst (k_kmem_cache_create K s w)"
    and f: "\<And>w. fst (k_filp_open K wr_filename w) = FErr e"
    and s: "\<And>w. fst (k_filp_open K sv_filename w) \<noteq> FNull"
    and a: "\<not> in_atomic_context ctx"
  shows "\<exists>st. trace_init_all K (trace_globals w) = Inr st \<and> trace_enabled st = 1 \<and>
     (\<forall>seq msg. output_record K ctx seq msg st = Inl BadPointer)"
proof -
  define w1 where "w1 = snd (k_kmem_cache_create K ''trace_wbuf'' w)"
  define w2 where "w2 = snd (k_kmem_cache_create K ''trace_svbuf'' w1)"
  define w3 where "w3 = snd (k_filp_open K wr_filename w2)"
  obtain fp w4 where w4: "k_filp_open K sv_filename w3 = (fp, w4)" by fastforce
  with s [of w3] have fp: "fp \<noteq> FNull" by simp
  have w: "k_kmem_cache_create K ''trace_wbuf'' w = (True, w1)"
    "k_kmem_cache_create K ''trace_svbuf'' w1 = (True, w2)" "k_filp_open K wr_filename w2 = (FErr e, w3)"
    using c f by (simp_all add: prod_eq_iff w1_def w2_def w3_def)
  obtain st where st: "trace_init_all K (trace_globals w) = Inr st" "trace_enabled st = 1"
     "filp st = FErr e" "trace_wbuf_header st = []"
    using w w4 fp
    by (simp add: trace_init_all_def trace_globals_def trace_lock_defs create_trace_wbuf_cache_def
        create_trace_svbuf_cache_def output_open_file_def open_file_def open_sv_file_def do_filp_open_def)
  from st(3,4) a have "output_record K ctx seq msg st = Inl BadPointer" for seq msg
    by (simp add: output_record_def trace_wbuf_write_all_def write_file_def kernel_write_def
        check_file_def Let_def)
  with st(1,2) show ?thesis by blast
qed

definition full_kernel :: "(nat \<Rightarrow> u8 list) kern" where
  "full_kernel = ram_kernel\<lparr>k_filp_open := (\<lambda>p w. (FErr (- 28), w))\<rparr>"

section \<open>Address tests\<close>



text \<open>
  \<^verbatim>\<open>trace_unknown_struct_ptr_inst\<close> never reports a pointer into persistent memory as one.  Once the
  device is known, every pointer is reported as unknown; before that, every pointer is reported as DRAM.
\<close>

lemma unknown_struct_never_pm:
  assumes win: "nvmm_virt_start_addr st = 0 \<longleftrightarrow> nvmm_virt_size st = 0"
      "nvmm_virt_end_addr st = 0 \<longleftrightarrow> nvmm_virt_size st = 0"
  shows "trace_unknown_struct_ptr_inst out c i ptr idx sz stname st =
     TRACE_UNLOCK_OR_RETURN 1 st (\<lambda>seq.
       o_record out c seq
         (struct_msg (if nvmm_virt_size st = 0 then ''DRAMStructPtr'' else ''UKStructPtr'') i stname ptr idx sz))"
  using win
  by (auto simp: trace_unknown_struct_ptr_inst_def trace_dram_struct_ptr_inst_def check_dest_addr_nvmm_def)

section \<open>Range of sequence numbers in the value file\<close>

text \<open>
  the runtime accepts sequence numbers below \<^verbatim>\<open>MAX_TRACE_SEQ_NUM\<close>, which is twice the base of the old
  values.  A new value whose number is at or above the base is read back as the old value of another
  store.
\<close>

lemma large_sequence_read_as_old:
  assumes "OLD_VALUE_SEQ_BASE \<le> unat q" and "q < MAX_TRACE_SEQ_NUM" and "length d < 2 ^ 64"
  shows "TRACE_CHECK_SEQ_RETURN q st k = k \<and>
     read_values (sv_entry q d) Map.empty Map.empty =
       Inr ([unat q - OLD_VALUE_SEQ_BASE \<mapsto> (d, length d)], Map.empty)"
proof
  show "TRACE_CHECK_SEQ_RETURN q st k = k"
    using assms(2) by (auto simp: TRACE_CHECK_SEQ_RETURN_def)
  show "read_values (sv_entry q d) Map.empty Map.empty =
       Inr ([unat q - OLD_VALUE_SEQ_BASE \<mapsto> (d, length d)], Map.empty)"
    using assms(1) read_values_entry [OF assms(3), of q "[]" Map.empty Map.empty]
    by (simp add: is_old_value_seq_def conv_to_trace_seq_def Let_def)
qed

end
