(* ===== verification/Pmfs_Balloc.thy ===== *)
theory Pmfs_Balloc
  imports Prelude
begin

unbundle bit_operations_syntax

text \<open>
  The block allocator of PMFS (thirdPart/pmfs-chipmunk-disable-chipmunk-bugs/balloc.c, the block-node
  helpers of super.c and pmfs.h).  The allocator keeps the used blocks as an ordered list of nodes, each an
  interval \<open>[block_low, block_high]\<close>; a free extent is a gap between two nodes.

  Block numbers are 64-bit words as in the code.  \<^verbatim>\<open>kmem_cache_alloc\<close> is not in the repository: its
  outcome is the argument \<open>mem\<close> of an operation that allocates a node (each allocates at most one).  The
  allocator lock makes each operation one step.  A hint (\<^verbatim>\<open>struct pmfs_blocknode **start_hint\<close>) is a
  position in the list.
\<close>

section \<open>State\<close>

record pmfs_blocknode =
  block_low :: u64
  block_high :: u64

record pmfs_sb_info =
  block_inuse_head :: "pmfs_blocknode list"
  block_start :: u64
  block_end :: u64
  num_free_blocks :: u64
  num_blocknode_allocated :: u64
  nvmm :: "nat \<Rightarrow> u8"

datatype balloc_fault = Bug_on | Null_node | Bad_hint


definition PMFS_BLOCK_TYPE_4K :: u16 where "PMFS_BLOCK_TYPE_4K = 0"
definition PMFS_BLOCK_TYPE_2M :: u16 where "PMFS_BLOCK_TYPE_2M = 1"

definition pmfs_get_numblocks :: "u16 \<Rightarrow> u64" where
  "pmfs_get_numblocks btype =
     (if btype = PMFS_BLOCK_TYPE_4K then 1
      else if btype = PMFS_BLOCK_TYPE_2M then 512
      else 0x40000)"

definition pmfs_get_block_off :: "u64 \<Rightarrow> u64" where
  "pmfs_get_block_off blocknr = push_bit 12 blocknr"

definition pmfs_get_blocknr :: "u64 \<Rightarrow> u64" where
  "pmfs_get_blocknr block = drop_bit 12 block"

section \<open>Block nodes\<close>

definition pmfs_alloc_blocknode :: "bool \<Rightarrow> pmfs_sb_info \<Rightarrow> bool \<times> pmfs_sb_info" where
  "pmfs_alloc_blocknode mem sbi =
     (if mem then (True, sbi\<lparr>num_blocknode_allocated := num_blocknode_allocated sbi + 1\<rparr>)
      else (False, sbi))"

definition pmfs_free_blocknode :: "pmfs_sb_info \<Rightarrow> pmfs_sb_info" where
  "pmfs_free_blocknode sbi = sbi\<lparr>num_blocknode_allocated := num_blocknode_allocated sbi - 1\<rparr>"

text \<open>
  \<open>s_blocksize\<close> is 4096.  The code goes on after the failed assertion and then writes through the null
  pointer.
\<close>

definition pmfs_init_blockmap :: "bool \<Rightarrow> u64 \<Rightarrow> pmfs_sb_info \<Rightarrow> balloc_fault + pmfs_sb_info" where
  "pmfs_init_blockmap mem init_used_size sbi =
     (let num_used_block = drop_bit 12 (init_used_size + 4096 - 1);
          (blknode, sbi1) = pmfs_alloc_blocknode mem sbi
      in if \<not> blknode then Inl Null_node
         else Inr (sbi1\<lparr>num_free_blocks := num_free_blocks sbi1 - num_used_block,
              block_inuse_head :=
                \<lparr>block_low = block_start sbi1, block_high = block_start sbi1 + num_used_block - 1\<rparr>
                # block_inuse_head sbi1\<rparr>))"

section \<open>Freeing a block\<close>

text \<open>
  The body of the search loop.  \<open>NotFound\<close>: the loop ran off the list.  \<open>NoMem\<close>: the block is inside a
  node and no second node could be allocated; the code returns without freeing it.  \<open>Freed\<close> carries the new
  list, the hint as a position in it, and the change of the number of nodes.
\<close>

datatype free_result =
    NotFound
  | NoMem
  | Freed "pmfs_blocknode list" "nat option" u64

definition shift_result :: "pmfs_blocknode \<Rightarrow> free_result \<Rightarrow> free_result" where
  "shift_result i r =
     (case r of Freed ns hint d \<Rightarrow> Freed (i # ns) (map_option Suc hint) d | _ \<Rightarrow> r)"

fun free_loop :: "bool \<Rightarrow> u64 \<Rightarrow> u64 \<Rightarrow> pmfs_blocknode list \<Rightarrow> free_result" where
  "free_loop mem new_block_low new_block_high [] = NotFound"
| "free_loop mem new_block_low new_block_high (i # rest) =
     (if new_block_low > block_high i then
        shift_result i (free_loop mem new_block_low new_block_high rest)
      else if new_block_low = block_low i \<and> new_block_high = block_high i then
        Freed rest (if rest = [] then None else Some 0) (- 1)
      else if new_block_low = block_low i \<and> new_block_high < block_high i then
        Freed (i\<lparr>block_low := new_block_high + 1\<rparr> # rest) (Some 0) 0
      else if new_block_low > block_low i \<and> new_block_high = block_high i then
        Freed (i\<lparr>block_high := new_block_low - 1\<rparr> # rest) (if rest = [] then None else Some 1) 0
      else if new_block_low > block_low i \<and> new_block_high < block_high i then
        if \<not> mem then NoMem
        else Freed (i\<lparr>block_high := new_block_low - 1\<rparr> #
                    \<lparr>block_low = new_block_high + 1, block_high = block_high i\<rparr> # rest) (Some 1) 1
      else shift_result i (free_loop mem new_block_low new_block_high rest))"

text \<open>The node where the search starts.\<close>

definition free_start :: "u64 \<Rightarrow> pmfs_blocknode list \<Rightarrow> nat option \<Rightarrow> nat" where
  "free_start new_block_low ns start_hint =
     (case start_hint of
        None \<Rightarrow> 0
      | Some k \<Rightarrow> if new_block_low \<ge> block_low (ns ! k) then k else 0)"

text \<open>
  \<^verbatim>\<open>__pmfs_free_block\<close>.  The first result is \<open>False\<close> when the code reports that it was unable to free the
  block (\<^verbatim>\<open>pmfs_error_mng\<close>); the last is the hint for the next call.
\<close>

definition pmfs_free_block_locked ::
    "bool \<Rightarrow> u64 \<Rightarrow> u16 \<Rightarrow> nat option \<Rightarrow> pmfs_sb_info \<Rightarrow>
     balloc_fault + (bool \<times> pmfs_sb_info \<times> nat option)" where
  "pmfs_free_block_locked mem blocknr btype start_hint sbi =
     (let num_blocks = pmfs_get_numblocks btype;
          new_block_low = blocknr;
          new_block_high = blocknr + num_blocks - 1;
          ns = block_inuse_head sbi
      in if ns = [] then Inl Bug_on
         else if (case start_hint of None \<Rightarrow> False | Some k \<Rightarrow> length ns \<le> k) then Inl Bad_hint
         else
           let k = free_start new_block_low ns start_hint in
           case free_loop mem new_block_low new_block_high (drop k ns) of
             NotFound \<Rightarrow> Inr (False, sbi, start_hint)
           | NoMem \<Rightarrow> Inr (True, sbi, start_hint)
           | Freed ns' hint d \<Rightarrow>
               Inr (True, sbi\<lparr>block_inuse_head := take k ns @ ns',
                              num_free_blocks := num_free_blocks sbi + num_blocks,
                              num_blocknode_allocated := num_blocknode_allocated sbi + d\<rparr>,
                    map_option (\<lambda>j. k + j) hint))"

definition pmfs_free_block :: "bool \<Rightarrow> u64 \<Rightarrow> u16 \<Rightarrow> pmfs_sb_info \<Rightarrow> balloc_fault + (bool \<times> pmfs_sb_info)"
  where
  "pmfs_free_block mem blocknr btype sbi =
     rbind (pmfs_free_block_locked mem blocknr btype None sbi) (\<lambda>(ok, sbi1, hint). Inr (ok, sbi1))"

section \<open>Allocating a block\<close>

text \<open>
  One step of the allocation loop for the gap behind node \<open>i\<close>: the same four cases stand in
  \<^verbatim>\<open>pmfs_new_block\<close> and in \<^verbatim>\<open>pmfs_alloc_insert_blocknode_map\<close> of bbuild.c.  \<open>Skip\<close> goes on to the next
  node.
\<close>

datatype gap_result =
    Skip
  | No_node
  | Placed "pmfs_blocknode list" u64

definition place_in_gap ::
    "bool \<Rightarrow> u64 \<Rightarrow> u64 \<Rightarrow> u64 \<Rightarrow> pmfs_blocknode \<Rightarrow> pmfs_blocknode list \<Rightarrow> gap_result" where
  "place_in_gap mem blk_end new_block_low new_block_high i rest =
     (let next_block_low = (case rest of [] \<Rightarrow> blk_end | next_i # _ \<Rightarrow> block_low next_i)
      in if new_block_high \<ge> next_block_low then Skip
         else if new_block_low = block_high i + 1 \<and> new_block_high = next_block_low - 1 then
           (case rest of
              [] \<Rightarrow> Placed [i\<lparr>block_high := new_block_high\<rparr>] 0
            | next_i # ms \<Rightarrow> Placed (i\<lparr>block_high := block_high next_i\<rparr> # ms) (- 1))
         else if new_block_low = block_high i + 1 \<and> new_block_high < next_block_low - 1 then
           Placed (i\<lparr>block_high := new_block_high\<rparr> # rest) 0
         else if new_block_low > block_high i + 1 \<and> new_block_high = next_block_low - 1 then
           (case rest of
              [] \<Rightarrow> if \<not> mem then No_node
                    else Placed [i, \<lparr>block_low = new_block_low, block_high = new_block_high\<rparr>] 1
            | next_i # ms \<Rightarrow> Placed (i # next_i\<lparr>block_low := new_block_low\<rparr> # ms) 0)
         else if new_block_low > block_high i + 1 \<and> new_block_high < next_block_low - 1 then
           (if \<not> mem then No_node
            else Placed (i # \<lparr>block_low = new_block_low, block_high = new_block_high\<rparr> # rest) 1)
         else Skip)"

text \<open>First block of the aligned extent behind node \<open>i\<close>.\<close>

definition align_behind :: "u64 \<Rightarrow> pmfs_blocknode \<Rightarrow> u64" where
  "align_behind num_blocks i = (block_high i + num_blocks) AND NOT (num_blocks - 1)"

datatype new_result =
    New_none
  | New_nomem
  | New_at u64 "pmfs_blocknode list" u64

fun new_block_loop :: "bool \<Rightarrow> u64 \<Rightarrow> u64 \<Rightarrow> pmfs_blocknode list \<Rightarrow> new_result" where
  "new_block_loop mem blk_end num_blocks [] = New_none"
| "new_block_loop mem blk_end num_blocks (i # rest) =
     (let new_block_low = align_behind num_blocks i;
          new_block_high = new_block_low + num_blocks - 1
      in case place_in_gap mem blk_end new_block_low new_block_high i rest of
           Placed ns d \<Rightarrow> New_at new_block_low ns d
         | No_node \<Rightarrow> New_nomem
         | Skip \<Rightarrow>
             (case new_block_loop mem blk_end num_blocks rest of
                New_at b ns d \<Rightarrow> New_at b (i # ns) d
              | r \<Rightarrow> r))"

definition zero_size :: "u16 \<Rightarrow> nat" where
  "zero_size btype =
     (if btype = PMFS_BLOCK_TYPE_4K then 2 ^ 12 else if btype = PMFS_BLOCK_TYPE_2M then 2 ^ 21 else 2 ^ 30)"

definition memset_nt_zero :: "nat \<Rightarrow> nat \<Rightarrow> (nat \<Rightarrow> u8) \<Rightarrow> nat \<Rightarrow> u8" where
  "memset_nt_zero off n m = (\<lambda>a. if off \<le> a \<and> a < off + n then 0 else m a)"

text \<open>The result is an error code or the block number that the code stores through its argument.\<close>

definition pmfs_new_block :: "bool \<Rightarrow> u16 \<Rightarrow> bool \<Rightarrow> pmfs_sb_info \<Rightarrow> (int + u64) \<times> pmfs_sb_info" where
  "pmfs_new_block mem btype zero sbi =
     (let num_blocks = pmfs_get_numblocks btype
      in case new_block_loop mem (block_end sbi) num_blocks (block_inuse_head sbi) of
           New_none \<Rightarrow> (Inl (- ENOSPC), sbi)
         | New_nomem \<Rightarrow> (Inl (- ENOSPC), sbi)
         | New_at b ns d \<Rightarrow>
             (Inr b, sbi\<lparr>block_inuse_head := ns,
                num_free_blocks := num_free_blocks sbi - num_blocks,
                num_blocknode_allocated := num_blocknode_allocated sbi + d,
                nvmm := (if zero then memset_nt_zero (unat (pmfs_get_block_off b)) (zero_size btype) (nvmm sbi)
                         else nvmm sbi)\<rparr>))"

definition pmfs_count_free_blocks :: "pmfs_sb_info \<Rightarrow> u64" where
  "pmfs_count_free_blocks sbi = num_free_blocks sbi"

end
