(* ===== verification/Pmfs_Balloc_Inv.thy ===== *)
theory Pmfs_Balloc_Inv
  imports Pmfs_Balloc
begin

unbundle bit_operations_syntax

text \<open>
  The invariant of the PMFS block list and the effect of every allocator operation on the set of used
  blocks: the nodes are ordered and no two of them touch, so the list is determined by that set.
\<close>

section \<open>Invariant\<close>

abbreviation nlo :: "pmfs_blocknode \<Rightarrow> nat" where "nlo n \<equiv> unat (block_low n)"
abbreviation nhi :: "pmfs_blocknode \<Rightarrow> nat" where "nhi n \<equiv> unat (block_high n)"

fun nodes_ok :: "nat \<Rightarrow> nat \<Rightarrow> pmfs_blocknode list \<Rightarrow> bool" where
  "nodes_ok p e [] = True"
| "nodes_ok p e (n # ns) = (p \<le> nlo n \<and> nlo n \<le> nhi n \<and> nhi n < e \<and> nodes_ok (nhi n + 2) e ns)"

definition used_blocks :: "pmfs_blocknode list \<Rightarrow> nat set" where
  "used_blocks ns = (\<Union>n \<in> set ns. {nlo n..nhi n})"

lemma used_blocks_simps [simp]:
  "used_blocks [] = {}"
  "used_blocks (n # ns) = {nlo n..nhi n} \<union> used_blocks ns"
  "used_blocks (ns @ ms) = used_blocks ns \<union> used_blocks ms"
  by (auto simp: used_blocks_def)

lemma finite_used_blocks [simp]: "finite (used_blocks ns)"
  by (simp add: used_blocks_def)

lemma nodes_ok_mono: "nodes_ok p e ns \<Longrightarrow> q \<le> p \<Longrightarrow> nodes_ok q e ns"
  by (cases ns) auto

lemma used_blocks_range: "nodes_ok p e ns \<Longrightarrow> used_blocks ns \<subseteq> {p..<e}"
proof (induction ns arbitrary: p)
  case Nil
  then show ?case by simp
next
  case (Cons n ns)
  then have "used_blocks ns \<subseteq> {nhi n + 2..<e}" by simp
  with Cons.prems show ?case by auto
qed

lemma nodes_ok_append:
  "nodes_ok p e (ns @ m # ms) \<longleftrightarrow>
     nodes_ok p e ns \<and> nodes_ok (if ns = [] then p else nhi (last ns) + 2) e (m # ms)"
  by (induction ns arbitrary: p) auto

definition balloc_inv :: "pmfs_sb_info \<Rightarrow> bool" where
  "balloc_inv sbi \<longleftrightarrow>
     unat (block_end sbi) \<le> 2 ^ 52 \<and>
     nodes_ok (unat (block_start sbi)) (unat (block_end sbi)) (block_inuse_head sbi) \<and>
     unat (num_free_blocks sbi) + card (used_blocks (block_inuse_head sbi)) =
       unat (block_end sbi) - unat (block_start sbi) \<and>
     num_blocknode_allocated sbi = of_nat (length (block_inuse_head sbi))"

abbreviation used :: "pmfs_sb_info \<Rightarrow> nat set" where
  "used sbi \<equiv> used_blocks (block_inuse_head sbi)"

section \<open>Sizes and alignment\<close>

lemma numblocks_cases:
  obtains k where "pmfs_get_numblocks btype = 2 ^ k" "unat (pmfs_get_numblocks btype) = 2 ^ k" "k \<le> 18"
proof -
  have "pmfs_get_numblocks btype = 2 ^ 0 \<and> unat (pmfs_get_numblocks btype) = 2 ^ 0 \<or>
      pmfs_get_numblocks btype = 2 ^ 9 \<and> unat (pmfs_get_numblocks btype) = 2 ^ 9 \<or>
      pmfs_get_numblocks btype = 2 ^ 18 \<and> unat (pmfs_get_numblocks btype) = 2 ^ 18"
    by (simp add: pmfs_get_numblocks_def)
  then show thesis
    using that [of 0] that [of 9] that [of 18] by auto
qed

lemma numblocks_bounds: "0 < unat (pmfs_get_numblocks btype)" "unat (pmfs_get_numblocks btype) \<le> 0x40000"
  by (simp_all add: pmfs_get_numblocks_def)

lemma unat_align_behind:
  assumes "nhi i < 2 ^ 53"
  shows "unat (align_behind (pmfs_get_numblocks btype) i) =
     (nhi i + unat (pmfs_get_numblocks btype)) div unat (pmfs_get_numblocks btype) *
     unat (pmfs_get_numblocks btype)"
proof -
  obtain k where k: "pmfs_get_numblocks btype = 2 ^ k" "unat (pmfs_get_numblocks btype) = 2 ^ k" "k \<le> 18"
    by (rule numblocks_cases)
  have "(2 :: nat) ^ k \<le> 2 ^ 18" using k(3) by (intro power_increasing) simp_all
  with assms k(2) have "unat (block_high i + pmfs_get_numblocks btype) = nhi i + 2 ^ k"
    by (subst unat_add_less) simp_all
  moreover have "pmfs_get_numblocks btype - 1 = mask k" by (simp add: k(1) mask_eq_decr_exp)
  ultimately show ?thesis
    using k(2,3) unat_and_not_mask [of k "block_high i + pmfs_get_numblocks btype"]
    by (simp add: align_behind_def)
qed

lemma align_up_bounds:
  fixes h n :: nat
  assumes "0 < n"
  shows "h < (h + n) div n * n" and "(h + n) div n * n \<le> h + n" and "n dvd (h + n) div n * n"
    and "\<lbrakk>h < x; n dvd x\<rbrakk> \<Longrightarrow> (h + n) div n * n \<le> x"
proof -
  show "n dvd (h + n) div n * n" by simp
  show "(h + n) div n * n \<le> h + n" by (rule div_times_less_eq_dividend)
  have eq: "(h + n) div n = Suc (h div n)" using assms by (simp add: div_add_self2)
  have "h < Suc (h div n) * n"
    using assms by (metis dividend_less_times_div mult.commute mult_Suc add.commute mult_Suc_right)
  then show "h < (h + n) div n * n" by (simp only: eq)
  assume "h < x" "n dvd x"
  then obtain q where q: "x = q * n" by (auto simp: dvd_def mult.commute)
  with \<open>h < x\<close> have "h div n < q" by (simp add: less_mult_imp_div_less)
  then have "Suc (h div n) * n \<le> q * n" by (intro mult_le_mono1) simp
  then show "(h + n) div n * n \<le> x" by (simp only: eq q)
qed

lemma align_behind_facts:
  fixes btype defines "n \<equiv> pmfs_get_numblocks btype"
  assumes "nhi i < 2 ^ 53"
  shows "block_high i < align_behind n i"
    and "unat n dvd unat (align_behind n i)"
    and "unat (align_behind n i + n - 1) = unat (align_behind n i) + unat n - 1"
    and "align_behind n i \<le> align_behind n i + n - 1"
    and "\<lbrakk>nhi i < x; unat n dvd x\<rbrakk> \<Longrightarrow> unat (align_behind n i) \<le> x"
proof -
  note n = numblocks_bounds [of btype, folded n_def]
  note a = unat_align_behind [OF assms(2), of btype, folded n_def]
  show "block_high i < align_behind n i" using align_up_bounds(1) [OF n(1)] a by (simp add: word_less_nat_alt)
  show "unat n dvd unat (align_behind n i)" by (simp add: a)
  have "unat (align_behind n i) \<le> nhi i + unat n" using align_up_bounds(2) [OF n(1)] a by simp
  with assms(2) n have "unat (align_behind n i + n) = unat (align_behind n i) + unat n"
    by (subst unat_add_less) simp_all
  then show e: "unat (align_behind n i + n - 1) = unat (align_behind n i) + unat n - 1"
    using n(1) by (subst unat_sub_le) simp_all
  then show "align_behind n i \<le> align_behind n i + n - 1"
    using n(1) by (simp add: word_le_nat_alt)
  show "unat (align_behind n i) \<le> x" if "nhi i < x" "unat n dvd x"
    using align_up_bounds(4) [OF n(1) that] a by simp
qed

section \<open>Placing an extent in a gap\<close>

abbreviation next_low :: "u64 \<Rightarrow> pmfs_blocknode list \<Rightarrow> u64" where
  "next_low e rest \<equiv> (case rest of [] \<Rightarrow> e | m # _ \<Rightarrow> block_low m)"

lemma place_in_gap_skip_iff:
  assumes "block_high i < lo" "lo \<le> hi"
  shows "place_in_gap mem e lo hi i rest = Skip \<longleftrightarrow> next_low e rest \<le> hi"
proof (cases "next_low e rest \<le> hi")
  case True
  then show ?thesis by (simp add: place_in_gap_def Let_def)
next
  case False
  then have "hi < next_low e rest" by simp
  from unat_minus1 [OF this] unat_plus1 [OF assms(1)] assms False show ?thesis
    by (cases rest) (auto simp: place_in_gap_def Let_def word_nat_simps)
qed

lemma place_in_gap_no_node: "place_in_gap mem e lo hi i rest = No_node \<Longrightarrow> \<not> mem"
  by (auto simp: place_in_gap_def Let_def split: if_splits list.splits)

text \<open>The four ways of the code to place an extent, in terms of natural numbers.\<close>

lemma place_in_gap_cases:
  assumes new: "block_high i < lo" "lo \<le> hi" and r: "place_in_gap mem e lo hi i rest = Placed ns d"
  obtains
    (fill) m ms where "rest = m # ms" "unat lo = nhi i + 1" "unat hi + 1 = nlo m"
      "ns = i\<lparr>block_high := block_high m\<rparr> # ms" "d = - 1"
  | (left) "unat lo = nhi i + 1" "unat hi + 1 \<le> unat (next_low e rest)" "rest = [] \<or> unat hi + 1 < unat (next_low e rest)"
      "ns = i\<lparr>block_high := hi\<rparr> # rest" "d = 0"
  | (right) m ms where "rest = m # ms" "nhi i + 1 < unat lo" "unat hi + 1 = nlo m"
      "ns = i # m\<lparr>block_low := lo\<rparr> # ms" "d = 0"
  | (middle) "nhi i + 1 < unat lo" "unat hi + 1 \<le> unat (next_low e rest)" "rest = [] \<or> unat hi + 1 < unat (next_low e rest)"
      "ns = i # \<lparr>block_low = lo, block_high = hi\<rparr> # rest" "d = 1"
proof -
  have fit: "hi < next_low e rest"
    using r place_in_gap_skip_iff [OF new, of mem e rest] by (auto simp: linorder_not_le)
  note u = unat_minus1 [OF fit] unat_plus1 [OF new(1)]
  show thesis
  proof (cases rest)
    case Nil
    then show thesis using r new fit u left middle
      by (auto simp: place_in_gap_def Let_def word_nat_simps split: if_splits)
  next
    case (Cons m ms)
    then show thesis using r new fit u fill left right middle
      by (auto simp: place_in_gap_def Let_def word_nat_simps split: if_splits)
  qed
qed

lemma place_in_gap_ok:
  assumes ok: "nodes_ok p (unat e) (i # rest)" and new: "block_high i < lo" "lo \<le> hi"
    and r: "place_in_gap mem e lo hi i rest = Placed ns d"
  shows "nodes_ok p (unat e) ns \<and> used_blocks ns = used_blocks (i # rest) \<union> {unat lo..unat hi} \<and>
     unat hi < unat e \<and> of_nat (length ns) = of_nat (length (i # rest)) + d"
proof -
  from new have n: "nhi i < unat lo" "unat lo \<le> unat hi" by (simp_all add: word_nat_simps)
  from new r show ?thesis
  proof (cases rule: place_in_gap_cases)
    case (fill m ms)
    with ok n show ?thesis by (auto simp: ac_simps)
  next
    case left
    with ok n show ?thesis by (cases rest) auto
  next
    case (right m ms)
    with ok n show ?thesis by (auto simp: ac_simps)
  next
    case middle
    with ok n show ?thesis by (cases rest) auto
  qed
qed

lemma gap_disjoint:
  assumes ok: "nodes_ok p (unat e) (i # rest)" and new: "block_high i < lo" "lo \<le> hi"
    and r: "place_in_gap mem e lo hi i rest = Placed ns d"
  shows "used_blocks (i # rest) \<inter> {unat lo..unat hi} = {}"
proof -
  have fit: "unat hi < unat (next_low e rest)"
    using r place_in_gap_skip_iff [OF new, of mem e rest] by (auto simp: word_nat_simps)
  have "used_blocks rest \<subseteq> {unat (next_low e rest)..<unat e}"
    using ok used_blocks_range [of "nlo (hd rest)" "unat e" rest] by (cases rest) auto
  with fit new show ?thesis by (fastforce simp: word_nat_simps)
qed

section \<open>Allocation\<close>

lemma new_block_loop_ok:
  fixes btype defines "n \<equiv> pmfs_get_numblocks btype"
  assumes e: "unat e \<le> 2 ^ 52"
  shows "\<lbrakk>nodes_ok p (unat e) ns; new_block_loop mem e n ns = New_at b ns' d\<rbrakk> \<Longrightarrow>
    nodes_ok p (unat e) ns' \<and> used_blocks ns' = used_blocks ns \<union> {unat b..<unat b + unat n} \<and>
    used_blocks ns \<inter> {unat b..<unat b + unat n} = {} \<and> unat n dvd unat b \<and>
    unat b + unat n \<le> unat e \<and> of_nat (length ns') = of_nat (length ns) + d"
proof (induction ns arbitrary: p ns')
  case Nil
  then show ?case by simp
next
  case (Cons i rest)
  let ?lo = "align_behind n i" and ?hi = "align_behind n i + n - 1"
  have "nhi i < 2 ^ 53" using Cons.prems(1) e by simp
  note al = align_behind_facts [where btype = btype, OF this, folded n_def]
  have n0: "0 < unat n" unfolding n_def by (rule numblocks_bounds)
  have range: "{unat ?lo..unat ?hi} = {unat ?lo..<unat ?lo + unat n}"
    using n0 al(3) by auto
  show ?case
  proof (cases "place_in_gap mem e ?lo ?hi i rest")
    case Skip
    with Cons.prems(2) obtain ns'' where ns'': "new_block_loop mem e n rest = New_at b ns'' d" "ns' = i # ns''"
      by (auto simp: Let_def split: new_result.splits)
    from Cons.prems(1) Cons.IH [OF _ ns''(1), of "nhi i + 2"] have
      IH: "nodes_ok (nhi i + 2) (unat e) ns''" "used_blocks ns'' = used_blocks rest \<union> {unat b..<unat b + unat n}"
        "used_blocks rest \<inter> {unat b..<unat b + unat n} = {}" "unat n dvd unat b" "unat b + unat n \<le> unat e"
        "of_nat (length ns'') = of_nat (length rest) + d" by simp_all
    have "{unat b..<unat b + unat n} \<subseteq> {nhi i + 2..<unat e}"
      using used_blocks_range [OF IH(1)] IH(2) by blast
    then have "{nlo i..nhi i} \<inter> {unat b..<unat b + unat n} = {}" by fastforce
    with IH Cons.prems(1) ns''(2) show ?thesis by auto
  next
    case No_node
    with Cons.prems(2) show ?thesis by (simp add: Let_def)
  next
    case (Placed ms d')
    with Cons.prems(2) have eq: "b = ?lo" "ns' = ms" "d = d'" by (simp_all add: Let_def)
    from place_in_gap_ok [OF Cons.prems(1) al(1,4) Placed] gap_disjoint [OF Cons.prems(1) al(1,4) Placed]
      al(2,3) n0 eq range show ?thesis by auto
  qed
qed

text \<open>When no gap is taken, every aligned extent behind the first node meets a used block.\<close>

lemma new_block_loop_none:
  fixes btype defines "n \<equiv> pmfs_get_numblocks btype"
  assumes e: "unat e \<le> 2 ^ 52"
  shows "\<lbrakk>nodes_ok p (unat e) ns; ns \<noteq> []; new_block_loop mem e n ns = New_none;
      nlo (hd ns) \<le> x; unat n dvd x; x + unat n \<le> unat e\<rbrakk> \<Longrightarrow>
    used_blocks ns \<inter> {x..<x + unat n} \<noteq> {}"
proof (induction ns arbitrary: p)
  case Nil
  then show ?case by simp
next
  case (Cons i rest)
  let ?lo = "align_behind n i" and ?hi = "align_behind n i + n - 1"
  have "nhi i < 2 ^ 53" using Cons.prems(1) e by simp
  note al = align_behind_facts [where btype = btype, OF this, folded n_def]
  have n0: "0 < unat n" unfolding n_def by (rule numblocks_bounds)
  have sk: "place_in_gap mem e ?lo ?hi i rest = Skip" "new_block_loop mem e n rest = New_none"
    using Cons.prems(3) by (simp_all add: Let_def split: gap_result.splits new_result.splits)
  have le: "unat (next_low e rest) \<le> unat ?hi"
    using sk(1) place_in_gap_skip_iff [OF al(1,4)] by (simp add: word_le_nat_alt)
  show ?case
  proof (cases "x \<le> nhi i")
    case True
    with Cons.prems(4) n0 show ?thesis by fastforce
  next
    case False
    then have lo: "unat ?lo \<le> x" using al(5) Cons.prems(5) by simp
    show ?thesis
    proof (cases rest)
      case Nil
      with le lo al(3) Cons.prems(6) n0 show ?thesis by simp
    next
      case (Cons m ms)
      with le lo al(3) n0 have m: "nlo m < x + unat n" by simp
      show ?thesis
      proof (cases "nlo m \<le> x")
        case True
        with Cons.IH [of "nhi i + 2"] Cons.prems sk(2) \<open>rest = m # ms\<close> show ?thesis by auto
      next
        case False
        then have "nlo m \<in> {nlo m..nhi m} \<inter> {x..<x + unat n}"
          using m Cons.prems(1) \<open>rest = m # ms\<close> by simp
        with \<open>rest = m # ms\<close> show ?thesis by auto
      qed
    qed
  qed
qed

lemma new_block_loop_mem: "new_block_loop True e n ns \<noteq> New_nomem"
  by (induction ns) (auto simp: Let_def dest: place_in_gap_no_node split: gap_result.splits new_result.splits)

lemma card_used_le:
  assumes "nodes_ok p e ns"
  shows "card (used_blocks ns) \<le> e - p"
  using card_mono [OF _ used_blocks_range [OF assms]] by simp

lemma card_add_extent:
  assumes "used_blocks ns' = used_blocks ns \<union> {b..<b + n}" "used_blocks ns \<inter> {b..<b + n} = {}"
  shows "card (used_blocks ns') = card (used_blocks ns) + n"
  using assms by (simp add: card_Un_disjoint)

lemma pmfs_new_block_ok:
  assumes inv: "balloc_inv sbi" and r: "pmfs_new_block mem btype zero sbi = (Inr b, sbi')"
  defines "n \<equiv> unat (pmfs_get_numblocks btype)"
  shows "balloc_inv sbi'" "used sbi' = used sbi \<union> {unat b..<unat b + n}"
    "used sbi \<inter> {unat b..<unat b + n} = {}" "n dvd unat b" "unat b + n \<le> unat (block_end sbi)"
    "unat (num_free_blocks sbi) = unat (num_free_blocks sbi') + n"
    "block_start sbi' = block_start sbi" "block_end sbi' = block_end sbi"
proof -
  from inv have e: "unat (block_end sbi) \<le> 2 ^ 52"
    and ok: "nodes_ok (unat (block_start sbi)) (unat (block_end sbi)) (block_inuse_head sbi)"
    by (simp_all add: balloc_inv_def)
  from r obtain ns d where loop: "new_block_loop mem (block_end sbi) (pmfs_get_numblocks btype)
        (block_inuse_head sbi) = New_at b ns d"
    and s: "block_inuse_head sbi' = ns" "num_free_blocks sbi' = num_free_blocks sbi - pmfs_get_numblocks btype"
      "num_blocknode_allocated sbi' = num_blocknode_allocated sbi + d"
      "block_start sbi' = block_start sbi" "block_end sbi' = block_end sbi"
    by (auto simp: pmfs_new_block_def Let_def split: new_result.splits)
  from new_block_loop_ok [OF e ok loop] have
    k: "nodes_ok (unat (block_start sbi)) (unat (block_end sbi)) ns"
      "used_blocks ns = used sbi \<union> {unat b..<unat b + n}" "used sbi \<inter> {unat b..<unat b + n} = {}"
      "n dvd unat b" "unat b + n \<le> unat (block_end sbi)"
      "of_nat (length ns) = of_nat (length (block_inuse_head sbi)) + d"
    by (simp_all add: n_def)
  have card: "card (used_blocks ns) = card (used sbi) + n" by (rule card_add_extent [OF k(2,3)])
  with card_used_le [OF k(1)] inv have le: "n \<le> unat (num_free_blocks sbi)"
    unfolding balloc_inv_def by linarith
  then have free: "unat (num_free_blocks sbi') = unat (num_free_blocks sbi) - n"
    unfolding s(2) n_def by (rule unat_sub_le)
  from inv k card le free s show "balloc_inv sbi'" by (simp add: balloc_inv_def)
  from k s le free show "used sbi' = used sbi \<union> {unat b..<unat b + n}"
    "used sbi \<inter> {unat b..<unat b + n} = {}" "n dvd unat b" "unat b + n \<le> unat (block_end sbi)"
    "unat (num_free_blocks sbi) = unat (num_free_blocks sbi') + n"
    "block_start sbi' = block_start sbi" "block_end sbi' = block_end sbi" by simp_all
qed

end
