(* ===== verification/Pmfs_Balloc_Free.thy ===== *)
theory Pmfs_Balloc_Free
  imports Pmfs_Balloc_Inv
begin

unbundle bit_operations_syntax

text \<open>
  Freeing blocks in PMFS, the contract of a block allocator as a locale, and its interpretation on the
  PMFS allocator.
\<close>

section \<open>The search loop\<close>

text \<open>What the loop returns, for a list that meets the invariant.\<close>

definition free_spec ::
    "bool \<Rightarrow> nat \<Rightarrow> nat \<Rightarrow> nat \<Rightarrow> nat \<Rightarrow> pmfs_blocknode list \<Rightarrow> free_result \<Rightarrow> bool" where
  "free_spec mem p e lo hi ns r \<longleftrightarrow>
     (case r of
        NotFound \<Rightarrow> \<not> {lo..hi} \<subseteq> used_blocks ns
      | NoMem \<Rightarrow> \<not> mem \<and> {lo..hi} \<subseteq> used_blocks ns
      | Freed ns' hint d \<Rightarrow>
          {lo..hi} \<subseteq> used_blocks ns \<and> nodes_ok p e ns' \<and> used_blocks ns' = used_blocks ns - {lo..hi} \<and>
          of_nat (length ns') = of_nat (length ns) + d \<and>
          (case hint of None \<Rightarrow> True | Some j \<Rightarrow> j < length ns' \<and> hi < nhi (ns' ! j)))"

text \<open>A run of used blocks that meets a node lies inside it.\<close>

lemma run_inside_node:
  assumes ok: "nodes_ok p e (i # rest)" and sub: "{lo..hi} \<subseteq> used_blocks (i # rest)" and "lo \<le> hi" "lo \<le> nhi i"
  shows "nlo i \<le> lo" "hi \<le> nhi i"
proof -
  have rest: "used_blocks rest \<subseteq> {nhi i + 2..<e}" using ok used_blocks_range [of "nhi i + 2"] by simp
  show "nlo i \<le> lo"
    using sub rest assms(3,4) by (fastforce dest: subsetD [of _ _ lo])
  show "hi \<le> nhi i"
  proof (rule ccontr)
    assume "\<not> hi \<le> nhi i"
    with assms(3,4) have "nhi i + 1 \<in> {lo..hi}" by simp
    with sub have "nhi i + 1 \<in> used_blocks (i # rest)" by (rule subsetD)
    with rest show False by fastforce
  qed
qed

lemma free_spec_shift:
  assumes "free_spec mem (nhi i + 2) e lo hi rest r" and "nhi i < lo"
    and "p \<le> nlo i" "nlo i \<le> nhi i" "nhi i < e"
  shows "free_spec mem p e lo hi (i # rest) (shift_result i r)"
proof -
  have "{lo..hi} \<subseteq> used_blocks (i # rest) \<longleftrightarrow> {lo..hi} \<subseteq> used_blocks rest"
    using assms(2) by fastforce
  moreover have "used_blocks (i # rest) - {lo..hi} = {nlo i..nhi i} \<union> (used_blocks rest - {lo..hi})"
    using assms(2) by fastforce
  ultimately show ?thesis
    using assms by (cases r) (auto simp: free_spec_def shift_result_def split: option.splits)
qed

lemma free_spec_miss:
  assumes ok: "nodes_ok p e (i # rest)" and ih: "free_spec mem (nhi i + 2) e lo hi rest r"
    and le: "lo \<le> hi" "lo \<le> nhi i" and no: "lo < nlo i \<or> nhi i < hi"
  shows "free_spec mem p e lo hi (i # rest) (shift_result i r)"
proof -
  have "used_blocks rest \<subseteq> {nhi i + 2..<e}" using ok used_blocks_range [of "nhi i + 2"] by simp
  then have "\<not> {lo..hi} \<subseteq> used_blocks rest" using le by fastforce
  with ih have "r = NotFound" by (cases r) (auto simp: free_spec_def)
  moreover have "\<not> {lo..hi} \<subseteq> used_blocks (i # rest)"
    using run_inside_node [OF ok _ le] no by fastforce
  ultimately show ?thesis by (simp add: free_spec_def shift_result_def)
qed

lemma free_specI:
  assumes "{lo..hi} \<subseteq> used_blocks ns" "nodes_ok p e ns'" "used_blocks ns' = used_blocks ns - {lo..hi}"
    "of_nat (length ns') = of_nat (length ns) + d"
    "\<And>j. hint = Some j \<Longrightarrow> j < length ns' \<and> hi < nhi (ns' ! j)"
  shows "free_spec mem p e lo hi ns (Freed ns' hint d)"
  using assms by (simp add: free_spec_def split: option.splits)

lemma free_loop_spec:
  "\<lbrakk>nodes_ok p e ns; lo \<le> hi; unat hi < 2 ^ 53\<rbrakk> \<Longrightarrow>
   free_spec mem p e (unat lo) (unat hi) ns (free_loop mem lo hi ns)"
proof (induction ns arbitrary: p)
  case Nil
  then show ?case by (simp add: free_spec_def word_le_nat_alt)
next
  case (Cons i rest)
  let ?r = "free_loop mem lo hi rest"
  have le: "unat lo \<le> unat hi" using Cons.prems(2) by (simp add: word_le_nat_alt)
  have ih: "free_spec mem (nhi i + 2) e (unat lo) (unat hi) rest ?r"
    using Cons.IH [of "nhi i + 2"] Cons.prems by simp
  have hi1: "unat (hi + 1) = unat hi + 1"
    using Cons.prems(3) by (subst unat_add_less) simp_all
  have lo1: "block_low i < lo \<Longrightarrow> unat (lo - 1) = unat lo - 1" by (rule unat_minus1)
  have sub: "used_blocks rest \<subseteq> {nhi i + 2..<e}"
    using Cons.prems(1) used_blocks_range [of "nhi i + 2"] by simp
  have keep: "used_blocks (i # rest) - {unat lo..unat hi} =
      ({nlo i..nhi i} - {unat lo..unat hi}) \<union> used_blocks rest" if "unat hi \<le> nhi i"
  proof -
    have "used_blocks rest - {unat lo..unat hi} = used_blocks rest" using sub that by fastforce
    then show ?thesis by (simp add: Un_Diff)
  qed
  have head: "nhi i < nhi (rest ! 0)" if "rest \<noteq> []"
    using that Cons.prems(1) by (cases rest) simp_all
  consider (behind) "block_high i < lo"
    | (exact) "lo \<le> block_high i" "lo = block_low i" "hi = block_high i"
    | (left) "lo \<le> block_high i" "lo = block_low i" "hi < block_high i"
    | (right) "lo \<le> block_high i" "block_low i < lo" "hi = block_high i"
    | (middle) "lo \<le> block_high i" "block_low i < lo" "hi < block_high i"
    | (miss) "lo \<le> block_high i" "lo < block_low i \<or> block_high i < hi"
    using linorder_less_linear [of lo "block_low i"] linorder_less_linear [of hi "block_high i"]
      linorder_not_le [of lo "block_high i"] by blast
  then show ?case
  proof cases
    case behind
    with Cons.prems(1) ih show ?thesis by (simp add: free_spec_shift word_less_nat_alt)
  next
    case exact
    have "used_blocks (i # rest) - {nlo i..nhi i} = used_blocks rest"
      using keep exact by simp
    with exact Cons.prems(1) head show ?thesis
      by (auto simp: free_spec_def intro: nodes_ok_mono)
  next
    case left
    then have n: "unat lo = nlo i" "unat hi < nhi i" by (simp_all add: word_less_nat_alt)
    have run: "free_loop mem lo hi (i # rest) = Freed (i\<lparr>block_low := hi + 1\<rparr> # rest) (Some 0) 0"
      using left by (auto simp: not_less)
    from n le have "{nlo i..nhi i} - {unat lo..unat hi} = {unat hi + 1..nhi i}" by auto
    with keep n have ueq: "used_blocks (i # rest) - {unat lo..unat hi} = {unat hi + 1..nhi i} \<union> used_blocks rest"
      by simp
    show ?thesis unfolding run
    proof (rule free_specI)
      show "used_blocks (i\<lparr>block_low := hi + 1\<rparr> # rest) = used_blocks (i # rest) - {unat lo..unat hi}"
        unfolding ueq by (simp add: hi1)
    qed (use n le Cons.prems(1) hi1 in auto)
  next
    case right
    then have n: "nlo i < unat lo" "unat hi = nhi i" "unat lo \<le> nhi i" by (simp_all add: word_nat_simps)
    note l = lo1 [OF right(2)]
    have run: "free_loop mem lo hi (i # rest) =
        Freed (i\<lparr>block_high := lo - 1\<rparr> # rest) (if rest = [] then None else Some 1) 0"
      using right by (auto simp: not_less)
    from n le have "{nlo i..nhi i} - {unat lo..unat hi} = {nlo i..unat lo - 1}" by auto
    with keep n have ueq: "used_blocks (i # rest) - {unat lo..unat hi} = {nlo i..unat lo - 1} \<union> used_blocks rest"
      by simp
    show ?thesis unfolding run
    proof (rule free_specI)
      show "used_blocks (i\<lparr>block_high := lo - 1\<rparr> # rest) = used_blocks (i # rest) - {unat lo..unat hi}"
        unfolding ueq by (simp add: l)
      show "nodes_ok p e (i\<lparr>block_high := lo - 1\<rparr> # rest)"
        using n l Cons.prems(1) by (auto intro: nodes_ok_mono)
      show "j < length (i\<lparr>block_high := lo - 1\<rparr> # rest) \<and> unat hi < nhi ((i\<lparr>block_high := lo - 1\<rparr> # rest) ! j)"
        if "(if rest = [] then None else Some 1) = Some j" for j
        using that head n by (auto split: if_splits)
    qed (use n in auto)
  next
    case middle
    then have n: "nlo i < unat lo" "unat hi < nhi i" "unat lo \<le> nhi i" by (simp_all add: word_nat_simps)
    note l = lo1 [OF middle(2)]
    let ?ns = "i\<lparr>block_high := lo - 1\<rparr> # \<lparr>block_low = hi + 1, block_high = block_high i\<rparr> # rest"
    have run: "free_loop mem lo hi (i # rest) = (if \<not> mem then NoMem else Freed ?ns (Some 1) 1)"
      using middle by (auto simp: not_less)
    have sub': "{unat lo..unat hi} \<subseteq> used_blocks (i # rest)" using n by auto
    from n le have "{nlo i..nhi i} - {unat lo..unat hi} = {nlo i..unat lo - 1} \<union> {unat hi + 1..nhi i}" by auto
    with keep n have ueq: "used_blocks (i # rest) - {unat lo..unat hi} =
        {nlo i..unat lo - 1} \<union> ({unat hi + 1..nhi i} \<union> used_blocks rest)"
      by (simp add: Un_assoc)
    have "free_spec mem p e (unat lo) (unat hi) (i # rest) (Freed ?ns (Some 1) 1)"
    proof (rule free_specI [OF sub'])
      show "used_blocks ?ns = used_blocks (i # rest) - {unat lo..unat hi}"
        unfolding ueq by (simp add: l hi1)
    qed (use n l le Cons.prems(1) hi1 in auto)
    moreover have "free_spec False p e (unat lo) (unat hi) (i # rest) NoMem"
      using sub' by (simp add: free_spec_def)
    ultimately show ?thesis unfolding run by (cases mem) (simp_all only: simp_thms if_True if_False)
  next
    case miss
    then have "free_loop mem lo hi (i # rest) = shift_result i ?r"
      using Cons.prems(2) by (auto simp: word_nat_simps)
    moreover have "unat lo \<le> nhi i" "unat lo < nlo i \<or> nhi i < unat hi"
      using miss by (auto simp: word_nat_simps)
    ultimately show ?thesis using free_spec_miss [OF Cons.prems(1) ih le] by simp
  qed
qed

section \<open>The whole operation\<close>

lemma used_before:
  "nodes_ok p e (ns @ m # ms) \<Longrightarrow> used_blocks ns \<subseteq> {p..<nlo m}"
proof (induction ns arbitrary: p)
  case Nil
  then show ?case by simp
next
  case (Cons n ns)
  then have sub: "used_blocks ns \<subseteq> {nhi n + 2..<nlo m}" by simp
  have "nhi n < nlo m"
  proof (cases ns)
    case Nil
    with Cons.prems show ?thesis by simp
  next
    case (Cons a list)
    with \<open>nodes_ok p e ((n # ns) @ m # ms)\<close> have "nlo a \<in> used_blocks ns" "nhi n + 2 \<le> nlo a" by simp_all
    with sub show ?thesis by fastforce
  qed
  with sub Cons.prems show ?case by auto
qed

lemma nodes_ok_replace_suffix:
  assumes "nodes_ok p e (ns @ m # ms)" and "nodes_ok (nlo m) e ms'"
  shows "nodes_ok p e (ns @ ms')"
  using assms
proof (induction ns arbitrary: p)
  case Nil
  then show ?case by (auto intro: nodes_ok_mono)
next
  case (Cons n ns)
  then show ?case by simp
qed

definition hint_ok :: "pmfs_sb_info \<Rightarrow> nat option \<Rightarrow> bool" where
  "hint_ok sbi hint \<longleftrightarrow> (case hint of None \<Rightarrow> True | Some k \<Rightarrow> k < length (block_inuse_head sbi))"

text \<open>Starting at the hint does not change what the search finds.\<close>

lemma free_from_hint:
  assumes ok: "nodes_ok p e ns" and ne: "ns \<noteq> []" and k: "case hint of None \<Rightarrow> True | Some k \<Rightarrow> k < length ns"
    and le: "lo \<le> hi" "unat hi < 2 ^ 53"
  defines "j \<equiv> free_start lo ns hint"
  shows "case free_loop mem lo hi (drop j ns) of
       NotFound \<Rightarrow> \<not> {unat lo..unat hi} \<subseteq> used_blocks ns
     | NoMem \<Rightarrow> \<not> mem \<and> {unat lo..unat hi} \<subseteq> used_blocks ns
     | Freed ms h d \<Rightarrow> {unat lo..unat hi} \<subseteq> used_blocks ns \<and> nodes_ok p e (take j ns @ ms) \<and>
         used_blocks (take j ns @ ms) = used_blocks ns - {unat lo..unat hi} \<and>
         of_nat (length (take j ns @ ms)) = of_nat (length ns) + d \<and>
         (case h of None \<Rightarrow> True | Some i \<Rightarrow> j + i < length (take j ns @ ms))"
proof -
  have j: "j < length ns" "j \<noteq> 0 \<longrightarrow> block_low (ns ! j) \<le> lo"
    using k ne by (auto simp: j_def free_start_def split: option.splits)
  define as m ms where d: "as = take j ns" "m = ns ! j" "ms = drop (Suc j) ns"
  have ns: "ns = as @ m # ms" "drop j ns = m # ms"
    using j(1) by (simp_all add: d id_take_nth_drop Cons_nth_drop_Suc)
  have len: "length as = j" using j(1) by (simp add: d)
  have lom: "nlo m \<le> unat lo \<or> as = []" using j(2) by (auto simp: d word_le_nat_alt)
  with used_before [of p e as m ms] ok ns(1) have dis: "used_blocks as \<inter> {unat lo..unat hi} = {}"
    by fastforce
  have suf: "nodes_ok (nlo m) e (m # ms)"
    using ok ns(1) by (simp add: nodes_ok_append)
  note spec = free_loop_spec [OF suf le, of mem]
  have sub: "{unat lo..unat hi} \<subseteq> used_blocks ns \<longleftrightarrow> {unat lo..unat hi} \<subseteq> used_blocks (m # ms)"
    using dis unfolding ns(1) used_blocks_simps(3) by blast
  have diff: "used_blocks as \<union> (used_blocks (m # ms) - {unat lo..unat hi}) = used_blocks ns - {unat lo..unat hi}"
    using dis unfolding ns(1) used_blocks_simps(3) by blast
  show ?thesis
  proof (cases "free_loop mem lo hi (m # ms)")
    case (Freed ms' h dd)
    with spec have f: "{unat lo..unat hi} \<subseteq> used_blocks (m # ms)" "nodes_ok (nlo m) e ms'"
        "used_blocks ms' = used_blocks (m # ms) - {unat lo..unat hi}"
        "of_nat (length ms') = of_nat (length (m # ms)) + dd" "case h of None \<Rightarrow> True | Some i \<Rightarrow> i < length ms'"
      by (auto simp: free_spec_def split: option.splits)
    have "nodes_ok p e (as @ ms')" using ok f(2) unfolding ns(1) by (rule nodes_ok_replace_suffix)
    moreover have "used_blocks (as @ ms') = used_blocks ns - {unat lo..unat hi}"
      using diff f(3) by simp
    moreover have "of_nat (length (as @ ms')) = of_nat (length ns) + dd"
      using f(4) by (simp add: ns(1))
    ultimately show ?thesis
      using Freed f(1,5) sub unfolding ns(2) d(1) [symmetric] by (simp add: len split: option.splits)
  qed (use spec sub in \<open>simp_all add: free_spec_def ns(2) del: free_loop.simps\<close>)
qed

lemma card_remove_extent:
  assumes "{b..<b + n} \<subseteq> used_blocks ns" "used_blocks ns' = used_blocks ns - {b..<b + n}"
  shows "card (used_blocks ns) = card (used_blocks ns') + n"
proof -
  have "card (used_blocks ns') = card (used_blocks ns) - n"
    using assms by (simp add: card_Diff_subset)
  moreover have "n \<le> card (used_blocks ns)"
    using card_mono [OF _ assms(1)] by simp
  ultimately show ?thesis by simp
qed

lemma pmfs_free_block_locked_ok:
  fixes btype :: u16
  assumes inv: "balloc_inv sbi" and h: "hint_ok sbi hint" and ne: "block_inuse_head sbi \<noteq> []"
    and b: "unat b < 2 ^ 52"
  defines "n \<equiv> unat (pmfs_get_numblocks btype)"
  shows "\<exists>ok sbi' hint'. pmfs_free_block_locked mem b btype hint sbi = Inr (ok, sbi', hint') \<and>
     balloc_inv sbi' \<and> hint_ok sbi' hint' \<and>
     block_start sbi' = block_start sbi \<and> block_end sbi' = block_end sbi \<and> nvmm sbi' = nvmm sbi \<and>
     (if {unat b..<unat b + n} \<subseteq> used sbi
      then ok \<and> (used sbi' = used sbi - {unat b..<unat b + n} \<and>
                  unat (num_free_blocks sbi') = unat (num_free_blocks sbi) + n \<or> \<not> mem \<and> sbi' = sbi)
      else \<not> ok \<and> sbi' = sbi)"
proof -
  let ?lo = b and ?hi = "b + pmfs_get_numblocks btype - 1"
  let ?j = "free_start b (block_inuse_head sbi) hint"
  note nb = numblocks_bounds [of btype, folded n_def]
  have "unat (b + pmfs_get_numblocks btype) = unat b + n"
    using b nb(2) by (subst unat_add_less) (simp_all add: n_def)
  then have hi: "unat ?hi = unat b + n - 1" using nb(1) by (subst unat_sub_le) simp_all
  have range: "{unat ?lo..unat ?hi} = {unat b..<unat b + n}" using hi nb(1) by auto
  have le: "?lo \<le> ?hi" "unat ?hi < 2 ^ 53" using hi nb b by (simp_all add: word_le_nat_alt)
  from inv have ok: "nodes_ok (unat (block_start sbi)) (unat (block_end sbi)) (block_inuse_head sbi)"
    by (simp add: balloc_inv_def)
  have k: "case hint of None \<Rightarrow> True | Some k \<Rightarrow> k < length (block_inuse_head sbi)"
    using h by (simp add: hint_ok_def)
  have hint: "\<not> (case hint of None \<Rightarrow> False | Some k \<Rightarrow> length (block_inuse_head sbi) \<le> k)"
    using k by (simp split: option.splits)
  note spec = free_from_hint [OF ok ne k le, of mem, unfolded range]
  have run: "pmfs_free_block_locked mem b btype hint sbi =
      (case free_loop mem ?lo ?hi (drop ?j (block_inuse_head sbi)) of
         NotFound \<Rightarrow> Inr (False, sbi, hint) | NoMem \<Rightarrow> Inr (True, sbi, hint)
       | Freed ns' h' d \<Rightarrow> Inr (True, sbi\<lparr>block_inuse_head := take ?j (block_inuse_head sbi) @ ns',
             num_free_blocks := num_free_blocks sbi + pmfs_get_numblocks btype,
             num_blocknode_allocated := num_blocknode_allocated sbi + d\<rparr>, map_option (\<lambda>i. ?j + i) h'))"
    unfolding pmfs_free_block_locked_def Let_def if_not_P [OF ne] if_not_P [OF hint] ..
  show ?thesis
  proof (cases "free_loop mem ?lo ?hi (drop ?j (block_inuse_head sbi))")
    case NotFound
    with spec run inv h show ?thesis by auto
  next
    case NoMem
    with spec run inv h show ?thesis by auto
  next
    case (Freed ns' h' d)
    let ?ns = "take ?j (block_inuse_head sbi) @ ns'"
    from spec Freed have f: "{unat b..<unat b + n} \<subseteq> used sbi"
        "nodes_ok (unat (block_start sbi)) (unat (block_end sbi)) ?ns"
        "used_blocks ?ns = used sbi - {unat b..<unat b + n}"
        "of_nat (length ?ns) = of_nat (length (block_inuse_head sbi)) + d"
        "case h' of None \<Rightarrow> True | Some i \<Rightarrow> ?j + i < length ?ns" by simp_all
    note card = card_remove_extent [OF f(1,3)]
    have free: "unat (num_free_blocks sbi + pmfs_get_numblocks btype) = unat (num_free_blocks sbi) + n"
      using inv card nb(2) by (subst unat_add_less) (auto simp: balloc_inv_def n_def)
    let ?sbi = "sbi\<lparr>block_inuse_head := ?ns, num_free_blocks := num_free_blocks sbi + pmfs_get_numblocks btype,
             num_blocknode_allocated := num_blocknode_allocated sbi + d\<rparr>"
    have "balloc_inv ?sbi"
      using inv f(2,4) free card by (simp add: balloc_inv_def)
    moreover have "hint_ok ?sbi (map_option (\<lambda>i. ?j + i) h')"
      using f(5) by (simp add: hint_ok_def split: option.splits)
    ultimately show ?thesis
      using run Freed f(1,3) free by auto
  qed
qed

end
