(* ===== verification/Allocator.thy ===== *)
theory Allocator
  imports Main
begin

text \<open>
  The contract of a block allocator as its clients (inode trees, directories, the journal set-up) rely on
  it, independent of the representation of free space.  \<open>'k\<close> is the kind of a request; \<open>len\<close> gives the
  number of blocks of a kind.
\<close>

datatype 'k request = Get 'k | Put nat

locale block_allocator =
  fixes inv :: "'s \<Rightarrow> bool"
    and in_use :: "'s \<Rightarrow> nat set"
    and avail :: "'s \<Rightarrow> nat"
    and len :: "'k \<Rightarrow> nat"
    and new :: "'k \<Rightarrow> 's \<Rightarrow> (nat \<times> 's) option"
    and release :: "'k \<Rightarrow> nat \<Rightarrow> 's \<Rightarrow> 's"
  assumes new_inv: "\<lbrakk>inv s; new k s = Some (b, s')\<rbrakk> \<Longrightarrow> inv s'"
    and new_fresh: "\<lbrakk>inv s; new k s = Some (b, s')\<rbrakk> \<Longrightarrow> in_use s \<inter> {b..<b + len k} = {}"
    and new_used: "\<lbrakk>inv s; new k s = Some (b, s')\<rbrakk> \<Longrightarrow> in_use s' = in_use s \<union> {b..<b + len k}"
    and new_avail: "\<lbrakk>inv s; new k s = Some (b, s')\<rbrakk> \<Longrightarrow> avail s = avail s' + len k"
    and release_inv: "\<lbrakk>inv s; {b..<b + len k} \<subseteq> in_use s\<rbrakk> \<Longrightarrow> inv (release k b s)"
    and release_used: "\<lbrakk>inv s; {b..<b + len k} \<subseteq> in_use s\<rbrakk> \<Longrightarrow>
      in_use (release k b s) = in_use s - {b..<b + len k} \<and> avail (release k b s) = avail s + len k \<or>
      release k b s = s"
begin

text \<open>
  A client that owns a list of extents and asks for and returns extents; a failed request changes nothing.
\<close>

definition extent :: "'k \<times> nat \<Rightarrow> nat set" where
  "extent x = {snd x..<snd x + len (fst x)}"

definition extents :: "('k \<times> nat) list \<Rightarrow> nat set" where
  "extents xs = (\<Union>x \<in> set xs. extent x)"

fun disjoint :: "('k \<times> nat) list \<Rightarrow> bool" where
  "disjoint [] = True"
| "disjoint (x # xs) = (extent x \<inter> extents xs = {} \<and> disjoint xs)"

fun serve :: "'k request list \<Rightarrow> ('k \<times> nat) list \<Rightarrow> 's \<Rightarrow> ('k \<times> nat) list \<times> 's" where
  "serve [] xs s = (xs, s)"
| "serve (Get k # rs) xs s =
     (case new k s of None \<Rightarrow> serve rs xs s | Some (b, s') \<Rightarrow> serve rs ((k, b) # xs) s')"
| "serve (Put i # rs) xs s =
     (if i < length xs
      then serve rs (take i xs @ drop (Suc i) xs) (release (fst (xs ! i)) (snd (xs ! i)) s)
      else serve rs xs s)"

lemma extents_simps [simp]:
  "extents [] = {}" "extents (x # xs) = extent x \<union> extents xs" "extents (xs @ ys) = extents xs \<union> extents ys"
  by (auto simp: extents_def)

lemma disjoint_append:
  "disjoint (xs @ ys) \<longleftrightarrow> disjoint xs \<and> disjoint ys \<and> extents xs \<inter> extents ys = {}"
  by (induction xs) auto

text \<open>
  No two live extents of the client overlap, and no block of anybody else is handed out or freed,
  whatever the sequence of requests.
\<close>

lemma serve_safe:
  "\<lbrakk>inv s; disjoint xs; extents xs \<subseteq> in_use s; serve rs xs s = (xs', s')\<rbrakk> \<Longrightarrow>
   inv s' \<and> disjoint xs' \<and> extents xs' \<subseteq> in_use s' \<and>
   in_use s - extents xs \<subseteq> in_use s' - extents xs'"
proof (induction rs xs s rule: serve.induct)
  case (1 xs s)
  then show ?case by simp
next
  case (2 k rs xs s)
  show ?case
  proof (cases "new k s")
    case None
    with 2 show ?thesis by simp
  next
    case (Some bs)
    then obtain b t where bt: "new k s = Some (b, t)" by (cases bs) auto
    note n = new_inv [OF \<open>inv s\<close> bt] new_fresh [OF \<open>inv s\<close> bt] new_used [OF \<open>inv s\<close> bt]
    have e: "extent (k, b) = {b..<b + len k}" by (simp add: extent_def)
    have "in_use s - extents xs = in_use t - extents ((k, b) # xs)"
      using n(2,3) "2.prems"(3) e by auto
    moreover have "disjoint ((k, b) # xs)" "extents ((k, b) # xs) \<subseteq> in_use t"
      using n(2,3) "2.prems"(2,3) e by auto
    ultimately show ?thesis
      using "2.IH"(2) [OF bt refl n(1)] "2.prems"(4) bt by simp
  qed
next
  case (3 i rs xs s)
  show ?case
  proof (cases "i < length xs")
    case False
    with 3 show ?thesis by simp
  next
    case True
    let ?x = "xs ! i" and ?xs = "take i xs @ drop (Suc i) xs"
    let ?t = "release (fst ?x) (snd ?x) s"
    have xs: "xs = take i xs @ ?x # drop (Suc i) xs" using True by (rule id_take_nth_drop)
    have e: "{snd ?x..<snd ?x + len (fst ?x)} = extent ?x" by (simp add: extent_def)
    have "disjoint (take i xs @ ?x # drop (Suc i) xs)" using "3.prems"(2) xs by simp
    then have d: "disjoint ?xs" "extent ?x \<inter> extents ?xs = {}" by (auto simp: disjoint_append)
    have "extents xs = extents (take i xs @ ?x # drop (Suc i) xs)" using xs by simp
    then have dx: "extents xs = extents ?xs \<union> extent ?x" by auto
    have sub: "extent ?x \<subseteq> in_use s" using "3.prems"(3) dx by blast
    note r = release_inv [OF "3.prems"(1), of "snd ?x" "fst ?x", unfolded e, OF sub]
      release_used [OF "3.prems"(1), of "snd ?x" "fst ?x", unfolded e, OF sub]
    have "extents ?xs \<subseteq> in_use ?t" "in_use s - extents xs \<subseteq> in_use ?t - extents ?xs"
      using r(2) d(2) dx "3.prems"(3) by auto
    with "3.IH"(1) [OF True r(1) d(1)] "3.prems"(4) True show ?thesis by auto
  qed
qed

text \<open>Blocks are conserved: what the client holds and what is free never grows together.\<close>

lemma serve_conserves:
  "\<lbrakk>inv s; disjoint xs; extents xs \<subseteq> in_use s; serve rs xs s = (xs', s')\<rbrakk> \<Longrightarrow>
   avail s' + (\<Sum>x\<leftarrow>xs'. len (fst x)) \<le> avail s + (\<Sum>x\<leftarrow>xs. len (fst x))"
proof (induction rs xs s rule: serve.induct)
  case (1 xs s)
  then show ?case by simp
next
  case (2 k rs xs s)
  show ?case
  proof (cases "new k s")
    case None
    with 2 show ?thesis by simp
  next
    case (Some bs)
    then obtain b t where bt: "new k s = Some (b, t)" by (cases bs) auto
    note n = new_inv [OF \<open>inv s\<close> bt] new_fresh [OF \<open>inv s\<close> bt] new_used [OF \<open>inv s\<close> bt]
      new_avail [OF \<open>inv s\<close> bt]
    have e: "extent (k, b) = {b..<b + len k}" by (simp add: extent_def)
    have "disjoint ((k, b) # xs)" "extents ((k, b) # xs) \<subseteq> in_use t"
      using n(2,3) "2.prems"(2,3) e by auto
    then show ?thesis
      using "2.IH"(2) [OF bt refl n(1)] "2.prems"(4) bt n(4) by simp
  qed
next
  case (3 i rs xs s)
  show ?case
  proof (cases "i < length xs")
    case False
    with 3 show ?thesis by simp
  next
    case True
    let ?x = "xs ! i" and ?xs = "take i xs @ drop (Suc i) xs"
    have safe: "serve [Put i] xs s = (?xs, release (fst ?x) (snd ?x) s)" using True by simp
    have xs: "xs = take i xs @ ?x # drop (Suc i) xs" using True by (rule id_take_nth_drop)
    have sum: "(\<Sum>x\<leftarrow>xs. len (fst x)) = len (fst ?x) + (\<Sum>x\<leftarrow>?xs. len (fst x))"
      by (subst xs) simp
    have "?x \<in> set xs" using True by simp
    then have "extent ?x \<subseteq> in_use s" using "3.prems"(3) unfolding extents_def by blast
    then have "avail (release (fst ?x) (snd ?x) s) \<le> avail s + len (fst ?x)"
      using release_used [OF "3.prems"(1), of "snd ?x" "fst ?x"] by (auto simp: extent_def)
    with serve_safe [OF "3.prems"(1-3) safe] "3.IH"(1) [OF True] "3.prems"(4) True sum show ?thesis by simp
  qed
qed

end

end
