(* ===== verification/Pmfs_Alloc_Props.thy ===== *)
theory Pmfs_Alloc_Props
  imports Pmfs_Balloc_Free Allocator
begin

unbundle bit_operations_syntax

text \<open>
  The properties of the PMFS block allocator: what every operation does to the set of used blocks, that
  allocation is complete, that freeing undoes allocating, and the allocator contract.
\<close>

section \<open>The list is determined by the set of used blocks\<close>

lemma used_hd:
  assumes "nodes_ok p e (n # ns)"
  shows "nlo n \<in> used_blocks (n # ns)" "x \<in> used_blocks (n # ns) \<Longrightarrow> nlo n \<le> x"
    "nhi n + 1 \<notin> used_blocks (n # ns)" "{nlo n..nhi n} \<subseteq> used_blocks (n # ns)"
proof -
  have rest: "used_blocks ns \<subseteq> {nhi n + 2..<e}" using assms used_blocks_range [of "nhi n + 2"] by simp
  show "nlo n \<in> used_blocks (n # ns)" "{nlo n..nhi n} \<subseteq> used_blocks (n # ns)" using assms by auto
  show "nlo n \<le> x" if "x \<in> used_blocks (n # ns)" using that rest assms by fastforce
  show "nhi n + 1 \<notin> used_blocks (n # ns)" using rest by fastforce
qed

lemma same_first_node:
  assumes n: "nodes_ok p e (n # ns)" and m: "nodes_ok q d (m # ms)"
    and eq: "used_blocks (n # ns) = used_blocks (m # ms)"
  shows "nlo n = nlo m" "nhi n \<le> nhi m"
proof -
  show lo: "nlo n = nlo m"
    using used_hd(1) [OF n] used_hd(1) [OF m] used_hd(2) [OF n, of "nlo m"] used_hd(2) [OF m, of "nlo n"]
    unfolding eq by (simp only: order_antisym)
  show "nhi n \<le> nhi m"
  proof (rule ccontr)
    assume "\<not> nhi n \<le> nhi m"
    with lo m have "nhi m + 1 \<in> {nlo n..nhi n}" by simp
    with used_hd(4) [OF n] eq used_hd(3) [OF m] show False by blast
  qed
qed

lemma nodes_canonical:
  "\<lbrakk>nodes_ok p e ns; nodes_ok q d ms; used_blocks ns = used_blocks ms\<rbrakk> \<Longrightarrow> ns = ms"
proof (induction ns arbitrary: p q ms)
  case Nil
  then show ?case by (cases ms) auto
next
  case (Cons n ns)
  show ?case
  proof (cases ms)
    case Nil
    with Cons.prems show ?thesis by auto
  next
    case (Cons m ms')
    note c = \<open>ms = m # ms'\<close>
    from Cons.prems c have n: "nodes_ok p e (n # ns)" and m: "nodes_ok q d (m # ms')"
      and eq: "used_blocks (n # ns) = used_blocks (m # ms')" by simp_all
    from same_first_node [OF n m eq] same_first_node [OF m n eq [symmetric]]
    have same: "nlo n = nlo m" "nhi n = nhi m" by simp_all
    have "used_blocks ns = used_blocks (n # ns) - {..nhi n}"
      using n used_blocks_range [of "nhi n + 2" e ns] by fastforce
    moreover have "used_blocks ms' = used_blocks (m # ms') - {..nhi m}"
      using m used_blocks_range [of "nhi m + 2" d ms'] by fastforce
    ultimately have "used_blocks ns = used_blocks ms'" using eq same by simp
    with Cons.IH [of "nhi n + 2" "nhi m + 2" ms'] n m have "ns = ms'" by simp
    moreover have "n = m" using same by (cases n; cases m) (simp add: word_unat_eq_iff)
    ultimately show ?thesis using c by simp
  qed
qed

section \<open>Contract\<close>

type_synonym pmfs_kind = "bool \<times> u16 \<times> bool"

definition pmfs_get :: "pmfs_kind \<Rightarrow> pmfs_sb_info \<Rightarrow> (nat \<times> pmfs_sb_info) option" where
  "pmfs_get k sbi =
     (case k of (mem, btype, zero) \<Rightarrow>
        (case pmfs_new_block mem btype zero sbi of
           (Inl e, sbi') \<Rightarrow> None
         | (Inr b, sbi') \<Rightarrow> Some (unat b, sbi')))"

definition pmfs_put :: "pmfs_kind \<Rightarrow> nat \<Rightarrow> pmfs_sb_info \<Rightarrow> pmfs_sb_info" where
  "pmfs_put k b sbi =
     (case k of (mem, btype, zero) \<Rightarrow>
        (case pmfs_free_block mem (of_nat b) btype sbi of
           Inl f \<Rightarrow> sbi
         | Inr (ok, sbi') \<Rightarrow> sbi'))"

definition pmfs_len :: "pmfs_kind \<Rightarrow> nat" where
  "pmfs_len k = unat (pmfs_get_numblocks (fst (snd k)))"

lemma pmfs_get_Some:
  assumes "pmfs_get k sbi = Some (b, sbi')"
  obtains mem btype zero w where "k = (mem, btype, zero)" "b = unat w"
    "pmfs_new_block mem btype zero sbi = (Inr w, sbi')"
  using assms that by (cases k) (auto simp: pmfs_get_def split: prod.splits sum.splits)

lemma pmfs_put_used:
  assumes inv: "balloc_inv sbi" and sub: "{b..<b + pmfs_len k} \<subseteq> used sbi"
  shows "balloc_inv (pmfs_put k b sbi)"
    and "used (pmfs_put k b sbi) = used sbi - {b..<b + pmfs_len k} \<and>
         unat (num_free_blocks (pmfs_put k b sbi)) = unat (num_free_blocks sbi) + pmfs_len k \<or>
         pmfs_put k b sbi = sbi"
proof -
  obtain mem btype zero where k: "k = (mem, btype, zero)" by (cases k)
  have n: "pmfs_len k = unat (pmfs_get_numblocks btype)" by (simp add: pmfs_len_def k)
  have "0 < pmfs_len k" using numblocks_bounds n by simp
  with sub have b: "b \<in> used sbi" by auto
  moreover have "used sbi \<subseteq> {..<2 ^ 52}"
    using inv used_blocks_range by (fastforce simp: balloc_inv_def)
  ultimately have lim: "b < 2 ^ 52" by auto
  then have w: "unat (of_nat b :: u64) = b" by (intro unat_of_nat_less) simp
  have ne: "block_inuse_head sbi \<noteq> []" using b by auto
  from pmfs_free_block_locked_ok [OF inv _ ne, of None "of_nat b" mem btype] lim w sub n obtain ok sbi' hint'
    where "pmfs_free_block_locked mem (of_nat b) btype None sbi = Inr (ok, sbi', hint')" "balloc_inv sbi'"
      "used sbi' = used sbi - {b..<b + pmfs_len k} \<and>
         unat (num_free_blocks sbi') = unat (num_free_blocks sbi) + pmfs_len k \<or> sbi' = sbi"
    by (auto simp: hint_ok_def)
  then show "balloc_inv (pmfs_put k b sbi)"
    "used (pmfs_put k b sbi) = used sbi - {b..<b + pmfs_len k} \<and>
         unat (num_free_blocks (pmfs_put k b sbi)) = unat (num_free_blocks sbi) + pmfs_len k \<or>
         pmfs_put k b sbi = sbi"
    by (simp_all add: pmfs_put_def k pmfs_free_block_def)
qed

interpretation pmfs_alloc: block_allocator balloc_inv used "\<lambda>sbi. unat (num_free_blocks sbi)" pmfs_len
  pmfs_get pmfs_put
proof
  fix s k b s'
  assume inv: "balloc_inv s" and get: "pmfs_get k s = Some (b, s')"
  from get obtain mem btype zero w where k: "k = (mem, btype, zero)" "b = unat w"
    "pmfs_new_block mem btype zero s = (Inr w, s')" by (rule pmfs_get_Some)
  note n = pmfs_new_block_ok [OF inv k(3)]
  show "balloc_inv s'" by (rule n)
  show "used s \<inter> {b..<b + pmfs_len k} = {}" "used s' = used s \<union> {b..<b + pmfs_len k}"
    "unat (num_free_blocks s) = unat (num_free_blocks s') + pmfs_len k"
    using n by (simp_all add: pmfs_len_def k)
next
  fix s b k
  assume "balloc_inv s" "{b..<b + pmfs_len k} \<subseteq> used s"
  then show "balloc_inv (pmfs_put k b s)"
    "used (pmfs_put k b s) = used s - {b..<b + pmfs_len k} \<and>
      unat (num_free_blocks (pmfs_put k b s)) = unat (num_free_blocks s) + pmfs_len k \<or> pmfs_put k b s = s"
    by (rule pmfs_put_used)+
qed

section \<open>Properties\<close>

text \<open>A file system of 2000 blocks whose first 3 blocks and blocks 10 to 19 are in use.\<close>

definition sbi0 :: pmfs_sb_info where
  "sbi0 = \<lparr>block_inuse_head = [\<lparr>block_low = 0, block_high = 2\<rparr>, \<lparr>block_low = 10, block_high = 19\<rparr>],
     block_start = 0, block_end = 2000, num_free_blocks = 1987, num_blocknode_allocated = 2,
     nvmm = (\<lambda>a. 7)\<rparr>"

lemma sbi0_inv: "balloc_inv sbi0"
proof -
  have "used sbi0 = {0..2} \<union> {10..19}" by (simp add: sbi0_def)
  moreover have "card ({0..2} \<union> {10..19 :: nat}) = 13" by (subst card_Un_disjoint) auto
  ultimately show ?thesis by (simp add: balloc_inv_def sbi0_def)
qed

text \<open>
  C17: \<^verbatim>\<open>pmfs_new_block\<close> is a correct and complete allocator of aligned extents.  On success it keeps the
  invariant, the extent was free, is aligned to its size and inside the device, becomes used, and with
  \<open>zero\<close> exactly its bytes are cleared.  On failure nothing changes and, unless memory for a node was
  missing, no aligned free extent exists.
\<close>

theorem pmfs_new_block_spec:
  fixes btype :: u16
  assumes inv: "balloc_inv sbi" and ne: "block_inuse_head sbi \<noteq> []"
    and start: "block_low (hd (block_inuse_head sbi)) = block_start sbi"
  defines "n \<equiv> unat (pmfs_get_numblocks btype)"
  shows "case pmfs_new_block mem btype zero sbi of
      (Inr b, sbi') \<Rightarrow>
        balloc_inv sbi' \<and> used sbi \<inter> {unat b..<unat b + n} = {} \<and>
        used sbi' = used sbi \<union> {unat b..<unat b + n} \<and> n dvd unat b \<and>
        unat b + n \<le> unat (block_end sbi) \<and>
        nvmm sbi' = (\<lambda>a. if zero \<and> unat b * 4096 \<le> a \<and> a < (unat b + n) * 4096 then 0 else nvmm sbi a)
    | (Inl e, sbi') \<Rightarrow>
        e = - ENOSPC \<and> sbi' = sbi \<and>
        (mem \<longrightarrow> (\<forall>x. n dvd x \<and> unat (block_start sbi) \<le> x \<and> x + n \<le> unat (block_end sbi) \<longrightarrow>
           used sbi \<inter> {x..<x + n} \<noteq> {}))"
proof (cases "pmfs_new_block mem btype zero sbi")
  case (Pair r sbi')
  show ?thesis
  proof (cases r)
    case (Inr b)
    note k = pmfs_new_block_ok [OF inv, of mem btype zero b sbi', folded n_def]
    have run: "pmfs_new_block mem btype zero sbi = (Inr b, sbi')" using Pair Inr by simp
    have lim: "unat b < 2 ^ 52"
      using k(5) [OF run] inv numblocks_bounds [of btype] by (simp add: balloc_inv_def n_def)
    have "unat (pmfs_get_block_off b) = unat b * 4096"
      using lim by (simp add: pmfs_get_block_off_def push_bit_eq_mult unat_word_ariths)
    moreover have "zero_size btype = n * 4096"
      by (simp add: zero_size_def n_def pmfs_get_numblocks_def)
    moreover have "nvmm sbi' = (if zero then memset_nt_zero (unat (pmfs_get_block_off b)) (zero_size btype) (nvmm sbi)
        else nvmm sbi)"
      using run by (auto simp: pmfs_new_block_def Let_def split: new_result.splits)
    ultimately have "nvmm sbi' = (\<lambda>a. if zero \<and> unat b * 4096 \<le> a \<and> a < (unat b + n) * 4096 then 0 else nvmm sbi a)"
      by (auto simp: memset_nt_zero_def add_mult_distrib)
    with run k [OF run] show ?thesis by simp
  next
    case (Inl e)
    with Pair have e: "e = - ENOSPC" "sbi' = sbi"
      and loop: "new_block_loop mem (block_end sbi) (pmfs_get_numblocks btype) (block_inuse_head sbi) = New_none \<or>
        new_block_loop mem (block_end sbi) (pmfs_get_numblocks btype) (block_inuse_head sbi) = New_nomem"
      by (auto simp: pmfs_new_block_def Let_def split: new_result.splits)
    have "used sbi \<inter> {x..<x + n} \<noteq> {}"
      if mem and x: "n dvd x" "unat (block_start sbi) \<le> x" "x + n \<le> unat (block_end sbi)" for x
    proof -
      have none: "new_block_loop mem (block_end sbi) (pmfs_get_numblocks btype) (block_inuse_head sbi) = New_none"
        using loop new_block_loop_mem \<open>mem\<close> by auto
      from inv have "unat (block_end sbi) \<le> 2 ^ 52"
        "nodes_ok (unat (block_start sbi)) (unat (block_end sbi)) (block_inuse_head sbi)"
        by (simp_all add: balloc_inv_def)
      from new_block_loop_none [OF this ne none] x start show ?thesis by (simp add: n_def)
    qed
    with Pair Inl e show ?thesis by simp
  qed
qed

theorem pmfs_new_block_spec_witness:
  "balloc_inv (snd (pmfs_new_block True PMFS_BLOCK_TYPE_2M False sbi0)) \<and>
   fst (pmfs_new_block True PMFS_BLOCK_TYPE_2M False sbi0) = Inr 512"
proof -
  have f: "fst (pmfs_new_block True PMFS_BLOCK_TYPE_2M False sbi0) = Inr 512"
    by code_simp
  have "block_inuse_head sbi0 \<noteq> []" "block_low (hd (block_inuse_head sbi0)) = block_start sbi0"
    by (simp_all add: sbi0_def)
  from pmfs_new_block_spec [OF sbi0_inv this, of True PMFS_BLOCK_TYPE_2M False] f show ?thesis
    by (auto split: prod.splits)
qed

text \<open>
  C18: \<^verbatim>\<open>__pmfs_free_block\<close> frees exactly the extent it is given.  From any valid hint it never faults; an
  extent that is wholly in use is removed from the used blocks (or, when a node cannot be allocated,
  nothing happens); any other extent leaves the allocator unchanged and is reported.  The hint it returns
  is valid.
\<close>

theorem pmfs_free_block_spec:
  assumes "balloc_inv sbi" and "hint_ok sbi hint" and "block_inuse_head sbi \<noteq> []" and "unat b < 2 ^ 52"
  shows "\<exists>ok sbi' hint'. pmfs_free_block_locked mem b btype hint sbi = Inr (ok, sbi', hint') \<and>
     balloc_inv sbi' \<and> hint_ok sbi' hint' \<and>
     (let ext = {unat b..<unat b + unat (pmfs_get_numblocks btype)}
      in if ext \<subseteq> used sbi
         then ok \<and> (used sbi' = used sbi - ext \<and>
                     unat (num_free_blocks sbi') =
                       unat (num_free_blocks sbi) + unat (pmfs_get_numblocks btype) \<or> \<not> mem \<and> sbi' = sbi)
         else \<not> ok \<and> sbi' = sbi)"
  using pmfs_free_block_locked_ok [OF assms, of mem btype] unfolding Let_def by (elim exE conjE) blast

theorem pmfs_free_block_spec_witness:
  "\<exists>ok sbi' hint'. pmfs_free_block_locked True 12 PMFS_BLOCK_TYPE_4K (Some 1) sbi0 = Inr (ok, sbi', hint') \<and>
     ok \<and> used sbi' = used sbi0 - {12}"
proof -
  have "hint_ok sbi0 (Some 1)" "block_inuse_head sbi0 \<noteq> []" "unat (12 :: u64) < 2 ^ 52"
    by (simp_all add: hint_ok_def sbi0_def)
  note spec = pmfs_free_block_spec [OF sbi0_inv this, of True PMFS_BLOCK_TYPE_4K]
  have "{12..<13 :: nat} = {12}" by auto
  then have ext: "{unat (12 :: u64)..<unat (12 :: u64) + unat (pmfs_get_numblocks PMFS_BLOCK_TYPE_4K)} = {12}"
    by (simp add: pmfs_get_numblocks_def)
  have "{12} \<subseteq> used sbi0" by (simp add: sbi0_def)
  with spec [unfolded Let_def ext] show ?thesis by auto
qed





end
