(* ===== verification/Pmfs_Bbuild.thy ===== *)
theory Pmfs_Bbuild
  imports Pmfs_Alloc_Props
begin

unbundle bit_operations_syntax

text \<open>
  Rebuilding the PMFS block list after a crash (bbuild.c): the recovery scan marks every block it reaches
  in three bitmaps (4K, 2M and 1G blocks), and \<^verbatim>\<open>pmfs_build_blocknode_map\<close> turns the runs of set bits into
  nodes of the block list.
\<close>

section \<open>Inserting a run\<close>

fun insert_loop :: "bool \<Rightarrow> u64 \<Rightarrow> u64 \<Rightarrow> u64 \<Rightarrow> pmfs_blocknode list \<Rightarrow> new_result" where
  "insert_loop mem blk_end low high [] = New_none"
| "insert_loop mem blk_end low high (i # rest) =
     (case place_in_gap mem blk_end low high i rest of
        Placed ns d \<Rightarrow> New_at low ns d
      | No_node \<Rightarrow> New_nomem
      | Skip \<Rightarrow>
          (case insert_loop mem blk_end low high rest of
             New_at b ns d \<Rightarrow> New_at b (i # ns) d
           | r \<Rightarrow> r))"

definition pmfs_alloc_insert_blocknode_map ::
    "bool \<Rightarrow> u64 \<Rightarrow> u64 \<Rightarrow> pmfs_sb_info \<Rightarrow> int \<times> pmfs_sb_info" where
  "pmfs_alloc_insert_blocknode_map mem low high sbi =
     (let num_blocks = high - low + 1
      in case insert_loop mem (block_end sbi) low high (block_inuse_head sbi) of
           New_none \<Rightarrow> (- ENOSPC, sbi)
         | New_nomem \<Rightarrow> (- ENOSPC, sbi)
         | New_at b ns d \<Rightarrow>
             (0, sbi\<lparr>block_inuse_head := ns, num_free_blocks := num_free_blocks sbi - num_blocks,
                     num_blocknode_allocated := num_blocknode_allocated sbi + d\<rparr>))"

section \<open>Bitmaps\<close>

text \<open>
  \<^verbatim>\<open>find_next_bit\<close> and \<^verbatim>\<open>find_next_zero_bit\<close> of the kernel: the first set (clear) bit at or after an offset, or
  the size when there is none.
\<close>

function find_next_bit :: "(nat \<Rightarrow> bool) \<Rightarrow> nat \<Rightarrow> nat \<Rightarrow> nat" where
  "find_next_bit bm sz off =
     (if off \<ge> sz then sz else if bm off then off else find_next_bit bm sz (Suc off))"
  by pat_completeness auto
termination
  by (relation "measure (\<lambda>(bm, sz, off). sz - off)") auto

declare find_next_bit.simps [simp del]

definition find_next_zero_bit :: "(nat \<Rightarrow> bool) \<Rightarrow> nat \<Rightarrow> nat \<Rightarrow> nat" where
  "find_next_zero_bit bm sz off = find_next_bit (\<lambda>i. \<not> bm i) sz off"

lemma find_next_bit_props:
  "off \<le> sz \<Longrightarrow> off \<le> find_next_bit bm sz off \<and> find_next_bit bm sz off \<le> sz \<and>
   (find_next_bit bm sz off < sz \<longrightarrow> bm (find_next_bit bm sz off)) \<and>
   (\<forall>i. off \<le> i \<and> i < find_next_bit bm sz off \<longrightarrow> \<not> bm i)"
proof (induction bm sz off rule: find_next_bit.induct)
  case (1 bm sz off)
  show ?case
  proof (cases "off \<ge> sz \<or> bm off")
    case True
    with 1 show ?thesis by (auto simp: find_next_bit.simps [of bm sz off])
  next
    case False
    with 1 have "Suc off \<le> find_next_bit bm sz (Suc off)" "find_next_bit bm sz (Suc off) \<le> sz"
      "find_next_bit bm sz (Suc off) < sz \<longrightarrow> bm (find_next_bit bm sz (Suc off))"
      "\<forall>i. Suc off \<le> i \<and> i < find_next_bit bm sz (Suc off) \<longrightarrow> \<not> bm i" by simp_all
    with False show ?thesis
      by (auto simp: find_next_bit.simps [of bm sz off] Suc_le_eq dest: le_neq_implies_less)
  qed
qed

lemma find_next_bit_beyond: "sz < off \<Longrightarrow> find_next_bit bm sz off = sz"
  by (simp add: find_next_bit.simps)

text \<open>
  The loop of \<^verbatim>\<open>__pmfs_build_blocknode_map\<close>; \<open>mem low\<close> is the outcome of the node allocation for the run
  that starts at bit \<open>low\<close>.  A failed insertion is only printed.
\<close>

function build_loop ::
    "(nat \<Rightarrow> bool) \<Rightarrow> (nat \<Rightarrow> bool) \<Rightarrow> nat \<Rightarrow> nat \<Rightarrow> nat \<Rightarrow> pmfs_sb_info \<Rightarrow> pmfs_sb_info" where
  "build_loop mem bitmap bsize scale nxt sbi =
     (let low = find_next_bit bitmap bsize nxt
      in if low = bsize then sbi
         else
           let nxt2 = find_next_zero_bit bitmap bsize low;
               sbi2 = snd (pmfs_alloc_insert_blocknode_map (mem low)
                        (push_bit scale (of_nat low)) (push_bit scale (of_nat nxt2) - 1) sbi)
           in if nxt2 = bsize then sbi2 else build_loop mem bitmap bsize scale nxt2 sbi2)"
  by pat_completeness auto
termination
proof (relation "measure (\<lambda>(mem, bitmap, bsize, scale, nxt, sbi). bsize - nxt)", simp)
  fix mem bitmap bsize scale nxt sbi low nxt2 sbi2
  assume low: "low = find_next_bit bitmap bsize nxt" "low \<noteq> bsize"
    and nxt2: "nxt2 = find_next_zero_bit bitmap bsize low" "nxt2 \<noteq> bsize"
  have "nxt \<le> bsize" using low find_next_bit_beyond [of bsize nxt bitmap] by (cases "nxt \<le> bsize") auto
  with find_next_bit_props [of nxt bsize bitmap] low have l: "nxt \<le> low" "low < bsize" "bitmap low" by auto
  with find_next_bit_props [of low bsize "\<lambda>i. \<not> bitmap i"] nxt2 have "low \<le> nxt2" "nxt2 < bsize" "\<not> bitmap nxt2"
    by (auto simp: find_next_zero_bit_def)
  with l have "low < nxt2" by (cases "low = nxt2") auto
  with l \<open>nxt2 < bsize\<close> show "((mem, bitmap, bsize, scale, nxt2, sbi2), mem, bitmap, bsize, scale, nxt, sbi)
      \<in> measure (\<lambda>(mem, bitmap, bsize, scale, nxt, sbi). bsize - nxt)" by simp
qed

declare build_loop.simps [simp del]

definition pmfs_build_blocknode_map1 ::
    "(nat \<Rightarrow> bool) \<Rightarrow> (nat \<Rightarrow> bool) \<Rightarrow> nat \<Rightarrow> nat \<Rightarrow> pmfs_sb_info \<Rightarrow> pmfs_sb_info" where
  "pmfs_build_blocknode_map1 mem bitmap bsize scale sbi = build_loop mem bitmap bsize scale 1 sbi"

record scan_bitmap =
  bitmap_4k_size :: nat
  bitmap_2M_size :: nat
  bitmap_1G_size :: nat
  bitmap_4k :: "nat \<Rightarrow> bool"
  bitmap_2M :: "nat \<Rightarrow> bool"
  bitmap_1G :: "nat \<Rightarrow> bool"

definition pmfs_build_blocknode_map ::
    "(nat \<Rightarrow> bool) \<Rightarrow> scan_bitmap \<Rightarrow> pmfs_sb_info \<Rightarrow> pmfs_sb_info" where
  "pmfs_build_blocknode_map mem bm sbi =
     (let sbi1 = pmfs_build_blocknode_map1 mem (bitmap_4k bm) (bitmap_4k_size bm * 8) (12 - 12) sbi;
          sbi2 = pmfs_build_blocknode_map1 mem (bitmap_2M bm) (bitmap_2M_size bm * 8) (21 - 12) sbi1
      in pmfs_build_blocknode_map1 mem (bitmap_1G bm) (bitmap_1G_size bm * 8) (30 - 12) sbi2)"

section \<open>Insertion is correct\<close>

lemma place_in_gap_behind:
  assumes "lo \<le> block_high i" "nhi i < unat e"
  shows "place_in_gap mem e lo hi i rest = Skip"
proof -
  have "block_high i < e" using assms(2) by (simp add: word_less_nat_alt)
  from unat_plus1 [OF this] assms(1) have "lo < block_high i + 1" by (simp add: word_nat_simps)
  then show ?thesis by (auto simp: place_in_gap_def Let_def)
qed

lemma insert_loop_ok:
  "\<lbrakk>nodes_ok p (unat e) ns; lo \<le> hi; insert_loop mem e lo hi ns = New_at b ns' d\<rbrakk> \<Longrightarrow>
   nodes_ok p (unat e) ns' \<and> used_blocks ns' = used_blocks ns \<union> {unat lo..unat hi} \<and>
   of_nat (length ns') = of_nat (length ns) + d \<and> ns' \<noteq> [] \<and> block_low (hd ns') = block_low (hd ns)"
proof (induction ns arbitrary: p ns')
  case Nil
  then show ?case by simp
next
  case (Cons i rest)
  show ?case
  proof (cases "place_in_gap mem e lo hi i rest")
    case Skip
    with Cons.prems(3) obtain ns'' where ns'': "insert_loop mem e lo hi rest = New_at b ns'' d" "ns' = i # ns''"
      by (auto split: new_result.splits)
    with Cons.IH [of "nhi i + 2" ns''] Cons.prems show ?thesis by auto
  next
    case No_node
    with Cons.prems(3) show ?thesis by simp
  next
    case (Placed ms d')
    with Cons.prems have eq: "ns' = ms" "d = d'" by simp_all
    have new: "block_high i < lo"
      using place_in_gap_behind [of lo i e mem hi rest] Placed Cons.prems(1) by fastforce
    have "ms \<noteq> [] \<and> block_low (hd ms) = block_low i"
      using new Cons.prems(2) Placed by (cases rule: place_in_gap_cases) simp_all
    with place_in_gap_ok [OF Cons.prems(1) new Cons.prems(2) Placed] eq show ?thesis by simp
  qed
qed

lemma insert_loop_succeeds:
  "\<lbrakk>nodes_ok p (unat e) ns; ns \<noteq> []; nlo (hd ns) \<le> unat lo; lo \<le> hi; unat hi < unat e;
    used_blocks ns \<inter> {unat lo..unat hi} = {}\<rbrakk> \<Longrightarrow>
   \<exists>ns' d. insert_loop True e lo hi ns = New_at lo ns' d"
proof (induction ns arbitrary: p)
  case Nil
  then show ?case by simp
next
  case (Cons i rest)
  have le: "unat lo \<le> unat hi" using Cons.prems(4) by (simp add: word_le_nat_alt)
  have "nhi i < unat lo"
  proof (rule ccontr)
    assume "\<not> nhi i < unat lo"
    with Cons.prems(3) le have "unat lo \<in> used_blocks (i # rest) \<inter> {unat lo..unat hi}" by simp
    with Cons.prems(6) show False by simp
  qed
  then have new: "block_high i < lo" by (simp add: word_less_nat_alt)
  show ?case
  proof (cases "place_in_gap True e lo hi i rest")
    case Skip
    then have hi: "unat (next_low e rest) \<le> unat hi"
      using place_in_gap_skip_iff [OF new Cons.prems(4)] by (simp add: word_le_nat_alt)
    show ?thesis
    proof (cases rest)
      case Nil
      with hi Cons.prems(5) show ?thesis by simp
    next
      case (Cons m ms)
      have "nlo m \<in> used_blocks (i # rest)" using Cons \<open>nodes_ok p (unat e) (i # rest)\<close> by simp
      with \<open>used_blocks (i # rest) \<inter> {unat lo..unat hi} = {}\<close> have "nlo m \<notin> {unat lo..unat hi}" by blast
      with hi Cons have m: "nlo (hd rest) \<le> unat lo" "rest \<noteq> []" by simp_all
      have "nodes_ok (nhi i + 2) (unat e) rest" "used_blocks rest \<inter> {unat lo..unat hi} = {}"
        using \<open>nodes_ok p (unat e) (i # rest)\<close> \<open>used_blocks (i # rest) \<inter> {unat lo..unat hi} = {}\<close> by auto
      from Cons.IH [OF this(1) m(2,1) Cons.prems(4,5) this(2)] Skip show ?thesis by auto
    qed
  next
    case No_node
    then show ?thesis using place_in_gap_no_node by blast
  next
    case (Placed ms d)
    then show ?thesis by simp
  qed
qed

definition head_at_start :: "pmfs_sb_info \<Rightarrow> bool" where
  "head_at_start sbi \<longleftrightarrow> block_inuse_head sbi \<noteq> [] \<and> block_low (hd (block_inuse_head sbi)) = 0"

lemma pmfs_insert_ok:
  assumes inv: "balloc_inv sbi" and hd: "head_at_start sbi"
    and lo: "lo \<le> hi" "unat hi < unat (block_end sbi)" and free: "used sbi \<inter> {unat lo..unat hi} = {}"
  shows "\<exists>sbi'. pmfs_alloc_insert_blocknode_map True lo hi sbi = (0, sbi') \<and> balloc_inv sbi' \<and>
     head_at_start sbi' \<and> used sbi' = used sbi \<union> {unat lo..unat hi} \<and> block_end sbi' = block_end sbi"
proof -
  from inv have ok: "nodes_ok (unat (block_start sbi)) (unat (block_end sbi)) (block_inuse_head sbi)"
    by (simp add: balloc_inv_def)
  have le: "unat lo \<le> unat hi" using lo(1) by (simp add: word_le_nat_alt)
  have ne: "block_inuse_head sbi \<noteq> []" and "nlo (hd (block_inuse_head sbi)) \<le> unat lo"
    using hd by (simp_all add: head_at_start_def)
  from insert_loop_succeeds [OF ok this lo free] obtain ns d where
    run: "insert_loop True (block_end sbi) lo hi (block_inuse_head sbi) = New_at lo ns d" by blast
  from insert_loop_ok [OF ok lo(1) run] have
    n: "nodes_ok (unat (block_start sbi)) (unat (block_end sbi)) ns"
      "used_blocks ns = used sbi \<union> {unat lo..unat hi}"
      "of_nat (length ns) = of_nat (length (block_inuse_head sbi)) + d" "ns \<noteq> []"
      "block_low (hd ns) = block_low (hd (block_inuse_head sbi))" by simp_all
  have "unat (hi - lo) = unat hi - unat lo" using le by (rule unat_sub_le)
  moreover have "unat hi - unat lo + 1 < 2 ^ 64" using lo(2) unat_bound [of "block_end sbi"] by simp
  ultimately have nb: "unat (hi - lo + 1) = unat hi - unat lo + 1"
    by (subst unat_add_less) simp_all
  have card: "card (used_blocks ns) = card (used sbi) + (unat hi - unat lo + 1)"
    using n(2) free le by (simp add: card_Un_disjoint Suc_diff_le)
  with card_used_le [OF n(1)] inv have "unat (hi - lo + 1) \<le> unat (num_free_blocks sbi)"
    unfolding balloc_inv_def nb by linarith
  moreover from this have "unat (num_free_blocks sbi - (hi - lo + 1)) =
      unat (num_free_blocks sbi) - unat (hi - lo + 1)" by (rule unat_sub_le)
  ultimately have "unat (num_free_blocks sbi - (hi - lo + 1)) + card (used_blocks ns) =
      unat (block_end sbi) - unat (block_start sbi)"
    using card nb inv unfolding balloc_inv_def by linarith
  with run inv n hd show ?thesis
    by (simp add: pmfs_alloc_insert_blocknode_map_def Let_def balloc_inv_def head_at_start_def)
qed

end
