(* ===== verification/Pmfs_Bbuild_Props.thy ===== *)
theory Pmfs_Bbuild_Props
  imports Pmfs_Bbuild
begin

unbundle bit_operations_syntax

text \<open>
  Recovery of the block list from the bitmaps is exact: the rebuilt list meets the allocator's invariant
  and its used blocks are the initial ones and those of the set bits.
\<close>

section \<open>Blocks of a bitmap\<close>

definition bit_blocks :: "nat \<Rightarrow> (nat \<Rightarrow> bool) \<Rightarrow> nat \<Rightarrow> nat \<Rightarrow> nat set" where
  "bit_blocks s bm a b = {x. a \<le> x div 2 ^ s \<and> x div 2 ^ s < b \<and> bm (x div 2 ^ s)}"

lemma bit_blocks_run:
  assumes "a \<le> b" "\<And>i. a \<le> i \<Longrightarrow> i < b \<Longrightarrow> bm i"
  shows "bit_blocks s bm a b = {a * 2 ^ s..<b * 2 ^ s}"
proof -
  have "a \<le> x div 2 ^ s \<and> x div 2 ^ s < b \<longleftrightarrow> a * 2 ^ s \<le> x \<and> x < b * 2 ^ s" for x :: nat
    by (simp add: less_eq_div_iff_mult_less_eq div_less_iff_less_mult)
  moreover have "bit_blocks s bm a b = {x. a \<le> x div 2 ^ s \<and> x div 2 ^ s < b}"
    using assms(2) by (auto simp: bit_blocks_def)
  ultimately show ?thesis by (simp only: set_eq_iff mem_Collect_eq atLeastLessThan_iff) blast
qed

lemma atLeastAtMost_pred: "0 < n \<Longrightarrow> {m..n - 1} = {m..<n :: nat}"
  by auto

lemma bit_blocks_split: "a \<le> b \<Longrightarrow> b \<le> c \<Longrightarrow> bit_blocks s bm a c = bit_blocks s bm a b \<union> bit_blocks s bm b c"
  by (auto simp: bit_blocks_def)

lemma bit_blocks_empty: "(\<And>i. a \<le> i \<Longrightarrow> i < b \<Longrightarrow> \<not> bm i) \<Longrightarrow> bit_blocks s bm a b = {}"
  by (auto simp: bit_blocks_def)

section \<open>The loop over the runs\<close>

lemma run_words:
  assumes "a < b" "{a * 2 ^ s..<b * 2 ^ s} \<subseteq> {..<n}" "n \<le> 2 ^ 52"
  shows "unat (push_bit s (of_nat a) :: u64) = a * 2 ^ s"
    and "unat (push_bit s (of_nat b) - 1 :: u64) = b * 2 ^ s - 1"
    and "(push_bit s (of_nat a) :: u64) \<le> push_bit s (of_nat b) - 1"
    and "b * 2 ^ s - 1 < n"
proof -
  have lt: "a * 2 ^ s < b * 2 ^ s" using assms(1) by simp
  then have "b * 2 ^ s - 1 \<in> {a * 2 ^ s..<b * 2 ^ s}" unfolding atLeastLessThan_iff by linarith
  with assms(2) show n: "b * 2 ^ s - 1 < n" by blast
  have w: "(push_bit s (of_nat k) :: u64) = of_nat (k * 2 ^ s)" for k :: nat
    by (simp add: push_bit_eq_mult)
  have "(2 :: nat) ^ 52 < 2 ^ 64" by simp
  with n assms(3) have b: "b * 2 ^ s < 2 ^ 64" by linarith
  with lt have "a * 2 ^ s < 2 ^ 64" by linarith
  then show ua: "unat (push_bit s (of_nat a) :: u64) = a * 2 ^ s"
    unfolding w by (intro unat_of_nat_less) simp
  have "unat (push_bit s (of_nat b) :: u64) = b * 2 ^ s"
    unfolding w using b by (intro unat_of_nat_less) simp
  with assms(1) show ub: "unat (push_bit s (of_nat b) - 1 :: u64) = b * 2 ^ s - 1"
    by (subst unat_sub_le) simp_all
  show "(push_bit s (of_nat a) :: u64) \<le> push_bit s (of_nat b) - 1"
    unfolding word_le_nat_alt ua ub using lt by linarith
qed

lemma build_loop_ok:
  "\<lbrakk>\<And>i. mem i; balloc_inv sbi; head_at_start sbi; nxt \<le> bsize;
    bit_blocks s bm nxt bsize \<subseteq> {..<unat (block_end sbi)}; used sbi \<inter> bit_blocks s bm nxt bsize = {}\<rbrakk> \<Longrightarrow>
   balloc_inv (build_loop mem bm bsize s nxt sbi) \<and> head_at_start (build_loop mem bm bsize s nxt sbi) \<and>
   used (build_loop mem bm bsize s nxt sbi) = used sbi \<union> bit_blocks s bm nxt bsize \<and>
   block_end (build_loop mem bm bsize s nxt sbi) = block_end sbi"
proof (induction mem bm bsize s nxt sbi rule: build_loop.induct)
  case (1 mem bm bsize s nxt sbi)
  define a where "a = find_next_bit bm bsize nxt"
  note fa = find_next_bit_props [OF 1(5), of bm, folded a_def]
  have gap: "bit_blocks s bm nxt a = {}" using fa by (intro bit_blocks_empty) blast
  show ?case
  proof (cases "a = bsize")
    case True
    then have "build_loop mem bm bsize s nxt sbi = sbi"
      by (simp add: build_loop.simps [of mem bm bsize s nxt sbi] a_def Let_def)
    with gap True 1(3,4) show ?thesis by simp
  next
    case False
    with fa have a: "a < bsize" "bm a" by auto
    define b where "b = find_next_zero_bit bm bsize a"
    have fb: "a \<le> b" "b \<le> bsize" "b < bsize \<longrightarrow> \<not> bm b" "\<forall>i. a \<le> i \<and> i < b \<longrightarrow> bm i"
      using find_next_bit_props [of a bsize "\<lambda>i. \<not> bm i"] a by (auto simp: b_def find_next_zero_bit_def)
    with a have ab: "a < b" by (cases "a = b") auto
    have run: "bit_blocks s bm a b = {a * 2 ^ s..<b * 2 ^ s}"
      using ab fb(4) by (intro bit_blocks_run) auto
    have split: "bit_blocks s bm nxt bsize = {a * 2 ^ s..<b * 2 ^ s} \<union> bit_blocks s bm b bsize"
      using bit_blocks_split [of nxt a bsize s bm] bit_blocks_split [of a b bsize s bm] fa fb ab gap run by simp
    let ?lo = "push_bit s (of_nat a) :: u64" and ?hi = "push_bit s (of_nat b) - 1 :: u64"
    have "{a * 2 ^ s..<b * 2 ^ s} \<subseteq> {..<unat (block_end sbi)}" "unat (block_end sbi) \<le> 2 ^ 52"
      using 1(6) split 1(3) by (auto simp: balloc_inv_def)
    note w = run_words [OF ab this]
    have "0 < b * 2 ^ s" using ab by simp
    then have range: "{unat ?lo..unat ?hi} = {a * 2 ^ s..<b * 2 ^ s}" unfolding w(1,2) by (rule atLeastAtMost_pred)
    have "used sbi \<inter> {unat ?lo..unat ?hi} = {}" using 1(7) split unfolding range by auto
    from pmfs_insert_ok [OF 1(3,4) w(3) _ this] w(2,4) obtain sbi2 where
      i: "pmfs_alloc_insert_blocknode_map True ?lo ?hi sbi = (0, sbi2)" "balloc_inv sbi2" "head_at_start sbi2"
        "used sbi2 = used sbi \<union> {a * 2 ^ s..<b * 2 ^ s}" "block_end sbi2 = block_end sbi"
      unfolding range by auto
    have step: "build_loop mem bm bsize s nxt sbi = (if b = bsize then sbi2 else build_loop mem bm bsize s b sbi2)"
      using False i(1) 1(2) unfolding build_loop.simps [of mem bm bsize s nxt sbi]
      by (simp add: Let_def flip: a_def) (auto simp flip: b_def)
    show ?thesis
    proof (cases "b = bsize")
      case True
      moreover have "bit_blocks s bm bsize bsize = {}" by (rule bit_blocks_empty) simp
      ultimately show ?thesis using step i split by simp
    next
      case False
      have "bit_blocks s bm a b \<inter> bit_blocks s bm b bsize = {}" by (auto simp: bit_blocks_def)
      then have "used sbi2 \<inter> bit_blocks s bm b bsize = {}"
        using i(4) 1(7) split run by blast
      moreover have "bit_blocks s bm b bsize \<subseteq> {..<unat (block_end sbi2)}" using 1(6) split i(5) by auto
      moreover have "sbi2 = snd (pmfs_alloc_insert_blocknode_map (mem a) ?lo ?hi sbi)" using i(1) 1(2) by simp
      ultimately have "balloc_inv (build_loop mem bm bsize s b sbi2) \<and> head_at_start (build_loop mem bm bsize s b sbi2) \<and>
          used (build_loop mem bm bsize s b sbi2) = used sbi2 \<union> bit_blocks s bm b bsize \<and>
          block_end (build_loop mem bm bsize s b sbi2) = block_end sbi2"
        using 1(1) [OF a_def \<open>a \<noteq> bsize\<close> b_def _ False] 1(2) i(2,3) fb(2) by blast
      with step False i(4,5) split show ?thesis by auto
    qed
  qed
qed

section \<open>Rebuilding the whole list\<close>

definition marked_blocks :: "scan_bitmap \<Rightarrow> nat \<Rightarrow> nat set" where
  "marked_blocks bm s =
     (if s = 0 then bit_blocks 0 (bitmap_4k bm) 1 (bitmap_4k_size bm * 8)
      else if s = 9 then bit_blocks 9 (bitmap_2M bm) 1 (bitmap_2M_size bm * 8)
      else bit_blocks 18 (bitmap_1G bm) 1 (bitmap_1G_size bm * 8))"

text \<open>The allocator before the recovery scan.\<close>

definition empty_sbi :: "u64 \<Rightarrow> (nat \<Rightarrow> u8) \<Rightarrow> pmfs_sb_info" where
  "empty_sbi blk_end m = \<lparr>block_inuse_head = [], block_start = 0, block_end = blk_end,
     num_free_blocks = blk_end, num_blocknode_allocated = 0, nvmm = m\<rparr>"

lemma pmfs_init_blockmap_ok:
  assumes e: "unat e \<le> 2 ^ 51" and sz: "0 < unat sz" "unat sz \<le> unat e * 4096"
  shows "\<exists>sbi. pmfs_init_blockmap True sz (empty_sbi e m) = Inr sbi \<and> balloc_inv sbi \<and> head_at_start sbi \<and>
     used sbi = {0..<(unat sz + 4095) div 4096} \<and> block_end sbi = e \<and> block_start sbi = 0"
proof -
  let ?n = "drop_bit 12 (sz + 4096 - 1) :: u64"
  have "unat (sz + 4096) = unat sz + 4096" using e sz by (subst unat_add_less) simp_all
  then have "unat (sz + 4096 - 1) = unat sz + 4095" by (subst unat_sub_le) simp_all
  then have n: "unat ?n = (unat sz + 4095) div 4096"
    by (simp only: unat_drop_bit_eq) (simp add: drop_bit_eq_div)
  have le: "0 < unat ?n" "unat ?n \<le> unat e"
    unfolding n using sz by (simp_all add: div_greater_zero_iff)
  then have "unat (?n - 1) = unat ?n - 1" by (subst unat_sub_le) simp_all
  moreover have "unat (e - ?n) = unat e - unat ?n" using le(2) by (rule unat_sub_le)
  moreover have "{0..unat ?n - 1} = {0..<unat ?n}" using le(1) by (rule atLeastAtMost_pred)
  ultimately show ?thesis
    using le e n
    by (simp add: pmfs_init_blockmap_def pmfs_alloc_blocknode_def empty_sbi_def Let_def balloc_inv_def
        head_at_start_def)
qed


definition bm0 :: scan_bitmap where
  "bm0 = \<lparr>bitmap_4k_size = 2, bitmap_2M_size = 1, bitmap_1G_size = 1,
     bitmap_4k = (\<lambda>i. i \<in> {5, 6, 9}), bitmap_2M = (\<lambda>i. False), bitmap_1G = (\<lambda>i. False)\<rparr>"


end
