(* ===== verification/Cache_Lines.thy ===== *)
theory Cache_Lines
  imports Main
begin

text \<open>
  Cache lines in front of persistent memory, for any type of stores and lines: \<^verbatim>\<open>clwb\<close> or \<^verbatim>\<open>clflush\<close> of a
  line followed by \<^verbatim>\<open>sfence\<close> makes the stores to that line so far durable; at a crash every line keeps a
  prefix of the stores made to it, at least up to the last one that was flushed and fenced.
\<close>

datatype ('s, 'l) cache_event = St 's | Fl 'l | Fe

fun stores :: "('s, 'l) cache_event list \<Rightarrow> 's list" where
  "stores [] = []"
| "stores (St s # es) = s # stores es"
| "stores (Fl l # es) = stores es"
| "stores (Fe # es) = stores es"

text \<open>
  For one line: the number of stores so far, how many of them a flush has covered, and how many of these
  a later fence has made durable.  \<open>lo\<close> gives the line of a store.
\<close>

fun line_step :: "('s \<Rightarrow> 'l) \<Rightarrow> 'l \<Rightarrow> ('s, 'l) cache_event \<Rightarrow> nat \<times> nat \<times> nat \<Rightarrow> nat \<times> nat \<times> nat" where
  "line_step lo l (St s) (n, f, d) = (if lo s = l then (Suc n, f, d) else (n, f, d))"
| "line_step lo l (Fl l') (n, f, d) = (if l' = l then (n, n, d) else (n, f, d))"
| "line_step lo l Fe (n, f, d) = (n, f, f)"

definition line_dur :: "('s \<Rightarrow> 'l) \<Rightarrow> 'l \<Rightarrow> ('s, 'l) cache_event list \<Rightarrow> nat \<times> nat \<times> nat" where
  "line_dur lo l es = fold (line_step lo l) es (0, 0, 0)"

definition line_guar :: "('s \<Rightarrow> 'l) \<Rightarrow> 'l \<Rightarrow> ('s, 'l) cache_event list \<Rightarrow> nat" where
  "line_guar lo l es = snd (snd (line_dur lo l es))"

text \<open>The stores that reach the medium when line \<open>l\<close> keeps its first \<open>k l\<close> stores.\<close>

fun line_persist :: "('s \<Rightarrow> 'l) \<Rightarrow> ('l \<Rightarrow> nat) \<Rightarrow> 's list \<Rightarrow> 's list" where
  "line_persist lo k [] = []"
| "line_persist lo k (s # ss) =
     (case k (lo s) of
        0 \<Rightarrow> line_persist lo k ss
      | Suc n \<Rightarrow> s # line_persist lo (k(lo s := n)) ss)"

lemma stores_append [simp]: "stores (es @ fs) = stores es @ stores fs"
  by (induction es rule: stores.induct) auto

lemma in_stores: "s \<in> set (stores E) \<longleftrightarrow> St s \<in> set E"
  by (induction E rule: stores.induct) auto

lemma stores_map_Fl [simp]: "stores (map Fl ls) = []"
  by (induction ls) simp_all

lemma stores_map_St [simp]: "stores (map St ss) = ss"
  by (induction ss) simp_all

lemma line_persist_filter:
  "filter (\<lambda>s. lo s = l) (line_persist lo k ss) = take (k l) (filter (\<lambda>s. lo s = l) ss)"
proof (induction ss arbitrary: k)
  case Nil
  then show ?case by simp
next
  case (Cons s ss)
  then show ?case by (cases "k (lo s)") auto
qed

lemma line_dur_append: "line_dur lo l (es @ fs) = fold (line_step lo l) fs (line_dur lo l es)"
  by (simp add: line_dur_def)

lemma line_dur_Nil [simp]: "line_dur lo l [] = (0, 0, 0)"
  by (simp add: line_dur_def)

lemma line_dur_bounds:
  "line_dur lo l es = (n, f, d) \<Longrightarrow> n = length (filter (\<lambda>s. lo s = l) (stores es)) \<and> f \<le> n \<and> d \<le> f"
proof (induction es arbitrary: n f d rule: rev_induct)
  case Nil
  then show ?case by simp
next
  case (snoc e es)
  obtain n' f' d' where d: "line_dur lo l es = (n', f', d')" by (cases "line_dur lo l es")
  with snoc.IH [OF d] snoc.prems show ?case
    by (cases e) (auto simp: line_dur_append split: if_splits)
qed

lemma line_guar_le: "line_guar lo l es \<le> length (filter (\<lambda>s. lo s = l) (stores es))"
  using line_dur_bounds [of lo l es] by (cases "line_dur lo l es") (force simp: line_guar_def)

lemma line_guar_mono: "line_guar lo l es \<le> line_guar lo l (es @ fs)"
proof (induction fs rule: rev_induct)
  case Nil
  then show ?case by simp
next
  case (snoc e fs)
  obtain n f d where d: "line_dur lo l (es @ fs) = (n, f, d)" by (cases "line_dur lo l (es @ fs)")
  from line_dur_bounds [OF d] have "d \<le> f" by simp
  with d have "line_guar lo l (es @ fs) \<le> line_guar lo l ((es @ fs) @ [e])"
    by (cases e) (auto simp: line_guar_def line_dur_append [of lo l "es @ fs"] simp del: append_assoc)
  with snoc show ?case by simp
qed

text \<open>Flushing a line and fencing makes all its stores so far durable.\<close>

lemma line_guar_flush_fence:
  assumes "\<And>s. St s \<in> set fs \<Longrightarrow> lo s \<noteq> l"
  shows "line_guar lo l (es @ [Fl l] @ fs @ [Fe]) = length (filter (\<lambda>s. lo s = l) (stores es))"
proof -
  obtain n f d where d: "line_dur lo l es = (n, f, d)" by (cases "line_dur lo l es")
  have keep: "\<exists>d'. fold (line_step lo l) fs (n, n, d) = (n, n, d')" for d
    using assms
  proof (induction fs arbitrary: d)
    case Nil
    then show ?case by simp
  next
    case (Cons e fs)
    then show ?case by (cases e) auto
  qed
  obtain d' where "fold (line_step lo l) fs (n, n, d) = (n, n, d')" using keep by blast
  with line_dur_bounds [OF d] d show ?thesis by (simp add: line_guar_def line_dur_append)
qed

text \<open>One flush every 64 bytes, over the length plus the offset in the first line, covers a buffer.\<close>

lemma flushes_cover:
  assumes "a \<le> x" "x < a + (n :: nat)"
  shows "\<exists>k < (n + a mod 64 + 63) div 64. x div 64 = (a + 64 * k) div 64"
proof -
  define k where "k = x div 64 - a div 64"
  have le: "a div 64 \<le> x div 64" using assms(1) by (rule div_le_mono)
  then have "x div 64 = (a + 64 * k) div 64" by (simp add: k_def)
  moreover have "k < (n + a mod 64 + 63) div 64"
  proof -
    have "x = 64 * (a div 64) + 64 * k + x mod 64" using le by (simp add: k_def algebra_simps)
    moreover have "a = 64 * (a div 64) + a mod 64" by simp
    ultimately have "64 * k < n + a mod 64" using assms by linarith
    then have "64 * Suc k \<le> n + a mod 64 + 63" by simp
    then show ?thesis by (simp add: less_eq_div_iff_mult_less_eq Suc_le_eq [symmetric])
  qed
  ultimately show ?thesis by blast
qed

text \<open>Storing, then flushing every line stored to, then a fence.\<close>

lemma stored_flushed_fenced:
  assumes "\<And>s. s \<in> set ss \<Longrightarrow> lo s = l \<Longrightarrow> l \<in> set ls"
  shows "line_guar lo l (map St ss @ map Fl ls @ [Fe]) = length (filter (\<lambda>s. lo s = l) ss)"
proof (cases "\<exists>s \<in> set ss. lo s = l")
  case True
  with assms have "l \<in> set ls" by blast
  then obtain as bs where ls: "ls = as @ l # bs" by (meson split_list)
  have "line_guar lo l ((map St ss @ map Fl as) @ [Fl l] @ map Fl bs @ [Fe]) =
      length (filter (\<lambda>s. lo s = l) (stores (map St ss @ map Fl as :: ('a, 'b) cache_event list)))"
    by (rule line_guar_flush_fence) auto
  then show ?thesis by (simp add: ls)
next
  case False
  then have "filter (\<lambda>s. lo s = l) ss = []" by (auto simp: filter_empty_conv)
  with line_guar_le [of lo l "map St ss @ map Fl ls @ [Fe]"] show ?thesis by simp
qed

text \<open>Where an event occurs in a run that is put together from two parts.\<close>

lemma prefix_split [case_names inside beyond]:
  assumes "E @ R = X @ Z"
  obtains us where "X = E @ us" "R = us @ Z" | vs where "E = X @ vs" "vs @ R = Z"
  using assms unfolding append_eq_append_conv2 by metis

lemma split_left:
  assumes "E @ R = E1 @ x # E2" "x \<notin> set R"
  obtains E2' where "E = E1 @ x # E2'" "E2 = E2' @ R"
proof -
  from assms(1) obtain us where us: "(E = E1 @ us \<and> us @ R = x # E2) \<or> (E @ us = E1 \<and> R = us @ x # E2)"
    by (auto simp: append_eq_append_conv2)
  with assms(2) have u: "E = E1 @ us" "us @ R = x # E2" by auto
  with assms(2) obtain ys where "us = x # ys" by (cases us) auto
  with u that show thesis by simp
qed

lemma split_right:
  assumes "E @ R = E1 @ x # E2" "x \<notin> set E"
  obtains E1' where "E1 = E @ E1'" "R = E1' @ x # E2"
proof -
  from assms(1) obtain us where us: "(E = E1 @ us \<and> us @ R = x # E2) \<or> (E @ us = E1 \<and> R = us @ x # E2)"
    by (auto simp: append_eq_append_conv2)
  show thesis
  proof (cases "E = E1 @ us \<and> us @ R = x # E2")
    case True
    with assms(2) have "us = []" by (cases us) auto
    with True that [of "[]"] show thesis by simp
  next
    case False
    with us that show thesis by blast
  qed
qed

end
