(* ===== verification/Pmem.thy ===== *)
theory Pmem
  imports Prelude Cache_Lines
begin

unbundle bit_operations_syntax

text \<open>
  Persistent memory as PMFS uses it, with the cache lines of \<open>Cache_Lines\<close>.

  The contents are typed: bytes of data, the slots of the journal (one 64-byte log entry per cache line,
  as the size of \<^verbatim>\<open>pmfs_logentry_t\<close> is \<^verbatim>\<open>CACHELINE_SIZE\<close> and the journal starts on a page), and the journal
  header.  A store is one field or one byte; the fields written by one machine store in the code
  (\<^verbatim>\<open>tail\<close> and \<^verbatim>\<open>gen_id\<close> by \<^verbatim>\<open>set_64bit\<close>) are one store here.
\<close>

section \<open>Contents\<close>

record pmfs_logentry_t =
  addr_offset :: u64
  transaction_id :: u32
  gen_id :: u16
  le_type :: u8
  le_size :: u8
  le_data :: "u8 list"

record pmfs_journal_t =
  j_base :: u64
  j_size :: u32
  j_head :: u32
  j_tail :: u32
  j_gen_id :: u16
  j_redo_logging :: u16

record pmem =
  pdata :: "nat \<Rightarrow> u8"
  pents :: "nat \<Rightarrow> pmfs_logentry_t"
  phdr :: pmfs_journal_t

section \<open>Stores\<close>

datatype estore =
    SAddr u64
  | STid u32
  | SGen u16
  | SType u8
  | SSize u8
  | SByte nat u8

datatype hstore =
    HBase u64
  | HSize u32
  | HHead u32
  | HTail u32
  | HTailGen u32 u16
  | HGen u16
  | HRedo u16

datatype pstore = SData nat u8 | SEnt nat estore | SHdr hstore

datatype line = DataLine nat | EntLine nat | HdrLine

fun line_of :: "pstore \<Rightarrow> line" where
  "line_of (SData a v) = DataLine (a div 64)"
| "line_of (SEnt i e) = EntLine i"
| "line_of (SHdr h) = HdrLine"

fun app_ent :: "estore \<Rightarrow> pmfs_logentry_t \<Rightarrow> pmfs_logentry_t" where
  "app_ent (SAddr x) le = le\<lparr>addr_offset := x\<rparr>"
| "app_ent (STid x) le = le\<lparr>transaction_id := x\<rparr>"
| "app_ent (SGen x) le = le\<lparr>gen_id := x\<rparr>"
| "app_ent (SType x) le = le\<lparr>le_type := x\<rparr>"
| "app_ent (SSize x) le = le\<lparr>le_size := x\<rparr>"
| "app_ent (SByte j x) le = le\<lparr>le_data := (le_data le)[j := x]\<rparr>"

fun app_hdr :: "hstore \<Rightarrow> pmfs_journal_t \<Rightarrow> pmfs_journal_t" where
  "app_hdr (HBase x) j = j\<lparr>j_base := x\<rparr>"
| "app_hdr (HSize x) j = j\<lparr>j_size := x\<rparr>"
| "app_hdr (HHead x) j = j\<lparr>j_head := x\<rparr>"
| "app_hdr (HTail x) j = j\<lparr>j_tail := x\<rparr>"
| "app_hdr (HTailGen x g) j = j\<lparr>j_tail := x, j_gen_id := g\<rparr>"
| "app_hdr (HGen g) j = j\<lparr>j_gen_id := g\<rparr>"
| "app_hdr (HRedo r) j = j\<lparr>j_redo_logging := r\<rparr>"

fun app_store :: "pstore \<Rightarrow> pmem \<Rightarrow> pmem" where
  "app_store (SData a v) m = m\<lparr>pdata := (pdata m)(a := v)\<rparr>"
| "app_store (SEnt i e) m = m\<lparr>pents := (pents m)(i := app_ent e (pents m i))\<rparr>"
| "app_store (SHdr h) m = m\<lparr>phdr := app_hdr h (phdr m)\<rparr>"

abbreviation apply_stores :: "pstore list \<Rightarrow> pmem \<Rightarrow> pmem" where
  "apply_stores ss m \<equiv> fold app_store ss m"

section \<open>Events and crashes\<close>

type_synonym event = "(pstore, line) cache_event"

abbreviation dur :: "line \<Rightarrow> event list \<Rightarrow> nat \<times> nat \<times> nat" where "dur \<equiv> line_dur line_of"

abbreviation guar :: "line \<Rightarrow> event list \<Rightarrow> nat" where "guar \<equiv> line_guar line_of"

abbreviation persist :: "(line \<Rightarrow> nat) \<Rightarrow> pstore list \<Rightarrow> pstore list" where "persist \<equiv> line_persist line_of"

definition crash_image :: "(line \<Rightarrow> nat) \<Rightarrow> event list \<Rightarrow> pmem \<Rightarrow> pmem" where
  "crash_image k es m = apply_stores (persist k (stores es)) m"

definition crash_choice :: "(line \<Rightarrow> nat) \<Rightarrow> event list \<Rightarrow> bool" where
  "crash_choice k es \<longleftrightarrow> (\<forall>l. guar l es \<le> k l)"

section \<open>Reasoning about one line\<close>

abbreviation on_line :: "line \<Rightarrow> pstore list \<Rightarrow> pstore list" where
  "on_line l ss \<equiv> filter (\<lambda>s. line_of s = l) ss"

lemmas on_line_persist = line_persist_filter [of line_of]
lemmas guar_le = line_guar_le [of line_of]
lemmas guar_mono = line_guar_mono [of line_of]
lemmas guar_flush_fence = line_guar_flush_fence [of _ line_of]

lemma apply_stores_ent:
  "pents (apply_stores ss m) i =
     fold app_ent (concat (map (\<lambda>s. case s of SEnt j e \<Rightarrow> if j = i then [e] else [] | _ \<Rightarrow> []) ss)) (pents m i)"
  by (induction ss arbitrary: m) (auto split: pstore.splits)

lemma apply_stores_hdr:
  "phdr (apply_stores ss m) =
     fold app_hdr (concat (map (\<lambda>s. case s of SHdr h \<Rightarrow> [h] | _ \<Rightarrow> []) ss)) (phdr m)"
  by (induction ss arbitrary: m) (auto split: pstore.splits)

lemma apply_stores_data:
  "pdata (apply_stores ss m) a =
     fold (\<lambda>v _. v) (concat (map (\<lambda>s. case s of SData b v \<Rightarrow> if b = a then [v] else [] | _ \<Rightarrow> []) ss)) (pdata m a)"
  by (induction ss arbitrary: m) (auto split: pstore.splits)

text \<open>Each part of the contents depends on the stores to its own line only.\<close>

lemma ent_on_line:
  "pents (apply_stores ss m) i = pents (apply_stores (on_line (EntLine i) ss) m) i"
proof -
  have "concat (map (\<lambda>s. case s of SEnt j e \<Rightarrow> if j = i then [e] else [] | _ \<Rightarrow> []) ss) =
      concat (map (\<lambda>s. case s of SEnt j e \<Rightarrow> if j = i then [e] else [] | _ \<Rightarrow> []) (on_line (EntLine i) ss))"
    by (induction ss) (auto split: pstore.splits)
  then show ?thesis by (simp only: apply_stores_ent)
qed

lemma data_on_line:
  "pdata (apply_stores ss m) a = pdata (apply_stores (on_line (DataLine (a div 64)) ss) m) a"
proof -
  have "concat (map (\<lambda>s. case s of SData b v \<Rightarrow> if b = a then [v] else [] | _ \<Rightarrow> []) ss) =
      concat (map (\<lambda>s. case s of SData b v \<Rightarrow> if b = a then [v] else [] | _ \<Rightarrow> []) (on_line (DataLine (a div 64)) ss))"
    by (induction ss) (auto split: pstore.splits)
  then show ?thesis by (simp only: apply_stores_data)
qed

lemma hdr_on_line:
  "phdr (apply_stores ss m) = phdr (apply_stores (on_line HdrLine ss) m)"
proof -
  have "concat (map (\<lambda>s. case s of SHdr h \<Rightarrow> [h] | _ \<Rightarrow> []) ss) =
      concat (map (\<lambda>s. case s of SHdr h \<Rightarrow> [h] | _ \<Rightarrow> []) (on_line HdrLine ss))"
    by (induction ss) (auto split: pstore.splits)
  then show ?thesis by (simp only: apply_stores_hdr)
qed

text \<open>A line whose stores are all durable has its volatile content after the crash.\<close>

lemma crash_ent:
  "pents (crash_image k es m) i = pents (apply_stores (take (k (EntLine i)) (on_line (EntLine i) (stores es))) m) i"
  unfolding crash_image_def by (subst ent_on_line) (simp only: on_line_persist)

lemma crash_data:
  "pdata (crash_image k es m) a =
     pdata (apply_stores (take (k (DataLine (a div 64))) (on_line (DataLine (a div 64)) (stores es))) m) a"
  unfolding crash_image_def by (subst data_on_line) (simp only: on_line_persist)

lemma crash_hdr:
  "phdr (crash_image k es m) = phdr (apply_stores (take (k HdrLine) (on_line HdrLine (stores es))) m)"
  unfolding crash_image_def by (subst hdr_on_line) (simp only: on_line_persist)

end
