(* ===== verification/Pmfs_Journal.thy ===== *)
theory Pmfs_Journal
  imports Pmem
begin

unbundle bit_operations_syntax

text \<open>
  The PMFS journal (journal.c, journal.h): log entries, transactions, commit and abort, the log cleaner and
  recovery.  The operations run on the volatile contents of persistent memory and record every store, flush
  and fence they make, so that the crash images of a run are determined by the recorded events.

  A pointer to a log entry is the number of its slot, \<open>offset div 64\<close>; \<open>head\<close> and \<open>tail\<close> are byte offsets as
  in the code.  An address that is logged or undone is a byte offset in the data.  The null test of
  \<^verbatim>\<open>pmfs_get_block\<close> (offset 0) is kept: writing through the null pointer sets \<open>jfault\<close>.  Left out:
  write protection (\<^verbatim>\<open>pmfs_memunlock_range\<close> and its counterparts), timing and debug output, and the list
  of running transactions in \<^verbatim>\<open>current->journal_info\<close>, which no code reads.  Loops that need not end are
  \<open>partial_function\<close>s: \<open>None\<close> is a loop that never returns.
\<close>

section \<open>Constants and positions\<close>

definition LOGENTRY_SIZE :: u32 where "LOGENTRY_SIZE = 64"
definition MAX_DATA_PER_LENTRY :: nat where "MAX_DATA_PER_LENTRY = 48"
definition LE_DATA :: u8 where "LE_DATA = 0"
definition LE_START :: u8 where "LE_START = 1"
definition LE_COMMIT :: u8 where "LE_COMMIT = 2"
definition LE_ABORT :: u8 where "LE_ABORT = 4"
definition MAX_GEN_ID :: u16 where "MAX_GEN_ID = 0xFFFF"

definition EAGAIN :: int where "EAGAIN = 11"

definition next_log_entry :: "u32 \<Rightarrow> u32 \<Rightarrow> u32" where
  "next_log_entry jsz le_off =
     (let le_off = le_off + LOGENTRY_SIZE in if le_off \<ge> jsz then 0 else le_off)"

definition prev_log_entry :: "u32 \<Rightarrow> u32 \<Rightarrow> u32" where
  "prev_log_entry jsz le_off =
     (let le_off = (if le_off = 0 then jsz else le_off) in le_off - LOGENTRY_SIZE)"

definition next_gen_id :: "u16 \<Rightarrow> u16" where
  "next_gen_id g = (let g = g + 1 in if g = 0 then g + 1 else g)"

definition prev_gen_id :: "u16 \<Rightarrow> u16" where
  "prev_gen_id g = (let g = g - 1 in if g = 0 then g - 1 else g)"

definition slot :: "u32 \<Rightarrow> nat" where "slot off = unat off div 64"

section \<open>State and primitive steps\<close>

record jst =
  pm :: pmem
  evs :: "event list"
  jsize :: u32
  next_transaction_id :: u32
  redo_log :: bool
  jfault :: bool

record pmfs_transaction_t =
  t_id :: u32
  num_entries :: u16
  num_used :: u16
  t_gen_id :: u16
  start_addr :: nat

definition pstore_step :: "pstore \<Rightarrow> jst \<Rightarrow> jst" where
  "pstore_step s st = st\<lparr>pm := app_store s (pm st), evs := evs st @ [St s]\<rparr>"

definition flush_line :: "line \<Rightarrow> jst \<Rightarrow> jst" where
  "flush_line l st = st\<lparr>evs := evs st @ [Fl l]\<rparr>"

definition PERSISTENT_BARRIER :: "jst \<Rightarrow> jst" where
  "PERSISTENT_BARRIER st = st\<lparr>evs := evs st @ [Fe]\<rparr>"

abbreviation ent :: "jst \<Rightarrow> nat \<Rightarrow> pmfs_logentry_t" where "ent st i \<equiv> pents (pm st) i"
abbreviation hdr :: "jst \<Rightarrow> pmfs_journal_t" where "hdr st \<equiv> phdr (pm st)"

text \<open>
  \<^verbatim>\<open>pmfs_flush_buffer\<close>: one flush instruction every 64 bytes from \<open>buf\<close> on, over the length plus the offset
  of \<open>buf\<close> in its line.
\<close>

definition flush_lines :: "nat \<Rightarrow> nat \<Rightarrow> line list" where
  "flush_lines buf len =
     map (\<lambda>k. DataLine ((buf + 64 * k) div 64)) [0..<(len + buf mod 64 + 63) div 64]"

definition pmfs_flush_buffer :: "nat \<Rightarrow> nat \<Rightarrow> bool \<Rightarrow> jst \<Rightarrow> jst" where
  "pmfs_flush_buffer buf len fence st =
     (let st1 = fold flush_line (flush_lines buf len) st
      in if fence then PERSISTENT_BARRIER st1 else st1)"

definition flush_entry :: "nat \<Rightarrow> bool \<Rightarrow> jst \<Rightarrow> jst" where
  "flush_entry le fence st =
     (let st1 = flush_line (EntLine le) st in if fence then PERSISTENT_BARRIER st1 else st1)"

definition flush_hdr :: "bool \<Rightarrow> jst \<Rightarrow> jst" where
  "flush_hdr fence st =
     (let st1 = flush_line HdrLine st in if fence then PERSISTENT_BARRIER st1 else st1)"

fun put_bytes :: "nat \<Rightarrow> u8 list \<Rightarrow> jst \<Rightarrow> jst" where
  "put_bytes a [] st = st"
| "put_bytes a (b # bs) st = put_bytes (Suc a) bs (pstore_step (SData a b) st)"

definition put_ent :: "nat \<Rightarrow> estore \<Rightarrow> jst \<Rightarrow> jst" where
  "put_ent i e st = pstore_step (SEnt i e) st"

definition put_hdr :: "hstore \<Rightarrow> jst \<Rightarrow> jst" where
  "put_hdr h st = pstore_step (SHdr h) st"

text \<open>The bytes of a log entry that count.\<close>

definition ent_bytes :: "pmfs_logentry_t \<Rightarrow> u8 list" where
  "ent_bytes le = take (unat (le_size le)) (le_data le)"

section \<open>Undo, redo and invalidation\<close>

definition pmfs_undo_logentry :: "nat \<Rightarrow> jst \<Rightarrow> jst" where
  "pmfs_undo_logentry le st =
     (let e = ent st le; off = unat (addr_offset e)
      in if le_size e > 0 then
           (if off = 0 then st\<lparr>jfault := True\<rparr>
            else pmfs_flush_buffer off (unat (le_size e)) False (put_bytes off (ent_bytes e) st))
         else st)"

fun undo_slots :: "u16 \<Rightarrow> nat list \<Rightarrow> jst \<Rightarrow> jst" where
  "undo_slots g [] st = st"
| "undo_slots g (le # les) st =
     undo_slots g les (if g = gen_id (ent st le) then pmfs_undo_logentry le st else st)"

definition pmfs_undo_transaction :: "pmfs_transaction_t \<Rightarrow> jst \<Rightarrow> jst" where
  "pmfs_undo_transaction tr st =
     undo_slots (t_gen_id tr)
       (rev [start_addr tr..<start_addr tr + unat (num_used tr)]) st"

definition pmfs_flush_slot :: "nat \<Rightarrow> jst \<Rightarrow> jst" where
  "pmfs_flush_slot le st =
     (let e = ent st le; off = unat (addr_offset e)
      in if le_size e \<noteq> 0 then
           if redo_log st then
             (if off = 0 then st\<lparr>jfault := True\<rparr>
              else put_bytes off (ent_bytes e) (pmfs_flush_buffer off (unat (le_size e)) False st))
           else pmfs_flush_buffer off (unat (le_size e)) False st
         else st)"

definition pmfs_flush_transaction :: "pmfs_transaction_t \<Rightarrow> jst \<Rightarrow> jst" where
  "pmfs_flush_transaction tr st =
     fold pmfs_flush_slot [start_addr tr..<start_addr tr + unat (num_used tr)] st"

definition invalidate_gen_id :: "nat \<Rightarrow> jst \<Rightarrow> jst" where
  "invalidate_gen_id le st = flush_entry le False (put_ent le (SGen 0) st)"

definition pmfs_invalidate_slot :: "nat \<Rightarrow> jst \<Rightarrow> jst" where
  "pmfs_invalidate_slot le st =
     (let st1 = invalidate_gen_id le st
      in if le_type (ent st1 le) = LE_START then PERSISTENT_BARRIER st1 else st1)"

definition pmfs_invalidate_logentries :: "pmfs_transaction_t \<Rightarrow> jst \<Rightarrow> jst" where
  "pmfs_invalidate_logentries tr st =
     fold pmfs_invalidate_slot [start_addr tr..<start_addr tr + unat (num_entries tr)] st"

definition pmfs_redo_slot :: "u16 \<Rightarrow> bool \<Rightarrow> nat \<Rightarrow> jst \<Rightarrow> jst" where
  "pmfs_redo_slot g recover le st =
     (let e = ent st le; off = unat (addr_offset e)
      in if g = gen_id e \<and> le_size e > 0 then
           let st1 = (if recover then (if off = 0 then st\<lparr>jfault := True\<rparr> else put_bytes off (ent_bytes e) st)
                      else st)
           in pmfs_flush_buffer off (unat (le_size e)) False st1
         else st)"

definition pmfs_redo_transaction :: "pmfs_transaction_t \<Rightarrow> bool \<Rightarrow> jst \<Rightarrow> jst" where
  "pmfs_redo_transaction tr recover st =
     fold (pmfs_redo_slot (t_gen_id tr) recover)
       [start_addr tr..<start_addr tr + unat (num_entries tr)] st"

definition has_flag :: "u8 \<Rightarrow> u8 \<Rightarrow> bool" where "has_flag ty f \<longleftrightarrow> ty AND f \<noteq> 0"

section \<open>Recovery of one transaction, backwards\<close>

record walk =
  w_tail :: u32
  w_le :: nat
  w_num :: u16
  w_done :: bool
  w_start :: "nat option"
  w_bug :: bool

text \<open>
  The \<^verbatim>\<open>do ... while (1)\<close> loop of \<^verbatim>\<open>pmfs_recover_transaction\<close>: \<open>w_done\<close> is \<^verbatim>\<open>cmt_or_abrt_found\<close>, \<open>w_start\<close> is
  \<^verbatim>\<open>tr.start_addr\<close> when \<^verbatim>\<open>start_found\<close>, and \<open>w_bug\<close> the \<^verbatim>\<open>BUG_ON\<close>.
\<close>

partial_function (option) recover_walk ::
    "jst \<Rightarrow> u16 \<Rightarrow> u32 \<Rightarrow> u32 \<Rightarrow> walk \<Rightarrow> walk option" where
  "recover_walk st g tid head w0 =
     (let w = w0\<lparr>w_num := w_num w0 + 1\<rparr>;
          e = ent st (w_le w);
          valid = (g = gen_id e);
          w1 = (if valid \<and> (has_flag (le_type e) LE_COMMIT \<or> has_flag (le_type e) LE_ABORT)
                then w\<lparr>w_done := True\<rparr> else w)
      in if valid \<and> has_flag (le_type e) LE_START then Some (w1\<lparr>w_start := Some (w_le w1)\<rparr>)
         else if w_tail w1 = 0 \<or> w_tail w1 = head then Some w1
         else
           let p = ent st (w_le w1 - 1)
           in if g = gen_id p \<and> (has_flag (le_type p) LE_COMMIT \<or> has_flag (le_type p) LE_ABORT)
              then Some (w1\<lparr>w_bug := (tid = transaction_id p)\<rparr>)
              else recover_walk st g tid head
                     (w1\<lparr>w_le := w_le w1 - 1, w_tail := prev_log_entry (jsize st) (w_tail w1)\<rparr>))"

definition pmfs_recover_transaction :: "u32 \<Rightarrow> u32 \<Rightarrow> nat \<Rightarrow> jst \<Rightarrow> (u32 \<times> jst) option" where
  "pmfs_recover_transaction head tail le st =
     (let e = ent st le; g = gen_id e; tid = transaction_id e
      in case recover_walk st g tid head
                \<lparr>w_tail = tail, w_le = le, w_num = 0, w_done = False, w_start = None, w_bug = False\<rparr> of
           None \<Rightarrow> None
         | Some w \<Rightarrow>
             (let start = (case w_start w of Some i \<Rightarrow> i | None \<Rightarrow> w_le w);
                  tr = \<lparr>t_id = tid, num_entries = w_num w, num_used = w_num w, t_gen_id = g,
                           start_addr = start\<rparr>;
                  undo = (w_start w \<noteq> None \<and> \<not> w_done w);
                  st0 = (if w_bug w then st\<lparr>jfault := True\<rparr> else st);
                  st1 = (if undo then pmfs_undo_transaction tr st0 else st0);
                  st2 = (if g = MAX_GEN_ID
                         then pmfs_invalidate_logentries tr (if undo then PERSISTENT_BARRIER st1 else st1)
                         else st1)
              in Some (w_tail w, st2)))"

section \<open>Processing one transaction, forwards\<close>

record pwalk =
  p_head :: u32
  p_new_head :: u32
  p_le :: nat
  p_num :: u16
  p_handled :: nat

partial_function (option) process_loop ::
    "u16 \<Rightarrow> u32 \<Rightarrow> u32 \<Rightarrow> nat \<Rightarrow> bool \<Rightarrow> pwalk \<Rightarrow> jst \<Rightarrow> (pwalk \<times> jst) option" where
  "process_loop g tid tail start recover w0 st =
     (let w = w0\<lparr>p_num := p_num w0 + 1, p_new_head := next_log_entry (jsize st) (p_new_head w0),
                 p_handled := p_handled w0 + 1\<rparr>;
          e = ent st (p_le w);
          tr = \<lparr>t_id = tid, num_entries = p_num w, num_used = p_num w, t_gen_id = g, start_addr = start\<rparr>
      in if g = gen_id e \<and> (has_flag (le_type e) LE_COMMIT \<or> has_flag (le_type e) LE_ABORT) then
           let redo = (has_flag (le_type e) LE_COMMIT \<and> redo_log st);
               st1 = (if redo then pmfs_redo_transaction tr recover st else st);
               st2 = (if g = MAX_GEN_ID
                      then pmfs_invalidate_logentries tr (if redo then PERSISTENT_BARRIER st1 else st1)
                      else st1)
           in Some (w\<lparr>p_head := p_new_head w\<rparr>, st2)
         else
           let n = ent st (p_le w + 1)
           in if p_new_head w = tail \<or> g = gen_id n \<and> has_flag (le_type n) LE_START then
                if recover
                then Some (w\<lparr>p_le := p_le w + 1, p_head := p_new_head w\<rparr>,
                           if g = MAX_GEN_ID then pmfs_invalidate_logentries tr st else st)
                else Some (w\<lparr>p_le := p_le w + 1\<rparr>, st)
              else process_loop g tid tail start recover (w\<lparr>p_le := p_le w + 1\<rparr>) st)"

definition pmfs_process_transaction ::
    "u32 \<Rightarrow> u32 \<Rightarrow> nat \<Rightarrow> bool \<Rightarrow> jst \<Rightarrow> (u32 \<times> nat \<times> jst) option" where
  "pmfs_process_transaction head tail le recover st =
     (let e = ent st le; g = gen_id e; tid = transaction_id e
      in if \<not> has_flag (le_type e) LE_START then Some (next_log_entry (jsize st) head, 0, st)
         else
           (case process_loop g tid tail le recover
                   \<lparr>p_head = head, p_new_head = head, p_le = le, p_num = 0, p_handled = 0\<rparr> st of
              None \<Rightarrow> None
            | Some (w, st1) \<Rightarrow> Some (p_head w, p_handled w, st1)))"

section \<open>The log cleaner\<close>

partial_function (option) clean_loop ::
    "u32 \<Rightarrow> u16 \<Rightarrow> u32 \<Rightarrow> nat \<Rightarrow> jst \<Rightarrow> (u32 \<times> nat \<times> jst) option" where
  "clean_loop tail g head tot st =
     (if head = tail then Some (head, tot, st)
      else if g = gen_id (ent st (slot head)) then
        (case pmfs_process_transaction head tail (slot head) False st of
           None \<Rightarrow> None
         | Some (new_head, processed, st1) \<Rightarrow>
             if new_head = head then Some (head, tot + processed, st1)
             else clean_loop tail (if new_head = 0 then next_gen_id g else g) new_head (tot + processed) st1)
      else
        let st1 = (if g = MAX_GEN_ID then invalidate_gen_id (slot head) st else st);
            new_head = next_log_entry (jsize st) head
        in clean_loop tail (if new_head = 0 then next_gen_id g else g) new_head tot st1)"

definition pmfs_clean_journal :: "bool \<Rightarrow> jst \<Rightarrow> (nat \<times> jst) option" where
  "pmfs_clean_journal unmount st =
     (let head = j_head (hdr st); tail = j_tail (hdr st); g = j_gen_id (hdr st);
          g1 = (if tail < head then prev_gen_id g else g)
      in case clean_loop tail g1 head 0 st of
           None \<Rightarrow> None
         | Some (head1, tot, st1) \<Rightarrow>
             (let st2 = flush_hdr True (put_hdr (HHead head1) (PERSISTENT_BARRIER st1));
                  st3 = (if unmount then PERSISTENT_BARRIER st2 else st2)
              in Some (tot, st3)))"

definition pmfs_free_logentries :: "jst \<Rightarrow> (u32 \<times> jst) option" where
  "pmfs_free_logentries st =
     (case pmfs_clean_journal False st of
        None \<Rightarrow> None
      | Some (freed, st1) \<Rightarrow> Some (LOGENTRY_SIZE * of_nat freed, st1))"

section \<open>Set-up\<close>

definition pmfs_journal_soft_init :: "jst \<Rightarrow> jst" where
  "pmfs_journal_soft_init st =
     st\<lparr>next_transaction_id := 0, jsize := j_size (hdr st), redo_log := (j_redo_logging (hdr st) \<noteq> 0)\<rparr>"

text \<open>\<^verbatim>\<open>memset_nt\<close> clears every slot of the journal.\<close>

definition clear_slot :: "nat \<Rightarrow> jst \<Rightarrow> jst" where
  "clear_slot i st =
     fold (put_ent i) ([SAddr 0, STid 0, SGen 0, SType 0, SSize 0] @ map (\<lambda>j. SByte j 0) [0..<48]) st"

definition pmfs_journal_hard_init :: "u64 \<Rightarrow> u32 \<Rightarrow> jst \<Rightarrow> jst" where
  "pmfs_journal_hard_init base sz st =
     (let st1 = fold put_hdr [HBase base, HSize sz, HGen 1, HTail 0, HHead 0, HRedo 0] st;
          st2 = fold clear_slot [0..<unat sz div 64] st1
      in pmfs_journal_soft_init st2)"

section \<open>Transactions\<close>

text \<open>Up to three runs of the cleaner, until enough bytes are free.\<close>

fun try_free :: "nat \<Rightarrow> u32 \<Rightarrow> u32 \<Rightarrow> u32 \<Rightarrow> jst \<Rightarrow> (u32 \<times> jst) option" where
  "try_free 0 avail req freed st = Some (freed, st)"
| "try_free (Suc n) avail req freed st =
     (case pmfs_free_logentries st of
        None \<Rightarrow> None
      | Some (f, st1) \<Rightarrow>
          if avail + (freed + f) \<ge> req then Some (freed + f, st1)
          else try_free n avail req (freed + f) st1)"

text \<open>
  The part of \<^verbatim>\<open>pmfs_new_transaction\<close> from the label \<^verbatim>\<open>again\<close>: \<open>head\<close> and \<open>tail\<close> are the local copies, which
  the code does not read again after running the cleaner.
\<close>

partial_function (option) alloc_again ::
    "u32 \<Rightarrow> u32 \<Rightarrow> u32 \<Rightarrow> jst \<Rightarrow> ((u32 \<times> u16) option \<times> jst) option" where
  "alloc_again head tail req st =
     (let g = j_gen_id (hdr st);
          avail = (if tail \<ge> head then jsize st - (tail - head) else head - tail) - LOGENTRY_SIZE
      in case (if avail < req then try_free 3 avail req 0 st else Some (req, st)) of
           None \<Rightarrow> None
         | Some (freed, st1) \<Rightarrow>
             if avail < req \<and> avail + freed < req then Some (None, st1)
             else
               let new_tail = tail + req
               in if new_tail \<ge> jsize st1
                  then alloc_again head 0 req
                         (put_hdr (HTailGen 0 (next_gen_id (j_gen_id (hdr st1)))) st1)
                  else Some (Some (tail, g), flush_hdr False (put_hdr (HTail new_tail) st1)))"

definition pmfs_new_transaction ::
    "bool \<Rightarrow> nat \<Rightarrow> jst \<Rightarrow> ((int + pmfs_transaction_t) \<times> jst) option" where
  "pmfs_new_transaction mem max_log_entries st =
     (let mx = (if redo_log st then max_log_entries else max_log_entries + 1)
      in if \<not> mem then Some (Inl (- ENOMEM), st)
         else
           let req = push_bit 6 (of_nat mx) :: u32;
               tail = j_tail (hdr st); head = j_head (hdr st);
               tid = next_transaction_id st;
               st1 = st\<lparr>next_transaction_id := next_transaction_id st + 1\<rparr>
           in case alloc_again head tail req st1 of
                None \<Rightarrow> None
              | Some (None, st2) \<Rightarrow> Some (Inl (- EAGAIN), st2)
              | Some (Some (base, g), st2) \<Rightarrow>
                  Some (Inr \<lparr>t_id = tid, num_entries = of_nat mx, num_used = 0, t_gen_id = g,
                             start_addr = slot base\<rparr>, st2))"

definition pmfs_commit_logentry :: "pmfs_transaction_t \<Rightarrow> nat \<Rightarrow> jst \<Rightarrow> jst" where
  "pmfs_commit_logentry tr le st =
     (if redo_log st then
        let st1 = PERSISTENT_BARRIER st;
            st2 = put_ent le (SType (le_type (ent st1 le) OR LE_COMMIT)) st1;
            st3 = put_ent le (SGen (t_gen_id tr)) st2;
            st4 = PERSISTENT_BARRIER (flush_entry le False st3)
        in pmfs_flush_transaction tr st4
      else
        let st1 = PERSISTENT_BARRIER (pmfs_flush_transaction tr st);
            st2 = put_ent le (SType (le_type (ent st1 le) OR LE_COMMIT)) st1;
            st3 = put_ent le (SGen (t_gen_id tr)) st2
        in flush_entry le True st3)"

fun copy_to_entry :: "nat \<Rightarrow> nat \<Rightarrow> nat \<Rightarrow> nat \<Rightarrow> jst \<Rightarrow> jst" where
  "copy_to_entry le addr j 0 st = st"
| "copy_to_entry le addr j (Suc n) st =
     copy_to_entry le addr (Suc j) n (put_ent le (SByte j (pdata (pm st) (addr + j))) st)"

fun add_les :: "nat \<Rightarrow> bool \<Rightarrow> u8 \<Rightarrow> nat \<Rightarrow> u16 \<Rightarrow> u64 \<Rightarrow> nat \<Rightarrow> pmfs_transaction_t \<Rightarrow> jst \<Rightarrow>
    bool \<times> pmfs_transaction_t \<times> jst" where
  "add_les 0 first ty addr sz le_start le tr st = (False, tr, st)"
| "add_les (Suc n) first ty addr sz le_start le tr st =
     (let st1 = put_ent le (SAddr le_start) st;
          st2 = put_ent le (STid (t_id tr)) st1;
          lsz = (if n = 0 then ucast sz else 48) :: u8;
          st3 = put_ent le (SSize lsz) st2;
          sz' = sz - ucast lsz;
          st4 = copy_to_entry le addr 0 (unat lsz) st3;
          st5 = put_ent le (SType ty) st4;
          st6 = (if first \<and> num_used tr = 0
                 then put_ent le (SType (le_type (ent st5 le) OR LE_START)) st5 else st5);
          tr' = tr\<lparr>num_used := num_used tr + 1\<rparr>
      in if n = 0 \<and> has_flag ty LE_COMMIT
         then (True, tr', pmfs_commit_logentry tr' le st6)
         else
           let st7 = flush_entry le False (put_ent le (SGen (t_gen_id tr')) st6)
           in add_les n False ty (addr + unat lsz) sz' (le_start + ucast lsz) (Suc le) tr' st7)"

text \<open>\<open>trans\<close> is \<open>None\<close> for a null pointer; \<open>addr\<close> is only used when \<open>sz\<close> is not zero.\<close>

definition pmfs_add_logentry ::
    "pmfs_transaction_t option \<Rightarrow> nat \<Rightarrow> u16 \<Rightarrow> u8 \<Rightarrow> jst \<Rightarrow> int \<times> pmfs_transaction_t option \<times> jst" where
  "pmfs_add_logentry tr addr sz ty st =
     (case tr of
        None \<Rightarrow> (- EINVAL, None, st)
      | Some t \<Rightarrow>
          let le = start_addr t + unat (num_used t);
              num_les = (if sz = 0
                         then (if has_flag ty LE_COMMIT \<or> has_flag ty LE_ABORT then 1 else 0)
                         else (unat sz + 47) div 48);
              le_start = (if sz \<noteq> 0 then of_nat addr else 0)
          in if unat (num_used t) + num_les > unat (num_entries t) then (- ENOMEM, Some t, st)
             else
               let (committed, t', st1) = add_les num_les True ty addr sz le_start le t st
               in (0, Some t',
                   if committed then st1 else if redo_log st1 then st1 else PERSISTENT_BARRIER st1))"

definition pmfs_commit_transaction :: "pmfs_transaction_t option \<Rightarrow> jst \<Rightarrow> jst" where
  "pmfs_commit_transaction tr st =
     (if tr = None then st else snd (snd (pmfs_add_logentry tr 0 0 LE_COMMIT st)))"

definition pmfs_abort_transaction :: "pmfs_transaction_t option \<Rightarrow> jst \<Rightarrow> jst" where
  "pmfs_abort_transaction tr st =
     (case tr of
        None \<Rightarrow> st
      | Some t \<Rightarrow>
          let st1 = (if redo_log st then st else PERSISTENT_BARRIER (pmfs_undo_transaction t st))
          in snd (snd (pmfs_add_logentry tr 0 0 LE_ABORT st1)))"

section \<open>Recovery\<close>

partial_function (option) invalidate_remaining_journal :: "u32 \<Rightarrow> u32 \<Rightarrow> nat \<Rightarrow> jst \<Rightarrow> jst option" where
  "invalidate_remaining_journal jtail jsz le st =
     (if jtail < jsz
      then invalidate_remaining_journal (jtail + LOGENTRY_SIZE) jsz (Suc le) (invalidate_gen_id le st)
      else Some st)"

definition pmfs_forward_journal :: "jst \<Rightarrow> jst option" where
  "pmfs_forward_journal st =
     (let g = j_gen_id (hdr st)
      in case (if g = MAX_GEN_ID
               then invalidate_remaining_journal (j_tail (hdr st)) (jsize st) (slot (j_tail (hdr st))) st
               else Some st) of
           None \<Rightarrow> None
         | Some st1 \<Rightarrow>
             (let st2 = put_hdr (HGen (next_gen_id g)) (PERSISTENT_BARRIER st1);
                  st3 = put_hdr (HHead (j_tail (hdr st2))) st2
              in Some (flush_hdr False st3)))"

partial_function (option) recover_undo_loop :: "u32 \<Rightarrow> u32 \<Rightarrow> u16 \<Rightarrow> jst \<Rightarrow> jst option" where
  "recover_undo_loop head tail g st =
     (if head = tail then Some st
      else
        let g1 = (if tail = 0 then prev_gen_id g else g);
            tail1 = prev_log_entry (jsize st) tail;
            le = slot tail1
        in if g1 = gen_id (ent st le) then
             (case pmfs_recover_transaction head tail1 le st of
                None \<Rightarrow> None
              | Some (tail2, st1) \<Rightarrow> recover_undo_loop head tail2 g1 st1)
           else recover_undo_loop head tail1 g1
                  (if g1 = MAX_GEN_ID then invalidate_gen_id le st else st))"

definition pmfs_recover_undo_journal :: "jst \<Rightarrow> jst option" where
  "pmfs_recover_undo_journal st =
     (case recover_undo_loop (j_head (hdr st)) (j_tail (hdr st)) (j_gen_id (hdr st)) st of
        None \<Rightarrow> None
      | Some st1 \<Rightarrow>
          (case pmfs_forward_journal st1 of None \<Rightarrow> None | Some st2 \<Rightarrow> Some (PERSISTENT_BARRIER st2)))"

partial_function (option) recover_redo_loop :: "u32 \<Rightarrow> u32 \<Rightarrow> u16 \<Rightarrow> jst \<Rightarrow> jst option" where
  "recover_redo_loop head tail g st =
     (if head = tail then Some st
      else if g = gen_id (ent st (slot head)) then
        (case pmfs_process_transaction head tail (slot head) True st of
           None \<Rightarrow> None
         | Some (head1, processed, st1) \<Rightarrow>
             recover_redo_loop head1 tail (if head1 = 0 then next_gen_id g else g) st1)
      else
        let st1 = (if g = MAX_GEN_ID then invalidate_gen_id (slot head) st else st);
            head1 = next_log_entry (jsize st) head
        in recover_redo_loop head1 tail (if head1 = 0 then next_gen_id g else g) st1)"

definition pmfs_recover_redo_journal :: "jst \<Rightarrow> jst option" where
  "pmfs_recover_redo_journal st =
     (let head = j_head (hdr st); tail = j_tail (hdr st); g = j_gen_id (hdr st)
      in case recover_redo_loop head tail (if tail < head then prev_gen_id g else g) st of
           None \<Rightarrow> None
         | Some st1 \<Rightarrow>
             (case pmfs_forward_journal st1 of None \<Rightarrow> None | Some st2 \<Rightarrow> Some (PERSISTENT_BARRIER st2)))"

definition pmfs_recover_journal :: "jst \<Rightarrow> jst option" where
  "pmfs_recover_journal st =
     (if j_head (hdr st) = j_tail (hdr st) then Some st
      else if redo_log st then pmfs_recover_redo_journal st
      else pmfs_recover_undo_journal st)"

end
