(* ===== verification/Undo_Log.thy ===== *)
theory Undo_Log
  imports Main
begin

text \<open>
  Undo logging in general: a log entry holds the old contents of the locations it covers, and undoing an
  entry writes them back.  Undoing a list of entries from the last to the first restores every location
  whose first covering entry holds its original value.
\<close>

locale undo_log =
  fixes covers :: "'e \<Rightarrow> 'a \<Rightarrow> bool"
    and saved :: "'e \<Rightarrow> 'a \<Rightarrow> 'v"
    and undo :: "'e \<Rightarrow> 'm \<Rightarrow> 'm"
    and read :: "'m \<Rightarrow> 'a \<Rightarrow> 'v"
  assumes undo_law: "read (undo e m) a = (if covers e a then saved e a else read m a)"
begin

definition undo_all :: "'e list \<Rightarrow> 'm \<Rightarrow> 'm" where
  "undo_all es m = fold undo (rev es) m"

lemma undo_all_simps [simp]: "undo_all [] m = m" "undo_all (e # es) m = undo e (undo_all es m)"
  by (simp_all add: undo_all_def)

lemma read_undo_all:
  "read (undo_all es m) a =
     (case find (\<lambda>e. covers e a) es of None \<Rightarrow> read m a | Some e \<Rightarrow> saved e a)"
  by (induction es) (simp_all add: undo_law)

lemma undo_all_restores_at:
  assumes "\<And>e. e \<in> set es \<Longrightarrow> covers e a \<Longrightarrow> saved e a = v"
    and "\<forall>e \<in> set es. \<not> covers e a \<Longrightarrow> read m a = v"
  shows "read (undo_all es m) a = v"
proof (cases "find (\<lambda>e. covers e a) es")
  case None
  then have "\<forall>e \<in> set es. \<not> covers e a" by (simp add: find_None_iff)
  with None assms(2) show ?thesis by (simp add: read_undo_all)
next
  case (Some e)
  then have "e \<in> set es" "covers e a" by (auto simp: find_Some_iff)
  with Some assms(1) show ?thesis by (simp add: read_undo_all)
qed

text \<open>The entries of a log restore the memory \<open>old\<close> that was logged.\<close>

lemma undo_all_restores:
  assumes "\<And>a e. find (\<lambda>e. covers e a) es = Some e \<Longrightarrow> saved e a = old a"
    and "\<And>a. \<forall>e \<in> set es. \<not> covers e a \<Longrightarrow> read m a = old a"
  shows "read (undo_all es m) = old"
proof
  fix a
  show "read (undo_all es m) a = old a"
  proof (cases "find (\<lambda>e. covers e a) es")
    case None
    then have "\<forall>e \<in> set es. \<not> covers e a" by (simp add: find_None_iff)
    with None assms(2) [of a] show ?thesis by (simp add: read_undo_all)
  next
    case (Some e)
    then show ?thesis using assms(1) by (simp add: read_undo_all)
  qed
qed

text \<open>Undoing twice is the same as undoing once, also when the first time was interrupted.\<close>

lemma undo_all_repeat:
  assumes "\<And>a. \<forall>e \<in> set es. \<not> covers e a \<Longrightarrow> read m' a = read m a"
  shows "read (undo_all es m') = read (undo_all es m)"
proof
  fix a
  show "read (undo_all es m') a = read (undo_all es m) a"
  proof (cases "find (\<lambda>e. covers e a) es")
    case None
    then have "\<forall>e \<in> set es. \<not> covers e a" by (simp add: find_None_iff)
    with None assms [of a] show ?thesis by (simp add: read_undo_all)
  next
    case (Some e)
    then show ?thesis by (simp add: read_undo_all)
  qed
qed

end

end
