(* ===== verification/Pmfs_Jnl_Run.thy ===== *)
theory Pmfs_Jnl_Run
  imports Pmfs_Journal Undo_Log
begin

unbundle bit_operations_syntax

text \<open>
  Every journal operation is the execution of a list of events that is determined by the state.  This
  theory computes these lists.
\<close>

section \<open>Executing events\<close>

definition exec :: "event list \<Rightarrow> jst \<Rightarrow> jst" where
  "exec es st = st\<lparr>pm := apply_stores (stores es) (pm st), evs := evs st @ es\<rparr>"

lemma exec_Nil [simp]: "exec [] st = st"
  by (simp add: exec_def)

lemma exec_exec [simp]: "exec fs (exec es st) = exec (es @ fs) st"
  by (simp add: exec_def)

lemma exec_fields [simp]:
  "pm (exec es st) = apply_stores (stores es) (pm st)" "evs (exec es st) = evs st @ es"
  "jsize (exec es st) = jsize st" "next_transaction_id (exec es st) = next_transaction_id st"
  "redo_log (exec es st) = redo_log st" "jfault (exec es st) = jfault st"
  by (simp_all add: exec_def)

lemma primitive_exec:
  "pstore_step s st = exec [St s] st" "flush_line l st = exec [Fl l] st" "PERSISTENT_BARRIER st = exec [Fe] st"
  "put_ent i e st = exec [St (SEnt i e)] st" "put_hdr h st = exec [St (SHdr h)] st"
  "flush_entry i b st = exec (Fl (EntLine i) # (if b then [Fe] else [])) st"
  "flush_hdr b st = exec (Fl HdrLine # (if b then [Fe] else [])) st"
  by (simp_all add: exec_def pstore_step_def flush_line_def PERSISTENT_BARRIER_def put_ent_def put_hdr_def
      flush_entry_def flush_hdr_def Let_def)

fun data_evs :: "nat \<Rightarrow> u8 list \<Rightarrow> event list" where
  "data_evs a [] = []"
| "data_evs a (b # bs) = St (SData a b) # data_evs (Suc a) bs"

lemma put_bytes_exec: "put_bytes a bs st = exec (data_evs a bs) st"
  by (induction bs arbitrary: a st) (simp_all add: primitive_exec)

lemma flush_buffer_exec:
  "pmfs_flush_buffer a n b st = exec (map Fl (flush_lines a n) @ (if b then [Fe] else [])) st"
proof -
  have "fold flush_line ls st = exec (map Fl ls) st" for ls
    by (induction ls arbitrary: st) (simp_all add: primitive_exec)
  then show ?thesis by (simp add: pmfs_flush_buffer_def Let_def primitive_exec)
qed

lemma stores_data_evs [simp]: "stores (data_evs a bs) = map (\<lambda>i. SData (a + i) (bs ! i)) [0..<length bs]"
proof (induction bs arbitrary: a)
  case Nil
  then show ?case by simp
next
  case (Cons b bs)
  have "[0..<length (b # bs)] = 0 # map Suc [0..<length bs]" by (simp add: upt_conv_Cons map_Suc_upt del: upt_Suc)
  then show ?case using Cons [of "Suc a"] by (simp add: comp_def del: upt_Suc)
qed

section \<open>Effect on the data\<close>

definition ent_covers :: "pmfs_logentry_t \<Rightarrow> nat \<Rightarrow> bool" where
  "ent_covers e a \<longleftrightarrow> unat (addr_offset e) \<le> a \<and> a < unat (addr_offset e) + length (ent_bytes e)"

definition ent_saved :: "pmfs_logentry_t \<Rightarrow> nat \<Rightarrow> u8" where
  "ent_saved e a = ent_bytes e ! (a - unat (addr_offset e))"

definition undo_entry :: "pmfs_logentry_t \<Rightarrow> jst \<Rightarrow> jst" where
  "undo_entry e st = put_bytes (unat (addr_offset e)) (ent_bytes e) st"

lemma put_bytes_data:
  "pdata (pm (put_bytes a bs st)) x = (if a \<le> x \<and> x < a + length bs then bs ! (x - a) else pdata (pm st) x)"
  by (induction bs arbitrary: a st) (auto simp: pstore_step_def nth_Cons' Suc_le_eq)

lemma put_bytes_frame [simp]:
  "pents (pm (put_bytes a bs st)) = pents (pm st)" "phdr (pm (put_bytes a bs st)) = phdr (pm st)"
  by (induction bs arbitrary: a st) (simp_all add: pstore_step_def)

text \<open>Undoing PMFS log entries is an undo log.\<close>

interpretation pmfs_undo: undo_log ent_covers ent_saved undo_entry "\<lambda>st. pdata (pm st)"
  by unfold_locales (auto simp: undo_entry_def put_bytes_data ent_covers_def ent_saved_def)

lemma flush_buffer_frame [simp]: "pm (pmfs_flush_buffer a n b st) = pm st"
  by (simp add: flush_buffer_exec)

lemma undo_logentry_pm:
  assumes "addr_offset (ent st i) \<noteq> 0 \<or> le_size (ent st i) = 0"
  shows "pm (pmfs_undo_logentry i st) = pm (undo_entry (ent st i) st)"
  using assms by (simp add: pmfs_undo_logentry_def Let_def undo_entry_def ent_bytes_def word_gt_0 unat_eq_0)

lemma undo_entry_frame [simp]:
  "pents (pm (undo_entry e st)) = pents (pm st)" "phdr (pm (undo_entry e st)) = phdr (pm st)"
  by (simp_all add: undo_entry_def)

lemma undo_entry_cong: "pm st = pm st' \<Longrightarrow> pm (undo_entry e st) = pm (undo_entry e st')"
proof -
  have "pm st = pm st' \<Longrightarrow> pm (put_bytes a bs st) = pm (put_bytes a bs st')" for a bs
    by (induction bs arbitrary: a st st') (simp_all add: pstore_step_def)
  then show "pm st = pm st' \<Longrightarrow> pm (undo_entry e st) = pm (undo_entry e st')"
    by (simp add: undo_entry_def)
qed

lemma undo_slots_pm:
  "\<forall>i \<in> set is. gen_id (ent st i) = g \<longrightarrow> addr_offset (ent st i) \<noteq> 0 \<or> le_size (ent st i) = 0 \<Longrightarrow>
   pm (undo_slots g is st) =
     pm (fold undo_entry (map (ent st) (filter (\<lambda>i. gen_id (ent st i) = g) is)) st)"
proof (induction "is" arbitrary: st)
  case Nil
  then show ?case by simp
next
  case (Cons i "is")
  have fold_cong: "pm s = pm s' \<Longrightarrow> pm (fold undo_entry es s) = pm (fold undo_entry es s')" for s s' es
  proof (induction es arbitrary: s s')
    case Nil
    then show ?case by simp
  next
    case (Cons e es)
    from Cons.IH [OF undo_entry_cong [OF Cons.prems]] show ?case by simp
  qed
  show ?case
  proof (cases "gen_id (ent st i) = g")
    case True
    let ?st = "pmfs_undo_logentry i st"
    have p: "pm ?st = pm (undo_entry (ent st i) st)"
      using Cons.prems True by (intro undo_logentry_pm) simp
    then have "ent ?st = ent st" by (simp add: fun_eq_iff)
    with Cons.IH [of ?st] Cons.prems True have
      "pm (undo_slots g is ?st) = pm (fold undo_entry (map (ent st) (filter (\<lambda>i. gen_id (ent st i) = g) is)) ?st)"
      by simp
    with fold_cong [OF p] True show ?thesis by simp
  next
    case False
    with Cons show ?thesis by auto
  qed
qed

lemma undo_entry_fold_frame [simp]:
  "pents (pm (fold undo_entry es st)) = pents (pm st)" "phdr (pm (fold undo_entry es st)) = phdr (pm st)"
  by (induction es arbitrary: st) simp_all

section \<open>The events of \<^verbatim>\<open>pmfs_add_logentry\<close>\<close>

definition ent_stores :: "u64 \<Rightarrow> u32 \<Rightarrow> nat \<Rightarrow> (nat \<Rightarrow> u8) \<Rightarrow> u8 \<Rightarrow> bool \<Rightarrow> estore list" where
  "ent_stores off tid n vs ty first =
     [SAddr off, STid tid, SSize (of_nat n)] @ map (\<lambda>j. SByte j (vs j)) [0..<n] @ [SType ty] @
     (if first then [SType (ty OR LE_START)] else [])"

abbreviation ent_evs :: "nat \<Rightarrow> estore list \<Rightarrow> event list" where
  "ent_evs i es \<equiv> map (\<lambda>e. St (SEnt i e)) es"

lemma stores_ent_evs [simp]: "stores (ent_evs i es) = map (SEnt i) es"
  by (induction es) simp_all

lemma apply_ent_stores:
  "apply_stores (map (SEnt i) es) m = m\<lparr>pents := (pents m)(i := fold app_ent es (pents m i))\<rparr>"
  by (induction es arbitrary: m) simp_all

lemma ent_stores_frame [simp]:
  "pdata (apply_stores (map (SEnt i) es) m) = pdata m" "phdr (apply_stores (map (SEnt i) es) m) = phdr m"
  by (simp_all add: apply_ent_stores)

lemma copy_to_entry_exec:
  "copy_to_entry i addr j n st = exec (ent_evs i (map (\<lambda>k. SByte k (pdata (pm st) (addr + k))) [j..<j + n])) st"
proof (induction n arbitrary: j st)
  case 0
  then show ?case by simp
next
  case (Suc n)
  have "[j..<j + Suc n] = j # [Suc j..<Suc j + n]" by (simp add: upt_conv_Cons)
  then show ?case using Suc [of "Suc j"] by (simp add: primitive_exec del: upt_Suc)
qed

fun les_evs :: "nat \<Rightarrow> bool \<Rightarrow> nat \<Rightarrow> nat \<Rightarrow> nat \<Rightarrow> u32 \<Rightarrow> u16 \<Rightarrow> (nat \<Rightarrow> u8) \<Rightarrow> event list" where
  "les_evs 0 first addr s i tid g d = []"
| "les_evs (Suc n) first addr s i tid g d =
     (let k = (if n = 0 then s else 48)
      in ent_evs i (ent_stores (of_nat addr) tid k (\<lambda>j. d (addr + j)) LE_DATA first @ [SGen g]) @
         Fl (EntLine i) # les_evs n False (addr + k) (s - k) (Suc i) tid g d)"

lemma stores_les_evs_frame [simp]:
  "pdata (apply_stores (stores (les_evs n first addr s i tid g d)) m) = pdata m"
  "phdr (apply_stores (stores (les_evs n first addr s i tid g d)) m) = phdr m"
  by (induction n arbitrary: first addr s i m) (simp_all add: Let_def del: map_append)

lemma has_flag_simps [simp]:
  "\<not> has_flag LE_DATA f" "has_flag LE_COMMIT LE_COMMIT" "has_flag LE_ABORT LE_ABORT"
  "\<not> has_flag LE_START LE_COMMIT" "\<not> has_flag LE_START LE_ABORT" "has_flag LE_START LE_START"
  "\<not> has_flag LE_COMMIT LE_START" "\<not> has_flag LE_COMMIT LE_ABORT" "\<not> has_flag LE_ABORT LE_COMMIT"
  by (simp_all add: has_flag_def LE_DATA_def LE_START_def LE_COMMIT_def LE_ABORT_def)

text \<open>The first part of the loop body of \<^verbatim>\<open>pmfs_add_logentry\<close>, up to the flag of the first entry.\<close>

lemma entry_prefix_exec:
  fixes le_start :: u64 and st :: jst and tid :: u32 and addr i k :: nat and ty lsz :: u8
  assumes "unat lsz = k"
  defines "st5 \<equiv> put_ent i (SType ty) (copy_to_entry i addr 0 (unat lsz) (put_ent i (SSize lsz)
      (put_ent i (STid tid) (put_ent i (SAddr le_start) st))))"
  shows "(if first then put_ent i (SType (le_type (ent st5 i) OR LE_START)) st5 else st5) =
    exec (ent_evs i (ent_stores le_start tid k (\<lambda>j. pdata (pm st) (addr + j)) ty first)) st"
proof -
  have lsz: "lsz = of_nat k" using assms(1) by auto
  have st5: "st5 = exec (ent_evs i (ent_stores le_start tid k (\<lambda>j. pdata (pm st) (addr + j)) ty False)) st"
    unfolding st5_def assms(1)
    by (simp add: copy_to_entry_exec primitive_exec ent_stores_def lsz)
  then have "le_type (ent st5 i) = ty"
    by (simp add: ent_stores_def apply_ent_stores del: map_append)
  then show ?thesis by (simp add: st5 primitive_exec ent_stores_def)
qed

lemma add_les_Suc:
  fixes lsz :: u8
  assumes u: "unat lsz = k" and l: "lsz = (if n = 0 then ucast sz else 48)"
    and c: "\<not> (n = 0 \<and> has_flag ty LE_COMMIT)"
  shows "add_les (Suc n) first ty addr sz le_start i tr st =
    add_les n False ty (addr + k) (sz - ucast lsz) (le_start + ucast lsz) (Suc i)
      (tr\<lparr>num_used := num_used tr + 1\<rparr>)
      (exec (ent_evs i (ent_stores le_start (t_id tr) k (\<lambda>j. pdata (pm st) (addr + j)) ty (first \<and> num_used tr = 0) @
          [SGen (t_gen_id tr)]) @ [Fl (EntLine i)]) st)"
  unfolding add_les.simps(2) Let_def l [symmetric] if_not_P [OF c] entry_prefix_exec [OF u]
  by (simp add: u primitive_exec del: add_les.simps)

lemma add_les_data_exec:
  "\<lbrakk>48 * n < s; s \<le> 48 * Suc n; s < 2 ^ 16\<rbrakk> \<Longrightarrow>
   add_les (Suc n) first LE_DATA addr (of_nat s) (of_nat addr) i tr st =
     (False, tr\<lparr>num_used := num_used tr + of_nat (Suc n)\<rparr>,
      exec (les_evs (Suc n) (first \<and> num_used tr = 0) addr s i (t_id tr) (t_gen_id tr) (pdata (pm st))) st)"
proof (induction n arbitrary: s first addr i tr st)
  case 0
  have "unat (of_nat s :: u16) = s" using 0 by (intro unat_of_nat_less) simp
  then have u: "unat (ucast (of_nat s :: u16) :: u8) = s"
    using 0 by (simp add: unsigned_ucast_eq take_bit_nat_eq_self)
  show ?case
    by (subst add_les_Suc [OF u]) (simp_all add: Let_def)
next
  case (Suc n)
  have u: "unat (48 :: u8) = 48" by simp
  have sz: "of_nat s - ucast (48 :: u8) = (of_nat (s - 48) :: u16)"
    using Suc.prems by (simp add: of_nat_diff)
  have off: "(of_nat addr :: u64) + ucast (48 :: u8) = of_nat (addr + 48)" by simp
  let ?f = "first \<and> num_used tr = 0"
  let ?E = "ent_evs i (ent_stores (of_nat addr) (t_id tr) 48 (\<lambda>j. pdata (pm st) (addr + j)) LE_DATA ?f @
      [SGen (t_gen_id tr)]) @ [Fl (EntLine i)]"
  let ?tr = "tr\<lparr>num_used := num_used tr + 1\<rparr>"
  have step: "add_les (Suc (Suc n)) first LE_DATA addr (of_nat s) (of_nat addr) i tr st =
      add_les (Suc n) False LE_DATA (addr + 48) (of_nat (s - 48)) (of_nat (addr + 48)) (Suc i) ?tr (exec ?E st)"
    by (subst add_les_Suc [OF u]) (simp_all only: sz off nat.distinct simp_thms if_False)
  have d: "pdata (pm (exec ?E st)) = pdata (pm st)" by (simp del: map_append)
  have "add_les (Suc n) False LE_DATA (addr + 48) (of_nat (s - 48)) (of_nat (addr + 48)) (Suc i) ?tr (exec ?E st) =
     (False, ?tr\<lparr>num_used := num_used ?tr + of_nat (Suc n)\<rparr>,
      exec (les_evs (Suc n) False (addr + 48) (s - 48) (Suc i) (t_id tr) (t_gen_id tr) (pdata (pm st))) (exec ?E st))"
    using Suc.IH [of "s - 48" False "addr + 48" "Suc i" ?tr "exec ?E st"] Suc.prems unfolding d by simp
  moreover have "les_evs (Suc (Suc n)) ?f addr s i (t_id tr) (t_gen_id tr) (pdata (pm st)) =
      ?E @ les_evs (Suc n) False (addr + 48) (s - 48) (Suc i) (t_id tr) (t_gen_id tr) (pdata (pm st))"
    by (subst les_evs.simps(2)) (simp add: Let_def del: les_evs.simps)
  ultimately show ?case unfolding step by (simp add: algebra_simps del: add_les.simps les_evs.simps)
qed

definition num_les :: "nat \<Rightarrow> nat" where "num_les s = (s + 47) div 48"

lemma num_les_bounds:
  assumes "0 < s"
  obtains n where "num_les s = Suc n" "48 * n < s" "s \<le> 48 * Suc n"
proof -
  define n where "n = (s - 1) div 48"
  have s: "s = Suc (s - 1)" using assms by simp
  have d: "48 * n \<le> s - 1" "s - 1 < 48 * n + 48"
    using div_mult_mod_eq [of "s - 1" 48] mod_less_divisor [of 48 "s - 1"] by (auto simp: n_def)
  have "(s + 47) div 48 = ((s - 1) + 48) div 48" using s by simp
  also have "\<dots> = Suc n" by (simp add: n_def)
  finally show thesis using that [of n] d s by (simp add: num_les_def)
qed

lemma add_logentry_data_exec:
  assumes s: "0 < s" "s < 2 ^ 16" and room: "unat (num_used tr) + num_les s \<le> unat (num_entries tr)"
    and undo: "\<not> redo_log st"
  shows "pmfs_add_logentry (Some tr) addr (of_nat s) LE_DATA st =
     (0, Some (tr\<lparr>num_used := num_used tr + of_nat (num_les s)\<rparr>),
      exec (les_evs (num_les s) (num_used tr = 0) addr s (start_addr tr + unat (num_used tr))
              (t_id tr) (t_gen_id tr) (pdata (pm st)) @ [Fe]) st)"
proof -
  obtain n where n: "num_les s = Suc n" "48 * n < s" "s \<le> 48 * Suc n"
    using s(1) by (rule num_les_bounds)
  have u: "unat (of_nat s :: u16) = s" using s(2) by (intro unat_of_nat_less) simp
  then have nz: "(of_nat s :: u16) \<noteq> 0" using s(1) by (metis not_less_zero unat_0)
  have le: "(unat (of_nat s :: u16) + 47) div 48 = Suc n" using n(1) u by (simp add: num_les_def)
  show ?thesis
    using room nz undo
    by (simp add: pmfs_add_logentry_def Let_def le n(1) add_les_data_exec [OF n(2,3) s(2)] primitive_exec
        del: add_les.simps les_evs.simps)
qed

section \<open>The events of a commit\<close>

definition slot_flushes :: "pmem \<Rightarrow> nat \<Rightarrow> event list" where
  "slot_flushes m i =
     (if le_size (pents m i) = 0 then []
      else map Fl (flush_lines (unat (addr_offset (pents m i))) (unat (le_size (pents m i)))))"

lemma stores_slot_flushes [simp]: "stores (concat (map (slot_flushes m) is)) = []"
  by (induction "is") (simp_all add: slot_flushes_def)

lemma flush_transaction_exec:
  assumes "\<not> redo_log st"
  shows "pmfs_flush_transaction tr st =
    exec (concat (map (slot_flushes (pm st)) [start_addr tr..<start_addr tr + unat (num_used tr)])) st"
proof -
  have "fold pmfs_flush_slot is (exec es st) = exec (es @ concat (map (slot_flushes (pm st)) is)) st"
    if "stores es = []" for es "is"
    using that
  proof (induction "is" arbitrary: es)
    case Nil
    then show ?case by simp
  next
    case (Cons i "is")
    have "pmfs_flush_slot i (exec es st) = exec (es @ slot_flushes (pm st) i) st"
      using Cons.prems assms by (simp add: pmfs_flush_slot_def slot_flushes_def Let_def flush_buffer_exec)
    moreover have "stores (es @ slot_flushes (pm st) i) = []" using Cons.prems by (simp add: slot_flushes_def)
    ultimately show ?case using Cons.IH [of "es @ slot_flushes (pm st) i"] by simp
  qed
  from this [of "[]"] show ?thesis by (simp add: pmfs_flush_transaction_def)
qed

definition commit_evs :: "pmfs_transaction_t \<Rightarrow> pmem \<Rightarrow> event list" where
  "commit_evs tr m =
     (let i = start_addr tr + unat (num_used tr);
          A = ent_evs i (ent_stores 0 (t_id tr) 0 (\<lambda>j. 0) LE_COMMIT False);
          m1 = apply_stores (stores A) m
      in A @ concat (map (slot_flushes m1) [start_addr tr..<Suc i]) @
         Fe # ent_evs i [SType LE_COMMIT, SGen (t_gen_id tr)] @ [Fl (EntLine i), Fe])"

lemma commit_exec:
  assumes room: "unat (num_used tr) < unat (num_entries tr)" and used: "num_used tr \<noteq> 0" and undo: "\<not> redo_log st"
  shows "pmfs_commit_transaction (Some tr) st = exec (commit_evs tr (pm st)) st"
proof -
  let ?i = "start_addr tr + unat (num_used tr)"
  let ?A = "ent_evs ?i (ent_stores 0 (t_id tr) 0 (\<lambda>j. 0) LE_COMMIT False)"
  let ?tr = "tr\<lparr>num_used := num_used tr + 1\<rparr>"
  have nu: "unat (num_used tr + 1) = Suc (unat (num_used tr))"
    using room unat_plus1 [of "num_used tr" "num_entries tr"] by (simp add: word_less_nat_alt)
  have u: "unat (ucast (0 :: u16) :: u8) = 0" by simp
  have "add_les 1 True LE_COMMIT 0 0 0 ?i tr st = (True, ?tr, pmfs_commit_logentry ?tr ?i (exec ?A st))"
    unfolding One_nat_def add_les.simps(2) Let_def if_P [OF refl] entry_prefix_exec [OF u]
    using used by (simp add: ent_stores_def)
  then have run: "pmfs_commit_transaction (Some tr) st = pmfs_commit_logentry ?tr ?i (exec ?A st)"
    using room by (simp add: pmfs_commit_transaction_def pmfs_add_logentry_def Let_def del: add_les.simps)
  let ?m = "apply_stores (stores ?A) (pm st)"
  let ?G = "concat (map (slot_flushes ?m) [start_addr tr..<Suc ?i])"
  have ty: "le_type (pents ?m ?i) = LE_COMMIT"
    by (simp add: ent_stores_def apply_ent_stores del: map_append)
  have fl: "pmfs_flush_transaction ?tr (exec ?A st) = exec (?A @ ?G) st"
    using undo flush_transaction_exec [of "exec ?A st" ?tr] by (simp add: nu del: stores_ent_evs upt_Suc)
  have st1: "PERSISTENT_BARRIER (exec (?A @ ?G) st) = exec (?A @ ?G @ [Fe]) st" by (simp add: primitive_exec)
  have "ent (exec (?A @ ?G @ [Fe]) st) ?i = pents ?m ?i" by (simp del: stores_ent_evs upt_Suc)
  then have ty1: "le_type (ent (exec (?A @ ?G @ [Fe]) st) ?i) OR LE_COMMIT = LE_COMMIT"
    by (simp only: ty) (simp add: LE_COMMIT_def)
  have nr: "\<not> redo_log (exec ?A st)" using undo by simp
  show ?thesis
    unfolding run pmfs_commit_logentry_def Let_def if_not_P [OF nr] fl st1 ty1
    by (simp add: primitive_exec commit_evs_def Let_def del: stores_ent_evs upt_Suc)
qed

section \<open>The events of a new transaction\<close>

lemma new_transaction_exec:
  fixes t n :: nat
  assumes h: "j_head (hdr st) = of_nat (64 * t)" "j_tail (hdr st) = of_nat (64 * t)"
    and js: "unat (jsize st) = 64 * N" and room: "t + Suc n < N" and undo: "\<not> redo_log st"
  shows "pmfs_new_transaction True n st =
    Some (Inr \<lparr>t_id = next_transaction_id st, num_entries = of_nat (Suc n), num_used = 0,
               t_gen_id = j_gen_id (hdr st), start_addr = t\<rparr>,
          exec [St (SHdr (HTail (of_nat (64 * (t + Suc n))))), Fl HdrLine]
            (st\<lparr>next_transaction_id := next_transaction_id st + 1\<rparr>))"
proof -
  have lim: "64 * N < 2 ^ 32" using unat_bound [of "jsize st"] js by simp
  have ut: "unat (of_nat (64 * t) :: u32) = 64 * t" using lim room by (intro unat_of_nat_less) simp
  let ?req = "push_bit 6 (of_nat (Suc n)) :: u32"
  have req: "?req = of_nat (64 * Suc n)" by (simp add: push_bit_eq_mult)
  have ureq: "unat ?req = 64 * Suc n" unfolding req using lim room by (intro unat_of_nat_less) simp
  have new: "of_nat (64 * t) + ?req = (of_nat (64 * (t + Suc n)) :: u32)"
    unfolding req by (simp only: of_nat_add [symmetric] distrib_left)
  have unew: "unat (of_nat (64 * (t + Suc n)) :: u32) = 64 * (t + Suc n)"
    using lim room by (intro unat_of_nat_less) simp
  have "unat (jsize st - LOGENTRY_SIZE) = 64 * N - 64"
    using js room by (subst unat_sub_le) (simp_all add: LOGENTRY_SIZE_def)
  then have avail: "\<not> jsize st - LOGENTRY_SIZE < ?req"
    using ureq room by (simp add: word_less_nat_alt)
  have wrap: "\<not> jsize st \<le> (of_nat (64 * (t + Suc n)) :: u32)"
    using unew js room by (simp add: word_le_nat_alt)
  have "slot (of_nat (64 * t)) = t" unfolding slot_def ut by simp
  then show ?thesis
    using h undo avail wrap
    by (simp add: pmfs_new_transaction_def Let_def alloc_again.simps [of "of_nat (64 * t)"] new
        primitive_exec del: of_nat_mult of_nat_Suc of_nat_add)
qed

end
