(* ===== verification/Pmfs_Recover.thy ===== *)
theory Pmfs_Recover
  imports Pmfs_Jnl_Run
begin

unbundle bit_operations_syntax

text \<open>
  What recovery does to a journal that holds the slots of one transaction: it finds the last valid slot,
  walks back to the first one, and undoes the valid entries from the last to the first unless the last
  valid slot is a commit or abort record.
\<close>

section \<open>Positions\<close>

lemma unat_pos:
  assumes "64 * i < 2 ^ 32"
  shows "unat (of_nat (64 * i) :: u32) = 64 * i"
  using assms by (intro unat_of_nat_less) simp

lemma pos_eq_iff:
  assumes "64 * i < 2 ^ 32" "64 * j < 2 ^ 32"
  shows "(of_nat (64 * i) :: u32) = of_nat (64 * j) \<longleftrightarrow> i = j"
  using unat_pos [OF assms(1)] unat_pos [OF assms(2)] by (metis mult_cancel1 numeral_eq_iff zero_neq_numeral)

lemma prev_pos:
  assumes "64 * Suc i < 2 ^ 32"
  shows "prev_log_entry jsz (of_nat (64 * Suc i)) = of_nat (64 * i)"
proof -
  have "(of_nat (64 * Suc i) :: u32) \<noteq> 0"
    using pos_eq_iff [of "Suc i" 0] assms by simp
  then show ?thesis by (simp add: prev_log_entry_def Let_def LOGENTRY_SIZE_def)
qed

lemma slot_pos: "64 * i < 2 ^ 32 \<Longrightarrow> slot (of_nat (64 * i)) = i"
  unfolding slot_def by (subst unat_pos) simp_all

text \<open>The two ways round the circular journal are inverse to each other.\<close>

lemma next_prev_gen_id: "g \<noteq> 0 \<Longrightarrow> next_gen_id (prev_gen_id g) = g"
  by (auto simp: next_gen_id_def prev_gen_id_def Let_def)

section \<open>The walk back\<close>

definition slot_done :: "jst \<Rightarrow> u16 \<Rightarrow> nat \<Rightarrow> bool" where
  "slot_done st g i \<longleftrightarrow> gen_id (ent st i) = g \<and>
     (has_flag (le_type (ent st i)) LE_COMMIT \<or> has_flag (le_type (ent st i)) LE_ABORT)"

definition slot_start :: "jst \<Rightarrow> u16 \<Rightarrow> nat \<Rightarrow> bool" where
  "slot_start st g i \<longleftrightarrow> gen_id (ent st i) = g \<and> has_flag (le_type (ent st i)) LE_START"

lemma recover_walk_to_start:
  "\<lbrakk>t \<le> i; 64 * i < 2 ^ 32; \<forall>j. t \<le> j \<and> j < i \<longrightarrow> \<not> slot_done st g j; \<forall>j. t < j \<and> j \<le> i \<longrightarrow> \<not> slot_start st g j\<rbrakk> \<Longrightarrow>
   recover_walk st g tid (of_nat (64 * t))
     \<lparr>w_tail = of_nat (64 * i), w_le = i, w_num = n, w_done = d, w_start = None, w_bug = False\<rparr> =
   Some \<lparr>w_tail = of_nat (64 * t), w_le = t, w_num = n + of_nat (Suc (i - t)), w_done = (d \<or> slot_done st g i),
     w_start = (if slot_start st g t then Some t else None), w_bug = False\<rparr>"
proof (induction "i - t" arbitrary: i n d)
  case 0
  then have "i = t" by simp
  then show ?case
    by (subst recover_walk.simps) (auto simp: Let_def slot_start_def slot_done_def)
next
  case (Suc m)
  then obtain i' where i: "i = Suc i'" and t: "t \<le> i'" "m = i' - t" by (cases i) auto
  have ns: "\<not> slot_start st g i" using Suc.prems(4) t i by simp
  have nd: "\<not> slot_done st g i'" using Suc.prems(3) t i by simp
  have ne: "(of_nat (64 * i) :: u32) \<noteq> 0" "(of_nat (64 * i) :: u32) \<noteq> of_nat (64 * t)"
    using pos_eq_iff [of i 0] pos_eq_iff [of i t] Suc.prems(2) i t(1) by simp_all
  have prev: "prev_log_entry (jsize st) (of_nat (64 * i)) = of_nat (64 * i')"
    using prev_pos Suc.prems(2) i by simp
  have "recover_walk st g tid (of_nat (64 * t))
     \<lparr>w_tail = of_nat (64 * i), w_le = i, w_num = n, w_done = d, w_start = None, w_bug = False\<rparr> =
    recover_walk st g tid (of_nat (64 * t))
     \<lparr>w_tail = of_nat (64 * i'), w_le = i', w_num = n + 1, w_done = (d \<or> slot_done st g i), w_start = None,
       w_bug = False\<rparr>"
  proof -
    have c: "(g = gen_id (ent st i) \<and> (has_flag (le_type (ent st i)) LE_COMMIT \<or> has_flag (le_type (ent st i)) LE_ABORT)) =
        slot_done st g i"
      "(g = gen_id (ent st i) \<and> has_flag (le_type (ent st i)) LE_START) = False"
      "(g = gen_id (ent st i') \<and> (has_flag (le_type (ent st i')) LE_COMMIT \<or> has_flag (le_type (ent st i')) LE_ABORT)) =
        False"
      using ns nd by (auto simp: slot_done_def slot_start_def)
    have im: "i - 1 = i'" using i by simp
    have w: "w_le (if b then x\<lparr>w_done := True\<rparr> else x) = w_le x" "w_tail (if b then x\<lparr>w_done := True\<rparr> else x) = w_tail x"
      for b and x :: walk by simp_all
    show ?thesis
      by (subst recover_walk.simps, unfold Let_def w)
        (simp only: walk.simps c ne prev im if_False simp_thms, cases "slot_done st g i", simp_all)
  qed
  also have "\<dots> = Some \<lparr>w_tail = of_nat (64 * t), w_le = t, w_num = n + 1 + of_nat (Suc (i' - t)),
     w_done = (d \<or> slot_done st g i \<or> slot_done st g i'),
     w_start = (if slot_start st g t then Some t else None), w_bug = False\<rparr>"
    using Suc.hyps(1) [OF t(2,1)] Suc.prems i by simp
  finally show ?case using nd t i by (simp add: Suc_diff_le algebra_simps)
qed

lemma recover_transaction_result:
  assumes "t \<le> v" "64 * v < 2 ^ 32" "gen_id (ent st v) = g" "g \<noteq> MAX_GEN_ID"
    and "\<forall>j. t \<le> j \<and> j < v \<longrightarrow> \<not> slot_done st g j" "\<forall>j. t < j \<and> j \<le> v \<longrightarrow> \<not> slot_start st g j"
  shows "pmfs_recover_transaction (of_nat (64 * t)) (of_nat (64 * v)) v st =
    Some (of_nat (64 * t),
      if slot_start st g t \<and> \<not> slot_done st g v
      then undo_slots g (rev [t..<t + unat (of_nat (Suc (v - t)) :: u16)]) st else st)"
  using assms(3,4) recover_walk_to_start [OF assms(1,2,5,6), of "transaction_id (ent st v)" 0 False]
  by (simp add: pmfs_recover_transaction_def Let_def pmfs_undo_transaction_def del: of_nat_mult of_nat_Suc)

section \<open>The loop over the journal\<close>

lemma recover_loop_skip:
  "\<lbrakk>64 * (t + n) < 2 ^ 32; m \<le> n; \<forall>i. t + m \<le> i \<and> i < t + n \<longrightarrow> gen_id (ent st i) \<noteq> g; g \<noteq> MAX_GEN_ID\<rbrakk> \<Longrightarrow>
   recover_undo_loop (of_nat (64 * t)) (of_nat (64 * (t + n))) g st =
   recover_undo_loop (of_nat (64 * t)) (of_nat (64 * (t + m))) g st"
proof (induction n)
  case 0
  then show ?case by simp
next
  case (Suc n)
  show ?case
  proof (cases "m = Suc n")
    case True
    then show ?thesis by simp
  next
    case False
    have s: "t + Suc n = Suc (t + n)" by simp
    have ne: "(of_nat (64 * Suc (t + n)) :: u32) \<noteq> 0" "(of_nat (64 * t) :: u32) \<noteq> of_nat (64 * Suc (t + n))"
      using pos_eq_iff [of "Suc (t + n)" 0] pos_eq_iff [of t "Suc (t + n)"] Suc.prems(1) by simp_all
    have inv: "g \<noteq> gen_id (ent st (t + n))" using Suc.prems(2) Suc.prems(3) [rule_format, of "t + n"] False by auto
    have sl: "slot (of_nat (64 * (t + n))) = t + n" using Suc.prems(1) by (intro slot_pos) simp
    have pr: "prev_log_entry (jsize st) (of_nat (64 * Suc (t + n))) = of_nat (64 * (t + n))"
      using Suc.prems(1) by (intro prev_pos) simp
    have "recover_undo_loop (of_nat (64 * t)) (of_nat (64 * Suc (t + n))) g st =
        recover_undo_loop (of_nat (64 * t)) (of_nat (64 * (t + n))) g st"
      using ne inv Suc.prems(4) by (subst recover_undo_loop.simps) (simp only: Let_def pr sl if_False simp_thms)
    with Suc.IH Suc.prems False show ?thesis unfolding s by simp
  qed
qed

lemma recover_loop_end:
  "recover_undo_loop (of_nat (64 * t)) (of_nat (64 * t)) g st = Some st"
  by (subst recover_undo_loop.simps) simp

text \<open>
  \<open>n\<close> slots from \<open>t\<close> on, the last valid one being \<open>v\<close>.
\<close>

lemma recover_loop_valid:
  assumes lim: "64 * (t + n) < 2 ^ 32" and v: "t \<le> v" "v < t + n" "gen_id (ent st v) = g"
    and last: "\<forall>i. v < i \<and> i < t + n \<longrightarrow> gen_id (ent st i) \<noteq> g" and g: "g \<noteq> MAX_GEN_ID"
    and one: "\<forall>j. t \<le> j \<and> j < v \<longrightarrow> \<not> slot_done st g j" "\<forall>j. t < j \<and> j \<le> v \<longrightarrow> \<not> slot_start st g j"
  shows "recover_undo_loop (of_nat (64 * t)) (of_nat (64 * (t + n))) g st =
    Some (if slot_start st g t \<and> \<not> slot_done st g v
          then undo_slots g (rev [t..<t + unat (of_nat (Suc (v - t)) :: u16)]) st else st)"
proof -
  have lv: "64 * Suc v < 2 ^ 32" "64 * v < 2 ^ 32" using lim v by simp_all
  have sv: "t + Suc (v - t) = Suc v" using v by simp
  have skip: "recover_undo_loop (of_nat (64 * t)) (of_nat (64 * (t + n))) g st =
      recover_undo_loop (of_nat (64 * t)) (of_nat (64 * Suc v)) g st"
    using recover_loop_skip [of t n "Suc (v - t)" st g] lim v last g unfolding sv by auto
  have ne: "(of_nat (64 * t) :: u32) \<noteq> of_nat (64 * Suc v)" "(of_nat (64 * Suc v) :: u32) \<noteq> 0"
    using pos_eq_iff [of t "Suc v"] pos_eq_iff [of "Suc v" 0] lv v by simp_all
  have "g = gen_id (ent st v)" using v(3) by simp
  then have "recover_undo_loop (of_nat (64 * t)) (of_nat (64 * Suc v)) g st =
      (case pmfs_recover_transaction (of_nat (64 * t)) (of_nat (64 * v)) v st of
         None \<Rightarrow> None | Some (tail2, st1) \<Rightarrow> recover_undo_loop (of_nat (64 * t)) tail2 g st1)"
    using ne by (subst recover_undo_loop.simps)
      (simp only: Let_def prev_pos [OF lv(1)] slot_pos [OF lv(2)] if_False if_True simp_thms)
  with skip recover_transaction_result [OF v(1) lv(2) v(3) g one] recover_loop_end show ?thesis
    by (simp only: option.case prod.case)
qed

lemma forward_journal_data:
  assumes "j_gen_id (hdr st) \<noteq> MAX_GEN_ID"
  shows "\<exists>st'. pmfs_forward_journal st = Some st' \<and> pdata (pm st') = pdata (pm st) \<and> pents (pm st') = pents (pm st) \<and>
     j_head (hdr st') = j_tail (hdr st) \<and> j_tail (hdr st') = j_tail (hdr st) \<and>
     j_gen_id (hdr st') = next_gen_id (j_gen_id (hdr st)) \<and> jfault st' = jfault st"
  using assms by (simp add: pmfs_forward_journal_def Let_def primitive_exec)

end
