(* ===== verification/Pmfs_Trace_Rules.thy ===== *)
theory Pmfs_Trace_Rules
  imports Pmfs_Recover
begin

unbundle bit_operations_syntax

text \<open>
  The rules that the events of a transaction have to follow for undo logging to be crash safe, and the proof
  that they are enough: after a crash at any event and with any choice of surviving stores, recovery gives
  the data from before the transaction or the data of the complete transaction.
\<close>

section \<open>Rules\<close>

definition slot_stores :: "nat \<Rightarrow> event list \<Rightarrow> pstore list" where
  "slot_stores i F = on_line (EntLine i) (stores F)"

definition slot_durable :: "nat \<Rightarrow> event list \<Rightarrow> event list \<Rightarrow> bool" where
  "slot_durable i E F \<longleftrightarrow> slot_stores i E = slot_stores i F \<and> guar (EntLine i) E = length (slot_stores i F)"

definition fent :: "pmem \<Rightarrow> event list \<Rightarrow> nat \<Rightarrow> pmfs_logentry_t" where
  "fent P F i = pents (apply_stores (stores F) P) i"

text \<open>
  Slots \<open>t\<close> to \<open>t + c - 1\<close> hold data, slot \<open>t + c\<close> the commit record; \<open>g\<close> is the generation and \<open>nt\<close> the new
  tail.
\<close>

definition hdr_rule :: "event list \<Rightarrow> u32 \<Rightarrow> bool" where
  "hdr_rule F nt \<longleftrightarrow> on_line HdrLine (stores F) = [SHdr (HTail nt)]"

definition log_before_write :: "pmem \<Rightarrow> event list \<Rightarrow> nat \<Rightarrow> nat \<Rightarrow> bool" where
  "log_before_write P F t c \<longleftrightarrow>
     (\<forall>E1 a v E2. F = E1 @ St (SData a v) # E2 \<longrightarrow>
        slot_durable t E1 F \<and> guar HdrLine E1 = 1 \<and>
        (\<exists>i. t \<le> i \<and> i < t + c \<and> ent_covers (fent P F i) a \<and> slot_durable i E1 F))"

definition gen_last :: "event list \<Rightarrow> nat \<Rightarrow> nat \<Rightarrow> u16 \<Rightarrow> bool" where
  "gen_last F t c g \<longleftrightarrow>
     (\<forall>i. t \<le> i \<and> i \<le> t + c \<longrightarrow>
        (\<exists>pre. slot_stores i F = map (SEnt i) (pre @ [SGen g]) \<and> (\<forall>x. SGen x \<notin> set pre))) \<and>
     (\<forall>i. i < t \<or> t + c < i \<longrightarrow> slot_stores i F = [])"

definition first_is_old :: "pmem \<Rightarrow> event list \<Rightarrow> nat \<Rightarrow> nat \<Rightarrow> u16 \<Rightarrow> bool" where
  "first_is_old P F t c g \<longleftrightarrow>
     (\<forall>i a. t \<le> i \<and> i < t + c \<and> ent_covers (fent P F i) a \<and> ent_saved (fent P F i) a \<noteq> pdata P a \<longrightarrow>
        (\<exists>j. t \<le> j \<and> j < i \<and> ent_covers (fent P F j) a \<and>
           (\<forall>E1 E2. F = E1 @ St (SEnt i (SGen g)) # E2 \<longrightarrow> slot_durable j E1 F)))"

definition data_before_commit :: "event list \<Rightarrow> nat \<Rightarrow> u16 \<Rightarrow> bool" where
  "data_before_commit F i g \<longleftrightarrow>
     (\<forall>E1 E2. F = E1 @ St (SEnt i (SGen g)) # E2 \<longrightarrow>
        (\<forall>l. guar (DataLine l) E1 = length (on_line (DataLine l) (stores F))))"

definition entry_types :: "pmem \<Rightarrow> event list \<Rightarrow> nat \<Rightarrow> nat \<Rightarrow> bool" where
  "entry_types P F t c \<longleftrightarrow> 0 < c \<and>
     (\<forall>i. t \<le> i \<and> i < t + c \<longrightarrow> le_type (fent P F i) = (if i = t then LE_START else LE_DATA) \<and>
        addr_offset (fent P F i) \<noteq> 0) \<and>
     le_type (fent P F (t + c)) = LE_COMMIT \<and> le_size (fent P F (t + c)) = 0"

lemmas trace_rule_defs =
  hdr_rule_def log_before_write_def gen_last_def first_is_old_def data_before_commit_def entry_types_def

definition trace_ok :: "pmem \<Rightarrow> event list \<Rightarrow> nat \<Rightarrow> nat \<Rightarrow> u16 \<Rightarrow> u32 \<Rightarrow> bool" where
  "trace_ok P F t c g nt \<longleftrightarrow>
     hdr_rule F nt \<and> log_before_write P F t c \<and> gen_last F t c g \<and> first_is_old P F t c g \<and>
     data_before_commit F (t + c) g \<and> entry_types P F t c"

section \<open>Slots after a crash\<close>

lemma gen_after_prefix: "(\<forall>x. SGen x \<notin> set pre) \<Longrightarrow> gen_id (fold app_ent pre le) = gen_id le"
proof (induction pre arbitrary: le)
  case Nil
  then show ?case by simp
next
  case (Cons e pre)
  then show ?case by (cases e) auto
qed

lemma fent_eq: "fent P F i = pents (apply_stores (slot_stores i F) P) i"
  unfolding fent_def slot_stores_def by (rule ent_on_line)

lemma pents_map_SEnt: "pents (apply_stores (map (SEnt i) es) P) i = fold app_ent es (pents P i)"
  by (simp add: apply_ent_stores)

lemma fent_gen:
  assumes "gen_last F t c g" "t \<le> i" "i \<le> t + c"
  shows "gen_id (fent P F i) = g"
proof -
  from assms obtain pre where "slot_stores i F = map (SEnt i) (pre @ [SGen g])" by (auto simp: gen_last_def)
  then show ?thesis unfolding fent_eq by (simp only: pents_map_SEnt) simp
qed

lemma valid_slot_complete:
  assumes F: "F = E @ R" and gl: "gen_last F t c g" and i: "t \<le> i" "i \<le> t + c"
    and p0: "gen_id (pents P i) \<noteq> g" and v: "gen_id (pents (crash_image k E P) i) = g"
  shows "pents (crash_image k E P) i = fent P F i" "St (SEnt i (SGen g)) \<in> set E"
proof -
  from gl i obtain pre where pre: "slot_stores i F = map (SEnt i) (pre @ [SGen g])" "\<forall>x. SGen x \<notin> set pre"
    by (auto simp: gen_last_def)
  define n where "n = min (k (EntLine i)) (length (slot_stores i E))"
  have app: "slot_stores i F = slot_stores i E @ slot_stores i R" by (simp add: F slot_stores_def)
  have take: "take (k (EntLine i)) (slot_stores i E) = take n (slot_stores i F)"
    unfolding app n_def by (simp add: min_def)
  have img: "pents (crash_image k E P) i = fold app_ent (take n (pre @ [SGen g])) (pents P i)"
    unfolding crash_ent slot_stores_def [symmetric] take pre(1) take_map by (rule pents_map_SEnt)
  have n: "length pre < n"
  proof (rule ccontr)
    assume "\<not> length pre < n"
    then have "take n (pre @ [SGen g]) = take n pre" by simp
    moreover have "\<forall>x. SGen x \<notin> set (take n pre)" using pre(2) by (meson in_set_takeD)
    ultimately have "gen_id (pents (crash_image k E P) i) = gen_id (pents P i)"
      unfolding img by (simp add: gen_after_prefix)
    with v p0 show False by simp
  qed
  then show "pents (crash_image k E P) i = fent P F i"
    unfolding img fent_eq pre(1) pents_map_SEnt by simp
  have "length (slot_stores i F) = Suc (length pre)" using pre(1) by simp
  with n app have "slot_stores i R = []" unfolding n_def by (cases "slot_stores i R") auto
  with app pre(1) have "slot_stores i E = map (SEnt i) (pre @ [SGen g])" by simp
  then have "SEnt i (SGen g) \<in> set (slot_stores i E)" by simp
  then show "St (SEnt i (SGen g)) \<in> set E" by (simp add: slot_stores_def in_stores)
qed

lemma durable_slot_survives:
  assumes F: "F = E @ R" and E: "E = E1 @ E2" and d: "slot_durable i E1 F" and k: "crash_choice k E"
  shows "pents (crash_image k E P) i = fent P F i"
proof -
  have "slot_stores i F = slot_stores i E1 @ slot_stores i E2 @ slot_stores i R"
    by (simp add: F E slot_stores_def)
  with d have "slot_stores i E2 = []" "slot_stores i R = []" by (auto simp: slot_durable_def)
  then have full: "slot_stores i E = slot_stores i F" by (simp add: F E slot_stores_def)
  have "length (slot_stores i F) \<le> guar (EntLine i) E"
    using d guar_mono [of "EntLine i" E1 E2] by (simp add: slot_durable_def E)
  also have "\<dots> \<le> k (EntLine i)" using k by (simp add: crash_choice_def)
  finally have "take (k (EntLine i)) (slot_stores i E) = slot_stores i F" using full by simp
  then show ?thesis unfolding crash_ent fent_eq slot_stores_def [symmetric] by simp
qed

lemma untouched_slot:
  assumes "F = E @ R" "slot_stores i F = []"
  shows "pents (crash_image k E P) i = pents P i"
proof -
  have "slot_stores i E = []" using assms by (simp add: slot_stores_def)
  then show ?thesis unfolding crash_ent slot_stores_def [symmetric] by simp
qed

section \<open>Data and header after a crash\<close>

lemma data_unwritten:
  assumes "\<And>v. SData a v \<notin> set ss"
  shows "pdata (apply_stores ss P) a = pdata P a"
  using assms
proof (induction ss arbitrary: P)
  case Nil
  then show ?case by simp
next
  case (Cons s ss)
  then show ?case by (cases s) auto
qed

lemma crash_data_unwritten:
  assumes "\<And>v. St (SData a v) \<notin> set E"
  shows "pdata (crash_image k E P) a = pdata P a"
proof -
  have "SData a v \<notin> set (take n (on_line l (stores E)))" for v n l
    using assms [of v] by (auto simp: in_stores [symmetric] dest: in_set_takeD)
  then show ?thesis unfolding crash_data by (intro data_unwritten) blast
qed

lemma crash_data_complete:
  assumes F: "F = E @ R" and E: "E = E1 @ E2" and k: "crash_choice k E"
    and d: "guar (DataLine (a div 64)) E1 = length (on_line (DataLine (a div 64)) (stores F))"
  shows "pdata (crash_image k E P) a = pdata (apply_stores (stores F) P) a"
proof -
  let ?l = "DataLine (a div 64)"
  have "length (on_line ?l (stores F)) \<le> length (on_line ?l (stores E1))"
    using d guar_le [of ?l E1] by simp
  then have "on_line ?l (stores E2) = []" "on_line ?l (stores R) = []" by (simp_all add: F E)
  then have full: "on_line ?l (stores E) = on_line ?l (stores F)" by (simp add: F E)
  have "length (on_line ?l (stores F)) \<le> guar ?l E" using d guar_mono [of ?l E1 E2] by (simp add: E)
  also have "\<dots> \<le> k ?l" using k by (simp add: crash_choice_def)
  finally have "take (k ?l) (on_line ?l (stores E)) = on_line ?l (stores F)" using full by simp
  then show ?thesis unfolding crash_data data_on_line [of "stores F"] by simp
qed

lemma crash_hdr_cases:
  assumes F: "F = E @ R" and h: "hdr_rule F nt"
  shows "phdr (crash_image k E P) = phdr P \<or> phdr (crash_image k E P) = (phdr P)\<lparr>j_tail := nt\<rparr>"
proof -
  have "on_line HdrLine (stores E) @ on_line HdrLine (stores R) = [SHdr (HTail nt)]"
    using h by (simp add: hdr_rule_def F)
  then have "on_line HdrLine (stores E) = [] \<or> on_line HdrLine (stores E) = [SHdr (HTail nt)]"
    by (auto simp: append_eq_Cons_conv)
  then show ?thesis unfolding crash_hdr by (cases "k HdrLine") auto
qed

lemma crash_hdr_durable:
  assumes F: "F = E @ R" and E: "E = E1 @ E2" and h: "hdr_rule F nt" and k: "crash_choice k E" and g: "guar HdrLine E1 = 1"
  shows "phdr (crash_image k E P) = (phdr P)\<lparr>j_tail := nt\<rparr>"
proof -
  have "1 \<le> guar HdrLine E" using g guar_mono [of HdrLine E1 E2] by (simp add: E)
  then have "1 \<le> k HdrLine" using k by (auto simp: crash_choice_def intro: order_trans)
  moreover have "on_line HdrLine (stores E) @ on_line HdrLine (stores R) = [SHdr (HTail nt)]"
    using h by (simp add: hdr_rule_def F)
  moreover have "on_line HdrLine (stores E) \<noteq> []"
    using \<open>1 \<le> guar HdrLine E\<close> guar_le [of HdrLine E] by auto
  ultimately have "on_line HdrLine (stores E) = [SHdr (HTail nt)]" "k HdrLine \<noteq> 0"
    by (auto simp: append_eq_Cons_conv)
  then show ?thesis unfolding crash_hdr by (cases "k HdrLine") auto
qed

section \<open>Recovery after a crash\<close>

lemma find_first_slot:
  "find Q (map f (filter V [t..<n])) = Some e \<Longrightarrow>
   \<exists>i. t \<le> i \<and> i < n \<and> V i \<and> e = f i \<and> Q (f i) \<and> (\<forall>j. t \<le> j \<and> j < i \<and> V j \<longrightarrow> \<not> Q (f j))"
proof (induction "n - t" arbitrary: t)
  case 0
  then show ?case by simp
next
  case (Suc m)
  then have u: "[t..<n] = t # [Suc t..<n]" by (simp add: upt_conv_Cons)
  show ?case
  proof (cases "V t \<and> Q (f t)")
    case True
    with Suc.prems Suc.hyps(2) show ?thesis unfolding u by (intro exI [of _ t]) auto
  next
    case False
    then have "find Q (map f (filter V [Suc t..<n])) = Some e"
      using Suc.prems unfolding u by (auto split: if_splits)
    with Suc.hyps obtain i where i: "Suc t \<le> i" "i < n" "V i" "e = f i" "Q (f i)"
      "\<forall>j. Suc t \<le> j \<and> j < i \<and> V j \<longrightarrow> \<not> Q (f j)" by (metis Suc_diff_Suc diff_Suc_Suc Suc_inject zero_less_Suc zero_less_diff)
    have "\<not> Q (f j)" if "t \<le> j" "j < i" "V j" for j
      using that False i(6) [rule_format, of j] by (cases "j = t") auto
    with i(1-5) show ?thesis by (intro exI [of _ i]) auto
  qed
qed

text \<open>The situation at the crash: \<open>M\<close> slots were reserved from \<open>t\<close> on in an empty journal.\<close>

definition crash_setup ::
    "pmem \<Rightarrow> event list \<Rightarrow> event list \<Rightarrow> (line \<Rightarrow> nat) \<Rightarrow> nat \<Rightarrow> nat \<Rightarrow> nat \<Rightarrow> u16 \<Rightarrow> jst \<Rightarrow> bool" where
  "crash_setup P E R k t c M g st \<longleftrightarrow>
     trace_ok P (E @ R) t c g (of_nat (64 * (t + M))) \<and> crash_choice k E \<and>
     c < M \<and> 64 * (t + M) < 2 ^ 32 \<and> Suc c < 2 ^ 16 \<and> g \<noteq> MAX_GEN_ID \<and>
     j_head (phdr P) = of_nat (64 * t) \<and> j_tail (phdr P) = of_nat (64 * t) \<and> j_gen_id (phdr P) = g \<and>
     (\<forall>i. t \<le> i \<and> i < t + M \<longrightarrow> gen_id (pents P i) \<noteq> g) \<and>
     pm st = crash_image k E P \<and> \<not> redo_log st"

lemma setup_slots:
  assumes s: "crash_setup P E R k t c M g st" and i: "t \<le> i" "i < t + M" "gen_id (ent st i) = g"
  shows "i \<le> t + c" "ent st i = fent P (E @ R) i" "St (SEnt i (SGen g)) \<in> set E"
proof -
  from s have gl: "gen_last (E @ R) t c g" and p0: "gen_id (pents P i) \<noteq> g" and pm: "pm st = crash_image k E P"
    using i by (auto simp: crash_setup_def trace_ok_def)
  show le: "i \<le> t + c"
  proof (rule ccontr)
    assume "\<not> i \<le> t + c"
    then have "slot_stores i (E @ R) = []" using gl by (auto simp: gen_last_def)
    with untouched_slot [OF refl this, of k P] pm p0 i(3) show False by simp
  qed
  from valid_slot_complete [OF refl gl i(1) le p0, of k] pm i(3)
  show "ent st i = fent P (E @ R) i" "St (SEnt i (SGen g)) \<in> set E" by simp_all
qed

lemma setup_durable:
  assumes s: "crash_setup P E R k t c M g st" and E: "E = E1 @ E2" and d: "slot_durable i E1 (E @ R)"
    and i: "t \<le> i" "i \<le> t + c"
  shows "ent st i = fent P (E @ R) i" "gen_id (ent st i) = g"
proof -
  from s have gl: "gen_last (E @ R) t c g" and pm: "pm st = crash_image k E P" and k: "crash_choice k E"
    by (auto simp: crash_setup_def trace_ok_def)
  from durable_slot_survives [OF refl E d k] pm show e: "ent st i = fent P (E @ R) i" by simp
  with fent_gen [OF gl i] show "gen_id (ent st i) = g" by simp
qed

lemma setup_written:
  assumes s: "crash_setup P E R k t c M g st" and w: "St (SData a v) \<in> set E"
  shows "gen_id (ent st t) = g" "hdr st = (phdr P)\<lparr>j_tail := of_nat (64 * (t + M))\<rparr>"
    "\<exists>i. t \<le> i \<and> i < t + c \<and> gen_id (ent st i) = g \<and> ent_covers (ent st i) a"
proof -
  from w obtain E1 E2 where E: "E = E1 @ St (SData a v) # E2" by (meson split_list)
  then have "E @ R = E1 @ St (SData a v) # (E2 @ R)" by simp
  with s obtain i where d: "slot_durable t E1 (E @ R)" "guar HdrLine E1 = 1" "t \<le> i" "i < t + c"
      "ent_covers (fent P (E @ R) i) a" "slot_durable i E1 (E @ R)"
    by (simp only: crash_setup_def trace_ok_def log_before_write_def) blast
  note sd = setup_durable [OF s E]
  show "gen_id (ent st t) = g" using sd(2) [OF d(1)] by simp
  show "\<exists>i. t \<le> i \<and> i < t + c \<and> gen_id (ent st i) = g \<and> ent_covers (ent st i) a"
    using sd [OF d(6)] d(3,4,5) by (intro exI [of _ i]) simp
  from s have "hdr_rule (E @ R) (of_nat (64 * (t + M)))" "crash_choice k E" "pm st = crash_image k E P"
    by (simp_all add: crash_setup_def trace_ok_def)
  with crash_hdr_durable [OF refl E _ _ d(2)] show "hdr st = (phdr P)\<lparr>j_tail := of_nat (64 * (t + M))\<rparr>" by simp
qed

lemma setup_unwritten:
  assumes s: "crash_setup P E R k t c M g st" and "\<And>v. St (SData a v) \<notin> set E"
  shows "pdata (pm st) a = pdata P a"
  using s crash_data_unwritten [OF assms(2)] by (simp add: crash_setup_def)

lemma setup_committed:
  assumes s: "crash_setup P E R k t c M g st" and w: "St (SEnt (t + c) (SGen g)) \<in> set E"
  shows "pdata (pm st) = pdata (apply_stores (stores (E @ R)) P)"
proof
  fix a
  from w obtain E1 E2 where E: "E = E1 @ St (SEnt (t + c) (SGen g)) # E2" by (meson split_list)
  then have "E @ R = E1 @ St (SEnt (t + c) (SGen g)) # (E2 @ R)" by simp
  with s have "guar (DataLine (a div 64)) E1 = length (on_line (DataLine (a div 64)) (stores (E @ R)))"
    by (simp only: crash_setup_def trace_ok_def data_before_commit_def)
  from crash_data_complete [OF refl E _ this] s
  show "pdata (pm st) a = pdata (apply_stores (stores (E @ R)) P) a" by (simp add: crash_setup_def)
qed

lemma setup_types:
  assumes s: "crash_setup P E R k t c M g st" and i: "t \<le> i" "i < t + M" "gen_id (ent st i) = g"
  shows "slot_done st g i \<longleftrightarrow> i = t + c" "slot_start st g i \<longleftrightarrow> i = t"
    "addr_offset (ent st i) \<noteq> 0 \<or> le_size (ent st i) = 0"
proof -
  from s have ty: "entry_types P (E @ R) t c" by (simp add: crash_setup_def trace_ok_def)
  note e = setup_slots [OF s i]
  have c: "0 < c" using ty by (simp add: entry_types_def)
  have "i < t + c \<or> i = t + c" using e(1) by auto
  then have le: "le_type (ent st i) = (if i = t + c then LE_COMMIT else if i = t then LE_START else LE_DATA) \<and>
      (addr_offset (ent st i) \<noteq> 0 \<or> le_size (ent st i) = 0)"
    unfolding e(2) using ty i(1) by (auto simp: entry_types_def)
  then show "addr_offset (ent st i) \<noteq> 0 \<or> le_size (ent st i) = 0" by simp
  show "slot_done st g i \<longleftrightarrow> i = t + c" "slot_start st g i \<longleftrightarrow> i = t"
    using le c i(3) by (simp_all add: slot_done_def slot_start_def)
qed

text \<open>Undoing the valid slots of an uncommitted transaction restores the old data.\<close>

lemma setup_undo_restores:
  assumes s: "crash_setup P E R k t c M g st" and v: "t \<le> v" "v < t + c" "gen_id (ent st v) = g"
    and last: "\<forall>i. v < i \<and> i < t + M \<longrightarrow> gen_id (ent st i) \<noteq> g" and start: "gen_id (ent st t) = g"
  shows "pdata (pm (undo_slots g (rev [t..<Suc v]) st)) = pdata P"
proof -
  let ?V = "\<lambda>i. gen_id (ent st i) = g"
  let ?es = "map (ent st) (filter ?V [t..<Suc v])"
  from s have M: "c < M" and fo: "first_is_old P (E @ R) t c g" by (simp_all add: crash_setup_def trace_ok_def)
  have "pm (undo_slots g (rev [t..<Suc v]) st) = pm (fold undo_entry (rev ?es) st)"
    using setup_types(3) [OF s] v M by (subst undo_slots_pm) (auto simp: rev_map rev_filter [symmetric])
  then have eq: "pdata (pm (undo_slots g (rev [t..<Suc v]) st)) = pdata (pm (pmfs_undo.undo_all ?es st))"
    by (simp add: pmfs_undo.undo_all_def)
  show ?thesis unfolding eq
  proof (rule pmfs_undo.undo_all_restores)
    fix a e
    assume "find (\<lambda>e. ent_covers e a) ?es = Some e"
    from find_first_slot [OF this] obtain i where i: "t \<le> i" "i < Suc v" "?V i" "e = ent st i" "ent_covers (ent st i) a"
      and first: "\<forall>j. t \<le> j \<and> j < i \<and> ?V j \<longrightarrow> \<not> ent_covers (ent st j) a" by auto
    have lt: "i < t + M" "i < t + c" using i(2) v M by simp_all
    note e = setup_slots [OF s i(1) lt(1) i(3)]
    show "ent_saved e a = pdata P a"
    proof (rule ccontr)
      assume "ent_saved e a \<noteq> pdata P a"
      with fo i lt e(2) obtain j where j: "t \<le> j" "j < i" "ent_covers (fent P (E @ R) j) a"
        and dur: "\<forall>E1 E2. E @ R = E1 @ St (SEnt i (SGen g)) # E2 \<longrightarrow> slot_durable j E1 (E @ R)"
        unfolding first_is_old_def by metis
      from e(3) obtain E1 E2 where E: "E = E1 @ St (SEnt i (SGen g)) # E2" by (meson split_list)
      with dur have "slot_durable j E1 (E @ R)" by simp
      from setup_durable [OF s E this j(1)] j lt first show False by auto
    qed
  next
    fix a
    assume no: "\<forall>e \<in> set ?es. \<not> ent_covers e a"
    have "St (SData a x) \<notin> set E" for x
    proof
      assume "St (SData a x) \<in> set E"
      from setup_written(3) [OF s this] obtain i where i: "t \<le> i" "i < t + c" "?V i" "ent_covers (ent st i) a" by blast
      then have "i \<le> v" using last [rule_format, of i] M by (cases "i \<le> v") simp_all
      with i have "ent st i \<in> set ?es" unfolding set_map set_filter by (intro imageI) auto
      with i(4) no show False by blast
    qed
    then show "pdata (pm st) a = pdata P a" by (rule setup_unwritten [OF s])
  qed
qed

lemma last_valid_slot:
  assumes "t \<le> i" "i < (n :: nat)" "V i"
  obtains v where "t \<le> v" "v < n" "V v" "\<forall>j. v < j \<and> j < n \<longrightarrow> \<not> V j"
proof -
  define v where "v = Max {j. t \<le> j \<and> j < n \<and> V j}"
  have ne: "{j. t \<le> j \<and> j < n \<and> V j} \<noteq> {}" using assms by blast
  have "v \<in> {j. t \<le> j \<and> j < n \<and> V j}" unfolding v_def using ne by (intro Max_in) auto
  moreover have "\<not> V j" if "v < j" "j < n" for j
  proof
    assume "V j"
    with that calculation have "j \<in> {j. t \<le> j \<and> j < n \<and> V j}" by auto
    then have "j \<le> v" unfolding v_def by (intro Max_ge) auto
    with that show False by simp
  qed
  ultimately show thesis using that by auto
qed

text \<open>The state of the data when the loop over the journal ends.\<close>

lemma recover_loop_data:
  assumes s: "crash_setup P E R k t c M g st"
  shows "\<exists>st1. recover_undo_loop (of_nat (64 * t)) (of_nat (64 * (t + M))) g st = Some st1 \<and> hdr st1 = hdr st \<and>
     (pdata (pm st1) = pdata P \<or>
      St (SEnt (t + c) (SGen g)) \<in> set E \<and> pdata (pm st1) = pdata (apply_stores (stores (E @ R)) P)) \<and>
     (gen_id (ent st (t + c)) = g \<longrightarrow> pdata (pm st1) = pdata (apply_stores (stores (E @ R)) P))"
proof -
  from s have M: "c < M" "64 * (t + M) < 2 ^ 32" "Suc c < 2 ^ 16" "g \<noteq> MAX_GEN_ID" by (simp_all add: crash_setup_def)
  have nostart: "pdata (pm st) = pdata P" if "gen_id (ent st t) \<noteq> g"
    using setup_unwritten [OF s] setup_written(1) [OF s] that by blast
  show ?thesis
  proof (cases "\<exists>i. t \<le> i \<and> i < t + M \<and> gen_id (ent st i) = g")
    case False
    then have "recover_undo_loop (of_nat (64 * t)) (of_nat (64 * (t + M))) g st = Some st"
      using recover_loop_skip [of t M 0 st g] recover_loop_end [of t g st] M by simp
    with nostart False M show ?thesis by auto
  next
    case True
    then obtain i where i: "t \<le> i" "i < t + M" "gen_id (ent st i) = g" by blast
    obtain v where v: "t \<le> v" "v < t + M" "gen_id (ent st v) = g"
      "\<forall>j. v < j \<and> j < t + M \<longrightarrow> gen_id (ent st j) \<noteq> g"
      by (rule last_valid_slot [where V = "\<lambda>j. gen_id (ent st j) = g", OF i])
    note vs = setup_slots [OF s v(1-3)]
    have no_done: "\<not> slot_done st g j" if "t \<le> j" "j < v" for j
    proof
      assume d: "slot_done st g j"
      then have "gen_id (ent st j) = g" by (simp add: slot_done_def)
      from setup_types(1) [OF s that(1) _ this] d that vs(1) v(2) show False by linarith
    qed
    have no_start: "\<not> slot_start st g j" if "t < j" "j \<le> v" for j
    proof
      assume d: "slot_start st g j"
      then have "gen_id (ent st j) = g" by (simp add: slot_start_def)
      from setup_types(2) [OF s _ _ this] d that v(2) show False by linarith
    qed
    have one: "\<forall>j. t \<le> j \<and> j < v \<longrightarrow> \<not> slot_done st g j" "\<forall>j. t < j \<and> j \<le> v \<longrightarrow> \<not> slot_start st g j"
      using no_done no_start by blast+
    have u16: "unat (of_nat (Suc (v - t)) :: u16) = Suc (v - t)"
      using vs(1) M(3) by (intro unat_of_nat_less) simp
    have range: "t + Suc (v - t) = Suc v" using v(1) by simp
    have run: "recover_undo_loop (of_nat (64 * t)) (of_nat (64 * (t + M))) g st =
      Some (if slot_start st g t \<and> \<not> slot_done st g v then undo_slots g (rev [t..<Suc v]) st else st)"
      using recover_loop_valid [OF M(2) v(1-4) M(4) one] unfolding u16 range .
    have st: "slot_start st g t \<longleftrightarrow> gen_id (ent st t) = g"
      using setup_types(2) [OF s, of t] M(1) by (auto simp: slot_start_def)
    show ?thesis
    proof (cases "v = t + c")
      case True
      with run setup_types(1) [OF s v(1-3)] setup_committed [OF s] vs(3) show ?thesis by simp
    next
      case False
      with vs(1) have lt: "v < t + c" by simp
      then have nc: "gen_id (ent st (t + c)) \<noteq> g" using v(4) M(1) by auto
      have nd: "\<not> slot_done st g v" using setup_types(1) [OF s v(1-3)] False by simp
      show ?thesis
      proof (cases "gen_id (ent st t) = g")
        case True
        have "hdr (undo_slots g (rev [t..<Suc v]) st) = hdr st"
          using setup_types(3) [OF s] v M lt by (subst undo_slots_pm) auto
        with run st nd nc True setup_undo_restores [OF s v(1) lt v(3,4) True] show ?thesis
          by (simp del: upt_Suc)
      next
        case False
        with run st nc nostart show ?thesis by simp
      qed
    qed
  qed
qed

text \<open>
  Crash safety of any run that follows the rules.
\<close>

lemma rules_crash_atomic:
  assumes s: "crash_setup P E R k t c M g st"
  shows "\<exists>st'. pmfs_recover_journal st = Some st' \<and>
     (pdata (pm st') = pdata P \<or>
      St (SEnt (t + c) (SGen g)) \<in> set E \<and> pdata (pm st') = pdata (apply_stores (stores (E @ R)) P)) \<and>
     (slot_durable (t + c) E (E @ R) \<longrightarrow> pdata (pm st') = pdata (apply_stores (stores (E @ R)) P))"
proof -
  from s have M: "c < M" "64 * (t + M) < 2 ^ 32" "g \<noteq> MAX_GEN_ID"
    and h: "j_head (phdr P) = of_nat (64 * t)" "j_tail (phdr P) = of_nat (64 * t)" "j_gen_id (phdr P) = g"
    and pm: "pm st = crash_image k E P" "\<not> redo_log st"
    and hr: "hdr_rule (E @ R) (of_nat (64 * (t + M)))" by (simp_all add: crash_setup_def trace_ok_def)
  have ne: "(of_nat (64 * t) :: u32) \<noteq> of_nat (64 * (t + M))"
    using pos_eq_iff [of t "t + M"] M by simp
  have dur: "gen_id (ent st (t + c)) = g" if "slot_durable (t + c) E (E @ R)"
    using setup_durable(2) [OF s, of E "[]" "t + c"] that by simp
  from crash_hdr_cases [OF refl hr, of k P] pm(1) consider
    (old) "hdr st = phdr P" | (new) "hdr st = (phdr P)\<lparr>j_tail := of_nat (64 * (t + M))\<rparr>" by auto
  then show ?thesis
  proof cases
    case old
    then have run: "pmfs_recover_journal st = Some st" using h by (simp add: pmfs_recover_journal_def)
    have "St (SData a x) \<notin> set E" for a x
    proof
      assume "St (SData a x) \<in> set E"
      from setup_written(2) [OF s this] old have "j_tail (phdr P) = of_nat (64 * (t + M))"
        by (metis pmfs_journal_t.select_convs(4) pmfs_journal_t.surjective pmfs_journal_t.update_convs(4))
      with h ne show False by simp
    qed
    then have "pdata (pm st) = pdata P" using setup_unwritten [OF s] by blast
    moreover have "pdata (pm st) = pdata (apply_stores (stores (E @ R)) P)" if "gen_id (ent st (t + c)) = g"
      using setup_slots(3) [OF s _ _ that] M(1) setup_committed [OF s] by simp
    ultimately show ?thesis using run dur by auto
  next
    case new
    from recover_loop_data [OF s] obtain st1 where st1:
      "recover_undo_loop (of_nat (64 * t)) (of_nat (64 * (t + M))) g st = Some st1" "hdr st1 = hdr st"
      "pdata (pm st1) = pdata P \<or>
        St (SEnt (t + c) (SGen g)) \<in> set E \<and> pdata (pm st1) = pdata (apply_stores (stores (E @ R)) P)"
      "gen_id (ent st (t + c)) = g \<longrightarrow> pdata (pm st1) = pdata (apply_stores (stores (E @ R)) P)" by blast
    have "j_gen_id (hdr st1) \<noteq> MAX_GEN_ID" using st1(2) new h M(3) by simp
    from forward_journal_data [OF this] obtain st2 where st2: "pmfs_forward_journal st1 = Some st2"
      "pdata (pm st2) = pdata (pm st1)" by blast
    have "pmfs_recover_journal st = Some (PERSISTENT_BARRIER st2)"
      using new h ne pm(2) st1(1) st2(1)
      by (simp add: pmfs_recover_journal_def pmfs_recover_undo_journal_def del: of_nat_mult of_nat_add)
    with st1(3,4) st2(2) dur show ?thesis by (simp add: primitive_exec)
  qed
qed

end
