(* ===== verification/Pmfs_Entries.thy ===== *)
theory Pmfs_Entries
  imports Pmfs_Trace_Rules
begin

unbundle bit_operations_syntax

text \<open>
  What the events of \<^verbatim>\<open>pmfs_add_logentry\<close> write: the slots, the bytes they save, and that every slot is
  durable after the closing barrier.
\<close>

section \<open>One entry\<close>

lemma fold_bytes_data:
  "n \<le> length (le_data le) \<Longrightarrow>
   fold app_ent (map (\<lambda>j. SByte j (vs j)) [0..<n]) le = le\<lparr>le_data := map vs [0..<n] @ drop n (le_data le)\<rparr>"
proof (induction n)
  case 0
  then show ?case by simp
next
  case (Suc n)
  then have "drop n (le_data le) = le_data le ! n # drop (Suc n) (le_data le)"
    by (simp add: Cons_nth_drop_Suc)
  with Suc show ?case by (simp add: list_update_append)
qed

lemma ent_stores_result:
  assumes "n \<le> length (le_data le)" "n < 256"
    and e_def: "e = fold app_ent (ent_stores off tid n vs ty first @ [SGen g]) le"
  shows "addr_offset e = off" "le_type e = (if first then ty OR LE_START else ty)" "le_size e = of_nat n"
    "ent_bytes e = map vs [0..<n]"
proof -
  show "addr_offset e = off" "le_type e = (if first then ty OR LE_START else ty)" "le_size e = of_nat n"
    using assms(1) by (simp_all add: e_def ent_stores_def fold_bytes_data)
  have "unat (of_nat n :: u8) = n" using assms(2) by (intro unat_of_nat_less) simp
  then show "ent_bytes e = map vs [0..<n]"
    using assms(1) by (simp add: e_def ent_stores_def fold_bytes_data ent_bytes_def)
qed

lemma ent_stores_no_gen [simp]: "SGen x \<notin> set (ent_stores off tid n vs ty first)"
  by (auto simp: ent_stores_def)

section \<open>The entries of one call\<close>

definition part_addr :: "nat \<Rightarrow> nat \<Rightarrow> nat" where "part_addr addr j = addr + 48 * j"

definition part_len :: "nat \<Rightarrow> nat \<Rightarrow> nat \<Rightarrow> nat" where
  "part_len n s j = (if Suc j = n then s - 48 * j else 48)"

definition part_stores :: "nat \<Rightarrow> bool \<Rightarrow> nat \<Rightarrow> nat \<Rightarrow> u32 \<Rightarrow> (nat \<Rightarrow> u8) \<Rightarrow> nat \<Rightarrow> estore list" where
  "part_stores n first addr s tid d j =
     ent_stores (of_nat (part_addr addr j)) tid (part_len n s j) (\<lambda>k. d (part_addr addr j + k)) LE_DATA (first \<and> j = 0)"

lemma slot_stores_append [simp]: "slot_stores i (E @ R) = slot_stores i E @ slot_stores i R"
  by (simp add: slot_stores_def)

lemma slot_stores_Fl [simp]:
  "slot_stores i (Fl l # E) = slot_stores i E" "slot_stores i (Fe # E) = slot_stores i E" "slot_stores i [] = []"
  by (simp_all add: slot_stores_def)

lemma slot_stores_ent_evs [simp]:
  "slot_stores i (ent_evs j es) = (if i = j then map (SEnt i) es else [])"
  by (simp add: slot_stores_def filter_map comp_def)

lemma part_shift:
  "part_addr (addr + 48) j = part_addr addr (Suc j)" "part_len n (s - 48) j = part_len (Suc n) s (Suc j)"
  by (auto simp: part_addr_def part_len_def)

lemma les_evs_slots:
  "slot_stores i (les_evs n first addr s m tid g d) =
     (if m \<le> i \<and> i < m + n then map (SEnt i) (part_stores n first addr s tid d (i - m) @ [SGen g]) else [])"
proof (induction n arbitrary: first addr s m)
  case 0
  then show ?case by simp
next
  case (Suc n)
  let ?k = "if n = 0 then s else 48"
  have tail: "slot_stores i (les_evs n False (addr + ?k) (s - ?k) (Suc m) tid g d) =
      (if Suc m \<le> i \<and> i < Suc m + n
       then map (SEnt i) (part_stores (Suc n) first addr s tid d (i - m) @ [SGen g]) else [])"
  proof (cases "Suc m \<le> i \<and> i < Suc m + n")
    case True
    then have n: "n \<noteq> 0" and im: "i - m = Suc (i - Suc m)" by auto
    have "part_stores n False (addr + 48) (s - 48) tid d (i - Suc m) = part_stores (Suc n) first addr s tid d (i - m)"
      unfolding im part_stores_def part_shift by simp
    with True n show ?thesis by (simp add: Suc)
  next
    case False
    then show ?thesis by (simp only: Suc if_False)
  qed
  have head: "part_stores (Suc n) first addr s tid d 0 =
      ent_stores (of_nat addr) tid ?k (\<lambda>j. d (addr + j)) LE_DATA first"
    by (simp add: part_stores_def part_addr_def part_len_def)
  have "slot_stores i (les_evs (Suc n) first addr s m tid g d) =
      (if i = m then map (SEnt i) (part_stores (Suc n) first addr s tid d 0 @ [SGen g]) else []) @
      slot_stores i (les_evs n False (addr + ?k) (s - ?k) (Suc m) tid g d)"
    unfolding les_evs.simps(2) Let_def head slot_stores_append slot_stores_Fl slot_stores_ent_evs ..
  then show ?case unfolding tail by auto
qed

lemma les_evs_other [simp]:
  "on_line HdrLine (stores (les_evs n first addr s m tid g d)) = []"
  "on_line (DataLine l) (stores (les_evs n first addr s m tid g d)) = []"
  by (induction n arbitrary: first addr s m) (simp_all add: Let_def filter_map comp_def)

lemma les_evs_flushed:
  "\<lbrakk>m \<le> i; i < m + n\<rbrakk> \<Longrightarrow>
   \<exists>A B. les_evs n first addr s m tid g d = A @ [Fl (EntLine i)] @ B \<and> slot_stores i B = []"
proof (induction n arbitrary: first addr s m)
  case 0
  then show ?case by simp
next
  case (Suc n)
  let ?k = "if n = 0 then s else 48"
  let ?A = "ent_evs m (ent_stores (of_nat addr) tid ?k (\<lambda>j. d (addr + j)) LE_DATA first @ [SGen g])"
  let ?B = "les_evs n False (addr + ?k) (s - ?k) (Suc m) tid g d"
  have eq: "les_evs (Suc n) first addr s m tid g d = ?A @ [Fl (EntLine m)] @ ?B" by (simp add: Let_def)
  show ?case
  proof (cases "i = m")
    case True
    have "slot_stores i ?B = []" unfolding les_evs_slots using True by simp
    with eq True show ?thesis by blast
  next
    case False
    with Suc.IH [of "Suc m" False "addr + ?k" "s - ?k"] Suc.prems obtain A B where
      "?B = A @ [Fl (EntLine i)] @ B" "slot_stores i B = []" by auto
    then show ?thesis unfolding eq by (intro exI [of _ "?A @ [Fl (EntLine m)] @ A"] exI [of _ B]) simp
  qed
qed

lemma les_evs_durable:
  assumes "m \<le> i" "i < m + n"
  shows "guar (EntLine i) (E @ les_evs n first addr s m tid g d @ [Fe]) =
    length (slot_stores i (E @ les_evs n first addr s m tid g d))"
proof -
  obtain A B where ab: "les_evs n first addr s m tid g d = A @ [Fl (EntLine i)] @ B" "slot_stores i B = []"
    using les_evs_flushed [OF assms] by blast
  have "line_of x \<noteq> EntLine i" if "St x \<in> set B" for x
    using ab(2) that by (auto simp: slot_stores_def filter_empty_conv in_stores)
  from guar_flush_fence [of B "EntLine i" "E @ A", OF this] ab show ?thesis
    by (simp add: slot_stores_def)
qed

text \<open>The entries of a call cover exactly the logged range and hold its bytes.\<close>

lemma part_result:
  assumes s: "48 * n < s" "s \<le> 48 * Suc n" "addr + s < 2 ^ 64" and j: "j < Suc n"
    and len: "length (le_data le) = 48"
    and e_def: "e = fold app_ent (part_stores (Suc n) first addr s tid d j @ [SGen g]) le"
  shows "unat (addr_offset e) = part_addr addr j" "length (ent_bytes e) = part_len (Suc n) s j"
    "ent_covers e a \<Longrightarrow> ent_saved e a = d a"
    "ent_covers e a \<longleftrightarrow> part_addr addr j \<le> a \<and> a < part_addr addr j + part_len (Suc n) s j"
    "le_type e = (if first \<and> j = 0 then LE_START else LE_DATA)"
proof -
  have k: "part_len (Suc n) s j \<le> 48" using s by (auto simp: part_len_def)
  then have k': "part_len (Suc n) s j \<le> length (le_data le)" "part_len (Suc n) s j < 256" using len by simp_all
  note r = ent_stores_result [OF k' e_def [unfolded part_stores_def]]
  have "part_addr addr j < 2 ^ 64" using s j by (simp add: part_addr_def)
  then show a: "unat (addr_offset e) = part_addr addr j" unfolding r(1) by (intro unat_of_nat_less) simp
  show "length (ent_bytes e) = part_len (Suc n) s j" by (simp add: r(4))
  show "ent_covers e a \<longleftrightarrow> part_addr addr j \<le> a \<and> a < part_addr addr j + part_len (Suc n) s j"
    by (simp add: ent_covers_def a r(4))
  show "ent_covers e a \<Longrightarrow> ent_saved e a = d a"
    by (auto simp: ent_covers_def ent_saved_def a r(4))
  show "le_type e = (if first \<and> j = 0 then LE_START else LE_DATA)"
    unfolding r(2) by (simp add: LE_DATA_def LE_START_def)
qed

lemma parts_cover:
  assumes s: "48 * n < s" "s \<le> 48 * Suc n" and a: "addr \<le> a" "a < addr + s"
  shows "\<exists>j < Suc n. part_addr addr j \<le> a \<and> a < part_addr addr j + part_len (Suc n) s j"
proof -
  let ?j = "(a - addr) div 48"
  have d: "48 * ?j \<le> a - addr" "a - addr < 48 * ?j + 48"
    using div_mult_mod_eq [of "a - addr" 48] mod_less_divisor [of 48 "a - addr"] by simp_all
  with a s have "?j < Suc n" by auto
  with d a show ?thesis by (intro exI [of _ ?j]) (auto simp: part_addr_def part_len_def)
qed

end
