(* ===== verification/Pmfs_Crash.thy ===== *)
theory Pmfs_Crash
  imports Pmfs_Entries
begin

unbundle bit_operations_syntax

text \<open>
  Transactions as the file operations of PMFS run them (namei.c, inode.c, dir.c): start a transaction, log
  ranges before the bytes in them are written in place, commit.  The events of such a run follow the rules
  of \<open>Pmfs_Trace_Rules\<close>.
\<close>

section \<open>Client transactions\<close>

datatype body_op = Log nat nat | Write nat u8

fun run_body :: "body_op list \<Rightarrow> pmfs_transaction_t option \<Rightarrow> jst \<Rightarrow> pmfs_transaction_t option \<times> jst" where
  "run_body [] tr st = (tr, st)"
| "run_body (Log a n # ops) tr st =
     (let (err, tr', st') = pmfs_add_logentry tr a (of_nat n) LE_DATA st in run_body ops tr' st')"
| "run_body (Write a v # ops) tr st = run_body ops tr (pstore_step (SData a v) st)"

definition run_transaction :: "nat \<Rightarrow> body_op list \<Rightarrow> jst \<Rightarrow> jst option" where
  "run_transaction n ops st =
     (case pmfs_new_transaction True n st of
        Some (Inr tr, st1) \<Rightarrow> (let (tr', st2) = run_body ops (Some tr) st1 in Some (pmfs_commit_transaction tr' st2))
      | _ \<Rightarrow> None)"

text \<open>The log space that a body needs, the data it leaves, and that it logs before it writes.\<close>

fun demand :: "body_op list \<Rightarrow> nat" where
  "demand [] = 0"
| "demand (Log a n # ops) = num_les n + demand ops"
| "demand (Write a v # ops) = demand ops"

fun written :: "body_op list \<Rightarrow> (nat \<Rightarrow> u8) \<Rightarrow> nat \<Rightarrow> u8" where
  "written [] d = d"
| "written (Log a n # ops) d = written ops d"
| "written (Write a v # ops) d = written ops (d(a := v))"

definition in_ranges :: "(nat \<times> nat) list \<Rightarrow> nat \<Rightarrow> bool" where
  "in_ranges L a \<longleftrightarrow> (\<exists>(b, n) \<in> set L. b \<le> a \<and> a < b + n)"

fun logs_first :: "(nat \<times> nat) list \<Rightarrow> body_op list \<Rightarrow> bool" where
  "logs_first L [] = (L \<noteq> [])"
| "logs_first L (Log a n # ops) =
     (0 < a \<and> 0 < n \<and> n < 2 ^ 16 \<and> a + n < 2 ^ 64 \<and> logs_first ((a, n) # L) ops)"
| "logs_first L (Write a v # ops) = (in_ranges L a \<and> logs_first L ops)"

section \<open>The invariant of a running transaction\<close>

text \<open>The events so far, \<open>c\<close> slots being filled from \<open>t\<close> on.\<close>

definition open_ok :: "pmem \<Rightarrow> event list \<Rightarrow> nat \<Rightarrow> nat \<Rightarrow> u16 \<Rightarrow> u32 \<Rightarrow> bool" where
  "open_ok P E t c g nt \<longleftrightarrow>
     hdr_rule E nt \<and> log_before_write P E t c \<and> first_is_old P E t c g \<and>
     (\<forall>i. t \<le> i \<and> i < t + c \<longrightarrow>
        (\<exists>pre. slot_stores i E = map (SEnt i) (pre @ [SGen g]) \<and> (\<forall>x. SGen x \<notin> set pre)) \<and>
        guar (EntLine i) E = length (slot_stores i E) \<and>
        le_type (fent P E i) = (if i = t then LE_START else LE_DATA) \<and> addr_offset (fent P E i) \<noteq> 0) \<and>
     (\<forall>i. i < t \<or> t + c \<le> i \<longrightarrow> slot_stores i E = []) \<and>
     (if c = 0 then E = [St (SHdr (HTail nt)), Fl HdrLine] else guar HdrLine E = 1)"

definition logged :: "pmem \<Rightarrow> event list \<Rightarrow> nat \<Rightarrow> nat \<Rightarrow> (nat \<times> nat) list \<Rightarrow> bool" where
  "logged P E t c L \<longleftrightarrow> (\<forall>a. in_ranges L a \<longrightarrow> (\<exists>i. t \<le> i \<and> i < t + c \<and> ent_covers (fent P E i) a)) \<and> (L \<noteq> [] \<longrightarrow> 0 < c)"

lemma open_okD:
  assumes "open_ok P E t c g nt"
  shows "hdr_rule E nt" "log_before_write P E t c" "first_is_old P E t c g"
    "\<And>i. t \<le> i \<Longrightarrow> i < t + c \<Longrightarrow>
      \<exists>pre. slot_stores i E = map (SEnt i) (pre @ [SGen g]) \<and> (\<forall>x. SGen x \<notin> set pre)"
    "\<And>i. t \<le> i \<Longrightarrow> i < t + c \<Longrightarrow> slot_durable i E E"
    "\<And>i. t \<le> i \<Longrightarrow> i < t + c \<Longrightarrow>
      le_type (fent P E i) = (if i = t then LE_START else LE_DATA) \<and> addr_offset (fent P E i) \<noteq> 0"
    "\<And>i. i < t \<or> t + c \<le> i \<Longrightarrow> slot_stores i E = []"
    "if c = 0 then E = [St (SHdr (HTail nt)), Fl HdrLine] else guar HdrLine E = 1"
proof -
  show "hdr_rule E nt" "log_before_write P E t c" "first_is_old P E t c g"
    "if c = 0 then E = [St (SHdr (HTail nt)), Fl HdrLine] else guar HdrLine E = 1" using assms by (simp_all add: open_ok_def)
  fix i
  show "i < t \<or> t + c \<le> i \<Longrightarrow> slot_stores i E = []" using assms unfolding open_ok_def by blast
  assume i: "t \<le> i" "i < t + c"
  with assms show "\<exists>pre. slot_stores i E = map (SEnt i) (pre @ [SGen g]) \<and> (\<forall>x. SGen x \<notin> set pre)"
    unfolding open_ok_def by blast
  from assms i show "slot_durable i E E" by (simp add: open_ok_def slot_durable_def)
  from assms i show "le_type (fent P E i) = (if i = t then LE_START else LE_DATA) \<and> addr_offset (fent P E i) \<noteq> 0"
    unfolding open_ok_def by blast
qed

subsection \<open>Extending a run\<close>

lemma no_slot_event:
  assumes "slot_stores i E = []"
  shows "St (SEnt i e) \<notin> set E"
proof
  assume "St (SEnt i e) \<in> set E"
  then have "SEnt i e \<in> set (slot_stores i E)" by (simp add: slot_stores_def in_stores)
  with assms show False by simp
qed

lemma no_line_event: "on_line l (stores R) = [] \<Longrightarrow> St x \<in> set R \<Longrightarrow> line_of x \<noteq> l"
  by (auto simp: filter_empty_conv in_stores)

lemma fent_extend: "slot_stores i R = [] \<Longrightarrow> fent P (E @ R) i = fent P E i"
  by (simp add: fent_eq)

lemma durable_extend:
  assumes "slot_stores i R = []"
  shows "slot_durable i E1 (E @ R) \<longleftrightarrow> slot_durable i E1 E"
  using assms by (simp add: slot_durable_def)

lemma durable_later:
  assumes "slot_durable i E E"
  shows "slot_stores i R = [] \<Longrightarrow> slot_durable i (E @ R) (E @ R)"
proof -
  assume r: "slot_stores i R = []"
  have "guar (EntLine i) E \<le> guar (EntLine i) (E @ R)" by (rule guar_mono)
  moreover have "guar (EntLine i) (E @ R) \<le> length (slot_stores i (E @ R))"
    unfolding slot_stores_def by (rule guar_le)
  ultimately show ?thesis using assms r by (simp add: slot_durable_def)
qed

lemma log_before_write_extend:
  assumes lb: "log_before_write P E t c" and cc: "c \<le> c'" and c: "0 < c \<or> (\<forall>a v. St (SData a v) \<notin> set E)"
    and R: "\<forall>a v. St (SData a v) \<notin> set R" and fresh: "\<And>i. t \<le> i \<Longrightarrow> i < t + c \<Longrightarrow> slot_stores i R = []"
  shows "log_before_write P (E @ R) t c'"
  unfolding log_before_write_def
proof (intro allI impI)
  fix E1 a v E2
  assume eq: "E @ R = E1 @ St (SData a v) # E2"
  obtain E2' where E: "E = E1 @ St (SData a v) # E2'" using R by (auto intro: split_left [OF eq])
  then have c0: "0 < c" using c by auto
  from E lb obtain i where i: "slot_durable t E1 E" "guar HdrLine E1 = 1" "t \<le> i" "i < t + c"
      "ent_covers (fent P E i) a" "slot_durable i E1 E"
    unfolding log_before_write_def by blast
  have "slot_durable t E1 (E @ R)" using i(1) fresh [of t] c0 by (simp add: durable_extend)
  moreover have "slot_durable i E1 (E @ R)" "ent_covers (fent P (E @ R) i) a"
    using i fresh [of i] by (simp_all add: durable_extend fent_extend)
  ultimately show "slot_durable t E1 (E @ R) \<and> guar HdrLine E1 = 1 \<and>
      (\<exists>i. t \<le> i \<and> i < t + c' \<and> ent_covers (fent P (E @ R) i) a \<and> slot_durable i E1 (E @ R))"
    using i cc by (intro conjI exI [of _ i]) simp_all
qed

lemma no_write_empty:
  assumes "log_before_write P E t 0"
  shows "St (SData a v) \<notin> set E"
proof
  assume "St (SData a v) \<in> set E"
  then obtain E1 E2 where "E = E1 @ St (SData a v) # E2" by (meson split_list)
  with assms obtain i where "t \<le> i" "i < t + 0" unfolding log_before_write_def by blast
  then show False by simp
qed

lemma first_is_old_extend:
  assumes fo: "first_is_old P E t c g" and gs: "\<And>i. t \<le> i \<Longrightarrow> i < t + c \<Longrightarrow> slot_stores i R = []"
    and i: "t \<le> i" "i < t + c" and cov: "ent_covers (fent P (E @ R) i) a" and ne: "ent_saved (fent P (E @ R) i) a \<noteq> pdata P a"
  shows "\<exists>j. t \<le> j \<and> j < i \<and> ent_covers (fent P (E @ R) j) a \<and>
     (\<forall>E1 E2. E @ R = E1 @ St (SEnt i (SGen g)) # E2 \<longrightarrow> slot_durable j E1 (E @ R))"
proof -
  have "fent P (E @ R) i = fent P E i" using gs [OF i] by (rule fent_extend)
  with fo i cov ne obtain j where j: "t \<le> j" "j < i" "ent_covers (fent P E j) a"
    "\<forall>E1 E2. E = E1 @ St (SEnt i (SGen g)) # E2 \<longrightarrow> slot_durable j E1 E"
    unfolding first_is_old_def by metis
  have gj: "slot_stores j R = []" using gs [of j] j i by simp
  have "slot_durable j E1 (E @ R)" if "E @ R = E1 @ St (SEnt i (SGen g)) # E2" for E1 E2
    using split_left [OF that no_slot_event [OF gs [OF i]]] j(4) durable_extend [OF gj] by metis
  with j gj show ?thesis by (intro exI [of _ j]) (simp add: fent_extend)
qed

lemma written_covered:
  assumes "log_before_write P E t c" "pdata (apply_stores (stores E) P) a \<noteq> pdata P a"
  obtains i where "t \<le> i" "i < t + c" "ent_covers (fent P E i) a"
proof -
  from assms(2) obtain v where "SData a v \<in> set (stores E)" using data_unwritten by metis
  then have "St (SData a v) \<in> set E" by (simp add: in_stores)
  then obtain E1 E2 where "E = E1 @ St (SData a v) # E2" by (meson split_list)
  with assms(1) that show thesis unfolding log_before_write_def by blast
qed

subsection \<open>Writing\<close>

lemma slot_stores_data [simp]: "slot_stores i (St (SData a v) # E) = slot_stores i E"
  by (simp add: slot_stores_def)

lemma data_split:
  assumes "E @ [St (SData a v)] = E1 @ St (SData b w) # E2"
  shows "(E1 = E \<and> b = a \<and> w = v \<and> E2 = []) \<or> (\<exists>E2'. E = E1 @ St (SData b w) # E2')"
  using assms by (cases E2 rule: rev_cases) auto

lemma open_write:
  assumes ok: "open_ok P E t c g nt" and cov: "t \<le> i" "i < t + c" "ent_covers (fent P E i) a"
  shows "open_ok P (E @ [St (SData a v)]) t c g nt"
proof -
  let ?R = "[St (SData a v)]"
  note d = open_okD [OF ok]
  have c: "0 < c" using cov by simp
  have none: "slot_stores i ?R = []" for i by simp
  have "hdr_rule (E @ ?R) nt" using d(1) by (simp add: hdr_rule_def)
  moreover have "log_before_write P (E @ ?R) t c"
    unfolding log_before_write_def
  proof (intro allI impI)
    fix E1 b w E2
    assume eq: "E @ ?R = E1 @ St (SData b w) # E2"
    show "slot_durable t E1 (E @ ?R) \<and> guar HdrLine E1 = 1 \<and>
      (\<exists>i. t \<le> i \<and> i < t + c \<and> ent_covers (fent P (E @ ?R) i) b \<and> slot_durable i E1 (E @ ?R))"
      unfolding durable_extend [OF none] fent_extend [OF none]
    proof (cases "E1 = E \<and> b = a")
      case True
      with d(5) [of t] d(5) [of i] d(8) c cov
      show "slot_durable t E1 E \<and> guar HdrLine E1 = 1 \<and>
        (\<exists>i. t \<le> i \<and> i < t + c \<and> ent_covers (fent P E i) b \<and> slot_durable i E1 E)" by auto
    next
      case False
      with data_split [OF eq] obtain E2' where "E = E1 @ St (SData b w) # E2'" by blast
      with d(2) show "slot_durable t E1 E \<and> guar HdrLine E1 = 1 \<and>
        (\<exists>i. t \<le> i \<and> i < t + c \<and> ent_covers (fent P E i) b \<and> slot_durable i E1 E)"
        unfolding log_before_write_def by blast
    qed
  qed
  moreover have "first_is_old P (E @ ?R) t c g"
    unfolding first_is_old_def using first_is_old_extend [OF d(3) none] by blast
  moreover have "guar HdrLine (E @ ?R) = 1"
  proof -
    have "length (on_line HdrLine (stores (E @ ?R))) = 1" using d(1) by (simp add: hdr_rule_def)
    then have "guar HdrLine (E @ ?R) \<le> 1" using guar_le [of HdrLine "E @ ?R"] by simp
    with guar_mono [of HdrLine E ?R] d(8) c show ?thesis by simp
  qed
  moreover have "slot_durable i (E @ ?R) (E @ ?R)" if "t \<le> i" "i < t + c" for i
    using durable_later [OF d(5) [OF that] none] .
  ultimately show ?thesis
    using d(4,6,7) c by (simp add: open_ok_def fent_extend [OF none] slot_durable_def)
qed

subsection \<open>Logging\<close>

definition log_evs :: "pmem \<Rightarrow> event list \<Rightarrow> nat \<Rightarrow> nat \<Rightarrow> nat \<Rightarrow> nat \<Rightarrow> u32 \<Rightarrow> u16 \<Rightarrow> event list" where
  "log_evs P E t c addr s tid g =
     les_evs (num_les s) (c = 0) addr s (t + c) tid g (pdata (apply_stores (stores E) P)) @ [Fe]"

lemma log_evs_slots:
  "slot_stores i (log_evs P E t c addr s tid g) =
     (if t + c \<le> i \<and> i < t + c + num_les s
      then map (SEnt i) (part_stores (num_les s) (c = 0) addr s tid (pdata (apply_stores (stores E) P)) (i - (t + c)) @ [SGen g])
      else [])"
  unfolding log_evs_def by (simp add: les_evs_slots)

lemma log_evs_no_data: "St (SData a v) \<notin> set (log_evs P E t c addr s tid g)"
proof -
  have "on_line (DataLine (a div 64)) (stores (log_evs P E t c addr s tid g)) = []" by (simp add: log_evs_def)
  then have "SData a v \<notin> set (stores (log_evs P E t c addr s tid g))" by (auto simp: filter_empty_conv)
  then show ?thesis by (simp add: in_stores)
qed

lemma hdr_after_log:
  assumes ok: "open_ok P E t c g nt"
  shows "hdr_rule (E @ log_evs P E t c addr s tid g) nt" "guar HdrLine (E @ log_evs P E t c addr s tid g) = 1"
proof -
  let ?L = "les_evs (num_les s) (c = 0) addr s (t + c) tid g (pdata (apply_stores (stores E) P))"
  note d = open_okD [OF ok]
  show h: "hdr_rule (E @ log_evs P E t c addr s tid g) nt" using d(1) by (simp add: hdr_rule_def log_evs_def)
  then have "guar HdrLine (E @ log_evs P E t c addr s tid g) \<le> 1"
    using guar_le [of HdrLine "E @ log_evs P E t c addr s tid g"] unfolding hdr_rule_def by (metis One_nat_def length_Cons list.size(3))
  moreover have "1 \<le> guar HdrLine (E @ log_evs P E t c addr s tid g)"
  proof (cases "c = 0")
    case True
    have "guar HdrLine ([St (SHdr (HTail nt))] @ [Fl HdrLine] @ ?L @ [Fe]) =
        length (on_line HdrLine (stores ([St (SHdr (HTail nt))] :: event list)))"
      by (rule guar_flush_fence, erule no_line_event [OF les_evs_other(1)])
    with True d(8) show ?thesis by (simp add: log_evs_def)
  next
    case False
    with d(8) guar_mono [of HdrLine E "log_evs P E t c addr s tid g"] show ?thesis by simp
  qed
  ultimately show "guar HdrLine (E @ log_evs P E t c addr s tid g) = 1" by simp
qed

text \<open>What the new entries hold.\<close>

lemma log_evs_entry:
  fixes tid :: u32
  assumes ok: "open_ok P E t c g nt" and len: "\<forall>i. length (le_data (pents P i)) = 48"
    and s: "0 < s" "addr + s < 2 ^ 64" and i: "t + c \<le> i" "i < t + c + num_les s"
  defines "e \<equiv> fent P (E @ log_evs P E t c addr s tid g) i"
  shows "ent_covers e a \<Longrightarrow> ent_saved e a = pdata (apply_stores (stores E) P) a"
    "ent_covers e a \<longleftrightarrow> part_addr addr (i - (t + c)) \<le> a \<and>
       a < part_addr addr (i - (t + c)) + part_len (num_les s) s (i - (t + c))"
    "le_type e = (if i = t then LE_START else LE_DATA)" "0 < addr \<Longrightarrow> addr_offset e \<noteq> 0"
proof -
  obtain n where n: "num_les s = Suc n" "48 * n < s" "s \<le> 48 * Suc n" using s(1) by (rule num_les_bounds)
  have j: "i - (t + c) < Suc n" using i n(1) by simp
  have e: "e = fold app_ent (part_stores (Suc n) (c = 0) addr s tid (pdata (apply_stores (stores E) P)) (i - (t + c)) @ [SGen g])
      (pents P i)"
    using open_okD(7) [OF ok, of i] i
    unfolding e_def fent_eq slot_stores_append log_evs_slots n(1) by (simp only: append_Nil pents_map_SEnt if_True simp_thms)
  note r = part_result [OF n(2,3) s(2) j len [rule_format, of i] e]
  show "ent_covers e a \<Longrightarrow> ent_saved e a = pdata (apply_stores (stores E) P) a" by (rule r(3))
  show "ent_covers e a \<longleftrightarrow> part_addr addr (i - (t + c)) \<le> a \<and>
       a < part_addr addr (i - (t + c)) + part_len (num_les s) s (i - (t + c))" unfolding n(1) by (rule r(4))
  show "le_type e = (if i = t then LE_START else LE_DATA)" using r(5) i by auto
  show "addr_offset e \<noteq> 0" if "0 < addr"
  proof
    assume "addr_offset e = 0"
    then have "unat (addr_offset e) = 0" by simp
    with r(1) that show False by (simp add: part_addr_def)
  qed
qed

lemma first_is_old_log:
  assumes ok: "open_ok P E t c g nt" and len: "\<forall>i. length (le_data (pents P i)) = 48"
    and s: "0 < s" "addr + s < 2 ^ 64"
  shows "first_is_old P (E @ log_evs P E t c addr s tid g) t (c + num_les s) g"
  unfolding first_is_old_def
proof (intro allI impI)
  let ?R = "log_evs P E t c addr s tid g"
  note d = open_okD [OF ok]
  fix i a
  assume i: "t \<le> i \<and> i < t + (c + num_les s) \<and> ent_covers (fent P (E @ ?R) i) a \<and>
    ent_saved (fent P (E @ ?R) i) a \<noteq> pdata P a"
  have fresh: "slot_stores j ?R = []" if "j < t + c" for j using that unfolding log_evs_slots by simp
  show "\<exists>j. t \<le> j \<and> j < i \<and> ent_covers (fent P (E @ ?R) j) a \<and>
     (\<forall>E1 E2. E @ ?R = E1 @ St (SEnt i (SGen g)) # E2 \<longrightarrow> slot_durable j E1 (E @ ?R))"
  proof (cases "i < t + c")
    case True
    with i show ?thesis by (intro first_is_old_extend [OF d(3) fresh]) auto
  next
    case False
    with i log_evs_entry(1) [OF ok len s, where i = i and a = a and tid = tid]
    have "pdata (apply_stores (stores E) P) a \<noteq> pdata P a" by auto
    from written_covered [OF d(2) this] obtain j where j: "t \<le> j" "j < t + c" "ent_covers (fent P E j) a" .
    have dur: "slot_durable j E1 (E @ ?R)" if "E @ ?R = E1 @ St (SEnt i (SGen g)) # E2" for E1 E2
    proof -
      have "slot_stores i E = []" using d(7) False by simp
      from split_right [OF that no_slot_event [OF this]] obtain E1' where E1: "E1 = E @ E1'"
        and R: "?R = E1' @ St (SEnt i (SGen g)) # E2" .
      have "slot_stores j (E1' @ St (SEnt i (SGen g)) # E2) = []" unfolding R [symmetric] by (rule fresh [OF j(2)])
      then have "slot_stores j E1' = []" by simp
      from durable_later [OF d(5) [OF j(1,2)] this] have "slot_durable j E1 (E @ E1')" unfolding E1 .
      then show ?thesis using fresh [OF j(2)] \<open>slot_stores j E1' = []\<close> by (simp add: slot_durable_def)
    qed
    from j False dur fresh [OF j(2)] show ?thesis by (intro exI [of _ j]) (simp add: fent_extend)
  qed
qed

lemma open_log:
  assumes ok: "open_ok P E t c g nt" and len: "\<forall>i. length (le_data (pents P i)) = 48"
    and s: "0 < s" "addr + s < 2 ^ 64" "0 < addr"
  shows "open_ok P (E @ log_evs P E t c addr s tid g) t (c + num_les s) g nt"
proof -
  let ?R = "log_evs P E t c addr s tid g"
  note d = open_okD [OF ok]
  have pos: "0 < num_les s" using s(1) by (rule num_les_bounds) simp
  have fresh: "slot_stores j ?R = []" if "j < t + c" for j using that unfolding log_evs_slots by simp
  have lb: "log_before_write P (E @ ?R) t (c + num_les s)"
    using no_write_empty d(2) by (intro log_before_write_extend [OF d(2)]) (auto simp: log_evs_no_data fresh)
  have slots: "(\<exists>pre. slot_stores i (E @ ?R) = map (SEnt i) (pre @ [SGen g]) \<and> (\<forall>x. SGen x \<notin> set pre)) \<and>
      guar (EntLine i) (E @ ?R) = length (slot_stores i (E @ ?R)) \<and>
      le_type (fent P (E @ ?R) i) = (if i = t then LE_START else LE_DATA) \<and> addr_offset (fent P (E @ ?R) i) \<noteq> 0"
    if i: "t \<le> i" "i < t + (c + num_les s)" for i
  proof (cases "i < t + c")
    case True
    with d(4) [OF i(1)] d(6) [OF i(1)] durable_later [OF d(5) [OF i(1)], of ?R] fresh [OF True] show ?thesis
      by (simp add: fent_extend slot_durable_def)
  next
    case False
    then have j: "t + c \<le> i" "i < t + c + num_les s" using i by simp_all
    have "slot_stores i (E @ ?R) = map (SEnt i) (part_stores (num_les s) (c = 0) addr s tid
        (pdata (apply_stores (stores E) P)) (i - (t + c)) @ [SGen g])"
      using j d(7) [of i] unfolding slot_stores_append log_evs_slots by simp
    moreover have "guar (EntLine i) (E @ ?R) = length (slot_stores i (E @ ?R))"
      using les_evs_durable [OF j] by (simp add: log_evs_def)
    ultimately show ?thesis
      using log_evs_entry(3,4) [OF ok len s(1,2) j, where tid = tid] s(3)
      by (intro conjI exI) (assumption | simp add: part_stores_def)+
  qed
  show ?thesis
    unfolding open_ok_def
    using hdr_after_log [OF ok] lb first_is_old_log [OF ok len s(1,2)] slots d(7) pos
    by (auto simp: log_evs_slots)
qed

lemma logged_log:
  assumes ok: "open_ok P E t c g nt" and len: "\<forall>i. length (le_data (pents P i)) = 48"
    and s: "0 < s" "addr + s < 2 ^ 64" and L: "logged P E t c L"
  shows "logged P (E @ log_evs P E t c addr s tid g) t (c + num_les s) ((addr, s) # L)"
proof -
  let ?R = "log_evs P E t c addr s tid g"
  obtain n where n: "num_les s = Suc n" "48 * n < s" "s \<le> 48 * Suc n" using s(1) by (rule num_les_bounds)
  have "\<exists>i. t \<le> i \<and> i < t + (c + num_les s) \<and> ent_covers (fent P (E @ ?R) i) a"
    if a: "in_ranges ((addr, s) # L) a" for a
  proof (cases "addr \<le> a \<and> a < addr + s")
    case True
    with parts_cover [OF n(2,3)] obtain j where j: "j < Suc n" "part_addr addr j \<le> a"
      "a < part_addr addr j + part_len (Suc n) s j" by blast
    then have i: "t + c \<le> t + c + j" "t + c + j < t + c + num_les s" using n(1) by simp_all
    from log_evs_entry(2) [OF ok len s i, of tid a] j n(1) have "ent_covers (fent P (E @ ?R) (t + c + j)) a" by simp
    with i show ?thesis by (intro exI [of _ "t + c + j"]) simp
  next
    case False
    with a L obtain i where i: "t \<le> i" "i < t + c" "ent_covers (fent P E i) a"
      by (auto simp: logged_def in_ranges_def)
    have "slot_stores i ?R = []" using i unfolding log_evs_slots by simp
    with i show ?thesis by (intro exI [of _ i]) (simp add: fent_extend)
  qed
  with n(1) show ?thesis by (simp add: logged_def)
qed

end
