(* ===== verification/Pmfs_Commit.thy ===== *)
theory Pmfs_Commit
  imports Pmfs_Crash
begin

unbundle bit_operations_syntax

text \<open>
  The body of a transaction keeps the invariant of \<open>Pmfs_Crash\<close>, and its commit completes a run that follows
  the rules.
\<close>

section \<open>The body\<close>

lemma demand_used:
  fixes tr :: pmfs_transaction_t
  assumes "unat (num_used tr) + m < unat (num_entries tr)"
  shows "unat (num_used tr + of_nat m) = unat (num_used tr) + m"
proof -
  have b: "unat (num_used tr) + m < 2 ^ 16" using assms unat_bound [of "num_entries tr"] by simp
  then have "unat (of_nat m :: u16) = m" by (intro unat_of_nat_less) simp
  with b show ?thesis by (simp add: unat_plus_if')
qed

lemma run_body_ok:
  "\<lbrakk>open_ok P E t c g nt; logged P E t c L; logs_first L ops; \<forall>i. length (le_data (pents P i)) = 48;
    pm st = apply_stores (stores E) P; \<not> redo_log st; start_addr tr = t; unat (num_used tr) = c;
    t_gen_id tr = g; c + demand ops < unat (num_entries tr)\<rbrakk> \<Longrightarrow>
   \<exists>R. run_body ops (Some tr) st = (Some (tr\<lparr>num_used := num_used tr + of_nat (demand ops)\<rparr>), exec R st) \<and>
     open_ok P (E @ R) t (c + demand ops) g nt \<and> 0 < c + demand ops \<and>
     pdata (pm (exec R st)) = written ops (pdata (pm st))"
proof (induction ops arbitrary: E c L tr st)
  case Nil
  then show ?case by (intro exI [of _ "[]"]) (simp add: logged_def)
next
  case (Cons x ops)
  show ?case
  proof (cases x)
    case (Log a n)
    let ?R = "log_evs P E t c a n (t_id tr) g"
    let ?tr = "tr\<lparr>num_used := num_used tr + of_nat (num_les n)\<rparr>"
    from Cons.prems Log have n: "0 < n" "a + n < 2 ^ 64" "0 < a" "n < 2 ^ 16" "logs_first ((a, n) # L) ops" by simp_all
    have used: "unat (num_used ?tr) = c + num_les n"
      using Cons.prems Log by (simp add: demand_used)
    have "num_used tr = 0 \<longleftrightarrow> c = 0" using Cons.prems(8) by (metis unat_0 unat_eq_0)
    then have step: "pmfs_add_logentry (Some tr) a (of_nat n) LE_DATA st = (0, Some ?tr, exec ?R st)"
      using Cons.prems Log add_logentry_data_exec [OF n(1,4), of tr st a] by (simp add: log_evs_def)
    note ok = open_log [OF Cons.prems(1,4) n(1-3), of "t_id tr"]
      and lg = logged_log [OF Cons.prems(1,4) n(1,2) Cons.prems(2), of "t_id tr"]
    have "pm (exec ?R st) = apply_stores (stores (E @ ?R)) P" "\<not> redo_log (exec ?R st)" "start_addr ?tr = t"
      "unat (num_used ?tr) = c + num_les n" "t_gen_id ?tr = g" "c + num_les n + demand ops < unat (num_entries ?tr)"
      using Cons.prems Log used by simp_all
    from Cons.IH [OF ok lg n(5) Cons.prems(4) this] obtain R where
      R: "run_body ops (Some ?tr) (exec ?R st) =
          (Some (?tr\<lparr>num_used := num_used ?tr + of_nat (demand ops)\<rparr>), exec R (exec ?R st))"
        "open_ok P ((E @ ?R) @ R) t (c + num_les n + demand ops) g nt"
        "pdata (pm (exec R (exec ?R st))) = written ops (pdata (pm (exec ?R st)))" "0 < c + num_les n + demand ops"
      by (elim exE conjE) (rule that)
    have "pdata (pm (exec ?R st)) = pdata (pm st)" by (simp add: log_evs_def)
    with R Log step show ?thesis
      by (intro exI [of _ "?R @ R"]) (simp add: add.assoc)
  next
    case (Write a v)
    let ?R = "[St (SData a v)]"
    from Cons.prems Write have r: "in_ranges L a" "logs_first L ops" by simp_all
    with Cons.prems(2) obtain i where i: "t \<le> i" "i < t + c" "ent_covers (fent P E i) a" by (auto simp: logged_def)
    note ok = open_write [OF Cons.prems(1) i, of v]
    have lg: "logged P (E @ ?R) t c L" using Cons.prems(2) by (simp add: logged_def fent_extend)
    have "pm (exec ?R st) = apply_stores (stores (E @ ?R)) P" "\<not> redo_log (exec ?R st)" using Cons.prems by simp_all
    moreover have "c + demand ops < unat (num_entries tr)" using Cons.prems(10) Write by simp
    ultimately obtain R where
      R: "run_body ops (Some tr) (exec ?R st) =
          (Some (tr\<lparr>num_used := num_used tr + of_nat (demand ops)\<rparr>), exec R (exec ?R st))"
        "open_ok P ((E @ ?R) @ R) t (c + demand ops) g nt"
        "pdata (pm (exec R (exec ?R st))) = written ops (pdata (pm (exec ?R st)))" "0 < c + demand ops"
      using Cons.IH [OF ok lg r(2) Cons.prems(4) _ _ Cons.prems(7-9)] by (metis (no_types, lifting))
    with Write show ?thesis
      by (intro exI [of _ "?R @ R"]) (simp add: primitive_exec)
  qed
qed

section \<open>The commit\<close>

lemma flush_lines_cover:
  assumes "a \<le> x" "x < a + n"
  shows "DataLine (x div 64) \<in> set (flush_lines a n)"
  using flushes_cover [OF assms] by (auto simp: flush_lines_def)

lemma covers_size: "ent_covers e a \<Longrightarrow> le_size e \<noteq> 0 \<and> a < unat (addr_offset e) + unat (le_size e)"
  by (auto simp: ent_covers_def ent_bytes_def)

lemma slot_flushes_cover:
  assumes "ent_covers (pents m i) a" "i \<in> set is"
  shows "Fl (DataLine (a div 64)) \<in> set (concat (map (slot_flushes m) is))"
proof -
  note c = covers_size [OF assms(1)]
  have "DataLine (a div 64) \<in> set (flush_lines (unat (addr_offset (pents m i))) (unat (le_size (pents m i))))"
    using c assms(1) by (intro flush_lines_cover) (simp_all add: ent_covers_def)
  with c assms(2) show ?thesis by (auto simp: slot_flushes_def)
qed

definition commit_fill :: "nat \<Rightarrow> u32 \<Rightarrow> event list" where
  "commit_fill i tid = ent_evs i (ent_stores 0 tid 0 (\<lambda>j. 0) LE_COMMIT False)"

definition commit_mark :: "nat \<Rightarrow> u16 \<Rightarrow> event list" where
  "commit_mark i g = ent_evs i [SType LE_COMMIT, SGen g] @ [Fl (EntLine i), Fe]"

definition commit_flushes :: "pmem \<Rightarrow> nat \<Rightarrow> nat \<Rightarrow> u32 \<Rightarrow> event list" where
  "commit_flushes m t i tid = concat (map (slot_flushes (apply_stores (stores (commit_fill i tid)) m)) [t..<Suc i])"

lemma commit_evs_parts:
  assumes "start_addr tr = t" "unat (num_used tr) = c" "t_gen_id tr = g"
  shows "commit_evs tr m =
    commit_fill (t + c) (t_id tr) @ commit_flushes m t (t + c) (t_id tr) @ Fe # commit_mark (t + c) g"
  unfolding commit_evs_def commit_fill_def commit_mark_def commit_flushes_def assms Let_def by simp

lemma commit_part_stores [simp]:
  "stores (commit_flushes m t i tid) = []"
  "slot_stores j (commit_fill i tid) = (if j = i then map (SEnt i) (ent_stores 0 tid 0 (\<lambda>j. 0) LE_COMMIT False) else [])"
  "slot_stores j (commit_flushes m t i tid) = []"
  "slot_stores j (commit_mark i g) = (if j = i then map (SEnt i) [SType LE_COMMIT, SGen g] else [])"
proof -
  show s: "stores (commit_flushes m t i tid) = []" unfolding commit_flushes_def by (rule stores_slot_flushes)
  then show "slot_stores j (commit_flushes m t i tid) = []" by (simp add: slot_stores_def)
  show "slot_stores j (commit_fill i tid) = (if j = i then map (SEnt i) (ent_stores 0 tid 0 (\<lambda>j. 0) LE_COMMIT False) else [])"
    unfolding commit_fill_def slot_stores_ent_evs by simp
  show "slot_stores j (commit_mark i g) = (if j = i then map (SEnt i) [SType LE_COMMIT, SGen g] else [])"
    unfolding commit_mark_def slot_stores_append slot_stores_ent_evs by simp
qed

lemma commit_part_lines [simp]:
  "on_line (DataLine l) (stores (commit_fill i tid)) = []" "on_line HdrLine (stores (commit_fill i tid)) = []"
  "on_line (DataLine l) (stores (commit_mark i g)) = []" "on_line HdrLine (stores (commit_mark i g)) = []"
  by (simp_all add: commit_fill_def commit_mark_def filter_map comp_def)

definition commit_all :: "pmem \<Rightarrow> nat \<Rightarrow> nat \<Rightarrow> u32 \<Rightarrow> u16 \<Rightarrow> event list" where
  "commit_all m t i tid g = commit_fill i tid @ commit_flushes m t i tid @ Fe # commit_mark i g"

lemma commit_all_slots [simp]:
  "slot_stores j (commit_all m t i tid g) =
     (if j = i then map (SEnt i) ((ent_stores 0 tid 0 (\<lambda>j. 0) LE_COMMIT False @ [SType LE_COMMIT]) @ [SGen g]) else [])"
  by (simp add: commit_all_def)

lemma commit_all_lines [simp]:
  "on_line (DataLine l) (stores (commit_all m t i tid g)) = []" "on_line HdrLine (stores (commit_all m t i tid g)) = []"
  by (simp_all add: commit_all_def)

lemma commit_all_no_data: "St (SData a v) \<notin> set (commit_all m t i tid g)"
  using no_line_event [OF commit_all_lines(1)] by force

lemma data_durable_at_barrier:
  assumes ok: "open_ok P E t c g nt"
  shows "guar (DataLine l) (E @ commit_fill (t + c) tid @ commit_flushes (apply_stores (stores E) P) t (t + c) tid @ [Fe])
    = length (on_line (DataLine l) (stores E))"
proof (cases "on_line (DataLine l) (stores E) = []")
  case True
  let ?C = "commit_fill (t + c) tid @ commit_flushes (apply_stores (stores E) P) t (t + c) tid @ [Fe]"
  have "on_line (DataLine l) (stores (E @ ?C)) = []" using True by simp
  with guar_le [of "DataLine l" "E @ ?C"] show ?thesis unfolding True by simp
next
  case False
  let ?m = "apply_stores (stores E) P" and ?A = "commit_fill (t + c) tid"
  note d = open_okD [OF ok]
  from False obtain s where "s \<in> set (stores E)" "line_of s = DataLine l" by (auto simp: filter_empty_conv)
  then obtain a v where "St (SData a v) \<in> set E" and l: "l = a div 64"
    by - (cases s, auto simp: in_stores)
  then obtain E1 E2 where "E = E1 @ St (SData a v) # E2" by (meson split_list)
  with d(2) obtain i where i: "t \<le> i" "i < t + c" "ent_covers (fent P E i) a" unfolding log_before_write_def by blast
  have "slot_stores i ?A = []" using i(2) by simp
  from fent_extend [OF this, of P E] have "pents (apply_stores (stores ?A) ?m) i = fent P E i"
    by (simp add: fent_def)
  with slot_flushes_cover [of "apply_stores (stores ?A) ?m" i a "[t..<Suc (t + c)]"] i
  have "Fl (DataLine l) \<in> set (commit_flushes ?m t (t + c) tid)" unfolding commit_flushes_def l by simp
  then obtain X Y where xy: "commit_flushes ?m t (t + c) tid = X @ [Fl (DataLine l)] @ Y"
    by (metis append_Cons append_Nil split_list)
  have none: "stores X = []" "stores Y = []" using commit_part_stores(1) [of ?m t "t + c" tid] unfolding xy by simp_all
  have "guar (DataLine l) ((E @ ?A @ X) @ [Fl (DataLine l)] @ Y @ [Fe]) = length (on_line (DataLine l) (stores (E @ ?A @ X)))"
    using none(2) by (intro guar_flush_fence) (simp add: in_stores [symmetric])
  then show ?thesis unfolding xy using none(1) by simp
qed

lemma commit_data_durable:
  assumes ok: "open_ok P E t c g nt"
  shows "data_before_commit (E @ commit_all (apply_stores (stores E) P) t (t + c) tid g) (t + c) g"
  unfolding data_before_commit_def
proof (intro allI impI)
  let ?m = "apply_stores (stores E) P" and ?x = "St (SEnt (t + c) (SGen g))"
  let ?D = "commit_fill (t + c) tid @ commit_flushes ?m t (t + c) tid @ [Fe]"
  let ?C = "commit_all ?m t (t + c) tid g"
  fix E1 E2 l
  assume eq: "E @ ?C = E1 @ ?x # E2"
  have nE: "slot_stores (t + c) E = []" using open_okD(7) [OF ok] by simp
  have nD: "?x \<notin> set ?D"
  proof
    assume "?x \<in> set ?D"
    then have "SEnt (t + c) (SGen g) \<in> set (slot_stores (t + c) ?D)" by (simp only: slot_stores_def in_stores set_filter) simp
    then show False by (auto simp: ent_stores_def)
  qed
  have "E @ ?C = (E @ ?D) @ commit_mark (t + c) g" by (simp add: commit_all_def)
  with eq have "(E @ ?D) @ commit_mark (t + c) g = E1 @ ?x # E2" by simp
  moreover have "?x \<notin> set (E @ ?D)" using no_slot_event [OF nE] nD by simp
  ultimately obtain E1' where E1: "E1 = (E @ ?D) @ E1'" by (rule split_right)
  have "length (on_line (DataLine l) (stores (E @ ?C))) = guar (DataLine l) (E @ ?D)"
    using data_durable_at_barrier [OF ok] by simp
  also have "\<dots> \<le> guar (DataLine l) E1" unfolding E1 by (rule guar_mono)
  finally have "length (on_line (DataLine l) (stores (E @ ?C))) \<le> guar (DataLine l) E1" .
  moreover have "guar (DataLine l) E1 \<le> length (on_line (DataLine l) (stores (E @ ?C)))"
    using guar_le [of "DataLine l" E1] unfolding eq by simp
  ultimately show "guar (DataLine l) E1 = length (on_line (DataLine l) (stores (E @ ?C)))" by simp
qed

lemma commit_trace_ok:
  assumes ok: "open_ok P E t c g nt" and c: "0 < c"
  shows "trace_ok P (E @ commit_all (apply_stores (stores E) P) t (t + c) tid g) t c g nt"
proof -
  let ?C = "commit_all (apply_stores (stores E) P) t (t + c) tid g"
  note d = open_okD [OF ok]
  have fresh: "slot_stores i ?C = []" if "i < t + c" for i using that by simp
  have "hdr_rule (E @ ?C) nt" using d(1) by (simp add: hdr_rule_def)
  moreover have "log_before_write P (E @ ?C) t c"
    using c by (intro log_before_write_extend [OF d(2)]) (simp_all add: commit_all_no_data)
  moreover have "gen_last (E @ ?C) t c g"
    unfolding gen_last_def
  proof (intro conjI allI impI)
    fix i
    assume i: "t \<le> i \<and> i \<le> t + c"
    show "\<exists>pre. slot_stores i (E @ ?C) = map (SEnt i) (pre @ [SGen g]) \<and> (\<forall>x. SGen x \<notin> set pre)"
    proof (cases "i = t + c")
      case True
      have "slot_stores i (E @ ?C) =
          map (SEnt i) ((ent_stores 0 tid 0 (\<lambda>j. 0) LE_COMMIT False @ [SType LE_COMMIT]) @ [SGen g])"
        using d(7) [of i] True by simp
      then show ?thesis
        by (intro exI [of _ "ent_stores 0 tid 0 (\<lambda>j. 0) LE_COMMIT False @ [SType LE_COMMIT]"] conjI) simp_all
    next
      case False
      with i d(4) [of i] show ?thesis by simp
    qed
  next
    fix i
    assume "i < t \<or> t + c < i"
    then show "slot_stores i (E @ ?C) = []" using d(7) [of i] by auto
  qed
  moreover have "first_is_old P (E @ ?C) t c g"
    unfolding first_is_old_def using first_is_old_extend [OF d(3), of ?C] fresh by blast
  moreover have "entry_types P (E @ ?C) t c"
  proof -
    have "fent P (E @ ?C) (t + c) = fold app_ent ((ent_stores 0 tid 0 (\<lambda>j. 0) LE_COMMIT False @ [SType LE_COMMIT]) @ [SGen g])
        (pents P (t + c))"
      using d(7) [OF disjI2 [OF order_refl]] unfolding fent_eq slot_stores_append commit_all_slots
      by (simp only: append_Nil pents_map_SEnt if_True simp_thms)
    then have "le_type (fent P (E @ ?C) (t + c)) = LE_COMMIT \<and> le_size (fent P (E @ ?C) (t + c)) = 0"
      by (simp add: ent_stores_def)
    with c d(6) show ?thesis by (simp add: entry_types_def fent_extend)
  qed
  ultimately show ?thesis using commit_data_durable [OF ok] by (simp add: trace_ok_def)
qed

lemma commit_durable:
  "slot_durable i (E @ commit_all m t i tid g) (E @ commit_all m t i tid g)"
proof -
  let ?A = "E @ commit_fill i tid @ commit_flushes m t i tid @ Fe # ent_evs i [SType LE_COMMIT, SGen g]"
  have eq: "E @ commit_all m t i tid g = ?A @ [Fl (EntLine i)] @ [] @ [Fe]" by (simp add: commit_all_def commit_mark_def)
  have "guar (EntLine i) (?A @ [Fl (EntLine i)] @ [] @ [Fe]) = length (on_line (EntLine i) (stores ?A))"
    by (rule guar_flush_fence) simp
  moreover have "slot_stores i (?A @ [Fl (EntLine i)] @ [] @ [Fe]) = slot_stores i ?A"
    by (simp only: slot_stores_append slot_stores_Fl append_Nil2)
  ultimately show ?thesis unfolding eq slot_durable_def by (simp add: slot_stores_def)
qed

end
