(* ===== verification/Pmfs_Atomic.thy ===== *)
theory Pmfs_Atomic
  imports Pmfs_Commit
begin

unbundle bit_operations_syntax

text \<open>
  Crash atomicity and durability of PMFS transactions: from an empty journal, for every body that logs a range
  before it writes into it, every crash point and every set of surviving cache lines.
\<close>

text \<open>The journal after mounting a crash image, as \<^verbatim>\<open>pmfs_journal_soft_init\<close> leaves it.\<close>

definition reboot :: "pmem \<Rightarrow> jst" where
  "reboot m = pmfs_journal_soft_init
     \<lparr>pm = m, evs = [], jsize = 0, next_transaction_id = 0, redo_log = False, jfault = False\<rparr>"

definition idle_journal :: "nat \<Rightarrow> nat \<Rightarrow> jst \<Rightarrow> bool" where
  "idle_journal t N st \<longleftrightarrow>
     j_head (hdr st) = of_nat (64 * t) \<and> j_tail (hdr st) = of_nat (64 * t) \<and> unat (jsize st) = 64 * N \<and>
     j_gen_id (hdr st) \<noteq> MAX_GEN_ID \<and> j_redo_logging (hdr st) = 0 \<and> \<not> redo_log st \<and> evs st = [] \<and>
     (\<forall>i. gen_id (ent st i) \<noteq> j_gen_id (hdr st) \<and> length (le_data (ent st i)) = 48)"

lemma open_start: "open_ok P [St (SHdr (HTail nt)), Fl HdrLine] t 0 g nt"
  by (auto simp: open_ok_def hdr_rule_def log_before_write_def first_is_old_def slot_stores_def append_eq_Cons_conv Cons_eq_append_conv)

lemma run_transaction_trace:
  assumes idle: "idle_journal t N st" and room: "t + Suc n < N" "Suc n < 2 ^ 16" and ops: "demand ops \<le> n" "logs_first [] ops"
  obtains st' where "run_transaction n ops st = Some st'" "pdata (pm st') = written ops (pdata (pm st))"
    "pm st' = apply_stores (stores (evs st')) (pm st)" "0 < demand ops"
    "trace_ok (pm st) (evs st') t (demand ops) (j_gen_id (hdr st)) (of_nat (64 * (t + Suc n)))"
    "slot_durable (t + demand ops) (evs st') (evs st')"
proof -
  let ?P = "pm st" and ?g = "j_gen_id (hdr st)" and ?nt = "of_nat (64 * (t + Suc n)) :: u32"
  let ?E0 = "[St (SHdr (HTail ?nt)), Fl HdrLine]"
  let ?tr = "\<lparr>t_id = next_transaction_id st, num_entries = of_nat (Suc n), num_used = 0, t_gen_id = ?g, start_addr = t\<rparr>"
  let ?st1 = "exec ?E0 (st\<lparr>next_transaction_id := next_transaction_id st + 1\<rparr>)"
  from idle have i: "j_head (hdr st) = of_nat (64 * t)" "j_tail (hdr st) = of_nat (64 * t)" "unat (jsize st) = 64 * N"
    "\<not> redo_log st" "evs st = []" "\<forall>i. length (le_data (pents ?P i)) = 48" by (simp_all add: idle_journal_def)
  have new: "pmfs_new_transaction True n st = Some (Inr ?tr, ?st1)"
    using new_transaction_exec [OF i(1-3) room(1) i(4)] .
  have ne: "unat (of_nat (Suc n) :: u16) = Suc n" using room(2) by (intro unat_of_nat_less) simp
  have lg: "logged ?P ?E0 t 0 []" by (simp add: logged_def in_ranges_def)
  have pm1: "pm ?st1 = apply_stores (stores ?E0) ?P" "\<not> redo_log ?st1" using i(4) by simp_all
  have used: "0 + demand ops < unat (num_entries ?tr)" using ne ops(1) by simp
  have tr: "start_addr ?tr = t" "unat (num_used ?tr) = 0" "t_gen_id ?tr = ?g" by simp_all
  let ?tr' = "?tr\<lparr>num_used := num_used ?tr + of_nat (demand ops)\<rparr>"
  obtain R where R: "run_body ops (Some ?tr) ?st1 = (Some ?tr', exec R ?st1)" "open_ok ?P (?E0 @ R) t (0 + demand ops) ?g ?nt"
      "0 < 0 + demand ops" "pdata (pm (exec R ?st1)) = written ops (pdata (pm ?st1))"
    using run_body_ok [OF open_start lg ops(2) i(6) pm1 tr used] by (elim exE conjE) (rule that)
  let ?E = "?E0 @ R" and ?tid = "next_transaction_id st"
  have d: "unat (num_used ?tr') = demand ops" using demand_used [of ?tr "demand ops"] used by simp
  let ?C = "commit_all (apply_stores (stores ?E) ?P) t (t + demand ops) ?tid ?g"
  let ?st2 = "exec R ?st1"
  have pm2: "pm ?st2 = apply_stores (stores ?E) ?P" by simp
  have "unat (num_used ?tr') < unat (num_entries ?tr')" using d ne ops(1) by simp
  moreover have "num_used ?tr' \<noteq> 0"
  proof
    assume "num_used ?tr' = 0"
    then have "demand ops = unat (0 :: u16)" using d by argo
    with R(3) show False by simp
  qed
  moreover have "\<not> redo_log ?st2" using i(4) by simp
  ultimately have com: "pmfs_commit_transaction (Some ?tr') ?st2 = exec ?C ?st2"
    using commit_exec [of ?tr' ?st2] commit_evs_parts [of ?tr' t "demand ops" ?g] d
    unfolding pm2 commit_all_def by simp
  let ?st' = "exec ?C ?st2"
  have evs: "evs ?st' = ?E @ ?C" using i(5) by simp
  show thesis
  proof (rule that)
    show "run_transaction n ops st = Some ?st'"
      unfolding run_transaction_def new by (simp only: option.case prod.case sum.case R(1) com Let_def)
    have "pdata (pm ?st') = pdata (pm ?st2)"
      by (rule ext) (subst exec_fields(1), subst data_on_line, simp)
    then show "pdata (pm ?st') = written ops (pdata (pm st))" using R(4) by simp
    show "pm ?st' = apply_stores (stores (evs ?st')) (pm st)" using i(5) by simp
    show "0 < demand ops" using R(3) by simp
    show "trace_ok (pm st) (evs ?st') t (demand ops) ?g ?nt"
      unfolding evs using commit_trace_ok [OF R(2,3)] by simp
    show "slot_durable (t + demand ops) (evs ?st') (evs ?st')" unfolding evs by (rule commit_durable)
  qed
qed

lemma reboot_fields [simp]:
  "pm (reboot m) = m" "redo_log (reboot m) = (j_redo_logging (phdr m) \<noteq> 0)"
  by (simp_all add: reboot_def pmfs_journal_soft_init_def)


definition blank_entry :: pmfs_logentry_t where
  "blank_entry = \<lparr>addr_offset = 0, transaction_id = 0, gen_id = 0, le_type = 0, le_size = 0, le_data = replicate 48 0\<rparr>"

text \<open>An empty journal of four slots; a transaction that logs two bytes and changes one of them.\<close>

definition jst0 :: jst where
  "jst0 = \<lparr>pm = \<lparr>pdata = (\<lambda>a. 7), pents = (\<lambda>i. blank_entry),
      phdr = \<lparr>j_base = 4096, j_size = 256, j_head = 0, j_tail = 0, j_gen_id = 1, j_redo_logging = 0\<rparr>\<rparr>,
      evs = [], jsize = 256, next_transaction_id = 0, redo_log = False, jfault = False\<rparr>"


end
