(* ===== verification/Nvm.thy ===== *)
theory Nvm
  imports Prelude Cache_Lines
begin

unbundle bit_operations_syntax

text \<open>
  Persistent memory as bytes, for the code that works on raw addresses (NOVA).  A store is one machine
  store of up to eight bytes inside a cache line; addresses are offsets from the start of the device.
\<close>

type_synonym mem = "nat \<Rightarrow> u8"
type_synonym nstore = "nat \<times> u8 list"
type_synonym nevent = "(nstore, nat) cache_event"

definition nput :: "nat \<Rightarrow> u8 list \<Rightarrow> mem \<Rightarrow> mem" where
  "nput a bs m = (\<lambda>x. if a \<le> x \<and> x < a + length bs then bs ! (x - a) else m x)"

definition nget :: "mem \<Rightarrow> nat \<Rightarrow> nat \<Rightarrow> u8 list" where
  "nget m a n = map m [a..<a + n]"

definition nline :: "nstore \<Rightarrow> nat" where "nline s = fst s div 64"

definition napply :: "nstore list \<Rightarrow> mem \<Rightarrow> mem" where
  "napply ss m = fold (\<lambda>(a, bs). nput a bs) ss m"

abbreviation nguar :: "nat \<Rightarrow> nevent list \<Rightarrow> nat" where "nguar \<equiv> line_guar nline"

abbreviation nline_stores :: "nat \<Rightarrow> nstore list \<Rightarrow> nstore list" where
  "nline_stores l ss \<equiv> filter (\<lambda>s. nline s = l) ss"

definition ncrash :: "(nat \<Rightarrow> nat) \<Rightarrow> nevent list \<Rightarrow> mem \<Rightarrow> mem" where
  "ncrash k es m = napply (line_persist nline k (stores es)) m"

definition ncrash_choice :: "(nat \<Rightarrow> nat) \<Rightarrow> nevent list \<Rightarrow> bool" where
  "ncrash_choice k es \<longleftrightarrow> (\<forall>l. nguar l es \<le> k l)"

section \<open>Words in memory\<close>

definition le64 :: "u64 \<Rightarrow> u8 list" where "le64 w = le_bytes 8 (unat w)"
definition le32 :: "u32 \<Rightarrow> u8 list" where "le32 w = le_bytes 4 (unat w)"

definition get64 :: "mem \<Rightarrow> nat \<Rightarrow> u64" where "get64 m a = of_nat (le_nat (nget m a 8))"
definition get32 :: "mem \<Rightarrow> nat \<Rightarrow> u32" where "get32 m a = of_nat (le_nat (nget m a 4))"

lemma length_le64 [simp]: "length (le64 w) = 8" by (simp add: le64_def)
lemma length_le32 [simp]: "length (le32 w) = 4" by (simp add: le32_def)

lemma le_not_Nil [simp]: "le64 w \<noteq> []" "le32 v \<noteq> []"
  using length_le64 [of w] length_le32 [of v] by (metis list.size(3) zero_neq_numeral)+

lemma length_nget [simp]: "length (nget m a n) = n" by (simp add: nget_def)

lemma nget_nth [simp]: "j < n \<Longrightarrow> nget m a n ! j = m (a + j)" by (simp add: nget_def)

lemma nget_put_same [simp]: "length bs = n \<Longrightarrow> nget (nput a bs m) a n = bs"
  by (auto simp: nget_def nput_def intro: nth_equalityI)

lemma nget_cong: "(\<And>x. a \<le> x \<Longrightarrow> x < a + n \<Longrightarrow> m x = m' x) \<Longrightarrow> nget m a n = nget m' a n"
  by (simp add: nget_def)

lemma nget_put_other [simp]:
  "b + length bs \<le> a \<or> a + n \<le> b \<Longrightarrow> nget (nput b bs m) a n = nget m a n"
  by (intro nget_cong) (auto simp: nput_def)

lemma le_nat_bound: "le_nat bs < 256 ^ length bs"
proof (induction bs)
  case Nil
  then show ?case by simp
next
  case (Cons b bs)
  have "unat b < 256" using unat_bound [of b] by simp
  with Cons show ?case by simp
qed

lemma le_bytes_le_nat: "le_bytes (length bs) (le_nat bs) = bs"
proof (induction bs)
  case Nil
  then show ?case by simp
next
  case (Cons b bs)
  have b: "unat b < 256" using unat_bound [of b] by simp
  then have "(unat b + 256 * le_nat bs) mod 256 = unat b" "(unat b + 256 * le_nat bs) div 256 = le_nat bs" by simp_all
  with Cons show ?case by simp
qed

text \<open>Writing a word back that was read restores its eight bytes.\<close>

lemma le64_get64: "le64 (get64 m a) = nget m a 8"
proof -
  have "le_nat (nget m a 8) < 2 ^ 64" using le_nat_bound [of "nget m a 8"] by simp
  then have "unat (get64 m a) = le_nat (nget m a 8)" unfolding get64_def by (intro unat_of_nat_less) simp
  then show ?thesis unfolding le64_def using le_bytes_le_nat [of "nget m a 8"] by simp
qed

lemma get64_of_bytes: "nget m a 8 = le64 w \<Longrightarrow> get64 m a = w"
  by (simp add: get64_def le64_def)

lemma get32_of_bytes: "nget m a 4 = le32 w \<Longrightarrow> get32 m a = w"
proof -
  assume a: "nget m a 4 = le32 w"
  have "unat w < 256 ^ 4" using unat_bound [of w] by simp
  with a show "get32 m a = w" by (simp add: get32_def le32_def le_nat_le_bytes)
qed

lemma get64_cong: "(\<And>x. a \<le> x \<Longrightarrow> x < a + 8 \<Longrightarrow> m x = m' x) \<Longrightarrow> get64 m a = get64 m' a"
  unfolding get64_def using nget_cong [of a 8 m m'] by simp

section \<open>Stores and lines\<close>

text \<open>A store that a processor makes at once does not cross a cache line.\<close>

definition in_line :: "nstore \<Rightarrow> bool" where
  "in_line s \<longleftrightarrow> snd s \<noteq> [] \<and> (fst s + length (snd s) - 1) div 64 = fst s div 64"

lemma in_line_aligned:
  assumes "n dvd 64" "a mod n = 0" "bs \<noteq> []" "length bs \<le> n"
  shows "in_line (a, bs)"
proof -
  obtain c where c: "64 = n * c" using assms(1) by (rule dvdE)
  then have n: "0 < n" by (cases n) simp_all
  have d: "(a + r) div 64 = a div n div c" if "r < n" for r
  proof -
    have "(a + r) div 64 = (a + r) div n div c" unfolding c by (rule div_mult2_eq)
    moreover have "(a + r) div n = a div n"
      using div_add1_eq [of a r n] assms(2) that by simp
    ultimately show ?thesis by simp
  qed
  have r: "length bs - 1 < n" "a + length bs - 1 = a + (length bs - 1)"
    using assms(3,4) n by (cases bs; simp)+
  show ?thesis
    unfolding in_line_def fst_conv snd_conv using assms(3) d [OF n] d [OF r(1)] r(2) by simp
qed

lemma in_line_byte:
  assumes "in_line s" "fst s \<le> x" "x < fst s + length (snd s)"
  shows "x div 64 = nline s"
proof -
  have "fst s div 64 \<le> x div 64" using assms(2) by (rule div_le_mono)
  moreover have "x div 64 \<le> (fst s + length (snd s) - 1) div 64" using assms(3) by (intro div_le_mono) simp
  ultimately show ?thesis using assms(1) by (simp add: in_line_def nline_def)
qed

lemma napply_simps [simp]:
  "napply [] m = m" "napply (s # ss) m = napply ss (nput (fst s) (snd s) m)" "napply (ss @ ts) m = napply ts (napply ss m)"
  by (auto simp: napply_def split: prod.splits)

lemma napply_untouched:
  "\<forall>s \<in> set ss. x < fst s \<or> fst s + length (snd s) \<le> x \<Longrightarrow> napply ss m x = m x"
  by (induction ss arbitrary: m) (auto simp: nput_def)

text \<open>A byte depends on the stores to its own line only.\<close>

lemma napply_on_line:
  "\<forall>s \<in> set ss. in_line s \<Longrightarrow> m x = m' x \<Longrightarrow> napply ss m x = napply (nline_stores (x div 64) ss) m' x"
proof (induction ss arbitrary: m m')
  case Nil
  then show ?case by simp
next
  case (Cons s ss)
  have "nput (fst s) (snd s) m x = m x" if "nline s \<noteq> x div 64"
    using in_line_byte [of s x] Cons.prems(1) that by (auto simp: nput_def)
  moreover have "nput (fst s) (snd s) m x = nput (fst s) (snd s) m' x" using Cons.prems(2) by (simp add: nput_def)
  ultimately show ?case
    using Cons.IH [of "nput (fst s) (snd s) m" "nput (fst s) (snd s) m'"] Cons.IH [of "nput (fst s) (snd s) m" m'] Cons.prems
    by (cases "nline s = x div 64") simp_all
qed

lemma in_line_persist: "\<forall>s \<in> set ss. in_line s \<Longrightarrow> \<forall>s \<in> set (line_persist lo k ss). in_line s"
  by (induction ss arbitrary: k) (auto split: nat.splits)

lemma ncrash_byte:
  assumes "\<forall>s \<in> set (stores es). in_line s"
  shows "ncrash k es m x = napply (take (k (x div 64)) (nline_stores (x div 64) (stores es))) m x"
  unfolding ncrash_def
  using napply_on_line [OF in_line_persist [OF assms], of m x m nline k] by (simp add: line_persist_filter)

text \<open>A byte of a line whose stores are all durable survives.\<close>

lemma ncrash_durable:
  assumes "\<forall>s \<in> set (stores es). in_line s" "ncrash_choice k es"
    "nguar (x div 64) es = length (nline_stores (x div 64) (stores es))"
  shows "ncrash k es m x = napply (stores es) m x"
proof -
  have "length (nline_stores (x div 64) (stores es)) \<le> k (x div 64)"
    using assms(2,3) by (metis ncrash_choice_def)
  then show ?thesis
    unfolding ncrash_byte [OF assms(1)] using napply_on_line [OF assms(1), of m x m] by simp
qed

lemma ncrash_untouched:
  assumes "\<forall>s \<in> set (stores es). in_line s" "\<forall>s \<in> set (stores es). x < fst s \<or> fst s + length (snd s) \<le> x"
  shows "ncrash k es m x = m x"
  unfolding ncrash_byte [OF assms(1)]
proof (rule napply_untouched, rule ballI)
  fix s
  assume "s \<in> set (take (k (x div 64)) (nline_stores (x div 64) (stores es)))"
  then have "s \<in> set (nline_stores (x div 64) (stores es))" by (rule in_set_takeD)
  with assms(2) show "x < fst s \<or> fst s + length (snd s) \<le> x" by simp
qed

text \<open>A line that was not stored to before.\<close>

lemma fresh_line_dur: "nline_stores l (stores es) = [] \<Longrightarrow> line_dur nline l es = (0, 0, 0)"
  using line_dur_bounds [of nline l es] by (cases "line_dur nline l es") auto

lemma fresh_line_guar: "nline_stores l (stores es) = [] \<Longrightarrow> nguar l (es @ fs) = nguar l fs"
  by (simp add: line_guar_def line_dur_append fresh_line_dur) (simp add: line_dur_def)

end
