(* ===== verification/Nova_Journal.thy ===== *)
theory Nova_Journal
  imports Nvm
begin

unbundle bit_operations_syntax

text \<open>
  The lite journal of NOVA (journal.c, journal.h): a circular undo log of one page per processor, made of
  32-byte entries that hold the address and the old value of one aligned 64-bit word, or the addresses of an
  inode and its replica.  The head and tail pointers of a processor share one cache line.

  The operations work on bytes at device offsets and record their stores, flushes and fences.
  \<open>crc\<close> stands for the kernel's CRC32C with the start value \<^verbatim>\<open>~0\<close>.  A failing \<^verbatim>\<open>BUG\<close> check is the fault
  \<open>BUG\<close>, a write through the null pointer that \<^verbatim>\<open>nova_get_block\<close> returns for offset 0 sets \<open>null_write\<close>.
  Write protection and debug output are left out.
\<close>

section \<open>State and primitive steps\<close>

record nova_st =
  nmem :: mem
  nevs :: "nevent list"
  cpus :: nat
  metadata_csum :: bool
  null_write :: bool

datatype nova_fault = BUG

definition nova_store :: "nat \<Rightarrow> u8 list \<Rightarrow> nova_st \<Rightarrow> nova_st" where
  "nova_store a bs st = st\<lparr>nmem := nput a bs (nmem st), nevs := nevs st @ [St (a, bs)]\<rparr>"

definition nova_barrier :: "nova_st \<Rightarrow> nova_st" where
  "nova_barrier st = st\<lparr>nevs := nevs st @ [Fe]\<rparr>"

definition nova_flush_lines :: "nat \<Rightarrow> nat \<Rightarrow> nat list" where
  "nova_flush_lines buf len = map (\<lambda>k. (buf + 64 * k) div 64) [0..<(len + buf mod 64 + 63) div 64]"

definition nova_flush_buffer :: "nat \<Rightarrow> nat \<Rightarrow> bool \<Rightarrow> nova_st \<Rightarrow> nova_st" where
  "nova_flush_buffer buf len fence st =
     (let st1 = st\<lparr>nevs := nevs st @ map Fl (nova_flush_lines buf len)\<rparr>
      in if fence then nova_barrier st1 else st1)"

section \<open>Entries\<close>

definition JOURNAL_INODE :: u64 where "JOURNAL_INODE = 1"
definition JOURNAL_ENTRY :: u64 where "JOURNAL_ENTRY = 2"

text \<open>Offsets of the fields of an entry: \<^verbatim>\<open>type\<close> 0, \<^verbatim>\<open>data1\<close> 8, \<^verbatim>\<open>data2\<close> 16, \<^verbatim>\<open>padding\<close> 24, \<^verbatim>\<open>csum\<close> 28.\<close>

definition nova_update_journal_entry_csum :: "(u8 list \<Rightarrow> u32) \<Rightarrow> nat \<Rightarrow> nova_st \<Rightarrow> nova_st" where
  "nova_update_journal_entry_csum crc entry st =
     nova_store (entry + 28) (le32 (crc (nget (nmem st) entry 28))) st"

definition nova_check_entry_integrity :: "(u8 list \<Rightarrow> u32) \<Rightarrow> nat \<Rightarrow> nova_st \<Rightarrow> int" where
  "nova_check_entry_integrity crc entry st =
     (if get32 (nmem st) (entry + 28) = crc (nget (nmem st) entry 28) then 0 else 1)"

definition next_lite_journal :: "u64 \<Rightarrow> u64" where
  "next_lite_journal curr_p = (if (curr_p AND 4095) + 32 \<ge> 4096 then curr_p AND NOT 4095 else curr_p + 32)"

text \<open>The pointer pair of a processor: \<^verbatim>\<open>journal_head\<close> at offset 0, \<^verbatim>\<open>journal_tail\<close> at offset 8.\<close>

definition nova_get_journal_pointers :: "nat \<Rightarrow> nova_st \<Rightarrow> nova_fault + nat" where
  "nova_get_journal_pointers cpu st =
     (if cpu \<ge> cpus st then Inl BUG else Inr (4096 * 48 + cpu * 64))"

abbreviation journal_head :: "nova_st \<Rightarrow> nat \<Rightarrow> u64" where "journal_head st pair \<equiv> get64 (nmem st) pair"
abbreviation journal_tail :: "nova_st \<Rightarrow> nat \<Rightarrow> u64" where "journal_tail st pair \<equiv> get64 (nmem st) (pair + 8)"

partial_function (option) check_entries :: "(u8 list \<Rightarrow> u32) \<Rightarrow> nat \<Rightarrow> u64 \<Rightarrow> nova_st \<Rightarrow> int option" where
  "check_entries crc pair temp st =
     (if temp = journal_tail st pair then Some 0
      else
        let ret = nova_check_entry_integrity crc (unat temp) st
        in if ret \<noteq> 0 then Some ret else check_entries crc pair (next_lite_journal temp) st)"

definition nova_check_journal_entries :: "(u8 list \<Rightarrow> u32) \<Rightarrow> nat \<Rightarrow> nova_st \<Rightarrow> int option" where
  "nova_check_journal_entries crc pair st = check_entries crc pair (journal_head st pair) st"

section \<open>Recovery\<close>

text \<open>
  \<^verbatim>\<open>memcpy_to_pmem_nocache\<close> of an inode: fifteen non-temporal 64-bit stores, then flush and fence.
\<close>

definition NOVA_INODE_BYTES :: nat where "NOVA_INODE_BYTES = 120"

definition nova_copy_words :: "nat \<Rightarrow> nat \<Rightarrow> nat \<Rightarrow> nova_st \<Rightarrow> nova_st" where
  "nova_copy_words dst src n st =
     fold (\<lambda>i st. nova_store (dst + 8 * i) (nget (nmem st) (src + 8 * i) 8) st) [0..<n] st"

definition nova_undo_journal_inode :: "nat \<Rightarrow> nova_st \<Rightarrow> nova_st" where
  "nova_undo_journal_inode entry st =
     (if \<not> metadata_csum st then st
      else
        let pi = unat (get64 (nmem st) (entry + 8)); alter_pi = unat (get64 (nmem st) (entry + 16))
        in if pi = 0 \<or> alter_pi = 0 then st\<lparr>null_write := True\<rparr>
           else nova_flush_buffer pi NOVA_INODE_BYTES True (nova_copy_words pi alter_pi (NOVA_INODE_BYTES div 8) st))"

definition nova_undo_journal_entry :: "nat \<Rightarrow> nova_st \<Rightarrow> nova_st" where
  "nova_undo_journal_entry entry st =
     (let addr = unat (get64 (nmem st) (entry + 8)); val = get64 (nmem st) (entry + 16)
      in if addr = 0 then st\<lparr>null_write := True\<rparr>
         else nova_flush_buffer addr 64 False (nova_store addr (le64 val) st))"

definition nova_undo_lite_journal_entry :: "nat \<Rightarrow> nova_st \<Rightarrow> nova_st" where
  "nova_undo_lite_journal_entry entry st =
     (let ty = get64 (nmem st) entry
      in if ty = JOURNAL_INODE then nova_undo_journal_inode entry st
         else if ty = JOURNAL_ENTRY then nova_undo_journal_entry entry st
         else st)"

partial_function (option) recover_entries :: "nat \<Rightarrow> u64 \<Rightarrow> nova_st \<Rightarrow> nova_st option" where
  "recover_entries pair temp st =
     (if temp = journal_tail st pair then Some st
      else recover_entries pair (next_lite_journal temp) (nova_undo_lite_journal_entry (unat temp) st))"

definition nova_recover_lite_journal :: "nat \<Rightarrow> nova_st \<Rightarrow> nova_st option" where
  "nova_recover_lite_journal pair st =
     (case recover_entries pair (journal_head st pair) st of
        None \<Rightarrow> None
      | Some st1 \<Rightarrow>
          Some (nova_flush_buffer pair 64 True (nova_store (pair + 8) (le64 (journal_head st1 pair)) st1)))"

section \<open>Building a transaction\<close>

record nova_inode_ref =
  pi_addr :: u64
  alter_pi_addr :: u64
  pi_readable :: bool

definition nova_append_replica_inode_journal :: "(u8 list \<Rightarrow> u32) \<Rightarrow> u64 \<Rightarrow> nova_inode_ref \<Rightarrow> nova_st \<Rightarrow> u64 \<times> nova_st" where
  "nova_append_replica_inode_journal crc curr_p inode st =
     (let e = unat curr_p;
          st1 = nova_store e (le64 JOURNAL_INODE) st;
          st2 = nova_store (e + 24) (le32 0) st1;
          st3 = nova_store (e + 8) (le64 (pi_addr inode)) st2;
          st4 = nova_store (e + 16) (le64 (alter_pi_addr inode)) st3
      in (next_lite_journal curr_p, nova_update_journal_entry_csum crc e st4))"

definition nova_append_entry_journal :: "(u8 list \<Rightarrow> u32) \<Rightarrow> u64 \<Rightarrow> u64 \<Rightarrow> nova_st \<Rightarrow> u64 \<times> nova_st" where
  "nova_append_entry_journal crc curr_p field st =
     (let e = unat curr_p;
          st1 = nova_store e (le64 JOURNAL_ENTRY) st;
          st2 = nova_store (e + 24) (le32 0) st1;
          addr = field AND NOT 7;
          st3 = nova_store (e + 8) (le64 addr) st2;
          st4 = nova_store (e + 16) (le64 (get64 (nmem st3) (unat addr))) st3
      in (next_lite_journal curr_p, nova_update_journal_entry_csum crc e st4))"

text \<open>
  Offsets in \<^verbatim>\<open>struct nova_inode\<close>: \<^verbatim>\<open>valid\<close> 1, \<^verbatim>\<open>log_tail\<close> 72, \<^verbatim>\<open>alter_log_tail\<close> 88, \<^verbatim>\<open>delete_epoch_id\<close> 104; in
  \<^verbatim>\<open>struct nova_dentry\<close>: \<^verbatim>\<open>reassigned\<close> 2, \<^verbatim>\<open>invalid\<close> 3, \<^verbatim>\<open>csum\<close> 12, \<^verbatim>\<open>ino\<close> 16.
\<close>

definition nova_journal_inode_tail :: "(u8 list \<Rightarrow> u32) \<Rightarrow> u64 \<Rightarrow> u64 \<Rightarrow> nova_st \<Rightarrow> u64 \<times> nova_st" where
  "nova_journal_inode_tail crc curr_p pi st =
     (let (p1, st1) = nova_append_entry_journal crc curr_p (pi + 72) st
      in if metadata_csum st1 then nova_append_entry_journal crc p1 (pi + 88) st1 else (p1, st1))"

definition nova_append_inode_journal ::
    "(u8 list \<Rightarrow> u32) \<Rightarrow> u64 \<Rightarrow> nova_inode_ref \<Rightarrow> bool \<Rightarrow> bool \<Rightarrow> bool \<Rightarrow> nova_st \<Rightarrow> u64 \<times> nova_st" where
  "nova_append_inode_journal crc curr_p inode new_inode invalidate is_dir st =
     (if metadata_csum st then nova_append_replica_inode_journal crc curr_p inode st
      else if \<not> pi_readable inode then (curr_p, st)
      else if is_dir then nova_journal_inode_tail crc curr_p (pi_addr inode) st
      else if new_inode then nova_append_entry_journal crc curr_p (pi_addr inode + 1) st
      else
        let (p1, st1) = nova_journal_inode_tail crc curr_p (pi_addr inode) st
        in if invalidate then
             let (p2, st2) = nova_append_entry_journal crc p1 (pi_addr inode + 1) st1
             in nova_append_entry_journal crc p2 (pi_addr inode + 104) st2
           else (p1, st1))"

definition nova_append_dentry_journal :: "(u8 list \<Rightarrow> u32) \<Rightarrow> u64 \<Rightarrow> u64 \<Rightarrow> nova_st \<Rightarrow> u64 \<times> nova_st" where
  "nova_append_dentry_journal crc curr_p dentry st =
     (let (p1, st1) = nova_append_entry_journal crc curr_p (dentry + 16) st;
          (p2, st2) = nova_append_entry_journal crc p1 (dentry + 12) st1;
          (p3, st3) = nova_append_entry_journal crc p2 (dentry + 2) st2
      in nova_append_entry_journal crc p3 (dentry + 3) st3)"

definition nova_flush_journal_in_batch :: "u64 \<Rightarrow> u64 \<Rightarrow> nova_st \<Rightarrow> nova_st" where
  "nova_flush_journal_in_batch head tail st =
     (let st1 = (if head < tail then nova_flush_buffer (unat head) (unat (tail - head)) False st
                 else
                   let st2 = nova_flush_buffer (unat head) (unat (4096 - (head AND 4095))) False st
                   in nova_flush_buffer (unat (tail AND NOT 4095)) (unat (tail AND 4095)) False st2)
      in nova_barrier st1)"

text \<open>The common frame of the three transactions: check the pointers, append, flush, set the tail.\<close>

definition nova_begin :: "nat \<Rightarrow> (u64 \<Rightarrow> nova_st \<Rightarrow> u64 \<times> nova_st) \<Rightarrow> nova_st \<Rightarrow> nova_fault + (u64 \<times> nova_st)" where
  "nova_begin cpu app st =
     rbind (nova_get_journal_pointers cpu st) (\<lambda>pair.
       if journal_head st pair = 0 \<or> journal_head st pair \<noteq> journal_tail st pair then Inl BUG
       else
         let (temp, st1) = app (journal_head st pair) st;
             st2 = nova_flush_journal_in_batch (journal_head st1 pair) temp st1;
             st3 = nova_store (pair + 8) (le64 temp) st2
         in Inr (temp, nova_flush_buffer pair 64 True st3))"

definition nova_create_inode_transaction ::
    "(u8 list \<Rightarrow> u32) \<Rightarrow> nova_inode_ref \<Rightarrow> nova_inode_ref \<Rightarrow> nat \<Rightarrow> bool \<Rightarrow> bool \<Rightarrow> nova_st \<Rightarrow> nova_fault + (u64 \<times> nova_st)" where
  "nova_create_inode_transaction crc inode dir cpu new_inode invalidate st =
     nova_begin cpu (\<lambda>temp st.
       let (t1, st1) = nova_append_inode_journal crc temp inode new_inode invalidate False st
       in nova_append_inode_journal crc t1 dir new_inode invalidate True st1) st"

text \<open>An optional argument is a pointer that may be null.\<close>

definition opt_append :: "('a \<Rightarrow> u64 \<Rightarrow> nova_st \<Rightarrow> u64 \<times> nova_st) \<Rightarrow> 'a option \<Rightarrow> u64 \<times> nova_st \<Rightarrow> u64 \<times> nova_st" where
  "opt_append f x s = (case x of None \<Rightarrow> s | Some a \<Rightarrow> f a (fst s) (snd s))"

definition nova_create_rename_transaction ::
    "(u8 list \<Rightarrow> u32) \<Rightarrow> nova_inode_ref \<Rightarrow> nova_inode_ref \<Rightarrow> nova_inode_ref option \<Rightarrow> nova_inode_ref option \<Rightarrow>
     u64 option \<Rightarrow> u64 option \<Rightarrow> u64 option \<Rightarrow> bool \<Rightarrow> nat \<Rightarrow> nova_st \<Rightarrow> nova_fault + (u64 \<times> nova_st)" where
  "nova_create_rename_transaction crc old_inode old_dir new_inode new_dir father_entry new_dentry old_dentry
       invalidate_new_inode cpu st =
     nova_begin cpu (\<lambda>temp st.
       let s1 = nova_append_inode_journal crc temp old_inode False False False st;
           s2 = nova_append_inode_journal crc (fst s1) old_dir False False True (snd s1);
           s3 = opt_append (\<lambda>i p. nova_append_inode_journal crc p i False invalidate_new_inode False) new_inode s2;
           s4 = opt_append (\<lambda>i p. nova_append_inode_journal crc p i False False True) new_dir s3;
           s5 = opt_append (\<lambda>d p. nova_append_dentry_journal crc p d) father_entry s4;
           s6 = opt_append (\<lambda>d p. nova_append_dentry_journal crc p d) new_dentry s5
       in opt_append (\<lambda>d p. nova_append_dentry_journal crc p d) old_dentry s6) st"

datatype nova_entry_type =
  FILE_WRITE | DIR_LOG | SET_ATTR | LINK_CHANGE | MMAP_WRITE | SNAPSHOT_INFO | NEXT_PAGE

fun nova_get_log_entry_size :: "nova_entry_type \<Rightarrow> nat" where
  "nova_get_log_entry_size FILE_WRITE = 64"
| "nova_get_log_entry_size DIR_LOG = 48"
| "nova_get_log_entry_size SET_ATTR = 56"
| "nova_get_log_entry_size LINK_CHANGE = 40"
| "nova_get_log_entry_size MMAP_WRITE = 40"
| "nova_get_log_entry_size SNAPSHOT_INFO = 40"
| "nova_get_log_entry_size NEXT_PAGE = 0"

definition append_words :: "(u8 list \<Rightarrow> u32) \<Rightarrow> u64 \<Rightarrow> nat \<Rightarrow> u64 \<Rightarrow> nova_st \<Rightarrow> u64 \<times> nova_st" where
  "append_words crc entry count temp st =
     fold (\<lambda>i (p, st). nova_append_entry_journal crc p (entry + of_nat (i * 8)) st) [0..<count] (temp, st)"

definition nova_create_logentry_transaction ::
    "(u8 list \<Rightarrow> u32) \<Rightarrow> u64 \<Rightarrow> nova_entry_type \<Rightarrow> nat \<Rightarrow> nova_st \<Rightarrow> nova_fault + (u64 \<times> nova_st)" where
  "nova_create_logentry_transaction crc entry ty cpu st =
     nova_begin cpu (append_words crc entry (nova_get_log_entry_size ty div 8)) st"

definition nova_commit_lite_transaction :: "u64 \<Rightarrow> nat \<Rightarrow> nova_st \<Rightarrow> nova_fault + nova_st" where
  "nova_commit_lite_transaction tail cpu st =
     rbind (nova_get_journal_pointers cpu st) (\<lambda>pair.
       if journal_tail st pair \<noteq> tail then Inl BUG
       else Inr (nova_flush_buffer pair 64 True (nova_store pair (le64 tail) st)))"

section \<open>Initialisation\<close>

text \<open>The loop over the processors; \<open>None\<close> is a walk of a journal that never ends.\<close>

fun soft_init_cpus :: "(u8 list \<Rightarrow> u32) \<Rightarrow> nat list \<Rightarrow> int \<Rightarrow> nova_st \<Rightarrow> (int \<times> nova_st) option" where
  "soft_init_cpus crc [] ret st = Some (ret, st)"
| "soft_init_cpus crc (i # is) ret st =
     (let pair = 4096 * 48 + i * 64
      in if journal_head st pair = journal_tail st pair then soft_init_cpus crc is ret st
         else
           case nova_check_journal_entries crc pair st of
             None \<Rightarrow> None
           | Some r \<Rightarrow>
               if r \<noteq> 0 then Some (- 22, st)
               else
                 (case nova_recover_lite_journal pair st of
                    None \<Rightarrow> None
                  | Some st1 \<Rightarrow> soft_init_cpus crc is 0 st1))"

definition nova_lite_journal_soft_init :: "(u8 list \<Rightarrow> u32) \<Rightarrow> bool \<Rightarrow> nova_st \<Rightarrow> (int \<times> nova_st) option" where
  "nova_lite_journal_soft_init crc locks_allocated st =
     (if \<not> locks_allocated then Some (- 12, st) else soft_init_cpus crc [0..<cpus st] 0 st)"

text \<open>
  \<open>blocks\<close> holds, per processor, the block number that \<^verbatim>\<open>nova_new_log_blocks\<close> gave, or \<open>None\<close> when it did not
  allocate one block.
\<close>

fun hard_init_cpus :: "nat \<Rightarrow> u64 option list \<Rightarrow> nova_st \<Rightarrow> int \<times> nova_st" where
  "hard_init_cpus i [] st = (0, st)"
| "hard_init_cpus i (b # bs) st =
     (case b of
        None \<Rightarrow> (- 28, st)
      | Some blocknr \<Rightarrow>
          if blocknr = 0 then (- 28, st)
          else
            let pair = 4096 * 48 + i * 64;
                block = push_bit 12 blocknr;
                st1 = nova_store (pair + 8) (le64 block) st;
                st2 = nova_store pair (le64 block) st1
            in hard_init_cpus (Suc i) bs (nova_flush_buffer pair 64 False st2))"

definition nova_lite_journal_hard_init ::
    "(u8 list \<Rightarrow> u32) \<Rightarrow> bool \<Rightarrow> u64 option list \<Rightarrow> nova_st \<Rightarrow> (int \<times> nova_st) option" where
  "nova_lite_journal_hard_init crc locks_allocated blocks st =
     (let (err, st1) = hard_init_cpus 0 (take (cpus st) blocks) st
      in if err \<noteq> 0 then Some (err, st1)
         else nova_lite_journal_soft_init crc locks_allocated (nova_barrier st1))"

end
