(* ===== verification/Nova_Jnl_Run.thy ===== *)
theory Nova_Jnl_Run
  imports Nova_Journal Undo_Log
begin

unbundle bit_operations_syntax

text \<open>
  The events of the lite-journal operations without metadata checksums, and the positions in the circular
  journal page.
\<close>

section \<open>Executing events\<close>

definition nexec :: "nevent list \<Rightarrow> nova_st \<Rightarrow> nova_st" where
  "nexec es st = st\<lparr>nmem := napply (stores es) (nmem st), nevs := nevs st @ es\<rparr>"

lemma nexec_simps [simp]:
  "nexec [] st = st" "nexec fs (nexec es st) = nexec (es @ fs) st"
  "nmem (nexec es st) = napply (stores es) (nmem st)" "nevs (nexec es st) = nevs st @ es"
  "cpus (nexec es st) = cpus st" "metadata_csum (nexec es st) = metadata_csum st" "null_write (nexec es st) = null_write st"
  by (simp_all add: nexec_def)

lemma nova_primitive_exec:
  "nova_store a bs st = nexec [St (a, bs)] st" "nova_barrier st = nexec [Fe] st"
  "nova_flush_buffer a n b st = nexec (map Fl (nova_flush_lines a n) @ (if b then [Fe] else [])) st"
  by (simp_all add: nexec_def nova_store_def nova_barrier_def nova_flush_buffer_def Let_def)

section \<open>Positions\<close>

text \<open>Slot \<open>i\<close> of the journal page at \<open>b\<close>, counted around the page.\<close>

definition jpos :: "nat \<Rightarrow> nat \<Rightarrow> nat" where "jpos b i = b + 32 * (i mod 128)"

definition page_ok :: "nat \<Rightarrow> bool" where "page_ok b \<longleftrightarrow> b mod 4096 = 0 \<and> 0 < b \<and> b + 4096 \<le> 2 ^ 64"

lemma jpos_range: "b \<le> jpos b i" "jpos b i + 32 \<le> b + 4096"
proof -
  have "i mod 128 \<le> 127" using mod_less_divisor [of 128 i] by simp
  then show "b \<le> jpos b i" "jpos b i + 32 \<le> b + 4096" by (simp_all add: jpos_def)
qed

lemma unat_jpos:
  assumes "page_ok b"
  shows "unat (of_nat (jpos b i) :: u64) = jpos b i"
  using assms jpos_range [of b i] by (intro unat_of_nat_less) (simp add: page_ok_def)

lemma jpos_distinct: "\<lbrakk>i < j; j < i + 128\<rbrakk> \<Longrightarrow> jpos b i \<noteq> jpos b j"
proof
  assume a: "i < j" "j < i + 128" "jpos b i = jpos b j"
  then have "j mod 128 = i mod 128" by (simp add: jpos_def)
  then have "128 dvd j - i" using a(1) by (simp add: mod_eq_dvd_iff_nat)
  with a show False by (auto dest: dvd_imp_le)
qed

lemma jpos_apart: "\<lbrakk>i < j; j < i + 128\<rbrakk> \<Longrightarrow> jpos b i + 32 \<le> jpos b j \<or> jpos b j + 32 \<le> jpos b i"
  using jpos_distinct [of i j b] by (auto simp: jpos_def)

lemma page_mask:
  assumes "page_ok b" "r < 4096"
  shows "unat ((of_nat (b + r) :: u64) AND 4095) = r" "(of_nat (b + r) :: u64) AND NOT 4095 = of_nat b"
proof -
  let ?p = "of_nat (b + r) :: u64"
  have "b + r < 2 ^ LENGTH(64)" "b < 2 ^ LENGTH(64)" using assms by (auto simp: page_ok_def)
  then have u: "unat ?p = b + r" "unat (of_nat b :: u64) = b" by (simp_all only: unat_of_nat_less)
  have m: "(4095 :: u64) = mask 12" by (simp add: mask_eq_exp_minus_1)
  have "unat (?p AND mask 12) = unat (take_bit 12 ?p)" by (simp add: take_bit_eq_mask)
  also have "\<dots> = take_bit 12 (unat ?p)" by (simp only: unsigned_take_bit_eq)
  also have "\<dots> = unat ?p mod 2 ^ 12" by (simp only: take_bit_eq_mod)
  also have "\<dots> = (b + r) mod 4096" by (simp only: u(1)) simp
  also have "\<dots> = r" using assms by (simp add: page_ok_def mod_add_left_eq [symmetric])
  finally show "unat (?p AND 4095) = r" unfolding m .
  obtain q where "b = 4096 * q" using assms(1) by (auto simp: page_ok_def)
  then have bd: "(b + r) div 4096 * 4096 = b" using assms(2) by simp
  have "unat (?p AND NOT (mask 12)) = unat ?p div 2 ^ 12 * 2 ^ 12" by (rule unat_and_not_mask) simp
  also have "\<dots> = (b + r) div 4096 * 4096" by (simp only: u(1)) simp
  also have "\<dots> = unat (of_nat b :: u64)" using bd u(2) by simp
  finally show "?p AND NOT 4095 = of_nat b" unfolding m by (simp add: word_unat_eq_iff)
qed

lemma next_jpos:
  assumes "page_ok b"
  shows "next_lite_journal (of_nat (jpos b i)) = of_nat (jpos b (Suc i))"
proof -
  let ?r = "32 * (i mod 128)"
  have r: "?r < 4096" using mod_less_divisor [of 128 i] by simp
  note pm = page_mask [OF assms r]
  have "unat ((of_nat (b + ?r) :: u64) AND 4095) + 32 < 2 ^ 64" using pm(1) r by simp
  then have "unat (((of_nat (b + ?r) :: u64) AND 4095) + 32) = ?r + 32"
    using pm(1) by (subst unat_add_less) simp_all
  then have c: "((of_nat (b + ?r) :: u64) AND 4095) + 32 \<ge> 4096 \<longleftrightarrow> i mod 128 = 127"
    using mod_less_divisor [of 128 i] by (auto simp: word_le_nat_alt)
  show ?thesis
  proof (cases "i mod 128 = 127")
    case True
    then have "Suc i mod 128 = 0" by (simp add: mod_Suc)
    with True c pm(2) show ?thesis by (simp add: next_lite_journal_def jpos_def)
  next
    case False
    then have "Suc i mod 128 = Suc (i mod 128)" by (simp add: mod_Suc)
    with False c show ?thesis by (simp add: next_lite_journal_def jpos_def algebra_simps)
  qed
qed

section \<open>Journal entries\<close>

definition word_addr :: "u64 \<Rightarrow> nat" where "word_addr f = unat (f AND NOT 7)"

lemma word_addr_aligned: "word_addr f mod 8 = 0"
proof -
  have "word_addr f = unat f div 2 ^ 3 * 2 ^ 3"
    unfolding word_addr_def using unat_and_not_mask [of 3 f] by (simp add: mask_eq_exp_minus_1)
  then show ?thesis by simp
qed

definition entry_image :: "u64 \<Rightarrow> u64 \<Rightarrow> u8 list" where
  "entry_image addr val = le64 JOURNAL_ENTRY @ le64 addr @ le64 val @ le32 0"

definition entry_stores :: "(u8 list \<Rightarrow> u32) \<Rightarrow> nat \<Rightarrow> u64 \<Rightarrow> u64 \<Rightarrow> nstore list" where
  "entry_stores crc p addr val =
     [(p, le64 JOURNAL_ENTRY), (p + 24, le32 0), (p + 8, le64 addr), (p + 16, le64 val),
      (p + 28, le32 (crc (entry_image addr val)))]"

definition entry_ok :: "(u8 list \<Rightarrow> u32) \<Rightarrow> mem \<Rightarrow> nat \<Rightarrow> u64 \<Rightarrow> u64 \<Rightarrow> bool" where
  "entry_ok crc m p addr val \<longleftrightarrow>
     nget m p 28 = entry_image addr val \<and> nget m (p + 28) 4 = le32 (crc (entry_image addr val))"

lemma nget_append: "nget m a (i + j) = nget m a i @ nget m (a + i) j"
  using upt_add_eq_append [of a "a + i" j] by (simp add: nget_def add.assoc)

lemma nget_28: "nget m p 28 = nget m p 8 @ nget m (p + 8) 8 @ nget m (p + 16) 8 @ nget m (p + 24) 4"
proof -
  have "nget m p (8 + (8 + (8 + 4))) = nget m p 8 @ nget m (p + 8) 8 @ nget m (p + 8 + 8) 8 @ nget m (p + 8 + 8 + 8) 4"
    by (subst nget_append, subst nget_append, subst nget_append) (rule refl)
  moreover have "8 + (8 + (8 + 4)) = (28 :: nat)" "p + 8 + 8 = p + 16" "p + 16 + 8 = p + 24" by simp_all
  ultimately show ?thesis by (simp only:)
qed

lemma entry_fields:
  assumes "nget m p 28 = entry_image addr val"
  shows "get64 m p = JOURNAL_ENTRY" "get64 m (p + 8) = addr" "get64 m (p + 16) = val"
proof -
  from assms have "nget m p 8 = le64 JOURNAL_ENTRY \<and> nget m (p + 8) 8 = le64 addr \<and> nget m (p + 16) 8 = le64 val"
    unfolding nget_28 entry_image_def by simp
  then show "get64 m p = JOURNAL_ENTRY" "get64 m (p + 8) = addr" "get64 m (p + 16) = val"
    by (simp_all add: get64_of_bytes)
qed

lemma entry_stores_ok: "entry_ok crc (napply (entry_stores crc p addr val) m) p addr val"
  unfolding entry_ok_def nget_28 entry_stores_def entry_image_def by simp

lemma entry_ok_cong:
  assumes "\<And>x. p \<le> x \<Longrightarrow> x < p + 32 \<Longrightarrow> m x = m' x"
  shows "entry_ok crc m p addr val \<longleftrightarrow> entry_ok crc m' p addr val"
  unfolding entry_ok_def using nget_cong [of p 28 m m'] nget_cong [of "p + 28" 4 m m'] assms by simp

lemma entry_stores_range:
  "s \<in> set (entry_stores crc p addr val) \<Longrightarrow> p \<le> fst s \<and> fst s + length (snd s) \<le> p + 32"
  by (auto simp: entry_stores_def)

lemma entry_stores_in_line:
  assumes "p mod 32 = 0" "s \<in> set (entry_stores crc p addr val)"
  shows "in_line s"
proof -
  have p: "p mod 8 = 0" "p mod 4 = 0" using mod_mod_cancel [of 8 32 p] mod_mod_cancel [of 4 32 p] assms(1) by simp_all
  have "in_line (p, le64 JOURNAL_ENTRY)" "in_line (p + 8, le64 addr)" "in_line (p + 16, le64 val)"
    using p by (auto intro!: in_line_aligned [of 8] simp: mod_add_left_eq [symmetric])
  moreover have "in_line (p + 24, le32 0)" "in_line (p + 28, le32 w)" for w
    using p by (auto intro!: in_line_aligned [of 4] simp: mod_add_left_eq [symmetric])
  ultimately show ?thesis using assms(2) by (auto simp: entry_stores_def)
qed

lemma append_entry_exec:
  assumes away: "word_addr f + 8 \<le> unat p \<or> unat p + 32 \<le> word_addr f"
  shows "nova_append_entry_journal crc p f st =
    (next_lite_journal p,
     nexec (map St (entry_stores crc (unat p) (f AND NOT 7) (get64 (nmem st) (word_addr f)))) st)"
proof -
  let ?p = "unat p" and ?a = "f AND NOT 7" and ?v = "get64 (nmem st) (word_addr f)"
  let ?m3 = "nput (?p + 8) (le64 ?a) (nput (?p + 24) (le32 0) (nput ?p (le64 JOURNAL_ENTRY) (nmem st)))"
  have v: "get64 ?m3 (unat ?a) = ?v"
    unfolding word_addr_def [symmetric] by (rule get64_cong) (use away in \<open>auto simp: nput_def\<close>)
  have "nget (nput (?p + 16) (le64 ?v) ?m3) ?p 28 = entry_image ?a ?v"
    unfolding nget_28 entry_image_def by simp
  then show ?thesis
    unfolding nova_append_entry_journal_def Let_def nova_update_journal_entry_csum_def nova_primitive_exec entry_stores_def
    by (simp only: nexec_simps v stores.simps napply_simps fst_conv snd_conv append.simps list.map)
qed

end
