(* ===== verification/Nova_Recover.thy ===== *)
theory Nova_Recover
  imports Nova_Jnl_Run
begin

unbundle bit_operations_syntax

text \<open>
  The three kinds of lite transactions as lists of logged words, the journal they leave, and what recovery
  makes of such a journal.
\<close>

section \<open>Transactions as lists of fields\<close>

fun append_fields :: "(u8 list \<Rightarrow> u32) \<Rightarrow> u64 list \<Rightarrow> u64 \<times> nova_st \<Rightarrow> u64 \<times> nova_st" where
  "append_fields crc [] s = s"
| "append_fields crc (f # fs) s = append_fields crc fs (nova_append_entry_journal crc (fst s) f (snd s))"

lemma append_fields_append: "append_fields crc (fs @ gs) s = append_fields crc gs (append_fields crc fs s)"
  by (induction fs arbitrary: s) simp_all

lemma append_entry_csum [simp]: "metadata_csum (snd (nova_append_entry_journal crc p f st)) = metadata_csum st"
  by (simp add: nova_append_entry_journal_def Let_def nova_update_journal_entry_csum_def nova_primitive_exec)

lemma append_fields_csum [simp]: "metadata_csum (snd (append_fields crc fs s)) = metadata_csum (snd s)"
  by (induction fs arbitrary: s) simp_all

definition inode_fields :: "nova_inode_ref \<Rightarrow> bool \<Rightarrow> bool \<Rightarrow> bool \<Rightarrow> u64 list" where
  "inode_fields i new_inode invalidate is_dir =
     (if \<not> pi_readable i then []
      else if is_dir then [pi_addr i + 72]
      else if new_inode then [pi_addr i + 1]
      else [pi_addr i + 72] @ (if invalidate then [pi_addr i + 1, pi_addr i + 104] else []))"

definition dentry_fields :: "u64 \<Rightarrow> u64 list" where "dentry_fields d = [d + 16, d + 12, d + 2, d + 3]"

datatype nova_tx =
    TxInode nova_inode_ref nova_inode_ref bool bool
  | TxRename nova_inode_ref nova_inode_ref "nova_inode_ref option" "nova_inode_ref option"
      "u64 option" "u64 option" "u64 option" bool
  | TxEntry u64 nova_entry_type

fun nova_create :: "(u8 list \<Rightarrow> u32) \<Rightarrow> nova_tx \<Rightarrow> nat \<Rightarrow> nova_st \<Rightarrow> nova_fault + (u64 \<times> nova_st)" where
  "nova_create crc (TxInode i d new_inode inval) cpu st = nova_create_inode_transaction crc i d cpu new_inode inval st"
| "nova_create crc (TxRename oi od ni nd fe ne oe inval) cpu st =
     nova_create_rename_transaction crc oi od ni nd fe ne oe inval cpu st"
| "nova_create crc (TxEntry e ty) cpu st = nova_create_logentry_transaction crc e ty cpu st"

definition opt_fields :: "('a \<Rightarrow> u64 list) \<Rightarrow> 'a option \<Rightarrow> u64 list" where
  "opt_fields f x = (case x of None \<Rightarrow> [] | Some a \<Rightarrow> f a)"

fun tx_fields :: "nova_tx \<Rightarrow> u64 list" where
  "tx_fields (TxInode i d new_inode inval) = inode_fields i new_inode inval False @ inode_fields d new_inode inval True"
| "tx_fields (TxRename oi od ni nd fe ne oe inval) =
     inode_fields oi False False False @ inode_fields od False False True @
     opt_fields (\<lambda>i. inode_fields i False inval False) ni @ opt_fields (\<lambda>i. inode_fields i False False True) nd @
     opt_fields dentry_fields fe @ opt_fields dentry_fields ne @ opt_fields dentry_fields oe"
| "tx_fields (TxEntry e ty) = map (\<lambda>i. e + of_nat (i * 8)) [0..<nova_get_log_entry_size ty div 8]"

lemma append_inode_fields:
  assumes "\<not> metadata_csum st"
  shows "nova_append_inode_journal crc p i new_inode inval is_dir st = append_fields crc (inode_fields i new_inode inval is_dir) (p, st)"
  using assms
  by (auto simp: nova_append_inode_journal_def inode_fields_def nova_journal_inode_tail_def case_prod_unfold Let_def)

lemma append_dentry_fields: "nova_append_dentry_journal crc p d st = append_fields crc (dentry_fields d) (p, st)"
  by (simp add: nova_append_dentry_journal_def dentry_fields_def case_prod_unfold Let_def)

lemma opt_append_fields:
  assumes "\<And>a p st. \<not> metadata_csum st \<Longrightarrow> f a p st = append_fields crc (g a) (p, st)" "\<not> metadata_csum (snd s)"
  shows "opt_append f x s = append_fields crc (opt_fields g x) s"
  using assms by (cases x) (simp_all add: opt_append_def opt_fields_def)

lemma append_words_fields:
  "append_words crc e n p st = append_fields crc (map (\<lambda>i. e + of_nat (i * 8)) [0..<n]) (p, st)"
proof -
  have "fold (\<lambda>i (p, st). nova_append_entry_journal crc p (e + of_nat (i * 8)) st) is s =
      append_fields crc (map (\<lambda>i. e + of_nat (i * 8)) is) s" for "is" s
    by (induction "is" arbitrary: s) (simp_all add: case_prod_unfold)
  then show ?thesis by (simp only: append_words_def)
qed

lemma begin_cong:
  assumes "\<And>t. app t st = app' t st"
  shows "nova_begin cpu app st = nova_begin cpu app' st"
  unfolding nova_begin_def assms by (rule refl)

lemma create_fields:
  assumes nc: "\<not> metadata_csum st"
  shows "nova_create crc tx cpu st = nova_begin cpu (\<lambda>t st. append_fields crc (tx_fields tx) (t, st)) st"
proof (cases tx)
  case (TxInode i d n v)
  show ?thesis
    unfolding TxInode nova_create.simps nova_create_inode_transaction_def
    by (intro begin_cong) (use nc in \<open>simp add: append_inode_fields case_prod_unfold append_fields_append\<close>)
next
  case (TxRename oi od ni nd fe ne oe v)
  note r = opt_append_fields [OF append_inode_fields] opt_append_fields [OF append_dentry_fields]
  show ?thesis
    unfolding TxRename nova_create.simps nova_create_rename_transaction_def
    by (intro begin_cong) (use nc in \<open>simp add: append_inode_fields append_fields_append Let_def r\<close>)
next
  case (TxEntry e ty)
  show ?thesis
    unfolding TxEntry nova_create.simps nova_create_logentry_transaction_def
    by (intro begin_cong) (simp add: append_words_fields)
qed

section \<open>The journal that a transaction leaves\<close>

fun jstores :: "(u8 list \<Rightarrow> u32) \<Rightarrow> mem \<Rightarrow> nat \<Rightarrow> nat \<Rightarrow> u64 list \<Rightarrow> nstore list" where
  "jstores crc m b s [] = []"
| "jstores crc m b s (f # fs) =
     entry_stores crc (jpos b s) (f AND NOT 7) (get64 m (word_addr f)) @ jstores crc m b (Suc s) fs"

definition off_page :: "nat \<Rightarrow> u64 \<Rightarrow> bool" where
  "off_page b f \<longleftrightarrow> word_addr f + 8 \<le> b \<or> b + 4096 \<le> word_addr f"

lemma jstores_cong: "\<forall>f \<in> set fs. get64 m (word_addr f) = get64 m' (word_addr f) \<Longrightarrow> jstores crc m b s fs = jstores crc m' b s fs"
  by (induction fs arbitrary: s) simp_all

lemma jstores_range:
  "x \<in> set (jstores crc m b s fs) \<Longrightarrow>
   \<exists>i. s \<le> i \<and> i < s + length fs \<and> jpos b i \<le> fst x \<and> fst x + length (snd x) \<le> jpos b i + 32"
proof (induction fs arbitrary: s)
  case Nil
  then show ?case by simp
next
  case (Cons f fs)
  then consider "x \<in> set (entry_stores crc (jpos b s) (f AND NOT 7) (get64 m (word_addr f)))"
    | "x \<in> set (jstores crc m b (Suc s) fs)" by auto
  then show ?case
  proof cases
    case 1
    from entry_stores_range [OF this] show ?thesis by (intro exI [of _ s]) simp
  next
    case 2
    from Cons.IH [OF this] show ?thesis by (auto intro: Suc_leD)
  qed
qed

lemma jstores_on_page: "x \<in> set (jstores crc m b s fs) \<Longrightarrow> b \<le> fst x \<and> fst x + length (snd x) \<le> b + 4096"
  using jstores_range [of x crc m b s fs] jpos_range by (meson order_trans)

lemma jpos_mod: "page_ok b \<Longrightarrow> jpos b i mod 32 = 0"
proof -
  assume "page_ok b"
  then obtain q where "b = 4096 * q" by (auto simp: page_ok_def)
  then have "jpos b i = 32 * (128 * q + i mod 128)" by (simp add: jpos_def)
  then show ?thesis by simp
qed

lemma jstores_in_line: "page_ok b \<Longrightarrow> x \<in> set (jstores crc m b s fs) \<Longrightarrow> in_line x"
  by (induction fs arbitrary: s) (auto dest: entry_stores_in_line [OF jpos_mod])

lemma append_fields_exec:
  assumes b: "page_ok b"
  shows "\<forall>f \<in> set fs. off_page b f \<Longrightarrow>
    append_fields crc fs (of_nat (jpos b s), st) =
      (of_nat (jpos b (s + length fs)), nexec (map St (jstores crc (nmem st) b s fs)) st)"
proof (induction fs arbitrary: s st)
  case Nil
  then show ?case by simp
next
  case (Cons f fs)
  let ?S = "entry_stores crc (jpos b s) (f AND NOT 7) (get64 (nmem st) (word_addr f))"
  have away: "word_addr f + 8 \<le> jpos b s \<or> jpos b s + 32 \<le> word_addr f"
    using Cons.prems jpos_range [of b s] by (auto simp: off_page_def)
  have step: "nova_append_entry_journal crc (of_nat (jpos b s)) f st = (of_nat (jpos b (Suc s)), nexec (map St ?S) st)"
    using append_entry_exec [of f "of_nat (jpos b s)" crc st] away by (simp add: unat_jpos [OF b] next_jpos [OF b])
  have "get64 (napply ?S (nmem st)) (word_addr g) = get64 (nmem st) (word_addr g)" if "g \<in> set fs" for g
  proof (rule get64_cong, rule napply_untouched, rule ballI)
    fix x y
    assume x: "word_addr g \<le> x" "x < word_addr g + 8" and y: "y \<in> set ?S"
    have "off_page b g" using Cons.prems that by simp
    with x jpos_range [of b s] entry_stores_range [OF y] show "x < fst y \<or> fst y + length (snd y) \<le> x"
      by (auto simp: off_page_def)
  qed
  then have "jstores crc (nmem (nexec (map St ?S) st)) b (Suc s) fs = jstores crc (nmem st) b (Suc s) fs"
    by (intro jstores_cong) simp
  with Cons.IH [of "Suc s" "nexec (map St ?S) st"] Cons.prems step show ?case by simp
qed

definition entries_at :: "(u8 list \<Rightarrow> u32) \<Rightarrow> mem \<Rightarrow> nat \<Rightarrow> nat \<Rightarrow> u64 list \<Rightarrow> mem \<Rightarrow> bool" where
  "entries_at crc m b s fs old \<longleftrightarrow>
     (\<forall>j < length fs. entry_ok crc m (jpos b (s + j)) (fs ! j AND NOT 7) (get64 old (word_addr (fs ! j))))"

lemma jstores_entries: "length fs \<le> 128 \<Longrightarrow> entries_at crc (napply (jstores crc old b s fs) m) b s fs old"
proof (induction fs arbitrary: s m)
  case Nil
  then show ?case by (simp add: entries_at_def)
next
  case (Cons f fs)
  let ?S = "entry_stores crc (jpos b s) (f AND NOT 7) (get64 old (word_addr f))"
  let ?m = "napply (jstores crc old b (Suc s) fs) (napply ?S m)"
  have tail: "entries_at crc ?m b (Suc s) fs old" using Cons by simp
  have "?m x = napply ?S m x" if "jpos b s \<le> x" "x < jpos b s + 32" for x
  proof (rule napply_untouched, rule ballI)
    fix y
    assume "y \<in> set (jstores crc old b (Suc s) fs)"
    from jstores_range [OF this] obtain i where "Suc s \<le> i" "i < Suc s + length fs" "jpos b i \<le> fst y"
      "fst y + length (snd y) \<le> jpos b i + 32" by blast
    with that jpos_apart [of s i b] Cons.prems show "x < fst y \<or> fst y + length (snd y) \<le> x" by auto
  qed
  then have "entry_ok crc ?m (jpos b s) (f AND NOT 7) (get64 old (word_addr f))"
    using entry_ok_cong [of "jpos b s" ?m "napply ?S m"] entry_stores_ok by blast
  then show ?case
    unfolding entries_at_def
  proof (intro allI impI)
    fix j
    assume j: "j < length (f # fs)"
    show "entry_ok crc (napply (jstores crc old b s (f # fs)) m) (jpos b (s + j)) ((f # fs) ! j AND NOT 7)
        (get64 old (word_addr ((f # fs) ! j)))"
    proof (cases j)
      case 0
      with \<open>entry_ok crc ?m (jpos b s) (f AND NOT 7) (get64 old (word_addr f))\<close> show ?thesis by simp
    next
      case (Suc i)
      with tail j show ?thesis by (simp add: entries_at_def)
    qed
  qed
qed

section \<open>Walking the journal\<close>

lemma entries_at_Cons:
  "entries_at crc m b s (f # fs) old \<longleftrightarrow>
     entry_ok crc m (jpos b s) (f AND NOT 7) (get64 old (word_addr f)) \<and> entries_at crc m b (Suc s) fs old"
  unfolding entries_at_def by (simp add: All_less_Suc2)

lemma entries_at_cong:
  assumes "\<And>x. b \<le> x \<Longrightarrow> x < b + 4096 \<Longrightarrow> m x = m' x" "entries_at crc m b s fs old"
  shows "entries_at crc m' b s fs old"
proof -
  have "entry_ok crc m (jpos b i) a v = entry_ok crc m' (jpos b i) a v" for i a v
    using assms(1) jpos_range [of b i] by (intro entry_ok_cong) simp
  with assms(2) show ?thesis by (simp add: entries_at_def)
qed

lemma pos_not_tail:
  assumes "page_ok b" "0 < n" "n < 128"
  shows "(of_nat (jpos b s) :: u64) \<noteq> of_nat (jpos b (s + n))"
proof
  assume "(of_nat (jpos b s) :: u64) = of_nat (jpos b (s + n))"
  then have "jpos b s = jpos b (s + n)" using unat_jpos [OF assms(1)] by metis
  with jpos_distinct [of s "s + n" b] assms show False by simp
qed

lemma check_entries_ok:
  "\<lbrakk>page_ok b; length fs < 128; entries_at crc (nmem st) b s fs old;
    journal_tail st pair = of_nat (jpos b (s + length fs))\<rbrakk> \<Longrightarrow>
   check_entries crc pair (of_nat (jpos b s)) st = Some 0"
proof (induction fs arbitrary: s)
  case Nil
  then show ?case by (simp add: check_entries.simps)
next
  case (Cons f fs)
  have ok: "entry_ok crc (nmem st) (jpos b s) (f AND NOT 7) (get64 old (word_addr f))"
    and rest: "entries_at crc (nmem st) b (Suc s) fs old" using Cons.prems(3) by (simp_all only: entries_at_Cons)
  have "nova_check_entry_integrity crc (jpos b s) st = 0"
    using ok by (simp add: nova_check_entry_integrity_def entry_ok_def get32_of_bytes)
  moreover have "(of_nat (jpos b s) :: u64) \<noteq> journal_tail st pair"
    using pos_not_tail [of b "length (f # fs)" s] Cons.prems by simp
  moreover have "check_entries crc pair (of_nat (jpos b (Suc s))) st = Some 0"
    using Cons.IH [OF Cons.prems(1) _ rest] Cons.prems by simp
  ultimately show ?case
    by (simp add: check_entries.simps [of crc pair "of_nat (jpos b s)"] unat_jpos [OF Cons.prems(1)] next_jpos [OF Cons.prems(1)])
qed

definition undo_stores :: "mem \<Rightarrow> u64 list \<Rightarrow> nstore list" where
  "undo_stores old fs = map (\<lambda>f. (word_addr f, le64 (get64 old (word_addr f)))) fs"

definition off_pair :: "nat \<Rightarrow> u64 \<Rightarrow> bool" where
  "off_pair pair f \<longleftrightarrow> word_addr f + 8 \<le> pair \<or> pair + 16 \<le> word_addr f"

lemma undo_entry_exec:
  assumes "entry_ok crc (nmem st) p (f AND NOT 7) v" "word_addr f \<noteq> 0"
  shows "nova_undo_lite_journal_entry p st =
    nexec (St (word_addr f, le64 v) # map Fl (nova_flush_lines (word_addr f) 64)) st"
proof -
  note e = entry_fields [of "nmem st" p "f AND NOT 7" v]
  have ty: "JOURNAL_ENTRY \<noteq> JOURNAL_INODE" by (simp add: JOURNAL_ENTRY_def JOURNAL_INODE_def)
  have nz: "unat (f AND NOT 7) \<noteq> 0" using assms(2) unfolding word_addr_def .
  from assms(1) have "nget (nmem st) p 28 = entry_image (f AND NOT 7) v" by (simp only: entry_ok_def)
  note e = e [OF this]
  show ?thesis
    unfolding nova_undo_lite_journal_entry_def nova_undo_journal_entry_def Let_def e if_not_P [OF ty] if_P [OF refl] if_not_P [OF nz]
      nova_primitive_exec word_addr_def by simp
qed

lemma put_word_off:
  assumes "off_page b f" "length bs = 8"
  shows "b \<le> x \<Longrightarrow> x < b + 4096 \<Longrightarrow> nput (word_addr f) bs m x = m x"
  using assms by (auto simp: off_page_def nput_def)

lemma recover_entries_ok:
  "\<lbrakk>page_ok b; length fs < 128; entries_at crc (nmem st) b s fs old;
    journal_tail st pair = of_nat (jpos b (s + length fs));
    \<forall>f \<in> set fs. off_page b f \<and> off_pair pair f \<and> word_addr f \<noteq> 0\<rbrakk> \<Longrightarrow>
   \<exists>es. recover_entries pair (of_nat (jpos b s)) st = Some (nexec es st) \<and> stores es = undo_stores old fs"
proof (induction fs arbitrary: s st)
  case Nil
  then show ?case by (intro exI [of _ "[]"]) (simp add: recover_entries.simps undo_stores_def)
next
  case (Cons f fs)
  let ?v = "get64 old (word_addr f)"
  let ?es = "St (word_addr f, le64 ?v) # map Fl (nova_flush_lines (word_addr f) 64)"
  let ?st = "nexec ?es st"
  have ok: "entry_ok crc (nmem st) (jpos b s) (f AND NOT 7) ?v"
    and rest: "entries_at crc (nmem st) b (Suc s) fs old" using Cons.prems(3) by (simp_all only: entries_at_Cons)
  have f: "off_page b f" "off_pair pair f" "word_addr f \<noteq> 0" using Cons.prems(5) by simp_all
  have mem: "nmem ?st = nput (word_addr f) (le64 ?v) (nmem st)" by simp
  have "entries_at crc (nmem ?st) b (Suc s) fs old"
    unfolding mem by (rule entries_at_cong [OF _ rest]) (simp add: put_word_off [OF f(1)])
  moreover have "journal_tail ?st pair = of_nat (jpos b (Suc s + length fs))"
  proof -
    have "journal_tail ?st pair = journal_tail st pair"
      unfolding mem by (rule get64_cong) (use f(2) in \<open>auto simp: off_pair_def nput_def\<close>)
    then show ?thesis using Cons.prems(4) by simp
  qed
  ultimately obtain es where es: "recover_entries pair (of_nat (jpos b (Suc s))) ?st = Some (nexec es ?st)"
      "stores es = undo_stores old fs"
    using Cons.IH [OF Cons.prems(1)] Cons.prems(2,5) by (metis length_Cons Suc_lessD list.set_intros(2))
  have "(of_nat (jpos b s) :: u64) \<noteq> journal_tail st pair"
    using pos_not_tail [of b "length (f # fs)" s] Cons.prems by simp
  then have "recover_entries pair (of_nat (jpos b s)) st = Some (nexec (?es @ es) st)"
    using es(1) undo_entry_exec [OF ok f(3)]
    by (simp add: recover_entries.simps [of pair "of_nat (jpos b s)"] unat_jpos [OF Cons.prems(1)] next_jpos [OF Cons.prems(1)])
  moreover have "stores (?es @ es) = undo_stores old (f # fs)" using es(2) by (simp add: undo_stores_def)
  ultimately show ?case by blast
qed

section \<open>Undoing\<close>

interpretation nova_undo: undo_log
  "\<lambda>(s :: nstore) x. fst s \<le> x \<and> x < fst s + length (snd s)" "\<lambda>s x. snd s ! (x - fst s)"
  "\<lambda>s. nput (fst s) (snd s)" "\<lambda>m x. m x"
  by unfold_locales (simp add: nput_def)

lemma napply_undo: "napply ss m = nova_undo.undo_all (rev ss) m"
  by (simp add: napply_def nova_undo.undo_all_def case_prod_unfold)

lemma undo_stores_restore:
  assumes "\<forall>f \<in> set fs. x < word_addr f \<or> word_addr f + 8 \<le> x \<Longrightarrow> m x = old x"
  shows "napply (undo_stores old fs) m x = old x"
  unfolding napply_undo
proof (rule nova_undo.undo_all_restores_at)
  fix e
  assume "e \<in> set (rev (undo_stores old fs))" "fst e \<le> x \<and> x < fst e + length (snd e)"
  then show "snd e ! (x - fst e) = old x" by (auto simp: undo_stores_def le64_get64)
next
  assume none: "\<forall>e \<in> set (rev (undo_stores old fs)). \<not> (fst e \<le> x \<and> x < fst e + length (snd e))"
  show "m x = old x"
  proof (rule assms, rule ballI)
    fix f
    assume "f \<in> set fs"
    with none show "x < word_addr f \<or> word_addr f + 8 \<le> x" by (force simp: undo_stores_def)
  qed
qed

lemma soft_init_idle:
  "\<forall>i \<in> set is. journal_head st (4096 * 48 + i * 64) = journal_tail st (4096 * 48 + i * 64) \<Longrightarrow>
   soft_init_cpus crc is ret st = Some (ret, st)"
  by (induction "is") (simp_all add: Let_def)

end
