(* ===== verification/Nova_Atomic.thy ===== *)
theory Nova_Atomic
  imports Nova_Recover
begin

unbundle bit_operations_syntax

text \<open>
  Crash atomicity of the lite-journal transactions of NOVA: create the transaction, update the logged words
  in place, commit.
\<close>

section \<open>Setting\<close>

definition pair_at :: "nat \<Rightarrow> nat" where "pair_at cpu = 4096 * 48 + cpu * 64"

text \<open>The bytes outside the journal page at \<open>b\<close> and the page of the journal pointers.\<close>

definition nova_data :: "nat \<Rightarrow> nat \<Rightarrow> bool" where
  "nova_data b x \<longleftrightarrow> (x < b \<or> b + 4096 \<le> x) \<and> (x < 4096 * 48 \<or> 4096 * 49 \<le> x)"

definition nova_idle :: "nat \<Rightarrow> nat \<Rightarrow> nat \<Rightarrow> nova_st \<Rightarrow> bool" where
  "nova_idle b s cpu st \<longleftrightarrow>
     page_ok b \<and> (b + 4096 \<le> 4096 * 48 \<or> 4096 * 49 \<le> b) \<and> s < 128 \<and> cpu < cpus st \<and> cpus st \<le> 64 \<and>
     \<not> metadata_csum st \<and> nevs st = [] \<and> journal_head st (pair_at cpu) = of_nat (jpos b s) \<and>
     (\<forall>c < cpus st. journal_head st (pair_at c) = journal_tail st (pair_at c))"

definition fields_ok :: "nat \<Rightarrow> u64 list \<Rightarrow> bool" where
  "fields_ok b fs \<longleftrightarrow> fs \<noteq> [] \<and> length fs < 128 \<and>
     (\<forall>f \<in> set fs. word_addr f \<noteq> 0 \<and> off_page b f \<and> (word_addr f + 8 \<le> 4096 * 48 \<or> 4096 * 49 \<le> word_addr f))"

text \<open>
  What the caller does between creating the transaction and committing it: stores inside the logged words,
  all of them flushed and fenced in the end.
\<close>

definition body_ok :: "u64 list \<Rightarrow> nevent list \<Rightarrow> bool" where
  "body_ok fs B \<longleftrightarrow>
     (\<forall>s \<in> set (stores B). in_line s \<and>
        (\<exists>f \<in> set fs. word_addr f \<le> fst s \<and> fst s + length (snd s) \<le> word_addr f + 8)) \<and>
     (\<forall>l. nguar l B = length (nline_stores l (stores B)))"

definition nova_run ::
    "(u8 list \<Rightarrow> u32) \<Rightarrow> nova_tx \<Rightarrow> nevent list \<Rightarrow> nat \<Rightarrow> nova_st \<Rightarrow> nova_fault + nova_st" where
  "nova_run crc tx B cpu st =
     rbind (nova_create crc tx cpu st) (\<lambda>(temp, st1). nova_commit_lite_transaction temp cpu (nexec B st1))"

section \<open>The flush of the journal entries\<close>

definition batch_lines :: "u64 \<Rightarrow> u64 \<Rightarrow> nat list" where
  "batch_lines h t =
     (if h < t then nova_flush_lines (unat h) (unat (t - h))
      else nova_flush_lines (unat h) (unat (4096 - (h AND 4095))) @
           nova_flush_lines (unat (t AND NOT 4095)) (unat (t AND 4095)))"

lemma batch_exec: "nova_flush_journal_in_batch h t st = nexec (map Fl (batch_lines h t) @ [Fe]) st"
  by (simp add: nova_flush_journal_in_batch_def batch_lines_def Let_def nova_primitive_exec)

lemma nova_flush_lines_cover: "a \<le> x \<Longrightarrow> x < a + n \<Longrightarrow> x div 64 \<in> set (nova_flush_lines a n)"
  using flushes_cover [of a x n] by (auto simp: nova_flush_lines_def)

lemma batch_covers:
  assumes b: "page_ok b" and s: "s < 128" "n < 128" and i: "s \<le> i" "i < s + n"
    and x: "jpos b i \<le> x" "x < jpos b i + 32"
  shows "x div 64 \<in> set (batch_lines (of_nat (jpos b s)) (of_nat (jpos b (s + n))))"
proof (cases "s + n < 128")
  case True
  let ?h = "of_nat (jpos b s) :: u64" and ?t = "of_nat (jpos b (s + n)) :: u64"
  have js: "jpos b s = b + 32 * s" "jpos b (s + n) = b + 32 * (s + n)" using True by (simp_all add: jpos_def)
  have u: "unat ?h = b + 32 * s" "unat ?t = b + 32 * (s + n)"
    using unat_jpos [OF b, of s] unat_jpos [OF b, of "s + n"] js by simp_all
  have lt: "?h < ?t" using u i by (simp only: word_less_nat_alt) simp
  have "unat (?t - ?h) = 32 * n" using u by (subst unat_sub_le) simp_all
  moreover have "jpos b i = b + 32 * i" using i True by (simp add: jpos_def)
  ultimately show ?thesis using lt x i u unfolding batch_lines_def by (auto intro!: nova_flush_lines_cover)
next
  case False
  let ?h = "of_nat (jpos b s) :: u64" and ?t = "of_nat (jpos b (s + n)) :: u64"
  have sn: "(s + n) mod 128 = s + n - 128" using False s by (simp add: mod_if)
  have js: "jpos b s = b + 32 * s" "jpos b (s + n) = b + 32 * (s + n - 128)" using s sn by (simp_all add: jpos_def)
  have u: "unat ?h = b + 32 * s" "unat ?t = b + 32 * (s + n - 128)"
    using unat_jpos [OF b, of s] unat_jpos [OF b, of "s + n"] js by simp_all
  have lt: "\<not> ?h < ?t" unfolding word_less_nat_alt u using s by simp
  have hm: "unat (?h AND 4095) = 32 * s" using page_mask(1) [OF b, of "32 * s"] s js by simp
  then have "unat (4096 - (?h AND 4095)) = 4096 - 32 * s" using s by (subst unat_sub_le) simp_all
  moreover have "unat (?t AND 4095) = 32 * (s + n - 128)" "unat (?t AND NOT 4095) = b"
    using page_mask [OF b, of "32 * (s + n - 128)"] s js b unat_of_nat_less [of b, where 'a = 64]
    by (simp_all add: page_ok_def)
  moreover have "jpos b i = (if i < 128 then b + 32 * i else b + 32 * (i - 128))"
    using i s by (simp add: jpos_def mod_if)
  ultimately show ?thesis
    using lt x i u s unfolding batch_lines_def
    by (cases "i < 128") (auto intro!: nova_flush_lines_cover)
qed

section \<open>The events of a run\<close>

lemma pair_flush: "nova_flush_lines (pair_at c) 64 = [3072 + c]"
proof -
  have "pair_at c = 64 * (3072 + c)" by (simp add: pair_at_def)
  then have "pair_at c mod 64 = 0" "pair_at c div 64 = 3072 + c" by simp_all
  then show ?thesis by (simp add: nova_flush_lines_def)
qed

definition log_part :: "(u8 list \<Rightarrow> u32) \<Rightarrow> mem \<Rightarrow> nat \<Rightarrow> nat \<Rightarrow> u64 list \<Rightarrow> nevent list" where
  "log_part crc m b s fs =
     map St (jstores crc m b s fs) @
     map Fl (batch_lines (of_nat (jpos b s)) (of_nat (jpos b (s + length fs)))) @ [Fe]"

definition ptr_part :: "nat \<Rightarrow> nat \<Rightarrow> u64 \<Rightarrow> nevent list" where
  "ptr_part cpu off t = [St (pair_at cpu + off, le64 t), Fl (3072 + cpu), Fe]"

lemma pair_page: "cpu < 64 \<Longrightarrow> 4096 * 48 \<le> pair_at cpu \<and> pair_at cpu + 64 \<le> 4096 * 49"
  by (simp add: pair_at_def)

lemma log_part_away:
  assumes "x < b \<or> b + 4096 \<le> x"
  shows "napply (stores (log_part crc m b s fs)) m' x = m' x"
proof (rule napply_untouched, rule ballI)
  fix y
  assume "y \<in> set (stores (log_part crc m b s fs))"
  then have "y \<in> set (jstores crc m b s fs)" by (simp add: log_part_def)
  from jstores_on_page [OF this] assms show "x < fst y \<or> fst y + length (snd y) \<le> x" by auto
qed

lemma body_away:
  assumes "body_ok fs B" "\<forall>f \<in> set fs. x < word_addr f \<or> word_addr f + 8 \<le> x"
  shows "napply (stores B) m x = m x"
proof (rule napply_untouched, rule ballI)
  fix y
  assume "y \<in> set (stores B)"
  with assms(1) obtain f where "f \<in> set fs" "word_addr f \<le> fst y" "fst y + length (snd y) \<le> word_addr f + 8"
    by (auto simp: body_ok_def)
  with assms(2) show "x < fst y \<or> fst y + length (snd y) \<le> x" by fastforce
qed

lemma fields_off_pointers:
  assumes "fields_ok b fs" "4096 * 48 \<le> x" "x < 4096 * 49"
  shows "\<forall>f \<in> set fs. x < word_addr f \<or> word_addr f + 8 \<le> x"
  using assms unfolding fields_ok_def by fastforce

lemma run_exec:
  assumes idle: "nova_idle b s cpu st" and fs: "fields_ok b (tx_fields tx)" and B: "body_ok (tx_fields tx) B"
  defines "t \<equiv> of_nat (jpos b (s + length (tx_fields tx))) :: u64"
  shows "nova_run crc tx B cpu st =
    Inr (nexec (log_part crc (nmem st) b s (tx_fields tx) @ ptr_part cpu 8 t @ B @ ptr_part cpu 0 t) st)"
proof -
  let ?fs = "tx_fields tx" and ?h = "of_nat (jpos b s) :: u64" and ?p = "pair_at cpu"
  let ?J = "jstores crc (nmem st) b s ?fs"
  from idle have b: "page_ok b" "b + 4096 \<le> 4096 * 48 \<or> 4096 * 49 \<le> b" and cpu: "cpu < cpus st" "cpus st \<le> 64"
    and nc: "\<not> metadata_csum st" and h0: "journal_head st ?p = ?h"
    and eq: "\<forall>c < cpus st. journal_head st (pair_at c) = journal_tail st (pair_at c)"
    by (simp_all add: nova_idle_def)
  have h: "journal_head st ?p = ?h" "journal_tail st ?p = ?h" using h0 eq [rule_format, OF cpu(1)] by simp_all
  have p: "4096 * 48 \<le> ?p" "?p + 64 \<le> 4096 * 49" using pair_page [of cpu] cpu by simp_all
  have ptr: "nova_get_journal_pointers cpu st' = Inr ?p" if "cpus st' = cpus st" for st'
    using that cpu by (simp add: nova_get_journal_pointers_def pair_at_def)
  have nz: "?h \<noteq> 0"
  proof
    assume "?h = 0"
    then have "jpos b s = 0" using unat_jpos [OF b(1), of s] by simp
    then show False using jpos_range(1) [of b s] b(1) by (simp add: page_ok_def)
  qed
  have app: "append_fields crc ?fs (?h, st) = (t, nexec (map St ?J) st)"
    unfolding t_def using append_fields_exec [OF b(1), of ?fs] fs by (auto simp: fields_ok_def)
  have hd: "get64 (napply ?J (nmem st)) ?p = ?h"
  proof -
    have "napply ?J (nmem st) x = nmem st x" if "?p \<le> x" "x < ?p + 8" for x
      using log_part_away [of x b crc "nmem st" s ?fs "nmem st"] that p b(2) by (auto simp: log_part_def)
    then have "get64 (napply ?J (nmem st)) ?p = get64 (nmem st) ?p" by (intro get64_cong) simp
    with h show ?thesis by simp
  qed
  let ?E = "log_part crc (nmem st) b s ?fs @ ptr_part cpu 8 t"
  have "nova_create crc tx cpu st = Inr (t, nexec ?E st)"
    unfolding create_fields [OF nc] nova_begin_def
    by (simp add: ptr h nz app hd batch_exec nova_primitive_exec pair_flush log_part_def ptr_part_def t_def)
  moreover have "journal_tail (nexec B (nexec ?E st)) ?p = t"
  proof (simp only: nexec_simps, rule get64_of_bytes)
    have off: "napply (stores B) m x = m x" if "?p \<le> x" "x < ?p + 64" for m x
      using that p by (intro body_away [OF B] fields_off_pointers [OF fs]) simp_all
    have "nget (napply (stores (?E @ B)) (nmem st)) (?p + 8) 8 = nget (napply (stores ?E) (nmem st)) (?p + 8) 8"
      by (rule nget_cong) (simp add: off)
    then show "nget (napply (stores (?E @ B)) (nmem st)) (?p + 8) 8 = le64 t" by (simp add: ptr_part_def)
  qed
  ultimately show ?thesis
    unfolding nova_run_def nova_commit_lite_transaction_def
    by (simp add: ptr nova_primitive_exec pair_flush ptr_part_def)
qed

end
