(* ===== verification/Nova_Crash.thy ===== *)
theory Nova_Crash
  imports Nova_Atomic
begin

unbundle bit_operations_syntax

text \<open>Recovery of the lite journal after a crash in a transaction.\<close>

section \<open>Mounting\<close>

definition remount :: "mem \<Rightarrow> nova_st \<Rightarrow> nova_st" where
  "remount m st = st\<lparr>nmem := m, nevs := []\<rparr>"

lemma remount_simps [simp]:
  "nmem (remount m st) = m" "cpus (remount m st) = cpus st" "nevs (remount m st) = []"
  "metadata_csum (remount m st) = metadata_csum st"
  by (simp_all add: remount_def)

abbreviation pair_idle :: "mem \<Rightarrow> nat \<Rightarrow> bool" where
  "pair_idle m c \<equiv> get64 m (pair_at c) = get64 m (pair_at c + 8)"

lemma soft_init_skip:
  "\<forall>i \<in> set is. pair_idle (nmem st) i \<Longrightarrow> soft_init_cpus crc (is @ js) ret st = soft_init_cpus crc js ret st"
  by (induction "is") (simp_all add: Let_def pair_at_def)

lemma soft_init_all_idle:
  assumes "\<forall>c < cpus st. pair_idle (nmem st) c"
  shows "nova_lite_journal_soft_init crc True st = Some (0, st)"
  using soft_init_skip [of "[0..<cpus st]" st crc "[]" 0] assms by (simp add: nova_lite_journal_soft_init_def)

lemma pair_bytes_away:
  assumes "c \<noteq> d" "pair_at c \<le> x" "x < pair_at c + 16"
  shows "x < pair_at d \<or> pair_at d + 16 \<le> x"
  using assms by (auto simp: pair_at_def)

text \<open>A journal with its entries in place is undone.\<close>

lemma soft_init_recovers:
  assumes idle: "nova_idle b s cpu st" and fs: "fields_ok b fs"
    and ent: "entries_at crc I b s fs (nmem st)"
    and hd: "get64 I (pair_at cpu) = of_nat (jpos b s)" and tl: "get64 I (pair_at cpu + 8) = of_nat (jpos b (s + length fs))"
    and others: "\<And>c. c < cpus st \<Longrightarrow> c \<noteq> cpu \<Longrightarrow> pair_idle I c"
    and same: "\<And>x. nova_data b x \<Longrightarrow> \<forall>f \<in> set fs. x < word_addr f \<or> word_addr f + 8 \<le> x \<Longrightarrow> I x = nmem st x"
  shows "\<exists>st''. nova_lite_journal_soft_init crc True (remount I st) = Some (0, st'') \<and>
    (\<forall>x. nova_data b x \<longrightarrow> nmem st'' x = nmem st x)"
proof -
  let ?p = "pair_at cpu" and ?st = "remount I st"
  from idle have b: "page_ok b" and cpu: "cpu < cpus st" "cpus st \<le> 64" by (simp_all add: nova_idle_def)
  have p: "4096 * 48 \<le> ?p" "?p + 64 \<le> 4096 * 49" using pair_page [of cpu] cpu by simp_all
  have f: "fs \<noteq> []" "length fs < 128" "\<forall>f \<in> set fs. off_page b f \<and> off_pair ?p f \<and> word_addr f \<noteq> 0"
    using fs p by (fastforce simp: fields_ok_def off_pair_def)+
  have ne: "journal_head ?st ?p \<noteq> journal_tail ?st ?p"
    using pos_not_tail [OF b _ f(2), of s] f(1) hd tl by simp
  have chk: "nova_check_journal_entries crc ?p ?st = Some 0"
    unfolding nova_check_journal_entries_def using check_entries_ok [OF b f(2), of crc ?st s "nmem st" ?p] ent hd tl by simp
  obtain es where es: "recover_entries ?p (of_nat (jpos b s)) ?st = Some (nexec es ?st)" "stores es = undo_stores (nmem st) fs"
    using recover_entries_ok [OF b f(2), of crc ?st s "nmem st" ?p] ent hd tl f(3) by auto
  let ?es = "es @ St (?p + 8, le64 (journal_head (nexec es ?st) ?p)) # map Fl (nova_flush_lines ?p 64) @ [Fe]"
  have rec: "nova_recover_lite_journal ?p ?st = Some (nexec ?es ?st)"
    unfolding nova_recover_lite_journal_def using es(1) hd by (simp add: nova_primitive_exec)
  let ?m = "nmem (nexec ?es ?st)"
  have m: "?m = nput (?p + 8) (le64 (get64 (napply (undo_stores (nmem st) fs) I) ?p)) (napply (undo_stores (nmem st) fs) I)"
    by (simp add: es(2))
  have keep: "?m x = I x" if "4096 * 48 \<le> x" "x < 4096 * 49" "x < ?p + 8 \<or> ?p + 16 \<le> x" for x
  proof -
    have "napply (undo_stores (nmem st) fs) I x = I x"
      using fields_off_pointers [OF fs that(1,2)] by (intro napply_untouched) (auto simp: undo_stores_def)
    then show ?thesis unfolding m using that(3) by (auto simp: nput_def)
  qed
  have rest: "pair_idle ?m c" if "c < cpus st" "c \<noteq> cpu" for c
  proof -
    have eq: "?m x = I x" if "pair_at c \<le> x" "x < pair_at c + 16" for x
      using keep [of x] that pair_page [of c] pair_bytes_away [OF \<open>c \<noteq> cpu\<close> that] \<open>c < cpus st\<close> cpu(2) by auto
    have "get64 ?m (pair_at c) = get64 I (pair_at c)" by (rule get64_cong, rule eq) simp_all
    moreover have "get64 ?m (pair_at c + 8) = get64 I (pair_at c + 8)" by (rule get64_cong, rule eq) simp_all
    ultimately show ?thesis using others [OF that] by simp
  qed
  have up: "[0..<cpus st] = [0..<cpu] @ cpu # [Suc cpu..<cpus st]"
    using upt_add_eq_append [of 0 cpu "cpus st - cpu"] upt_conv_Cons [OF cpu(1)] cpu(1) by simp
  have "soft_init_cpus crc (cpu # [Suc cpu..<cpus st]) 0 ?st = soft_init_cpus crc [Suc cpu..<cpus st] 0 (nexec ?es ?st)"
    using ne chk rec by (simp add: Let_def pair_at_def)
  also have "\<dots> = Some (0, nexec ?es ?st)"
    using soft_init_skip [of "[Suc cpu..<cpus st]" "nexec ?es ?st" crc "[]" 0] rest by simp
  finally have "nova_lite_journal_soft_init crc True ?st = Some (0, nexec ?es ?st)"
    unfolding nova_lite_journal_soft_init_def remount_simps up using soft_init_skip [of "[0..<cpu]" ?st crc _ 0] others cpu(1)
    by simp
  moreover have "?m x = nmem st x" if x: "nova_data b x" for x
  proof -
    have "x < ?p + 8 \<or> ?p + 16 \<le> x" using x p by (auto simp: nova_data_def)
    then have "?m x = napply (undo_stores (nmem st) fs) I x" unfolding m by (auto simp: nput_def)
    also have "\<dots> = nmem st x" by (rule undo_stores_restore) (rule same [OF x])
    finally show ?thesis .
  qed
  ultimately show ?thesis by blast
qed

section \<open>Crash images of a run\<close>

definition run_setting :: "nat \<Rightarrow> nat \<Rightarrow> nat \<Rightarrow> u64 list \<Rightarrow> nevent list \<Rightarrow> nova_st \<Rightarrow> bool" where
  "run_setting b s cpu fs B st \<longleftrightarrow> nova_idle b s cpu st \<and> fields_ok b fs \<and> body_ok fs B"

abbreviation new_tail :: "nat \<Rightarrow> nat \<Rightarrow> u64 list \<Rightarrow> u64" where
  "new_tail b s fs \<equiv> of_nat (jpos b (s + length fs))"

lemma ptr_part_stores [simp]: "stores (ptr_part cpu off t) = [(pair_at cpu + off, le64 t)]"
  by (simp add: ptr_part_def)

lemma log_part_stores [simp]: "stores (log_part crc m b s fs) = jstores crc m b s fs"
  by (simp add: log_part_def)

lemma setting_facts:
  assumes "run_setting b s cpu fs B st"
  shows "page_ok b" "b + 4096 \<le> 4096 * 48 \<or> 4096 * 49 \<le> b" "s < 128" "cpu < 64" "length fs < 128"
    "4096 * 48 \<le> pair_at cpu" "pair_at cpu + 64 \<le> 4096 * 49"
  using assms pair_page [of cpu] by (auto simp: run_setting_def nova_idle_def fields_ok_def)

lemma page_line: "page_ok b \<Longrightarrow> b \<le> x \<and> x < b + 4096 \<longleftrightarrow> b div 64 \<le> x div 64 \<and> x div 64 < b div 64 + 64"
proof -
  assume "page_ok b"
  then obtain q where "b = 4096 * q" by (auto simp: page_ok_def)
  then show ?thesis by auto
qed

text \<open>Stores of the caller are on lines of their own.\<close>

lemma body_lines:
  assumes r: "run_setting b s cpu fs B st" and y: "y \<in> set (stores B)"
  shows "in_line y" "fst y < b \<or> b + 4096 \<le> fst y" "fst y < 4096 * 48 \<or> 4096 * 49 \<le> fst y" "nline y \<noteq> 3072 + cpu"
proof -
  from r y obtain f where f: "in_line y" "f \<in> set fs" "word_addr f \<le> fst y" "fst y + length (snd y) \<le> word_addr f + 8"
    by (auto simp: run_setting_def body_ok_def)
  then show "in_line y" by simp
  have len: "0 < length (snd y)" using f(1) by (simp add: in_line_def)
  from r f(2) have off: "off_page b f" "word_addr f + 8 \<le> 4096 * 48 \<or> 4096 * 49 \<le> word_addr f"
    by (auto simp: run_setting_def fields_ok_def)
  show "fst y < b \<or> b + 4096 \<le> fst y" using off(1) f(3,4) len unfolding off_page_def by linarith
  show p: "fst y < 4096 * 48 \<or> 4096 * 49 \<le> fst y" using off(2) f(3,4) len by linarith
  show "nline y \<noteq> 3072 + cpu"
  proof
    assume "nline y = 3072 + cpu"
    then have "3072 \<le> fst y div 64" "fst y div 64 < 3136" using setting_facts(4) [OF r] by (simp_all add: nline_def)
    then have "4096 * 48 \<le> fst y" "fst y < 4096 * 49" by auto
    with p show False by auto
  qed
qed

lemma ptr_in_line: "off = 0 \<or> off = 8 \<Longrightarrow> in_line (pair_at cpu + off, le64 t)"
  by (rule in_line_aligned [of 8]) (auto simp: pair_at_def)

lemma ptr_nline: "off = 0 \<or> off = 8 \<Longrightarrow> nline (pair_at cpu + off, v) = 3072 + cpu"
  by (auto simp: nline_def pair_at_def)

definition run_events :: "(u8 list \<Rightarrow> u32) \<Rightarrow> mem \<Rightarrow> nat \<Rightarrow> nat \<Rightarrow> nat \<Rightarrow> u64 list \<Rightarrow> nevent list \<Rightarrow> nevent list" where
  "run_events crc m b s cpu fs B =
     log_part crc m b s fs @ ptr_part cpu 8 (new_tail b s fs) @ B @ ptr_part cpu 0 (new_tail b s fs)"

lemma run_in_line:
  assumes r: "run_setting b s cpu fs B st" and e: "E @ R = run_events crc m b s cpu fs B"
  shows "\<forall>y \<in> set (stores E). in_line y"
proof
  fix y
  assume "y \<in> set (stores E)"
  then have "y \<in> set (stores (E @ R))" by simp
  then consider "y \<in> set (jstores crc m b s fs)" | "y \<in> set (stores B)"
    | "y = (pair_at cpu + 8, le64 (new_tail b s fs))" | "y = (pair_at cpu + 0, le64 (new_tail b s fs))"
    unfolding e run_events_def by auto
  then show "in_line y"
  proof cases
    case 1
    with setting_facts(1) [OF r] show ?thesis by (rule jstores_in_line)
  next
    case 2
    with r show ?thesis by (rule body_lines(1))
  qed (simp_all only: ptr_in_line simp_thms)
qed

lemma run_away:
  assumes r: "run_setting b s cpu fs B st" and e: "E @ R = run_events crc m b s cpu fs B"
    and x: "nova_data b x" "\<forall>f \<in> set fs. x < word_addr f \<or> word_addr f + 8 \<le> x"
  shows "ncrash k E m' x = m' x"
proof (rule ncrash_untouched [OF run_in_line [OF r e]], rule ballI)
  fix y
  assume "y \<in> set (stores E)"
  then have "y \<in> set (stores (E @ R))" by simp
  then consider "y \<in> set (jstores crc m b s fs)" | "y \<in> set (stores B)"
    | "pair_at cpu \<le> fst y" "fst y + length (snd y) \<le> pair_at cpu + 64"
    unfolding e run_events_def by auto
  then show "x < fst y \<or> fst y + length (snd y) \<le> x"
  proof cases
    case 1
    from jstores_on_page [OF this] x(1) show ?thesis by (auto simp: nova_data_def)
  next
    case 2
    with r obtain f where "f \<in> set fs" "word_addr f \<le> fst y" "fst y + length (snd y) \<le> word_addr f + 8"
      by (auto simp: run_setting_def body_ok_def)
    with x(2) show ?thesis by fastforce
  next
    case 3
    with setting_facts(6,7) [OF r] x(1) show ?thesis by (auto simp: nova_data_def)
  qed
qed

text \<open>Once the entries are flushed and fenced they survive.\<close>

lemma entries_survive:
  assumes r: "run_setting b s cpu fs B st" and e: "(log_part crc m b s fs @ E2) @ R = run_events crc m b s cpu fs B"
    and k: "ncrash_choice k (log_part crc m b s fs @ E2)"
  shows "entries_at crc (ncrash k (log_part crc m b s fs @ E2) m) b s fs m"
proof -
  let ?X = "log_part crc m b s fs" and ?J = "jstores crc m b s fs"
  note f = setting_facts [OF r]
  have e2: "E2 @ R = ptr_part cpu 8 (new_tail b s fs) @ B @ ptr_part cpu 0 (new_tail b s fs)"
    using e by (simp add: run_events_def)
  have off: "fst y < b \<or> b + 4096 \<le> fst y" if y: "y \<in> set (stores E2)" for y
  proof -
    from y have "y \<in> set (stores (E2 @ R))" by simp
    then consider "y \<in> set (stores B)" | "pair_at cpu \<le> fst y" "fst y < pair_at cpu + 64" unfolding e2 by auto
    then show ?thesis using body_lines(2) [OF r] f(2,6,7) by cases auto
  qed
  have "ncrash k (?X @ E2) m x = napply ?J m x" if x: "b \<le> x" "x < b + 4096" for x
  proof -
    let ?l = "x div 64"
    have "nline y \<noteq> ?l" if "y \<in> set (stores E2)" for y
      using off [OF that] page_line [OF f(1), of "fst y"] page_line [OF f(1), of x] x by (auto simp: nline_def)
    then have none: "nline_stores ?l (stores E2) = []" by (simp add: filter_empty_conv)
    have "nguar ?l ?X = length (nline_stores ?l ?J)"
      unfolding log_part_def
    proof (rule stored_flushed_fenced)
      fix y
      assume y: "y \<in> set ?J" "nline y = ?l"
      from jstores_range [OF y(1)] obtain i where i: "s \<le> i" "i < s + length fs" "jpos b i \<le> fst y"
        "fst y + length (snd y) \<le> jpos b i + 32" by blast
      have "snd y \<noteq> []" using jstores_in_line [OF f(1) y(1)] by (simp add: in_line_def)
      then have "fst y < jpos b i + 32" using i(4) by (cases "snd y") simp_all
      from batch_covers [OF f(1,3,5) i(1,2,3) this] y(2)
      show "?l \<in> set (batch_lines (of_nat (jpos b s)) (of_nat (jpos b (s + length fs))))" by (simp add: nline_def)
    qed
    then have "length (nline_stores ?l (stores (?X @ E2))) \<le> nguar ?l (?X @ E2)"
      using line_guar_mono [of nline ?l ?X E2] none by simp
    with line_guar_le [of nline ?l "?X @ E2"]
    have "nguar ?l (?X @ E2) = length (nline_stores ?l (stores (?X @ E2)))" by simp
    from ncrash_durable [OF run_in_line [OF r e] k this]
    have "ncrash k (?X @ E2) m x = napply (stores E2) (napply ?J m) x" by simp
    also have "\<dots> = napply ?J m x"
    proof -
      have "\<forall>y \<in> set (stores E2). in_line y" using run_in_line [OF r e] by simp
      from napply_on_line [OF this, of "napply ?J m" x "napply ?J m"] none show ?thesis by simp
    qed
    finally show ?thesis .
  qed
  with entries_at_cong [OF _ jstores_entries [of fs crc m b s m]] f(5) show ?thesis by simp
qed

section \<open>The journal pointers after a crash\<close>

lemma pointer_lines:
  assumes r: "run_setting b s cpu fs B st"
  shows "nline_stores (3072 + cpu) (jstores crc m b s fs) = []" "nline_stores (3072 + cpu) (stores B) = []"
    "nline_stores (3072 + cpu) [(pair_at cpu + 8, v)] = [(pair_at cpu + 8, v)]"
    "nline_stores (3072 + cpu) [(pair_at cpu + 0, v)] = [(pair_at cpu + 0, v)]"
proof -
  note f = setting_facts [OF r]
  have "nline y \<noteq> 3072 + cpu" if y: "y \<in> set (jstores crc m b s fs)" for y
  proof
    assume "nline y = 3072 + cpu"
    then have "3072 \<le> fst y div 64" "fst y div 64 < 3136" using f(4) by (simp_all add: nline_def)
    then have "4096 * 48 \<le> fst y" "fst y < 4096 * 49" by auto
    moreover have "snd y \<noteq> []" using jstores_in_line [OF f(1) y] by (simp add: in_line_def)
    then have "fst y < b + 4096" using jstores_on_page [OF y] by (cases "snd y") simp_all
    ultimately show False using jstores_on_page [OF y] f(2) by auto
  qed
  then show "nline_stores (3072 + cpu) (jstores crc m b s fs) = []" by (simp add: filter_empty_conv)
  show "nline_stores (3072 + cpu) (stores B) = []" using body_lines(4) [OF r] by (simp add: filter_empty_conv)
  show "nline_stores (3072 + cpu) [(pair_at cpu + 8, v)] = [(pair_at cpu + 8, v)]"
    "nline_stores (3072 + cpu) [(pair_at cpu + 0, v)] = [(pair_at cpu + 0, v)]"
    by (simp_all only: filter.simps ptr_nline simp_thms if_True)
qed

text \<open>\<open>ps\<close> are the stores to the pointers that survive.\<close>

lemma pointers_after:
  assumes r: "run_setting b s cpu fs B st" and e: "E @ R = run_events crc (nmem st) b s cpu fs B"
    and ps: "take (k (3072 + cpu)) (nline_stores (3072 + cpu) (stores E)) = ps"
  shows "get64 (ncrash k E (nmem st)) (pair_at cpu) = get64 (napply ps (nmem st)) (pair_at cpu)"
    "get64 (ncrash k E (nmem st)) (pair_at cpu + 8) = get64 (napply ps (nmem st)) (pair_at cpu + 8)"
proof -
  have eq: "ncrash k E (nmem st) x = napply ps (nmem st) x" if "pair_at cpu \<le> x" "x < pair_at cpu + 16" for x
  proof -
    have "x div 64 = 3072 + cpu" using that by (auto simp: pair_at_def)
    with ncrash_byte [OF run_in_line [OF r e], of k "nmem st" x] ps show ?thesis by simp
  qed
  show "get64 (ncrash k E (nmem st)) (pair_at cpu) = get64 (napply ps (nmem st)) (pair_at cpu)"
    by (rule get64_cong, rule eq) simp_all
  show "get64 (ncrash k E (nmem st)) (pair_at cpu + 8) = get64 (napply ps (nmem st)) (pair_at cpu + 8)"
    by (rule get64_cong, rule eq) simp_all
qed

lemma setting_idle: "run_setting b s cpu fs B st \<Longrightarrow> c < cpus st \<Longrightarrow> pair_idle (nmem st) c"
  unfolding run_setting_def nova_idle_def by blast

lemma other_pointers:
  assumes r: "run_setting b s cpu fs B st" and e: "E @ R = run_events crc (nmem st) b s cpu fs B"
    and c: "c < cpus st" "c \<noteq> cpu"
  shows "pair_idle (ncrash k E (nmem st)) c"
proof -
  note f = setting_facts [OF r]
  have c64: "c < 64" using r c by (simp add: run_setting_def nova_idle_def)
  have eq: "ncrash k E (nmem st) x = nmem st x" if x: "pair_at c \<le> x" "x < pair_at c + 16" for x
  proof (rule ncrash_untouched [OF run_in_line [OF r e]], rule ballI)
    fix y
    assume "y \<in> set (stores E)"
    then have "y \<in> set (stores (E @ R))" by simp
    then consider "y \<in> set (jstores crc (nmem st) b s fs)" | "y \<in> set (stores B)"
      | "pair_at cpu \<le> fst y" "fst y + length (snd y) \<le> pair_at cpu + 16"
      unfolding e run_events_def by auto
    then show "x < fst y \<or> fst y + length (snd y) \<le> x"
    proof cases
      case 1
      from jstores_on_page [OF this] f(2) pair_page [OF c64] x show ?thesis by auto
    next
      case 2
      with r obtain g where "g \<in> set fs" "word_addr g \<le> fst y" "fst y + length (snd y) \<le> word_addr g + 8"
        by (auto simp: run_setting_def body_ok_def)
      moreover have "\<forall>f \<in> set fs. x < word_addr f \<or> word_addr f + 8 \<le> x"
        using r pair_page [OF c64] x by (intro fields_off_pointers) (auto simp: run_setting_def)
      ultimately show ?thesis by fastforce
    next
      case 3
      with pair_bytes_away [OF c(2) x] show ?thesis by auto
    qed
  qed
  have "get64 (ncrash k E (nmem st)) (pair_at c) = get64 (nmem st) (pair_at c)"
    by (rule get64_cong, rule eq) simp_all
  moreover have "get64 (ncrash k E (nmem st)) (pair_at c + 8) = get64 (nmem st) (pair_at c + 8)"
    by (rule get64_cong, rule eq) simp_all
  moreover have "pair_idle (nmem st) c" using r c(1) by (rule setting_idle)
  ultimately show ?thesis by simp
qed

text \<open>What mounting does, by the stores to the pointers that survived.\<close>

lemma mount_old_pointers:
  assumes r: "run_setting b s cpu fs B st" and e: "E @ R = run_events crc (nmem st) b s cpu fs B"
    and ps: "take (k (3072 + cpu)) (nline_stores (3072 + cpu) (stores E)) \<in>
      {[], [(pair_at cpu + 8, le64 t), (pair_at cpu + 0, le64 t)]}"
  shows "nova_lite_journal_soft_init crc True (remount (ncrash k E (nmem st)) st) =
    Some (0, remount (ncrash k E (nmem st)) st)"
proof (rule soft_init_all_idle, intro allI impI)
  fix c
  assume c: "c < cpus (remount (ncrash k E (nmem st)) st)"
  show "pair_idle (nmem (remount (ncrash k E (nmem st)) st)) c"
  proof (cases "c = cpu")
    case True
    have i: "pair_idle (nmem st) cpu" using setting_idle [OF r, of cpu] True c by simp
    have "get64 (nput (pair_at cpu) (le64 t) (nput (pair_at cpu + 8) (le64 t) (nmem st))) (pair_at cpu) = t"
      "get64 (nput (pair_at cpu) (le64 t) (nput (pair_at cpu + 8) (le64 t) (nmem st))) (pair_at cpu + 8) = t"
      by (rule get64_of_bytes, simp)+
    with True i ps pointers_after [OF r e refl, of k] show ?thesis by auto
  next
    case False
    with c other_pointers [OF r e _ False] show ?thesis by simp
  qed
qed

lemma mount_recovers:
  assumes r: "run_setting b s cpu fs B st" and e: "(log_part crc (nmem st) b s fs @ E2) @ R = run_events crc (nmem st) b s cpu fs B"
    and k: "ncrash_choice k (log_part crc (nmem st) b s fs @ E2)"
    and ps: "take (k (3072 + cpu)) (nline_stores (3072 + cpu) (stores (log_part crc (nmem st) b s fs @ E2))) =
      [(pair_at cpu + 8, le64 (new_tail b s fs))]"
  shows "\<exists>st''. nova_lite_journal_soft_init crc True (remount (ncrash k (log_part crc (nmem st) b s fs @ E2) (nmem st)) st) =
      Some (0, st'') \<and> (\<forall>x. nova_data b x \<longrightarrow> nmem st'' x = nmem st x)"
proof (rule soft_init_recovers)
  let ?I = "ncrash k (log_part crc (nmem st) b s fs @ E2) (nmem st)"
  show "nova_idle b s cpu st" "fields_ok b fs" using r by (simp_all add: run_setting_def)
  show "entries_at crc ?I b s fs (nmem st)" by (rule entries_survive [OF r e k])
  have "get64 (nput (pair_at cpu + 8) (le64 (new_tail b s fs)) (nmem st)) (pair_at cpu) = get64 (nmem st) (pair_at cpu)"
    by (rule get64_cong) (simp add: nput_def)
  moreover have "get64 (nmem st) (pair_at cpu) = of_nat (jpos b s)" using r by (simp add: run_setting_def nova_idle_def)
  ultimately show "get64 ?I (pair_at cpu) = of_nat (jpos b s)" using pointers_after(1) [where k = k, OF r e ps] by simp
  have "get64 (nput (pair_at cpu + 8) (le64 (new_tail b s fs)) (nmem st)) (pair_at cpu + 8) = new_tail b s fs"
    by (rule get64_of_bytes) simp
  with pointers_after(2) [where k = k, OF r e ps] show "get64 ?I (pair_at cpu + 8) = new_tail b s fs" by simp
  show "pair_idle ?I c" if "c < cpus st" "c \<noteq> cpu" for c using that by (rule other_pointers [OF r e])
  show "?I x = nmem st x" if "nova_data b x" "\<forall>f \<in> set fs. x < word_addr f \<or> word_addr f + 8 \<le> x" for x
    using that by (rule run_away [OF r e])
qed

end
