(* ===== verification/Nova_Props.thy ===== *)
theory Nova_Props
  imports Nova_Crash
begin

unbundle bit_operations_syntax

text \<open>Crash atomicity and durability of NOVA's lite transactions, and the order of writes in recovery.\<close>

section \<open>The cases of a crash\<close>

definition mounts_to :: "(u8 list \<Rightarrow> u32) \<Rightarrow> nat \<Rightarrow> mem \<Rightarrow> nova_st \<Rightarrow> mem \<Rightarrow> bool" where
  "mounts_to crc b I st m \<longleftrightarrow>
     (\<exists>st''. nova_lite_journal_soft_init crc True (remount I st) = Some (0, st'') \<and>
        (\<forall>x. nova_data b x \<longrightarrow> nmem st'' x = m x))"

lemma data_old_before_body:
  assumes r: "run_setting b s cpu fs B st" and e: "E @ R = run_events crc (nmem st) b s cpu fs B"
    and st: "set (stores E) \<subseteq> set (jstores crc (nmem st) b s fs) \<union> {(pair_at cpu + 8, v)}" and v: "length v = 8"
    and x: "nova_data b x"
  shows "ncrash k E (nmem st) x = nmem st x"
proof (rule ncrash_untouched [OF run_in_line [OF r e]], rule ballI)
  fix y
  assume "y \<in> set (stores E)"
  with st consider "y \<in> set (jstores crc (nmem st) b s fs)" | "y = (pair_at cpu + 8, v)" by blast
  then show "x < fst y \<or> fst y + length (snd y) \<le> x"
  proof cases
    case 1
    from jstores_on_page [OF this] x show ?thesis by (auto simp: nova_data_def)
  next
    case 2
    with setting_facts(6,7) [OF r] x v show ?thesis by (auto simp: nova_data_def)
  qed
qed

lemma mounts_old_idle:
  assumes r: "run_setting b s cpu fs B st" and e: "E @ R = run_events crc (nmem st) b s cpu fs B"
    and st: "set (stores E) \<subseteq> set (jstores crc (nmem st) b s fs) \<union> {(pair_at cpu + 8, le64 (new_tail b s fs))}"
    and ps: "take (k (3072 + cpu)) (nline_stores (3072 + cpu) (stores E)) = []"
  shows "mounts_to crc b (ncrash k E (nmem st)) st (nmem st)"
  unfolding mounts_to_def
  using mount_old_pointers [OF r e, of k] ps data_old_before_body [OF r e st] by (intro exI conjI) auto

lemma tail_durable:
  assumes r: "run_setting b s cpu fs B st"
  shows "nguar (3072 + cpu) (log_part crc m b s fs @ ptr_part cpu 8 t) = 1"
    "nguar (3072 + cpu) (log_part crc m b s fs @ ptr_part cpu 8 t @ B @ ptr_part cpu 0 t) = 2"
proof -
  note pl = pointer_lines [OF r]
  let ?A = "log_part crc m b s fs @ [St (pair_at cpu + 8, le64 t)]"
  have "nguar (3072 + cpu) (?A @ [Fl (3072 + cpu)] @ [] @ [Fe]) = length (nline_stores (3072 + cpu) (stores ?A))"
    by (rule line_guar_flush_fence) simp
  moreover have "nline_stores (3072 + cpu) (stores ?A) = [(pair_at cpu + 8, le64 t)]"
    using pl(1) [of crc m] pl(3) by simp
  ultimately have "nguar (3072 + cpu) (?A @ [Fl (3072 + cpu)] @ [] @ [Fe]) = length [(pair_at cpu + 8, le64 t)]"
    by (simp only:)
  then show "nguar (3072 + cpu) (log_part crc m b s fs @ ptr_part cpu 8 t) = 1" by (simp add: ptr_part_def)
  let ?B = "log_part crc m b s fs @ ptr_part cpu 8 t @ B @ [St (pair_at cpu + 0, le64 t)]"
  have "nguar (3072 + cpu) (?B @ [Fl (3072 + cpu)] @ [] @ [Fe]) = length (nline_stores (3072 + cpu) (stores ?B))"
    by (rule line_guar_flush_fence) simp
  moreover have "length (nline_stores (3072 + cpu) (stores ?B)) = 2"
  proof -
    have "stores ?B = jstores crc m b s fs @ [(pair_at cpu + 8, le64 t)] @ stores B @ [(pair_at cpu + 0, le64 t)]"
      by (simp add: ptr_part_def)
    then show ?thesis unfolding filter_append using pl(1) [of crc m] pl(2) pl(3) [of "le64 t"] pl(4) [of "le64 t"]
      by (simp only: filter_append append_Nil) simp
  qed
  ultimately have "nguar (3072 + cpu) (?B @ [Fl (3072 + cpu)] @ [] @ [Fe]) = 2" by (simp only:)
  then show "nguar (3072 + cpu) (log_part crc m b s fs @ ptr_part cpu 8 t @ B @ ptr_part cpu 0 t) = 2"
    by (simp add: ptr_part_def)
qed

text \<open>After the caller's last fence the new data survive.\<close>

lemma data_new_survives:
  assumes r: "run_setting b s cpu fs B st" and k: "ncrash_choice k E"
    and E: "E = log_part crc (nmem st) b s fs @ ptr_part cpu 8 (new_tail b s fs) @ B @ E4"
    and e: "E @ R = run_events crc (nmem st) b s cpu fs B" and x: "nova_data b x"
  shows "ncrash k E (nmem st) x = napply (stores B) (nmem st) x"
proof -
  let ?XY = "log_part crc (nmem st) b s fs @ ptr_part cpu 8 (new_tail b s fs)" and ?l = "x div 64"
  have e4: "E4 @ R = ptr_part cpu 0 (new_tail b s fs)" using e unfolding E run_events_def by simp
  note f = setting_facts [OF r]
  have ol: "\<forall>y \<in> set (stores E). in_line y" by (rule run_in_line [OF r e])
  have away: "x < fst y \<or> fst y + length (snd y) \<le> x" if y: "y \<in> set (stores (?XY @ E4))" for y
  proof -
    have "y \<in> set (stores (?XY @ E4 @ R))" using y by auto
    then consider "y \<in> set (jstores crc (nmem st) b s fs)" | "pair_at cpu \<le> fst y" "fst y + length (snd y) \<le> pair_at cpu + 64"
      unfolding e4 by auto
    then show ?thesis
    proof cases
      case 1
      from jstores_on_page [OF this] x show ?thesis by (auto simp: nova_data_def)
    next
      case 2
      with f(6,7) x show ?thesis by (auto simp: nova_data_def)
    qed
  qed
  have fresh: "nline_stores ?l (stores (?XY @ E4)) = []"
  proof -
    have "nline y \<noteq> ?l" if y: "y \<in> set (stores (?XY @ E4))" for y
    proof
      assume nl: "nline y = ?l"
      have "y \<in> set (stores (?XY @ E4 @ R))" using y by auto
      then consider "y \<in> set (jstores crc (nmem st) b s fs)" | "nline y = 3072 + cpu"
        unfolding e4 using ptr_nline by fastforce
      then show False
      proof cases
        case 1
        have "snd y \<noteq> []" using jstores_in_line [OF f(1) 1] by (simp add: in_line_def)
        then have "fst y < b + 4096" using jstores_on_page [OF 1] by (cases "snd y") simp_all
        with jstores_on_page [OF 1] page_line [OF f(1), of "fst y"] page_line [OF f(1), of x] nl x
        show False by (auto simp: nline_def nova_data_def)
      next
        case 2
        with nl f(4) have "3072 \<le> x div 64" "x div 64 < 3136" by simp_all
        then have "4096 * 48 \<le> x" "x < 4096 * 49" by auto
        with x show False by (auto simp: nova_data_def)
      qed
    qed
    then show ?thesis by (simp add: filter_empty_conv)
  qed
  have only_body: "nline_stores ?l (stores E) = nline_stores ?l (stores B)"
    using fresh unfolding E
    by (simp only: stores_append filter_append append_is_Nil_conv append_Nil append_Nil2 simp_thms)
  have "nguar ?l (?XY @ B) = nguar ?l B" 
    by (rule fresh_line_guar) (use fresh in \<open>simp only: stores_append filter_append append_is_Nil_conv simp_thms\<close>)
  also have "\<dots> = length (nline_stores ?l (stores B))" using r by (simp add: run_setting_def body_ok_def)
  also have "\<dots> = length (nline_stores ?l (stores E))" by (simp only: only_body)
  finally have "length (nline_stores ?l (stores E)) \<le> nguar ?l E"
    using line_guar_mono [of nline ?l "?XY @ B" E4] unfolding E by simp
  with line_guar_le [of nline ?l E] have "nguar ?l E = length (nline_stores ?l (stores E))" by simp
  from ncrash_durable [OF ol k this] have "ncrash k E (nmem st) x = napply (stores E) (nmem st) x" .
  also have "\<dots> = napply (nline_stores ?l (stores E)) (nmem st) x" by (rule napply_on_line [OF ol refl])
  also note only_body
  also have "napply (nline_stores ?l (stores B)) (nmem st) x = napply (stores B) (nmem st) x"
    using napply_on_line [of "stores B" "nmem st" x "nmem st"] body_lines(1) [OF r] by simp
  finally show ?thesis .
qed

lemma mounts_old_recovered:
  assumes r: "run_setting b s cpu fs B st" and E: "E = log_part crc (nmem st) b s fs @ E2"
    and e: "E @ R = run_events crc (nmem st) b s cpu fs B" and k: "ncrash_choice k E"
    and ps: "take (k (3072 + cpu)) (nline_stores (3072 + cpu) (stores E)) = [(pair_at cpu + 8, le64 (new_tail b s fs))]"
  shows "mounts_to crc b (ncrash k E (nmem st)) st (nmem st)"
  using mount_recovers [OF r e [unfolded E] k [unfolded E] ps [unfolded E]] unfolding mounts_to_def E .

text \<open>A crash after the tail pointer is durable, first in the caller's updates, then in the commit.\<close>

lemma tail_kept:
  assumes r: "run_setting b s cpu fs B st" and k: "ncrash_choice k E"
    and E: "E = log_part crc (nmem st) b s fs @ ptr_part cpu 8 (new_tail b s fs) @ E3"
  shows "1 \<le> k (3072 + cpu)"
    "nline_stores (3072 + cpu) (stores E) = (pair_at cpu + 8, le64 (new_tail b s fs)) # nline_stores (3072 + cpu) (stores E3)"
proof -
  let ?XY = "log_part crc (nmem st) b s fs @ ptr_part cpu 8 (new_tail b s fs)"
  have "1 \<le> nguar (3072 + cpu) E"
    using tail_durable(1) [OF r, of crc] line_guar_mono [of nline "3072 + cpu" ?XY E3] unfolding E by simp
  then show "1 \<le> k (3072 + cpu)" using k by (metis ncrash_choice_def order_trans)
  show "nline_stores (3072 + cpu) (stores E) =
      (pair_at cpu + 8, le64 (new_tail b s fs)) # nline_stores (3072 + cpu) (stores E3)"
    unfolding E stores_append filter_append log_part_stores pointer_lines [OF r] ptr_part_stores by simp
qed

lemma crash_in_commit:
  assumes r: "run_setting b s cpu fs B st" and k: "ncrash_choice k E"
    and E: "E = log_part crc (nmem st) b s fs @ ptr_part cpu 8 (new_tail b s fs) @ B @ E4"
    and e4: "E4 @ R = ptr_part cpu 0 (new_tail b s fs)" and e: "E @ R = run_events crc (nmem st) b s cpu fs B"
  shows "(mounts_to crc b (ncrash k E (nmem st)) st (nmem st) \<and> R \<noteq> []) \<or>
    mounts_to crc b (ncrash k E (nmem st)) st (napply (stores B) (nmem st))"
proof -
  let ?l = "3072 + cpu" and ?t = "new_tail b s fs"
  let ?tail = "(pair_at cpu + 8, le64 ?t)" and ?head = "(pair_at cpu + 0, le64 ?t)"
  note pl = pointer_lines [OF r] and kept = tail_kept [OF r k E]
  have base: "nline_stores ?l (stores E) = ?tail # nline_stores ?l (stores E4)"
    unfolding kept(2) stores_append filter_append pl(2) by simp
  have "stores E4 @ stores R = [?head]" using arg_cong [OF e4, of stores] by simp
  then have "stores E4 = [] \<and> R \<noteq> [] \<or> stores E4 = [?head]" by (auto simp: append_eq_Cons_conv)
  then consider "stores E4 = []" "R \<noteq> []" | "stores E4 = [?head]" by blast
  then show ?thesis
  proof cases
    case 1
    then have "take (k ?l) (nline_stores ?l (stores E)) = [?tail]" using base kept(1) by (cases "k ?l") simp_all
    with mounts_old_recovered [OF r E e k] 1(2) show ?thesis by simp
  next
    case 2
    then have ps: "nline_stores ?l (stores E) = [?tail, ?head]" unfolding base by (simp only: pl(4))
    show ?thesis
    proof (cases "k ?l = 1")
      case True
      have "R \<noteq> []"
      proof
        assume "R = []"
        with tail_durable(2) [OF r, of crc] E e4 have "nguar ?l E = 2" by simp
        with True k show False by (metis ncrash_choice_def numeral_le_one_iff semiring_norm(69))
      qed
      moreover have "take (k ?l) (nline_stores ?l (stores E)) = [?tail]" using ps True by simp
      ultimately show ?thesis using mounts_old_recovered [OF r E e k] by simp
    next
      case False
      with kept(1) have "take (k ?l) (nline_stores ?l (stores E)) = [?tail, ?head]"
        unfolding ps by (cases "k ?l"; cases "k ?l - 1") auto
      with mount_old_pointers [OF r e, of k] have
        "nova_lite_journal_soft_init crc True (remount (ncrash k E (nmem st)) st) =
          Some (0, remount (ncrash k E (nmem st)) st)" by auto
      with data_new_survives [OF r k E e] show ?thesis unfolding mounts_to_def by auto
    qed
  qed
qed

lemma nova_crash_cases:
  assumes r: "run_setting b s cpu fs B st" and e: "E @ R = run_events crc (nmem st) b s cpu fs B"
    and k: "ncrash_choice k E"
  shows "(mounts_to crc b (ncrash k E (nmem st)) st (nmem st) \<and> R \<noteq> []) \<or>
    mounts_to crc b (ncrash k E (nmem st)) st (napply (stores B) (nmem st))"
proof -
  let ?X = "log_part crc (nmem st) b s fs" and ?t = "new_tail b s fs" and ?l = "3072 + cpu"
  let ?Y = "ptr_part cpu 8 ?t" and ?C = "ptr_part cpu 0 ?t" and ?tail = "(pair_at cpu + 8, le64 ?t)"
  note pl = pointer_lines [OF r]
  have C: "?C \<noteq> []" by (simp add: ptr_part_def)
  from e have "E @ R = ?X @ (?Y @ B @ ?C)" by (simp add: run_events_def)
  then show ?thesis
  proof (cases rule: prefix_split)
    case (inside us)
    have "stores E @ stores us = jstores crc (nmem st) b s fs" using arg_cong [OF inside(1), of stores] by simp
    then have "nline_stores ?l (stores E) = []" "set (stores E) \<subseteq> set (jstores crc (nmem st) b s fs)"
      using pl(1) [of crc "nmem st"] by (metis append_is_Nil_conv filter_append, metis Un_upper1 set_append)
    with mounts_old_idle [OF r e, of k] inside(2) C show ?thesis by auto
  next
    case E2: (beyond E2)
    from E2(2) show ?thesis
    proof (cases rule: prefix_split)
      case (inside us)
      have "stores E2 @ stores us = [?tail]" using arg_cong [OF inside(1), of stores] by simp
      then have s2: "stores E2 = [] \<or> stores E2 = [?tail]" by (auto simp: append_eq_Cons_conv)
      then have ps: "nline_stores ?l (stores E) = [] \<or> nline_stores ?l (stores E) = [?tail]"
        unfolding E2(1) stores_append filter_append log_part_stores pl(1) using pl(3) [of "le64 ?t"] by auto
      have sub: "set (stores E) \<subseteq> set (jstores crc (nmem st) b s fs) \<union> {?tail}" using s2 E2(1) by auto
      have "take (k ?l) (nline_stores ?l (stores E)) = [] \<or> take (k ?l) (nline_stores ?l (stores E)) = [?tail]"
        using ps by (cases "k ?l") auto
      with mounts_old_idle [OF r e sub, of k] mounts_old_recovered [OF r E2(1) e k] inside(2) C show ?thesis by auto
    next
      case E3: (beyond E3)
      have E: "E = ?X @ ?Y @ E3" using E2(1) E3(1) by simp
      note kept = tail_kept [OF r k E]
      from E3(2) show ?thesis
      proof (cases rule: prefix_split)
        case (inside us)
        have "nline_stores ?l (stores E3) = []" using pl(2) unfolding inside(1) by simp
        with kept have "take (k ?l) (nline_stores ?l (stores E)) = [?tail]" by (cases "k ?l") simp_all
        with mounts_old_recovered [OF r E e k] inside(2) C show ?thesis by simp
      next
        case (beyond E4)
        with E have "E = ?X @ ?Y @ B @ E4" by simp
        from crash_in_commit [OF r k this beyond(2) e] show ?thesis .
      qed
    qed
  qed
qed

section \<open>Atomicity\<close>

text \<open>
  C2: Creating any of NOVA's lite transactions on an idle journal, updating logged words in place with the
  updates flushed and fenced, and committing succeeds.  For a crash at any of its stores, flushes and fences
  and any choice of surviving stores, mounting succeeds and the data are those from before the transaction
  or those after it, and those after it when the commit has returned.
\<close>

theorem nova_transaction_atomic:
  assumes idle: "nova_idle b s cpu st" and fs: "fields_ok b (tx_fields tx)" and B: "body_ok (tx_fields tx) B"
  shows "\<exists>st'. nova_run crc tx B cpu st = Inr st' \<and>
    (\<forall>x. nova_data b x \<longrightarrow> nmem st' x = napply (stores B) (nmem st) x) \<and>
    (\<forall>E R k. nevs st' = E @ R \<and> ncrash_choice k E \<longrightarrow>
       (mounts_to crc b (ncrash k E (nmem st)) st (nmem st) \<and> R \<noteq> []) \<or>
       mounts_to crc b (ncrash k E (nmem st)) st (nmem st'))"
proof -
  let ?fs = "tx_fields tx" and ?m = "nmem st"
  let ?F = "run_events crc ?m b s cpu ?fs B"
  have r: "run_setting b s cpu ?fs B st" using assms by (simp add: run_setting_def)
  have run: "nova_run crc tx B cpu st = Inr (nexec ?F st)"
    using run_exec [OF assms] by (simp add: run_events_def)
  have evs: "nevs (nexec ?F st) = ?F" using idle by (simp add: nova_idle_def)
  have il: "\<forall>y \<in> set (stores ?F). in_line y" by (rule run_in_line [OF r append_Nil2])
  have new: "nmem (nexec ?F st) x = napply (stores B) ?m x" if x: "nova_data b x" for x
  proof -
    have "ncrash_choice (\<lambda>l. length (stores ?F)) ?F"
      unfolding ncrash_choice_def using line_guar_le [of nline _ ?F] length_filter_le order_trans by blast
    moreover have "ncrash (\<lambda>l. length (stores ?F)) ?F ?m x = napply (stores ?F) ?m x"
      using ncrash_byte [OF il, of "\<lambda>l. length (stores ?F)" ?m x] napply_on_line [OF il, of ?m x ?m] by simp
    ultimately show ?thesis
      using data_new_survives [OF r _ _ _ x, of _ ?F crc "ptr_part cpu 0 (new_tail b s ?fs)" "[]"]
      by (simp add: run_events_def)
  qed
  have "mounts_to crc b I st (napply (stores B) ?m) \<Longrightarrow> mounts_to crc b I st (nmem (nexec ?F st))" for I
    unfolding mounts_to_def using new by metis
  with nova_crash_cases [OF r, of _ _ crc] run evs new show ?thesis by (intro exI [of _ "nexec ?F st"]) metis
qed

text \<open>One processor, the journal head in the last slot of its page, and an update of one word of a link-change entry.\<close>

definition nova0 :: nova_st where
  "nova0 = \<lparr>nmem = nput (pair_at 0) (le64 413664) (nput (pair_at 0 + 8) (le64 413664) (\<lambda>x. 0)),
     nevs = [], cpus = 1, metadata_csum = False, null_write = False\<rparr>"

definition update0 :: "nevent list" where
  "update0 = map St [(1048584, le64 5)] @ map Fl [16384] @ [Fe]"

lemma nova0_idle: "nova_idle 409600 127 0 nova0"
proof -
  have "get64 (nmem nova0) (pair_at 0) = 413664" "get64 (nmem nova0) (pair_at 0 + 8) = 413664"
    by (rule get64_of_bytes, simp add: nova0_def)+
  then show ?thesis by (simp add: nova_idle_def nova0_def page_ok_def jpos_def)
qed

lemma tx0_fields: "tx_fields (TxEntry 1048576 LINK_CHANGE) = [1048576, 1048584, 1048592, 1048600, 1048608]"
  by (simp add: upt_rec)

lemma tx0_fields_ok: "fields_ok 409600 (tx_fields (TxEntry 1048576 LINK_CHANGE))"
  unfolding tx0_fields by (simp add: fields_ok_def off_page_def word_addr_def)

lemma update0_ok: "body_ok (tx_fields (TxEntry 1048576 LINK_CHANGE)) update0"
proof -
  have "in_line (1048584, le64 5)" by (rule in_line_aligned [of 8]) simp_all
  moreover have "nguar l update0 = length (nline_stores l [(1048584, le64 5)])" for l
    unfolding update0_def by (rule stored_flushed_fenced) (auto simp: nline_def)
  ultimately show ?thesis unfolding tx0_fields body_ok_def by (auto simp: update0_def word_addr_def)
qed

theorem nova_transaction_atomic_witness:
  "\<exists>st'. nova_run (\<lambda>bs. 7) (TxEntry 1048576 LINK_CHANGE) update0 0 nova0 = Inr st' \<and> get64 (nmem st') 1048584 = 5 \<and>
    (\<forall>E R k. nevs st' = E @ R \<and> ncrash_choice k E \<longrightarrow>
       (mounts_to (\<lambda>bs. 7) 409600 (ncrash k E (nmem nova0)) nova0 (nmem nova0) \<and> R \<noteq> []) \<or>
       mounts_to (\<lambda>bs. 7) 409600 (ncrash k E (nmem nova0)) nova0 (nmem st'))"
proof -
  obtain st' where st': "nova_run (\<lambda>bs. 7) (TxEntry 1048576 LINK_CHANGE) update0 0 nova0 = Inr st'"
    "\<forall>x. nova_data 409600 x \<longrightarrow> nmem st' x = napply (stores update0) (nmem nova0) x"
    "\<forall>E R k. nevs st' = E @ R \<and> ncrash_choice k E \<longrightarrow>
       (mounts_to (\<lambda>bs. 7) 409600 (ncrash k E (nmem nova0)) nova0 (nmem nova0) \<and> R \<noteq> []) \<or>
       mounts_to (\<lambda>bs. 7) 409600 (ncrash k E (nmem nova0)) nova0 (nmem st')"
    using nova_transaction_atomic [OF nova0_idle tx0_fields_ok update0_ok] by blast
  have "get64 (nmem st') 1048584 = get64 (napply (stores update0) (nmem nova0)) 1048584"
    by (rule get64_cong) (use st'(2) in \<open>simp add: nova_data_def\<close>)
  also have "\<dots> = 5" by (rule get64_of_bytes) (simp add: update0_def)
  finally show ?thesis using st' by blast
qed

section \<open>A crash during recovery\<close>

text \<open>
  C33: Recovery writes the old values back and flushes them without a fence, then empties the journal.  When
  the store that empties it reaches the medium first, a crash leaves an empty journal and the new value: for
  a journal of one word whose value has been changed, there is a crash of recovery after which the journal is
  idle and the word still has the changed value.
\<close>

theorem nova_recovery_unfenced:
  assumes idle: "nova_idle b s cpu st0" and fs: "fields_ok b [f]"
    and ent: "entries_at crc (nmem st) b s [f] (nmem st0)"
    and ptr: "journal_head st (pair_at cpu) = of_nat (jpos b s)" "journal_tail st (pair_at cpu) = of_nat (jpos b (Suc s))"
    and ev: "nevs st = []"
  shows "\<exists>st' E R k. nova_recover_lite_journal (pair_at cpu) st = Some st' \<and> nevs st' = E @ R \<and> ncrash_choice k E \<and>
    get64 (ncrash k E (nmem st)) (pair_at cpu) = get64 (ncrash k E (nmem st)) (pair_at cpu + 8) \<and>
    get64 (ncrash k E (nmem st)) (word_addr f) = get64 (nmem st) (word_addr f)"
proof -
  let ?p = "pair_at cpu" and ?w = "word_addr f" and ?h = "of_nat (jpos b s) :: u64"
  let ?v = "le64 (get64 (nmem st0) ?w)" and ?fl = "map Fl (nova_flush_lines ?w 64)"
  from idle have b: "page_ok b" "cpu < 64" by (auto simp: nova_idle_def)
  note p = pair_page [OF b(2)]
  have f: "?w \<noteq> 0" "off_page b f" "?w + 8 \<le> 4096 * 48 \<or> 4096 * 49 \<le> ?w" using fs by (simp_all add: fields_ok_def)
  have ok: "entry_ok crc (nmem st) (jpos b s) (f AND NOT 7) (get64 (nmem st0) ?w)" using ent by (simp add: entries_at_def)
  let ?E1 = "St (?w, ?v) # ?fl" and ?m1 = "nput ?w ?v (nmem st)"
  have off: "get64 ?m1 x = get64 (nmem st) x" if "x = ?p \<or> x = ?p + 8" for x
    by (rule get64_cong) (use that p f(3) in \<open>auto simp: nput_def\<close>)
  have "(?h :: u64) \<noteq> of_nat (jpos b (Suc s))" using pos_not_tail [OF b(1), of 1 s] by simp
  then have "recover_entries ?p ?h st = recover_entries ?p (of_nat (jpos b (Suc s))) (nexec ?E1 st)"
    using undo_entry_exec [OF ok f(1)] ptr(2)
    by (simp add: recover_entries.simps [of ?p ?h] unat_jpos [OF b(1)] next_jpos [OF b(1)])
  also have "\<dots> = Some (nexec ?E1 st)" using off ptr(2) by (simp add: recover_entries.simps)
  finally have "nova_recover_lite_journal ?p st = Some (nexec (?E1 @ St (?p + 8, le64 ?h) # map Fl (nova_flush_lines ?p 64) @ [Fe]) st)"
    using off ptr(1) by (simp add: nova_recover_lite_journal_def nova_primitive_exec)
  let ?E = "?E1 @ [St (?p + 8, le64 ?h)]" and ?k = "\<lambda>l. if l = 3072 + cpu then 1 else 0 :: nat"
  have wl: "nline (?w, ?v) \<noteq> 3072 + cpu"
  proof
    assume "nline (?w, ?v) = 3072 + cpu"
    then have "3072 \<le> ?w div 64" "?w div 64 < 3136" using b(2) by (simp_all add: nline_def)
    then have "4096 * 48 \<le> ?w" "?w < 4096 * 49" by auto
    with f(3) show False by auto
  qed
  have no_fence: "snd (snd (fold (line_step nline l) (map Fl ls) d)) = snd (snd d)" for l ls and d :: "nat \<times> nat \<times> nat"
    by (induction ls arbitrary: d) (auto split: prod.splits)
  have "nguar l ?E = 0" for l
  proof -
    have "snd (snd (line_dur nline l ?E1)) = 0" by (simp add: line_dur_def no_fence)
    then show ?thesis
      by (cases "line_dur nline l ?E1") (simp add: line_guar_def line_dur_append [of nline l ?E1 "[St (?p + 8, le64 ?h)]", simplified])
  qed
  then have choice: "ncrash_choice ?k ?E" by (simp add: ncrash_choice_def)
  have pl: "nline (?p + 8, le64 ?h) = 3072 + cpu" by (rule ptr_nline) simp
  have img: "ncrash ?k ?E (nmem st) = nput (?p + 8) (le64 ?h) (nmem st)"
    unfolding ncrash_def using wl pl by (simp add: line_persist.simps)
  have "get64 (nput (?p + 8) (le64 ?h) (nmem st)) ?p = ?h"
    using ptr(1) get64_cong [of ?p "nput (?p + 8) (le64 ?h) (nmem st)" "nmem st"] by (simp add: nput_def)
  moreover have "get64 (nput (?p + 8) (le64 ?h) (nmem st)) (?p + 8) = ?h" by (rule get64_of_bytes) simp
  moreover have "get64 (nput (?p + 8) (le64 ?h) (nmem st)) ?w = get64 (nmem st) ?w"
    by (rule get64_cong) (use p f(3) in \<open>auto simp: nput_def\<close>)
  ultimately show ?thesis
    using \<open>nova_recover_lite_journal ?p st = _\<close> choice img ev
    by (intro exI [of _ "nexec (?E1 @ St (?p + 8, le64 ?h) # map Fl (nova_flush_lines ?p 64) @ [Fe]) st"]
        exI [of _ ?E] exI [of _ "map Fl (nova_flush_lines ?p 64) @ [Fe]"] exI [of _ ?k]) simp
qed

text \<open>The state of \<open>nova0\<close> with one entry in the journal and the logged word changed to 9.\<close>

definition nova1 :: nova_st where
  "nova1 = nova0\<lparr>nmem := nput 1048584 (le64 9) (nput (pair_at 0 + 8) (le64 409600)
     (napply (jstores (\<lambda>bs. 7) (nmem nova0) 409600 127 [1048584]) (nmem nova0)))\<rparr>"

lemma nova1_entries: "entries_at (\<lambda>bs. 7) (nmem nova1) 409600 127 [1048584] (nmem nova0)"
  by (rule entries_at_cong [OF _ jstores_entries]) (simp_all add: nova1_def nput_def pair_at_def)

lemma nova1_pointers:
  "get64 (nmem nova1) (pair_at 0) = of_nat (jpos 409600 127)" "get64 (nmem nova1) (pair_at 0 + 8) = of_nat (jpos 409600 (Suc 127))"
proof -
  have j: "napply (jstores (\<lambda>bs. 7) (nmem nova0) 409600 127 [1048584]) (nmem nova0) x = nmem nova0 x"
    if "x < 409600" for x
  proof (rule napply_untouched, rule ballI)
    fix y
    assume "y \<in> set (jstores (\<lambda>bs. 7) (nmem nova0) 409600 127 [1048584])"
    from jstores_on_page [OF this] that show "x < fst y \<or> fst y + length (snd y) \<le> x" by simp
  qed
  have "get64 (nmem nova1) (pair_at 0) = get64 (nmem nova0) (pair_at 0)"
    by (rule get64_cong) (simp add: nova1_def nput_def j pair_at_def del: jstores.simps)
  also have "\<dots> = of_nat (jpos 409600 127)" using nova0_idle by (simp add: nova_idle_def)
  finally show "get64 (nmem nova1) (pair_at 0) = of_nat (jpos 409600 127)" .
  have "get64 (nmem nova1) (pair_at 0 + 8) = 409600"
    by (rule get64_of_bytes) (simp add: nova1_def pair_at_def del: jstores.simps)
  then show "get64 (nmem nova1) (pair_at 0 + 8) = of_nat (jpos 409600 (Suc 127))" by (simp add: jpos_def)
qed

theorem nova_recovery_unfenced_witness:
  "\<exists>st' E R k. nova_recover_lite_journal (pair_at 0) nova1 = Some st' \<and> nevs st' = E @ R \<and> ncrash_choice k E \<and>
    get64 (ncrash k E (nmem nova1)) (pair_at 0) = get64 (ncrash k E (nmem nova1)) (pair_at 0 + 8) \<and>
    get64 (ncrash k E (nmem nova1)) 1048584 = 9 \<and> get64 (nmem nova0) 1048584 \<noteq> 9"
proof -
  have w: "word_addr 1048584 = 1048584" by (simp add: word_addr_def)
  have f: "fields_ok 409600 [1048584]" by (simp add: fields_ok_def off_page_def w)
  have v: "get64 (nmem nova1) 1048584 = 9" by (rule get64_of_bytes) (simp add: nova1_def)
  have "get64 (nmem nova0) 1048584 = get64 (\<lambda>x. 0) 1048584"
    by (rule get64_cong) (simp add: nova0_def pair_at_def nput_def)
  also have "\<dots> = 0" by (simp add: get64_def nget_def upt_rec)
  finally have "get64 (nmem nova0) 1048584 = 0" .
  moreover have "nevs nova1 = []" by (simp add: nova1_def nova0_def)
  ultimately show ?thesis
    using nova_recovery_unfenced [OF nova0_idle f nova1_entries nova1_pointers] unfolding w v by simp
qed

end
