(* ===== verification/Pmfs_Btree.thy ===== *)
theory Pmfs_Btree
  imports Pmfs_Balloc Nvm
begin

unbundle bit_operations_syntax

text \<open>
  The block tree of a PMFS inode (thirdPart/pmfs-chipmunk-disable-chipmunk-bugs/inode.c, pmfs.h): lookup,
  search for data and holes, allocation, truncation and the change of the tree's height.

  A meta block is a page of 512 little-endian pointers in the device memory \<open>nvmm\<close> of the allocator state,
  so a read past the end of the page reads the bytes that follow it, as in C.  Pointers and file offsets are
  64-bit words.  Inside a tree (at most 3 levels, enforced when a tree grows) block numbers and indices are
  below \<open>2 ^ 27\<close> and are natural numbers; the search for data and holes does not limit its range to the tree,
  and its indices are those of the code for files below \<open>2 ^ 44\<close> bytes (they fit \<^verbatim>\<open>unsigned int\<close>).  A
  recursive function takes the height of the tree; the code never calls one with height 0.

  The outcomes of \<^verbatim>\<open>kmem_cache_alloc\<close> are the stream \<open>st_kmem\<close>, one for each call of the allocator.  The
  calls of \<^verbatim>\<open>pmfs_add_logentry\<close> and \<^verbatim>\<open>pmfs_flush_buffer\<close> are recorded in \<open>st_acts\<close>, in their order; their
  effect is modelled in the journal's theories.  Write protection and timing have no effect on this state.
\<close>

section \<open>Inode and state\<close>

record pmfs_inode =
  i_rsvd :: u16
  height :: u8
  i_blk_type :: u8
  i_flags :: u32
  root :: u64
  i_size :: u64
  i_ctime :: u32
  i_mtime :: u32
  i_dtime :: u32
  i_mode :: u16
  i_links_count :: u16
  i_blocks :: u64
  i_xattr :: u64
  i_uid :: u32
  i_gid :: u32
  i_generation :: u32
  i_atime :: u32
  rdev :: u32

text \<open>The fields of the kernel's \<^verbatim>\<open>struct inode\<close> that the tree code uses.\<close>

record vfs_inode =
  v_size :: u64
  v_blocks :: u64
  v_mtime :: u32
  v_ctime :: u32

datatype tree_act =
    Add_logentry nat nat
  | Flush_buffer nat nat
  | Flush_inode
  | Log_inode

record tree_st =
  st_sbi :: pmfs_sb_info
  st_pi :: pmfs_inode
  st_vi :: vfs_inode
  st_kmem :: "nat \<Rightarrow> bool"
  st_acts :: "tree_act list"

datatype tree_fault = Balloc balloc_fault | Tree_bug_on | Null_root | Bad_height

definition META_BLK_SHIFT :: nat where "META_BLK_SHIFT = 9"

definition PMFS_EOFBLOCKS_FL :: u32 where "PMFS_EOFBLOCKS_FL = 0x20000000"

definition ENXIO :: int where "ENXIO = 6"

definition blk_type_to_shift :: "u8 \<Rightarrow> nat" where
  "blk_type_to_shift t = (if t = 0 then 12 else if t = 1 then 21 else 30)"

definition blk_type_to_size :: "u8 \<Rightarrow> u64" where
  "blk_type_to_size t = (if t = 0 then 0x1000 else if t = 1 then 0x200000 else 0x40000000)"

definition pmfs_inode_blk_shift :: "pmfs_inode \<Rightarrow> nat" where
  "pmfs_inode_blk_shift p = blk_type_to_shift (i_blk_type p)"

definition pmfs_inode_blk_size :: "pmfs_inode \<Rightarrow> u64" where
  "pmfs_inode_blk_size p = blk_type_to_size (i_blk_type p)"

text \<open>Number of data blocks below a node whose children have height \<open>h\<close>: \<^verbatim>\<open>1 << node_bits\<close>.\<close>

definition span :: "nat \<Rightarrow> nat" where
  "span h = 2 ^ (h * META_BLK_SHIFT)"

abbreviation st_mem :: "tree_st \<Rightarrow> mem" where "st_mem st \<equiv> nvmm (st_sbi st)"

definition node_at :: "u64 \<Rightarrow> nat \<Rightarrow> nat" where
  "node_at b i = unat b + 8 * i"

definition node_ptr :: "mem \<Rightarrow> u64 \<Rightarrow> nat \<Rightarrow> u64" where
  "node_ptr m b i = get64 m (node_at b i)"

definition upd_mem :: "(mem \<Rightarrow> mem) \<Rightarrow> tree_st \<Rightarrow> tree_st" where
  "upd_mem f st = st\<lparr>st_sbi := (st_sbi st)\<lparr>nvmm := f (st_mem st)\<rparr>\<rparr>"

definition set_node :: "u64 \<Rightarrow> nat \<Rightarrow> u64 \<Rightarrow> tree_st \<Rightarrow> tree_st" where
  "set_node b i v st = upd_mem (nput (node_at b i) (le64 v)) st"

definition upd_pi :: "(pmfs_inode \<Rightarrow> pmfs_inode) \<Rightarrow> tree_st \<Rightarrow> tree_st" where
  "upd_pi f st = st\<lparr>st_pi := f (st_pi st)\<rparr>"

definition act :: "tree_act \<Rightarrow> tree_st \<Rightarrow> tree_st" where
  "act a st = st\<lparr>st_acts := st_acts st @ [a]\<rparr>"

text \<open>The allocator as this code calls it.\<close>

definition next_kmem :: "pmfs_sb_info \<Rightarrow> tree_st \<Rightarrow> tree_st" where
  "next_kmem sbi st = st\<lparr>st_sbi := sbi, st_kmem := (\<lambda>n. st_kmem st (Suc n))\<rparr>"

definition tree_new_block :: "u16 \<Rightarrow> bool \<Rightarrow> tree_st \<Rightarrow> (int + u64) \<times> tree_st" where
  "tree_new_block btype zero st =
     (case pmfs_new_block (st_kmem st 0) btype zero (st_sbi st) of (r, sbi) \<Rightarrow> (r, next_kmem sbi st))"

definition tree_free_locked ::
    "u64 \<Rightarrow> u16 \<Rightarrow> nat option \<Rightarrow> tree_st \<Rightarrow> tree_fault + (nat option \<times> tree_st)" where
  "tree_free_locked blocknr btype hint st =
     (case pmfs_free_block_locked (st_kmem st 0) blocknr btype hint (st_sbi st) of
        Inl f \<Rightarrow> Inl (Balloc f)
      | Inr (ok, sbi, hint') \<Rightarrow> Inr (hint', next_kmem sbi st))"

definition tree_free_block :: "u64 \<Rightarrow> u16 \<Rightarrow> tree_st \<Rightarrow> tree_fault + tree_st" where
  "tree_free_block blocknr btype st =
     (case pmfs_free_block (st_kmem st 0) blocknr btype (st_sbi st) of
        Inl f \<Rightarrow> Inl (Balloc f)
      | Inr (ok, sbi) \<Rightarrow> Inr (next_kmem sbi st))"

definition pmfs_new_data_block :: "bool \<Rightarrow> tree_st \<Rightarrow> (int + u64) \<times> tree_st" where
  "pmfs_new_data_block zero st =
     (let data_bits = blk_type_to_shift (i_blk_type (st_pi st));
          (r, st1) = tree_new_block (ucast (i_blk_type (st_pi st))) zero st
      in case r of
           Inl e \<Rightarrow> (Inl e, st1)
         | Inr b \<Rightarrow> (Inr b, upd_pi (\<lambda>p. p\<lparr>i_blocks := i_blocks p + 2 ^ (data_bits - 12)\<rparr>) st1))"

section \<open>Lookup\<close>

primrec find_loop :: "mem \<Rightarrow> nat \<Rightarrow> u64 \<Rightarrow> nat \<Rightarrow> u64" where
  "find_loop m 0 bp blocknr = bp"
| "find_loop m (Suc h) bp blocknr =
     (let bp' = node_ptr m bp (blocknr div span h)
      in if bp' = 0 then 0 else find_loop m h bp' (blocknr mod span h))"

definition pmfs_find_data_block1 :: "mem \<Rightarrow> pmfs_inode \<Rightarrow> nat \<Rightarrow> u64" where
  "pmfs_find_data_block1 m p blocknr = find_loop m (unat (height p)) (root p) blocknr"

definition pmfs_find_data_block :: "tree_st \<Rightarrow> u64 \<Rightarrow> u64" where
  "pmfs_find_data_block st file_blocknr =
     (let p = st_pi st;
          blk_shift = blk_type_to_shift (i_blk_type p) - 12;
          blk_offset = file_blocknr AND mask blk_shift;
          blocknr = drop_bit blk_shift file_blocknr
      in if span (unat (height p)) \<le> unat blocknr then 0
         else
           let bp = pmfs_find_data_block1 (st_mem st) p (unat blocknr)
           in if bp = 0 then 0 else bp + push_bit 12 blk_offset)"

section \<open>Search for data and holes\<close>

text \<open>The part of the range \<open>[fst, lst]\<close> that falls into child \<open>i\<close> of a node.\<close>

definition child_first :: "nat \<Rightarrow> nat \<Rightarrow> nat \<Rightarrow> nat" where
  "child_first h first_blocknr i =
     (if i = first_blocknr div span h then first_blocknr mod span h else 0)"

definition child_last :: "nat \<Rightarrow> nat \<Rightarrow> nat \<Rightarrow> nat" where
  "child_last h last_blocknr i =
     (if i = last_blocknr div span h then last_blocknr mod span h else span h - 1)"

definition child_count :: "nat \<Rightarrow> nat \<Rightarrow> nat \<Rightarrow> nat" where
  "child_count h first_blocknr last_blocknr =
     Suc (last_blocknr div span h) - first_blocknr div span h"

type_synonym region = "nat \<times> bool \<times> bool"

text \<open>The loop of \<^verbatim>\<open>recursive_find_region\<close> from index \<open>i\<close> on, with \<open>n\<close> indices to go.\<close>

fun region_loop ::
    "mem \<Rightarrow> bool \<Rightarrow> nat \<Rightarrow> (u64 \<Rightarrow> nat \<Rightarrow> nat \<Rightarrow> bool \<Rightarrow> bool \<Rightarrow> region) \<Rightarrow> u64 \<Rightarrow> nat \<Rightarrow> nat \<Rightarrow>
     nat \<Rightarrow> nat \<Rightarrow> nat \<Rightarrow> bool \<Rightarrow> bool \<Rightarrow> region" where
  "region_loop m hole h rec b first_blocknr last_blocknr 0 i blocks data_found hole_found =
     (blocks, data_found, hole_found)"
| "region_loop m hole h rec b first_blocknr last_blocknr (Suc n) i blocks data_found hole_found =
     (let p = node_ptr m b i
      in if h = 0 \<or> p = 0 then
           if p \<noteq> 0 \<and> \<not> hole then (blocks, True, hole_found)
           else
             let data_found' = (data_found \<or> p \<noteq> 0);
                 hole_found' = (hole_found \<or> p = 0);
                 blocks' = (if \<not> hole_found' \<or> \<not> hole then blocks + span h else blocks)
             in region_loop m hole h rec b first_blocknr last_blocknr n (Suc i) blocks' data_found' hole_found'
         else
           case rec p (child_first h first_blocknr i) (child_last h last_blocknr i) data_found hole_found of
             (bl, data_found', hole_found') \<Rightarrow>
               if \<not> hole \<and> data_found' then (blocks + bl, data_found', hole_found')
               else region_loop m hole h rec b first_blocknr last_blocknr n (Suc i) (blocks + bl)
                      data_found' hole_found')"

primrec recursive_find_region ::
    "mem \<Rightarrow> bool \<Rightarrow> nat \<Rightarrow> u64 \<Rightarrow> nat \<Rightarrow> nat \<Rightarrow> bool \<Rightarrow> bool \<Rightarrow> region" where
  "recursive_find_region m hole 0 = (\<lambda>b first_blocknr last_blocknr data_found hole_found.
     (0, data_found, hole_found))"
| "recursive_find_region m hole (Suc h) = (\<lambda>b first_blocknr last_blocknr data_found hole_found.
     region_loop m hole h (recursive_find_region m hole h) b first_blocknr last_blocknr
       (child_count h first_blocknr last_blocknr) (first_blocknr div span h) 0 data_found hole_found)"

text \<open>The return value and the new offset; an error is returned as its negated code.\<close>

definition pmfs_find_region :: "tree_st \<Rightarrow> u64 \<Rightarrow> bool \<Rightarrow> u64 \<times> u64" where
  "pmfs_find_region st offset hole =
     (let p = st_pi st; v = st_vi st; data_bits = blk_type_to_shift (i_blk_type p) in
      if sint (v_size v) \<le> sint offset then (of_int (- ENXIO), offset)
      else if v_blocks v = 0 \<or> root p = 0 then
        if hole then (v_size v, offset) else (of_int (- ENXIO), offset)
      else
        let offset_in_block = offset AND mask data_bits;
            (blocks, data_found, hole_found) =
              (if height p = 0 then (0, True, False)
               else recursive_find_region (st_mem st) hole (unat (height p)) (root p)
                      (unat (signed_drop_bit data_bits offset)) (unat (signed_drop_bit data_bits (v_size v))) False False)
        in if \<not> hole \<and> \<not> data_found \<and> hole_found then (of_int (- ENXIO), offset)
           else if data_found \<and> \<not> hole_found then (0, if hole then v_size v else offset)
           else if hole \<and> hole_found \<and> blocks = 0 then (0, if \<not> data_found then v_size v else offset)
           else if offset_in_block \<noteq> 0 then
             (0, offset + push_bit data_bits (of_nat blocks - 1) + (2 ^ data_bits - offset_in_block))
           else (0, offset + push_bit data_bits (of_nat blocks)))"

section \<open>Truncation\<close>

text \<open>\<^verbatim>\<open>end_idx\<close> is at most 511.\<close>

definition is_empty_meta_block :: "mem \<Rightarrow> u64 \<Rightarrow> nat \<Rightarrow> nat \<Rightarrow> bool" where
  "is_empty_meta_block m b start_idx end_idx =
     (list_all (\<lambda>i. node_ptr m b i = 0) [0..<start_idx] \<and>
      list_all (\<lambda>i. node_ptr m b i = 0) [Suc end_idx..<2 ^ META_BLK_SHIFT])"

text \<open>The loop of \<^verbatim>\<open>recursive_truncate_blocks\<close> over data blocks.\<close>

fun trunc_leaf ::
    "u16 \<Rightarrow> u64 \<Rightarrow> nat \<Rightarrow> nat \<Rightarrow> nat option \<Rightarrow> nat \<Rightarrow> tree_st \<Rightarrow> tree_fault + (nat \<times> tree_st)" where
  "trunc_leaf btype b 0 i hint freed st = Inr (freed, st)"
| "trunc_leaf btype b (Suc n) i hint freed st =
     (let p = node_ptr (st_mem st) b i
      in if p = 0 then trunc_leaf btype b n (Suc i) hint freed st
         else rbind (tree_free_locked (pmfs_get_blocknr p) btype hint st)
                (\<lambda>(hint', st'). trunc_leaf btype b n (Suc i) hint' (Suc freed) st'))"

text \<open>
  The loop over meta blocks.  Its result is the number of freed blocks, the range to be cleared and whether
  every block of the range was freed.
\<close>

record trunc_acc =
  ta_start :: nat
  ta_end :: nat
  ta_all :: bool
  ta_freed :: nat

fun trunc_inner ::
    "nat \<Rightarrow> (u64 \<Rightarrow> nat \<Rightarrow> nat \<Rightarrow> tree_st \<Rightarrow> tree_fault + (nat \<times> bool \<times> tree_st)) \<Rightarrow> u64 \<Rightarrow> nat \<Rightarrow> nat \<Rightarrow>
     nat \<Rightarrow> nat \<Rightarrow> trunc_acc \<Rightarrow> tree_st \<Rightarrow> tree_fault + (trunc_acc \<times> tree_st)" where
  "trunc_inner h rec b first_blocknr last_blocknr 0 i a st = Inr (a, st)"
| "trunc_inner h rec b first_blocknr last_blocknr (Suc n) i a st =
     (let p = node_ptr (st_mem st) b i
      in if p = 0 then trunc_inner h rec b first_blocknr last_blocknr n (Suc i) a st
         else rbind (rec p (child_first h first_blocknr i) (child_last h last_blocknr i) st)
           (\<lambda>(freed, mpty, st1).
              let a1 = a\<lparr>ta_freed := ta_freed a + freed\<rparr>
              in if mpty then
                   rbind (tree_free_block (pmfs_get_blocknr (node_ptr (st_mem st1) b i)) PMFS_BLOCK_TYPE_4K st1)
                     (\<lambda>st2. trunc_inner h rec b first_blocknr last_blocknr n (Suc i) a1 st2)
                 else
                   let a2 = (if i = first_blocknr div span h then a1\<lparr>ta_start := Suc (ta_start a1)\<rparr>
                             else if i = last_blocknr div span h then a1\<lparr>ta_end := ta_end a1 - 1\<rparr>
                             else a1)
                   in trunc_inner h rec b first_blocknr last_blocknr n (Suc i) (a2\<lparr>ta_all := False\<rparr>) st1))"

text \<open>The end of the function: is the node empty, or is its freed range to be cleared?\<close>

definition trunc_finish ::
    "u64 \<Rightarrow> nat \<Rightarrow> nat \<Rightarrow> trunc_acc \<Rightarrow> tree_st \<Rightarrow> nat \<times> bool \<times> tree_st" where
  "trunc_finish b first_index last_index a st =
     (if ta_all a \<and> is_empty_meta_block (st_mem st) b first_index last_index then (ta_freed a, True, st)
      else if ta_start a \<le> ta_end a then
        let bzero = (ta_end a - ta_start a + 1) * 8
        in (ta_freed a, False,
            act (Flush_buffer (node_at b (ta_start a)) bzero)
              (upd_mem (memset_nt_zero (node_at b (ta_start a)) bzero) st))
      else (ta_freed a, False, st))"

primrec recursive_truncate_blocks ::
    "u16 \<Rightarrow> nat \<Rightarrow> u64 \<Rightarrow> nat \<Rightarrow> nat \<Rightarrow> tree_st \<Rightarrow> tree_fault + (nat \<times> bool \<times> tree_st)" where
  "recursive_truncate_blocks btype 0 = (\<lambda>b first_blocknr last_blocknr st. Inl Bad_height)"
| "recursive_truncate_blocks btype (Suc h) = (\<lambda>b first_blocknr last_blocknr st.
     let first_index = first_blocknr div span h;
         last_index = last_blocknr div span h;
         n = child_count h first_blocknr last_blocknr;
         a = \<lparr>ta_start = first_index, ta_end = last_index, ta_all = True, ta_freed = 0\<rparr>
     in rbind (if h = 0 then
                 rbind (trunc_leaf btype b n first_index None 0 st)
                   (\<lambda>(freed, st1). Inr (a\<lparr>ta_freed := freed\<rparr>, st1))
               else trunc_inner h (recursive_truncate_blocks btype h) b first_blocknr last_blocknr n first_index a st)
          (\<lambda>(a1, st1). Inr (trunc_finish b first_index last_index a1 st1)))"

definition pmfs_free_inode_subtree ::
    "u64 \<Rightarrow> nat \<Rightarrow> u16 \<Rightarrow> nat \<Rightarrow> tree_st \<Rightarrow> tree_fault + (nat \<times> tree_st)" where
  "pmfs_free_inode_subtree r h btype last_blocknr st =
     (if r = 0 then Inr (0, st)
      else if h = 0 then
        rbind (tree_free_block (pmfs_get_blocknr r) btype st) (\<lambda>st1. Inr (1, st1))
      else
        rbind (recursive_truncate_blocks btype h r 0 last_blocknr st)
          (\<lambda>(freed, mpty, st1).
             if \<not> mpty then Inl Tree_bug_on
             else rbind (tree_free_block (pmfs_get_blocknr r) PMFS_BLOCK_TYPE_4K st1)
                    (\<lambda>st2. Inr (freed, st2))))"

text \<open>Number of levels a tree needs to reach block \<open>n\<close>: the loop that shifts by \<^verbatim>\<open>META_BLK_SHIFT\<close>.\<close>

function levels :: "nat \<Rightarrow> nat" where
  "levels n = (if n = 0 then 0 else Suc (levels (n div 2 ^ META_BLK_SHIFT)))"
  by pat_completeness auto
termination
  by (relation "measure id") (auto simp: META_BLK_SHIFT_def)

declare levels.simps [simp del]

primrec decrease_loop :: "nat \<Rightarrow> u64 \<Rightarrow> tree_st \<Rightarrow> tree_fault + (u64 \<times> tree_st)" where
  "decrease_loop 0 newroot st = Inr (newroot, st)"
| "decrease_loop (Suc n) newroot st =
     (if newroot = 0 then Inl Null_root
      else
        let newroot' = node_ptr (st_mem st) newroot 0
        in rbind (tree_free_block (pmfs_get_blocknr newroot) PMFS_BLOCK_TYPE_4K st)
             (\<lambda>st1. decrease_loop n newroot' st1))"

definition pmfs_decrease_btree_height :: "u64 \<Rightarrow> u64 \<Rightarrow> tree_st \<Rightarrow> tree_fault + tree_st" where
  "pmfs_decrease_btree_height newsize newroot st =
     (let p = st_pi st;
          update = (\<lambda>new_height r. upd_pi (\<lambda>p. p\<lparr>height := of_nat new_height, root := r\<rparr>))
      in if i_blocks p = 0 \<or> newsize = 0 then
           if newroot \<noteq> 0 then Inl Tree_bug_on else Inr (update 0 newroot st)
         else
           let last_blocknr =
                 drop_bit (pmfs_inode_blk_shift p) (newsize + pmfs_inode_blk_size p - 1) - 1;
               new_height = levels (unat last_blocknr)
           in if unat (height p) = new_height then Inr st
              else rbind (decrease_loop (unat (height p) - new_height) newroot st)
                     (\<lambda>(r, st1). Inr (update new_height r st1)))"

text \<open>Counting the data blocks below a node; the loop runs over the whole page.\<close>

primrec pmfs_inode_count_iblocks_recursive :: "mem \<Rightarrow> nat \<Rightarrow> u64 \<Rightarrow> nat" where
  "pmfs_inode_count_iblocks_recursive m 0 = (\<lambda>b. 1)"
| "pmfs_inode_count_iblocks_recursive m (Suc h) = (\<lambda>b.
     sum_list (map (\<lambda>i. if node_ptr m b i = 0 then 0
                         else pmfs_inode_count_iblocks_recursive m h (node_ptr m b i))
                   [0..<2 ^ META_BLK_SHIFT]))"

definition pmfs_inode_count_iblocks :: "mem \<Rightarrow> pmfs_inode \<Rightarrow> u64 \<Rightarrow> u64" where
  "pmfs_inode_count_iblocks m p r =
     (if r = 0 then 0
      else push_bit (pmfs_inode_blk_shift p - 12)
             (of_nat (pmfs_inode_count_iblocks_recursive m (unat (height p)) r)))"

definition pmfs_sparse_last_blocknr :: "nat \<Rightarrow> nat \<Rightarrow> nat" where
  "pmfs_sparse_last_blocknr h last_blocknr =
     (if span h \<le> last_blocknr then span h - 1 else last_blocknr)"

text \<open>The comparison is one of \<^verbatim>\<open>loff_t\<close> plus \<^verbatim>\<open>unsigned long\<close>, hence unsigned.\<close>

definition check_eof_blocks :: "u64 \<Rightarrow> pmfs_inode \<Rightarrow> pmfs_inode" where
  "check_eof_blocks sz p =
     (if i_flags p AND PMFS_EOFBLOCKS_FL \<noteq> 0 \<and> sz + 4096 > push_bit 12 (i_blocks p)
      then p\<lparr>i_flags := i_flags p AND NOT PMFS_EOFBLOCKS_FL\<rparr> else p)"

text \<open>
  \<^verbatim>\<open>__pmfs_truncate_blocks\<close>; \<open>now\<close> is the current time and \<open>mounting\<close> the mount option that is set while the
  file system is being mounted.  The number of freed pages is computed in 32 bits.
\<close>

definition truncate_times :: "tree_st \<Rightarrow> tree_st" where
  "truncate_times st = upd_pi (\<lambda>p. p\<lparr>i_mtime := v_mtime (st_vi st), i_ctime := v_ctime (st_vi st)\<rparr>) st"

definition truncate_range :: "pmfs_inode \<Rightarrow> u64 \<Rightarrow> u64 \<Rightarrow> (nat \<times> nat) option" where
  "truncate_range p start end' =
     (let data_bits = blk_type_to_shift (i_blk_type p);
          first_blocknr = unat (drop_bit data_bits (start + 2 ^ data_bits - 1))
      in if i_flags p AND PMFS_EOFBLOCKS_FL \<noteq> 0 then Some (first_blocknr, span (unat (height p)) - 1)
         else if end' = 0 then None
         else Some (first_blocknr,
                pmfs_sparse_last_blocknr (unat (height p)) (unat (signed_drop_bit data_bits (end' - 1)))))"

definition truncate_tree :: "nat \<Rightarrow> nat \<Rightarrow> tree_st \<Rightarrow> tree_fault + (nat \<times> u64 \<times> tree_st)" where
  "truncate_tree first_blocknr last_blocknr st =
     (let p = st_pi st; r = root p; btype = ucast (i_blk_type p)
      in if height p = 0 then
           rbind (tree_free_block (pmfs_get_blocknr r) btype st) (\<lambda>st1. Inr (1, 0, st1))
         else
           rbind (recursive_truncate_blocks btype (unat (height p)) r first_blocknr last_blocknr st)
             (\<lambda>(freed, mpty, st1).
                if mpty then
                  rbind (tree_free_block (pmfs_get_blocknr r) PMFS_BLOCK_TYPE_4K st1)
                    (\<lambda>st2. Inr (freed, 0, st2))
                else Inr (freed, r, st1)))"

definition pmfs_truncate_blocks :: "bool \<Rightarrow> u32 \<Rightarrow> u64 \<Rightarrow> u64 \<Rightarrow> tree_st \<Rightarrow> tree_fault + tree_st" where
  "pmfs_truncate_blocks mounting now start end' st0 =
     (let st = st0\<lparr>st_vi := (st_vi st0)\<lparr>v_mtime := now, v_ctime := now\<rparr>\<rparr>;
          p = st_pi st;
          data_bits = blk_type_to_shift (i_blk_type p);
          end_truncate_blocks = Inr (act Flush_inode (truncate_times st))
      in if root p = 0 then end_truncate_blocks
         else case truncate_range p start end' of
           None \<Rightarrow> end_truncate_blocks
         | Some (first_blocknr, last_blocknr) \<Rightarrow>
             if last_blocknr < first_blocknr then end_truncate_blocks
             else
               rbind (truncate_tree first_blocknr last_blocknr st) (\<lambda>(freed, r, st1).
                 let nblocks = (if mounting then pmfs_inode_count_iblocks (st_mem st1) p r
                                else v_blocks (st_vi st1) - ucast (of_nat freed * 2 ^ (data_bits - 12) :: u32));
                     st2 = st1\<lparr>st_vi := (st_vi st1)\<lparr>v_blocks := nblocks\<rparr>\<rparr>;
                     st3 = truncate_times (upd_pi (\<lambda>q. q\<lparr>i_blocks := nblocks\<rparr>) st2)
                 in rbind (pmfs_decrease_btree_height start r st3) (\<lambda>st4.
                      Inr (act Flush_inode (upd_pi (check_eof_blocks (v_size (st_vi st4))) st4)))))"

section \<open>Allocation\<close>

primrec increase_loop :: "nat \<Rightarrow> u64 \<Rightarrow> nat \<Rightarrow> tree_st \<Rightarrow> int \<times> u64 \<times> nat \<times> tree_st" where
  "increase_loop 0 prev_root h st = (0, prev_root, h, st)"
| "increase_loop (Suc n) prev_root h st =
     (case tree_new_block PMFS_BLOCK_TYPE_4K True st of
        (Inl e, st1) \<Rightarrow> (e, prev_root, h, st1)
      | (Inr blocknr, st1) \<Rightarrow>
          let b = pmfs_get_block_off blocknr
          in increase_loop n b (Suc h) (act (Flush_buffer (node_at b 0) 8) (set_node b 0 prev_root st1)))"

definition pmfs_increase_btree_height :: "nat \<Rightarrow> tree_st \<Rightarrow> int \<times> tree_st" where
  "pmfs_increase_btree_height new_height st =
     (case increase_loop (new_height - unat (height (st_pi st))) (root (st_pi st)) (unat (height (st_pi st))) st of
        (errval, prev_root, h, st1) \<Rightarrow>
          (errval, act Flush_inode (upd_pi (\<lambda>p. p\<lparr>root := prev_root, height := of_nat h\<rparr>) st1)))"

text \<open>
  The body of \<^verbatim>\<open>recursive_alloc_blocks\<close>.  \<open>txn\<close> says whether there is a transaction:
  \<^verbatim>\<open>pmfs_add_logentry\<close> without one does nothing.
\<close>

definition log_node :: "bool \<Rightarrow> bool \<Rightarrow> bool \<Rightarrow> u64 \<Rightarrow> nat \<Rightarrow> nat \<Rightarrow> tree_st \<Rightarrow> bool \<times> tree_st" where
  "log_node txn new_node journal_saved b i last_index st =
     (if \<not> new_node \<and> \<not> journal_saved
      then (True, if txn then act (Add_logentry (node_at b i) ((last_index + 1 - i) * 8)) st else st)
      else (journal_saved, st))"

definition alloc_eof :: "tree_st \<Rightarrow> tree_st" where
  "alloc_eof st = act Flush_inode (upd_pi (\<lambda>p. p\<lparr>i_flags := i_flags p OR PMFS_EOFBLOCKS_FL\<rparr>) st)"

fun alloc_leaf ::
    "bool \<Rightarrow> bool \<Rightarrow> u64 \<Rightarrow> nat \<Rightarrow> nat \<Rightarrow> nat \<Rightarrow> bool \<Rightarrow> bool \<Rightarrow> tree_st \<Rightarrow> int \<times> tree_st" where
  "alloc_leaf txn zero b last_index 0 i new_node journal_saved st = (0, st)"
| "alloc_leaf txn zero b last_index (Suc n) i new_node journal_saved st =
     (if node_ptr (st_mem st) b i \<noteq> 0 then
        alloc_leaf txn zero b last_index n (Suc i) new_node journal_saved st
      else case pmfs_new_data_block zero st of
        (Inl e, st1) \<Rightarrow> (e, alloc_eof st1)
      | (Inr blocknr, st1) \<Rightarrow>
          (case log_node txn new_node journal_saved b i last_index st1 of (saved, st2) \<Rightarrow>
             alloc_leaf txn zero b last_index n (Suc i) new_node saved
               (set_node b i (pmfs_get_block_off blocknr) st2)))"

text \<open>The loop over meta blocks; \<open>new_node\<close> is set when a meta block was allocated, and stays set.\<close>

fun alloc_inner ::
    "bool \<Rightarrow> nat \<Rightarrow> (u64 \<Rightarrow> nat \<Rightarrow> nat \<Rightarrow> bool \<Rightarrow> tree_st \<Rightarrow> int \<times> tree_st) \<Rightarrow> u64 \<Rightarrow> nat \<Rightarrow> nat \<Rightarrow>
     nat \<Rightarrow> nat \<Rightarrow> bool \<Rightarrow> bool \<Rightarrow> tree_st \<Rightarrow> int \<times> bool \<times> tree_st" where
  "alloc_inner txn h rec b first_blocknr last_blocknr 0 i new_node journal_saved st = (0, new_node, st)"
| "alloc_inner txn h rec b first_blocknr last_blocknr (Suc n) i new_node journal_saved st =
     (let (r, new_node', saved, st1) =
        (if node_ptr (st_mem st) b i \<noteq> 0 then (0, new_node, journal_saved, st)
         else case tree_new_block PMFS_BLOCK_TYPE_4K True st of
           (Inl e, st1) \<Rightarrow> (e, new_node, journal_saved, st1)
         | (Inr blocknr, st1) \<Rightarrow>
             (case log_node txn new_node journal_saved b i (last_blocknr div span h) st1 of (saved, st2) \<Rightarrow>
                (0, True, saved, set_node b i (pmfs_get_block_off blocknr) st2)))
      in if r \<noteq> 0 then (r, new_node', st1)
         else case rec (node_ptr (st_mem st1) b i) (child_first h first_blocknr i)
                     (child_last h last_blocknr i) new_node' st1 of
           (errval, st2) \<Rightarrow>
             if errval < 0 then (errval, new_node', st2)
             else alloc_inner txn h rec b first_blocknr last_blocknr n (Suc i) new_node' saved st2)"

primrec recursive_alloc_blocks ::
    "bool \<Rightarrow> bool \<Rightarrow> nat \<Rightarrow> u64 \<Rightarrow> nat \<Rightarrow> nat \<Rightarrow> bool \<Rightarrow> tree_st \<Rightarrow> int \<times> tree_st" where
  "recursive_alloc_blocks txn zero 0 = (\<lambda>b first_blocknr last_blocknr new_node st. (0, st))"
| "recursive_alloc_blocks txn zero (Suc h) = (\<lambda>b first_blocknr last_blocknr new_node st.
     let first_index = first_blocknr div span h;
         last_index = last_blocknr div span h;
         n = child_count h first_blocknr last_blocknr;
         (errval, new_node', st1) =
           (if h = 0 then
              (case alloc_leaf txn zero b last_index n first_index new_node False st of
                 (e, st1) \<Rightarrow> (e, new_node, st1))
            else alloc_inner txn h (recursive_alloc_blocks txn zero h) b first_blocknr last_blocknr
                   n first_index new_node False st)
     in if errval \<noteq> 0 then (errval, st1)
        else if new_node' \<or> \<not> txn then
          (0, act (Flush_buffer (node_at b first_index) ((last_index + 1 - first_index) * 8)) st1)
        else (0, st1))"

text \<open>\<^verbatim>\<open>__pmfs_alloc_blocks\<close>.\<close>

definition alloc_height :: "pmfs_inode \<Rightarrow> nat \<Rightarrow> nat" where
  "alloc_height p last_blocknr =
     (if span (unat (height p)) - 1 < last_blocknr
      then unat (height p) + levels (last_blocknr div span (unat (height p)))
      else unat (height p))"

definition pmfs_alloc_blocks1 :: "bool \<Rightarrow> u64 \<Rightarrow> u32 \<Rightarrow> bool \<Rightarrow> tree_st \<Rightarrow> int \<times> tree_st" where
  "pmfs_alloc_blocks1 txn file_blocknr num zero st =
     (let p = st_pi st;
          blk_shift = blk_type_to_shift (i_blk_type p) - 12;
          first_blocknr = unat (drop_bit blk_shift file_blocknr);
          last_blocknr = unat (drop_bit blk_shift (file_blocknr + ucast num - 1));
          h = alloc_height p last_blocknr
      in if unat (height p) < h \<and> 3 < h then (- ENOSPC, st)
         else if root p = 0 then
           if h = 0 then
             (case pmfs_new_data_block zero st of
                (Inl e, st1) \<Rightarrow> (e, st1)
              | (Inr blocknr, st1) \<Rightarrow>
                  (0, act Flush_inode
                        (upd_pi (\<lambda>p. p\<lparr>root := pmfs_get_block_off blocknr, height := of_nat h\<rparr>) st1)))
           else
             (case pmfs_increase_btree_height h st of (errval, st1) \<Rightarrow>
                if errval \<noteq> 0 then (errval, st1)
                else recursive_alloc_blocks txn zero (unat (height (st_pi st1))) (root (st_pi st1))
                       first_blocknr last_blocknr True st1)
         else if h = 0 then (0, st)
         else
           (case (if unat (height p) < h then pmfs_increase_btree_height h st else (0, st)) of (errval, st1) \<Rightarrow>
              if errval \<noteq> 0 then (errval, st1)
              else recursive_alloc_blocks txn zero h (root (st_pi st1)) first_blocknr last_blocknr False st1))"

definition pmfs_alloc_blocks :: "bool \<Rightarrow> u64 \<Rightarrow> u32 \<Rightarrow> bool \<Rightarrow> tree_st \<Rightarrow> int \<times> tree_st" where
  "pmfs_alloc_blocks txn file_blocknr num zero st =
     (case pmfs_alloc_blocks1 txn file_blocknr num zero st of
        (errval, st1) \<Rightarrow> (errval, st1\<lparr>st_vi := (st_vi st1)\<lparr>v_blocks := i_blocks (st_pi st1)\<rparr>\<rparr>))"

end
