(* ===== verification/Pmfs_Btree_Wf.thy ===== *)
theory Pmfs_Btree_Wf
  imports Pmfs_Btree Pmfs_Balloc_Free
begin

unbundle bit_operations_syntax

text \<open>
  Well-formed block trees: the pages a tree occupies (its footprint), the condition that no page is reached
  twice, and the frame rule: a tree depends on the memory of its footprint only.
\<close>

section \<open>Pages\<close>

definition pblk :: "u64 \<Rightarrow> nat" where "pblk b = unat b div 4096"

definition paligned :: "u64 \<Rightarrow> bool" where "paligned b \<longleftrightarrow> unat b mod 4096 = 0"

definition same_on :: "nat set \<Rightarrow> mem \<Rightarrow> mem \<Rightarrow> bool" where
  "same_on S m m' \<longleftrightarrow> (\<forall>x. x div 4096 \<in> S \<longrightarrow> m x = m' x)"

lemma same_on_refl [simp]: "same_on S m m" by (simp add: same_on_def)

lemma same_on_sym: "same_on S m m' \<Longrightarrow> same_on S m' m" by (simp add: same_on_def)

lemma same_on_trans: "same_on S m m' \<Longrightarrow> same_on S m' m'' \<Longrightarrow> same_on S m m''" by (simp add: same_on_def)

lemma same_on_mono: "same_on S m m' \<Longrightarrow> T \<subseteq> S \<Longrightarrow> same_on T m m'" by (auto simp: same_on_def)

lemma node_byte_page:
  assumes "paligned b" "i < 512" "node_at b i \<le> x" "x < node_at b i + 8"
  shows "x div 4096 = pblk b"
proof -
  obtain q where q: "unat b = q * 4096" using assms(1) by (auto simp: paligned_def)
  from assms(2-4) q obtain r where "x = q * 4096 + r" "r < 4096"
    by (auto simp: node_at_def dest!: le_Suc_ex intro!: that [of "x - q * 4096"])
  with q show ?thesis by (simp add: pblk_def)
qed

lemma node_ptr_cong:
  assumes "paligned b" "i < 512" "same_on S m m'" "pblk b \<in> S"
  shows "node_ptr m' b i = node_ptr m b i"
  unfolding node_ptr_def
  using node_byte_page [OF assms(1,2)] assms(3,4) by (intro get64_cong) (auto simp: same_on_def)

lemma node_ptr_put:
  "node_ptr (nput (node_at b i) (le64 v) m) b j = (if j = i then v else node_ptr m b j)"
proof (cases "j = i")
  case True
  then show ?thesis unfolding node_ptr_def using get64_of_bytes [of _ _ v] by simp
next
  case False
  then have "node_at b i + 8 \<le> node_at b j \<or> node_at b j + 8 \<le> node_at b i" by (auto simp: node_at_def)
  with False show ?thesis unfolding node_ptr_def by (auto intro!: get64_cong simp: nput_def)
qed

lemma put_same_on: "paligned b \<Longrightarrow> i < 512 \<Longrightarrow> same_on (- {pblk b}) m (nput (node_at b i) (le64 v) m)"
  using node_byte_page [of b i] by (auto simp: same_on_def nput_def)

lemma le_nat_zero: "(\<forall>x \<in> set bs. x = 0) \<Longrightarrow> le_nat bs = 0"
  by (induction bs) auto

lemma get64_zero: "(\<And>x. a \<le> x \<Longrightarrow> x < a + 8 \<Longrightarrow> m x = 0) \<Longrightarrow> get64 m a = 0"
  unfolding get64_def by (subst le_nat_zero) (auto simp: nget_def)

lemma node_ptr_zero:
  assumes "paligned b" "i < 512" "\<And>x. x div 4096 = pblk b \<Longrightarrow> m x = 0"
  shows "node_ptr m b i = 0"
  unfolding node_ptr_def using node_byte_page [OF assms(1,2)] assms(3) by (intro get64_zero) simp

lemma span_0 [simp]: "span 0 = 1" by (simp add: span_def)

lemma span_Suc: "span (Suc h) = 512 * span h" by (simp add: span_def META_BLK_SHIFT_def power_add)

lemma span_pos [simp]: "0 < span h" by (simp add: span_def)

lemma span_ge_1 [simp]: "Suc 0 \<le> span h" using span_pos [of h] by linarith

lemma child_index: "k < span (Suc h) \<Longrightarrow> k div span h < 512"
  unfolding span_Suc by (simp add: less_mult_imp_div_less)

lemma span_mono: "h \<le> h' \<Longrightarrow> span h \<le> span h'" by (simp add: span_def META_BLK_SHIFT_def)

section \<open>Trees\<close>

text \<open>\<open>L\<close> is the number of pages of a data block.\<close>

primrec foot :: "mem \<Rightarrow> nat \<Rightarrow> nat \<Rightarrow> u64 \<Rightarrow> nat set" where
  "foot m L 0 = (\<lambda>b. {pblk b..<pblk b + L})"
| "foot m L (Suc h) = (\<lambda>b. insert (pblk b)
     (\<Union>i<512. if node_ptr m b i = 0 then {} else foot m L h (node_ptr m b i)))"

primrec tree_ok :: "mem \<Rightarrow> nat \<Rightarrow> nat \<Rightarrow> u64 \<Rightarrow> bool" where
  "tree_ok m L 0 = (\<lambda>b. b \<noteq> 0 \<and> paligned b)"
| "tree_ok m L (Suc h) = (\<lambda>b. b \<noteq> 0 \<and> paligned b \<and>
     (\<forall>i<512. node_ptr m b i \<noteq> 0 \<longrightarrow>
        tree_ok m L h (node_ptr m b i) \<and> pblk b \<notin> foot m L h (node_ptr m b i)) \<and>
     (\<forall>i<512. \<forall>j<512. i \<noteq> j \<longrightarrow> node_ptr m b i \<noteq> 0 \<longrightarrow> node_ptr m b j \<noteq> 0 \<longrightarrow>
        foot m L h (node_ptr m b i) \<inter> foot m L h (node_ptr m b j) = {}))"

lemma foot_iff:
  "x \<in> foot m L (Suc h) b \<longleftrightarrow>
     x = pblk b \<or> (\<exists>i<512. node_ptr m b i \<noteq> 0 \<and> x \<in> foot m L h (node_ptr m b i))"
  by auto

declare foot.simps(2) [simp del]

lemma tree_ok_ptr: "tree_ok m L h b \<Longrightarrow> b \<noteq> 0 \<and> paligned b"
  by (cases h) auto

lemma tree_ok_kid:
  "tree_ok m L (Suc h) b \<Longrightarrow> i < 512 \<Longrightarrow> node_ptr m b i \<noteq> 0 \<Longrightarrow> tree_ok m L h (node_ptr m b i)"
  by simp

lemma foot_kid: "i < 512 \<Longrightarrow> node_ptr m b i \<noteq> 0 \<Longrightarrow> foot m L h (node_ptr m b i) \<subseteq> foot m L (Suc h) b"
  by (auto simp: foot_iff)

lemma foot_pblk: "0 < L \<Longrightarrow> pblk b \<in> foot m L h b"
  by (cases h) (auto simp: foot_iff)

text \<open>A lookup below a node goes to the child of the block number's leading digit.\<close>

lemma find_Suc:
  "find_loop m (Suc h) b k =
     (if node_ptr m b (k div span h) = 0 then 0
      else find_loop m h (node_ptr m b (k div span h)) (k mod span h))"
  by (simp add: Let_def)

declare find_loop.simps(2) [simp del]

lemma tree_frame:
  assumes "0 < L"
  shows "\<lbrakk>tree_ok m L h b; same_on (foot m L h b) m m'\<rbrakk> \<Longrightarrow>
     tree_ok m' L h b \<and> foot m' L h b = foot m L h b \<and> (\<forall>k < span h. find_loop m' h b k = find_loop m h b k)"
proof (induction h arbitrary: b)
  case 0
  then show ?case by simp
next
  case (Suc h)
  have p: "node_ptr m' b i = node_ptr m b i" if "i < 512" for i
    using Suc.prems(1) by (intro node_ptr_cong [OF _ that Suc.prems(2)]) (simp_all add: foot_iff)
  have kid: "tree_ok m' L h (node_ptr m b i) \<and> foot m' L h (node_ptr m b i) = foot m L h (node_ptr m b i) \<and>
      (\<forall>k < span h. find_loop m' h (node_ptr m b i) k = find_loop m h (node_ptr m b i) k)"
    if "i < 512" "node_ptr m b i \<noteq> 0" for i
    using Suc.IH [OF tree_ok_kid [OF Suc.prems(1) that]] same_on_mono [OF Suc.prems(2) foot_kid [OF that]] by simp
  have "foot m' L (Suc h) b = foot m L (Suc h) b"
    using p kid by (intro set_eqI) (auto simp: foot_iff)
  moreover have "tree_ok m' L (Suc h) b" using Suc.prems(1) p kid by simp
  moreover have "find_loop m' (Suc h) b k = find_loop m (Suc h) b k" if "k < span (Suc h)" for k
    using kid [OF child_index [OF that]] p [OF child_index [OF that]] by (simp add: find_Suc)
  ultimately show ?case by blast
qed

text \<open>An empty meta block is a tree without data.\<close>

lemma empty_node:
  assumes "b \<noteq> 0" "paligned b" "\<And>i. i < 512 \<Longrightarrow> node_ptr m b i = 0"
  shows "tree_ok m L (Suc h) b" "foot m L (Suc h) b = {pblk b}"
    "k < span (Suc h) \<Longrightarrow> find_loop m (Suc h) b k = 0"
  using assms child_index [of k h] by (auto simp: find_Suc foot_iff)

section \<open>Replacing one child\<close>

definition kid :: "mem \<Rightarrow> nat \<Rightarrow> nat \<Rightarrow> u64 \<Rightarrow> nat \<Rightarrow> nat set" where
  "kid m L h b i = (if node_ptr m b i = 0 then {} else foot m L h (node_ptr m b i))"

lemma foot_kids: "foot m L (Suc h) b = insert (pblk b) (\<Union>i<512. kid m L h b i)"
  by (simp add: foot.simps(2) kid_def)

lemma kids_disjoint:
  "tree_ok m L (Suc h) b \<Longrightarrow> i < 512 \<Longrightarrow> j < 512 \<Longrightarrow> i \<noteq> j \<Longrightarrow> kid m L h b i \<inter> kid m L h b j = {}"
  "tree_ok m L (Suc h) b \<Longrightarrow> i < 512 \<Longrightarrow> pblk b \<notin> kid m L h b i"
  by (simp_all add: kid_def)

lemma tree_okI:
  assumes "b \<noteq> 0" "paligned b"
    "\<And>i. i < 512 \<Longrightarrow> node_ptr m b i \<noteq> 0 \<Longrightarrow> tree_ok m L h (node_ptr m b i)"
    "\<And>i. i < 512 \<Longrightarrow> pblk b \<notin> kid m L h b i"
    "\<And>i j. i < 512 \<Longrightarrow> j < 512 \<Longrightarrow> i \<noteq> j \<Longrightarrow> kid m L h b i \<inter> kid m L h b j = {}"
  shows "tree_ok m L (Suc h) b"
  unfolding tree_ok.simps
proof (intro conjI allI impI)
  show "b \<noteq> 0" "paligned b" by fact+
next
  fix i :: nat
  assume i: "i < 512" "node_ptr m b i \<noteq> 0"
  then show "tree_ok m L h (node_ptr m b i)" by (rule assms(3))
  show "pblk b \<notin> foot m L h (node_ptr m b i)" using assms(4) [OF i(1)] i(2) by (simp add: kid_def)
next
  fix i j :: nat
  assume i: "i < 512" "j < 512" "i \<noteq> j" "node_ptr m b i \<noteq> 0" "node_ptr m b j \<noteq> 0"
  then show "foot m L h (node_ptr m b i) \<inter> foot m L h (node_ptr m b j) = {}"
    using assms(5) [OF i(1,2,3)] by (simp add: kid_def)
qed

text \<open>A child whose pages did not change.\<close>

lemma kid_frame:
  assumes "0 < L" "tree_ok m L (Suc h) b" "j < 512" "node_ptr m' b j = node_ptr m b j"
    "same_on (kid m L h b j) m m'"
  shows "kid m' L h b j = kid m L h b j"
    "node_ptr m' b j \<noteq> 0 \<Longrightarrow> tree_ok m' L h (node_ptr m' b j)"
    "k < span (Suc h) \<Longrightarrow> k div span h = j \<Longrightarrow> find_loop m' (Suc h) b k = find_loop m (Suc h) b k"
proof -
  have fr: "tree_ok m' L h (node_ptr m b j) \<and> foot m' L h (node_ptr m b j) = foot m L h (node_ptr m b j) \<and>
      (\<forall>k < span h. find_loop m' h (node_ptr m b j) k = find_loop m h (node_ptr m b j) k)"
    if "node_ptr m b j \<noteq> 0"
    using tree_frame [OF assms(1) tree_ok_kid [OF assms(2,3) that], where m' = m'] assms(5) that
    by (simp add: kid_def)
  then show "kid m' L h b j = kid m L h b j" "node_ptr m' b j \<noteq> 0 \<Longrightarrow> tree_ok m' L h (node_ptr m' b j)"
    using assms(4) by (simp_all add: kid_def)
  show "find_loop m' (Suc h) b k = find_loop m (Suc h) b k" if "k < span (Suc h)" "k div span h = j"
    using fr assms(4) that by (simp add: find_Suc)
qed

lemma update_kid:
  assumes L: "0 < L" and ok: "tree_ok m L (Suc h) b" and i: "i < 512"
    and ptr: "\<And>j. j < 512 \<Longrightarrow> j \<noteq> i \<Longrightarrow> node_ptr m' b j = node_ptr m b j"
    and new: "node_ptr m' b i \<noteq> 0 \<Longrightarrow> tree_ok m' L h (node_ptr m' b i)"
    and fr: "same_on (foot m L (Suc h) b - kid m L h b i - {pblk b}) m m'"
    and dj: "kid m' L h b i \<inter> (foot m L (Suc h) b - kid m L h b i) = {}"
  shows "tree_ok m' L (Suc h) b"
    and "foot m' L (Suc h) b = foot m L (Suc h) b - kid m L h b i \<union> kid m' L h b i"
    and "\<And>k. k < span (Suc h) \<Longrightarrow> k div span h \<noteq> i \<Longrightarrow> find_loop m' (Suc h) b k = find_loop m (Suc h) b k"
proof -
  have sub: "kid m L h b j \<subseteq> foot m L (Suc h) b - kid m L h b i - {pblk b}" if "j < 512" "j \<noteq> i" for j
    using that kids_disjoint(1) [OF ok that(1) i that(2)] kids_disjoint(2) [OF ok that(1)]
    by (auto simp: foot_kids)
  note kf = kid_frame [OF L ok _ ptr same_on_mono [OF fr sub]]
  have b: "pblk b \<in> foot m L (Suc h) b - kid m L h b i"
    using kids_disjoint(2) [OF ok i] by (simp add: foot_kids)
  have k': "pblk b \<notin> kid m' L h b i" using dj b by blast
  have dis: "kid m' L h b i \<inter> kid m L h b j = {}" if "j < 512" "j \<noteq> i" for j
    using dj sub [OF that] by blast
  show "tree_ok m' L (Suc h) b"
  proof (rule tree_okI)
    show "b \<noteq> 0" "paligned b" using ok by simp_all
    show "tree_ok m' L h (node_ptr m' b j)" if "j < 512" "node_ptr m' b j \<noteq> 0" for j
      using new kf(2) that by (cases "j = i") simp_all
    show "pblk b \<notin> kid m' L h b j" if "j < 512" for j
      using k' kf(1) kids_disjoint(2) [OF ok that] that by (cases "j = i") simp_all
    show "kid m' L h b j \<inter> kid m' L h b l = {}" if "j < 512" "l < 512" "j \<noteq> l" for j l
      using dis [of j] dis [of l] kf(1) [of j] kf(1) [of l] kids_disjoint(1) [OF ok that] that
      by (cases "j = i"; cases "l = i") (simp_all add: Int_commute)
  qed
  have "foot m L (Suc h) b - kid m L h b i = insert (pblk b) (\<Union>j \<in> {..<512} - {i}. kid m L h b j)"
    using kids_disjoint(2) [OF ok i] kids_disjoint(1) [OF ok] i by (auto simp: foot_kids)
  moreover have "foot m' L (Suc h) b = insert (pblk b) (\<Union>j \<in> {..<512} - {i}. kid m L h b j) \<union> kid m' L h b i"
    using kf(1) i by (auto simp: foot_kids)
  ultimately show "foot m' L (Suc h) b = foot m L (Suc h) b - kid m L h b i \<union> kid m' L h b i" by simp
  show "find_loop m' (Suc h) b k = find_loop m (Suc h) b k" if "k < span (Suc h)" "k div span h \<noteq> i" for k
    using that by (intro kf(3) [of "k div span h"]) (simp_all add: child_index)
qed

section \<open>The mapped blocks\<close>

definition mapped :: "mem \<Rightarrow> nat \<Rightarrow> u64 \<Rightarrow> nat set" where
  "mapped m h b = {k. k < span h \<and> find_loop m h b k \<noteq> 0}"

lemma finite_mapped [simp]: "finite (mapped m h b)" by (simp add: mapped_def)

lemma in_child:
  assumes "k < span h" "i < 512"
  shows "i * span h + k < span (Suc h)" "(i * span h + k) div span h = i" "(i * span h + k) mod span h = k"
proof -
  have "i * span h + k < Suc i * span h" using assms(1) by simp
  also have "\<dots> \<le> 512 * span h" using assms(2) by (intro mult_right_mono) simp_all
  finally show "i * span h + k < span (Suc h)" by (simp add: span_Suc)
  show "(i * span h + k) div span h = i" "(i * span h + k) mod span h = k" using assms(1) by simp_all
qed

definition kid_mapped :: "mem \<Rightarrow> nat \<Rightarrow> u64 \<Rightarrow> nat \<Rightarrow> nat set" where
  "kid_mapped m h b i = (if node_ptr m b i = 0 then {} else mapped m h (node_ptr m b i))"

lemma mapped_child_iff:
  "k < span h \<Longrightarrow> i < 512 \<Longrightarrow> i * span h + k \<in> mapped m (Suc h) b \<longleftrightarrow> k \<in> kid_mapped m h b i"
  using in_child [of k h i] by (auto simp: mapped_def kid_mapped_def find_Suc)

lemma mapped_change:
  assumes i: "i < 512"
    and same: "\<And>k. k < span (Suc h) \<Longrightarrow> k div span h \<noteq> i \<Longrightarrow> find_loop m' (Suc h) b k = find_loop m (Suc h) b k"
  shows "mapped m' (Suc h) b - mapped m (Suc h) b =
    (\<lambda>k. i * span h + k) ` (kid_mapped m' h b i - kid_mapped m h b i)"
proof (intro equalityI subsetI)
  fix k
  assume k: "k \<in> mapped m' (Suc h) b - mapped m (Suc h) b"
  then have "k < span (Suc h)" "k div span h = i" using same [of k] by (auto simp: mapped_def)
  then have e: "k = i * span h + k mod span h" using div_mult_mod_eq [of k "span h"] by simp
  have "k mod span h < span h" by simp
  from k mapped_child_iff [OF this i] e
  have "k mod span h \<in> kid_mapped m' h b i - kid_mapped m h b i" by (metis DiffD1 DiffD2 DiffI)
  with e show "k \<in> (\<lambda>k. i * span h + k) ` (kid_mapped m' h b i - kid_mapped m h b i)" by (rule image_eqI)
next
  fix x
  assume "x \<in> (\<lambda>k. i * span h + k) ` (kid_mapped m' h b i - kid_mapped m h b i)"
  then obtain k where k: "x = i * span h + k" "k \<in> kid_mapped m' h b i" "k \<notin> kid_mapped m h b i" by auto
  then have "k < span h" by (auto simp: kid_mapped_def mapped_def split: if_splits)
  with k mapped_child_iff [OF this i] show "x \<in> mapped m' (Suc h) b - mapped m (Suc h) b" by simp
qed

lemma card_mapped_change:
  assumes "i < 512"
    and "\<And>k. k < span (Suc h) \<Longrightarrow> k div span h \<noteq> i \<Longrightarrow> find_loop m' (Suc h) b k = find_loop m (Suc h) b k"
  shows "card (mapped m' (Suc h) b - mapped m (Suc h) b) = card (kid_mapped m' h b i - kid_mapped m h b i)"
  using mapped_change [of i h m' b m] assms by (simp add: card_image inj_on_def)

section \<open>The allocator from the tree's point of view\<close>

lemma block_off:
  assumes "unat b < 2 ^ 52"
  shows "pblk (pmfs_get_block_off b) = unat b" "paligned (pmfs_get_block_off b)"
    "pmfs_get_block_off b = 0 \<longleftrightarrow> b = 0"
proof -
  have u: "unat (pmfs_get_block_off b) = unat b * 4096"
    using assms by (simp add: pmfs_get_block_off_def push_bit_eq_mult unat_word_ariths)
  show "pblk (pmfs_get_block_off b) = unat b" "paligned (pmfs_get_block_off b)"
    unfolding pblk_def paligned_def u by simp_all
  show "pmfs_get_block_off b = 0 \<longleftrightarrow> b = 0" using u unat_eq_zero [of b] by (metis mult_eq_0_iff unat_eq_zero zero_neq_numeral)
qed

lemma unat_blocknr: "unat (pmfs_get_blocknr p) = pblk p"
  unfolding pmfs_get_blocknr_def pblk_def by (simp only: unat_drop_bit_eq) (simp add: drop_bit_eq_div)

lemma pblk_bound: "pblk p < 2 ^ 52"
  using unat_bound [of p] by (simp add: pblk_def less_mult_imp_div_less)

lemma pmfs_new_block_mem:
  assumes inv: "balloc_inv sbi" and r: "pmfs_new_block mem btype zero sbi = (Inr b, sbi')"
  defines "n \<equiv> unat (pmfs_get_numblocks btype)"
  shows "same_on (- {unat b..<unat b + n}) (nvmm sbi) (nvmm sbi')"
    "zero \<Longrightarrow> x div 4096 \<in> {unat b..<unat b + n} \<Longrightarrow> nvmm sbi' x = 0"
    "unat b < 2 ^ 52"
proof -
  note k = pmfs_new_block_ok [OF inv r, folded n_def]
  show lim: "unat b < 2 ^ 52"
    using k(5) inv numblocks_bounds [of btype] by (simp add: balloc_inv_def n_def)
  have off: "unat (pmfs_get_block_off b) = unat b * 4096"
    using lim by (simp add: pmfs_get_block_off_def push_bit_eq_mult unat_word_ariths)
  have sz: "zero_size btype = n * 4096" by (simp add: zero_size_def n_def pmfs_get_numblocks_def)
  have m: "nvmm sbi' = (if zero then memset_nt_zero (unat b * 4096) (n * 4096) (nvmm sbi) else nvmm sbi)"
    using r off sz by (auto simp: pmfs_new_block_def Let_def split: new_result.splits)
  have rng: "unat b * 4096 \<le> y \<and> y < unat b * 4096 + n * 4096 \<longleftrightarrow> y div 4096 \<in> {unat b..<unat b + n}" for y
    by (simp add: less_eq_div_iff_mult_less_eq div_less_iff_less_mult distrib_right)
  show "same_on (- {unat b..<unat b + n}) (nvmm sbi) (nvmm sbi')"
    unfolding m same_on_def memset_nt_zero_def using rng by auto
  show "nvmm sbi' x = 0" if "zero" "x div 4096 \<in> {unat b..<unat b + n}"
    unfolding m memset_nt_zero_def using rng [of x] that by simp
qed

section \<open>Data pages\<close>

lemma find_extent:
  "\<lbrakk>tree_ok m L h b; k < span h; find_loop m h b k \<noteq> 0\<rbrakk> \<Longrightarrow>
   paligned (find_loop m h b k) \<and> {pblk (find_loop m h b k)..<pblk (find_loop m h b k) + L} \<subseteq> foot m L h b"
proof (induction h arbitrary: b k)
  case 0
  then show ?case by simp
next
  case (Suc h)
  let ?i = "k div span h"
  have i: "?i < 512" by (rule child_index [OF Suc.prems(2)])
  have nz: "node_ptr m b ?i \<noteq> 0" using Suc.prems(3) by (auto simp: find_Suc split: if_splits)
  have m: "k mod span h < span h" by simp
  have f: "find_loop m (Suc h) b k = find_loop m h (node_ptr m b ?i) (k mod span h)" using nz by (simp add: find_Suc)
  show ?case
    using Suc.IH [OF tree_ok_kid [OF Suc.prems(1) i nz] m] Suc.prems(3) foot_kid [OF i nz, of L h] unfolding f by blast
qed

text \<open>The pages of the data blocks of a tree, without its meta blocks.\<close>

definition leaves :: "mem \<Rightarrow> nat \<Rightarrow> nat \<Rightarrow> u64 \<Rightarrow> nat set" where
  "leaves m L h b = (\<Union>k \<in> mapped m h b. {pblk (find_loop m h b k)..<pblk (find_loop m h b k) + L})"

lemma leaves_iff:
  "x \<in> leaves m L h b \<longleftrightarrow>
     (\<exists>k < span h. find_loop m h b k \<noteq> 0 \<and> x \<in> {pblk (find_loop m h b k)..<pblk (find_loop m h b k) + L})"
  by (auto simp: leaves_def mapped_def)

lemma leaves_kid:
  assumes ok: "tree_ok m L (Suc h) b" and x: "x \<in> leaves m L (Suc h) b"
  obtains j where "j < 512" "node_ptr m b j \<noteq> 0" "x \<in> leaves m L h (node_ptr m b j)" "x \<in> kid m L h b j"
proof -
  from x obtain k where k: "k < span (Suc h)" "find_loop m (Suc h) b k \<noteq> 0"
    "x \<in> {pblk (find_loop m (Suc h) b k)..<pblk (find_loop m (Suc h) b k) + L}" by (auto simp: leaves_iff)
  let ?j = "k div span h"
  have j: "?j < 512" by (rule child_index [OF k(1)])
  have nz: "node_ptr m b ?j \<noteq> 0" using k(2) by (auto simp: find_Suc split: if_splits)
  have f: "find_loop m (Suc h) b k = find_loop m h (node_ptr m b ?j) (k mod span h)" using nz by (simp add: find_Suc)
  have r: "k mod span h < span h" by simp
  have l: "x \<in> leaves m L h (node_ptr m b ?j)" using r k(2,3) unfolding leaves_iff f by blast
  have "x \<in> kid m L h b ?j" using find_extent [OF tree_ok_kid [OF ok j nz] r] k(2,3) nz unfolding f kid_def by auto
  with that [OF j nz l] show thesis .
qed

lemma leaves_node: "tree_ok m L (Suc h) b \<Longrightarrow> leaves m L (Suc h) b \<subseteq> foot m L (Suc h) b - {pblk b}"
proof
  fix x
  assume ok: "tree_ok m L (Suc h) b" and x: "x \<in> leaves m L (Suc h) b"
  from leaves_kid [OF this] obtain j where j: "j < 512" "x \<in> kid m L h b j" by metis
  then show "x \<in> foot m L (Suc h) b - {pblk b}" using kids_disjoint(2) [OF ok j(1)] by (auto simp: foot_kids)
qed

lemma leaves_foot: "tree_ok m L h b \<Longrightarrow> leaves m L h b \<subseteq> foot m L h b"
  using find_extent [of m L h b] by (force simp: leaves_iff)

lemma leaves_mono:
  "(\<And>k. k \<in> mapped m h b \<Longrightarrow> find_loop m' h b k = find_loop m h b k) \<Longrightarrow> leaves m L h b \<subseteq> leaves m' L h b"
  unfolding leaves_def mapped_def by force

text \<open>Data does not matter for the tree.\<close>

lemma tree_data_frame:
  assumes "0 < L"
  shows "\<lbrakk>tree_ok m L h b; same_on (foot m L h b - leaves m L h b) m m'\<rbrakk> \<Longrightarrow>
     tree_ok m' L h b \<and> foot m' L h b = foot m L h b \<and> (\<forall>k < span h. find_loop m' h b k = find_loop m h b k)"
proof (induction h arbitrary: b)
  case 0
  then show ?case by simp
next
  case (Suc h)
  have pb: "pblk b \<in> foot m L (Suc h) b - leaves m L (Suc h) b"
    using leaves_node [OF Suc.prems(1)] by (auto simp: foot_iff)
  have p: "node_ptr m' b i = node_ptr m b i" if "i < 512" for i
    using Suc.prems(1) pb by (intro node_ptr_cong [OF _ that Suc.prems(2)]) simp_all
  have sub: "foot m L h (node_ptr m b i) - leaves m L h (node_ptr m b i) \<subseteq> foot m L (Suc h) b - leaves m L (Suc h) b"
    if i: "i < 512" "node_ptr m b i \<noteq> 0" for i
  proof
    fix x
    assume x: "x \<in> foot m L h (node_ptr m b i) - leaves m L h (node_ptr m b i)"
    have "x \<notin> leaves m L (Suc h) b"
    proof
      assume "x \<in> leaves m L (Suc h) b"
      from leaves_kid [OF Suc.prems(1) this] obtain j where
        j: "j < 512" "x \<in> leaves m L h (node_ptr m b j)" "x \<in> kid m L h b j" by metis
      have "x \<in> kid m L h b i" using x i(2) by (simp add: kid_def)
      then have "i = j" using kids_disjoint(1) [OF Suc.prems(1) i(1) j(1)] j(3) by blast
      with x j(2) show False by simp
    qed
    with x foot_kid [OF i] show "x \<in> foot m L (Suc h) b - leaves m L (Suc h) b" by blast
  qed
  have kid: "tree_ok m' L h (node_ptr m b i) \<and> foot m' L h (node_ptr m b i) = foot m L h (node_ptr m b i) \<and>
      (\<forall>k < span h. find_loop m' h (node_ptr m b i) k = find_loop m h (node_ptr m b i) k)"
    if "i < 512" "node_ptr m b i \<noteq> 0" for i
    using Suc.IH [OF tree_ok_kid [OF Suc.prems(1) that] same_on_mono [OF Suc.prems(2) sub [OF that]]] .
  have "foot m' L (Suc h) b = foot m L (Suc h) b"
    using p kid by (intro set_eqI) (auto simp: foot_iff)
  moreover have "tree_ok m' L (Suc h) b" using Suc.prems(1) p kid by simp
  moreover have "find_loop m' (Suc h) b k = find_loop m (Suc h) b k" if "k < span (Suc h)" for k
    using kid [OF child_index [OF that]] p [OF child_index [OF that]] by (simp add: find_Suc)
  ultimately show ?case by blast
qed

end
