(* ===== verification/Pmfs_Btree_Alloc.thy ===== *)
theory Pmfs_Btree_Alloc
  imports Pmfs_Btree_Wf
begin

unbundle bit_operations_syntax

text \<open>
  Allocation of blocks in a tree.  \<open>grown\<close> relates the states before and after: the tree is well-formed, has
  gained exactly the newly allocated pages, maps what it mapped before to the same blocks, and its block
  count has grown by the newly mapped blocks.  The relation is transitive, so each loop is one step after
  the other.
\<close>

definition blk_pages :: "pmfs_inode \<Rightarrow> nat" where
  "blk_pages p = unat (pmfs_get_numblocks (ucast (i_blk_type p)))"

abbreviation st_used :: "tree_st \<Rightarrow> nat set" where "st_used st \<equiv> used (st_sbi st)"

abbreviation st_foot :: "tree_st \<Rightarrow> nat \<Rightarrow> u64 \<Rightarrow> nat set" where
  "st_foot st \<equiv> foot (st_mem st) (blk_pages (st_pi st))"

abbreviation st_tree_ok :: "tree_st \<Rightarrow> nat \<Rightarrow> u64 \<Rightarrow> bool" where
  "st_tree_ok st \<equiv> tree_ok (st_mem st) (blk_pages (st_pi st))"

lemma blk_pages_pos [simp]: "0 < blk_pages p"
  using numblocks_bounds by (simp add: blk_pages_def)

definition alloc_ok :: "tree_st \<Rightarrow> bool" where
  "alloc_ok st \<longleftrightarrow> balloc_inv (st_sbi st) \<and> 0 \<in> st_used st"

definition ready :: "nat \<Rightarrow> u64 \<Rightarrow> tree_st \<Rightarrow> bool" where
  "ready h b st \<longleftrightarrow> alloc_ok st \<and> st_tree_ok st h b \<and> st_foot st h b \<subseteq> st_used st"

definition same_inode :: "pmfs_inode \<Rightarrow> pmfs_inode \<Rightarrow> bool" where
  "same_inode p p' \<longleftrightarrow> i_blk_type p' = i_blk_type p \<and> root p' = root p \<and> height p' = height p \<and> i_size p' = i_size p"

lemma same_inode_refl [simp]: "same_inode p p" by (simp add: same_inode_def)

lemma same_inode_pages: "same_inode p p' \<Longrightarrow> blk_pages p' = blk_pages p"
  by (simp add: same_inode_def blk_pages_def)

definition grown :: "nat \<Rightarrow> u64 \<Rightarrow> nat set \<Rightarrow> tree_st \<Rightarrow> tree_st \<Rightarrow> bool" where
  "grown h b R st st' \<longleftrightarrow>
     alloc_ok st' \<and> same_inode (st_pi st) (st_pi st') \<and> st_used st \<subseteq> st_used st' \<and>
     st_tree_ok st' h b \<and> st_foot st' h b = st_foot st h b \<union> (st_used st' - st_used st) \<and>
     same_on (- st_foot st' h b) (st_mem st) (st_mem st') \<and>
     (\<forall>k \<in> mapped (st_mem st) h b. find_loop (st_mem st') h b k = find_loop (st_mem st) h b k) \<and>
     (\<forall>k < span h. k \<notin> R \<longrightarrow> find_loop (st_mem st') h b k = find_loop (st_mem st) h b k) \<and>
     i_blocks (st_pi st') = i_blocks (st_pi st) +
       of_nat (card (mapped (st_mem st') h b - mapped (st_mem st) h b)) * of_nat (blk_pages (st_pi st)) \<and>
     same_on (leaves (st_mem st) (blk_pages (st_pi st)) h b) (st_mem st) (st_mem st')"

lemma grownD:
  assumes "grown h b R st st'"
  shows "alloc_ok st'" "same_inode (st_pi st) (st_pi st')" "blk_pages (st_pi st') = blk_pages (st_pi st)"
    "st_used st \<subseteq> st_used st'" "tree_ok (st_mem st') (blk_pages (st_pi st)) h b"
    "foot (st_mem st') (blk_pages (st_pi st)) h b = st_foot st h b \<union> (st_used st' - st_used st)"
    "same_on (- foot (st_mem st') (blk_pages (st_pi st)) h b) (st_mem st) (st_mem st')"
    "k \<in> mapped (st_mem st) h b \<Longrightarrow> find_loop (st_mem st') h b k = find_loop (st_mem st) h b k"
    "k < span h \<Longrightarrow> k \<notin> R \<Longrightarrow> find_loop (st_mem st') h b k = find_loop (st_mem st) h b k"
    "i_blocks (st_pi st') = i_blocks (st_pi st) +
       of_nat (card (mapped (st_mem st') h b - mapped (st_mem st) h b)) * of_nat (blk_pages (st_pi st))"
    "same_on (leaves (st_mem st) (blk_pages (st_pi st)) h b) (st_mem st) (st_mem st')"
proof -
  show p: "blk_pages (st_pi st') = blk_pages (st_pi st)" using assms same_inode_pages by (auto simp: grown_def)
  show "same_on (- foot (st_mem st') (blk_pages (st_pi st)) h b) (st_mem st) (st_mem st')"
    using assms unfolding grown_def p by (elim conjE)
qed (use assms same_inode_pages [of "st_pi st" "st_pi st'"] in \<open>simp_all add: grown_def\<close>)

lemma grown_refl: "ready h b st \<Longrightarrow> grown h b R st st"
  by (simp add: grown_def ready_def)

lemma grown_mono: "grown h b R st st' \<Longrightarrow> R \<subseteq> S \<Longrightarrow> grown h b S st st'"
  unfolding grown_def by blast

lemma grown_mapped: "grown h b R st st' \<Longrightarrow> mapped (st_mem st) h b \<subseteq> mapped (st_mem st') h b"
  by (auto simp: grown_def mapped_def)

lemma grown_ready: "ready h b st \<Longrightarrow> grown h b R st st' \<Longrightarrow> ready h b st'"
  using grownD(1-6) [of h b R st st'] unfolding ready_def by auto

text \<open>Only the allocator and a few fields of the inode matter.\<close>

lemma grown_cong:
  assumes "grown h b R st st1" "st_sbi st2 = st_sbi st1" "same_inode (st_pi st1) (st_pi st2)"
    "i_blocks (st_pi st2) = i_blocks (st_pi st1)"
  shows "grown h b R st st2"
  using assms(1) same_inode_pages [OF assms(3)] assms(2-4) unfolding grown_def alloc_ok_def same_inode_def
  by (elim conjE) simp

lemma grown_trans:
  assumes 1: "grown h b R st st1" and 2: "grown h b R st1 st2"
  shows "grown h b R st st2"
proof -
  note d1 = grownD [OF 1] and d2 = grownD [OF 2]
  have m: "mapped (st_mem st) h b \<subseteq> mapped (st_mem st1) h b" "mapped (st_mem st1) h b \<subseteq> mapped (st_mem st2) h b"
    using grown_mapped 1 2 by auto
  have f: "st_foot st1 h b \<subseteq> st_foot st2 h b" using d2(3,6) by auto
  have "mapped (st_mem st2) h b - mapped (st_mem st) h b =
      (mapped (st_mem st2) h b - mapped (st_mem st1) h b) \<union> (mapped (st_mem st1) h b - mapped (st_mem st) h b)"
    using m by blast
  then have c: "card (mapped (st_mem st2) h b - mapped (st_mem st) h b) =
      card (mapped (st_mem st2) h b - mapped (st_mem st1) h b) + card (mapped (st_mem st1) h b - mapped (st_mem st) h b)"
    by (simp add: card_Un_disjoint Int_commute Diff_Int_distrib2)
  have s: "same_on (- st_foot st2 h b) (st_mem st) (st_mem st2)"
    using d2(7) f unfolding d2(3) d1(3) by (intro same_on_trans [OF same_on_mono [OF d1(7)]]) auto
  have fk: "find_loop (st_mem st2) h b k = find_loop (st_mem st) h b k" if "k \<in> mapped (st_mem st) h b" for k
    using d1(8) d2(8) m that by auto
  have u: "st_used st2 - st_used st = (st_used st1 - st_used st) \<union> (st_used st2 - st_used st1)"
    using d1(4) d2(4) by auto
  show ?thesis
    unfolding grown_def
  proof (intro conjI)
    show "alloc_ok st2" "st_tree_ok st2 h b" "st_used st \<subseteq> st_used st2" using d1(3,4) d2(1,3,4,5) by auto
    show "same_inode (st_pi st) (st_pi st2)" using d1(2) d2(2) by (simp add: same_inode_def)
    show "same_on (- st_foot st2 h b) (st_mem st) (st_mem st2)" by (rule s)
    show "same_on (leaves (st_mem st) (blk_pages (st_pi st)) h b) (st_mem st) (st_mem st2)"
      using same_on_trans [OF d1(11) same_on_mono [OF d2(11) [unfolded d1(3)] leaves_mono [OF d1(8)]]] .
    show "st_foot st2 h b = st_foot st h b \<union> (st_used st2 - st_used st)"
      unfolding u using d1(3,6) d2(3,6) by auto
    show "i_blocks (st_pi st2) = i_blocks (st_pi st) +
       of_nat (card (mapped (st_mem st2) h b - mapped (st_mem st) h b)) * of_nat (blk_pages (st_pi st))"
      unfolding c using d1(3,10) d2(10) by (simp add: distrib_right)
    show "\<forall>k \<in> mapped (st_mem st) h b. find_loop (st_mem st2) h b k = find_loop (st_mem st) h b k"
      using fk by blast
    show "\<forall>k < span h. k \<notin> R \<longrightarrow> find_loop (st_mem st2) h b k = find_loop (st_mem st) h b k"
      using d1(9) d2(9) by simp
  qed
qed

section \<open>One child grows\<close>

abbreviation below :: "nat \<Rightarrow> nat \<Rightarrow> nat set \<Rightarrow> nat set" where
  "below h i R \<equiv> (\<lambda>k. i * span h + k) ` R"

lemma find_at: "k < span (Suc h) \<Longrightarrow> node_ptr m b (k div span h) = c \<Longrightarrow> c \<noteq> 0 \<Longrightarrow>
    find_loop m (Suc h) b k = find_loop m h c (k mod span h)"
  by (simp add: find_Suc)

lemma below_in: "k div span h = i \<Longrightarrow> k mod span h \<in> R \<Longrightarrow> k \<in> below h i R"
  using div_mult_mod_eq [of k "span h"] by (metis image_eqI)

lemma grown_child:
  assumes r: "ready (Suc h) b st" and i: "i < 512" and c: "node_ptr (st_mem st) b i = c" "c \<noteq> 0"
    and g: "grown h c R st st'"
  shows "grown (Suc h) b (below h i R) st st'"
    and "j < 512 \<Longrightarrow> node_ptr (st_mem st') b j = node_ptr (st_mem st) b j"
proof -
  let ?m = "st_mem st" and ?m' = "st_mem st'" and ?L = "blk_pages (st_pi st)"
  note gd = grownD [OF g]
  have ok: "tree_ok ?m ?L (Suc h) b" and fu: "foot ?m ?L (Suc h) b \<subseteq> st_used st" using r by (simp_all add: ready_def)
  have kd: "kid ?m ?L h b i = foot ?m ?L h c" using c by (simp add: kid_def)
  have fc: "foot ?m' ?L h c = foot ?m ?L h c \<union> (st_used st' - st_used st)" using gd by simp
  have pb: "pblk b \<notin> foot ?m' ?L h c"
    using kids_disjoint(2) [OF ok i] fu fc kd by (auto simp: foot_kids)
  have out: "same_on (- foot ?m' ?L h c) ?m ?m'" by (rule gd)
  have ptr: "node_ptr ?m' b j = node_ptr ?m b j" if "j < 512" for j
    using ok pb by (intro node_ptr_cong [OF _ that out]) simp_all
  have kd': "kid ?m' ?L h b i = foot ?m' ?L h c" using c ptr [OF i] by (simp add: kid_def)
  have dj: "foot ?m' ?L h c \<inter> (foot ?m ?L (Suc h) b - foot ?m ?L h c) = {}" using fc fu by blast
  have tc: "tree_ok ?m' ?L h c" using gd by simp
  have fr: "same_on (foot ?m ?L (Suc h) b - kid ?m ?L h b i - {pblk b}) ?m ?m'"
    using dj kd by (intro same_on_mono [OF out]) blast
  note up = update_kid [OF blk_pages_pos ok i ptr _ fr, unfolded kd kd', OF _ _ dj, unfolded ptr [OF i] c(1)]
  have up1: "tree_ok ?m' ?L (Suc h) b" by (rule up(1)) (simp_all add: tc)
  have up2: "foot ?m' ?L (Suc h) b = foot ?m ?L (Suc h) b - foot ?m ?L h c \<union> foot ?m' ?L h c"
    by (rule up(2)) (simp_all add: tc)
  have f: "find_loop ?m' (Suc h) b k = find_loop ?m (Suc h) b k"
    if "k < span (Suc h)" "k div span h \<noteq> i" for k by (rule up(3) [OF _ _ that]) (simp_all add: tc)
  have fi: "find_loop ?m' (Suc h) b k = find_loop ?m' h c (k mod span h)"
    "find_loop ?m (Suc h) b k = find_loop ?m h c (k mod span h)"
    if "k < span (Suc h)" "k div span h = i" for k
    using find_at [OF that(1)] that c ptr [OF i] by auto
  have km: "k mod span h \<in> mapped ?m h c" if "k \<in> mapped ?m (Suc h) b" "k div span h = i" for k
    using that fi(2) [of k] by (simp add: mapped_def)
  have "card (mapped ?m' (Suc h) b - mapped ?m (Suc h) b) = card (mapped ?m' h c - mapped ?m h c)"
    using card_mapped_change [OF i f] c ptr [OF i] by (simp add: kid_mapped_def)
  moreover have "find_loop ?m' (Suc h) b k = find_loop ?m (Suc h) b k" if "k \<in> mapped ?m (Suc h) b" for k
    using that f [of k] fi [of k] km [of k] gd(8) by (cases "k div span h = i") (auto simp: mapped_def)
  moreover have "find_loop ?m' (Suc h) b k = find_loop ?m (Suc h) b k"
    if "k < span (Suc h)" "k \<notin> below h i R" for k
    using that f [of k] fi [of k] below_in [of k h i R] gd(9) [of "k mod span h"] by (cases "k div span h = i") auto
  moreover have "foot ?m' ?L (Suc h) b = foot ?m ?L (Suc h) b \<union> (st_used st' - st_used st)"
    unfolding up2 fc using foot_kid [of i ?m b ?L h] i c by blast
  moreover from this have "same_on (- foot ?m' ?L (Suc h) b) ?m ?m'"
    using fc foot_kid [of i ?m b ?L h] i c by (intro same_on_mono [OF out]) auto
  moreover have "same_on (leaves ?m ?L (Suc h) b) ?m ?m'"
    unfolding same_on_def
  proof (intro allI impI)
    fix x
    assume "x div 4096 \<in> leaves ?m ?L (Suc h) b"
    then obtain j where j: "j < 512" "x div 4096 \<in> leaves ?m ?L h (node_ptr ?m b j)" "x div 4096 \<in> kid ?m ?L h b j"
      using leaves_kid [OF ok] by metis
    show "?m x = ?m' x"
    proof (cases "j = i")
      case True
      then show ?thesis using gd(11) j(2) c(1) by (simp add: same_on_def)
    next
      case False
      then have "x div 4096 \<notin> foot ?m' ?L h c"
        using dj kids_disjoint(1) [OF ok j(1) i] j kd by (auto simp: foot_kids)
      then show ?thesis using out by (simp add: same_on_def)
    qed
  qed
  ultimately show "grown (Suc h) b (below h i R) st st'"
    using gd(1,2,4,10) up1 unfolding grown_def gd(3) by auto
  show "node_ptr ?m' b j = node_ptr ?m b j" if "j < 512" by (rule ptr [OF that])
qed

section \<open>A new child\<close>

text \<open>The memory after a new tree \<open>c\<close> of fresh pages was made and linked at the empty slot \<open>i\<close>.\<close>

lemma attach:
  assumes L: "0 < L" and ok: "tree_ok m L (Suc h) b" and i: "i < 512" and z: "node_ptr m b i = 0"
    and c: "tree_ok m1 L h c" and fresh: "foot m L (Suc h) b \<inter> foot m1 L h c = {}"
    and out: "same_on (- foot m1 L h c) m m1"
  defines "m' \<equiv> nput (node_at b i) (le64 c) m1"
  shows "tree_ok m' L (Suc h) b" "foot m' L (Suc h) b = foot m L (Suc h) b \<union> foot m1 L h c"
    "same_on (- foot m' L (Suc h) b) m m'"
    "k < span (Suc h) \<Longrightarrow> k div span h \<noteq> i \<Longrightarrow> find_loop m' (Suc h) b k = find_loop m (Suc h) b k"
    "node_ptr m' b i = c" "x < span h \<Longrightarrow> find_loop m' h c x = find_loop m1 h c x"
    "same_on (leaves m L (Suc h) b) m m'"
proof -
  have b: "paligned b" "pblk b \<in> foot m L (Suc h) b" using ok by (simp_all add: foot_iff)
  have c0: "c \<noteq> 0" using tree_ok_ptr [OF c] by simp
  have out': "same_on (- {pblk b}) m1 m'" unfolding m'_def by (rule put_same_on [OF b(1) i])
  show ptr_i: "node_ptr m' b i = c" by (simp add: m'_def node_ptr_put)
  have ptr: "node_ptr m' b j = node_ptr m b j" if "j < 512" "j \<noteq> i" for j
  proof -
    have "node_ptr m1 b j = node_ptr m b j"
      using b fresh by (intro node_ptr_cong [OF _ that(1) out]) auto
    then show ?thesis using that by (simp add: m'_def node_ptr_put)
  qed
  have "same_on (foot m1 L h c) m1 m'" using fresh b(2) by (intro same_on_mono [OF out']) auto
  note cf = tree_frame [OF L c this]
  have k0: "kid m L h b i = {}" using z by (simp add: kid_def)
  have k1: "kid m' L h b i = foot m1 L h c" using cf c0 ptr_i by (simp add: kid_def)
  have fr: "same_on (foot m L (Suc h) b - kid m L h b i - {pblk b}) m m'"
    using fresh by (intro same_on_trans [OF same_on_mono [OF out] same_on_mono [OF out']]) auto
  have new: "node_ptr m' b i \<noteq> 0 \<Longrightarrow> tree_ok m' L h (node_ptr m' b i)" using cf ptr_i by simp
  have dj: "kid m' L h b i \<inter> (foot m L (Suc h) b - kid m L h b i) = {}" using fresh k1 k0 by auto
  note up = update_kid [OF L ok i ptr new fr dj]
  show "tree_ok m' L (Suc h) b" by (rule up(1))
  show ft: "foot m' L (Suc h) b = foot m L (Suc h) b \<union> foot m1 L h c" using up(2) k0 k1 by simp
  show "same_on (- foot m' L (Suc h) b) m m'"
    unfolding ft using b(2) by (intro same_on_trans [OF same_on_mono [OF out] same_on_mono [OF out']]) auto
  show "find_loop m' (Suc h) b k = find_loop m (Suc h) b k" if "k < span (Suc h)" "k div span h \<noteq> i"
    by (rule up(3)) (simp_all add: that)
  show "find_loop m' h c x = find_loop m1 h c x" if "x < span h" using cf that by simp
  show "same_on (leaves m L (Suc h) b) m m'"
    using leaves_node [OF ok] fresh
    by (intro same_on_trans [OF same_on_mono [OF out] same_on_mono [OF out']]) auto
qed

lemma grown_attach:
  assumes r: "ready (Suc h) b st" and i: "i < 512" and z: "node_ptr (st_mem st) b i = 0"
    and ok1: "alloc_ok st1" and si: "same_inode (st_pi st) (st_pi st1)"
    and u: "st_used st1 = st_used st \<union> foot (st_mem st1) (blk_pages (st_pi st)) h c"
      "st_used st \<inter> foot (st_mem st1) (blk_pages (st_pi st)) h c = {}"
    and c: "tree_ok (st_mem st1) (blk_pages (st_pi st)) h c"
    and out: "same_on (- foot (st_mem st1) (blk_pages (st_pi st)) h c) (st_mem st) (st_mem st1)"
    and n: "i_blocks (st_pi st1) =
      i_blocks (st_pi st) + of_nat (card (mapped (st_mem st1) h c)) * of_nat (blk_pages (st_pi st))"
    and s': "st_sbi st' = (st_sbi st1)\<lparr>nvmm := nput (node_at b i) (le64 c) (st_mem st1)\<rparr>" "st_pi st' = st_pi st1"
  shows "grown (Suc h) b (below h i (mapped (st_mem st1) h c)) st st'"
    and "node_ptr (st_mem st') b i = c"
    and "x < span h \<Longrightarrow> find_loop (st_mem st') h c x = find_loop (st_mem st1) h c x"
proof -
  let ?m = "st_mem st" and ?m' = "st_mem st'" and ?L = "blk_pages (st_pi st)"
  have m': "?m' = nput (node_at b i) (le64 c) (st_mem st1)" and u': "st_used st' = st_used st1" using s' by simp_all
  have L: "blk_pages (st_pi st') = ?L" using same_inode_pages [OF si] s'(2) by simp
  have ok: "tree_ok ?m ?L (Suc h) b" and fu: "foot ?m ?L (Suc h) b \<subseteq> st_used st" using r by (simp_all add: ready_def)
  have fresh: "foot ?m ?L (Suc h) b \<inter> foot (st_mem st1) ?L h c = {}" using fu u(2) by blast
  note at = attach [OF blk_pages_pos ok i z c fresh out, folded m']
  show "node_ptr ?m' b i = c" "x < span h \<Longrightarrow> find_loop ?m' h c x = find_loop (st_mem st1) h c x" by (rule at(5,6))+
  have c0: "c \<noteq> 0" using tree_ok_ptr [OF c] by simp
  have mc: "mapped ?m' h c = mapped (st_mem st1) h c" using at(6) by (auto simp: mapped_def)
  have fi: "find_loop ?m (Suc h) b k = 0" "find_loop ?m' (Suc h) b k = find_loop (st_mem st1) h c (k mod span h)"
    if "k < span (Suc h)" "k div span h = i" for k
    using that z at(5,6) c0 by (simp_all add: find_Suc)
  have card: "card (mapped ?m' (Suc h) b - mapped ?m (Suc h) b) = card (mapped (st_mem st1) h c)"
    using card_mapped_change [OF i, of h ?m' b ?m] at(4,5) z c0 mc by (simp add: kid_mapped_def)
  have keep: "find_loop ?m' (Suc h) b k = find_loop ?m (Suc h) b k" if "k \<in> mapped ?m (Suc h) b" for k
    using that at(4) [of k] fi(1) [of k] by (cases "k div span h = i") (auto simp: mapped_def)
  have other: "find_loop ?m' (Suc h) b k = find_loop ?m (Suc h) b k"
    if k: "k < span (Suc h)" "k \<notin> below h i (mapped (st_mem st1) h c)" for k
    using k at(4) [of k] fi [of k] below_in [of k h i "mapped (st_mem st1) h c"]
    by (cases "k div span h = i") (auto simp: mapped_def)
  have d: "st_used st1 - st_used st = foot (st_mem st1) ?L h c" using u by blast
  have a': "alloc_ok st'" using ok1 s'(1) by (simp add: alloc_ok_def balloc_inv_def)
  show "grown (Suc h) b (below h i (mapped (st_mem st1) h c)) st st'"
    unfolding grown_def L u' d card
  proof (intro conjI ballI allI impI)
    show "st_used st \<subseteq> st_used st1" using u(1) by blast
    show "same_on (- foot ?m' ?L (Suc h) b) ?m ?m'" by (rule at(3))
    show "same_on (leaves ?m ?L (Suc h) b) ?m ?m'" by (rule at(7))
  qed (use a' si keep other n s'(2) in \<open>simp_all add: at(1,2) del: tree_ok.simps\<close>)
qed

section \<open>The allocator\<close>

lemma tree_new_block_ok:
  assumes a: "alloc_ok st" and new: "tree_new_block btype zero st = (Inr blocknr, st1)"
  defines "n \<equiv> unat (pmfs_get_numblocks btype)" and "c \<equiv> pmfs_get_block_off blocknr"
  shows "alloc_ok st1" "st_pi st1 = st_pi st" "st_used st1 = st_used st \<union> {pblk c..<pblk c + n}"
    "st_used st \<inter> {pblk c..<pblk c + n} = {}" "same_on (- {pblk c..<pblk c + n}) (st_mem st) (st_mem st1)"
    "c \<noteq> 0" "paligned c" "zero \<Longrightarrow> x div 4096 \<in> {pblk c..<pblk c + n} \<Longrightarrow> st_mem st1 x = 0"
proof -
  from new obtain sbi1 where r: "pmfs_new_block (st_kmem st 0) btype zero (st_sbi st) = (Inr blocknr, sbi1)"
    and s1: "st1 = next_kmem sbi1 st"
    by (auto simp: tree_new_block_def split: prod.splits)
  have inv: "balloc_inv (st_sbi st)" and z: "0 \<in> st_used st" using a by (simp_all add: alloc_ok_def)
  note k = pmfs_new_block_ok [OF inv r, folded n_def] and m = pmfs_new_block_mem [OF inv r, folded n_def]
  note off = block_off [OF m(3), folded c_def]
  have n0: "0 < n" using numblocks_bounds by (simp add: n_def)
  show "st_pi st1 = st_pi st" "st_used st1 = st_used st \<union> {pblk c..<pblk c + n}"
    using k(2) off by (simp_all add: s1 next_kmem_def)
  then show "alloc_ok st1" using k(1) z by (simp add: alloc_ok_def s1 next_kmem_def)
  show dj: "st_used st \<inter> {pblk c..<pblk c + n} = {}" using k(3) off by simp
  show "same_on (- {pblk c..<pblk c + n}) (st_mem st) (st_mem st1)" using m(1) off by (simp add: s1 next_kmem_def)
  show "c \<noteq> 0" using dj z n0 off(1) by (auto simp: pblk_def)
  show "paligned c" by (rule off)
  show "st_mem st1 x = 0" if "zero" "x div 4096 \<in> {pblk c..<pblk c + n}"
    using m(2) [OF that(1)] that(2) off(1) by (simp add: s1 next_kmem_def)
qed

lemma tree_new_block_error:
  assumes "tree_new_block btype zero st = (Inl e, st1)"
  shows "e = - ENOSPC" "st_sbi st1 = st_sbi st" "st_pi st1 = st_pi st"
  using assms
  by (auto simp: tree_new_block_def next_kmem_def pmfs_new_block_def Let_def split: new_result.splits prod.splits)

lemma ENOSPC_pos [simp]: "0 < ENOSPC" "ENOSPC \<noteq> 0" by (simp_all add: ENOSPC_def)

lemma pages_shift: "of_nat (blk_pages p) = (2 ^ (blk_type_to_shift (i_blk_type p) - 12) :: u64)"
proof -
  have "take_bit 16 (uint (i_blk_type p)) = uint (i_blk_type p)"
    using unsigned_less [of "i_blk_type p", where 'a = int] by (intro take_bit_int_eq_self) simp_all
  then have "ucast (i_blk_type p) = (0 :: u16) \<longleftrightarrow> i_blk_type p = 0" "ucast (i_blk_type p) = (1 :: u16) \<longleftrightarrow> i_blk_type p = 1"
    by (simp_all add: word_uint_eq_iff unsigned_ucast_eq)
  then show ?thesis
    by (simp add: blk_pages_def pmfs_get_numblocks_def blk_type_to_shift_def PMFS_BLOCK_TYPE_4K_def
        PMFS_BLOCK_TYPE_2M_def)
qed

lemma pages_eq: "blk_pages p = 2 ^ (blk_type_to_shift (i_blk_type p) - 12)"
proof -
  let ?s = "blk_type_to_shift (i_blk_type p) - 12"
  have "blk_pages p < 2 ^ 64" using numblocks_bounds(2) [of "ucast (i_blk_type p)"] by (simp add: blk_pages_def)
  moreover have "unat (2 ^ ?s :: u64) = 2 ^ ?s"
    using unat_of_nat_less [of "2 ^ ?s", where 'a = 64] by (simp add: blk_type_to_shift_def)
  ultimately show ?thesis using pages_shift [of p] unat_of_nat_less [of "blk_pages p", where 'a = 64] by simp
qed

end
