(* ===== verification/Pmfs_Btree_Grow.thy ===== *)
theory Pmfs_Btree_Grow
  imports Pmfs_Btree_Alloc
begin

unbundle bit_operations_syntax

text \<open>
  \<^verbatim>\<open>recursive_alloc_blocks\<close>: the tree grows, and when the call succeeds every block of the range is mapped.
\<close>

section \<open>Ranges\<close>

lemma child_range:
  assumes "k div span h = i" "lo div span h \<le> i" "i \<le> hi div span h"
  shows "lo \<le> k \<and> k \<le> hi \<longleftrightarrow> child_first h lo i \<le> k mod span h \<and> k mod span h \<le> child_last h hi i"
proof -
  have k: "k = i * span h + k mod span h" using assms(1) div_mult_mod_eq [of k "span h"] by simp
  have m: "k mod span h < span h" by simp
  have f: "lo = lo div span h * span h + lo mod span h" and l: "hi = hi div span h * span h + hi mod span h"
    by simp_all
  have "lo \<le> k \<longleftrightarrow> child_first h lo i \<le> k mod span h"
  proof (cases "lo div span h = i")
    case True
    then show ?thesis using k f unfolding child_first_def by (metis add_le_cancel_left)
  next
    case False
    then have "lo < k" using assms(1,2)
      by (metis div_le_mono le_antisym not_le)
    with False show ?thesis by (simp add: child_first_def)
  qed
  moreover have "k \<le> hi \<longleftrightarrow> k mod span h \<le> child_last h hi i"
  proof (cases "hi div span h = i")
    case True
    then show ?thesis using k l unfolding child_last_def by (metis add_le_cancel_left)
  next
    case False
    then have "k < hi" using assms(1,3) by (metis div_le_mono le_antisym not_le)
    moreover have "k mod span h \<le> span h - 1" using m by linarith
    ultimately show ?thesis using False by (simp add: child_last_def)
  qed
  ultimately show ?thesis by blast
qed

lemma child_bounds: "child_last h hi i < span h"
  by (simp add: child_last_def)

lemma below_child_range:
  assumes "lo div span h \<le> i" "i \<le> hi div span h"
  shows "below h i {child_first h lo i..child_last h hi i} \<subseteq> {lo..hi}"
proof
  fix k
  assume "k \<in> below h i {child_first h lo i..child_last h hi i}"
  then obtain x where x: "k = i * span h + x" "x \<in> {child_first h lo i..child_last h hi i}" by (rule imageE)
  with child_bounds [of h hi i] have "k div span h = i" "k mod span h = x" by simp_all
  with child_range [OF _ assms, of k] x show "k \<in> {lo..hi}" by simp
qed

section \<open>Steps\<close>

lemma st_simps [simp]:
  "st_sbi (act a st) = st_sbi st" "st_pi (act a st) = st_pi st" "st_vi (act a st) = st_vi st"
  "st_sbi (upd_pi f st) = st_sbi st" "st_pi (upd_pi f st) = f (st_pi st)" "st_vi (upd_pi f st) = st_vi st"
  "st_pi (set_node b i v st) = st_pi st" "st_vi (set_node b i v st) = st_vi st"
  "st_sbi (set_node b i v st) = (st_sbi st)\<lparr>nvmm := nput (node_at b i) (le64 v) (st_mem st)\<rparr>"
  by (simp_all add: act_def upd_pi_def set_node_def upd_mem_def)

lemma log_node_state:
  assumes "log_node txn new_node saved b i l st = (s, st')"
  shows "st_sbi st' = st_sbi st" "st_pi st' = st_pi st" "st_vi st' = st_vi st"
  using assms by (auto simp: log_node_def split: if_splits)

lemma leaf_step:
  assumes r: "ready (Suc 0) b st" and i: "i < 512" and z: "node_ptr (st_mem st) b i = 0"
    and new: "pmfs_new_data_block zero st = (Inr blk, st1)"
    and lg: "log_node txn new_node saved b i l st1 = (s, st2)"
  shows "grown (Suc 0) b {i} st (set_node b i (pmfs_get_block_off blk) st2)"
    and "i \<in> mapped (st_mem (set_node b i (pmfs_get_block_off blk) st2)) (Suc 0) b"
proof -
  let ?c = "pmfs_get_block_off blk" and ?L = "blk_pages (st_pi st)" and ?st' = "set_node b i (pmfs_get_block_off blk) st2"
  from new obtain st0 where n: "tree_new_block (ucast (i_blk_type (st_pi st))) zero st = (Inr blk, st0)"
    and s1: "st1 = upd_pi (\<lambda>p. p\<lparr>i_blocks := i_blocks p + 2 ^ (blk_type_to_shift (i_blk_type (st_pi st)) - 12)\<rparr>) st0"
    by (auto simp: pmfs_new_data_block_def Let_def split: prod.splits sum.splits)
  have a: "alloc_ok st" using r by (simp add: ready_def)
  note t = tree_new_block_ok [OF a n, folded blk_pages_def]
  note lgs = log_node_state [OF lg]
  have sb: "st_sbi st2 = st_sbi st0" using lgs s1 by simp
  have ft: "foot (st_mem st2) ?L 0 ?c = {pblk ?c..<pblk ?c + ?L}" by simp
  have mp: "mapped (st_mem st2) 0 ?c = {0}" using t(6) by (auto simp: mapped_def)
  have pi2: "st_pi st2 = (st_pi st)\<lparr>i_blocks := i_blocks (st_pi st) + of_nat ?L\<rparr>"
    using lgs s1 t(2) by (simp add: pages_shift)
  have a2: "alloc_ok st2" and si: "same_inode (st_pi st) (st_pi st2)"
    using t(1) sb pi2 by (simp_all add: alloc_ok_def same_inode_def)
  have tk: "tree_ok (st_mem st2) ?L 0 ?c" using t by simp
  have u: "st_used st2 = st_used st \<union> foot (st_mem st2) ?L 0 ?c" "st_used st \<inter> foot (st_mem st2) ?L 0 ?c = {}"
    unfolding ft using t(3,4) sb by simp_all
  have o: "same_on (- foot (st_mem st2) ?L 0 ?c) (st_mem st) (st_mem st2)" unfolding ft using t(5) sb by simp
  have nb: "i_blocks (st_pi st2) = i_blocks (st_pi st) + of_nat (card (mapped (st_mem st2) 0 ?c)) * of_nat ?L"
    unfolding mp pi2 by simp
  note g = grown_attach [OF r i z a2 si u tk o nb, of ?st', unfolded mp, simplified]
  show "grown (Suc 0) b {i} st ?st'" using g(1) by simp
  show "i \<in> mapped (st_mem ?st') (Suc 0) b"
    using g(2) t(6) i by (simp add: mapped_def find_Suc span_Suc)
qed

lemma inner_step:
  assumes r: "ready (Suc (Suc h)) b st" and i: "i < 512" and z: "node_ptr (st_mem st) b i = 0"
    and new: "tree_new_block PMFS_BLOCK_TYPE_4K True st = (Inr blk, st1)"
    and lg: "log_node txn new_node saved b i l st1 = (s, st2)"
  shows "grown (Suc (Suc h)) b {} st (set_node b i (pmfs_get_block_off blk) st2)"
    and "node_ptr (st_mem (set_node b i (pmfs_get_block_off blk) st2)) b i \<noteq> 0"
proof -
  let ?c = "pmfs_get_block_off blk" and ?L = "blk_pages (st_pi st)" and ?st' = "set_node b i (pmfs_get_block_off blk) st2"
  have a: "alloc_ok st" using r by (simp add: ready_def)
  have one: "unat (pmfs_get_numblocks PMFS_BLOCK_TYPE_4K) = 1" by (simp add: pmfs_get_numblocks_def)
  have set1: "{p..<p + 1} = {p}" for p :: nat by auto
  note t = tree_new_block_ok [OF a new, unfolded one set1]
  note lgs = log_node_state [OF lg]
  have e: "node_ptr (st_mem st2) ?c j = 0" if "j < 512" for j
    using t(7,8) lgs(1) that by (intro node_ptr_zero) simp_all
  note en = empty_node [OF t(6,7) e]
  have mp: "mapped (st_mem st2) (Suc h) ?c = {}" using en(3) by (simp add: mapped_def)
  have a2: "alloc_ok st2" and si: "same_inode (st_pi st) (st_pi st2)"
    using t(1,2) lgs by (simp_all add: alloc_ok_def)
  have ft: "foot (st_mem st2) ?L (Suc h) ?c = {pblk ?c}" by (rule en(2))
  have u: "st_used st2 = st_used st \<union> foot (st_mem st2) ?L (Suc h) ?c"
    "st_used st \<inter> foot (st_mem st2) ?L (Suc h) ?c = {}"
    unfolding ft using t(3,4) lgs(1) by simp_all
  have o: "same_on (- foot (st_mem st2) ?L (Suc h) ?c) (st_mem st) (st_mem st2)" unfolding ft using t(5) lgs(1) by simp
  have nb: "i_blocks (st_pi st2) = i_blocks (st_pi st) + of_nat (card (mapped (st_mem st2) (Suc h) ?c)) * of_nat ?L"
    unfolding mp using lgs(2) t(2) by simp
  note g = grown_attach [OF r i z a2 si u en(1) o nb, of ?st', unfolded mp]
  show "grown (Suc (Suc h)) b {} st ?st'" using g(1) by simp
  show "node_ptr (st_mem ?st') b i \<noteq> 0" using g(2) t(6) by simp
qed

section \<open>Loops\<close>

definition alloc_post :: "nat \<Rightarrow> u64 \<Rightarrow> nat \<Rightarrow> nat \<Rightarrow> int \<Rightarrow> tree_st \<Rightarrow> tree_st \<Rightarrow> bool" where
  "alloc_post h b lo hi e st st' \<longleftrightarrow>
     grown h b {lo..hi} st st' \<and> st_vi st' = st_vi st \<and> (e = 0 \<or> e = - ENOSPC) \<and>
     (e = 0 \<longrightarrow> {lo..hi} \<subseteq> mapped (st_mem st') h b)"

lemma new_data_block_error:
  assumes "pmfs_new_data_block zero st = (Inl e, st1)"
  shows "e = - ENOSPC" "st_sbi st1 = st_sbi st" "st_pi st1 = st_pi st" "st_vi st1 = st_vi st"
proof -
  from assms have "tree_new_block (ucast (i_blk_type (st_pi st))) zero st = (Inl e, st1)"
    by (auto simp: pmfs_new_data_block_def Let_def split: prod.splits sum.splits)
  from tree_new_block_error [OF this] this
  show "e = - ENOSPC" "st_sbi st1 = st_sbi st" "st_pi st1 = st_pi st" "st_vi st1 = st_vi st"
    by (auto simp: tree_new_block_def next_kmem_def split: prod.splits)
qed

lemma new_block_vi:
  "tree_new_block btype zero st = (r, st1) \<Longrightarrow> st_vi st1 = st_vi st"
  "pmfs_new_data_block zero st = (r, st1) \<Longrightarrow> st_vi st1 = st_vi st"
  by (auto simp: tree_new_block_def pmfs_new_data_block_def next_kmem_def Let_def split: prod.splits sum.splits)

lemma alloc_leaf_ok:
  "\<lbrakk>ready (Suc 0) b st; i + n \<le> 512; alloc_leaf txn zero b l n i new_node saved st = (e, st')\<rbrakk> \<Longrightarrow>
   grown (Suc 0) b {i..<i + n} st st' \<and> st_vi st' = st_vi st \<and> (e = 0 \<or> e = - ENOSPC) \<and>
   (e = 0 \<longrightarrow> {i..<i + n} \<subseteq> mapped (st_mem st') (Suc 0) b)"
proof (induction n arbitrary: i saved st)
  case 0
  then show ?case by (simp add: grown_refl)
next
  case (Suc n)
  have i: "i < 512" "Suc i + n \<le> 512" using Suc.prems(2) by simp_all
  have dom: "{i..<i + Suc n} = insert i {Suc i..<Suc i + n}" by auto
  show ?case
  proof (cases "node_ptr (st_mem st) b i = 0")
    case False
    then have im: "i \<in> mapped (st_mem st) (Suc 0) b" using i by (simp add: mapped_def find_Suc span_Suc)
    have "alloc_leaf txn zero b l n (Suc i) new_node saved st = (e, st')" using Suc.prems(3) False by simp
    note ih = Suc.IH [OF Suc.prems(1) i(2) this]
    have "i \<in> mapped (st_mem st') (Suc 0) b" using im grown_mapped ih by blast
    moreover have "grown (Suc 0) b {i..<i + Suc n} st st'"
      unfolding dom by (rule grown_mono [OF conjunct1 [OF ih]]) blast
    ultimately show ?thesis unfolding dom using ih by auto
  next
    case z: True
    show ?thesis
    proof (cases "pmfs_new_data_block zero st")
      case (Pair r st1)
      show ?thesis
      proof (cases r)
        case (Inl err)
        note ne = new_data_block_error [OF Pair [unfolded Inl]]
        from Suc.prems(3) z Pair Inl have e: "e = err" "st' = alloc_eof st1" by simp_all
        have "grown (Suc 0) b {i..<i + Suc n} st st'"
          unfolding e by (rule grown_cong [OF grown_refl [OF Suc.prems(1)]])
            (simp_all add: alloc_eof_def ne same_inode_def)
        with e ne show ?thesis by (simp add: alloc_eof_def)
      next
        case (Inr blk)
        obtain s st2 where lg: "log_node txn new_node saved b i l st1 = (s, st2)" by fastforce
        note step = leaf_step [OF Suc.prems(1) i(1) z Pair [unfolded Inr] lg]
        let ?st = "set_node b i (pmfs_get_block_off blk) st2"
        have run: "alloc_leaf txn zero b l n (Suc i) new_node s ?st = (e, st')"
          using Suc.prems(3) z Pair Inr lg by simp
        note ih = Suc.IH [OF grown_ready [OF Suc.prems(1) step(1)] i(2) run]
        have "grown (Suc 0) b {i..<i + Suc n} st st'"
          unfolding dom using step(1) ih by (auto intro: grown_trans grown_mono)
        moreover have "i \<in> mapped (st_mem st') (Suc 0) b" using step(2) grown_mapped ih by blast
        moreover have "st_vi st' = st_vi st"
          using ih log_node_state [OF lg] new_block_vi(2) [OF Pair] by simp
        ultimately show ?thesis unfolding dom using ih by auto
      qed
    qed
  qed
qed

lemma alloc_inner_ok:
  assumes rec: "\<And>c x y nn st e st'. ready h c st \<Longrightarrow> y < span h \<Longrightarrow> rec c x y nn st = (e, st') \<Longrightarrow>
      alloc_post h c x y e st st'"
    and h: "h = Suc h'" and hi: "hi < span (Suc h)"
  shows "\<lbrakk>ready (Suc h) b st; lo div span h \<le> i; i + n = Suc (hi div span h);
     alloc_inner txn h rec b lo hi n i new_node saved st = (e, nn, st')\<rbrakk> \<Longrightarrow>
   grown (Suc h) b {lo..hi} st st' \<and> st_vi st' = st_vi st \<and> (e = 0 \<or> e = - ENOSPC) \<and>
   (e = 0 \<longrightarrow> {k \<in> {lo..hi}. i \<le> k div span h} \<subseteq> mapped (st_mem st') (Suc h) b)"
proof (induction n arbitrary: i new_node saved st)
  case 0
  then have "\<not> i \<le> k div span h" if "k \<in> {lo..hi}" for k
    using that div_le_mono [of k hi "span h"] by auto
  with 0 show ?case by (auto simp: grown_refl)
next
  case (Suc n)
  have i: "i \<le> hi div span h" "Suc i + n = Suc (hi div span h)" "lo div span h \<le> Suc i" "i < 512"
    using Suc.prems(2,3) child_index [OF hi] by simp_all
  let ?lo = "child_first h lo i" and ?hi = "child_last h hi i"
  obtain r nn1 s st1 where first: "(if node_ptr (st_mem st) b i \<noteq> 0 then (0, new_node, saved, st)
         else case tree_new_block PMFS_BLOCK_TYPE_4K True st of
           (Inl e, st1) \<Rightarrow> (e, new_node, saved, st1)
         | (Inr blocknr, st1) \<Rightarrow>
             (case log_node txn new_node saved b i (hi div span h) st1 of (saved, st2) \<Rightarrow>
                (0, True, saved, set_node b i (pmfs_get_block_off blocknr) st2))) = (r, nn1, s, st1)"
    by (rule prod_cases4)
  have g1: "grown (Suc h) b {lo..hi} st st1 \<and> st_vi st1 = st_vi st \<and> (r = 0 \<or> r = - ENOSPC) \<and>
      (r = 0 \<longrightarrow> node_ptr (st_mem st1) b i \<noteq> 0)"
  proof (cases "node_ptr (st_mem st) b i = 0")
    case False
    with first Suc.prems(1) show ?thesis by (auto simp: grown_refl)
  next
    case z: True
    show ?thesis
    proof (cases "tree_new_block PMFS_BLOCK_TYPE_4K True st")
      case (Pair q st2)
      show ?thesis
      proof (cases q)
        case (Inl err)
        note ne = tree_new_block_error [OF Pair [unfolded Inl]]
        from first z Pair Inl have e: "r = err" "st1 = st2" by simp_all
        have "grown (Suc h) b {lo..hi} st st1"
          unfolding e by (rule grown_cong [OF grown_refl [OF Suc.prems(1)]]) (simp_all add: ne)
        with e ne new_block_vi(1) [OF Pair] show ?thesis by simp
      next
        case (Inr blk)
        obtain s' st3 where lg: "log_node txn new_node saved b i (hi div span h) st2 = (s', st3)" by fastforce
        note step = inner_step [OF Suc.prems(1) [unfolded h] i(4) z Pair [unfolded Inr] lg, folded h]
        from first z Pair Inr lg have "st1 = set_node b i (pmfs_get_block_off blk) st3" "r = 0" by simp_all
        with step new_block_vi(1) [OF Pair] log_node_state [OF lg] show ?thesis by (auto intro: grown_mono)
      qed
    qed
  qed
  note rd1 = grown_ready [OF Suc.prems(1) conjunct1 [OF g1]]
  show ?case
  proof (cases "r = 0")
    case False
    with Suc.prems(4) first have "e = r" "st' = st1" by (simp_all add: Let_def split: prod.splits)
    with g1 False show ?thesis by auto
  next
    case True
    let ?c = "node_ptr (st_mem st1) b i"
    have c: "?c \<noteq> 0" using g1 True by simp
    obtain e2 st2 where r2: "rec ?c ?lo ?hi nn1 st1 = (e2, st2)" by fastforce
    have rc: "ready h ?c st1"
      using rd1 tree_ok_kid [OF _ i(4) c] foot_kid [OF i(4) c] unfolding ready_def by blast
    have p: "alloc_post h ?c ?lo ?hi e2 st1 st2" by (rule rec [OF rc child_bounds r2])
    note gc = grown_child(1) [OF rd1 i(4) refl c]
    have g2: "grown (Suc h) b {lo..hi} st1 st2"
      using grown_mono [OF gc below_child_range [OF Suc.prems(2) i(1)]] p by (simp add: alloc_post_def)
    have g12: "grown (Suc h) b {lo..hi} st st2" using grown_trans conjunct1 [OF g1] g2 by blast
    have vi2: "st_vi st2 = st_vi st" using g1 p by (simp add: alloc_post_def)
    show ?thesis
    proof (cases "e2 < 0")
      case e2: True
      with Suc.prems(4) first r2 True have "e = e2" "st' = st2" by (simp_all add: Let_def split: prod.splits)
      with g12 vi2 p e2 show ?thesis by (auto simp: alloc_post_def)
    next
      case e2: False
      then have e20: "e2 = 0" using p by (auto simp: alloc_post_def)
      have run: "alloc_inner txn h rec b lo hi n (Suc i) nn1 s st2 = (e, nn, st')"
        using Suc.prems(4) first r2 True e2 by (simp add: Let_def split: prod.splits)
      note ih = Suc.IH [OF grown_ready [OF rd1 g2] i(3,2) run]
      have mi: "k \<in> mapped (st_mem st2) (Suc h) b" if k: "k \<in> {lo..hi}" "k div span h = i" for k
      proof -
        have "node_ptr (st_mem st2) b i = ?c"
          using grown_child(2) [OF rd1 i(4) refl c _ i(4)] p unfolding alloc_post_def by blast
        moreover have "k mod span h \<in> mapped (st_mem st2) h ?c"
          using child_range [OF k(2) Suc.prems(2) i(1)] k(1) p e20 by (auto simp: alloc_post_def)
        ultimately show ?thesis using k hi c by (auto simp: mapped_def find_Suc)
      qed
      have "grown (Suc h) b {lo..hi} st st'" using grown_trans [OF g12] ih by blast
      moreover have "k \<in> mapped (st_mem st') (Suc h) b" if "e = 0" "k \<in> {lo..hi}" "i \<le> k div span h" for k
        using ih mi [of k] that grown_mapped [of "Suc h" b "{lo..hi}" st2 st']
        by (cases "k div span h = i") auto
      ultimately show ?thesis using ih vi2 by auto
    qed
  qed
qed

section \<open>Recursion\<close>

lemma alloc_post_cong:
  assumes "alloc_post h b lo hi e st st1" "st_sbi st2 = st_sbi st1" "st_pi st2 = st_pi st1" "st_vi st2 = st_vi st1"
  shows "alloc_post h b lo hi e st st2"
  using assms grown_cong [of h b "{lo..hi}" st st1 st2] by (simp add: alloc_post_def)

lemma recursive_alloc_ok:
  "\<lbrakk>ready (Suc h) b st; hi < span (Suc h);
    recursive_alloc_blocks txn zero (Suc h) b lo hi new_node st = (e, st')\<rbrakk> \<Longrightarrow>
   alloc_post (Suc h) b lo hi e st st'"
proof (induction h arbitrary: b lo hi new_node st e st')
  case 0
  let ?n = "child_count 0 lo hi"
  obtain e1 st1 where run: "alloc_leaf txn zero b hi ?n lo new_node False st = (e1, st1)" by fastforce
  have rng: "{lo..<lo + ?n} = {lo..hi}" by (auto simp: child_count_def)
  have post: "alloc_post (Suc 0) b lo hi e1 st st1"
  proof (cases "lo + ?n \<le> 512")
    case True
    from alloc_leaf_ok [OF "0.prems"(1) True run] show ?thesis unfolding alloc_post_def rng by blast
  next
    case False
    then have "?n = 0" "lo > hi" using "0.prems"(2) by (auto simp: child_count_def span_Suc)
    with run "0.prems"(1) show ?thesis by (simp add: alloc_post_def grown_refl)
  qed
  have "e = e1 \<and> st_sbi st' = st_sbi st1 \<and> st_pi st' = st_pi st1 \<and> st_vi st' = st_vi st1"
    using "0.prems"(3) run by (auto simp: Let_def split: if_splits)
  with alloc_post_cong [OF post] show ?case by simp
next
  case (Suc h)
  let ?h = "Suc h"
  let ?n = "child_count ?h lo hi" and ?i = "lo div span ?h"
  obtain e1 nn st1 where run: "alloc_inner txn ?h (recursive_alloc_blocks txn zero ?h) b lo hi ?n ?i new_node False st
      = (e1, nn, st1)" by (rule prod_cases3)
  have post: "alloc_post (Suc ?h) b lo hi e1 st st1"
  proof (cases "?i \<le> hi div span ?h")
    case True
    then have n: "?i + ?n = Suc (hi div span ?h)" by (simp add: child_count_def)
    from alloc_inner_ok [OF Suc.IH refl Suc.prems(2,1) order_refl n run]
    have "grown (Suc ?h) b {lo..hi} st st1 \<and> st_vi st1 = st_vi st \<and> (e1 = 0 \<or> e1 = - ENOSPC) \<and>
      (e1 = 0 \<longrightarrow> {k \<in> {lo..hi}. ?i \<le> k div span ?h} \<subseteq> mapped (st_mem st1) (Suc ?h) b)" .
    moreover have "{k \<in> {lo..hi}. ?i \<le> k div span ?h} = {lo..hi}" by (auto simp: div_le_mono)
    ultimately show ?thesis by (simp add: alloc_post_def)
  next
    case False
    then have "?n = 0" "\<not> lo \<le> hi" using div_le_mono [of lo hi "span ?h"] by (auto simp: child_count_def)
    with run Suc.prems(1) show ?thesis by (simp add: alloc_post_def grown_refl)
  qed
  have "e = e1 \<and> st_sbi st' = st_sbi st1 \<and> st_pi st' = st_pi st1 \<and> st_vi st' = st_vi st1"
    using Suc.prems(3) run by (auto simp: Let_def simp del: recursive_alloc_blocks.simps(2) alloc_inner.simps
        simp: recursive_alloc_blocks.simps(2) [of txn zero "Suc h"] split: if_splits)
  with alloc_post_cong [OF post] show ?case by simp
qed

end
