(* ===== verification/Pmfs_Btree_Cut.thy ===== *)
theory Pmfs_Btree_Cut
  imports Pmfs_Btree_Grow
begin

unbundle bit_operations_syntax

text \<open>
  Removing a range of blocks from a tree, on memories.  A tree is lean when none of its meta blocks is
  without data.
\<close>

primrec lean :: "mem \<Rightarrow> nat \<Rightarrow> u64 \<Rightarrow> bool" where
  "lean m 0 = (\<lambda>b. True)"
| "lean m (Suc h) = (\<lambda>b. \<forall>i<512. node_ptr m b i \<noteq> 0 \<longrightarrow>
     lean m h (node_ptr m b i) \<and> mapped m h (node_ptr m b i) \<noteq> {})"

lemma mapped_frame:
  assumes "0 < L" "tree_ok m L h b" "same_on (foot m L h b) m m'"
  shows "mapped m' h b = mapped m h b"
  using tree_frame [OF assms] by (auto simp: mapped_def)

lemma lean_frame:
  assumes "0 < L"
  shows "\<lbrakk>tree_ok m L h b; same_on (foot m L h b) m m'; lean m h b\<rbrakk> \<Longrightarrow> lean m' h b"
proof (induction h arbitrary: b)
  case 0
  then show ?case by simp
next
  case (Suc h)
  have p: "node_ptr m' b i = node_ptr m b i" if "i < 512" for i
    using Suc.prems(1) by (intro node_ptr_cong [OF _ that Suc.prems(2)]) (simp_all add: foot_iff)
  have "lean m' h (node_ptr m b i) \<and> mapped m' h (node_ptr m b i) \<noteq> {}" if i: "i < 512" "node_ptr m b i \<noteq> 0" for i
  proof -
    note t = tree_ok_kid [OF Suc.prems(1) i] and s = same_on_mono [OF Suc.prems(2) foot_kid [OF i]]
    show ?thesis using Suc.IH [OF t s] mapped_frame [OF assms t s] Suc.prems(3) i by simp
  qed
  with p show ?case by simp
qed

definition cut :: "mem \<Rightarrow> nat \<Rightarrow> nat \<Rightarrow> u64 \<Rightarrow> nat \<Rightarrow> nat \<Rightarrow> bool \<Rightarrow> mem \<Rightarrow> bool" where
  "cut m L h c lo hi e m' \<longleftrightarrow>
     (if e then mapped m h c \<subseteq> {lo..hi}
      else tree_ok m' L h c \<and> foot m' L h c \<subseteq> foot m L h c \<and>
        (\<forall>k < span h. find_loop m' h c k = (if lo \<le> k \<and> k \<le> hi then 0 else find_loop m h c k)) \<and>
        (lean m h c \<longrightarrow> lean m' h c \<and> mapped m' h c \<noteq> {}))"

definition keep :: "mem \<Rightarrow> nat \<Rightarrow> nat \<Rightarrow> u64 \<Rightarrow> bool \<Rightarrow> nat set" where
  "keep m' L h c e = (if e then {} else foot m' L h c)"

lemma cut_post:
  assumes "0 < L" "cut m L h c lo hi e m1" "same_on (foot m L h c) m1 m2"
  shows "cut m L h c lo hi e m2" "keep m2 L h c e = keep m1 L h c e"
proof -
  have f: "tree_ok m2 L h c \<and> foot m2 L h c = foot m1 L h c \<and> (\<forall>k < span h. find_loop m2 h c k = find_loop m1 h c k) \<and>
      (lean m1 h c \<longrightarrow> lean m2 h c) \<and> mapped m2 h c = mapped m1 h c" if "\<not> e"
  proof -
    have t: "tree_ok m1 L h c" "foot m1 L h c \<subseteq> foot m L h c" using assms(2) that by (simp_all add: cut_def)
    note s = same_on_mono [OF assms(3) t(2)]
    show ?thesis
      using tree_frame [OF assms(1) t(1) s] lean_frame [OF assms(1) t(1) s] mapped_frame [OF assms(1) t(1) s] by blast
  qed
  then show "cut m L h c lo hi e m2" using assms(2) by (auto simp: cut_def split: if_splits)
  show "keep m2 L h c e = keep m1 L h c e" using f by (simp add: keep_def)
qed

lemma cut_pre:
  assumes "0 < L" "tree_ok m0 L h c" "same_on (foot m0 L h c) m0 m" "cut m L h c lo hi e m1"
  shows "cut m0 L h c lo hi e m1"
  using assms(4) tree_frame [OF assms(1-3)] lean_frame [OF assms(1-3)] mapped_frame [OF assms(1-3)]
  unfolding cut_def by (cases e) simp_all

section \<open>A node and its children\<close>

definition node_cut ::
    "mem \<Rightarrow> mem \<Rightarrow> mem \<Rightarrow> nat \<Rightarrow> nat \<Rightarrow> u64 \<Rightarrow> nat \<Rightarrow> nat \<Rightarrow> nat set \<Rightarrow> nat set \<Rightarrow> bool" where
  "node_cut m m1 m2 L h b lo hi E Z \<longleftrightarrow>
     0 < L \<and> tree_ok m L (Suc h) b \<and> hi < span (Suc h) \<and> lo \<le> hi \<and>
     (\<forall>j. lo div span h \<le> j \<longrightarrow> j \<le> hi div span h \<longrightarrow> node_ptr m b j \<noteq> 0 \<longrightarrow>
        cut m L h (node_ptr m b j) (child_first h lo j) (child_last h hi j) (j \<in> E) m1) \<and>
     same_on (- (\<Union>j \<in> {lo div span h..hi div span h}. kid m L h b j)) m m1 \<and>
     (\<forall>j. j \<in> Z \<longleftrightarrow> lo div span h \<le> j \<and> j \<le> hi div span h \<and> (node_ptr m b j = 0 \<or> j \<in> E)) \<and>
     (\<forall>j<512. node_ptr m2 b j = (if j \<in> Z then 0 else node_ptr m1 b j)) \<and>
     same_on (- {pblk b}) m1 m2"

definition kept :: "mem \<Rightarrow> mem \<Rightarrow> nat \<Rightarrow> nat \<Rightarrow> u64 \<Rightarrow> nat \<Rightarrow> nat \<Rightarrow> nat set \<Rightarrow> nat \<Rightarrow> nat set" where
  "kept m m1 L h b lo hi E j =
     (if node_ptr m b j = 0 then {}
      else if lo div span h \<le> j \<and> j \<le> hi div span h then keep m1 L h (node_ptr m b j) (j \<in> E)
      else kid m L h b j)"

lemma node_cutD:
  assumes "node_cut m m1 m2 L h b lo hi E Z"
  shows "0 < L" "tree_ok m L (Suc h) b" "hi < span (Suc h)" "lo \<le> hi"
    "\<And>j. \<lbrakk>lo div span h \<le> j; j \<le> hi div span h; node_ptr m b j \<noteq> 0\<rbrakk> \<Longrightarrow>
      cut m L h (node_ptr m b j) (child_first h lo j) (child_last h hi j) (j \<in> E) m1"
    "same_on (- (\<Union>j \<in> {lo div span h..hi div span h}. kid m L h b j)) m m1"
    "\<And>j. j \<in> Z \<longleftrightarrow> lo div span h \<le> j \<and> j \<le> hi div span h \<and> (node_ptr m b j = 0 \<or> j \<in> E)"
    "\<And>j. j < 512 \<Longrightarrow> node_ptr m2 b j = (if j \<in> Z then 0 else node_ptr m1 b j)"
    "same_on (- {pblk b}) m1 m2"
  using assms unfolding node_cut_def by blast+

lemma node_cut_ptr:
  assumes nc: "node_cut m m1 m2 L h b lo hi E Z"
  shows "hi div span h < 512" "j < 512 \<Longrightarrow> node_ptr m2 b j = (if j \<in> Z then 0 else node_ptr m b j)"
proof -
  note d = node_cutD [OF nc]
  show T: "hi div span h < 512" by (rule child_index [OF d(3)])
  have "node_ptr m1 b j = node_ptr m b j" if "j < 512"
    using kids_disjoint(2) [OF d(2)] T d(2) by (intro node_ptr_cong [OF _ that d(6)]) auto
  then show "node_ptr m2 b j = (if j \<in> Z then 0 else node_ptr m b j)" if "j < 512" using d(8) that by simp
qed

text \<open>What a child that is not cleared looks like at the end.\<close>

lemma node_cut_outside:
  assumes nc: "node_cut m m1 m2 L h b lo hi E Z"
    and j: "j < 512" "\<not> (lo div span h \<le> j \<and> j \<le> hi div span h)"
  shows "same_on (kid m L h b j) m m2"
proof (rule same_on_trans)
  note L = node_cutD(1) [OF nc] and ok = node_cutD(2) [OF nc] and kids = node_cutD(5) [OF nc] and fr = node_cutD(6) [OF nc]
  note Z = node_cutD(7) [OF nc] and fr2 = node_cutD(9) [OF nc]
  note T512 = node_cut_ptr(1) [OF nc] and ptr = node_cut_ptr(2) [OF nc]
  show "same_on (kid m L h b j) m m1"
  proof (rule same_on_mono [OF fr], rule subsetI, rule ComplI)
    fix x
    assume x: "x \<in> kid m L h b j" "x \<in> (\<Union>j \<in> {lo div span h..hi div span h}. kid m L h b j)"
    then obtain i where "i \<in> {lo div span h..hi div span h}" "x \<in> kid m L h b i" by blast
    with x(1) j T512 kids_disjoint(1) [OF ok, of i j] show False by auto
  qed
  show "same_on (kid m L h b j) m1 m2"
    using kids_disjoint(2) [OF ok j(1)] by (intro same_on_mono [OF fr2]) auto
qed

lemma node_cut_inside:
  assumes nc: "node_cut m m1 m2 L h b lo hi E Z"
    and j: "lo div span h \<le> j" "j \<le> hi div span h" "node_ptr m b j \<noteq> 0"
  shows "cut m L h (node_ptr m b j) (child_first h lo j) (child_last h hi j) (j \<in> E) m2"
    "keep m2 L h (node_ptr m b j) (j \<in> E) = keep m1 L h (node_ptr m b j) (j \<in> E)"
proof -
  note L = node_cutD(1) [OF nc] and ok = node_cutD(2) [OF nc] and kids = node_cutD(5) [OF nc] and fr = node_cutD(6) [OF nc]
  note Z = node_cutD(7) [OF nc] and fr2 = node_cutD(9) [OF nc]
  note T512 = node_cut_ptr(1) [OF nc] and ptr = node_cut_ptr(2) [OF nc]
  have "pblk b \<notin> foot m L h (node_ptr m b j)"
    using kids_disjoint(2) [OF ok, of j] j T512 by (simp add: kid_def)
  then have "same_on (foot m L h (node_ptr m b j)) m1 m2" by (intro same_on_mono [OF fr2]) auto
  from cut_post [OF L kids [OF j] this]
  show "cut m L h (node_ptr m b j) (child_first h lo j) (child_last h hi j) (j \<in> E) m2"
    "keep m2 L h (node_ptr m b j) (j \<in> E) = keep m1 L h (node_ptr m b j) (j \<in> E)" .
qed

lemma node_cut_kid:
  assumes nc: "node_cut m m1 m2 L h b lo hi E Z"
  shows "j < 512 \<Longrightarrow> kid m2 L h b j = kept m m1 L h b lo hi E j"
  "j < 512 \<Longrightarrow> node_ptr m2 b j \<noteq> 0 \<Longrightarrow> tree_ok m2 L h (node_ptr m2 b j)"
proof -
  assume j: "j < 512"
  note L = node_cutD(1) [OF nc] and ok = node_cutD(2) [OF nc] and kids = node_cutD(5) [OF nc] and fr = node_cutD(6) [OF nc]
  note Z = node_cutD(7) [OF nc] and fr2 = node_cutD(9) [OF nc]
  note T512 = node_cut_ptr(1) [OF nc] and ptr = node_cut_ptr(2) [OF nc]
  note outside = node_cut_outside [OF nc] and inside = node_cut_inside [OF nc]
  have *: "kid m2 L h b j = kept m m1 L h b lo hi E j \<and> (node_ptr m2 b j \<noteq> 0 \<longrightarrow> tree_ok m2 L h (node_ptr m2 b j))"
  proof (cases "lo div span h \<le> j \<and> j \<le> hi div span h \<and> node_ptr m b j \<noteq> 0")
    case True
    then show ?thesis
      using inside [of j] Z [of j] ptr [OF j] unfolding kid_def kept_def by (cases "j \<in> E") (auto simp: cut_def keep_def)
  next
    case False
    show ?thesis
    proof (cases "node_ptr m b j = 0")
      case True
      then show ?thesis using ptr [OF j] by (simp add: kid_def kept_def)
    next
      case nz: False
      with False have o: "\<not> (lo div span h \<le> j \<and> j \<le> hi div span h)" by blast
      have p: "node_ptr m2 b j = node_ptr m b j" using o Z [of j] ptr [OF j] by auto
      from kid_frame(1,2) [OF L ok j p outside [OF j o]] nz o show ?thesis by (auto simp: kept_def)
    qed
  qed
  then show "kid m2 L h b j = kept m m1 L h b lo hi E j" by blast
  show "tree_ok m2 L h (node_ptr m2 b j)" if "node_ptr m2 b j \<noteq> 0" using * that by blast
qed

lemma node_cut_kept:
  assumes nc: "node_cut m m1 m2 L h b lo hi E Z"
  shows "j < 512 \<Longrightarrow> kept m m1 L h b lo hi E j \<subseteq> kid m L h b j"
  using node_cutD(5) [OF nc, of j] by (cases "j \<in> E") (auto simp: kept_def keep_def kid_def cut_def)

lemma node_cut_tree_ok:
  assumes nc: "node_cut m m1 m2 L h b lo hi E Z"
  shows "tree_ok m2 L (Suc h) b"
proof (rule tree_okI)
  note L = node_cutD(1) [OF nc] and ok = node_cutD(2) [OF nc] and kids = node_cutD(5) [OF nc] and fr = node_cutD(6) [OF nc]
  note Z = node_cutD(7) [OF nc] and fr2 = node_cutD(9) [OF nc]
  note T512 = node_cut_ptr(1) [OF nc] and ptr = node_cut_ptr(2) [OF nc]
  note kid2 = node_cut_kid [OF nc] and kept_sub = node_cut_kept [OF nc]
  show "b \<noteq> 0" "paligned b" using ok by simp_all
  show "tree_ok m2 L h (node_ptr m2 b j)" if "j < 512" "node_ptr m2 b j \<noteq> 0" for j by (rule kid2(2) [OF that])
  show "pblk b \<notin> kid m2 L h b j" if "j < 512" for j
    using kid2(1) [OF that] kept_sub [OF that] kids_disjoint(2) [OF ok that] by blast
  show "kid m2 L h b i \<inter> kid m2 L h b j = {}" if "i < 512" "j < 512" "i \<noteq> j" for i j
    using kid2(1) that kept_sub kids_disjoint(1) [OF ok that] by blast
qed

lemma node_cut_foot:
  assumes nc: "node_cut m m1 m2 L h b lo hi E Z"
  shows "foot m2 L (Suc h) b = foot m L (Suc h) b - (\<Union>j \<in> {lo div span h..hi div span h}. kid m L h b j - kept m m1 L h b lo hi E j)"
proof -
  note L = node_cutD(1) [OF nc] and ok = node_cutD(2) [OF nc] and kids = node_cutD(5) [OF nc] and fr = node_cutD(6) [OF nc]
  note Z = node_cutD(7) [OF nc] and fr2 = node_cutD(9) [OF nc]
  note T512 = node_cut_ptr(1) [OF nc] and ptr = node_cut_ptr(2) [OF nc]
  note kid2 = node_cut_kid [OF nc] and kept_sub = node_cut_kept [OF nc]
  have "foot m2 L (Suc h) b = insert (pblk b) (\<Union>j<512. kept m m1 L h b lo hi E j)" using kid2(1) by (auto simp: foot_kids)
  also have "\<dots> = insert (pblk b) (\<Union>j<512. kid m L h b j) - (\<Union>j \<in> {lo div span h..hi div span h}. kid m L h b j - kept m m1 L h b lo hi E j)"
  proof (intro equalityI subsetI)
    fix x
    assume x: "x \<in> insert (pblk b) (\<Union>j<512. kept m m1 L h b lo hi E j)"
    have "x \<notin> kid m L h b j - kept m m1 L h b lo hi E j" if "j \<in> {lo div span h..hi div span h}" for j
    proof
      assume k: "x \<in> kid m L h b j - kept m m1 L h b lo hi E j"
      have j: "j < 512" using that T512 by simp
      with k kids_disjoint(2) [OF ok j] x obtain i where "i < 512" "x \<in> kept m m1 L h b lo hi E i" by auto
      with k j kept_sub [of i] kids_disjoint(1) [OF ok, of i j] show False by (cases "i = j") auto
    qed
    with x kept_sub show "x \<in> insert (pblk b) (\<Union>j<512. kid m L h b j) - (\<Union>j \<in> {lo div span h..hi div span h}. kid m L h b j - kept m m1 L h b lo hi E j)"
      by blast
  next
    fix x
    assume x: "x \<in> insert (pblk b) (\<Union>j<512. kid m L h b j) - (\<Union>j \<in> {lo div span h..hi div span h}. kid m L h b j - kept m m1 L h b lo hi E j)"
    show "x \<in> insert (pblk b) (\<Union>j<512. kept m m1 L h b lo hi E j)"
    proof (cases "x = pblk b")
      case False
      with x obtain j where j: "j < 512" "x \<in> kid m L h b j" by blast
      with x have "x \<in> kept m m1 L h b lo hi E j" by (cases "j \<in> {lo div span h..hi div span h}") (auto simp: kept_def kid_def split: if_splits)
      with j show ?thesis by blast
    qed simp
  qed
  finally show ?thesis by (simp add: foot_kids)
qed

lemma node_cut_find:
  assumes nc: "node_cut m m1 m2 L h b lo hi E Z"
    and k: "k < span (Suc h)"
  shows "find_loop m2 (Suc h) b k = (if lo \<le> k \<and> k \<le> hi then 0 else find_loop m (Suc h) b k)"
proof -
  note L = node_cutD(1) [OF nc] and ok = node_cutD(2) [OF nc] and kids = node_cutD(5) [OF nc] and fr = node_cutD(6) [OF nc]
  note Z = node_cutD(7) [OF nc] and fr2 = node_cutD(9) [OF nc]
  note T512 = node_cut_ptr(1) [OF nc] and ptr = node_cut_ptr(2) [OF nc]
  note outside = node_cut_outside [OF nc] and inside = node_cut_inside [OF nc]
  let ?j = "k div span h" and ?x = "k mod span h"
  have j: "?j < 512" by (rule child_index [OF k])
  have x: "?x < span h" by simp
  show ?thesis
  proof (cases "lo div span h \<le> ?j \<and> ?j \<le> hi div span h")
    case False
    then have "\<not> (lo \<le> k \<and> k \<le> hi)" using div_le_mono [of lo k "span h"] div_le_mono [of k hi "span h"] by auto
    moreover have "node_ptr m2 b ?j = node_ptr m b ?j" using False Z [of ?j] ptr [OF j] by auto
    ultimately show ?thesis using kid_frame(3) [OF L ok j _ outside [OF j False] k] by auto
  next
    case True
    note cr = child_range [of k h ?j lo hi, OF refl] True
    show ?thesis
    proof (cases "node_ptr m b ?j = 0")
      case z: True
      then show ?thesis using ptr [OF j] by (simp add: find_Suc)
    next
      case nz: False
      note c = inside(1) [of ?j] True nz
      show ?thesis
      proof (cases "?j \<in> E")
        case e: True
        then have "node_ptr m2 b ?j = 0" using ptr [OF j] Z [of ?j] True by auto
        moreover have "find_loop m h (node_ptr m b ?j) ?x = 0" if "\<not> (lo \<le> k \<and> k \<le> hi)"
        proof -
          have "mapped m h (node_ptr m b ?j) \<subseteq> {child_first h lo ?j..child_last h hi ?j}" using c e by (simp add: cut_def)
          moreover have "?x \<notin> {child_first h lo ?j..child_last h hi ?j}" using cr that by auto
          ultimately have "?x \<notin> mapped m h (node_ptr m b ?j)" by blast
          then show ?thesis using x by (simp add: mapped_def)
        qed
        ultimately show ?thesis using nz by (simp add: find_Suc)
      next
        case e: False
        then have "node_ptr m2 b ?j = node_ptr m b ?j" using ptr [OF j] Z [of ?j] nz by auto
        moreover have "find_loop m2 h (node_ptr m b ?j) ?x =
            (if child_first h lo ?j \<le> ?x \<and> ?x \<le> child_last h hi ?j then 0 else find_loop m h (node_ptr m b ?j) ?x)"
          using c e x by (simp add: cut_def)
        ultimately show ?thesis using nz cr by (simp add: find_Suc)
      qed
    qed
  qed
qed

lemma node_cut_lean:
  assumes nc: "node_cut m m1 m2 L h b lo hi E Z"
    and ln: "lean m (Suc h) b"
  shows "lean m2 (Suc h) b" "j < 512 \<Longrightarrow> j \<notin> Z \<Longrightarrow> node_ptr m b j \<noteq> 0 \<Longrightarrow> mapped m2 (Suc h) b \<noteq> {}"
proof -
  note L = node_cutD(1) [OF nc] and ok = node_cutD(2) [OF nc] and kids = node_cutD(5) [OF nc] and fr = node_cutD(6) [OF nc]
  note Z = node_cutD(7) [OF nc] and fr2 = node_cutD(9) [OF nc]
  note T512 = node_cut_ptr(1) [OF nc] and ptr = node_cut_ptr(2) [OF nc]
  note outside = node_cut_outside [OF nc] and inside = node_cut_inside [OF nc]
  have k: "lean m2 h (node_ptr m b j) \<and> mapped m2 h (node_ptr m b j) \<noteq> {}"
    if j: "j < 512" "j \<notin> Z" "node_ptr m b j \<noteq> 0" for j
  proof (cases "lo div span h \<le> j \<and> j \<le> hi div span h")
    case True
    with j Z [of j] inside(1) [of j] ln show ?thesis by (auto simp: cut_def)
  next
    case False
    note o = outside [OF j(1) False, unfolded kid_def] and t = tree_ok_kid [OF ok j(1,3)]
    have s: "same_on (foot m L h (node_ptr m b j)) m m2" using o j(3) by simp
    show ?thesis using lean_frame [OF L t s] mapped_frame [OF L t s] ln j by simp
  qed
  then show "lean m2 (Suc h) b" using ptr by auto
  show "mapped m2 (Suc h) b \<noteq> {}" if j: "j < 512" "j \<notin> Z" "node_ptr m b j \<noteq> 0"
  proof -
    from k [OF j] obtain x where x: "x \<in> mapped m2 h (node_ptr m b j)" by blast
    then have xs: "x < span h" by (simp add: mapped_def)
    have "x \<in> kid_mapped m2 h b j" using x ptr [OF j(1)] j(2,3) by (simp add: kid_mapped_def)
    with mapped_child_iff [OF xs j(1), of m2 b] show ?thesis by blast
  qed
qed

end
