(* ===== verification/Pmfs_Btree_Eval.thy ===== *)
theory Pmfs_Btree_Eval
  imports Pmfs_Btree_Wf
begin

unbundle bit_operations_syntax

text \<open>
  Evaluation of the tree operations on concrete states by rewriting: reading a pointer through stores and
  cleared ranges, loops with a numeral as their count, and the definitions to unfold.
\<close>

lemma node_ptr_put_eval:
  "a = node_at b j \<Longrightarrow> node_ptr (nput a (le64 v) m) b j = v"
  "a + 8 \<le> node_at b j \<or> node_at b j + 8 \<le> a \<Longrightarrow> node_ptr (nput a (le64 v) m) b j = node_ptr m b j"
  "node_at b' i + 8 \<le> node_at b j \<or> node_at b j + 8 \<le> node_at b' i \<Longrightarrow>
     node_ptr (nput (node_at b' i) (le64 v) m) b j = node_ptr m b j"
proof -
  show "node_ptr (nput a (le64 v) m) b j = v" if "a = node_at b j"
    using node_ptr_put [of b j v m j] that by simp
  show o: "node_ptr (nput a (le64 v) m) b j = node_ptr m b j" if "a + 8 \<le> node_at b j \<or> node_at b j + 8 \<le> a" for a
    using that unfolding node_ptr_def by (intro get64_cong) (auto simp: nput_def)
  show "node_ptr (nput (node_at b' i) (le64 v) m) b j = node_ptr m b j"
    if "node_at b' i + 8 \<le> node_at b j \<or> node_at b j + 8 \<le> node_at b' i" by (rule o [OF that])
qed

lemma node_ptr_memset_eval:
  "off \<le> node_at b j \<Longrightarrow> node_at b j + 8 \<le> off + n \<Longrightarrow> node_ptr (memset_nt_zero off n m) b j = 0"
  "node_at b j + 8 \<le> off \<or> off + n \<le> node_at b j \<Longrightarrow> node_ptr (memset_nt_zero off n m) b j = node_ptr m b j"
proof -
  show "node_ptr (memset_nt_zero off n m) b j = 0" if "off \<le> node_at b j" "node_at b j + 8 \<le> off + n"
    using that unfolding node_ptr_def by (intro get64_zero) (auto simp: memset_nt_zero_def)
  show "node_ptr (memset_nt_zero off n m) b j = node_ptr m b j" if "node_at b j + 8 \<le> off \<or> off + n \<le> node_at b j"
    using that unfolding node_ptr_def by (intro get64_cong) (auto simp: memset_nt_zero_def)
qed

lemma levels_eval:
  "levels (numeral k) = Suc (levels (numeral k div 512))" "levels 0 = 0" "levels (Suc 0) = 1"
  by (simp_all add: levels.simps [of "numeral k"] levels.simps [of 0] levels.simps [of "Suc 0"] META_BLK_SHIFT_def)

lemma span_eval: "span (Suc 0) = 512" "span 1 = 512" "span 2 = 262144" "span 3 = 134217728" by (simp_all add: span_def META_BLK_SHIFT_def)

lemma recursive_alloc_Suc: "recursive_alloc_blocks txn zero (Suc h) b lo hi nn st = (case
     (if h = 0 then
              (case alloc_leaf txn zero b (hi div span h) (child_count h lo hi) (lo div span h) nn False st of
                 (e, st1) \<Rightarrow> (e, nn, st1))
            else alloc_inner txn h (recursive_alloc_blocks txn zero h) b lo hi
                   (child_count h lo hi) (lo div span h) nn False st) of (errval, new_node', st1) \<Rightarrow>
      if errval \<noteq> 0 then (errval, st1)
        else if new_node' \<or> \<not> txn then
          (0, act (Flush_buffer (node_at b (lo div span h)) ((hi div span h + 1 - lo div span h) * 8)) st1)
        else (0, st1))"
  by (simp add: Let_def)
lemma rec_eval:
  "recursive_alloc_blocks txn zero (numeral k) b = recursive_alloc_blocks txn zero (Suc (pred_numeral k)) b"
  "alloc_leaf txn zero b l (numeral k) = alloc_leaf txn zero b l (Suc (pred_numeral k))"
  "alloc_inner txn h rec b lo hi (numeral k) = alloc_inner txn h rec b lo hi (Suc (pred_numeral k))"
  "find_loop m (numeral k) = find_loop m (Suc (pred_numeral k))"
  "increase_loop (numeral k) = increase_loop (Suc (pred_numeral k))"
  by (simp_all only: numeral_eq_Suc)

lemmas alloc_eval = recursive_alloc_Suc rec_eval pmfs_alloc_blocks_def pmfs_alloc_blocks1_def alloc_height_def Let_def blk_type_to_shift_def levels_eval span_eval
  pmfs_increase_btree_height_def tree_new_block_def pmfs_new_block_def pmfs_get_numblocks_def PMFS_BLOCK_TYPE_4K_def
  align_behind_def place_in_gap_def next_kmem_def act_def set_node_def upd_mem_def upd_pi_def child_count_def child_first_def child_last_def pmfs_get_block_off_def
  node_ptr_put_eval node_ptr_memset_eval node_at_def zero_size_def pmfs_new_data_block_def log_node_def

end
