(* ===== verification/Pmfs_Btree_Trunc.thy ===== *)
theory Pmfs_Btree_Trunc
  imports Pmfs_Btree_Cut Pmfs_Btree_Eval
begin

unbundle bit_operations_syntax

text \<open>
  \<^verbatim>\<open>recursive_truncate_blocks\<close> never faults on a well-formed tree, removes exactly the blocks of the range, and
  frees exactly the pages that the tree loses, as long as memory for allocator nodes is available.
\<close>

section \<open>Freeing pages\<close>

definition kmem_ok :: "tree_st \<Rightarrow> bool" where "kmem_ok st \<longleftrightarrow> (\<forall>n. st_kmem st n)"

definition released :: "nat set \<Rightarrow> tree_st \<Rightarrow> tree_st \<Rightarrow> bool" where
  "released X st st' \<longleftrightarrow>
     alloc_ok st' \<and> st_pi st' = st_pi st \<and> st_vi st' = st_vi st \<and> st_used st' \<subseteq> st_used st \<and>
     st_used st - st_used st' \<subseteq> X \<and> (kmem_ok st \<longrightarrow> kmem_ok st' \<and> st_used st' = st_used st - X)"

lemma released_refl: "alloc_ok st \<Longrightarrow> released {} st st" by (simp add: released_def)

lemma released_trans: "released X st st1 \<Longrightarrow> released Y st1 st2 \<Longrightarrow> released (X \<union> Y) st st2"
  unfolding released_def by auto

lemma released_cong:
  assumes "released X st st1" "st_used st2 = st_used st1" "balloc_inv (st_sbi st2)" "st_pi st2 = st_pi st1"
    "st_vi st2 = st_vi st1" "st_kmem st2 = st_kmem st1"
  shows "released X st st2"
  using assms by (auto simp: released_def alloc_ok_def kmem_ok_def)

lemma zero_notin_foot: "tree_ok m L h b \<Longrightarrow> 0 \<notin> foot m L h b"
proof (induction h arbitrary: b)
  case 0
  then have "pblk b \<noteq> 0" by (auto simp: pblk_def paligned_def unat_eq_0 div_eq_0_iff)
  then show ?case by simp
next
  case (Suc h)
  then have "pblk b \<noteq> 0" by (auto simp: pblk_def paligned_def unat_eq_0 div_eq_0_iff)
  with Suc show ?case by (auto simp: foot_iff)
qed

lemma free_locked_released:
  assumes a: "alloc_ok st" and h: "hint_ok (st_sbi st) hint"
    and x: "{pblk p..<pblk p + unat (pmfs_get_numblocks btype)} \<subseteq> st_used st" and z: "pblk p \<noteq> 0"
  obtains hint' st' where "tree_free_locked (pmfs_get_blocknr p) btype hint st = Inr (hint', st')"
    "released {pblk p..<pblk p + unat (pmfs_get_numblocks btype)} st st'" "st_mem st' = st_mem st"
    "hint_ok (st_sbi st') hint'"
proof -
  have inv: "balloc_inv (st_sbi st)" and z0: "0 \<in> st_used st" using a by (simp_all add: alloc_ok_def)
  have ne: "block_inuse_head (st_sbi st) \<noteq> []" using z0 by auto
  have lim: "unat (pmfs_get_blocknr p) < 2 ^ 52" using pblk_bound by (simp add: unat_blocknr)
  let ?X = "{pblk p..<pblk p + unat (pmfs_get_numblocks btype)}"
  note spec = pmfs_free_block_locked_ok [OF inv h ne lim, of "st_kmem st 0" btype, unfolded unat_blocknr]
  from spec obtain ok sbi' hint' where f: "pmfs_free_block_locked (st_kmem st 0) (pmfs_get_blocknr p) btype hint (st_sbi st) = Inr (ok, sbi', hint')"
    "balloc_inv sbi'" "hint_ok sbi' hint'" "nvmm sbi' = nvmm (st_sbi st)"
    and g: "if ?X \<subseteq> st_used st
      then ok \<and> (used sbi' = st_used st - ?X \<and>
                  unat (num_free_blocks sbi') = unat (num_free_blocks (st_sbi st)) + unat (pmfs_get_numblocks btype) \<or>
                  \<not> st_kmem st 0 \<and> sbi' = st_sbi st)
      else \<not> ok \<and> sbi' = st_sbi st"
    by (elim exE conjE) (rule that)
  from g [unfolded if_P [OF x]] have f5: "used sbi' = st_used st - ?X \<or> \<not> st_kmem st 0 \<and> sbi' = st_sbi st"
    by (elim conjE disjE) simp_all
  let ?st = "next_kmem sbi' st"
  have "0 \<notin> ?X" using z by simp
  then have "0 \<in> used sbi'" using f5 z0 by (elim disjE conjE) simp_all
  then have "released ?X st ?st"
    using f(2) f5 unfolding released_def alloc_ok_def
    by (elim disjE conjE) (simp_all add: next_kmem_def kmem_ok_def Diff_Diff_Int, metis)
  moreover have "tree_free_locked (pmfs_get_blocknr p) btype hint st = Inr (hint', ?st)"
    using f(1) by (simp add: tree_free_locked_def)
  ultimately show thesis using that [of hint' ?st] f(3,4) by (simp add: next_kmem_def)
qed

lemma free_block_released:
  assumes "alloc_ok st" "{pblk p..<pblk p + unat (pmfs_get_numblocks btype)} \<subseteq> st_used st" "pblk p \<noteq> 0"
  obtains st' where "tree_free_block (pmfs_get_blocknr p) btype st = Inr st'"
    "released {pblk p..<pblk p + unat (pmfs_get_numblocks btype)} st st'" "st_mem st' = st_mem st"
proof -
  have "hint_ok (st_sbi st) None" by (simp add: hint_ok_def)
  from free_locked_released [OF assms(1) this assms(2,3)] obtain hint' st' where
    f: "tree_free_locked (pmfs_get_blocknr p) btype None st = Inr (hint', st')"
    "released {pblk p..<pblk p + unat (pmfs_get_numblocks btype)} st st'" "st_mem st' = st_mem st" by metis
  then have "tree_free_block (pmfs_get_blocknr p) btype st = Inr st'"
    by (auto simp: tree_free_locked_def tree_free_block_def pmfs_free_block_def split: sum.splits prod.splits)
  then show thesis using that f by blast
qed

lemma free_meta_released:
  assumes "alloc_ok st" "pblk p \<in> st_used st" "pblk p \<noteq> 0"
  obtains st' where "tree_free_block (pmfs_get_blocknr p) PMFS_BLOCK_TYPE_4K st = Inr st'"
    "released {pblk p} st st'" "st_mem st' = st_mem st"
proof -
  have one: "unat (pmfs_get_numblocks PMFS_BLOCK_TYPE_4K) = 1" by (simp add: pmfs_get_numblocks_def)
  have "{pblk p..<pblk p + 1} = {pblk p}" by auto
  with free_block_released [OF assms(1) _ assms(3), of PMFS_BLOCK_TYPE_4K, unfolded one] assms(2) that
  show thesis by auto
qed

section \<open>Data blocks\<close>

lemma kids_union_disjoint:
  assumes "tree_ok m L (Suc h) b" "A \<subseteq> {..<512}" "i < 512" "i \<notin> A"
  shows "(\<Union>j \<in> A. kid m L h b j) \<inter> kid m L h b i = {}"
proof -
  have "kid m L h b j \<inter> kid m L h b i = {}" if "j \<in> A" for j
    using that assms(2-4) by (intro kids_disjoint(1) [OF assms(1)]) auto
  then show ?thesis by blast
qed

lemma trunc_leaf_ok:
  "\<lbrakk>alloc_ok st; hint_ok (st_sbi st) hint; blk_pages (st_pi st) = unat (pmfs_get_numblocks btype);
      tree_ok (st_mem st) (blk_pages (st_pi st)) (Suc 0) b; i + n \<le> 512;
      (\<Union>j \<in> {i..<i + n}. kid (st_mem st) (blk_pages (st_pi st)) 0 b j) \<subseteq> st_used st\<rbrakk> \<Longrightarrow>
    \<exists>st'. trunc_leaf btype b n i hint freed st =
        Inr (freed + card {j \<in> {i..<i + n}. node_ptr (st_mem st) b j \<noteq> 0}, st') \<and>
      released (\<Union>j \<in> {i..<i + n}. kid (st_mem st) (blk_pages (st_pi st)) 0 b j) st st' \<and> st_mem st' = st_mem st"
proof (induction n arbitrary: i hint freed st)
  case 0
  then show ?case by (simp add: released_refl)
next
  case (Suc n)
  let ?m = "st_mem st" and ?L = "blk_pages (st_pi st)"
  have dom: "{i..<i + Suc n} = insert i {Suc i..<Suc i + n}" by auto
  have i: "i < 512" "Suc i + n \<le> 512" using Suc.prems(5) by simp_all
  show ?case
  proof (cases "node_ptr ?m b i = 0")
    case True
    have "{j \<in> {i..<i + Suc n}. node_ptr ?m b j \<noteq> 0} = {j \<in> {Suc i..<Suc i + n}. node_ptr ?m b j \<noteq> 0}"
      "kid ?m ?L 0 b i = {}"
      unfolding dom using True by (auto simp: kid_def)
    with Suc.IH [OF Suc.prems(1-4) i(2), of freed] Suc.prems(6) True show ?thesis unfolding dom by simp
  next
    case False
    let ?p = "node_ptr ?m b i"
    have kid: "kid ?m ?L 0 b i = {pblk ?p..<pblk ?p + unat (pmfs_get_numblocks btype)}"
      using False Suc.prems(3) by (simp add: kid_def)
    have "tree_ok ?m ?L 0 ?p" using tree_ok_kid [OF Suc.prems(4) i(1) False] .
    then have z: "pblk ?p \<noteq> 0" using zero_notin_foot [of ?m ?L 0 ?p] by auto
    have x: "{pblk ?p..<pblk ?p + unat (pmfs_get_numblocks btype)} \<subseteq> st_used st"
      using Suc.prems(6) kid unfolding dom by blast
    obtain hint' st1 where f: "tree_free_locked (pmfs_get_blocknr ?p) btype hint st = Inr (hint', st1)"
      "released (kid ?m ?L 0 b i) st st1" "st_mem st1 = ?m" "hint_ok (st_sbi st1) hint'"
      unfolding kid by (rule free_locked_released [OF Suc.prems(1,2) x z])
    have s1: "alloc_ok st1" "st_pi st1 = st_pi st" using f(2) by (simp_all add: released_def)
    have "(\<Union>j \<in> {Suc i..<Suc i + n}. kid ?m ?L 0 b j) \<inter> kid ?m ?L 0 b i = {}"
      using i by (intro kids_union_disjoint [OF Suc.prems(4)]) auto
    then have u: "(\<Union>j \<in> {Suc i..<Suc i + n}. kid ?m ?L 0 b j) \<subseteq> st_used st1"
      using f(2) Suc.prems(6) unfolding dom released_def by blast
    from Suc.IH [of st1 hint' "Suc i" "Suc freed"] s1 f(3,4) Suc.prems(3,4) i(2) u obtain st' where
      r: "trunc_leaf btype b n (Suc i) hint' (Suc freed) st1 =
          Inr (Suc freed + card {j \<in> {Suc i..<Suc i + n}. node_ptr ?m b j \<noteq> 0}, st')"
        "released (\<Union>j \<in> {Suc i..<Suc i + n}. kid ?m ?L 0 b j) st1 st'" "st_mem st' = ?m" by auto
    have "{j \<in> {i..<i + Suc n}. node_ptr ?m b j \<noteq> 0} = insert i {j \<in> {Suc i..<Suc i + n}. node_ptr ?m b j \<noteq> 0}"
      unfolding dom using False by auto
    then have c: "card {j \<in> {i..<i + Suc n}. node_ptr ?m b j \<noteq> 0} = Suc (card {j \<in> {Suc i..<Suc i + n}. node_ptr ?m b j \<noteq> 0})"
      by simp
    have "trunc_leaf btype b (Suc n) i hint freed st =
        Inr (freed + card {j \<in> {i..<i + Suc n}. node_ptr ?m b j \<noteq> 0}, st')"
      using False f(1) r(1) unfolding c by simp
    moreover have "released (\<Union>j \<in> {i..<i + Suc n}. kid ?m ?L 0 b j) st st'"
      using released_trans [OF f(2) r(2)] unfolding dom by simp
    ultimately show ?thesis using r(3) by blast
  qed
qed

section \<open>Meta blocks\<close>

definition trunc_post :: "nat \<Rightarrow> u64 \<Rightarrow> nat \<Rightarrow> nat \<Rightarrow> nat \<Rightarrow> bool \<Rightarrow> tree_st \<Rightarrow> tree_st \<Rightarrow> bool" where
  "trunc_post h c lo hi freed e st st' \<longleftrightarrow>
     released (st_foot st h c - (if e then {pblk c} else st_foot st' h c)) st st' \<and>
     cut (st_mem st) (blk_pages (st_pi st)) h c lo hi e (st_mem st') \<and>
     same_on (- st_foot st h c) (st_mem st) (st_mem st') \<and>
     freed = card (mapped (st_mem st) h c \<inter> {lo..hi}) \<and>
     (lo = 0 \<and> hi = span h - 1 \<longrightarrow> e)"

text \<open>The blocks of the range below the children from \<open>i\<close> on.\<close>

definition todo :: "mem \<Rightarrow> nat \<Rightarrow> u64 \<Rightarrow> nat \<Rightarrow> nat \<Rightarrow> nat \<Rightarrow> nat set" where
  "todo m h b lo hi i = {k \<in> mapped m (Suc h) b. lo \<le> k \<and> k \<le> hi \<and> i \<le> k div span h}"

lemma todo_step:
  assumes "lo div span h \<le> i" "i \<le> hi div span h" "i < 512"
  shows "card (todo m h b lo hi i) =
    card (kid_mapped m h b i \<inter> {child_first h lo i..child_last h hi i}) + card (todo m h b lo hi (Suc i))"
proof -
  let ?K = "kid_mapped m h b i \<inter> {child_first h lo i..child_last h hi i}"
  have "todo m h b lo hi i = below h i ?K \<union> todo m h b lo hi (Suc i)"
  proof (intro equalityI subsetI)
    fix k
    assume k: "k \<in> todo m h b lo hi i"
    show "k \<in> below h i ?K \<union> todo m h b lo hi (Suc i)"
    proof (cases "k div span h = i")
      case True
      have e: "k = i * span h + k mod span h" using True div_mult_mod_eq [of k "span h"] by simp
      have "k mod span h \<in> kid_mapped m h b i"
        using mapped_child_iff [of "k mod span h" h i m b] e assms(3) k by (simp add: todo_def)
      moreover have "k mod span h \<in> {child_first h lo i..child_last h hi i}"
        using child_range [OF True assms(1,2)] k by (simp add: todo_def)
      ultimately show ?thesis using below_in [OF True, of ?K] by blast
    qed (use k in \<open>auto simp: todo_def\<close>)
  next
    fix k
    assume "k \<in> below h i ?K \<union> todo m h b lo hi (Suc i)"
    then show "k \<in> todo m h b lo hi i"
    proof
      assume "k \<in> below h i ?K"
      then obtain x where x: "k = i * span h + x" "x \<in> ?K" by (rule imageE)
      then have xs: "x < span h" using child_bounds [of h hi i] by simp
      have d: "k div span h = i" "k mod span h = x" using xs x(1) by simp_all
      show ?thesis
        using mapped_child_iff [OF xs assms(3), of m b] child_range [OF d(1) assms(1,2)] x d by (simp add: todo_def)
    qed (auto simp: todo_def)
  qed
  moreover have "below h i ?K \<inter> todo m h b lo hi (Suc i) = {}"
    using child_bounds [of h hi i] by (auto simp: todo_def)
  moreover have "finite (todo m h b lo hi (Suc i))"
    by (rule finite_subset [of _ "{..hi}"]) (auto simp: todo_def)
  moreover have "card (below h i ?K) = card ?K" by (intro card_image inj_onI) simp
  ultimately show ?thesis by (simp add: card_Un_disjoint)
qed

lemma todo_cong:
  assumes "\<And>k. k < span (Suc h) \<Longrightarrow> i \<le> k div span h \<Longrightarrow> find_loop m' (Suc h) b k = find_loop m (Suc h) b k"
  shows "todo m' h b lo hi i = todo m h b lo hi i"
  using assms by (auto simp: todo_def mapped_def)

definition kept_at :: "mem \<Rightarrow> mem \<Rightarrow> nat \<Rightarrow> nat \<Rightarrow> u64 \<Rightarrow> nat set \<Rightarrow> nat \<Rightarrow> nat set" where
  "kept_at m m1 L h b E j = (if node_ptr m b j = 0 then {} else keep m1 L h (node_ptr m b j) (j \<in> E))"

lemma kept_at_UNIV [simp]: "kept_at m m1 L h b UNIV j = {}" by (simp add: kept_at_def keep_def)

text \<open>
  What the loop from index \<open>i\<close> on achieves, relative to the memory \<open>m\<close> before the loop; \<open>E\<close> are the children
  that became empty.
\<close>

definition inner_post ::
    "mem \<Rightarrow> nat \<Rightarrow> nat \<Rightarrow> u64 \<Rightarrow> nat \<Rightarrow> nat \<Rightarrow> nat \<Rightarrow> nat set \<Rightarrow> trunc_acc \<Rightarrow> trunc_acc \<Rightarrow> tree_st \<Rightarrow> tree_st \<Rightarrow> bool" where
  "inner_post m L h b lo hi i E a a' st st' \<longleftrightarrow>
     (\<forall>j. i \<le> j \<longrightarrow> j \<le> hi div span h \<longrightarrow> node_ptr m b j \<noteq> 0 \<longrightarrow>
         cut m L h (node_ptr m b j) (child_first h lo j) (child_last h hi j) (j \<in> E) (st_mem st') \<and>
         (child_first h lo j = 0 \<and> child_last h hi j = span h - 1 \<longrightarrow> j \<in> E)) \<and>
      same_on (- (\<Union>j \<in> {i..hi div span h}. kid m L h b j)) (st_mem st) (st_mem st') \<and>
      released (\<Union>j \<in> {i..hi div span h}. kid m L h b j - kept_at m (st_mem st') L h b E j) st st' \<and>
      ta_freed a' = ta_freed a + card (todo m h b lo hi i) \<and>
      (ta_all a' \<longleftrightarrow> ta_all a \<and> (\<forall>j. i \<le> j \<longrightarrow> j \<le> hi div span h \<longrightarrow> node_ptr m b j \<noteq> 0 \<longrightarrow> j \<in> E)) \<and>
      ta_start a' = ta_start a +
        (if i \<le> lo div span h \<and> node_ptr m b (lo div span h) \<noteq> 0 \<and> lo div span h \<notin> E then 1 else 0) \<and>
      ta_end a' = ta_end a -
        (if lo div span h < hi div span h \<and> i \<le> hi div span h \<and> node_ptr m b (hi div span h) \<noteq> 0 \<and>
            hi div span h \<notin> E then 1 else 0)"

lemma inner_cons:
  assumes L0: "0 < L" and ok: "tree_ok m L (Suc h) b" and i: "lo div span h \<le> i" "i \<le> hi div span h"
    and T: "hi div span h < 512"
    and fr: "same_on (- kid m L h b i) (st_mem st) (st_mem st1)"
    and c: "node_ptr m b i \<noteq> 0 \<Longrightarrow>
      cut m L h (node_ptr m b i) (child_first h lo i) (child_last h hi i) e (st_mem st1) \<and>
      (child_first h lo i = 0 \<and> child_last h hi i = span h - 1 \<longrightarrow> e)"
    and z: "node_ptr m b i = 0 \<Longrightarrow> e"
    and rel: "released (kid m L h b i - (if node_ptr m b i = 0 then {} else keep (st_mem st1) L h (node_ptr m b i) e)) st st1"
    and a1: "ta_freed a1 = ta_freed a + card (kid_mapped m h b i \<inter> {child_first h lo i..child_last h hi i})"
      "ta_all a1 = (ta_all a \<and> e)" "ta_start a1 = ta_start a + (if \<not> e \<and> i = lo div span h then 1 else 0)"
      "ta_end a1 = ta_end a - (if \<not> e \<and> i \<noteq> lo div span h \<and> i = hi div span h then 1 else 0)"
    and rest: "inner_post m L h b lo hi (Suc i) E a1 a' st1 st'"
  shows "inner_post m L h b lo hi i (E - {i} \<union> {x. x = i \<and> e}) a a' st st'"
proof -
  let ?F = "lo div span h" and ?T = "hi div span h" and ?E = "E - {i} \<union> {x. x = i \<and> e}" and ?m' = "st_mem st'"
  have i5: "i < 512" using i(2) T by simp
  have dom: "{i..?T} = insert i {Suc i..?T}" using i(2) by auto
  note r = rest [unfolded inner_post_def]
  have r1: "cut m L h (node_ptr m b j) (child_first h lo j) (child_last h hi j) (j \<in> E) ?m' \<and>
         (child_first h lo j = 0 \<and> child_last h hi j = span h - 1 \<longrightarrow> j \<in> E)"
    if "i < j" "j \<le> ?T" "node_ptr m b j \<noteq> 0" for j
    using conjunct1 [OF r] that by (auto simp: Suc_le_eq)
  have r2: "same_on (- (\<Union>j \<in> {Suc i..?T}. kid m L h b j)) (st_mem st1) ?m'" using r by (elim conjE)
  have dis: "(\<Union>j \<in> {Suc i..?T}. kid m L h b j) \<inter> kid m L h b i = {}"
    using T i5 by (intro kids_union_disjoint [OF ok]) auto
  have ci: "cut m L h (node_ptr m b i) (child_first h lo i) (child_last h hi i) e ?m' \<and>
      keep ?m' L h (node_ptr m b i) e = keep (st_mem st1) L h (node_ptr m b i) e" if nz: "node_ptr m b i \<noteq> 0"
  proof -
    have "same_on (foot m L h (node_ptr m b i)) (st_mem st1) ?m'"
      using dis nz by (intro same_on_mono [OF r2]) (auto simp: kid_def)
    from cut_post [OF L0 conjunct1 [OF c [OF nz]] this] show ?thesis by blast
  qed
  have A: "cut m L h (node_ptr m b j) (child_first h lo j) (child_last h hi j) (j \<in> ?E) ?m' \<and>
      (child_first h lo j = 0 \<and> child_last h hi j = span h - 1 \<longrightarrow> j \<in> ?E)"
    if "i \<le> j" "j \<le> ?T" "node_ptr m b j \<noteq> 0" for j
    using that ci c r1 [of j] by (cases "j = i") auto
  have B: "same_on (- (\<Union>j \<in> {i..?T}. kid m L h b j)) (st_mem st) ?m'"
    unfolding dom by (rule same_on_trans [OF same_on_mono [OF fr] same_on_mono [OF r2]]) auto
  have ka: "kid m L h b i - kept_at m ?m' L h b ?E i =
      kid m L h b i - (if node_ptr m b i = 0 then {} else keep (st_mem st1) L h (node_ptr m b i) e)"
    using ci by (simp add: kept_at_def)
  have kb: "kid m L h b j - kept_at m ?m' L h b ?E j = kid m L h b j - kept_at m ?m' L h b E j"
    if "j \<in> {Suc i..?T}" for j
    using that by (simp add: kept_at_def)
  have "released (\<Union>j \<in> {Suc i..?T}. kid m L h b j - kept_at m ?m' L h b E j) st1 st'" using r by blast
  with released_trans [OF rel] have C: "released (\<Union>j \<in> {i..?T}. kid m L h b j - kept_at m ?m' L h b ?E j) st st'"
    unfolding dom using ka kb by simp
  have D: "ta_freed a' = ta_freed a + card (todo m h b lo hi i)"
    using r a1(1) todo_step [OF i i5, of m b] by simp
  have q: "(\<forall>j. i \<le> j \<longrightarrow> j \<le> ?T \<longrightarrow> node_ptr m b j \<noteq> 0 \<longrightarrow> j \<in> ?E) \<longleftrightarrow>
      e \<and> (\<forall>j. Suc i \<le> j \<longrightarrow> j \<le> ?T \<longrightarrow> node_ptr m b j \<noteq> 0 \<longrightarrow> j \<in> E)"
    (is "?l \<longleftrightarrow> ?r")
  proof
    assume l: ?l
    have "j \<in> E" if "Suc i \<le> j" "j \<le> ?T" "node_ptr m b j \<noteq> 0" for j
      using l [rule_format, of j] that by auto
    moreover have e using l i(2) z by (cases "node_ptr m b i = 0") auto
    ultimately show ?r by blast
  next
    assume ?r
    then show ?l by (auto simp: Suc_le_eq dest: le_neq_implies_less)
  qed
  have E: "ta_all a' \<longleftrightarrow> ta_all a \<and> (\<forall>j. i \<le> j \<longrightarrow> j \<le> ?T \<longrightarrow> node_ptr m b j \<noteq> 0 \<longrightarrow> j \<in> ?E)"
    unfolding q using r a1(2) by blast
  have r6: "ta_start a' = ta_start a1" using r i(1) by simp
  have S: "ta_start a' = ta_start a + (if i \<le> ?F \<and> node_ptr m b ?F \<noteq> 0 \<and> ?F \<notin> ?E then 1 else 0)"
    unfolding r6 a1(3) using i(1) z by (cases "i = ?F") auto
  have r7: "ta_end a' = ta_end a1 - (if ?F < ?T \<and> Suc i \<le> ?T \<and> node_ptr m b ?T \<noteq> 0 \<and> ?T \<notin> E then 1 else 0)"
    using r by simp
  have G: "ta_end a' = ta_end a - (if ?F < ?T \<and> i \<le> ?T \<and> node_ptr m b ?T \<noteq> 0 \<and> ?T \<notin> ?E then 1 else 0)"
    unfolding r7 a1(4) using i z by (cases "i = ?T") auto
  show ?thesis
    unfolding inner_post_def using A by (intro conjI [OF _ conjI [OF B conjI [OF C conjI [OF D conjI [OF E conjI [OF S G]]]]]]) blast
qed

lemma child_range_order:
  assumes "lo \<le> hi" "lo div span h \<le> i" "i \<le> hi div span h"
  shows "child_first h lo i \<le> child_last h hi i"
proof (cases "lo div span h = hi div span h")
  case True
  then have "lo mod span h \<le> hi mod span h" using assms(1) by (metis add_le_cancel_left div_mult_mod_eq)
  with True assms show ?thesis by (auto simp: child_first_def child_last_def)
next
  case False
  have "lo mod span h \<le> span h - 1" using mod_less_divisor [OF span_pos, of lo h] by linarith
  with False show ?thesis by (simp add: child_first_def child_last_def)
qed

lemma trunc_inner_ok:
  assumes rec: "\<And>c x y st. \<lbrakk>ready h c st; blk_pages (st_pi st) = L; x \<le> y; y < span h\<rbrakk> \<Longrightarrow>
      \<exists>freed e st'. rec c x y st = Inr (freed, e, st') \<and> trunc_post h c x y freed e st st'"
    and L0: "0 < L" and ok: "tree_ok m L (Suc h) b" and hi: "hi < span (Suc h)" and le: "lo \<le> hi"
  shows "\<lbrakk>alloc_ok st; blk_pages (st_pi st) = L; same_on (- (\<Union>j \<in> {..<i}. kid m L h b j)) m (st_mem st);
      (\<Union>j \<in> {i..hi div span h}. kid m L h b j) \<subseteq> st_used st; lo div span h \<le> i; i + n = Suc (hi div span h)\<rbrakk> \<Longrightarrow>
    \<exists>E a' st'. trunc_inner h rec b lo hi n i a st = Inr (a', st') \<and> inner_post m L h b lo hi i E a a' st st'"
proof (induction n arbitrary: i a st)
  case 0
  have "\<not> i \<le> k div span h" if "k \<le> hi" for k using div_le_mono [OF that, of "span h"] "0.prems"(6) by simp
  then have "todo m h b lo hi i = {}" by (auto simp: todo_def)
  with 0 show ?case by (auto simp: inner_post_def released_refl)
next
  case (Suc n)
  let ?F = "lo div span h" and ?T = "hi div span h" and ?p = "node_ptr m b i" and ?k = "kid m L h b i"
  let ?lo = "child_first h lo i" and ?hi = "child_last h hi i"
  have T: "?T < 512" by (rule child_index [OF hi])
  have i: "?F \<le> i" "i \<le> ?T" "i < 512" "?F \<le> Suc i" "Suc i + n = Suc ?T" using Suc.prems(5,6) T by simp_all
  have "pblk b \<notin> (\<Union>j \<in> {..<i}. kid m L h b j)" using kids_disjoint(2) [OF ok] i(3) by auto
  then have pm: "node_ptr (st_mem st) b i = ?p"
    using ok by (intro node_ptr_cong [OF _ i(3) Suc.prems(3)]) simp_all
  have rest: "\<exists>E a' st'. trunc_inner h rec b lo hi n (Suc i) a1 st1 = Inr (a', st') \<and>
      inner_post m L h b lo hi (Suc i) E a1 a' st1 st'"
    if st1: "alloc_ok st1" "st_pi st1 = st_pi st" "same_on (- ?k) (st_mem st) (st_mem st1)"
      "st_used st - st_used st1 \<subseteq> ?k" for a1 st1
  proof (rule Suc.IH [OF st1(1) _ _ _ i(4,5)])
    show "blk_pages (st_pi st1) = L" using st1(2) Suc.prems(2) by simp
    show "same_on (- (\<Union>j \<in> {..<Suc i}. kid m L h b j)) m (st_mem st1)"
      by (rule same_on_trans [OF same_on_mono [OF Suc.prems(3)] same_on_mono [OF st1(3)]]) (auto simp: less_Suc_eq)
    have "(\<Union>j \<in> {Suc i..?T}. kid m L h b j) \<inter> ?k = {}"
      using T i(3) by (intro kids_union_disjoint [OF ok]) auto
    moreover have "(\<Union>j \<in> {Suc i..?T}. kid m L h b j) \<subseteq> st_used st" using Suc.prems(4) by (force simp: Suc_le_eq)
    ultimately show "(\<Union>j \<in> {Suc i..?T}. kid m L h b j) \<subseteq> st_used st1" using st1(4) by blast
  qed
  note cons = inner_cons [OF L0 ok i(1,2) T]
  show ?case
  proof (cases "?p = 0")
    case True
    from rest [OF Suc.prems(1) refl _ , of a] obtain E a' st' where
      r: "trunc_inner h rec b lo hi n (Suc i) a st = Inr (a', st')" "inner_post m L h b lo hi (Suc i) E a a' st st'" by auto
    have "inner_post m L h b lo hi i (E - {i} \<union> {x. x = i \<and> True}) a a' st st'"
      by (rule cons [OF _ _ _ _ _ _ _ _ r(2)])
        (use True Suc.prems(1) in \<open>simp_all add: kid_def kid_mapped_def released_refl\<close>)
    with r(1) True pm show ?thesis by auto
  next
    case nz: False
    have kd: "?k = foot m L h ?p" using nz by (simp add: kid_def)
    have "i \<in> {i..?T}" using i(2) by simp
    then have ku: "?k \<subseteq> st_used st" using Suc.prems(4) by blast
    have "(\<Union>j \<in> {..<i}. kid m L h b j) \<inter> ?k = {}" using i(3) by (intro kids_union_disjoint [OF ok]) auto
    then have so: "same_on (foot m L h ?p) m (st_mem st)" unfolding kd by (intro same_on_mono [OF Suc.prems(3)]) blast
    note tk = tree_ok_kid [OF ok i(3) nz]
    note tf = tree_frame [OF L0 tk so]
    have rd: "ready h ?p st"
      using Suc.prems(1,2) tf ku kd unfolding ready_def by simp
    obtain f e st1 where r1: "rec ?p ?lo ?hi st = Inr (f, e, st1)" and post: "trunc_post h ?p ?lo ?hi f e st st1"
      using rec [OF rd Suc.prems(2) child_range_order [OF le i(1,2)] child_bounds] by blast
    note p = post [unfolded trunc_post_def, unfolded Suc.prems(2) conjunct1 [OF conjunct2 [OF tf]]]
    have rel1: "released (?k - (if e then {pblk ?p} else st_foot st1 h ?p)) st st1" unfolding kd using p by (elim conjE)
    then have pi1: "st_pi st1 = st_pi st" and a1: "alloc_ok st1" by (simp_all add: released_def)
    have L1: "blk_pages (st_pi st1) = L" using pi1 Suc.prems(2) by simp
    have fr: "same_on (- ?k) (st_mem st) (st_mem st1)" unfolding kd using p by (elim conjE)
    have ct: "cut m L h ?p ?lo ?hi e (st_mem st1)"
      by (rule cut_pre [OF L0 tk so]) (use p in \<open>elim conjE\<close>)
    have full: "?lo = 0 \<and> ?hi = span h - 1 \<longrightarrow> e" using p by (elim conjE)
    have cnt: "f = card (kid_mapped m h b i \<inter> {?lo..?hi})"
      using p nz mapped_frame [OF L0 tk so] by (simp add: kid_mapped_def)
    have pm1: "node_ptr (st_mem st1) b i = ?p"
    proof -
      have "pblk b \<notin> ?k" by (rule kids_disjoint(2) [OF ok i(3)])
      then have "node_ptr (st_mem st1) b i = node_ptr (st_mem st) b i"
        using ok by (intro node_ptr_cong [OF _ i(3) fr]) simp_all
      then show ?thesis using pm by simp
    qed
    show ?thesis
    proof (cases e)
      case e: True
      have pin: "pblk ?p \<in> ?k" unfolding kd by (rule foot_pblk [OF L0])
      have "pblk ?p \<noteq> 0" using zero_notin_foot [OF tk] pin unfolding kd by (intro notI) simp
      moreover have "pblk ?p \<in> st_used st1" using rel1 e pin ku unfolding released_def by auto
      ultimately obtain st2 where f2: "tree_free_block (pmfs_get_blocknr ?p) PMFS_BLOCK_TYPE_4K st1 = Inr st2"
        "released {pblk ?p} st1 st2" "st_mem st2 = st_mem st1"
        using free_meta_released [OF a1] by metis
      have "(?k - {pblk ?p}) \<union> {pblk ?p} = ?k" using pin by blast
      then have rel2: "released ?k st st2" using released_trans [OF rel1 f2(2)] e by simp
      let ?a = "a\<lparr>ta_freed := ta_freed a + f\<rparr>"
      have s2: "alloc_ok st2" "st_pi st2 = st_pi st" "st_used st - st_used st2 \<subseteq> ?k"
        using rel2 by (simp_all add: released_def)
      from rest [OF s2(1,2) _ s2(3), of ?a] fr f2(3) obtain E a' st' where
        r: "trunc_inner h rec b lo hi n (Suc i) ?a st2 = Inr (a', st')" "inner_post m L h b lo hi (Suc i) E ?a a' st2 st'" by auto
      have "inner_post m L h b lo hi i (E - {i} \<union> {x. x = i \<and> True}) a a' st st'"
        by (rule cons [OF _ _ _ _ _ _ _ _ r(2)])
          (use fr f2(3) ct e rel2 cnt in \<open>simp_all add: keep_def\<close>)
      with r(1) r1 f2(1) nz pm pm1 e show ?thesis by (auto simp: Let_def)
    next
      case e: False
      define a2 where "a2 = (let a1 = a\<lparr>ta_freed := ta_freed a + f\<rparr> in
        if i = ?F then a1\<lparr>ta_start := Suc (ta_start a1)\<rparr>
        else if i = ?T then a1\<lparr>ta_end := ta_end a1 - 1\<rparr> else a1)\<lparr>ta_all := False\<rparr>"
      have "st_used st - st_used st1 \<subseteq> ?k" using rel1 by (auto simp: released_def)
      from rest [OF a1 pi1 fr this, of a2] obtain E a' st' where
        r: "trunc_inner h rec b lo hi n (Suc i) a2 st1 = Inr (a', st')" "inner_post m L h b lo hi (Suc i) E a2 a' st1 st'" by auto
      have "inner_post m L h b lo hi i (E - {i} \<union> {x. x = i \<and> False}) a a' st st'"
        by (rule cons [OF _ _ _ _ _ _ _ _ r(2)])
          (use fr ct e rel1 cnt full L1 nz in \<open>simp_all add: keep_def a2_def Let_def\<close>)
      moreover have "trunc_inner h rec b lo hi (Suc n) i a st = Inr (a', st')"
        using r(1) r1 nz pm e by (simp add: Let_def a2_def)
      ultimately show ?thesis by blast
    qed
  qed
qed

section \<open>The whole function\<close>

lemma is_empty_iff:
  "is_empty_meta_block m b F T \<longleftrightarrow> (\<forall>j<F. node_ptr m b j = 0) \<and> (\<forall>j. T < j \<and> j < 512 \<longrightarrow> node_ptr m b j = 0)"
  by (auto simp: is_empty_meta_block_def list_all_iff META_BLK_SHIFT_def Suc_le_eq)

lemma memset_nodes:
  fixes m :: mem
  assumes "paligned b" "s \<le> e" "e < 512"
  defines "m' \<equiv> memset_nt_zero (node_at b s) ((e - s + 1) * 8) m"
  shows "node_ptr m' b j = (if s \<le> j \<and> j \<le> e then 0 else node_ptr m b j)" "same_on (- {pblk b}) m m'"
proof -
  have rng: "node_at b s + (e - s + 1) * 8 = node_at b e + 8" using assms(2) by (simp add: node_at_def)
  have out: "node_at b j + 8 \<le> node_at b s \<or> node_at b s + (e - s + 1) * 8 \<le> node_at b j" if "\<not> (s \<le> j \<and> j \<le> e)"
    unfolding rng using that by (auto simp: node_at_def)
  have inn: "node_at b s \<le> node_at b j" "node_at b j + 8 \<le> node_at b s + (e - s + 1) * 8" if "s \<le> j" "j \<le> e"
    unfolding rng using that by (auto simp: node_at_def)
  show "node_ptr m' b j = (if s \<le> j \<and> j \<le> e then 0 else node_ptr m b j)"
    unfolding m'_def using node_ptr_memset_eval(1) [OF inn] node_ptr_memset_eval(2) [OF out] by simp
  have "x div 4096 = pblk b" if "node_at b s \<le> x" "x < node_at b e + 8" for x
  proof -
    obtain q where q: "unat b = q * 4096" using assms(1) by (auto simp: paligned_def)
    then have "x div 4096 = q" using that assms(3) by (intro div_nat_eqI) (auto simp: node_at_def)
    then show ?thesis using q by (simp add: pblk_def)
  qed
  then show "same_on (- {pblk b}) m m'" unfolding m'_def same_on_def memset_nt_zero_def rng by auto
qed

lemma last_child: "(span (Suc h) - 1) div span h = 511" "(span (Suc h) - 1) mod span h = span h - 1"
proof -
  have e: "span (Suc h) - 1 = 511 * span h + (span h - 1)" using span_pos [of h] by (simp add: span_Suc)
  show "(span (Suc h) - 1) div span h = 511" "(span (Suc h) - 1) mod span h = span h - 1"
    unfolding e by (rule in_child; simp)+
qed

lemma finish_ok:
  assumes L0: "0 < L" and ok: "tree_ok m L (Suc h) b" and hi: "hi < span (Suc h)" and le: "lo \<le> hi"
    and st: "st_mem st = m" "blk_pages (st_pi st) = L"
    and post: "inner_post m L h b lo hi (lo div span h) E
        \<lparr>ta_start = lo div span h, ta_end = hi div span h, ta_all = True, ta_freed = 0\<rparr> a st st1"
    and fin: "trunc_finish b (lo div span h) (hi div span h) a st1 = (freed, e, st')"
  shows "trunc_post (Suc h) b lo hi freed e st st'"
proof -
  let ?F = "lo div span h" and ?T = "hi div span h" and ?m1 = "st_mem st1" and ?m' = "st_mem st'"
  have T: "?T < 512" by (rule child_index [OF hi])
  have FT: "?F \<le> ?T" using le by (rule div_le_mono)
  have ac: "st_pi st' = st_pi st1 \<and> st_vi st' = st_vi st1 \<and> st_kmem st' = st_kmem st1 \<and> st_used st' = st_used st1 \<and>
      (balloc_inv (st_sbi st1) \<longrightarrow> balloc_inv (st_sbi st'))"
    using fin by (auto simp: trunc_finish_def Let_def upd_mem_def act_def balloc_inv_def split: if_splits)
  note q = post [unfolded inner_post_def st]
  have k0: "\<forall>j. ?F \<le> j \<longrightarrow> j \<le> ?T \<longrightarrow> node_ptr m b j \<noteq> 0 \<longrightarrow>
      cut m L h (node_ptr m b j) (child_first h lo j) (child_last h hi j) (j \<in> E) ?m1 \<and>
      (child_first h lo j = 0 \<and> child_last h hi j = span h - 1 \<longrightarrow> j \<in> E)"
    using q by (elim conjE)
  have p: "ta_freed a = card (todo m h b lo hi ?F)"
    "ta_all a \<longleftrightarrow> (\<forall>j. ?F \<le> j \<longrightarrow> j \<le> ?T \<longrightarrow> node_ptr m b j \<noteq> 0 \<longrightarrow> j \<in> E)"
    "ta_start a = ?F + (if node_ptr m b ?F \<noteq> 0 \<and> ?F \<notin> E then 1 else 0)"
    "ta_end a = ?T - (if ?F < ?T \<and> node_ptr m b ?T \<noteq> 0 \<and> ?T \<notin> E then 1 else 0)"
    using q FT by simp_all
  have kids: "cut m L h (node_ptr m b j) (child_first h lo j) (child_last h hi j) (j \<in> E) ?m1"
    and full: "child_first h lo j = 0 \<and> child_last h hi j = span h - 1 \<Longrightarrow> j \<in> E"
    if "?F \<le> j" "j \<le> ?T" "node_ptr m b j \<noteq> 0" for j using k0 [rule_format, OF that] by simp_all
  have fr: "same_on (- (\<Union>j \<in> {?F..?T}. kid m L h b j)) m ?m1"
    using post unfolding inner_post_def st by (elim conjE)
  have rel: "released (\<Union>j \<in> {?F..?T}. kid m L h b j - kept_at m ?m1 L h b E j) st st1" using q by (elim conjE)
  then have "alloc_ok st1" and pi1: "st_pi st1 = st_pi st" by (simp_all add: released_def)
  then have rel': "released (\<Union>j \<in> {?F..?T}. kid m L h b j - kept_at m ?m1 L h b E j) st st'"
    using ac by (intro released_cong [OF rel]) (simp_all add: alloc_ok_def)
  have L': "blk_pages (st_pi st') = L" using ac pi1 st(2) by simp
  have frd: "freed = card (mapped m (Suc h) b \<inter> {lo..hi})"
  proof -
    have "todo m h b lo hi ?F = mapped m (Suc h) b \<inter> {lo..hi}" by (auto simp: todo_def div_le_mono)
    moreover have "freed = ta_freed a" using fin by (auto simp: trunc_finish_def Let_def split: if_splits)
    ultimately show ?thesis using p by simp
  qed
  have mid: "j \<in> E" if "?F < j" "j < ?T" "node_ptr m b j \<noteq> 0" for j
    using full [of j] that by (simp add: child_first_def child_last_def)
  have full_all: "ta_all a" if "lo = 0 \<and> hi = span (Suc h) - 1"
  proof -
    have "?T = 511" "hi mod span h = span h - 1" using last_child that by simp_all
    then have "j \<in> E" if "?F \<le> j" "j \<le> ?T" "node_ptr m b j \<noteq> 0" for j
      using full [OF that] \<open>lo = 0 \<and> hi = span (Suc h) - 1\<close> by (simp add: child_first_def child_last_def)
    then show ?thesis using p by blast
  qed
  show ?thesis
  proof (cases "ta_all a \<and> is_empty_meta_block ?m1 b ?F ?T")
    case True
    with fin have e: "e" "st' = st1" by (auto simp: trunc_finish_def)
    have all: "j \<in> E" if "?F \<le> j" "j \<le> ?T" "node_ptr m b j \<noteq> 0" for j using p True that by blast
    have "node_ptr ?m1 b j = node_ptr m b j" if "j < 512" for j
      using kids_disjoint(2) [OF ok] T ok by (intro node_ptr_cong [OF _ that fr]) auto
    then have none: "node_ptr m b j = 0" if "j < 512" "\<not> (?F \<le> j \<and> j \<le> ?T)" for j
      using True that by (auto simp: is_empty_iff not_le)
    have "k \<in> {lo..hi}" if k: "k \<in> mapped m (Suc h) b" for k
    proof -
      let ?j = "k div span h"
      have nz: "node_ptr m b ?j \<noteq> 0" "k < span (Suc h)" "find_loop m h (node_ptr m b ?j) (k mod span h) \<noteq> 0"
        using k by (auto simp: mapped_def find_Suc split: if_splits)
      then have j: "?F \<le> ?j" "?j \<le> ?T" using none [OF child_index] by blast+
      have "k mod span h \<in> mapped m h (node_ptr m b ?j)" using nz(3) by (simp add: mapped_def)
      then have "child_first h lo ?j \<le> k mod span h \<and> k mod span h \<le> child_last h hi ?j"
        using kids [OF j nz(1)] all [OF j nz(1)] by (auto simp: cut_def)
      then show ?thesis using child_range [OF refl j] by simp
    qed
    then have ct: "cut m L (Suc h) b lo hi e ?m'" using e by (auto simp: cut_def)
    have "foot m L (Suc h) b - {pblk b} = (\<Union>j<512. kid m L h b j)"
      using kids_disjoint(2) [OF ok] by (auto simp: foot_kids)
    also have "\<dots> = (\<Union>j \<in> {?F..?T}. kid m L h b j)"
    proof (intro equalityI UN_least)
      show "kid m L h b j \<subseteq> (\<Union>j \<in> {?F..?T}. kid m L h b j)" if "j \<in> {..<512}" for j
        using none [of j] that by (cases "?F \<le> j \<and> j \<le> ?T") (auto simp: kid_def [of m L h b j])
      show "kid m L h b j \<subseteq> (\<Union>j<512. kid m L h b j)" if "j \<in> {?F..?T}" for j
        using that T by (intro UN_upper) simp
    qed
    also have "\<dots> = (\<Union>j \<in> {?F..?T}. kid m L h b j - kept_at m ?m1 L h b E j)"
      using all by (intro SUP_cong refl) (auto simp: kept_at_def keep_def kid_def)
    finally have "released (foot m L (Suc h) b - {pblk b}) st st'" using rel' by simp
    moreover have "same_on (- foot m L (Suc h) b) m ?m'"
      unfolding e(2) using T by (intro same_on_mono [OF fr]) (auto simp: foot_kids)
    ultimately show ?thesis unfolding trunc_post_def using ct frd e(1) st by simp
  next
    case False
    define Z where "Z = {j. ?F \<le> j \<and> j \<le> ?T \<and> (node_ptr m b j = 0 \<or> j \<in> E)}"
    have e: "\<not> e" using fin False by (auto simp: trunc_finish_def Let_def split: if_splits)
    note s = p(3,4)
    have Zse: "j \<in> Z \<longleftrightarrow> ta_start a \<le> j \<and> j \<le> ta_end a" for j
    proof -
      consider "j < ?F" | "?T < j" | "j = ?F" | "j = ?T" "?F < ?T" | "?F < j" "j < ?T" using FT by linarith
      then show ?thesis
      proof cases
        case 5
        then have "node_ptr m b j = 0 \<or> j \<in> E" using mid by blast
        with 5 show ?thesis by (auto simp: Z_def s)
      qed (use FT in \<open>auto simp: Z_def s\<close>)
    qed
    have te: "ta_end a < 512" using s(2) T by simp
    have pa: "paligned b" using ok by simp
    have m2: "(\<forall>j<512. node_ptr ?m' b j = (if j \<in> Z then 0 else node_ptr ?m1 b j)) \<and> same_on (- {pblk b}) ?m1 ?m'"
    proof (cases "ta_start a \<le> ta_end a")
      case True
      then have "?m' = memset_nt_zero (node_at b (ta_start a)) ((ta_end a - ta_start a + 1) * 8) ?m1"
        using fin False by (auto simp: trunc_finish_def Let_def upd_mem_def act_def)
      with memset_nodes [OF pa True te, of ?m1] show ?thesis by (simp add: Zse)
    next
      case se: False
      then have "st' = st1" using fin False by (auto simp: trunc_finish_def Let_def split: if_splits)
      with se show ?thesis by (auto simp: Zse)
    qed
    have nc: "node_cut m ?m1 ?m' L h b lo hi E Z"
      unfolding node_cut_def using L0 ok hi le kids fr m2 by (auto simp: Z_def)
    have kk: "kept m ?m1 L h b lo hi E j = kept_at m ?m1 L h b E j" if "j \<in> {?F..?T}" for j
      using that by (simp add: kept_def kept_at_def)
    have ft: "foot ?m' L (Suc h) b = foot m L (Suc h) b - (\<Union>j \<in> {?F..?T}. kid m L h b j - kept_at m ?m1 L h b E j)"
      unfolding node_cut_foot [OF nc] using kk by simp
    have sub: "(\<Union>j \<in> {?F..?T}. kid m L h b j - kept_at m ?m1 L h b E j) \<subseteq> foot m L (Suc h) b"
      using T by (auto simp: foot_kids)
    then have "foot m L (Suc h) b - foot ?m' L (Suc h) b = (\<Union>j \<in> {?F..?T}. kid m L h b j - kept_at m ?m1 L h b E j)"
      unfolding ft by blast
    then have r': "released (foot m L (Suc h) b - foot ?m' L (Suc h) b) st st'" using rel' by simp
    have so: "same_on (- foot m L (Suc h) b) m ?m'"
      using T m2 by (intro same_on_trans [OF same_on_mono [OF fr] same_on_mono [OF conjunct2 [OF m2]]]) (auto simp: foot_kids)
    have ex: "\<exists>j<512. j \<notin> Z \<and> node_ptr m b j \<noteq> 0"
    proof (cases "ta_all a")
      case True
      have "node_ptr ?m1 b j = node_ptr m b j" if "j < 512" for j
        using kids_disjoint(2) [OF ok] T ok by (intro node_ptr_cong [OF _ that fr]) auto
      with False True T FT show ?thesis by (auto simp: is_empty_iff Z_def) (metis less_trans not_le order_less_le_trans)+
    next
      case f: False
      then obtain j where "?F \<le> j" "j \<le> ?T" "node_ptr m b j \<noteq> 0" "j \<notin> E" using p by blast
      then show ?thesis using T by (auto simp: Z_def intro!: exI [of _ j])
    qed
    have "cut m L (Suc h) b lo hi e ?m'"
      unfolding cut_def using e node_cut_tree_ok [OF nc] node_cut_find [OF nc] node_cut_lean [OF nc] ex ft by auto
    moreover have "lo = 0 \<and> hi = span (Suc h) - 1 \<longrightarrow> e"
      using full_all last_child(1) [of h] False by (auto simp: is_empty_iff)
    ultimately show ?thesis unfolding trunc_post_def using r' so frd e st L' by simp
  qed
qed

lemma mapped_leaf: "mapped m (Suc 0) b = {k. k < 512 \<and> node_ptr m b k \<noteq> 0}"
  by (auto simp: mapped_def find_Suc span_Suc)

lemma recursive_truncate_ok:
  "\<lbrakk>ready (Suc h) b st; blk_pages (st_pi st) = unat (pmfs_get_numblocks btype); lo \<le> hi; hi < span (Suc h)\<rbrakk> \<Longrightarrow>
   \<exists>freed e st'. recursive_truncate_blocks btype (Suc h) b lo hi st = Inr (freed, e, st') \<and>
     trunc_post (Suc h) b lo hi freed e st st'"
proof (induction h arbitrary: b lo hi st)
  case 0
  let ?m = "st_mem st" and ?L = "blk_pages (st_pi st)"
  let ?a = "\<lparr>ta_start = lo, ta_end = hi, ta_all = True, ta_freed = 0\<rparr>"
  have hi: "hi < 512" using "0.prems"(4) by (simp add: span_Suc)
  have ok: "tree_ok ?m ?L (Suc 0) b" and al: "alloc_ok st" and fu: "foot ?m ?L (Suc 0) b \<subseteq> st_used st"
    using "0.prems"(1) by (simp_all add: ready_def)
  have n: "child_count 0 lo hi = Suc hi - lo" by (simp add: child_count_def)
  have rng: "{lo..<lo + (Suc hi - lo)} = {lo..hi}" using "0.prems"(3) by auto
  have ku: "(\<Union>j \<in> {lo..hi}. kid ?m ?L 0 b j) \<subseteq> st_used st"
    using fu hi unfolding foot_kids by (intro subset_trans [OF _ fu [unfolded foot_kids]]) auto
  from trunc_leaf_ok [OF al _ "0.prems"(2) ok, of None lo "Suc hi - lo" 0, unfolded rng] "0.prems"(3) hi ku
  obtain st1 where
    r: "trunc_leaf btype b (Suc hi - lo) lo None 0 st = Inr (card {j \<in> {lo..hi}. node_ptr ?m b j \<noteq> 0}, st1)"
      "released (\<Union>j \<in> {lo..hi}. kid ?m ?L 0 b j) st st1" "st_mem st1 = ?m" by (auto simp: hint_ok_def)
  let ?a1 = "?a\<lparr>ta_freed := card {j \<in> {lo..hi}. node_ptr ?m b j \<noteq> 0}\<rparr>"
  have td: "todo ?m 0 b lo hi lo = {j \<in> {lo..hi}. node_ptr ?m b j \<noteq> 0}"
    using hi by (auto simp: todo_def mapped_leaf)
  have cut0: "cut ?m ?L 0 c (child_first 0 lo j) (child_last 0 hi j) True m'" for c j m'
    by (auto simp: cut_def mapped_def child_first_def child_last_def)
  have post: "inner_post ?m ?L 0 b lo hi (lo div span 0) UNIV
      \<lparr>ta_start = lo div span 0, ta_end = hi div span 0, ta_all = True, ta_freed = 0\<rparr> ?a1 st st1"
    unfolding inner_post_def using r(2,3) td cut0 by simp
  obtain f e st' where fin: "trunc_finish b lo hi ?a1 st1 = (f, e, st')" by (rule prod_cases3)
  have "trunc_post (Suc 0) b lo hi f e st st'"
    by (rule finish_ok [OF blk_pages_pos ok "0.prems"(4,3) refl refl post]) (use fin in \<open>simp only: span_0 div_by_1\<close>)
  moreover have "recursive_truncate_blocks btype (Suc 0) b lo hi st = Inr (f, e, st')"
    using r(1) fin n by (simp add: Let_def)
  ultimately show ?case by blast
next
  case (Suc h)
  let ?h = "Suc h" and ?m = "st_mem st" and ?L = "blk_pages (st_pi st)"
  let ?F = "lo div span ?h" and ?T = "hi div span ?h"
  let ?a = "\<lparr>ta_start = ?F, ta_end = ?T, ta_all = True, ta_freed = 0\<rparr>"
  have ok: "tree_ok ?m ?L (Suc ?h) b" and al: "alloc_ok st" and fu: "foot ?m ?L (Suc ?h) b \<subseteq> st_used st"
    using Suc.prems(1) unfolding ready_def by blast+
  have T: "?T < 512" by (rule child_index [OF Suc.prems(4)])
  have FT: "?F \<le> ?T" using Suc.prems(3) by (rule div_le_mono)
  have ku: "(\<Union>j \<in> {?F..?T}. kid ?m ?L ?h b j) \<subseteq> st_used st"
    using T by (intro subset_trans [OF _ fu [unfolded foot_kids]]) auto
  have rec: "\<exists>freed e st'. recursive_truncate_blocks btype ?h c x y st2 = Inr (freed, e, st') \<and> trunc_post ?h c x y freed e st2 st'"
    if "ready ?h c st2" "blk_pages (st_pi st2) = ?L" "x \<le> y" "y < span ?h" for c x y st2
    using Suc.IH [OF that(1) _ that(3,4)] that(2) Suc.prems(2) by simp
  have n: "?F + child_count ?h lo hi = Suc ?T" using FT by (simp add: child_count_def)
  from trunc_inner_ok [OF rec blk_pages_pos ok Suc.prems(4,3) al refl _ ku order_refl n, of ?a]
  obtain E a1 st1 where r: "trunc_inner ?h (recursive_truncate_blocks btype ?h) b lo hi (child_count ?h lo hi) ?F ?a st = Inr (a1, st1)"
    and post: "inner_post ?m ?L ?h b lo hi ?F E ?a a1 st st1" by auto
  obtain f e st' where fin: "trunc_finish b ?F ?T a1 st1 = (f, e, st')" by (rule prod_cases3)
  have "trunc_post (Suc ?h) b lo hi f e st st'"
    by (rule finish_ok [OF blk_pages_pos ok Suc.prems(4,3) refl refl post fin])
  moreover have "recursive_truncate_blocks btype (Suc ?h) b lo hi st = Inr (f, e, st')"
    using r fin by (simp add: Let_def recursive_truncate_blocks.simps(2) [of btype "Suc h"]
        del: recursive_truncate_blocks.simps(2))
  ultimately show ?case by blast
qed

end
