(* ===== verification/Pmfs_Btree_Inode.thy ===== *)
theory Pmfs_Btree_Inode
  imports Pmfs_Btree_Grow
begin

unbundle bit_operations_syntax

text \<open>
  The tree of an inode: its invariant, what it maps, growing its height, and \<^verbatim>\<open>pmfs_alloc_blocks\<close>.
\<close>

section \<open>Subtrees that may be missing\<close>

definition sub_ok :: "nat \<Rightarrow> u64 \<Rightarrow> tree_st \<Rightarrow> bool" where
  "sub_ok h b st \<longleftrightarrow> alloc_ok st \<and> (if b = 0 then h = 0 else ready h b st)"

definition sub_foot :: "nat \<Rightarrow> u64 \<Rightarrow> tree_st \<Rightarrow> nat set" where
  "sub_foot h b st = (if b = 0 then {} else st_foot st h b)"

lemma sub_ok_foot: "sub_ok h b st \<Longrightarrow> sub_foot h b st \<subseteq> st_used st"
  by (auto simp: sub_ok_def sub_foot_def ready_def)

lemma find_zero_root [simp]: "find_loop m 0 0 k = 0" by simp

lemma sub_frame:
  assumes "sub_ok h b st" "alloc_ok st'" "blk_pages (st_pi st') = blk_pages (st_pi st)" "st_used st \<subseteq> st_used st'"
    "same_on (sub_foot h b st) (st_mem st) (st_mem st')"
  shows "sub_ok h b st'" "sub_foot h b st' = sub_foot h b st"
    "k < span h \<Longrightarrow> find_loop (st_mem st') h b k = find_loop (st_mem st) h b k"
proof -
  have t: "tree_ok (st_mem st') (blk_pages (st_pi st)) h b \<and> foot (st_mem st') (blk_pages (st_pi st)) h b = st_foot st h b \<and>
      (\<forall>k < span h. find_loop (st_mem st') h b k = find_loop (st_mem st) h b k)" if "b \<noteq> 0"
    using tree_frame [OF blk_pages_pos, of "st_mem st" "st_pi st" h b "st_mem st'"] assms(1,5) that
    by (simp add: sub_ok_def sub_foot_def ready_def)
  then show "sub_foot h b st' = sub_foot h b st" by (simp add: sub_foot_def assms(3))
  have "st_foot st h b \<subseteq> st_used st'" if "b \<noteq> 0" using assms(1,4) that by (auto simp: sub_ok_def ready_def)
  then show "sub_ok h b st'" using t assms(1,2) by (simp add: sub_ok_def ready_def assms(3))
  show "find_loop (st_mem st') h b k = find_loop (st_mem st) h b k" if "k < span h"
    using t assms(1) that by (cases "b = 0") (auto simp: sub_ok_def)
qed

section \<open>Growing the height\<close>

text \<open>One more level above the root.\<close>

lemma raise_root:
  assumes ok: "sub_ok h b st" and new: "tree_new_block PMFS_BLOCK_TYPE_4K True st = (Inr blk, st1)"
  defines "c \<equiv> pmfs_get_block_off blk"
  defines "st2 \<equiv> act (Flush_buffer (node_at c 0) 8) (set_node c 0 b st1)"
  shows "sub_ok (Suc h) c st2" "c \<noteq> 0" "st_pi st2 = st_pi st" "st_vi st2 = st_vi st" "st_used st \<subseteq> st_used st2"
    "sub_foot (Suc h) c st2 = sub_foot h b st \<union> (st_used st2 - st_used st)"
    "same_on (- sub_foot (Suc h) c st2) (st_mem st) (st_mem st2)"
    "k < span (Suc h) \<Longrightarrow> find_loop (st_mem st2) (Suc h) c k = (if k < span h then find_loop (st_mem st) h b k else 0)"
    "same_on (sub_foot h b st) (st_mem st) (st_mem st2)"
proof -
  let ?L = "blk_pages (st_pi st)"
  have a: "alloc_ok st" using ok by (simp add: sub_ok_def)
  have one: "unat (pmfs_get_numblocks PMFS_BLOCK_TYPE_4K) = 1" by (simp add: pmfs_get_numblocks_def)
  have set1: "{p..<p + 1} = {p}" for p :: nat by auto
  note t = tree_new_block_ok [OF a new, folded c_def, unfolded one set1]
  show c0: "c \<noteq> 0" and pi2: "st_pi st2 = st_pi st" and "st_vi st2 = st_vi st"
    using t(2,6) new_block_vi(1) [OF new] by (simp_all add: st2_def)
  have u2: "st_used st2 = st_used st \<union> {pblk c}" using t(3) by (simp add: st2_def)
  then show "st_used st \<subseteq> st_used st2" by blast
  have m2: "st_mem st2 = nput (node_at c 0) (le64 b) (st_mem st1)" by (simp add: st2_def)
  have a2: "alloc_ok st2" using t(1) by (simp add: st2_def alloc_ok_def balloc_inv_def)
  have sub: "sub_foot h b st \<subseteq> - {pblk c}" using sub_ok_foot [OF ok] t(4) by blast
  have z: "node_ptr (st_mem st1) c j = 0" if "j < 512" for j
    using t(7,8) that by (intro node_ptr_zero) simp_all
  have en: "tree_ok (st_mem st1) ?L (Suc h) c" "foot (st_mem st1) ?L (Suc h) c = {pblk c}"
    "\<And>k. k < span (Suc h) \<Longrightarrow> find_loop (st_mem st1) (Suc h) c k = 0"
    by (rule empty_node [OF c0 t(7)]; simp add: z)+
  have L1: "blk_pages (st_pi st1) = ?L" using t(2) by simp
  note f1 = sub_frame [OF ok t(1) L1 _ same_on_mono [OF t(5) sub]]
  have u1: "st_used st \<subseteq> st_used st1" using t(3) by blast
  have all: "tree_ok (st_mem st2) ?L (Suc h) c \<and> foot (st_mem st2) ?L (Suc h) c = {pblk c} \<union> sub_foot h b st \<and>
      (k < span (Suc h) \<longrightarrow>
         find_loop (st_mem st2) (Suc h) c k = (if k < span h then find_loop (st_mem st) h b k else 0))" for k
  proof (cases "b = 0")
    case True
    have "node_ptr (st_mem st2) c j = 0" if "j < 512" for j using z that True by (simp add: m2 node_ptr_put)
    note en2 = empty_node [OF c0 t(7) this]
    have "h = 0" using ok True by (simp add: sub_ok_def)
    with en2 True show ?thesis by (auto simp: sub_foot_def simp del: tree_ok.simps)
  next
    case False
    then have rb: "tree_ok (st_mem st1) ?L h b" "foot (st_mem st1) ?L h b = sub_foot h b st"
      using f1(1,2) [OF u1] t(2) by (simp_all add: sub_ok_def sub_foot_def ready_def)
    have fresh: "foot (st_mem st1) ?L (Suc h) c \<inter> foot (st_mem st1) ?L h b = {}"
      using sub by (simp add: en(2) rb(2))
    note at = attach [OF blk_pages_pos en(1) _ z rb(1) fresh same_on_refl, of 0, folded m2]
    have "find_loop (st_mem st2) (Suc h) c k = (if k < span h then find_loop (st_mem st) h b k else 0)"
      if "k < span (Suc h)"
    proof (cases "k < span h")
      case True
      then have "k div span h = 0" "k mod span h = k" by simp_all
      with True at(5,6) f1(3) [OF u1] False show ?thesis by (simp add: find_Suc)
    next
      case False
      then have "k div span h \<noteq> 0" by (simp add: div_eq_0_iff)
      with False at(4) en(3) that show ?thesis by simp
    qed
    moreover have "tree_ok (st_mem st2) ?L (Suc h) c" by (rule at(1)) simp_all
    moreover have "foot (st_mem st2) ?L (Suc h) c = {pblk c} \<union> sub_foot h b st"
      unfolding en(2) [symmetric] rb(2) [symmetric] by (rule at(2)) simp_all
    ultimately show ?thesis by blast
  qed
  have ft: "sub_foot (Suc h) c st2 = {pblk c} \<union> sub_foot h b st" using all c0 pi2 by (simp add: sub_foot_def)
  show "sub_ok (Suc h) c st2"
    unfolding sub_ok_def ready_def pi2 using all c0 a2 sub_ok_foot [OF ok] u2 by auto
  show "sub_foot (Suc h) c st2 = sub_foot h b st \<union> (st_used st2 - st_used st)"
    unfolding ft u2 using t(4) by blast
  show "same_on (- sub_foot (Suc h) c st2) (st_mem st) (st_mem st2)"
    unfolding ft m2 using t(5)
    by (intro same_on_trans [OF same_on_mono [OF t(5)] same_on_mono [OF put_same_on [OF t(7), of 0]]]) auto
  show "find_loop (st_mem st2) (Suc h) c k = (if k < span h then find_loop (st_mem st) h b k else 0)"
    if "k < span (Suc h)" using all that by blast
  show "same_on (sub_foot h b st) (st_mem st) (st_mem st2)"
    unfolding m2 using sub
    by (intro same_on_trans [OF same_on_mono [OF t(5)] same_on_mono [OF put_same_on [OF t(7), of 0]]]) auto
qed

text \<open>What growing the height keeps.\<close>

definition raised :: "nat \<Rightarrow> u64 \<Rightarrow> tree_st \<Rightarrow> nat \<Rightarrow> u64 \<Rightarrow> tree_st \<Rightarrow> bool" where
  "raised h b st h' b' st' \<longleftrightarrow>
     sub_ok h' b' st' \<and> h \<le> h' \<and> st_pi st' = st_pi st \<and> st_vi st' = st_vi st \<and> st_used st \<subseteq> st_used st' \<and>
     sub_foot h' b' st' = sub_foot h b st \<union> (st_used st' - st_used st) \<and>
     same_on (- sub_foot h' b' st') (st_mem st) (st_mem st') \<and>
     (\<forall>k < span h'. find_loop (st_mem st') h' b' k = (if k < span h then find_loop (st_mem st) h b k else 0)) \<and>
     same_on (sub_foot h b st) (st_mem st) (st_mem st')"

lemma raised_trans:
  assumes 1: "raised h b st h1 b1 st1" and 2: "raised h1 b1 st1 h2 b2 st2"
  shows "raised h b st h2 b2 st2"
proof -
  have "same_on (- sub_foot h2 b2 st2) (st_mem st) (st_mem st2)"
  proof (rule same_on_trans)
    show "same_on (- sub_foot h2 b2 st2) (st_mem st) (st_mem st1)"
      using 1 2 unfolding raised_def by (elim conjE) (rule same_on_mono, assumption, blast)
    show "same_on (- sub_foot h2 b2 st2) (st_mem st1) (st_mem st2)" using 2 unfolding raised_def by (elim conjE)
  qed
  moreover have "same_on (sub_foot h b st) (st_mem st) (st_mem st2)"
  proof (rule same_on_trans)
    show "same_on (sub_foot h b st) (st_mem st) (st_mem st1)" using 1 unfolding raised_def by (elim conjE)
    show "same_on (sub_foot h b st) (st_mem st1) (st_mem st2)"
      using 1 2 unfolding raised_def by (elim conjE) (rule same_on_mono, assumption, blast)
  qed
  moreover have "sub_foot h2 b2 st2 = sub_foot h b st \<union> (st_used st2 - st_used st)"
    using 1 2 unfolding raised_def by blast
  moreover have "find_loop (st_mem st2) h2 b2 k = (if k < span h then find_loop (st_mem st) h b k else 0)"
    if "k < span h2" for k
    using 1 2 that span_mono [of h h1] by (auto simp: raised_def)
  ultimately show ?thesis using 1 2 unfolding raised_def by auto
qed

lemma increase_loop_ok:
  "\<lbrakk>sub_ok h b st; increase_loop n b h st = (e, b', h', st')\<rbrakk> \<Longrightarrow>
   raised h b st h' b' st' \<and> (e = 0 \<or> e = - ENOSPC) \<and> h' \<le> h + n \<and>
   (e = 0 \<longrightarrow> h' = h + n \<and> (n > 0 \<longrightarrow> b' \<noteq> 0))"
proof (induction n arbitrary: b h st)
  case 0
  then show ?case by (auto simp: raised_def)
next
  case (Suc n)
  show ?case
  proof (cases "tree_new_block PMFS_BLOCK_TYPE_4K True st")
    case (Pair r st1)
    show ?thesis
    proof (cases r)
      case (Inl err)
      note ne = tree_new_block_error [OF Pair [unfolded Inl]]
      from Suc.prems(2) Pair Inl have "e = err" "b' = b" "h' = h" "st' = st1" by simp_all
      with ne Suc.prems(1) new_block_vi(1) [OF Pair] show ?thesis
        by (auto simp: raised_def sub_ok_def sub_foot_def ready_def alloc_ok_def)
    next
      case (Inr blk)
      let ?c = "pmfs_get_block_off blk"
      let ?st = "act (Flush_buffer (node_at ?c 0) 8) (set_node ?c 0 b st1)"
      note rr = raise_root [OF Suc.prems(1) Pair [unfolded Inr]]
      have 1: "raised h b st (Suc h) ?c ?st"
        unfolding raised_def using rr(1,3-9) by auto
      have run: "increase_loop n ?c (Suc h) ?st = (e, b', h', st')" using Suc.prems(2) Pair Inr by (simp add: Let_def)
      from Suc.IH [OF rr(1) run] raised_trans [OF 1] rr(2) run show ?thesis by (cases n) auto
    qed
  qed
qed

section \<open>The invariant of an inode\<close>

abbreviation hgt :: "tree_st \<Rightarrow> nat" where "hgt st \<equiv> unat (height (st_pi st))"

abbreviation rt :: "tree_st \<Rightarrow> u64" where "rt st \<equiv> root (st_pi st)"

text \<open>The device block of the inode's data block \<open>k\<close>, 0 for a hole.\<close>

definition file_block :: "tree_st \<Rightarrow> nat \<Rightarrow> u64" where
  "file_block st k = (if k < span (hgt st) then find_loop (st_mem st) (hgt st) (rt st) k else 0)"

definition inode_pages :: "tree_st \<Rightarrow> nat set" where
  "inode_pages st = sub_foot (hgt st) (rt st) st"

definition inode_ok :: "tree_st \<Rightarrow> bool" where
  "inode_ok st \<longleftrightarrow> hgt st \<le> 3 \<and> sub_ok (hgt st) (rt st) st \<and>
     i_blocks (st_pi st) = of_nat (card (mapped (st_mem st) (hgt st) (rt st))) * of_nat (blk_pages (st_pi st))"

lemma mapped_iff: "k \<in> mapped (st_mem st) (hgt st) (rt st) \<longleftrightarrow> file_block st k \<noteq> 0"
  by (simp add: mapped_def file_block_def)

definition data_pages :: "tree_st \<Rightarrow> nat set" where
  "data_pages st = leaves (st_mem st) (blk_pages (st_pi st)) (hgt st) (rt st)"

lemma data_pages_iff:
  "x \<in> data_pages st \<longleftrightarrow>
     (\<exists>k. file_block st k \<noteq> 0 \<and> x \<in> {pblk (file_block st k)..<pblk (file_block st k) + blk_pages (st_pi st)})"
  unfolding data_pages_def leaves_iff by (auto simp: file_block_def)

lemma data_pages_sub:
  assumes "inode_ok st"
  shows "data_pages st \<subseteq> inode_pages st"
proof (cases "rt st = 0")
  case True
  then have "hgt st = 0" using assms by (simp add: inode_ok_def sub_ok_def)
  with True have "data_pages st = {}" by (auto simp: data_pages_def leaves_iff)
  then show ?thesis by simp
next
  case False
  then have "st_tree_ok st (hgt st) (rt st)" using assms by (simp add: inode_ok_def sub_ok_def ready_def)
  from leaves_foot [OF this] False show ?thesis by (simp add: data_pages_def inode_pages_def sub_foot_def)
qed

definition inode_grown :: "nat set \<Rightarrow> tree_st \<Rightarrow> tree_st \<Rightarrow> bool" where
  "inode_grown R st st' \<longleftrightarrow>
     inode_ok st' \<and> i_blk_type (st_pi st') = i_blk_type (st_pi st) \<and> i_size (st_pi st') = i_size (st_pi st) \<and>
     st_vi st' = st_vi st \<and> st_used st \<subseteq> st_used st' \<and>
     inode_pages st' = inode_pages st \<union> (st_used st' - st_used st) \<and>
     same_on (- inode_pages st') (st_mem st) (st_mem st') \<and>
     (\<forall>k. file_block st k \<noteq> 0 \<or> k \<notin> R \<longrightarrow> file_block st' k = file_block st k) \<and>
     same_on (data_pages st) (st_mem st) (st_mem st')"

lemma inode_grown_refl: "inode_ok st \<Longrightarrow> inode_grown R st st"
  by (simp add: inode_grown_def)

lemma inode_grown_trans:
  assumes 1: "inode_grown R st st1" and 2: "inode_grown R st1 st2"
  shows "inode_grown R st st2"
proof -
  have "same_on (- inode_pages st2) (st_mem st) (st_mem st2)"
  proof (rule same_on_trans)
    show "same_on (- inode_pages st2) (st_mem st) (st_mem st1)"
      using 1 2 unfolding inode_grown_def by (elim conjE) (rule same_on_mono, assumption, blast)
    show "same_on (- inode_pages st2) (st_mem st1) (st_mem st2)" using 2 unfolding inode_grown_def by (elim conjE)
  qed
  moreover have "inode_pages st2 = inode_pages st \<union> (st_used st2 - st_used st)"
    using 1 2 unfolding inode_grown_def by blast
  moreover have "same_on (data_pages st) (st_mem st) (st_mem st2)"
  proof (rule same_on_trans)
    show "same_on (data_pages st) (st_mem st) (st_mem st1)" using 1 unfolding inode_grown_def by (elim conjE)
    have "file_block st1 k = file_block st k" if "file_block st k \<noteq> 0" for k
      using 1 that unfolding inode_grown_def by blast
    moreover have "blk_pages (st_pi st1) = blk_pages (st_pi st)" using 1 by (simp add: inode_grown_def blk_pages_def)
    ultimately have "data_pages st \<subseteq> data_pages st1" by (intro subsetI) (metis data_pages_iff)
    then show "same_on (data_pages st) (st_mem st1) (st_mem st2)"
      using 2 unfolding inode_grown_def by (elim conjE) (rule same_on_mono)
  qed
  ultimately show ?thesis using 1 2 unfolding inode_grown_def by (elim conjE) (intro conjI; force)
qed

lemma inode_grown_mono: "inode_grown R st st' \<Longrightarrow> R \<subseteq> S \<Longrightarrow> inode_grown S st st'"
  unfolding inode_grown_def by blast

lemma inode_grown_of_grown:
  assumes ok: "inode_ok st" and g: "grown (hgt st) (rt st) R st st'" and nz: "rt st \<noteq> 0" and vi: "st_vi st' = st_vi st"
  shows "inode_grown R st st'"
proof -
  note d = grownD [OF g]
  have si: "height (st_pi st') = height (st_pi st)" "root (st_pi st') = root (st_pi st)" "i_blk_type (st_pi st') = i_blk_type (st_pi st)"
    "i_size (st_pi st') = i_size (st_pi st)"
    using d(2) by (simp_all add: same_inode_def)
  have rd: "ready (hgt st) (rt st) st'"
    using ok nz by (intro grown_ready [OF _ g]) (simp add: inode_ok_def sub_ok_def)
  let ?M = "mapped (st_mem st) (hgt st) (rt st)" and ?M' = "mapped (st_mem st') (hgt st) (rt st)"
  have "card ?M' = card ?M + card (?M' - ?M)"
    using grown_mapped [OF g] by (simp add: card_Diff_subset card_mono)
  then have "i_blocks (st_pi st') = of_nat (card ?M') * of_nat (blk_pages (st_pi st))"
    using d(10) ok by (simp add: inode_ok_def distrib_right)
  then have ok': "inode_ok st'"
    using ok rd nz d(1,3) si by (simp add: inode_ok_def sub_ok_def)
  have pg: "inode_pages st' = inode_pages st \<union> (st_used st' - st_used st)" 
    using d(3,6) si nz by (simp add: inode_pages_def sub_foot_def)
  have fb: "file_block st' k = file_block st k" if "file_block st k \<noteq> 0 \<or> k \<notin> R" for k
    using that d(8,9) [of k] mapped_iff [of k st] si by (auto simp: file_block_def)
  have "same_on (- inode_pages st') (st_mem st) (st_mem st')"
    using d(3,7) si nz by (simp only: inode_pages_def sub_foot_def if_False)
  moreover have "same_on (data_pages st) (st_mem st) (st_mem st')" unfolding data_pages_def by (rule d(11))
  ultimately show ?thesis using ok' pg fb si vi d(4) unfolding inode_grown_def by blast
qed

lemma inode_grown_of_raised:
  assumes ok: "inode_ok st" and r: "raised (hgt st) (rt st) st h b st1" and h: "h \<le> 3"
    and s2: "st_sbi st2 = st_sbi st1" "st_pi st2 = (st_pi st1)\<lparr>root := b, height := of_nat h\<rparr>" "st_vi st2 = st_vi st1"
  shows "inode_grown R st st2"
proof -
  have hh: "unat (of_nat h :: u8) = h" using h by (intro unat_of_nat_less) simp
  have p1: "st_pi st1 = st_pi st" using r by (simp add: raised_def)
  have pi2: "hgt st2 = h" "rt st2 = b" "blk_pages (st_pi st2) = blk_pages (st_pi st1)" "i_blk_type (st_pi st2) = i_blk_type (st_pi st)"
    "i_blocks (st_pi st2) = i_blocks (st_pi st)" "i_size (st_pi st2) = i_size (st_pi st)"
    using s2 hh p1 by (simp_all add: blk_pages_def)
  have fb: "file_block st2 k = file_block st k" for k
    using r span_mono [of "hgt st" h] by (auto simp: file_block_def pi2 s2(1) raised_def)
  have "sub_ok h b st1" using r by (simp add: raised_def)
  then have so: "sub_ok h b st2" and sf: "sub_foot h b st2 = sub_foot h b st1"
    using s2(1) pi2(3) by (auto simp: sub_ok_def sub_foot_def ready_def alloc_ok_def split: if_splits)
  have M: "mapped (st_mem st2) h b = mapped (st_mem st) (hgt st) (rt st)"
    using fb mapped_iff [of _ st] mapped_iff [of _ st2] pi2(1,2) by (intro set_eqI) simp
  have ok2: "inode_ok st2"
    using so ok h p1 unfolding inode_ok_def pi2 M by simp
  have pg: "inode_pages st2 = sub_foot h b st1" unfolding inode_pages_def pi2 by (rule sf)
  have "same_on (inode_pages st) (st_mem st) (st_mem st1)"
    using r unfolding raised_def inode_pages_def by (elim conjE)
  then have "same_on (data_pages st) (st_mem st) (st_mem st2)"
    using data_pages_sub [OF ok] s2(1) by (simp add: same_on_mono)
  then show ?thesis
    unfolding inode_grown_def pg using ok2 pi2 fb r s2 p1 unfolding raised_def inode_pages_def by auto
qed

section \<open>Allocating blocks of a file\<close>

lemma levels_bound: "n < span (levels n)"
proof (induction n rule: levels.induct)
  case (1 n)
  show ?case
  proof (cases "n = 0")
    case True
    then show ?thesis by (simp add: levels.simps [of n])
  next
    case False
    with 1 have "n div 512 < span (levels (n div 512))" by (simp add: META_BLK_SHIFT_def)
    then have "n < 512 * span (levels (n div 512))" by (simp add: div_less_iff_less_mult mult.commute)
    with False show ?thesis by (simp add: levels.simps [of n] span_Suc META_BLK_SHIFT_def)
  qed
qed

lemma span_add: "span (a + b) = span a * span b" by (simp add: span_def power_add add_mult_distrib)

lemma alloc_height_reaches:
  "last_blocknr < span (alloc_height p last_blocknr)" "unat (height p) \<le> alloc_height p last_blocknr"
proof -
  let ?h = "unat (height p)"
  have "last_blocknr div span ?h < span (levels (last_blocknr div span ?h))" by (rule levels_bound)
  then have "last_blocknr < span (?h + levels (last_blocknr div span ?h))"
    by (simp add: span_add div_less_iff_less_mult mult.commute)
  moreover have "last_blocknr < span ?h" if "\<not> span ?h - 1 < last_blocknr" using that span_pos [of ?h] by linarith
  ultimately show "last_blocknr < span (alloc_height p last_blocknr)" "?h \<le> alloc_height p last_blocknr"
    by (simp_all add: alloc_height_def)
qed

lemma first_block_grown:
  assumes ok: "inode_ok st" and z: "rt st = 0" and new: "pmfs_new_data_block zero st = (Inr blk, st1)"
    and s2: "st_sbi st2 = st_sbi st1" "st_pi st2 = (st_pi st1)\<lparr>root := pmfs_get_block_off blk, height := 0\<rparr>"
      "st_vi st2 = st_vi st1"
  shows "inode_grown {0} st st2" "file_block st2 0 \<noteq> 0"
proof -
  let ?c = "pmfs_get_block_off blk" and ?L = "blk_pages (st_pi st)"
  from new obtain st0 where n: "tree_new_block (ucast (i_blk_type (st_pi st))) zero st = (Inr blk, st0)"
    and s1: "st1 = upd_pi (\<lambda>p. p\<lparr>i_blocks := i_blocks p + 2 ^ (blk_type_to_shift (i_blk_type (st_pi st)) - 12)\<rparr>) st0"
    by (auto simp: pmfs_new_data_block_def Let_def split: prod.splits sum.splits)
  have h0: "hgt st = 0" and a: "alloc_ok st" using ok z by (simp_all add: inode_ok_def sub_ok_def)
  note t = tree_new_block_ok [OF a n, folded blk_pages_def]
  have pi2: "hgt st2 = 0" "rt st2 = ?c" "blk_pages (st_pi st2) = ?L" "i_blk_type (st_pi st2) = i_blk_type (st_pi st)"
    "i_size (st_pi st2) = i_size (st_pi st)"
    using s2 s1 t(2) by (simp_all add: blk_pages_def)
  have nb: "i_blocks (st_pi st2) = i_blocks (st_pi st) + of_nat ?L"
    using s2 s1 t(2) by (simp add: pages_shift)
  have sb: "st_sbi st2 = st_sbi st0" using s2 s1 by simp
  have M: "mapped (st_mem st2) 0 ?c = {0}" "mapped (st_mem st) 0 0 = {}" using t(6) by (auto simp: mapped_def)
  have ok2: "inode_ok st2"
    unfolding inode_ok_def pi2 M nb using ok t(1,3,6,7) pi2(3) sb h0 z M
    by (auto simp: inode_ok_def sub_ok_def ready_def alloc_ok_def)
  have pg: "inode_pages st2 = {pblk ?c..<pblk ?c + ?L}" "inode_pages st = {}"
    using t(6) pi2 z by (simp_all add: inode_pages_def sub_foot_def)
  have vi: "st_vi st2 = st_vi st" using s2(3) new_block_vi(2) [OF new] by simp
  have fb: "file_block st2 k = file_block st k" if "file_block st k \<noteq> 0 \<or> k \<notin> {0}" for k
    using that h0 z pi2 by (auto simp: file_block_def)
  have u: "st_used st2 - st_used st = {pblk ?c..<pblk ?c + ?L}" "st_used st \<subseteq> st_used st2"
    using t(3,4) sb by auto
  have "data_pages st = {}" using data_pages_sub [OF ok] pg(2) by simp
  then show "inode_grown {0} st st2"
    unfolding inode_grown_def pg u(1) using ok2 pi2 vi u(2) fb t(5) sb by (auto simp: same_on_def)
  show "file_block st2 0 \<noteq> 0" using t(6) pi2 by (simp add: file_block_def)
qed

section \<open>Writing data\<close>

lemma data_write_ok:
  assumes ok: "inode_ok st" and sbi: "st_sbi st' = (st_sbi st)\<lparr>nvmm := m'\<rparr>"
    and pi: "root (st_pi st') = root (st_pi st)" "height (st_pi st') = height (st_pi st)"
      "i_blk_type (st_pi st') = i_blk_type (st_pi st)" "i_blocks (st_pi st') = i_blocks (st_pi st)"
    and so: "same_on (- data_pages st) (st_mem st) m'"
  shows "inode_ok st'" "file_block st' = file_block st" "inode_pages st' = inode_pages st" "data_pages st' = data_pages st"
proof -
  let ?L = "blk_pages (st_pi st)"
  have L: "blk_pages (st_pi st') = ?L" using pi(3) by (simp add: blk_pages_def)
  have m: "st_mem st' = m'" "st_used st' = st_used st" using sbi by simp_all
  have al: "alloc_ok st' = alloc_ok st" using sbi by (simp add: alloc_ok_def balloc_inv_def)
  have t: "tree_ok m' ?L (hgt st) (rt st) \<and> foot m' ?L (hgt st) (rt st) = st_foot st (hgt st) (rt st) \<and>
      (\<forall>k < span (hgt st). find_loop m' (hgt st) (rt st) k = find_loop (st_mem st) (hgt st) (rt st) k)" if nz: "rt st \<noteq> 0"
  proof (rule tree_data_frame [OF blk_pages_pos])
    show "tree_ok (st_mem st) ?L (hgt st) (rt st)" using ok nz by (simp add: inode_ok_def sub_ok_def ready_def)
    show "same_on (st_foot st (hgt st) (rt st) - leaves (st_mem st) ?L (hgt st) (rt st)) (st_mem st) m'"
      by (rule same_on_mono [OF so]) (auto simp: data_pages_def)
  qed
  have f: "find_loop m' (hgt st) (rt st) k = find_loop (st_mem st) (hgt st) (rt st) k" if "k < span (hgt st)" for k
    using t that ok by (cases "rt st = 0") (auto simp: inode_ok_def sub_ok_def)
  then show fb: "file_block st' = file_block st" by (auto simp: file_block_def m pi)
  have M: "mapped m' (hgt st) (rt st) = mapped (st_mem st) (hgt st) (rt st)" using f by (auto simp: mapped_def)
  show "inode_pages st' = inode_pages st" using t by (simp add: inode_pages_def sub_foot_def m L pi)
  show "data_pages st' = data_pages st" unfolding set_eq_iff data_pages_iff fb L by simp
  show "inode_ok st'" using ok t al unfolding inode_ok_def sub_ok_def ready_def by (simp add: m L pi M)
qed

end
