(* ===== verification/Pmfs_Btree_Shrink.thy ===== *)
theory Pmfs_Btree_Shrink
  imports Pmfs_Btree_Trunc Pmfs_Btree_Inode
begin

unbundle bit_operations_syntax

text \<open>
  Truncation of a file: counting blocks, lowering the height of the tree, and \<^verbatim>\<open>__pmfs_truncate_blocks\<close>.
\<close>

section \<open>Counting blocks\<close>

lemma card_mapped_sum: "card (mapped m (Suc h) b) = (\<Sum>i<512. card (kid_mapped m h b i))"
proof -
  have sub: "x < span h" if "x \<in> kid_mapped m h b i" for x i
    using that by (auto simp: kid_mapped_def mapped_def split: if_splits)
  have "mapped m (Suc h) b = (\<Union>i<512. below h i (kid_mapped m h b i))"
  proof (intro equalityI subsetI)
    fix k
    assume k: "k \<in> mapped m (Suc h) b"
    then have i: "k div span h < 512" using child_index by (auto simp: mapped_def)
    have e: "k = k div span h * span h + k mod span h" by simp
    have "k mod span h < span h" by simp
    from mapped_child_iff [OF this i, of m b] k e have "k mod span h \<in> kid_mapped m h b (k div span h)" by simp
    with below_in [OF refl this] i show "k \<in> (\<Union>i<512. below h i (kid_mapped m h b i))" by blast
  next
    fix k
    assume "k \<in> (\<Union>i<512. below h i (kid_mapped m h b i))"
    then obtain i x where "i < 512" "k = i * span h + x" "x \<in> kid_mapped m h b i" by auto
    with mapped_child_iff [OF sub] show "k \<in> mapped m (Suc h) b" by simp
  qed
  moreover have dj: "below h i (kid_mapped m h b i) \<inter> below h j (kid_mapped m h b j) = {}" if "i \<noteq> j" for i j
  proof -
    have "k div span h = l" if k: "k \<in> below h l (kid_mapped m h b l)" for k l
    proof -
      from k obtain x where x: "k = l * span h + x" "x \<in> kid_mapped m h b l" by (rule imageE)
      show ?thesis unfolding x(1) using sub [OF x(2)] by simp
    qed
    then have "x = y" if "k \<in> below h x (kid_mapped m h b x)" "k \<in> below h y (kid_mapped m h b y)" for k x y
      using that by metis
    with \<open>i \<noteq> j\<close> show ?thesis by blast
  qed
  moreover have "finite (below h i (kid_mapped m h b i))" for i by (simp add: kid_mapped_def)
  then have "card (\<Union>i<512. below h i (kid_mapped m h b i)) = (\<Sum>i<512. card (below h i (kid_mapped m h b i)))"
    by (intro card_UN_disjoint ballI impI dj) simp_all
  moreover have "card (below h i X) = card X" for i X by (intro card_image inj_onI) simp
  ultimately show ?thesis by (simp only:)
qed

lemma count_iblocks_recursive: "b \<noteq> 0 \<Longrightarrow> pmfs_inode_count_iblocks_recursive m h b = card (mapped m h b)"
proof (induction h arbitrary: b)
  case 0
  then have "mapped m 0 b = {0}" by (auto simp: mapped_def)
  then show ?case by simp
next
  case (Suc h)
  have "(if node_ptr m b i = 0 then 0 else pmfs_inode_count_iblocks_recursive m h (node_ptr m b i)) =
      card (kid_mapped m h b i)" for i
    using Suc.IH [of "node_ptr m b i"] by (simp add: kid_mapped_def)
  then show ?case
    by (simp add: card_mapped_sum META_BLK_SHIFT_def sum_list_distinct_conv_sum_set atLeast0LessThan)
qed

lemma card_mapped_bound: "card (mapped m h b) \<le> span h"
  using card_mono [of "{..<span h}" "mapped m h b"] by (auto simp: mapped_def)

section \<open>Lowering the height\<close>

lemma levels_le: "n < span h \<Longrightarrow> levels n \<le> h"
proof (induction h arbitrary: n)
  case 0
  then show ?case by (simp add: levels.simps [of 0])
next
  case (Suc h)
  have "n div 512 < span h" using Suc.prems by (simp add: span_Suc less_mult_imp_div_less mult.commute)
  then show ?case using Suc.IH by (simp add: levels.simps [of n] META_BLK_SHIFT_def)
qed

lemma only_child:
  assumes ok: "tree_ok m L (Suc h) b" and ln: "lean m (Suc h) b" and sub: "mapped m (Suc h) b \<subseteq> {..<span h}"
    and ne: "mapped m (Suc h) b \<noteq> {}"
  shows "node_ptr m b 0 \<noteq> 0" "foot m L (Suc h) b = insert (pblk b) (foot m L h (node_ptr m b 0))"
    "k < span h \<Longrightarrow> find_loop m (Suc h) b k = find_loop m h (node_ptr m b 0) k"
    "mapped m h (node_ptr m b 0) = mapped m (Suc h) b"
proof -
  have zero: "node_ptr m b i = 0" if i: "i < 512" "i \<noteq> 0" for i
  proof (rule ccontr)
    assume nz: "node_ptr m b i \<noteq> 0"
    then obtain x where x: "x \<in> mapped m h (node_ptr m b i)" using ln i(1) by auto
    then have xs: "x < span h" by (simp add: mapped_def)
    have "i * span h + x \<in> mapped m (Suc h) b"
      using mapped_child_iff [OF xs i(1), of m b] x nz by (simp add: kid_mapped_def)
    with sub i(2) show False by (cases i) auto
  qed
  obtain k where k: "k \<in> mapped m (Suc h) b" using ne by blast
  then have "k div span h = 0" using sub by auto
  with k show nz: "node_ptr m b 0 \<noteq> 0" by (auto simp: mapped_def find_Suc split: if_splits)
  have "kid m L h b i \<subseteq> kid m L h b 0" if "i \<in> {..<512}" for i
    using zero [of i] that by (cases "i = 0") (simp_all add: kid_def)
  then have "(\<Union>i<512. kid m L h b i) = kid m L h b 0"
    by (intro equalityI UN_least UN_upper) simp_all
  then show "foot m L (Suc h) b = insert (pblk b) (foot m L h (node_ptr m b 0))"
    using nz by (simp add: foot_kids kid_def)
  show f: "find_loop m (Suc h) b k = find_loop m h (node_ptr m b 0) k" if "k < span h" for k
    using that nz by (simp add: find_Suc)
  show "mapped m h (node_ptr m b 0) = mapped m (Suc h) b"
    using sub f span_mono [of h "Suc h"] by (auto simp: mapped_def)
qed

lemma decrease_loop_ok:
  "\<lbrakk>ready (n + h) r st; lean (st_mem st) (n + h) r; mapped (st_mem st) (n + h) r \<subseteq> {..<span h};
    mapped (st_mem st) (n + h) r \<noteq> {}\<rbrakk> \<Longrightarrow>
   \<exists>r' st'. decrease_loop n r st = Inr (r', st') \<and> ready h r' st' \<and> r' \<noteq> 0 \<and> lean (st_mem st') h r' \<and>
     st_mem st' = st_mem st \<and> released (st_foot st (n + h) r - st_foot st' h r') st st' \<and>
     st_foot st' h r' \<subseteq> st_foot st (n + h) r \<and>
     (\<forall>k < span h. find_loop (st_mem st) h r' k = find_loop (st_mem st) (n + h) r k)"
proof (induction n arbitrary: r st)
  case 0
  have "r \<noteq> 0" using "0.prems"(1) tree_ok_ptr [of "st_mem st" "blk_pages (st_pi st)" h r] by (simp add: ready_def)
  with 0 show ?case by (auto simp: ready_def released_refl)
next
  case (Suc n)
  let ?m = "st_mem st" and ?L = "blk_pages (st_pi st)" and ?H = "n + h"
  have ok: "tree_ok ?m ?L (Suc ?H) r" and al: "alloc_ok st" and fu: "foot ?m ?L (Suc ?H) r \<subseteq> st_used st"
    using Suc.prems(1) unfolding ready_def by simp_all
  have sub: "mapped ?m (Suc ?H) r \<subseteq> {..<span ?H}"
    using Suc.prems(3) span_mono [of h ?H] by auto
  note oc = only_child [OF ok _ sub] Suc.prems(2,4)
  let ?c = "node_ptr ?m r 0"
  have c: "?c \<noteq> 0" "foot ?m ?L (Suc ?H) r = insert (pblk r) (foot ?m ?L ?H ?c)" "mapped ?m ?H ?c = mapped ?m (Suc ?H) r"
    "\<And>k. k < span ?H \<Longrightarrow> find_loop ?m (Suc ?H) r k = find_loop ?m ?H ?c k"
    using only_child [OF ok _ sub] Suc.prems(2,4) by simp_all
  have pr: "pblk r \<in> st_used st" "pblk r \<noteq> 0" "pblk r \<notin> foot ?m ?L ?H ?c"
    using fu c(2) zero_notin_foot [OF ok] kids_disjoint(2) [OF ok, of 0] c(1) by (auto simp: kid_def)
  obtain st1 where f: "tree_free_block (pmfs_get_blocknr r) PMFS_BLOCK_TYPE_4K st = Inr st1"
    "released {pblk r} st st1" "st_mem st1 = ?m" using free_meta_released [OF al pr(1,2)] by metis
  have s1: "alloc_ok st1" "st_pi st1 = st_pi st" "st_used st - st_used st1 \<subseteq> {pblk r}" using f(2) by (simp_all add: released_def)
  have rd1: "ready ?H ?c st1"
    using s1 f(3) c fu tree_ok_kid [OF ok _ c(1)] pr(3) unfolding ready_def by auto
  have ln1: "lean ?m ?H ?c" using Suc.prems(2) c(1) by simp
  from Suc.IH [OF rd1] ln1 Suc.prems(3,4) c(3) f(3) s1(2) obtain r' st' where
    ih: "decrease_loop n ?c st1 = Inr (r', st')" "ready h r' st'" "r' \<noteq> 0" "lean (st_mem st') h r'" "st_mem st' = ?m"
      "released (foot ?m ?L ?H ?c - st_foot st' h r') st1 st'" "st_foot st' h r' \<subseteq> foot ?m ?L ?H ?c"
      "\<forall>k < span h. find_loop ?m h r' k = find_loop ?m ?H ?c k" by auto
  have run: "decrease_loop (Suc n) r st = Inr (r', st')" using ih(1) f(1) tree_ok_ptr [OF ok] by (simp add: Let_def)
  have "{pblk r} \<union> (foot ?m ?L ?H ?c - st_foot st' h r') = foot ?m ?L (Suc ?H) r - st_foot st' h r'"
    using c(2) ih(7) pr(3) by blast
  then have rel: "released (foot ?m ?L (Suc ?H) r - st_foot st' h r') st st'" using released_trans [OF f(2) ih(6)] by simp
  have "find_loop ?m h r' k = find_loop ?m (Suc ?H) r k" if "k < span h" for k
    using ih(8) c(4) [of k] that span_mono [of h ?H] by simp
  with run rel ih c(2) show ?case by auto
qed

end
