(* ===== verification/Pmfs_Btree_Resize.thy ===== *)
theory Pmfs_Btree_Resize
  imports Pmfs_Btree_Shrink
begin

unbundle bit_operations_syntax

text \<open>
  \<^verbatim>\<open>__pmfs_truncate_blocks\<close> on a well-formed inode whose meta blocks all hold data.
\<close>

section \<open>The tree part\<close>

definition freed_only :: "nat set \<Rightarrow> tree_st \<Rightarrow> tree_st \<Rightarrow> bool" where
  "freed_only X st st' \<longleftrightarrow> st_used st' \<subseteq> st_used st \<and> st_used st - st_used st' \<subseteq> X \<and>
     (kmem_ok st \<longrightarrow> kmem_ok st' \<and> st_used st' = st_used st - X)"

lemma freed_only_trans: "freed_only X st st1 \<Longrightarrow> freed_only Y st1 st2 \<Longrightarrow> freed_only (X \<union> Y) st st2"
  unfolding freed_only_def by auto

lemma freed_only_released: "released X st st' \<Longrightarrow> freed_only X st st'"
  by (simp add: released_def freed_only_def)

lemma freed_only_cong:
  "freed_only X st st1 \<Longrightarrow> st_sbi st2 = st_sbi st1 \<Longrightarrow> st_kmem st2 = st_kmem st1 \<Longrightarrow> freed_only X st st2"
  by (simp add: freed_only_def kmem_ok_def)

lemma truncate_tree_ok:
  assumes ok: "inode_ok st" and nz: "rt st \<noteq> 0" and le: "lo \<le> hi" and hi: "hi < span (hgt st)"
  shows "\<exists>freed r st1. truncate_tree lo hi st = Inr (freed, r, st1) \<and> (r = 0 \<or> r = rt st) \<and>
    released (st_foot st (hgt st) (rt st) - (if r = 0 then {} else st_foot st1 (hgt st) r)) st st1 \<and>
    cut (st_mem st) (blk_pages (st_pi st)) (hgt st) (rt st) lo hi (r = 0) (st_mem st1) \<and>
    same_on (- st_foot st (hgt st) (rt st)) (st_mem st) (st_mem st1) \<and>
    freed = card (mapped (st_mem st) (hgt st) (rt st) \<inter> {lo..hi})"
proof -
  let ?m = "st_mem st" and ?L = "blk_pages (st_pi st)" and ?b = "rt st" and ?btype = "ucast (i_blk_type (st_pi st))"
  have rd: "ready (hgt st) ?b st" using ok nz by (simp add: inode_ok_def sub_ok_def)
  then have al: "alloc_ok st" and tk: "tree_ok ?m ?L (hgt st) ?b" and fu: "foot ?m ?L (hgt st) ?b \<subseteq> st_used st"
    by (simp_all add: ready_def)
  have pb: "pblk ?b \<in> foot ?m ?L (hgt st) ?b" by (rule foot_pblk) simp
  have p0: "pblk ?b \<noteq> 0" using zero_notin_foot [OF tk] pb by (intro notI) simp
  show ?thesis
  proof (cases "hgt st")
    case 0
    then have h0: "height (st_pi st) = 0" by (simp add: unat_eq_0)
    have ft: "foot ?m ?L 0 ?b = {pblk ?b..<pblk ?b + unat (pmfs_get_numblocks ?btype)}" by (simp add: blk_pages_def)
    have "{pblk ?b..<pblk ?b + unat (pmfs_get_numblocks ?btype)} \<subseteq> st_used st" using fu unfolding 0 ft .
    from free_block_released [OF al this p0] obtain st1 where
      f: "tree_free_block (pmfs_get_blocknr ?b) ?btype st = Inr st1" "released (foot ?m ?L 0 ?b) st st1" "st_mem st1 = ?m"
      unfolding ft by metis
    have r: "truncate_tree lo hi st = Inr (1, 0, st1)" using f(1) h0 by (simp add: truncate_tree_def Let_def)
    have M: "mapped ?m 0 ?b = {0}" using nz by (auto simp: mapped_def)
    have lh: "lo = 0" "hi = 0" using hi le 0 by simp_all
    have "cut ?m ?L 0 ?b lo hi True (st_mem st1)" unfolding cut_def M lh by simp
    with r f M lh 0 show ?thesis by (intro exI [of _ 1] exI [of _ 0] exI [of _ st1]) simp
  next
    case (Suc h)
    have L: "?L = unat (pmfs_get_numblocks ?btype)" by (simp add: blk_pages_def)
    from recursive_truncate_ok [OF rd [unfolded Suc] L le hi [unfolded Suc]] obtain freed e st1 where
      t: "recursive_truncate_blocks ?btype (Suc h) ?b lo hi st = Inr (freed, e, st1)"
        "trunc_post (Suc h) ?b lo hi freed e st st1" by blast
    have hn: "height (st_pi st) \<noteq> 0" using Suc by (metis unat_eq_0 nat.distinct(1))
    have pi1: "st_pi st1 = st_pi st" and al1: "alloc_ok st1" using t(2) by (simp_all add: trunc_post_def released_def)
    show ?thesis
    proof (cases e)
      case True
      have rel: "released (foot ?m ?L (Suc h) ?b - {pblk ?b}) st st1" using t(2) True by (simp add: trunc_post_def)
      then have "pblk ?b \<in> st_used st1" using pb fu unfolding released_def Suc by blast
      from free_meta_released [OF al1 this p0] obtain st2 where
        f: "tree_free_block (pmfs_get_blocknr ?b) PMFS_BLOCK_TYPE_4K st1 = Inr st2" "released {pblk ?b} st1 st2"
          "st_mem st2 = st_mem st1" by metis
      have "foot ?m ?L (Suc h) ?b - {pblk ?b} \<union> {pblk ?b} = foot ?m ?L (Suc h) ?b" using pb unfolding Suc by blast
      then have "released (foot ?m ?L (Suc h) ?b) st st2" using released_trans [OF rel f(2)] by simp
      moreover have "truncate_tree lo hi st = Inr (freed, 0, st2)"
        using t(1) f(1) hn True Suc by (simp add: truncate_tree_def Let_def del: recursive_truncate_blocks.simps)
      ultimately show ?thesis
        using t(2) f(3) True unfolding trunc_post_def Suc by (intro exI [of _ freed] exI [of _ 0] exI [of _ st2]) simp
    next
      case False
      have "truncate_tree lo hi st = Inr (freed, ?b, st1)"
        using t(1) hn False Suc by (simp add: truncate_tree_def Let_def del: recursive_truncate_blocks.simps)
      then show ?thesis
        using t(2) False nz pi1 unfolding trunc_post_def Suc by (intro exI [of _ freed] exI [of _ ?b] exI [of _ st1]) simp
    qed
  qed
qed

section \<open>The block count\<close>

definition left_over :: "nat \<Rightarrow> u64 \<Rightarrow> mem \<Rightarrow> nat set" where
  "left_over h r m = (if r = 0 then {} else mapped m h r)"

lemma left_over_card:
  assumes c: "cut m L h b lo hi (r = 0) m1" and r: "r = 0 \<or> r = b"
  shows "left_over h r m1 = mapped m h b - {lo..hi}"
    "card (mapped m h b) = card (left_over h r m1) + card (mapped m h b \<inter> {lo..hi})"
proof -
  show e: "left_over h r m1 = mapped m h b - {lo..hi}"
  proof (cases "r = 0")
    case True
    with c show ?thesis by (auto simp: cut_def left_over_def)
  next
    case False
    with c r have "\<forall>k < span h. find_loop m1 h b k = (if lo \<le> k \<and> k \<le> hi then 0 else find_loop m h b k)"
      by (simp add: cut_def)
    with False r show ?thesis by (auto simp: left_over_def mapped_def split: if_splits)
  qed
  have "mapped m h b = (mapped m h b - {lo..hi}) \<union> (mapped m h b \<inter> {lo..hi})" by blast
  then have "card (mapped m h b) = card ((mapped m h b - {lo..hi}) \<union> (mapped m h b \<inter> {lo..hi}))" by simp
  also have "\<dots> = card (mapped m h b - {lo..hi}) + card (mapped m h b \<inter> {lo..hi})"
    by (rule card_Un_disjoint) auto
  finally show "card (mapped m h b) = card (left_over h r m1) + card (mapped m h b \<inter> {lo..hi})" unfolding e .
qed

lemma count_iblocks_left:
  "pmfs_inode_count_iblocks m p r = of_nat (card (left_over (unat (height p)) r m)) * of_nat (blk_pages p)"
  by (simp add: pmfs_inode_count_iblocks_def left_over_def count_iblocks_recursive push_bit_eq_mult pages_shift
      pmfs_inode_blk_shift_def)

lemma sub_freed:
  assumes n: "C = R + f" and small: "f * blk_pages p < 2 ^ 32"
  shows "of_nat C * of_nat (blk_pages p) - ucast (of_nat f * 2 ^ (blk_type_to_shift (i_blk_type p) - 12) :: u32) =
    of_nat R * (of_nat (blk_pages p) :: u64)"
proof -
  let ?s = "blk_type_to_shift (i_blk_type p) - 12"
  have L: "blk_pages p = 2 ^ ?s" by (rule pages_eq)
  have "(of_nat f * 2 ^ ?s :: u32) = of_nat (f * blk_pages p)" unfolding L by simp
  moreover have "ucast (of_nat (f * blk_pages p) :: u32) = (of_nat (f * blk_pages p) :: u64)"
    using small by (simp add: word_unat_eq_iff unsigned_ucast_eq unat_of_nat_less take_bit_nat_eq_self del: of_nat_mult)
  ultimately have "ucast (of_nat f * 2 ^ ?s :: u32) = (of_nat f * of_nat (blk_pages p) :: u64)" by simp
  then show ?thesis unfolding n by (simp add: distrib_right)
qed

lemma blocks_zero_iff:
  assumes "card M \<le> span 3" "finite M"
  shows "of_nat (card M) * of_nat (blk_pages p) = (0 :: u64) \<longleftrightarrow> M = {}"
proof -
  have "blk_pages p \<le> 0x40000" using numblocks_bounds(2) by (simp add: blk_pages_def)
  moreover have "card M \<le> 2 ^ 27" using assms(1) by (simp add: span_def META_BLK_SHIFT_def)
  ultimately have "card M * blk_pages p \<le> 2 ^ 27 * 0x40000" by (intro mult_le_mono)
  then have "unat (of_nat (card M * blk_pages p) :: u64) = card M * blk_pages p" by (intro unat_of_nat_less) simp
  then have "of_nat (card M * blk_pages p) = (0 :: u64) \<longleftrightarrow> card M * blk_pages p = 0" by (metis unat_eq_0 of_nat_0)
  then show ?thesis using assms(2) by (simp add: blk_pages_pos [THEN less_imp_neq, THEN not_sym])
qed

section \<open>Lowering the height\<close>

text \<open>
  The state in which \<^verbatim>\<open>pmfs_decrease_btree_height\<close> is called: \<open>r\<close> is the root of what is left, whose blocks are
  all below \<open>lo\<close>, the first data block behind the new size.
\<close>

lemma decrease_height_ok:
  fixes start :: u64
  assumes h3: "hgt st \<le> 3" and so: "if r = 0 then alloc_ok st else ready (hgt st) r st \<and> r = rt st"
    and M: "M = left_over (hgt st) r (st_mem st)" and ln: "r \<noteq> 0 \<longrightarrow> lean (st_mem st) (hgt st) r \<and> M \<noteq> {}"
    and nb: "i_blocks (st_pi st) = of_nat (card M) * of_nat (blk_pages (st_pi st))"
    and lo: "lo = unat (drop_bit (blk_type_to_shift (i_blk_type (st_pi st)))
        (start + 2 ^ blk_type_to_shift (i_blk_type (st_pi st)) - 1))"
    and below: "M \<subseteq> {..<lo}" "lo \<le> span (hgt st)" and s0: "start = 0 \<longrightarrow> lo = 0"
  shows "\<exists>st'. pmfs_decrease_btree_height start r st = Inr st' \<and>
    hgt st' \<le> 3 \<and> sub_ok (hgt st') (rt st') st' \<and> (rt st' \<noteq> 0 \<longrightarrow> lean (st_mem st') (hgt st') (rt st')) \<and>
    st_mem st' = st_mem st \<and> i_blocks (st_pi st') = i_blocks (st_pi st) \<and>
    blk_pages (st_pi st') = blk_pages (st_pi st) \<and> st_vi st' = st_vi st \<and> i_size (st_pi st') = i_size (st_pi st) \<and>
    mapped (st_mem st) (hgt st') (rt st') = M \<and>
    (\<forall>k < span (hgt st'). find_loop (st_mem st) (hgt st') (rt st') k = (if k \<in> M then find_loop (st_mem st) (hgt st) r k else 0)) \<and>
    sub_foot (hgt st') (rt st') st' \<subseteq> sub_foot (hgt st) r st \<and>
    freed_only (sub_foot (hgt st) r st - sub_foot (hgt st') (rt st') st') st st'"
proof -
  let ?p = "st_pi st" and ?m = "st_mem st"
  have fin: "finite M" by (simp add: M left_over_def)
  have cM: "card M \<le> span 3"
  proof -
    have "card M \<le> span (hgt st)" using card_mapped_bound by (simp add: M left_over_def)
    then show ?thesis using span_mono [OF h3] by linarith
  qed
  note zero = blocks_zero_iff [OF cM fin, of ?p, folded nb]
  show ?thesis
  proof (cases "M = {}")
    case True
    then have r0: "r = 0" using ln by blast
    let ?st = "upd_pi (\<lambda>p. p\<lparr>height := of_nat 0, root := r\<rparr>) st"
    have "pmfs_decrease_btree_height start r st = Inr ?st"
      using zero True r0 by (simp add: pmfs_decrease_btree_height_def Let_def)
    moreover have "mapped ?m 0 0 = {}" by (simp add: mapped_def)
    moreover have "freed_only {} st ?st" by (simp add: freed_only_def kmem_ok_def upd_pi_def)
    ultimately show ?thesis
      using r0 so True by (intro exI [of _ ?st]) (simp add: sub_ok_def sub_foot_def alloc_ok_def blk_pages_def)
  next
    case False
    then have r: "r \<noteq> 0" "r = rt st" using so M by (auto simp: left_over_def split: if_splits)
    then have rd: "ready (hgt st) r st" using so by simp
    have lnr: "lean ?m (hgt st) r" using ln r by blast
    have Mr: "mapped ?m (hgt st) r = M" using M r by (simp add: left_over_def)
    obtain k0 where k0: "k0 \<in> M" using False by blast
    then have lo0: "0 < lo" using below(1) by auto
    then have st0: "start \<noteq> 0" using s0 by auto
    have sz: "pmfs_inode_blk_size ?p = 2 ^ blk_type_to_shift (i_blk_type ?p)"
      by (simp add: pmfs_inode_blk_size_def blk_type_to_size_def blk_type_to_shift_def)
    let ?w = "drop_bit (pmfs_inode_blk_shift ?p) (start + pmfs_inode_blk_size ?p - 1)"
    have uw: "unat ?w = lo" unfolding lo sz by (simp add: pmfs_inode_blk_shift_def)
    then have w1: "unat (?w - 1) = lo - 1" using lo0 by (subst unat_sub_le) simp_all
    let ?n = "levels (lo - 1)"
    have nh: "?n \<le> hgt st" using below(2) lo0 by (intro levels_le) simp
    have sub: "M \<subseteq> {..<span ?n}" using below(1) levels_bound [of "lo - 1"] lo0 by auto
    have nz: "i_blocks ?p \<noteq> 0" using zero False by blast
    note run = pmfs_decrease_btree_height_def [of start r st, unfolded Let_def w1, simplified]
    have fb: "find_loop ?m (hgt st) r k = (if k \<in> M then find_loop ?m (hgt st) r k else 0)" if "k < span (hgt st)" for k
      using that Mr by (auto simp: mapped_def)
    show ?thesis
    proof (cases "hgt st = ?n")
      case True
      then have "pmfs_decrease_btree_height start r st = Inr st" using nz st0 by (simp add: run)
      moreover have "freed_only {} st st" by (simp add: freed_only_def)
      ultimately show ?thesis using rd r h3 lnr Mr fb by (auto simp: sub_ok_def ready_def)
    next
      case False
      let ?k = "hgt st - ?n"
      have e: "?k + ?n = hgt st" using nh by simp
      from decrease_loop_ok [of ?k ?n r st, unfolded e Mr, OF rd lnr sub \<open>M \<noteq> {}\<close>] obtain r' st1 where
        d: "decrease_loop ?k r st = Inr (r', st1)" "ready ?n r' st1" "r' \<noteq> 0" "lean (st_mem st1) ?n r'"
          "st_mem st1 = ?m" "released (st_foot st (hgt st) r - st_foot st1 ?n r') st st1"
          "st_foot st1 ?n r' \<subseteq> st_foot st (hgt st) r"
          "\<forall>k < span ?n. find_loop ?m ?n r' k = find_loop ?m (hgt st) r k" by blast
      let ?st = "upd_pi (\<lambda>p. p\<lparr>height := of_nat ?n, root := r'\<rparr>) st1"
      have n3: "?n \<le> 3" "unat (of_nat ?n :: u8) = ?n" using nh h3 by (auto intro!: unat_of_nat_less)
      have p1: "st_pi st1 = ?p" "st_vi st1 = st_vi st" using d(6) by (simp_all add: released_def)
      have "pmfs_decrease_btree_height start r st = Inr ?st" using nz st0 False d(1) by (simp add: run)
      moreover have f: "find_loop ?m ?n r' k = (if k \<in> M then find_loop ?m (hgt st) r k else 0)" if "k < span ?n" for k
        using d(8) fb [of k] that span_mono [OF nh] by auto
      moreover have "mapped ?m ?n r' = M" using f sub Mr by (auto simp: mapped_def split: if_splits)
      moreover have "freed_only (sub_foot (hgt st) r st - sub_foot ?n r' st1) st ?st"
        using d(3) r(1) freed_only_cong [OF freed_only_released [OF d(6)], of ?st] by (simp add: sub_foot_def upd_pi_def)
      moreover have "sub_ok ?n r' ?st" "sub_foot ?n r' ?st = sub_foot ?n r' st1"
        using d(2,3) by (simp_all add: sub_ok_def ready_def alloc_ok_def sub_foot_def blk_pages_def)
      ultimately show ?thesis
        using d n3 p1 r(1) by (intro exI [of _ ?st]) (simp add: blk_pages_def sub_foot_def)
    qed
  qed
qed

section \<open>The range\<close>

abbreviation blk_bytes :: "tree_st \<Rightarrow> nat" where "blk_bytes st \<equiv> 2 ^ blk_type_to_shift (i_blk_type (st_pi st))"

text \<open>The first data block that lies behind the first \<open>start\<close> bytes of the file.\<close>

definition first_behind :: "tree_st \<Rightarrow> u64 \<Rightarrow> nat" where
  "first_behind st start = (unat start + blk_bytes st - 1) div blk_bytes st"

lemma first_behind_word:
  fixes start :: u64
  assumes "unat start < 2 ^ 62"
  shows "unat (drop_bit (blk_type_to_shift (i_blk_type p)) (start + 2 ^ blk_type_to_shift (i_blk_type p) - 1)) =
    (unat start + 2 ^ blk_type_to_shift (i_blk_type p) - 1) div 2 ^ blk_type_to_shift (i_blk_type p)"
proof -
  let ?s = "blk_type_to_shift (i_blk_type p)"
  have s: "?s \<le> 30" by (simp add: blk_type_to_shift_def)
  then have b: "(2 ^ ?s :: nat) \<le> 2 ^ 30" by (intro power_increasing) simp_all
  have u: "unat (2 ^ ?s :: u64) = 2 ^ ?s" using unat_of_nat_less [of "2 ^ ?s", where 'a = 64] b by simp
  have "unat (start + 2 ^ ?s) = unat start + 2 ^ ?s" using assms b u by (subst unat_add_less) simp_all
  then have "unat (start + 2 ^ ?s - 1) = unat start + 2 ^ ?s - 1"
    by (subst unat_sub_le) (simp_all add: trans_le_add2)
  then show ?thesis by (simp only: unat_drop_bit_eq) (simp add: drop_bit_eq_div)
qed

lemma signed_drop_small:
  fixes w :: u64
  assumes "unat w < 2 ^ 63"
  shows "unat (signed_drop_bit n w) = unat w div 2 ^ n"
proof -
  have "\<not> bit (unat w) 63" using assms by (simp add: bit_iff_odd)
  then have "\<not> bit w 63" by (simp add: bit_unsigned_iff)
  then have "signed_drop_bit n w = drop_bit n w"
    by (intro bit_word_eqI) (auto simp: bit_signed_drop_bit_iff bit_drop_bit_eq dest: bit_imp_le_length)
  then show ?thesis by (simp only: unat_drop_bit_eq) (simp add: drop_bit_eq_div)
qed

lemma range_cases:
  assumes ok: "inode_ok st" and b: "unat start < 2 ^ 62" "unat end' < 2 ^ 63"
    and eof: "\<And>k. file_block st k \<noteq> 0 \<Longrightarrow>
      i_flags (st_pi st) AND PMFS_EOFBLOCKS_FL \<noteq> 0 \<or> k * blk_bytes st < unat end'"
  shows "case truncate_range (st_pi st) start end' of
      None \<Rightarrow> \<forall>k. file_block st k = 0
    | Some (lo, hi) \<Rightarrow> lo = first_behind st start \<and> hi < span (hgt st) \<and> (\<forall>k. file_block st k \<noteq> 0 \<longrightarrow> k \<le> hi)"
proof -
  have f: "unat (drop_bit (blk_type_to_shift (i_blk_type (st_pi st))) (start + 2 ^ blk_type_to_shift (i_blk_type (st_pi st)) - 1)) =
      first_behind st start"
    unfolding first_behind_def by (rule first_behind_word [OF b(1)])
  have in_tree: "k < span (hgt st)" if "file_block st k \<noteq> 0" for k using that by (auto simp: file_block_def split: if_splits)
  show ?thesis
  proof (cases "i_flags (st_pi st) AND PMFS_EOFBLOCKS_FL = 0")
    case False
    have "k \<le> span (hgt st) - 1" if "file_block st k \<noteq> 0" for k using in_tree [OF that] by linarith
    then show ?thesis using False f by (simp add: truncate_range_def Let_def)
  next
    case True
    then have e: "k * blk_bytes st < unat end'" if "file_block st k \<noteq> 0" for k using eof [OF that] by blast
    show ?thesis
    proof (cases "end' = 0")
      case z: True
      then have "file_block st k = 0" for k using e [of k] by auto
      then show ?thesis using True z by (simp add: truncate_range_def Let_def)
    next
      case nz: False
      then have u: "unat (end' - 1) = unat end' - 1" by (subst unat_sub_le) (simp_all add: Suc_le_eq unat_gt_0)
      let ?l = "(unat end' - 1) div blk_bytes st"
      have l: "unat (signed_drop_bit (blk_type_to_shift (i_blk_type (st_pi st))) (end' - 1)) = ?l"
        using b(2) u by (subst signed_drop_small) simp_all
      have "k \<le> ?l" if "file_block st k \<noteq> 0" for k
        using e [OF that] by (simp add: less_eq_div_iff_mult_less_eq)
      then have "k \<le> pmfs_sparse_last_blocknr (hgt st) ?l" if "file_block st k \<noteq> 0" for k
        using in_tree [OF that] that by (auto simp: pmfs_sparse_last_blocknr_def)
      moreover have "pmfs_sparse_last_blocknr (hgt st) ?l < span (hgt st)"
        by (simp add: pmfs_sparse_last_blocknr_def not_le)
      ultimately show ?thesis using True nz f l by (simp add: truncate_range_def Let_def)
    qed
  qed
qed

section \<open>The whole operation\<close>

text \<open>Only these parts of a state matter for the tree.\<close>

lemma inode_view_cong:
  assumes "st_sbi st' = st_sbi st" "root (st_pi st') = root (st_pi st)" "height (st_pi st') = height (st_pi st)"
    "i_blk_type (st_pi st') = i_blk_type (st_pi st)"
  shows "file_block st' = file_block st" "inode_pages st' = inode_pages st" "sub_ok h b st' = sub_ok h b st"
    "i_blocks (st_pi st') = i_blocks (st_pi st) \<Longrightarrow> inode_ok st' = inode_ok st"
  using assms
  by (auto simp: file_block_def inode_pages_def sub_foot_def inode_ok_def sub_ok_def ready_def alloc_ok_def blk_pages_def)

lemma check_eof_fields [simp]:
  "root (check_eof_blocks sz p) = root p" "height (check_eof_blocks sz p) = height p"
  "i_blk_type (check_eof_blocks sz p) = i_blk_type p" "i_blocks (check_eof_blocks sz p) = i_blocks p"
  "i_size (check_eof_blocks sz p) = i_size p"
  by (simp_all add: check_eof_blocks_def)

definition lean_inode :: "tree_st \<Rightarrow> bool" where
  "lean_inode st \<longleftrightarrow> rt st = 0 \<or> lean (st_mem st) (hgt st) (rt st)"

definition truncated :: "nat \<Rightarrow> tree_st \<Rightarrow> tree_st \<Rightarrow> bool" where
  "truncated n st st' \<longleftrightarrow>
     inode_ok st' \<and> lean_inode st' \<and> v_blocks (st_vi st') = i_blocks (st_pi st') \<and>
     (\<forall>k. file_block st' k = (if k < n then file_block st k else 0)) \<and>
     inode_pages st' \<subseteq> inode_pages st \<and> freed_only (inode_pages st - inode_pages st') st st' \<and>
     same_on (- inode_pages st) (st_mem st) (st_mem st')"

lemma truncated_unchanged:
  assumes ok: "inode_ok st" and ln: "lean_inode st" and vb: "v_blocks (st_vi st) = i_blocks (st_pi st)"
    and none: "\<And>k. n \<le> k \<Longrightarrow> file_block st k = 0"
    and s': "st' = act Flush_inode (truncate_times (st\<lparr>st_vi := (st_vi st)\<lparr>v_mtime := now, v_ctime := now\<rparr>\<rparr>))"
  shows "truncated n st st'"
proof -
  have v: "st_sbi st' = st_sbi st" "root (st_pi st') = root (st_pi st)" "height (st_pi st') = height (st_pi st)"
    "i_blk_type (st_pi st') = i_blk_type (st_pi st)" "i_blocks (st_pi st') = i_blocks (st_pi st)"
    "v_blocks (st_vi st') = v_blocks (st_vi st)" "st_kmem st' = st_kmem st"
    by (simp_all add: s' truncate_times_def act_def upd_pi_def)
  have "freed_only {} st st'" using v by (simp add: freed_only_def kmem_ok_def)
  then show ?thesis
    using ok ln vb none v(5-7) unfolding truncated_def inode_view_cong [OF v(1-4)] inode_view_cong(4) [OF v(1-5)]
    by (auto simp: lean_inode_def v not_less)
qed

lemma truncate_rest_ok:
  fixes start :: u64
  assumes ok: "inode_ok st" and ln: "lean_inode st" and nz: "rt st \<noteq> 0"
    and lo: "lo = first_behind st start" "unat start < 2 ^ 62" and hi: "lo \<le> hi" "hi < span (hgt st)"
    and le_hi: "\<And>k. file_block st k \<noteq> 0 \<Longrightarrow> k \<le> hi"
    and r: "r = 0 \<or> r = rt st"
    and rel: "freed_only (inode_pages st - (if r = 0 then {} else st_foot st1 (hgt st) r)) st st1"
    and al1: "alloc_ok st1" and L1: "blk_pages (st_pi st1) = blk_pages (st_pi st)"
    and c: "cut (st_mem st) (blk_pages (st_pi st)) (hgt st) (rt st) lo hi (r = 0) (st_mem st1)"
    and so: "same_on (- inode_pages st) (st_mem st) (st_mem st1)"
    and s3: "st_sbi s3 = st_sbi st1" "hgt s3 = hgt st" "rt s3 = rt st" "i_blk_type (st_pi s3) = i_blk_type (st_pi st)"
      "st_kmem s3 = st_kmem st1" "v_blocks (st_vi s3) = i_blocks (st_pi s3)"
      "i_blocks (st_pi s3) = of_nat (card (left_over (hgt st) r (st_mem st1))) * of_nat (blk_pages (st_pi st))"
  shows "\<exists>st4. pmfs_decrease_btree_height start r s3 = Inr st4 \<and>
    truncated lo st (act Flush_inode (upd_pi (check_eof_blocks (v_size (st_vi st4))) st4))"
proof -
  let ?m = "st_mem st" and ?L = "blk_pages (st_pi st)" and ?h = "hgt st" and ?b = "rt st" and ?m1 = "st_mem st1"
  define M where "M = left_over ?h r ?m1"
  have pg: "inode_pages st = foot ?m ?L ?h ?b" "inode_pages st \<subseteq> st_used st"
    using ok nz by (auto simp: inode_pages_def sub_foot_def inode_ok_def sub_ok_def ready_def)
  have Meq: "M = mapped ?m ?h ?b - {lo..hi}" unfolding M_def by (rule left_over_card(1) [OF c r])
  have Mlo: "M \<subseteq> {..<lo}" using Meq le_hi mapped_iff [of _ st] by (auto simp: not_le)
  have L3: "blk_pages (st_pi s3) = ?L" using s3(4) by (simp add: blk_pages_def)
  have ct: "tree_ok ?m1 ?L ?h ?b \<and> foot ?m1 ?L ?h ?b \<subseteq> foot ?m ?L ?h ?b \<and> lean ?m1 ?h ?b \<and> M \<noteq> {}"
    if "r \<noteq> 0"
    using that c r ln nz by (auto simp: cut_def lean_inode_def M_def left_over_def)
  have rd: "if r = 0 then alloc_ok s3 else ready (hgt s3) r s3 \<and> r = rt s3"
  proof (cases "r = 0")
    case True
    then show ?thesis using al1 s3(1) by (simp add: alloc_ok_def)
  next
    case False
    then have rb: "r = ?b" using r by simp
    have "st_used st - st_used st1 \<subseteq> inode_pages st - foot ?m1 ?L ?h ?b"
      using rel False rb L1 by (simp add: freed_only_def)
    then have "foot ?m1 ?L ?h ?b \<subseteq> st_used st1" using ct [OF False] pg by blast
    then show ?thesis using False rb ct [OF False] al1 s3(1-3) L3 by (simp add: ready_def alloc_ok_def)
  qed
  have h3: "hgt s3 \<le> 3" using ok s3(2) by (simp add: inode_ok_def)
  have fw: "lo = unat (drop_bit (blk_type_to_shift (i_blk_type (st_pi s3)))
      (start + 2 ^ blk_type_to_shift (i_blk_type (st_pi s3)) - 1))"
    unfolding s3(4) lo(1) first_behind_def by (rule first_behind_word [OF lo(2), symmetric])
  have z: "start = 0 \<longrightarrow> lo = 0" by (simp add: lo(1) first_behind_def)
  have m3: "st_mem s3 = ?m1" using s3(1) by simp
  have M3: "M = left_over (hgt s3) r (st_mem s3)" by (simp add: M_def m3 s3(2))
  have ln3: "r \<noteq> 0 \<longrightarrow> lean (st_mem s3) (hgt s3) r \<and> M \<noteq> {}" using ct r by (auto simp: m3 s3(2))
  have nb3: "i_blocks (st_pi s3) = of_nat (card M) * of_nat (blk_pages (st_pi s3))" by (simp add: s3(7) M_def L3)
  have hi3: "lo \<le> span (hgt s3)" using hi s3(2) by simp
  from decrease_height_ok [OF h3 rd M3 ln3 nb3 fw Mlo hi3 z, unfolded m3 s3(2)] obtain st4 where
    d: "pmfs_decrease_btree_height start r s3 = Inr st4" "hgt st4 \<le> 3" "sub_ok (hgt st4) (rt st4) st4"
      "rt st4 \<noteq> 0 \<longrightarrow> lean (st_mem st4) (hgt st4) (rt st4)" "st_mem st4 = ?m1" "i_blocks (st_pi st4) = i_blocks (st_pi s3)"
      "blk_pages (st_pi st4) = blk_pages (st_pi s3)" "st_vi st4 = st_vi s3" "i_size (st_pi st4) = i_size (st_pi s3)"
      "mapped ?m1 (hgt st4) (rt st4) = M"
      "\<forall>k < span (hgt st4). find_loop ?m1 (hgt st4) (rt st4) k = (if k \<in> M then find_loop ?m1 ?h r k else 0)"
      "sub_foot (hgt st4) (rt st4) st4 \<subseteq> sub_foot ?h r s3"
      "freed_only (sub_foot ?h r s3 - sub_foot (hgt st4) (rt st4) st4) s3 st4"
    by (elim exE conjE) (rule that)
  let ?st' = "act Flush_inode (upd_pi (check_eof_blocks (v_size (st_vi st4))) st4)" and ?S = "sub_foot ?h r s3"
  have v: "st_sbi ?st' = st_sbi st4" "root (st_pi ?st') = root (st_pi st4)" "height (st_pi ?st') = height (st_pi st4)"
    "i_blk_type (st_pi ?st') = i_blk_type (st_pi st4)" "i_blocks (st_pi ?st') = i_blocks (st_pi st4)" by simp_all
  have kM: "find_loop ?m1 ?h r k = file_block st k" if k: "k \<in> M" for k
  proof -
    have "r \<noteq> 0" using k by (auto simp: M_def left_over_def)
    then have "\<forall>k < span ?h. find_loop ?m1 ?h r k = (if lo \<le> k \<and> k \<le> hi then 0 else find_loop ?m ?h ?b k)"
      using c r by (simp add: cut_def)
    then show ?thesis using k Meq by (auto simp: mapped_def file_block_def)
  qed
  have Mk: "k \<in> M \<longleftrightarrow> file_block st k \<noteq> 0 \<and> k < lo" for k
    using Meq mapped_iff [of k st] le_hi [of k] by auto
  have fb: "file_block st4 k = (if k < lo then file_block st k else 0)" for k
    using d(5,10,11) kM [of k] Mk [of k] by (auto simp: file_block_def mapped_def)
  have "inode_ok st4" using d(2,3,5,6,7,10) s3(7) L3 unfolding inode_ok_def by (simp add: M_def)
  moreover have "lean_inode st4" using d(4) by (auto simp: lean_inode_def)
  moreover have S: "?S = (if r = 0 then {} else st_foot st1 ?h r)" using s3(1) L3 L1 by (simp add: sub_foot_def)
  have Ssub: "?S \<subseteq> inode_pages st" unfolding S using ct r L1 pg by auto
  have p4: "inode_pages st4 \<subseteq> ?S" using d(12) by (simp add: inode_pages_def)
  have fo: "freed_only (?S - inode_pages st4) st1 st4"
    using d(13) s3(1,5) by (simp add: freed_only_def kmem_ok_def inode_pages_def)
  have un: "(inode_pages st - ?S) \<union> (?S - inode_pages st4) = inode_pages st - inode_pages st4" using Ssub p4 by blast
  from freed_only_trans [OF rel [folded S] fo]
  have "freed_only (inode_pages st - inode_pages st4) st st4"
    using un by simp
  then have "freed_only (inode_pages st - inode_pages st4) st ?st'"
    by (rule freed_only_cong) (simp_all add: act_def upd_pi_def)
  moreover have "same_on (- inode_pages st) ?m (st_mem st4)" using so d(5) by simp
  moreover have "v_blocks (st_vi ?st') = i_blocks (st_pi ?st')" using d(6,8) s3(6) by simp
  ultimately have "truncated lo st ?st'"
    unfolding truncated_def inode_view_cong [OF v(1-4)] inode_view_cong(4) [OF v(1-5)]
    using fb p4 Ssub by (simp add: lean_inode_def)
  with d(1) show ?thesis by blast
qed

lemma truncate_blocks_ok:
  assumes ok: "inode_ok st" and ln: "lean_inode st" and vb: "v_blocks (st_vi st) = i_blocks (st_pi st)"
    and small: "unat (i_blocks (st_pi st)) < 2 ^ 32"
    and b: "unat start < 2 ^ 62" "unat end' < 2 ^ 63"
    and eof: "\<And>k. file_block st k \<noteq> 0 \<Longrightarrow>
      i_flags (st_pi st) AND PMFS_EOFBLOCKS_FL \<noteq> 0 \<or> k * blk_bytes st < unat end'"
  shows "\<exists>st'. pmfs_truncate_blocks mounting now start end' st = Inr st' \<and> truncated (first_behind st start) st st'"
proof -
  let ?sa = "st\<lparr>st_vi := (st_vi st)\<lparr>v_mtime := now, v_ctime := now\<rparr>\<rparr>"
  let ?p = "st_pi st" and ?m = "st_mem st" and ?L = "blk_pages (st_pi st)" and ?h = "hgt st" and ?F = "first_behind st start"
  let ?M = "mapped ?m ?h (rt st)"
  note rc = range_cases [OF ok b eof]
  note tu = truncated_unchanged [OF ok ln vb _ refl]
  have unchanged: "\<exists>st'. pmfs_truncate_blocks mounting now start end' st = Inr st' \<and> truncated ?F st st'"
    if "pmfs_truncate_blocks mounting now start end' st = Inr (act Flush_inode (truncate_times ?sa))"
      "\<And>k. ?F \<le> k \<Longrightarrow> file_block st k = 0"
    using that tu by blast
  show ?thesis
  proof (cases "rt st = 0")
    case True
    then have "?h = 0" using ok by (simp add: inode_ok_def sub_ok_def)
    then have "file_block st k = 0" for k using True by (simp add: file_block_def)
    then show ?thesis using True by (intro unchanged) (simp_all add: pmfs_truncate_blocks_def Let_def)
  next
    case nz: False
    show ?thesis
    proof (cases "truncate_range ?p start end'")
      case None
      then show ?thesis using rc nz by (intro unchanged) (simp_all add: pmfs_truncate_blocks_def Let_def)
    next
      case (Some lh)
      obtain lo hi where lh: "truncate_range ?p start end' = Some (lo, hi)" using Some by (cases lh) simp
      have lo: "lo = ?F" and hi: "hi < span ?h" and le_hi: "\<And>k. file_block st k \<noteq> 0 \<Longrightarrow> k \<le> hi"
        using rc lh by simp_all
      show ?thesis
      proof (cases "hi < lo")
        case True
        then have "file_block st k = 0" if "?F \<le> k" for k using that le_hi [of k] lo by fastforce
        then show ?thesis using True lh nz by (intro unchanged) (simp_all add: pmfs_truncate_blocks_def Let_def)
      next
        case False
        then have le: "lo \<le> hi" by simp
        have oka: "inode_ok ?sa" using ok by (simp add: inode_view_cong(4) [of ?sa st])
        from truncate_tree_ok [of ?sa lo hi, OF oka] nz le hi obtain freed r st1 where
          t: "truncate_tree lo hi ?sa = Inr (freed, r, st1)" "r = 0 \<or> r = rt st"
            "released (foot ?m ?L ?h (rt st) - (if r = 0 then {} else st_foot st1 ?h r)) ?sa st1"
            "cut ?m ?L ?h (rt st) lo hi (r = 0) (st_mem st1)"
            "same_on (- foot ?m ?L ?h (rt st)) ?m (st_mem st1)" "freed = card (?M \<inter> {lo..hi})" by auto
        have pi1: "st_pi st1 = ?p" and vi1: "st_vi st1 = st_vi ?sa" and al1: "alloc_ok st1"
          using t(3) by (simp_all add: released_def)
        define N where "N = left_over ?h r (st_mem st1)"
        note lc = left_over_card [OF t(4,2), folded N_def]
        let ?nb = "of_nat (card N) * of_nat ?L :: u64"
        have ib: "i_blocks ?p = of_nat (card ?M) * of_nat ?L" using ok by (simp add: inode_ok_def)
        have fr_small: "freed * ?L < 2 ^ 32"
        proof -
          have "card ?M \<le> 2 ^ 27"
            using card_mapped_bound [of ?m ?h "rt st"] span_mono [of ?h 3] ok
            by (simp add: inode_ok_def span_def META_BLK_SHIFT_def)
          moreover have "?L \<le> 0x40000" using numblocks_bounds(2) by (simp add: blk_pages_def)
          ultimately have "card ?M * ?L \<le> 2 ^ 27 * 0x40000" by (intro mult_le_mono)
          then have "unat (of_nat (card ?M * ?L) :: u64) = card ?M * ?L" by (intro unat_of_nat_less) simp
          then have "card ?M * ?L < 2 ^ 32" using small ib by simp
          moreover have "freed * ?L \<le> card ?M * ?L" using lc(2) t(6) by (intro mult_right_mono) simp_all
          ultimately show ?thesis by linarith
        qed
        have nbs: "(if mounting then pmfs_inode_count_iblocks (st_mem st1) ?p r
            else v_blocks (st_vi st1) - ucast (of_nat freed * 2 ^ (blk_type_to_shift (i_blk_type ?p) - 12) :: u32)) = ?nb"
        proof (cases mounting)
          case True
          then show ?thesis by (simp add: count_iblocks_left N_def)
        next
          case False
          have "v_blocks (st_vi st1) = of_nat (card ?M) * of_nat ?L" using vi1 vb ib by simp
          moreover have "card ?M = card N + freed" using lc(2) t(6) by simp
          ultimately show ?thesis using sub_freed [OF _ fr_small] False by simp
        qed
        let ?s2 = "st1\<lparr>st_vi := (st_vi st1)\<lparr>v_blocks := ?nb\<rparr>\<rparr>"
        let ?s3 = "truncate_times (upd_pi (\<lambda>q. q\<lparr>i_blocks := ?nb\<rparr>) ?s2)"
        have s3: "st_sbi ?s3 = st_sbi st1" "hgt ?s3 = ?h" "rt ?s3 = rt st" "blk_pages (st_pi ?s3) = ?L"
          "i_blocks (st_pi ?s3) = ?nb" "i_blk_type (st_pi ?s3) = i_blk_type ?p" "v_blocks (st_vi ?s3) = ?nb"
          "st_kmem ?s3 = st_kmem st1"
          using pi1 by (simp_all add: truncate_times_def upd_pi_def blk_pages_def)
        have rel': "freed_only (inode_pages st - (if r = 0 then {} else st_foot st1 ?h r)) st st1"
          using freed_only_released [OF t(3)] nz by (simp add: freed_only_def kmem_ok_def inode_pages_def sub_foot_def)
        have so: "same_on (- inode_pages st) ?m (st_mem st1)" using t(5) nz by (simp add: inode_pages_def sub_foot_def)
        have L1: "blk_pages (st_pi st1) = ?L" using pi1 by simp
        from truncate_rest_ok [OF ok ln nz lo b(1) le hi le_hi t(2) rel' al1 L1 t(4) so, of ?s3] s3 N_def
        obtain st4 where d: "pmfs_decrease_btree_height start r ?s3 = Inr st4"
          "truncated lo st (act Flush_inode (upd_pi (check_eof_blocks (v_size (st_vi st4))) st4))" by auto
        have "pmfs_truncate_blocks mounting now start end' st =
            Inr (act Flush_inode (upd_pi (check_eof_blocks (v_size (st_vi st4))) st4))"
          unfolding pmfs_truncate_blocks_def Let_def using nz lh le t(1) nbs d(1) by (cases mounting) simp_all
        then show ?thesis using d(2) lo by blast
      qed
    qed
  qed
qed

end
