(* ===== verification/Pmfs_Btree_Props.thy ===== *)
theory Pmfs_Btree_Props
  imports Pmfs_Btree_Inode Pmfs_Btree_Eval
begin

unbundle bit_operations_syntax

text \<open>
  Properties of the block tree of an inode: lookup against the abstract map from file pages to device pages,
  and allocation.
\<close>

section \<open>File pages and device pages\<close>

definition file_page :: "tree_st \<Rightarrow> nat \<Rightarrow> nat option" where
  "file_page st n =
     (let L = blk_pages (st_pi st); b = file_block st (n div L)
      in if b = 0 then None else Some (pblk b + n mod L))"

lemma find_disjoint:
  "\<lbrakk>tree_ok m L h b; k < span h; k' < span h; k \<noteq> k'; find_loop m h b k \<noteq> 0; find_loop m h b k' \<noteq> 0\<rbrakk> \<Longrightarrow>
   {pblk (find_loop m h b k)..<pblk (find_loop m h b k) + L} \<inter>
   {pblk (find_loop m h b k')..<pblk (find_loop m h b k') + L} = {}"
proof (induction h arbitrary: b k k')
  case 0
  then show ?case by simp
next
  case (Suc h)
  let ?i = "k div span h" and ?j = "k' div span h"
  note i = child_index [OF Suc.prems(2)] and j = child_index [OF Suc.prems(3)]
  have nz: "node_ptr m b ?i \<noteq> 0" "node_ptr m b ?j \<noteq> 0" using Suc.prems(5,6) by (auto simp: find_Suc split: if_splits)
  have r: "k mod span h < span h" "k' mod span h < span h" by simp_all
  have f: "find_loop m (Suc h) b k = find_loop m h (node_ptr m b ?i) (k mod span h)"
    "find_loop m (Suc h) b k' = find_loop m h (node_ptr m b ?j) (k' mod span h)" using nz by (simp_all add: find_Suc)
  note t = tree_ok_kid [OF Suc.prems(1) i nz(1)] tree_ok_kid [OF Suc.prems(1) j nz(2)]
  show ?case
  proof (cases "?i = ?j")
    case True
    then have "k mod span h \<noteq> k' mod span h" using Suc.prems(4) by (metis div_mult_mod_eq)
    with Suc.IH [OF t(1) r] True Suc.prems(5,6) show ?thesis unfolding f by simp
  next
    case False
    have "foot m L h (node_ptr m b ?i) \<inter> foot m L h (node_ptr m b ?j) = {}"
      using kids_disjoint(1) [OF Suc.prems(1) i j False] nz by (simp add: kid_def)
    with find_extent [OF t(1) r(1)] find_extent [OF t(2) r(2)] Suc.prems(5,6) show ?thesis unfolding f by blast
  qed
qed

lemma inode_ok_tree:
  assumes "inode_ok st" "file_block st k \<noteq> 0"
  shows "st_tree_ok st (hgt st) (rt st)" "st_foot st (hgt st) (rt st) = inode_pages st" "inode_pages st \<subseteq> st_used st"
    "k < span (hgt st)" "file_block st k = find_loop (st_mem st) (hgt st) (rt st) k"
proof -
  show k: "k < span (hgt st)" "file_block st k = find_loop (st_mem st) (hgt st) (rt st) k"
    using assms(2) by (auto simp: file_block_def split: if_splits)
  have "rt st \<noteq> 0"
  proof
    assume "rt st = 0"
    then have "hgt st = 0" using assms(1) by (simp add: inode_ok_def sub_ok_def)
    with \<open>rt st = 0\<close> k assms(2) show False by simp
  qed
  with assms(1) show "st_tree_ok st (hgt st) (rt st)" "st_foot st (hgt st) (rt st) = inode_pages st"
    "inode_pages st \<subseteq> st_used st"
    by (simp_all add: inode_ok_def sub_ok_def ready_def inode_pages_def sub_foot_def)
qed

lemma used_bound:
  assumes "alloc_ok st" "x \<in> st_used st"
  shows "x < 2 ^ 52"
  using assms used_blocks_range by (fastforce simp: alloc_ok_def balloc_inv_def)

text \<open>The code's lookup computes the abstract map.\<close>

lemma find_data_block_page:
  assumes ok: "inode_ok st"
  shows "pmfs_find_data_block st fb = (case file_page st (unat fb) of None \<Rightarrow> 0 | Some p \<Rightarrow> of_nat (p * 4096))"
    and "file_page st n = Some p \<Longrightarrow> p \<in> inode_pages st \<and> 0 < p \<and> p < 2 ^ 52"
proof -
  let ?L = "blk_pages (st_pi st)" and ?s = "blk_type_to_shift (i_blk_type (st_pi st)) - 12"
  have a: "alloc_ok st" using ok by (simp add: inode_ok_def sub_ok_def)
  show page: "p \<in> inode_pages st \<and> 0 < p \<and> p < 2 ^ 52" if p: "file_page st n = Some p" for n p
  proof -
    have b: "file_block st (n div ?L) \<noteq> 0" "p = pblk (file_block st (n div ?L)) + n mod ?L"
      using p by (auto simp: file_page_def Let_def split: if_splits)
    note t = inode_ok_tree [OF ok b(1)]
    have e: "{pblk (file_block st (n div ?L))..<pblk (file_block st (n div ?L)) + ?L} \<subseteq> inode_pages st"
      "paligned (file_block st (n div ?L))"
      using find_extent [OF t(1,4)] b(1) t(2,5) by simp_all
    have "n mod ?L < ?L" by simp
    then have "p \<in> inode_pages st" using e(1) b(2) by auto
    moreover have "0 < pblk (file_block st (n div ?L))"
    proof (rule ccontr)
      assume "\<not> 0 < pblk (file_block st (n div ?L))"
      with e(2) have "unat (file_block st (n div ?L)) = 0"
        by (metis gr0I mod_less paligned_def pblk_def div_eq_0_iff zero_neq_numeral)
      with b(1) show False by (simp add: unat_eq_0)
    qed
    ultimately show ?thesis using t(3) used_bound [OF a] b(2) by auto
  qed
  have s: "?L = 2 ^ ?s" by (rule pages_eq)
  have s64: "?s < 64" by (simp add: blk_type_to_shift_def)
  have k: "unat (drop_bit ?s fb) = unat fb div ?L"
    unfolding s by (simp only: unat_drop_bit_eq) (simp add: drop_bit_eq_div)
  have o: "unat (fb AND mask ?s) = unat fb mod ?L"
    unfolding s take_bit_eq_mask [symmetric] unsigned_take_bit_eq by (rule take_bit_eq_mod)
  have fb: "pmfs_find_data_block st fb =
      (if file_block st (unat fb div ?L) = 0 then 0
       else file_block st (unat fb div ?L) + push_bit 12 (fb AND mask ?s))"
    unfolding pmfs_find_data_block_def Let_def pmfs_find_data_block1_def k file_block_def by (simp add: not_le)
  show "pmfs_find_data_block st fb = (case file_page st (unat fb) of None \<Rightarrow> 0 | Some p \<Rightarrow> of_nat (p * 4096))"
  proof (cases "file_block st (unat fb div ?L) = 0")
    case True
    then show ?thesis unfolding fb by (simp add: file_page_def)
  next
    case False
    let ?b = "file_block st (unat fb div ?L)"
    have p: "file_page st (unat fb) = Some (pblk ?b + unat fb mod ?L)" using False by (simp add: file_page_def Let_def)
    note t = inode_ok_tree [OF ok False]
    have "paligned ?b" using find_extent [OF t(1,4)] False t(5) by simp
    then have ub: "unat ?b = pblk ?b * 4096" by (auto simp: paligned_def pblk_def)
    have "of_nat (unat ?b) = (of_nat (pblk ?b * 4096) :: u64)" by (simp only: ub)
    then have "?b = of_nat (pblk ?b * 4096)" by simp
    moreover have "push_bit 12 (fb AND mask ?s) = of_nat (unat fb mod ?L * 4096)"
    proof -
      have "of_nat (unat (fb AND mask ?s)) = (of_nat (unat fb mod ?L) :: u64)" by (simp only: o)
      then have "fb AND mask ?s = of_nat (unat fb mod ?L)" by simp
      then show ?thesis by (simp add: push_bit_eq_mult)
    qed
    ultimately show ?thesis unfolding fb p using False by (simp add: distrib_right)
  qed
qed

lemma file_page_data: "file_page st n = Some p \<Longrightarrow> p \<in> data_pages st"
  by (auto simp: file_page_def data_pages_iff Let_def split: if_splits)

lemma file_page_inj:
  assumes ok: "inode_ok st" and p: "file_page st n = Some p" "file_page st n' = Some p"
  shows "n = n'"
proof -
  let ?L = "blk_pages (st_pi st)"
  let ?b = "file_block st (n div ?L)" and ?b' = "file_block st (n' div ?L)"
  have b: "?b \<noteq> 0" "p = pblk ?b + n mod ?L" and b': "?b' \<noteq> 0" "p = pblk ?b' + n' mod ?L"
    using p by (auto simp: file_page_def Let_def split: if_splits)
  note t = inode_ok_tree [OF ok b(1)] and t' = inode_ok_tree [OF ok b'(1)]
  have r: "n mod ?L < ?L" "n' mod ?L < ?L" by simp_all
  have q: "n div ?L = n' div ?L"
  proof (rule ccontr)
    assume "n div ?L \<noteq> n' div ?L"
    from find_disjoint [OF t(1) t(4) t'(4) this, folded t(5) t'(5), OF b(1) b'(1)]
    have "{pblk ?b..<pblk ?b + ?L} \<inter> {pblk ?b'..<pblk ?b' + ?L} = {}" .
    moreover have "p \<in> {pblk ?b..<pblk ?b + ?L}" "p \<in> {pblk ?b'..<pblk ?b' + ?L}"
      unfolding atLeastLessThan_iff using b(2) b'(2) r by linarith+
    ultimately show False by blast
  qed
  then have "n mod ?L = n' mod ?L" using b(2) b'(2) by simp
  with q show ?thesis by (metis div_mult_mod_eq)
qed

section \<open>Allocation\<close>

lemma alloc_blocks1_ok:
  assumes ok: "inode_ok st" and run: "pmfs_alloc_blocks1 txn fb num zero st = (e, st')"
  defines "s \<equiv> blk_type_to_shift (i_blk_type (st_pi st)) - 12"
  defines "lo \<equiv> unat (drop_bit s fb)" and "hi \<equiv> unat (drop_bit s (fb + ucast num - 1))"
  assumes le: "lo \<le> hi"
  shows "inode_grown {lo..hi} st st' \<and> (e = 0 \<or> e = - ENOSPC) \<and> (e = 0 \<longrightarrow> (\<forall>k \<in> {lo..hi}. file_block st' k \<noteq> 0))"
proof -
  let ?h = "alloc_height (st_pi st) hi"
  note reach = alloc_height_reaches [where p = "st_pi st" and last_blocknr = hi]
  have so: "sub_ok (hgt st) (rt st) st" and h3: "hgt st \<le> 3" using ok by (simp_all add: inode_ok_def)
  have rec: "inode_grown {lo..hi} st1 st' \<and> (e = 0 \<or> e = - ENOSPC) \<and> (e = 0 \<longrightarrow> (\<forall>k \<in> {lo..hi}. file_block st' k \<noteq> 0))"
    if ok1: "inode_ok st1" and h: "hgt st1 = ?h" "rt st1 \<noteq> 0" "?h \<noteq> 0"
      and r: "recursive_alloc_blocks txn zero ?h (rt st1) lo hi nn st1 = (e, st')" for st1 nn
  proof -
    obtain h' where h': "?h = Suc h'" using h(3) by (cases ?h) auto
    have rd: "ready ?h (rt st1) st1" using ok1 h by (simp add: inode_ok_def sub_ok_def)
    have p: "alloc_post ?h (rt st1) lo hi e st1 st'"
      using recursive_alloc_ok [of h' "rt st1" st1 hi txn zero lo nn e st'] rd r reach(1) unfolding h' by blast
    then have g: "grown (hgt st1) (rt st1) {lo..hi} st1 st'" by (simp add: alloc_post_def h(1))
    have "height (st_pi st') = height (st_pi st1)" "root (st_pi st') = root (st_pi st1)"
      using grownD(2) [OF g] by (simp_all add: same_inode_def)
    then have "\<forall>k \<in> {lo..hi}. file_block st' k \<noteq> 0" if "e = 0"
      using p that h(1) mapped_iff [of _ st'] by (auto simp: alloc_post_def)
    with inode_grown_of_grown [OF ok1 g h(2)] p show ?thesis by (auto simp: alloc_post_def)
  qed
  have inc: "inode_grown {lo..hi} st st1 \<and> (e1 = 0 \<or> e1 = - ENOSPC) \<and> (e1 = 0 \<longrightarrow> hgt st1 = ?h \<and> rt st1 \<noteq> 0)"
    if i: "pmfs_increase_btree_height ?h st = (e1, st1)" and h: "hgt st < ?h" "?h \<le> 3" for e1 st1
  proof -
    obtain r h' st0 where lp: "increase_loop (?h - hgt st) (rt st) (hgt st) st = (e1, r, h', st0)"
      and s1: "st1 = act Flush_inode (upd_pi (\<lambda>p. p\<lparr>root := r, height := of_nat h'\<rparr>) st0)"
      using i by (auto simp: pmfs_increase_btree_height_def split: prod.splits)
    note il = increase_loop_ok [OF so lp]
    have h': "h' \<le> 3" "unat (of_nat h' :: u8) = h'" using il h by (auto intro!: unat_of_nat_less)
    have "inode_grown {lo..hi} st st1"
      using il h' by (intro inode_grown_of_raised [OF ok, of h' r st0]) (simp_all add: s1)
    then show ?thesis using il h h'(2) by (auto simp: s1)
  qed
  note r = run [unfolded pmfs_alloc_blocks1_def Let_def, folded s_def, folded lo_def hi_def]
  consider (big) "hgt st < ?h \<and> 3 < ?h" | (first) "\<not> (hgt st < ?h \<and> 3 < ?h)" "rt st = 0" "?h = 0"
    | (new) "\<not> (hgt st < ?h \<and> 3 < ?h)" "rt st = 0" "?h \<noteq> 0" | (one) "rt st \<noteq> 0" "?h = 0"
    | (grow) "\<not> (hgt st < ?h \<and> 3 < ?h)" "rt st \<noteq> 0" "?h \<noteq> 0" by blast
  then show ?thesis
  proof cases
    case big
    with r ok show ?thesis by (auto simp: inode_grown_refl)
  next
    case first
    have "hi = 0" using reach(1) first(3) by simp
    then have rng: "{lo..hi} = {0}" using le by auto
    show ?thesis
    proof (cases "pmfs_new_data_block zero st")
      case (Pair q st1)
      show ?thesis
      proof (cases q)
        case (Inl err)
        note ne = new_data_block_error [OF Pair [unfolded Inl]]
        from r first Pair Inl have "e = err" "st' = st1" by simp_all
        with ne ok show ?thesis
          by (auto simp: inode_grown_def inode_ok_def inode_pages_def sub_ok_def sub_foot_def file_block_def
              ready_def alloc_ok_def)
      next
        case (Inr blk)
        with r first Pair have e: "e = 0" "st' = act Flush_inode
            (upd_pi (\<lambda>p. p\<lparr>root := pmfs_get_block_off blk, height := of_nat 0\<rparr>) st1)" by simp_all
        have "inode_grown {0} st st'" "file_block st' 0 \<noteq> 0"
          by (rule first_block_grown [OF ok first(2) Pair [unfolded Inr]]; simp add: e)+
        with e(1) show ?thesis unfolding rng by simp
      qed
    qed
  next
    case new
    then have h: "hgt st < ?h" "?h \<le> 3" using so reach(2) by (auto simp: sub_ok_def)
    obtain e1 st1 where i: "pmfs_increase_btree_height ?h st = (e1, st1)" by fastforce
    note ic = inc [OF i h]
    then have ok1: "inode_ok st1" by (simp add: inode_grown_def)
    show ?thesis
    proof (cases "e1 = 0")
      case True
      with r new h i ic have "recursive_alloc_blocks txn zero ?h (rt st1) lo hi True st1 = (e, st')" by simp
      from rec [OF ok1 _ _ new(3) this] ic True inode_grown_trans show ?thesis by blast
    next
      case False
      with r new h i have "e = e1" "st' = st1" by simp_all
      with ic False show ?thesis by simp
    qed
  next
    case one
    have "hi = 0" "hgt st = 0" using reach one(2) by simp_all
    moreover from this have "lo = 0" "file_block st 0 \<noteq> 0" using le one(1) by (simp_all add: file_block_def)
    moreover have "e = 0" "st' = st" using r one by simp_all
    ultimately show ?thesis using ok by (simp add: inode_grown_refl)
  next
    case grow
    obtain e1 st1 where i: "(if hgt st < ?h then pmfs_increase_btree_height ?h st else (0, st)) = (e1, st1)" by fastforce
    have ic: "inode_grown {lo..hi} st st1 \<and> (e1 = 0 \<or> e1 = - ENOSPC) \<and> (e1 = 0 \<longrightarrow> hgt st1 = ?h \<and> rt st1 \<noteq> 0)"
    proof (cases "hgt st < ?h")
      case True
      with i inc [of e1 st1] grow(1) show ?thesis by auto
    next
      case False
      with i ok grow(2) reach(2) show ?thesis by (auto simp: inode_grown_refl)
    qed
    then have ok1: "inode_ok st1" by (simp add: inode_grown_def)
    show ?thesis
    proof (cases "e1 = 0")
      case True
      with r grow i have "recursive_alloc_blocks txn zero ?h (rt st1) lo hi False st1 = (e, st')" by simp
      from rec [OF ok1 _ _ grow(3) this] ic True inode_grown_trans show ?thesis by blast
    next
      case False
      with r grow i have "e = e1" "st' = st1" by simp_all
      with ic False show ?thesis by simp
    qed
  qed
qed

lemma alloc_blocks_grown:
  assumes ok: "inode_ok st" and num: "0 < num" "unat fb + unat num \<le> 2 ^ 64"
    and run: "pmfs_alloc_blocks txn fb num zero st = (e, st')"
  obtains st1 where "st' = st1\<lparr>st_vi := (st_vi st1)\<lparr>v_blocks := i_blocks (st_pi st1)\<rparr>\<rparr>"
    "inode_grown {unat fb div blk_pages (st_pi st)..(unat fb + unat num - 1) div blk_pages (st_pi st)} st st1"
    "e = 0 \<or> e = - ENOSPC"
    "e = 0 \<longrightarrow> (\<forall>k \<in> {unat fb div blk_pages (st_pi st)..(unat fb + unat num - 1) div blk_pages (st_pi st)}. file_block st1 k \<noteq> 0)"
proof -
  let ?L = "blk_pages (st_pi st)" and ?s = "blk_type_to_shift (i_blk_type (st_pi st)) - 12"
  obtain st1 where r1: "pmfs_alloc_blocks1 txn fb num zero st = (e, st1)"
    and s': "st' = st1\<lparr>st_vi := (st_vi st1)\<lparr>v_blocks := i_blocks (st_pi st1)\<rparr>\<rparr>"
    using run by (auto simp: pmfs_alloc_blocks_def split: prod.splits)
  have n0: "0 < unat num" using num(1) by (simp add: word_less_nat_alt)
  have un: "unat (ucast num :: u64) = unat num"
    using unat_bound [of num] by (simp add: unsigned_ucast_eq take_bit_nat_eq_self)
  have "unat (ucast num - 1 :: u64) = unat num - 1"
    using n0 un by (subst unat_sub_le) simp_all
  then have last: "unat (fb + ucast num - 1) = unat fb + unat num - 1"
    using num(2) n0 by (subst add_diff_eq [symmetric], subst unat_add_less) simp_all
  have d: "unat (drop_bit ?s x) = unat x div ?L" for x :: u64
    unfolding pages_eq by (simp only: unat_drop_bit_eq) (simp add: drop_bit_eq_div)
  have le: "unat fb div ?L \<le> (unat fb + unat num - 1) div ?L" using n0 by (intro div_le_mono) simp
  note a = alloc_blocks1_ok [OF ok r1, unfolded d last, OF le]
  with s' that show thesis by blast
qed

section \<open>Properties\<close>

text \<open>An empty file on a device of 2000 blocks of which the first three are in use.\<close>

definition pi0 :: pmfs_inode where
  "pi0 = \<lparr>i_rsvd = 0, height = 0, i_blk_type = 0, i_flags = 0, root = 0, i_size = 0, i_ctime = 0, i_mtime = 0,
     i_dtime = 0, i_mode = 0x81a4, i_links_count = 1, i_blocks = 0, i_xattr = 0, i_uid = 0, i_gid = 0,
     i_generation = 0, i_atime = 0, rdev = 0\<rparr>"

definition tst0 :: tree_st where
  "tst0 = \<lparr>st_sbi = \<lparr>block_inuse_head = [\<lparr>block_low = 0, block_high = 2\<rparr>], block_start = 0, block_end = 2000,
       num_free_blocks = 1997, num_blocknode_allocated = 1, nvmm = (\<lambda>a. 7)\<rparr>,
     st_pi = pi0, st_vi = \<lparr>v_size = 0, v_blocks = 0, v_mtime = 0, v_ctime = 0\<rparr>, st_kmem = (\<lambda>n. True), st_acts = []\<rparr>"

lemma tst0_ok: "inode_ok tst0"
proof -
  have "mapped m 0 0 = {}" for m by (simp add: mapped_def)
  then show ?thesis by (simp add: inode_ok_def sub_ok_def alloc_ok_def balloc_inv_def tst0_def pi0_def)
qed

text \<open>
  C7: in a well-formed inode \<^verbatim>\<open>pmfs_find_data_block\<close> computes an injective map from the pages of the file to
  pages of the device that the allocator has in use: the address of the mapped page, or 0 for a hole or a
  page beyond the tree.
\<close>

theorem pmfs_find_data_block_refines:
  assumes "inode_ok st"
  shows "pmfs_find_data_block st fb = (case file_page st (unat fb) of None \<Rightarrow> 0 | Some p \<Rightarrow> of_nat (p * 4096)) \<and>
    inj_on (file_page st) (dom (file_page st)) \<and> ran (file_page st) \<subseteq> inode_pages st \<and>
    inode_pages st \<subseteq> st_used st \<and> 0 \<notin> ran (file_page st)"
proof (intro conjI)
  show "pmfs_find_data_block st fb = (case file_page st (unat fb) of None \<Rightarrow> 0 | Some p \<Rightarrow> of_nat (p * 4096))"
    by (rule find_data_block_page [OF assms])
  show "inj_on (file_page st) (dom (file_page st))"
    using file_page_inj [OF assms] by (intro inj_onI) (auto simp: dom_def)
  show "ran (file_page st) \<subseteq> inode_pages st" "0 \<notin> ran (file_page st)"
    using find_data_block_page(2) [OF assms] by (auto simp: ran_def)
  show "inode_pages st \<subseteq> st_used st" using assms by (simp add: inode_ok_def inode_pages_def sub_ok_foot)
qed

text \<open>A file of one page, in block 5.\<close>

definition tst1 :: tree_st where
  "tst1 = tst0\<lparr>st_sbi := (st_sbi tst0)\<lparr>block_inuse_head := [\<lparr>block_low = 0, block_high = 5\<rparr>], num_free_blocks := 1994\<rparr>,
     st_pi := pi0\<lparr>root := 0x5000, i_blocks := 1\<rparr>\<rparr>"

lemma tst1_ok: "inode_ok tst1"
proof -
  have "mapped m 0 0x5000 = {0}" for m by (auto simp: mapped_def)
  moreover have "pblk 0x5000 = 5" "paligned 0x5000" by (simp_all add: pblk_def paligned_def)
  moreover have "unat (pmfs_get_numblocks 0) = 1" by (simp add: pmfs_get_numblocks_def PMFS_BLOCK_TYPE_4K_def)
  ultimately show ?thesis
    by (simp add: inode_ok_def sub_ok_def alloc_ok_def ready_def balloc_inv_def tst0_def tst1_def pi0_def blk_pages_def)
qed

theorem pmfs_find_data_block_refines_witness:
  "pmfs_find_data_block tst1 0 = 0x5000 \<and> file_page tst1 0 = Some 5 \<and> 5 \<in> st_used tst1"
proof -
  have p: "pmfs_find_data_block tst1 0 = 0x5000"
    by (simp add: pmfs_find_data_block_def pmfs_find_data_block1_def tst1_def pi0_def Let_def blk_type_to_shift_def)
  have f: "file_page tst1 0 = Some 5"
    by (simp add: file_page_def file_block_def Let_def tst1_def pi0_def blk_pages_def pblk_def)
  from pmfs_find_data_block_refines [OF tst1_ok, of 0] f have "5 \<in> st_used tst1" by (auto simp: ran_def)
  with p f show ?thesis by simp
qed

text \<open>
  C3: \<^verbatim>\<open>pmfs_alloc_blocks\<close> for a range of file pages keeps the inode well-formed, including the block count;
  every mapped page keeps its device page; on success every page of the range is mapped; a page in no data
  block of the range keeps its state; the inode owns exactly the newly allocated device pages in addition,
  and no byte outside its pages or in a page that was mapped before changes.  The only error is \<^verbatim>\<open>-ENOSPC\<close>.
\<close>

theorem pmfs_alloc_blocks_spec:
  assumes ok: "inode_ok st" and num: "0 < num" "unat fb + unat num \<le> 2 ^ 64"
    and run: "pmfs_alloc_blocks txn fb num zero st = (e, st')"
  shows "inode_ok st' \<and> (e = 0 \<or> e = - ENOSPC) \<and>
    (\<forall>n p. file_page st n = Some p \<longrightarrow> file_page st' n = Some p) \<and>
    (e = 0 \<longrightarrow> (\<forall>n. unat fb \<le> n \<and> n < unat fb + unat num \<longrightarrow> file_page st' n \<noteq> None)) \<and>
    (\<forall>n. n div blk_pages (st_pi st) < unat fb div blk_pages (st_pi st) \<or>
         (unat fb + unat num - 1) div blk_pages (st_pi st) < n div blk_pages (st_pi st) \<longrightarrow>
         file_page st' n = file_page st n) \<and>
    inode_pages st' = inode_pages st \<union> (st_used st' - st_used st) \<and> st_used st \<subseteq> st_used st' \<and>
    same_on (- inode_pages st') (st_mem st) (st_mem st') \<and>
    (\<forall>n p. file_page st n = Some p \<longrightarrow> same_on {p} (st_mem st) (st_mem st')) \<and>
    v_blocks (st_vi st') = i_blocks (st_pi st')"
proof -
  let ?L = "blk_pages (st_pi st)"
  obtain st1 where s': "st' = st1\<lparr>st_vi := (st_vi st1)\<lparr>v_blocks := i_blocks (st_pi st1)\<rparr>\<rparr>"
    and a: "inode_grown {unat fb div ?L..(unat fb + unat num - 1) div ?L} st st1 \<and> (e = 0 \<or> e = - ENOSPC) \<and>
      (e = 0 \<longrightarrow> (\<forall>k \<in> {unat fb div ?L..(unat fb + unat num - 1) div ?L}. file_block st1 k \<noteq> 0))"
    using alloc_blocks_grown [OF ok num run] by metis
  let ?R = "{unat fb div ?L..(unat fb + unat num - 1) div ?L}"
  have L': "blk_pages (st_pi st1) = ?L" using a by (simp add: inode_grown_def blk_pages_def)
  have fp: "file_page st' n = (let b = file_block st1 (n div ?L) in if b = 0 then None else Some (pblk b + n mod ?L))" for n
    by (simp add: file_page_def s' L' file_block_def Let_def)
  have k1: "file_page st' n = Some p" if "file_page st n = Some p" for n p
    using that a unfolding fp by (auto simp: file_page_def Let_def inode_grown_def split: if_splits)
  have k2: "file_page st' n \<noteq> None" if "e = 0" "unat fb \<le> n" "n < unat fb + unat num" for n
  proof -
    have "unat fb div ?L \<le> n div ?L" "n div ?L \<le> (unat fb + unat num - 1) div ?L"
      using that by (auto intro: div_le_mono)
    then show ?thesis unfolding fp using a that(1) by (auto simp: Let_def)
  qed
  have k3: "file_page st' n = file_page st n" if "n div ?L \<notin> ?R" for n
    using that a unfolding fp by (simp add: file_page_def Let_def inode_grown_def)
  have st: "inode_pages st' = inode_pages st1" "inode_ok st' = inode_ok st1"
    by (simp_all add: s' inode_pages_def sub_foot_def inode_ok_def sub_ok_def ready_def alloc_ok_def)
  show ?thesis
    unfolding st
  proof (intro conjI allI impI)
    show "inode_ok st1" "e = 0 \<or> e = - ENOSPC" using a by (simp_all add: inode_grown_def)
    show "inode_pages st1 = inode_pages st \<union> (st_used st' - st_used st)" "st_used st \<subseteq> st_used st'"
      using a by (simp_all add: inode_grown_def s')
    show "same_on (- inode_pages st1) (st_mem st) (st_mem st')"
      using a unfolding inode_grown_def s' by (elim conjE) simp
    show "v_blocks (st_vi st') = i_blocks (st_pi st')" by (simp add: s')
    show "same_on {p} (st_mem st) (st_mem st')" if "file_page st n = Some p" for n p
      using a file_page_data [OF that] unfolding inode_grown_def s' by (elim conjE) (simp add: same_on_def)
  qed (use k1 k2 k3 in auto)
qed

text \<open>Page 5 of the empty file; the tree grows to height 1.\<close>

theorem pmfs_alloc_blocks_spec_witness:
  "fst (pmfs_alloc_blocks True 5 1 True tst0) = 0 \<and>
   file_page (snd (pmfs_alloc_blocks True 5 1 True tst0)) 5 \<noteq> None"
proof -
  have e: "fst (pmfs_alloc_blocks True 5 1 True tst0) = 0" by (simp add: alloc_eval tst0_def pi0_def)
  then obtain st' where r: "pmfs_alloc_blocks True 5 1 True tst0 = (0, st')"
    by (cases "pmfs_alloc_blocks True 5 1 True tst0") simp
  from pmfs_alloc_blocks_spec [OF tst0_ok _ _ r] e r show ?thesis by simp
qed

text \<open>A file of which only page 1100 is allocated; block 5 is the meta block that holds its pointer.\<close>

definition tst1100 :: tree_st where
  "tst1100 = (snd (pmfs_alloc_blocks False 1100 1 True tst0))\<lparr>st_acts := []\<rparr>"


end
