(* ===== verification/Pmfs_Btree_Truncate.thy ===== *)
theory Pmfs_Btree_Truncate
  imports Pmfs_Btree_Resize Pmfs_Btree_Props
begin

unbundle bit_operations_syntax

text \<open>
  Properties of truncation: its effect on a well-formed inode, the block count of a tree, and the truncation of
  a file whose tree has an empty meta block.
\<close>

text \<open>
  C4: \<^verbatim>\<open>__pmfs_truncate_blocks\<close> on a well-formed inode without empty meta blocks ends without a fault.  The
  blocks behind the new size are unmapped and every other block stays where it is; the inode stays well-formed,
  again without empty meta blocks and with an exact block count, at a height that may be lower.  Only pages of
  the inode that it no longer uses are freed, all of them unless the allocator fails to get memory, and no
  byte outside the inode's pages changes.  The range must reach the last block of the file, and the block count
  must fit the 32 bits in which the freed pages are counted.
\<close>

theorem pmfs_truncate_blocks_spec:
  assumes "inode_ok st" "lean_inode st" "v_blocks (st_vi st) = i_blocks (st_pi st)"
    and "unat (i_blocks (st_pi st)) < 2 ^ 32" "unat start < 2 ^ 62" "unat end' < 2 ^ 63"
    and "\<And>k. file_block st k \<noteq> 0 \<Longrightarrow>
      i_flags (st_pi st) AND PMFS_EOFBLOCKS_FL \<noteq> 0 \<or> k * blk_bytes st < unat end'"
  shows "\<exists>st'. pmfs_truncate_blocks mounting now start end' st = Inr st' \<and>
    inode_ok st' \<and> lean_inode st' \<and> v_blocks (st_vi st') = i_blocks (st_pi st') \<and>
    (\<forall>k. file_block st' k = (if k * blk_bytes st < unat start then file_block st k else 0)) \<and>
    inode_pages st' \<subseteq> inode_pages st \<and> st_used st' \<subseteq> st_used st \<and>
    st_used st - st_used st' \<subseteq> inode_pages st - inode_pages st' \<and>
    ((\<forall>n. st_kmem st n) \<longrightarrow> st_used st' = st_used st - (inode_pages st - inode_pages st')) \<and>
    same_on (- inode_pages st) (st_mem st) (st_mem st')"
proof -
  have f: "k < first_behind st start \<longleftrightarrow> k * blk_bytes st < unat start" for k
  proof -
    have "k < first_behind st start \<longleftrightarrow> Suc k * blk_bytes st \<le> unat start + blk_bytes st - 1"
      unfolding first_behind_def Suc_le_eq [symmetric] by (rule less_eq_div_iff_mult_less_eq) simp
    also have "\<dots> \<longleftrightarrow> k * blk_bytes st < unat start"
    proof -
      have "0 < blk_bytes st" by simp
      then show ?thesis unfolding mult_Suc by linarith
    qed
    finally show ?thesis .
  qed
  from truncate_blocks_ok [OF assms] obtain st' where
    r: "pmfs_truncate_blocks mounting now start end' st = Inr st'" and t: "truncated (first_behind st start) st st'" by blast
  show ?thesis
    using r t unfolding truncated_def freed_only_def kmem_ok_def f by (intro exI [of _ st'] conjI) (elim conjE; simp)+
qed

text \<open>The one-page file truncated to nothing.\<close>

definition tst2 :: tree_st where
  "tst2 = tst1\<lparr>st_vi := (st_vi tst1)\<lparr>v_size := 0x1000, v_blocks := 1\<rparr>\<rparr>"

theorem pmfs_truncate_blocks_spec_witness:
  "\<exists>st'. pmfs_truncate_blocks False 9 0 0x1000 tst2 = Inr st' \<and> file_block tst2 0 = 0x5000 \<and> file_block st' 0 = 0"
proof -
  have "inode_ok tst2 = inode_ok tst1" unfolding tst2_def by (rule inode_view_cong(4)) simp_all
  then have ok: "inode_ok tst2" using tst1_ok by simp
  have t: "lean_inode tst2" "v_blocks (st_vi tst2) = i_blocks (st_pi tst2)" "unat (i_blocks (st_pi tst2)) < 2 ^ 32"
    "file_block tst2 0 = 0x5000" "\<And>k. file_block tst2 k \<noteq> 0 \<Longrightarrow> k = 0"
    by (simp_all add: lean_inode_def tst2_def tst1_def tst0_def pi0_def file_block_def split: if_splits)
  from pmfs_truncate_blocks_spec [OF ok t(1-3), where start = 0 and end' = "0x1000" and mounting = False and now = 9] t(4,5) show ?thesis by force
qed

text \<open>
  C28: the count of a tree's blocks that \<^verbatim>\<open>pmfs_inode_count_iblocks\<close> makes by walking the tree is the number of
  file blocks for which the lookup finds a data block, in units of pages.
\<close>

theorem pmfs_inode_count_iblocks_exact:
  "pmfs_inode_count_iblocks m p r =
     (if r = 0 then 0
      else of_nat (card {k. k < span (unat (height p)) \<and> find_loop m (unat (height p)) r k \<noteq> 0}) * of_nat (blk_pages p))"
  by (simp add: count_iblocks_left left_over_def mapped_def)

section \<open>An empty meta block\<close>

text \<open>Evaluation of a truncation by rewriting.\<close>

lemma recursive_truncate_Suc:
  "recursive_truncate_blocks btype (Suc h) b lo hi st =
     rbind (if h = 0 then
              rbind (trunc_leaf btype b (child_count h lo hi) (lo div span h) None 0 st)
                (\<lambda>(freed, st1). Inr (\<lparr>ta_start = lo div span h, ta_end = hi div span h, ta_all = True, ta_freed = freed\<rparr>, st1))
            else trunc_inner h (recursive_truncate_blocks btype h) b lo hi (child_count h lo hi) (lo div span h)
              \<lparr>ta_start = lo div span h, ta_end = hi div span h, ta_all = True, ta_freed = 0\<rparr> st)
       (\<lambda>(a1, st1). Inr (trunc_finish b (lo div span h) (hi div span h) a1 st1))"
  by (simp add: Let_def)

lemma rec_trunc_eval:
  "recursive_truncate_blocks btype (numeral k) b = recursive_truncate_blocks btype (Suc (pred_numeral k)) b"
  "trunc_leaf btype b (numeral k) = trunc_leaf btype b (Suc (pred_numeral k))"
  "trunc_inner h rec b lo hi (numeral k) = trunc_inner h rec b lo hi (Suc (pred_numeral k))"
  "decrease_loop (numeral k) = decrease_loop (Suc (pred_numeral k))"
  by (simp_all only: numeral_eq_Suc)

lemmas trunc_eval = recursive_truncate_Suc rec_trunc_eval pmfs_truncate_blocks_def truncate_range_def truncate_tree_def
  truncate_times_def pmfs_sparse_last_blocknr_def trunc_finish_def is_empty_iff tree_free_block_def tree_free_locked_def
  pmfs_free_block_def pmfs_free_block_locked_def pmfs_get_blocknr_def free_start_def pmfs_decrease_btree_height_def
  shift_result_def pmfs_inode_blk_shift_def pmfs_inode_blk_size_def blk_type_to_size_def check_eof_blocks_def

text \<open>
  C35: when the first write of a file is to page 600, \<^verbatim>\<open>pmfs_increase_btree_height\<close> leaves an empty meta block under
  the root.  Truncating that file from 601 to 600 pages then frees its only data block but not the root, and
  runs into the \<^verbatim>\<open>BUG_ON(newroot != 0)\<close> of \<^verbatim>\<open>pmfs_decrease_btree_height\<close>.
\<close>

theorem sparse_truncate_bug_on:
  "\<exists>st. pmfs_alloc_blocks False 600 1 True tst0 = (0, st) \<and>
     pmfs_truncate_blocks False 9 0x258000 0x259000 (st\<lparr>st_vi := (st_vi st)\<lparr>v_size := 0x258000\<rparr>\<rparr>) = Inl Tree_bug_on"
proof -
  have e: "fst (pmfs_alloc_blocks False 600 1 True tst0) = 0" by (simp add: alloc_eval tst0_def pi0_def)
  have r: "pmfs_truncate_blocks False 9 0x258000 0x259000 (st\<lparr>st_vi := (st_vi st)\<lparr>v_size := 0x258000\<rparr>\<rparr>) = Inl Tree_bug_on"
    if "pmfs_alloc_blocks False 600 1 True tst0 = (0, st)" for st
    using that [unfolded tst0_def pi0_def, simplified alloc_eval, simplified, symmetric] by (simp add: alloc_eval trunc_eval)
  show ?thesis
    using e r by (cases "pmfs_alloc_blocks False 600 1 True tst0") simp
qed

end
