(* ===== verification/Pmfs_Btree_Seek.thy ===== *)
theory Pmfs_Btree_Seek
  imports Pmfs_Btree_Truncate
begin

unbundle bit_operations_syntax

text \<open>
  \<^verbatim>\<open>pmfs_find_region\<close> (\<^verbatim>\<open>SEEK_DATA\<close> and \<^verbatim>\<open>SEEK_HOLE\<close>) on a tree of one level of pointers, against the search in the
  abstract map of the file.
\<close>

definition next_data :: "tree_st \<Rightarrow> nat \<Rightarrow> nat \<Rightarrow> nat option" where
  "next_data st i j = find (\<lambda>k. file_block st k \<noteq> 0) [i..<j]"

definition next_hole :: "tree_st \<Rightarrow> nat \<Rightarrow> nat \<Rightarrow> nat option" where
  "next_hole st i j = find (\<lambda>k. file_block st k = 0) [i..<j]"

lemma upt_first: "[i..<i + Suc n] = i # [Suc i..<Suc i + n]"
  by (simp add: upt_conv_Cons del: upt_Suc)

lemma find_upt_ge: "find P [i..<j] = Some k \<Longrightarrow> i \<le> k \<and> k < j"
  by (auto simp: find_Some_iff)

lemma region_data:
  "region_loop m False 0 rec b lo hi n i bl df hf =
    (case find (\<lambda>k. node_ptr m b k \<noteq> 0) [i..<i + n] of
       Some k \<Rightarrow> (bl + (k - i), True, hf \<or> i < k)
     | None \<Rightarrow> (bl + n, df, hf \<or> 0 < n))"
proof (induction n arbitrary: i bl df hf)
  case (Suc n)
  show ?case
    unfolding upt_first using find_upt_ge [of "\<lambda>k. node_ptr m b k \<noteq> 0" "Suc i" "Suc i + n"]
    by (cases "find (\<lambda>k. node_ptr m b k \<noteq> 0) [Suc i..<Suc i + n]")
      (auto simp: Suc.IH Let_def simp del: upt_Suc add_Suc)
qed simp

lemma region_in_hole:
  "region_loop m True 0 rec b lo hi n i bl df True = (bl, df \<or> (\<exists>k \<in> {i..<i + n}. node_ptr m b k \<noteq> 0), True)"
proof (induction n arbitrary: i bl df)
  case (Suc n)
  have "{i..<i + Suc n} = insert i {Suc i..<Suc i + n}" by auto
  then show ?case by (simp add: Suc.IH Let_def del: add_Suc)
qed simp

lemma region_hole:
  "region_loop m True 0 rec b lo hi n i bl df False =
    (case find (\<lambda>k. node_ptr m b k = 0) [i..<i + n] of
       Some k \<Rightarrow> (bl + (k - i), df \<or> (\<exists>k \<in> {i..<i + n}. node_ptr m b k \<noteq> 0), True)
     | None \<Rightarrow> (bl + n, df \<or> 0 < n, False))"
proof (induction n arbitrary: i bl df)
  case (Suc n)
  have "{i..<i + Suc n} = insert i {Suc i..<Suc i + n}" by auto
  then show ?case
    unfolding upt_first using find_upt_ge [of "\<lambda>k. node_ptr m b k = 0" "Suc i" "Suc i + n"]
    by (cases "find (\<lambda>k. node_ptr m b k = 0) [Suc i..<Suc i + n]")
      (auto simp: Suc.IH Let_def region_in_hole simp del: upt_Suc add_Suc)
qed simp

text \<open>The offset the code computes when the search moved on by \<open>n\<close> blocks.\<close>

lemma seek_offset:
  fixes offset :: u64
  assumes d: "d < 64"
  shows "(if offset AND mask d \<noteq> 0 then offset + push_bit d (of_nat n - 1) + (2 ^ d - (offset AND mask d))
      else offset + push_bit d (of_nat n)) = of_nat ((unat offset div 2 ^ d + n) * 2 ^ d)"
proof -
  have r: "offset AND mask d = of_nat (unat offset mod 2 ^ d)"
  proof -
    have "unat (offset AND mask d) = unat offset mod 2 ^ d"
      unfolding take_bit_eq_mask [symmetric] unsigned_take_bit_eq by (rule take_bit_eq_mod)
    then have "of_nat (unat (offset AND mask d)) = (of_nat (unat offset mod 2 ^ d) :: u64)" by (simp only:)
    then show ?thesis by simp
  qed
  have "offset = of_nat (unat offset div 2 ^ d * 2 ^ d + unat offset mod 2 ^ d)" by (simp only: div_mult_mod_eq) simp
  then have o: "offset = of_nat (unat offset div 2 ^ d) * 2 ^ d + (offset AND mask d)" unfolding r by simp
  from arg_cong [OF o, of "\<lambda>x. x - (offset AND mask d)"]
  have q: "offset - (offset AND mask d) = of_nat (unat offset div 2 ^ d) * 2 ^ d" by (simp only: add_diff_cancel_right')
  show ?thesis
  proof (cases "offset AND mask d = 0")
    case True
    then show ?thesis using q by (simp add: push_bit_eq_mult distrib_right)
  next
    case False
    have "offset + push_bit d (of_nat n - 1) + (2 ^ d - (offset AND mask d)) =
        (offset - (offset AND mask d)) + of_nat n * 2 ^ d" by (simp add: push_bit_eq_mult left_diff_distrib)
    then show ?thesis using False by (simp only: q) (simp add: distrib_right)
  qed
qed

lemma seek_range:
  fixes offset :: u64
  assumes "unat offset < 2 ^ (d + 9)" "d \<le> 30"
  shows "unat (signed_drop_bit d offset) = unat offset div 2 ^ d" "unat offset div 2 ^ d < 512" "sint offset = int (unat offset)"
proof -
  have b: "(2 ^ (d + 9) :: nat) \<le> 2 ^ 39" using assms(2) by (intro power_increasing) simp_all
  then have s: "unat offset < 2 ^ 63" using assms(1) by simp
  then show "unat (signed_drop_bit d offset) = unat offset div 2 ^ d" by (rule signed_drop_small)
  show "unat offset div 2 ^ d < 512" using assms(1) by (simp add: less_mult_imp_div_less power_add)
  have "int (unat offset) < int (2 ^ 63)" using s by (simp only: of_nat_less_iff)
  then show "sint offset = int (unat offset)" 
    by (simp add: sint_uint signed_take_bit_int_eq_self_iff) (rule order_trans [OF _ uint_ge_0], simp)
qed

lemma find_region_flat:
  assumes h: "height (st_pi st) = 1" "rt st \<noteq> 0" "v_blocks (st_vi st) \<noteq> 0"
    and o: "unat offset < unat (v_size (st_vi st))" "unat (v_size (st_vi st)) < 512 * blk_bytes st"
  shows "pmfs_find_region st offset hole =
    (let F = unat offset div blk_bytes st; E = Suc (unat (v_size (st_vi st)) div blk_bytes st)
     in if hole then
          (0, case next_hole st F E of
             None \<Rightarrow> v_size (st_vi st)
           | Some k \<Rightarrow> if F < k then of_nat (k * blk_bytes st)
                      else if next_data st F E = None then v_size (st_vi st) else offset)
        else
          (case next_data st F E of
             None \<Rightarrow> (of_int (- ENXIO), offset)
           | Some k \<Rightarrow> (0, if F < k then of_nat (k * blk_bytes st) else offset)))"
proof -
  let ?d = "blk_type_to_shift (i_blk_type (st_pi st))" and ?v = "v_size (st_vi st)"
  let ?F = "unat offset div blk_bytes st" and ?E = "Suc (unat ?v div blk_bytes st)"
  have d: "?d \<le> 30" by (simp add: blk_type_to_shift_def)
  have b: "unat ?v < 2 ^ (?d + 9)" "unat offset < 2 ^ (?d + 9)" using o by (simp_all add: power_add)
  note rv = seek_range [OF b(1) d] and ro = seek_range [OF b(2) d]
  have FE: "?F + (?E - ?F) = ?E" "0 < ?E - ?F" using o(1) div_le_mono [of "unat offset" "unat ?v" "blk_bytes st"] by simp_all
  have p: "node_ptr (st_mem st) (rt st) k = file_block st k" if "k < ?E" for k
    using that rv(2) h(1) by (simp add: file_block_def find_Suc span_def META_BLK_SHIFT_def)
  have cong: "find (\<lambda>k. Q (node_ptr (st_mem st) (rt st) k)) [?F..<?E] = find (\<lambda>k. Q (file_block st k)) [?F..<?E]" for Q
    using p by (intro find_cong) (auto simp del: upt_Suc)
  have ex: "(\<exists>k \<in> {?F..<?E}. node_ptr (st_mem st) (rt st) k \<noteq> 0) \<longleftrightarrow> next_data st ?F ?E \<noteq> None"
    using p by (auto simp: next_data_def find_None_iff)
  have run: "recursive_find_region (st_mem st) q (Suc 0) (rt st) ?F (unat ?v div blk_bytes st) False False =
      region_loop (st_mem st) q 0 (recursive_find_region (st_mem st) q 0) (rt st) ?F (unat ?v div blk_bytes st)
        (?E - ?F) ?F 0 False False" for q
    by (simp add: child_count_def span_def)
  have s: "\<not> sint ?v \<le> sint offset" using o(1) unfolding rv(3) ro(3) by (simp only: of_nat_le_iff not_le)
  show ?thesis
  proof (cases hole)
    case True
    note rh = run [of True, unfolded region_hole [of _ _ _ _ _ "?E - ?F" ?F] FE(1) cong [of "\<lambda>x. x = 0"], folded next_hole_def, unfolded ex]
    show ?thesis
    proof (cases "next_hole st ?F ?E")
      case None
      then show ?thesis using True h s FE(2) by (simp add: pmfs_find_region_def Let_def rv(1) ro(1) rh del: recursive_find_region.simps)
    next
      case (Some k)
      then have k: "?F \<le> k" unfolding next_hole_def by (blast dest: find_upt_ge)
      then show ?thesis
        using True h s Some seek_offset [of ?d offset "k - ?F"] d ex
        by (auto simp: pmfs_find_region_def Let_def rv(1) ro(1) rh simp del: recursive_find_region.simps)
    qed
  next
    case False
    note rd = run [of False, unfolded region_data [of _ _ _ _ _ "?E - ?F" ?F] FE(1) cong [of "\<lambda>x. x \<noteq> 0"], folded next_data_def]
    show ?thesis
    proof (cases "next_data st ?F ?E")
      case None
      then show ?thesis using False h s FE(2) by (simp add: pmfs_find_region_def Let_def rv(1) ro(1) rd del: recursive_find_region.simps)
    next
      case (Some k)
      then have k: "?F \<le> k" unfolding next_data_def by (blast dest: find_upt_ge)
      then show ?thesis
        using False h s Some seek_offset [of ?d offset "k - ?F"] d
        by (auto simp: pmfs_find_region_def Let_def rv(1) ro(1) rd simp del: recursive_find_region.simps)
    qed
  qed
qed

section \<open>Properties\<close>


text \<open>A file of six pages of which only the last is allocated.\<close>

definition tst5 :: tree_st where
  "tst5 = (let st = snd (pmfs_alloc_blocks False 5 1 True tst0) in st\<lparr>st_vi := (st_vi st)\<lparr>v_size := 0x6000\<rparr>\<rparr>)"

lemma tst5_fields:
  "height (st_pi tst5) = 1" "rt tst5 = 0x3000" "v_blocks (st_vi tst5) = 1" "v_size (st_vi tst5) = 0x6000"
  "i_blk_type (st_pi tst5) = 0" "node_ptr (st_mem tst5) 0x3000 5 = 0x4000"
  by (simp_all add: tst5_def tst0_def pi0_def alloc_eval)

lemma tst5_hole: "k < 512 \<Longrightarrow> k \<noteq> 5 \<Longrightarrow> node_ptr (st_mem tst5) 0x3000 k = 0"
  by (cases "k = 0"; cases "k < 5") (simp_all add: tst5_def tst0_def pi0_def alloc_eval)


section \<open>Trees of more levels\<close>

definition tst1200 :: tree_st where
  "tst1200 = (let st = snd (pmfs_alloc_blocks False 1200 1 True tst0) in st\<lparr>st_vi := (st_vi st)\<lparr>v_size := 0x4b1000\<rparr>\<rparr>)"

lemma tst1200_fields:
  "height (st_pi tst1200) = 2" "rt tst1200 = 0x4000" "v_blocks (st_vi tst1200) = 1" "v_size (st_vi tst1200) = 0x4b1000"
  "i_blk_type (st_pi tst1200) = 0" "node_ptr (st_mem tst1200) 0x4000 1 = 0" "node_ptr (st_mem tst1200) 0x4000 2 = 0x5000"
  "node_ptr (st_mem tst1200) 0x5000 176 = 0x6000"
  by (simp_all add: tst1200_def tst0_def pi0_def alloc_eval)

lemma tst1200_hole: "k < 176 \<Longrightarrow> node_ptr (st_mem tst1200) 0x5000 k = 0"
  by (simp add: tst1200_def tst0_def pi0_def alloc_eval)

text \<open>
  in a tree with two levels of pointers a missing child is counted with its full 512 blocks even when the search
  starts inside it.  In a file whose only data page is page 1200, \<^verbatim>\<open>SEEK_DATA\<close> from page 600 on moves to page 1288,
  which is behind the data and behind the end of the file.
\<close>

lemma seek_data_beyond_end:
  "pmfs_find_data_block tst1200 1200 = 0x6000 \<and> pmfs_find_region tst1200 0x258000 False = (0, 0x508000) \<and>
   v_size (st_vi tst1200) < 0x508000"
proof -
  have "find (\<lambda>k. node_ptr (st_mem tst1200) 0x5000 k \<noteq> 0) [0..<178] = Some 176"
    unfolding find_Some_iff by (intro exI [of _ 176]) (simp add: tst1200_hole tst1200_fields)
  then have l: "region_loop (st_mem tst1200) False 0 r 0x5000 0 177 178 0 0 False True = (176, True, True)" for r
    by (simp add: region_data del: upt_Suc)
  have "recursive_find_region (st_mem tst1200) False 2 0x4000 600 1201 False False = (688, True, True)"
  proof -
    have c: "child_count (Suc 0) 600 1201 = Suc (Suc 0)" "child_count 0 0 177 = 178"
      by (simp_all add: child_count_def span_def META_BLK_SHIFT_def)
    show ?thesis
      by (simp only: numeral_2_eq_2 recursive_find_region.simps c)
        (simp add: child_first_def child_last_def span_eval span_def META_BLK_SHIFT_def Let_def l c
          tst1200_fields(6) [unfolded One_nat_def] tst1200_fields(7) [unfolded numeral_2_eq_2])
  qed
  moreover have "find_loop (st_mem tst1200) 2 0x4000 1200 = 0x6000"
    by (simp add: rec_eval find_Suc span_eval tst1200_fields)
  ultimately show ?thesis
    by (simp add: pmfs_find_data_block_def pmfs_find_data_block1_def pmfs_find_region_def Let_def tst1200_fields
        blk_type_to_shift_def span_eval mask_eq_exp_minus_1)
qed

end
