(* ===== verification/Pmfs_Dir.thy ===== *)
theory Pmfs_Dir
  imports Pmfs_Btree
begin

unbundle bit_operations_syntax

text \<open>
  Directories of PMFS (dir.c, and the parts of namei.c and pmfs.h that read directory blocks).  A directory is
  a file whose blocks each hold a chain of entries; the length field of an entry leads to the next one.

  The state is that of the directory's inode and its tree: entries are bytes of the device memory, and a
  pointer to an entry is an address there.  \<open>txn\<close> says whether there is a transaction.  \<open>Log_inode\<close> records
  the log entry for the directory's inode and \<open>Add_logentry\<close> those for directory entries; they have no other
  effect here.  Names are byte lists of at most 255 bytes, as the kernel guarantees.

  A search for a free slot follows length fields without a check, so it may not end; its value is then \<open>None\<close>.
\<close>

section \<open>Entries\<close>

definition le16 :: "u16 \<Rightarrow> u8 list" where "le16 w = le_bytes 2 (unat w)"

definition get16 :: "mem \<Rightarrow> nat \<Rightarrow> u16" where "get16 m a = of_nat (le_nat (nget m a 2))"

definition PMFS_NAME_LEN :: nat where "PMFS_NAME_LEN = 255"

definition PMFS_DIR_REC_LEN :: "nat \<Rightarrow> nat" where
  "PMFS_DIR_REC_LEN name_len = (name_len + 12 + 3) div 4 * 4"

text \<open>The fields of \<^verbatim>\<open>struct pmfs_direntry\<close> at an address.\<close>

definition de_ino :: "mem \<Rightarrow> nat \<Rightarrow> u64" where "de_ino m de = get64 m de"
definition de_len :: "mem \<Rightarrow> nat \<Rightarrow> nat" where "de_len m de = unat (get16 m (de + 8))"
definition de_name_len :: "mem \<Rightarrow> nat \<Rightarrow> nat" where "de_name_len m de = unat (m (de + 10))"

definition pmfs_match :: "mem \<Rightarrow> u8 list \<Rightarrow> nat \<Rightarrow> bool" where
  "pmfs_match m name de \<longleftrightarrow>
     length name = de_name_len m de \<and> de_ino m de \<noteq> 0 \<and> nget m (de + 12) (length name) = name"

definition pmfs_check_dir_entry :: "mem \<Rightarrow> nat \<Rightarrow> nat \<Rightarrow> bool" where
  "pmfs_check_dir_entry m base de =
     (let rlen = de_len m de
      in if rlen < PMFS_DIR_REC_LEN 1 then False
         else if rlen mod 4 \<noteq> 0 then False
         else if rlen < PMFS_DIR_REC_LEN (de_name_len m de) then False
         else if de - base + rlen > 4096 then False
         else True)"

section \<open>Searching a block\<close>

datatype dir_search =
    Search_error
  | Not_found
  | Found nat "nat option"

function search_loop :: "mem \<Rightarrow> nat \<Rightarrow> u8 list \<Rightarrow> nat option \<Rightarrow> nat \<Rightarrow> dir_search" where
  "search_loop m blk_base name pde de =
     (if de < blk_base + 4096 then
        if de + length name \<le> blk_base + 4096 \<and> pmfs_match m name de then
          if \<not> pmfs_check_dir_entry m blk_base de then Search_error else Found de pde
        else if de_len m de = 0 then Search_error
        else search_loop m blk_base name (Some de) (de + de_len m de)
      else Not_found)"
  by pat_completeness auto
termination
  by (relation "measure (\<lambda>(m, blk_base, name, pde, de). blk_base + 4096 - de)") auto

declare search_loop.simps [simp del]

definition pmfs_search_dirblock :: "mem \<Rightarrow> nat \<Rightarrow> u8 list \<Rightarrow> dir_search" where
  "pmfs_search_dirblock m blk_base name = search_loop m blk_base name None blk_base"

section \<open>Adding an entry\<close>

definition log_entry :: "bool \<Rightarrow> nat \<Rightarrow> nat \<Rightarrow> tree_st \<Rightarrow> tree_st" where
  "log_entry txn addr n st = (if txn then act (Add_logentry addr n) st else st)"

definition log_inode :: "bool \<Rightarrow> tree_st \<Rightarrow> tree_st" where
  "log_inode txn st = (if txn then act Log_inode st else st)"

definition put_bytes :: "nat \<Rightarrow> u8 list \<Rightarrow> tree_st \<Rightarrow> tree_st" where
  "put_bytes a bs st = upd_mem (nput a bs) st"

text \<open>The entry with enough room, or the first address behind \<open>lim\<close>.\<close>

partial_function (option) slot_loop :: "mem \<Rightarrow> nat \<Rightarrow> nat \<Rightarrow> nat \<Rightarrow> nat option" where
  "slot_loop m reclen lim de =
     (if de \<le> lim then
        let rlen = de_len m de in
        if de_ino m de \<noteq> 0 then
          if PMFS_DIR_REC_LEN (de_name_len m de) + reclen \<le> rlen then Some de
          else slot_loop m reclen lim (de + rlen)
        else if reclen \<le> rlen then Some de
        else slot_loop m reclen lim (de + rlen)
      else Some de)"

definition fill_dirent :: "bool \<Rightarrow> u32 \<Rightarrow> u8 list \<Rightarrow> u64 \<Rightarrow> nat \<Rightarrow> tree_st \<Rightarrow> tree_st" where
  "fill_dirent txn now name ino de st =
     (let rlen = de_len (st_mem st) de;
          (de', st1) =
            (if de_ino (st_mem st) de \<noteq> 0 then
               let st0 = log_entry txn (de + 8) 2 st;
                   nlen = PMFS_DIR_REC_LEN (de_name_len (st_mem st0) de);
                   de1 = de + nlen
               in (de1, put_bytes (de + 8) (le16 (of_nat nlen))
                          (put_bytes (de1 + 8) (le16 (of_nat rlen - of_nat nlen)) st0))
             else (de, log_entry txn de 8 st));
          st2 = put_bytes de' (le64 ino) st1;
          st3 = put_bytes (de' + 10) [of_nat (length name)] st2;
          st4 = put_bytes (de' + 12) name st3;
          st5 = act (Flush_buffer de' (PMFS_DIR_REC_LEN (length name))) st4;
          st6 = st5\<lparr>st_vi := (st_vi st5)\<lparr>v_mtime := now, v_ctime := now\<rparr>\<rparr>
      in upd_pi (\<lambda>p. p\<lparr>i_mtime := now, i_ctime := now\<rparr>) st6)"

text \<open>\<open>ino\<close> is 0 when the code is called without an inode.\<close>

definition pmfs_add_dirent_to_buf ::
    "bool \<Rightarrow> u32 \<Rightarrow> u8 list \<Rightarrow> u64 \<Rightarrow> nat option \<Rightarrow> nat \<Rightarrow> tree_st \<Rightarrow> (int \<times> tree_st) option" where
  "pmfs_add_dirent_to_buf txn now name ino de blk_base st =
     (let reclen = PMFS_DIR_REC_LEN (length name) in
      case de of
        Some d \<Rightarrow> Some (0, fill_dirent txn now name ino d st)
      | None \<Rightarrow>
          (let lim = blk_base + 4096 - reclen in
           case slot_loop (st_mem st) reclen lim blk_base of
             None \<Rightarrow> None
           | Some d \<Rightarrow> if d > lim then Some (- ENOSPC, st) else Some (0, fill_dirent txn now name ino d st)))"

fun add_entry_loop ::
    "bool \<Rightarrow> u32 \<Rightarrow> u8 list \<Rightarrow> u64 \<Rightarrow> nat \<Rightarrow> nat \<Rightarrow> tree_st \<Rightarrow> (int \<times> tree_st) option" where
  "add_entry_loop txn now name ino 0 block st = Some (- ENOSPC, st)"
| "add_entry_loop txn now name ino (Suc n) block st =
     (let blk_base = pmfs_find_data_block st (of_nat block)
      in if blk_base = 0 then Some (- EIO, st)
         else case pmfs_add_dirent_to_buf txn now name ino None (unat blk_base) st of
           None \<Rightarrow> None
         | Some (retval, st1) \<Rightarrow>
             if retval \<noteq> - ENOSPC then Some (retval, st1)
             else add_entry_loop txn now name ino n (Suc block) st1)"

definition pmfs_update_isize :: "tree_st \<Rightarrow> tree_st" where
  "pmfs_update_isize st = act Flush_inode (upd_pi (\<lambda>p. p\<lparr>i_size := v_size (st_vi st)\<rparr>) st)"

definition dir_blocks :: "tree_st \<Rightarrow> nat" where
  "dir_blocks st = unat (signed_drop_bit 12 (v_size (st_vi st)))"

text \<open>The part of \<^verbatim>\<open>pmfs_add_entry\<close> that adds a block to the directory.\<close>

definition add_entry_block :: "bool \<Rightarrow> u32 \<Rightarrow> u8 list \<Rightarrow> u64 \<Rightarrow> nat \<Rightarrow> tree_st \<Rightarrow> (int \<times> tree_st) option" where
  "add_entry_block txn now name ino blocks st =
     (case pmfs_alloc_blocks txn (of_nat blocks) 1 False st of (retval, st1) \<Rightarrow>
        if retval \<noteq> 0 then Some (retval, st1)
        else
          let st2 = pmfs_update_isize (st1\<lparr>st_vi := (st_vi st1)\<lparr>v_size := v_size (st_vi st1) + 4096\<rparr>\<rparr>);
              blk_base = pmfs_find_data_block st2 (of_nat blocks)
          in if blk_base = 0 then Some (- ENOSPC, st2)
             else
               let de = unat blk_base;
                   st3 = put_bytes (de + 8) (le16 4096) (put_bytes de (le64 0) st2)
               in pmfs_add_dirent_to_buf False now name ino (Some de) de st3)"

definition pmfs_add_entry :: "bool \<Rightarrow> u32 \<Rightarrow> u8 list \<Rightarrow> u64 \<Rightarrow> tree_st \<Rightarrow> (int \<times> tree_st) option" where
  "pmfs_add_entry txn now name ino st =
     (if length name = 0 then Some (- EINVAL, st)
      else
        let st0 = log_inode txn st;
            blocks = dir_blocks st0
        in case add_entry_loop txn now name ino blocks 0 st0 of
             None \<Rightarrow> None
           | Some (retval, st1) \<Rightarrow>
               if retval \<noteq> - ENOSPC then Some (retval, st1)
               else add_entry_block txn now name ino blocks st1)"

section \<open>Removing an entry\<close>

datatype block_search =
    No_block
  | Nowhere
  | At nat "nat option"

fun remove_search :: "u8 list \<Rightarrow> nat \<Rightarrow> nat \<Rightarrow> tree_st \<Rightarrow> block_search" where
  "remove_search name 0 block st = Nowhere"
| "remove_search name (Suc n) block st =
     (let blk_base = pmfs_find_data_block st (of_nat block)
      in if blk_base = 0 then No_block
         else case pmfs_search_dirblock (st_mem st) (unat blk_base) name of
           Found res_entry prev_entry \<Rightarrow> At res_entry prev_entry
         | _ \<Rightarrow> remove_search name n (Suc block) st)"

definition pmfs_remove_entry :: "bool \<Rightarrow> u32 \<Rightarrow> u8 list \<Rightarrow> tree_st \<Rightarrow> int \<times> tree_st" where
  "pmfs_remove_entry txn now name st =
     (if length name = 0 then (- EINVAL, st)
      else case remove_search name (dir_blocks st) 0 st of
        No_block \<Rightarrow> (- EINVAL, st)
      | Nowhere \<Rightarrow> (- EINVAL, st)
      | At res_entry prev_entry \<Rightarrow>
          let st1 = (case prev_entry of
                Some prev \<Rightarrow>
                  let st0 = log_entry txn (prev + 8) 2 st
                  in put_bytes (prev + 8)
                       (le16 (get16 (st_mem st0) (prev + 8) + get16 (st_mem st0) (res_entry + 8))) st0
              | None \<Rightarrow> put_bytes res_entry (le64 0) (log_entry txn res_entry 8 st));
              st2 = st1\<lparr>st_vi := (st_vi st1)\<lparr>v_mtime := now, v_ctime := now\<rparr>\<rparr>;
              st3 = upd_pi (\<lambda>p. p\<lparr>i_mtime := now, i_ctime := now\<rparr>) (log_inode txn st2)
          in (0, act Flush_inode st3))"

section \<open>Looking up a name\<close>

datatype lookup_result =
    Done
  | Loop_end
  | Hit nat nat

definition is_dots :: "u8 list \<Rightarrow> bool" where
  "is_dots name \<longleftrightarrow> length name \<le> 2 \<and>
     (case name of [] \<Rightarrow> False | c # cs \<Rightarrow> c = 46 \<and> (case cs of [] \<Rightarrow> True | d # ds \<Rightarrow> d = 46 \<or> d = 0))"

partial_function (option) by_name_loop ::
    "u8 list \<Rightarrow> nat \<Rightarrow> nat \<Rightarrow> tree_st \<Rightarrow> nat \<Rightarrow> lookup_result option" where
  "by_name_loop name nblocks start st block =
     (let blk_base = pmfs_find_data_block st (of_nat block)
      in if blk_base = 0 then Some Done
         else case pmfs_search_dirblock (st_mem st) (unat blk_base) name of
           Found de prev \<Rightarrow> Some (Hit block de)
         | Search_error \<Rightarrow> Some Done
         | Not_found \<Rightarrow>
             (let block' = (if Suc block \<ge> nblocks then 0 else Suc block)
              in if block' \<noteq> start then by_name_loop name nblocks start st block' else Some Loop_end))"

text \<open>
  The inode number, the entry and the new start for the next lookup.  The second pass runs when the first one
  covered less than the directory has: for \<^verbatim>\<open>.\<close> and \<^verbatim>\<open>..\<close>, which are first looked for in block 0.
\<close>

definition pmfs_inode_by_name :: "u8 list \<Rightarrow> nat \<Rightarrow> tree_st \<Rightarrow> (u64 \<times> nat option \<times> nat) option" where
  "pmfs_inode_by_name name start_lookup st =
     (let hit = (\<lambda>block de. (de_ino (st_mem st) de, Some de, block))
      in if length name > PMFS_NAME_LEN then Some (0, None, start_lookup)
         else
           let nblocks = (if is_dots name then 1 else dir_blocks st);
               start = (if is_dots name then 0 else if start_lookup \<ge> nblocks then 0 else start_lookup)
           in case by_name_loop name nblocks start st start of
                None \<Rightarrow> None
              | Some Done \<Rightarrow> Some (0, None, start_lookup)
              | Some (Hit block de) \<Rightarrow> Some (hit block de)
              | Some Loop_end \<Rightarrow>
                  if nblocks < dir_blocks st then
                    (case by_name_loop name (dir_blocks st) 0 st nblocks of
                       None \<Rightarrow> None
                     | Some (Hit block de) \<Rightarrow> Some (hit block de)
                     | Some _ \<Rightarrow> Some (0, None, start_lookup))
                  else Some (0, None, start_lookup))"

section \<open>Listing\<close>

text \<open>
  The kernel's \<^verbatim>\<open>dir_emit\<close> is the argument \<open>emit\<close>, which says whether it took the entry; \<open>dtype\<close> gives the file
  type of an inode number, which the code reads from the inode table.
\<close>

type_synonym 'c emitter = "'c \<Rightarrow> u8 list \<Rightarrow> u64 \<Rightarrow> u8 \<Rightarrow> bool \<times> 'c"

function readdir_block ::
    "'c emitter \<Rightarrow> (u64 \<Rightarrow> u8) \<Rightarrow> mem \<Rightarrow> nat \<Rightarrow> nat \<Rightarrow> nat \<Rightarrow> nat \<Rightarrow> 'c \<Rightarrow> bool \<times> nat \<times> 'c" where
  "readdir_block emit dtype m i_siz blk_base pos offset ctx =
     (if pos < i_siz \<and> offset < 4096 then
        let de = blk_base + offset in
        if \<not> pmfs_check_dir_entry m blk_base de then (False, (pos + 4095) div 4096 * 4096, ctx)
        else if de_ino m de \<noteq> 0 then
          (case emit ctx (nget m (de + 12) (de_name_len m de)) (de_ino m de) (dtype (de_ino m de)) of
             (ok, ctx') \<Rightarrow>
               if \<not> ok then (True, pos, ctx')
               else readdir_block emit dtype m i_siz blk_base (pos + de_len m de) (offset + de_len m de) ctx')
        else readdir_block emit dtype m i_siz blk_base (pos + de_len m de) (offset + de_len m de) ctx
      else (False, pos, ctx))"
  by pat_completeness auto
termination
  by (relation "measure (\<lambda>(emit, dtype, m, i_siz, blk_base, pos, offset, ctx). 4096 - offset)")
    (auto simp: pmfs_check_dir_entry_def PMFS_DIR_REC_LEN_def Let_def split: if_splits)

declare readdir_block.simps [simp del]

partial_function (option) readdir_loop ::
    "'c emitter \<Rightarrow> (u64 \<Rightarrow> u8) \<Rightarrow> tree_st \<Rightarrow> nat \<Rightarrow> nat \<Rightarrow> 'c \<Rightarrow> (nat \<times> 'c) option" where
  "readdir_loop emit dtype st pos offset ctx =
     (if pos < unat (v_size (st_vi st)) then
        let blk_base = pmfs_find_data_block st (of_nat (pos div 4096))
        in if blk_base = 0 then readdir_loop emit dtype st (pos + (4096 - offset)) offset ctx
           else
             (case readdir_block emit dtype (st_mem st) (unat (v_size (st_vi st))) (unat blk_base) pos offset ctx of
                (stopped, pos', ctx') \<Rightarrow>
                  if stopped then Some (pos', ctx') else readdir_loop emit dtype st pos' 0 ctx')
      else Some (pos, ctx))"

definition pmfs_readdir :: "'c emitter \<Rightarrow> (u64 \<Rightarrow> u8) \<Rightarrow> tree_st \<Rightarrow> nat \<Rightarrow> 'c \<Rightarrow> (nat \<times> 'c) option" where
  "pmfs_readdir emit dtype st pos ctx = readdir_loop emit dtype st pos (pos mod 4096) ctx"

section \<open>New and empty directories\<close>

text \<open>The first block of a new directory, as \<^verbatim>\<open>pmfs_mkdir\<close> writes it.\<close>

definition mkdir_entries :: "u64 \<Rightarrow> u64 \<Rightarrow> nat \<Rightarrow> tree_st \<Rightarrow> tree_st" where
  "mkdir_entries i_ino parent blk_base st =
     (let st1 = put_bytes (blk_base + 10) [1] (put_bytes blk_base (le64 i_ino) st);
          st2 = put_bytes (blk_base + 12) [46, 0] (put_bytes (blk_base + 8) (le16 (of_nat (PMFS_DIR_REC_LEN 1))) st1);
          de = blk_base + de_len (st_mem st2) blk_base;
          st3 = put_bytes (de + 8) (le16 (4096 - of_nat (PMFS_DIR_REC_LEN 1))) (put_bytes de (le64 parent) st2);
          st4 = put_bytes (de + 12) [46, 46, 0] (put_bytes (de + 10) [2] st3)
      in act (Flush_buffer blk_base (PMFS_DIR_REC_LEN 1 + PMFS_DIR_REC_LEN 2)) st4)"

function empty_loop :: "tree_st \<Rightarrow> u64 \<Rightarrow> nat \<Rightarrow> nat \<Rightarrow> bool" where
  "empty_loop st blk_base de offset =
     (if offset < unat (v_size (st_vi st)) then
        let fetch = (blk_base = 0 \<or> unat blk_base + 4096 \<le> de);
            blk_base' = (if fetch then pmfs_find_data_block st (of_nat (offset div 4096)) else blk_base);
            de' = (if fetch then unat blk_base' else de)
        in if fetch \<and> blk_base' = 0 then empty_loop st blk_base' de (offset + 4096)
           else if \<not> pmfs_check_dir_entry (st_mem st) (unat blk_base') de' then
             empty_loop st blk_base' (unat blk_base' + 4096) ((offset div 4096 + 1) * 4096)
           else if de_ino (st_mem st) de' \<noteq> 0 then False
           else empty_loop st blk_base' (de' + de_len (st_mem st) de') (offset + de_len (st_mem st) de')
      else True)"
  by pat_completeness auto
termination
proof (relation "measure (\<lambda>(st, blk_base, de, offset). unat (v_size (st_vi st)) - offset)", goal_cases)
  case (3 st blk_base de offset)
  have "offset < (offset div 4096 + 1) * 4096" using dividend_less_div_times [of 4096 offset] by (simp add: distrib_right)
  with 3 show ?case by simp
qed (auto simp: pmfs_check_dir_entry_def PMFS_DIR_REC_LEN_def Let_def split: if_splits)

declare empty_loop.simps [simp del]

definition pmfs_empty_dir :: "u64 \<Rightarrow> tree_st \<Rightarrow> bool" where
  "pmfs_empty_dir i_ino st =
     (if sint (v_size (st_vi st)) < int (PMFS_DIR_REC_LEN 1 + PMFS_DIR_REC_LEN 2) then True
      else
        let blk_base = pmfs_find_data_block st 0; m = st_mem st;
            de = unat blk_base; de1 = de + de_len m de
        in if blk_base = 0 then True
           else if de_ino m de \<noteq> i_ino \<or> de_ino m de1 = 0 \<or> nget m (de + 12) 2 \<noteq> [46, 0] \<or>
             nget m (de1 + 12) 3 \<noteq> [46, 46, 0] then True
           else empty_loop st blk_base (de1 + de_len m de1) (de_len m de + de_len m de1))"

end
