(* ===== verification/Pmfs_Dir_Wf.thy ===== *)
theory Pmfs_Dir_Wf
  imports Pmfs_Dir
begin

unbundle bit_operations_syntax

text \<open>
  Well-formed directory blocks: a chain of entries that ends with the block, and the names and inode numbers of
  its live entries.
\<close>

section \<open>Fields\<close>

lemma length_le16 [simp]: "length (le16 w) = 2" by (simp add: le16_def)

lemma get16_of_bytes: "nget m a 2 = le16 w \<Longrightarrow> get16 m a = w"
proof -
  assume a: "nget m a 2 = le16 w"
  have "unat w < 256 ^ 2" using unat_bound [of w] by simp
  with a show "get16 m a = w" by (simp add: get16_def le16_def le_nat_le_bytes)
qed

lemma get16_cong: "(\<And>x. a \<le> x \<Longrightarrow> x < a + 2 \<Longrightarrow> m x = m' x) \<Longrightarrow> get16 m a = get16 m' a"
  unfolding get16_def using nget_cong [of a 2 m m'] by simp

lemma field_cong:
  assumes "\<And>x. a \<le> x \<Longrightarrow> x < a + 12 \<Longrightarrow> m' x = m x"
  shows "de_ino m' a = de_ino m a" "de_len m' a = de_len m a" "de_name_len m' a = de_name_len m a"
    "get16 m' (a + 8) = get16 m (a + 8)"
proof -
  show "de_ino m' a = de_ino m a" unfolding de_ino_def using assms by (intro get64_cong) simp
  show g: "get16 m' (a + 8) = get16 m (a + 8)" using assms by (intro get16_cong) simp
  then show "de_len m' a = de_len m a" by (simp add: de_len_def)
  show "de_name_len m' a = de_name_len m a" using assms by (simp add: de_name_len_def)
qed

lemma rec_len_bounds: "n + 12 \<le> PMFS_DIR_REC_LEN n" "PMFS_DIR_REC_LEN n \<le> n + 15" "PMFS_DIR_REC_LEN n mod 4 = 0"
  "0 < n \<Longrightarrow> 16 \<le> PMFS_DIR_REC_LEN n"
  unfolding PMFS_DIR_REC_LEN_def by auto

lemma rec_len_vals: "PMFS_DIR_REC_LEN 1 = 16" "PMFS_DIR_REC_LEN 2 = 16" "PMFS_DIR_REC_LEN (Suc 0) = 16"
  by (simp_all add: PMFS_DIR_REC_LEN_def)

lemma name_len_bound: "de_name_len m a < 256" using unat_bound [of "m (a + 10)"] by (simp add: de_name_len_def)

section \<open>Chains of entries\<close>

definition de_name :: "mem \<Rightarrow> nat \<Rightarrow> u8 list" where "de_name m a = nget m (a + 12) (de_name_len m a)"

definition dent_ok :: "mem \<Rightarrow> nat \<Rightarrow> nat \<Rightarrow> bool" where
  "dent_ok m e a \<longleftrightarrow> 16 \<le> de_len m a \<and> de_len m a mod 4 = 0 \<and> PMFS_DIR_REC_LEN (de_name_len m a) \<le> de_len m a \<and>
     a + de_len m a \<le> e \<and> (de_ino m a \<noteq> 0 \<longrightarrow> 0 < de_name_len m a)"

lemma dent_okD:
  assumes "dent_ok m e a"
  shows "16 \<le> de_len m a" "de_len m a mod 4 = 0" "PMFS_DIR_REC_LEN (de_name_len m a) \<le> de_len m a" "a + de_len m a \<le> e"
    "de_ino m a \<noteq> 0 \<Longrightarrow> 0 < de_name_len m a" "12 + de_name_len m a \<le> de_len m a" "a < e"
  using assms rec_len_bounds(1) [of "de_name_len m a"] by (auto simp: dent_ok_def)

lemma dent_ok_mono: "dent_ok m e a \<Longrightarrow> e \<le> e' \<Longrightarrow> dent_ok m e' a"
  by (auto simp: dent_ok_def)

function chain :: "mem \<Rightarrow> nat \<Rightarrow> nat \<Rightarrow> bool" where
  "chain m a e = (if a < e then if dent_ok m e a then chain m (a + de_len m a) e else False else a = e)"
  by pat_completeness auto
termination
  by (relation "measure (\<lambda>(m, a, e). e - a)") (auto simp: dent_ok_def)

declare chain.simps [simp del]

definition live1 :: "mem \<Rightarrow> nat \<Rightarrow> (u8 list \<times> u64) list" where
  "live1 m a = (if de_ino m a = 0 then [] else [(de_name m a, de_ino m a)])"

function live :: "mem \<Rightarrow> nat \<Rightarrow> nat \<Rightarrow> (u8 list \<times> u64) list" where
  "live m a e = (if a < e \<and> dent_ok m e a then live1 m a @ live m (a + de_len m a) e else [])"
  by pat_completeness auto
termination
  by (relation "measure (\<lambda>(m, a, e). e - a)") (auto simp: dent_ok_def)

declare live.simps [simp del]

lemma chain_refl [simp]: "chain m a a" "live m a a = []" by (simp_all add: chain.simps [of m a a] live.simps [of m a a])

lemma chain_le: "chain m a e \<Longrightarrow> a \<le> e"
  by (cases "a < e") (auto simp: chain.simps [of m a e])

lemma chain_step: "chain m a e \<Longrightarrow> a < e \<Longrightarrow> dent_ok m e a \<and> chain m (a + de_len m a) e"
  by (simp add: chain.simps [of m a e] split: if_splits)

lemma chain_Cons:
  assumes "dent_ok m e a" "chain m (a + de_len m a) e"
  shows "chain m a e" "live m a e = live1 m a @ live m (a + de_len m a) e"
  using assms dent_okD(7) [OF assms(1)] by (simp_all add: chain.simps [of m a e] live.simps [of m a e])

lemma live_step: "chain m a e \<Longrightarrow> a < e \<Longrightarrow> live m a e = live1 m a @ live m (a + de_len m a) e"
  using chain_step chain_Cons(2) by blast

lemma live_nonzero: "(n, i) \<in> set (live m a e) \<Longrightarrow> i \<noteq> 0"
proof (induction m a e rule: live.induct)
  case (1 m a e)
  show ?case
  proof (cases "a < e \<and> dent_ok m e a")
    case True
    then show ?thesis using 1 by (auto simp: live.simps [of m a e] live1_def split: if_splits)
  next
    case False
    then show ?thesis using 1(2) by (simp add: live.simps [of m a e])
  qed
qed

lemma chain_append:
  "chain m a b \<Longrightarrow> chain m b e \<Longrightarrow> chain m a e \<and> live m a e = live m a b @ live m b e"
proof (induction m a b rule: chain.induct)
  case (1 m a b)
  show ?case
  proof (cases "a < b")
    case True
    note s = chain_step [OF 1(2) True]
    then have d: "dent_ok m b a" and c: "chain m (a + de_len m a) b" by simp_all
    have d': "dent_ok m e a" using d chain_le [OF 1(3)] by (rule dent_ok_mono)
    from 1(1) [OF True d c 1(3)] chain_Cons [OF d'] chain_Cons(2) [OF d c] show ?thesis by simp
  next
    case False
    then have "a = b" using chain_le [OF 1(2)] by simp
    with 1(3) show ?thesis by simp
  qed
qed

lemma entry_cong:
  assumes d: "dent_ok m e a" and s: "\<And>x. a \<le> x \<Longrightarrow> x < a + de_len m a \<Longrightarrow> m' x = m x"
  shows "de_len m' a = de_len m a" "dent_ok m' e' a = dent_ok m e' a" "live1 m' a = live1 m a"
proof -
  note b = dent_okD [OF d]
  have f: "de_ino m' a = de_ino m a" "de_len m' a = de_len m a" "de_name_len m' a = de_name_len m a"
    using b(1) by (intro field_cong s; simp)+
  show "de_len m' a = de_len m a" "dent_ok m' e' a = dent_ok m e' a" using f by (simp_all add: dent_ok_def)
  have "nget m' (a + 12) (de_name_len m a) = nget m (a + 12) (de_name_len m a)"
    using b(6) by (intro nget_cong s) simp_all
  then show "live1 m' a = live1 m a" using f by (simp add: live1_def de_name_def)
qed

lemma chain_cong:
  "chain m a e \<Longrightarrow> (\<And>x. a \<le> x \<Longrightarrow> x < e \<Longrightarrow> m' x = m x) \<Longrightarrow> chain m' a e \<and> live m' a e = live m a e"
proof (induction m a e rule: chain.induct)
  case (1 m a e)
  show ?case
  proof (cases "a < e")
    case True
    from chain_step [OF 1(2) True] have d: "dent_ok m e a" and c: "chain m (a + de_len m a) e" by simp_all
    note ec = entry_cong [OF d, where m' = m'] and b = dent_okD [OF d]
    have s: "m' x = m x" if "a \<le> x" "x < a + de_len m a" for x using that b(4) by (intro 1(3)) simp_all
    have d': "dent_ok m' e a" and l: "de_len m' a = de_len m a" "live1 m' a = live1 m a" using ec s d by simp_all
    have "chain m' (a + de_len m a) e \<and> live m' (a + de_len m a) e = live m (a + de_len m a) e"
      by (rule 1(1) [OF True d c]) (rule 1(3), simp_all)
    with chain_Cons [OF d'] chain_Cons(2) [OF d c] l show ?thesis by simp
  next
    case False
    then have "a = e" using chain_le [OF 1(2)] by simp
    then show ?thesis by simp
  qed
qed

section \<open>Searching\<close>

lemma check_ok: "dent_ok m (base + 4096) a \<Longrightarrow> base \<le> a \<Longrightarrow> pmfs_check_dir_entry m base a"
  by (auto simp: pmfs_check_dir_entry_def Let_def dent_ok_def rec_len_vals)

lemma match_iff: "pmfs_match m name a \<longleftrightarrow> de_ino m a \<noteq> 0 \<and> de_name m a = name"
  by (auto simp: pmfs_match_def de_name_def)

definition located :: "mem \<Rightarrow> nat \<Rightarrow> nat \<Rightarrow> u8 list \<Rightarrow> nat option \<Rightarrow> nat \<Rightarrow> nat option \<Rightarrow> bool" where
  "located m a e name pde de prev \<longleftrightarrow>
     chain m a de \<and> dent_ok m e de \<and> chain m (de + de_len m de) e \<and> pmfs_match m name de \<and>
     name \<notin> fst ` set (live m a de) \<and>
     (if a = de then prev = pde
      else \<exists>q. prev = Some q \<and> chain m a q \<and> dent_ok m de q \<and> q + de_len m q = de)"

lemma search_loop_ok:
  "\<lbrakk>chain m a e; base \<le> a; e = base + 4096\<rbrakk> \<Longrightarrow>
    if name \<in> fst ` set (live m a e)
    then \<exists>de prev. search_loop m base name pde a = Found de prev \<and> located m a e name pde de prev
    else search_loop m base name pde a = Not_found"
proof (induction m a e arbitrary: pde rule: chain.induct)
  case (1 m a e)
  note e = 1(4)
  show ?case
  proof (cases "a < e")
    case True
    from chain_step [OF 1(2) True] have d: "dent_ok m e a" and c: "chain m (a + de_len m a) e" by simp_all
    note b = dent_okD [OF d] and l = chain_Cons(2) [OF d c]
    show ?thesis
    proof (cases "pmfs_match m name a")
      case match: True
      then have i: "de_ino m a \<noteq> 0" "length name = de_name_len m a" "de_name m a = name"
        using match_iff by (auto simp: pmfs_match_def)
      have "a + length name \<le> base + 4096" using b(4,6) i(2) e by linarith
      then have "search_loop m base name pde a = Found a pde"
        using match True check_ok [of m base a] d 1(3) by (simp add: search_loop.simps [of m base] e)
      moreover have "located m a e name pde a pde" using d c match by (simp add: located_def)
      moreover have "name \<in> fst ` set (live m a e)" using l i by (simp add: live1_def)
      ultimately show ?thesis by auto
    next
      case no: False
      have s: "search_loop m base name pde a = search_loop m base name (Some a) (a + de_len m a)"
        using no True b(1) by (simp add: search_loop.simps [of m base name pde a] e)
      have n1: "name \<notin> fst ` set (live1 m a)" using no by (auto simp: live1_def match_iff)
      have lo: "located m a e name pde de prev" if t: "located m (a + de_len m a) e name (Some a) de prev" for de prev
      proof -
        have c1: "chain m (a + de_len m a) de" using t by (simp add: located_def)
        have le: "a + de_len m a \<le> de" by (rule chain_le [OF c1])
        have da: "dent_ok m de a" using d le by (simp add: dent_ok_def)
        note ap = chain_Cons [OF da c1]
        have "\<exists>q. prev = Some q \<and> chain m a q \<and> dent_ok m de q \<and> q + de_len m q = de"
        proof (cases "a + de_len m a = de")
          case True
          then show ?thesis using t da by (intro exI [of _ a]) (simp add: located_def)
        next
          case False
          then obtain q where q: "prev = Some q" "chain m (a + de_len m a) q" "dent_ok m de q" "q + de_len m q = de"
            using t by (auto simp: located_def)
          have "dent_ok m q a" using d chain_le [OF q(2)] by (simp add: dent_ok_def)
          from chain_Cons(1) [OF this q(2)] q show ?thesis by blast
        qed
        then show ?thesis using t ap n1 b(1) le by (auto simp: located_def)
      qed
      show ?thesis
        using 1(1) [OF True d c _ e, of "Some a"] 1(3) n1 lo unfolding s l by (auto simp: image_Un split: if_splits)
    qed
  next
    case False
    then have "a = e" using chain_le [OF 1(2)] by simp
    then show ?thesis by (simp add: search_loop.simps [of m base] e)
  qed
qed

end
