(* ===== verification/Pmfs_Dir_Edit.thy ===== *)
theory Pmfs_Dir_Edit
  imports Pmfs_Dir_Wf
begin

unbundle bit_operations_syntax

text \<open>
  Changes to a directory block: a new entry in the room behind a live entry or in place of a dead one, and
  the removal of an entry.
\<close>

section \<open>Finding room\<close>

definition room :: "mem \<Rightarrow> nat \<Rightarrow> nat \<Rightarrow> bool" where
  "room m reclen d \<longleftrightarrow> (if de_ino m d = 0 then 0 else PMFS_DIR_REC_LEN (de_name_len m d)) + reclen \<le> de_len m d"

lemma slot_loop_ok:
  "\<lbrakk>chain m a e; lim < e\<rbrakk> \<Longrightarrow>
   \<exists>d. slot_loop m reclen lim a = Some d \<and>
     (d \<le> lim \<longrightarrow> chain m a d \<and> dent_ok m e d \<and> chain m (d + de_len m d) e \<and> room m reclen d)"
proof (induction m a e rule: chain.induct)
  case (1 m a e)
  show ?case
  proof (cases "a \<le> lim")
    case True
    then have ae: "a < e" using 1(3) by simp
    from chain_step [OF 1(2) ae] have d: "dent_ok m e a" and c: "chain m (a + de_len m a) e" by simp_all
    show ?thesis
    proof (cases "room m reclen a")
      case r: True
      then have "slot_loop m reclen lim a = Some a"
        using True by (simp add: slot_loop.simps [of m reclen lim a] room_def Let_def split: if_splits)
      with d c r show ?thesis by simp
    next
      case False
      then have s: "slot_loop m reclen lim a = slot_loop m reclen lim (a + de_len m a)"
        using True by (simp add: slot_loop.simps [of m reclen lim a] room_def Let_def split: if_splits)
      from 1(1) [OF ae d c 1(3)] obtain x where x: "slot_loop m reclen lim (a + de_len m a) = Some x"
        "x \<le> lim \<longrightarrow> chain m (a + de_len m a) x \<and> dent_ok m e x \<and> chain m (x + de_len m x) e \<and> room m reclen x" by blast
      have "chain m a x" if "x \<le> lim"
      proof -
        have cx: "chain m (a + de_len m a) x" using x(2) that by blast
        have "dent_ok m x a" using d chain_le [OF cx] by (simp add: dent_ok_def)
        from chain_Cons(1) [OF this cx] show ?thesis .
      qed
      with s x show ?thesis by simp
    qed
  next
    case False
    then show ?thesis by (simp add: slot_loop.simps [of m reclen lim a])
  qed
qed

section \<open>Writing an entry\<close>

definition entry_mem :: "u8 list \<Rightarrow> u64 \<Rightarrow> nat \<Rightarrow> mem \<Rightarrow> mem" where
  "entry_mem name ino de m = nput (de + 12) name (nput (de + 10) [of_nat (length name)] (nput de (le64 ino) m))"

lemma entry_mem_fields:
  assumes n: "length name \<le> 255"
  shows "de_ino (entry_mem name ino de m) de = ino" "de_len (entry_mem name ino de m) de = de_len m de"
    "de_name_len (entry_mem name ino de m) de = length name" "de_name (entry_mem name ino de m) de = name"
    "x < de \<or> de + 12 + length name \<le> x \<Longrightarrow> entry_mem name ino de m x = m x"
proof -
  have "nget (entry_mem name ino de m) de 8 = le64 ino" by (simp add: entry_mem_def)
  then show "de_ino (entry_mem name ino de m) de = ino" unfolding de_ino_def by (rule get64_of_bytes)
  have "nget (entry_mem name ino de m) (de + 8) 2 = nget m (de + 8) 2" by (simp add: entry_mem_def)
  then show "de_len (entry_mem name ino de m) de = de_len m de" by (simp add: de_len_def get16_def)
  have "entry_mem name ino de m (de + 10) = of_nat (length name)" by (simp add: entry_mem_def nput_def)
  then show nl: "de_name_len (entry_mem name ino de m) de = length name"
    using n by (simp add: de_name_len_def unat_of_nat_less)
  have "nget (entry_mem name ino de m) (de + 12) (length name) = name" by (simp add: entry_mem_def)
  then show "de_name (entry_mem name ino de m) de = name" by (simp add: de_name_def nl)
  show "entry_mem name ino de m x = m x" if "x < de \<or> de + 12 + length name \<le> x"
    using that by (auto simp: entry_mem_def nput_def)
qed

definition split_mem :: "nat \<Rightarrow> mem \<Rightarrow> mem" where
  "split_mem de m =
     (let nlen = PMFS_DIR_REC_LEN (de_name_len m de)
      in nput (de + 8) (le16 (of_nat nlen)) (nput (de + nlen + 8) (le16 (of_nat (de_len m de) - of_nat nlen)) m))"

definition fill_mem :: "u8 list \<Rightarrow> u64 \<Rightarrow> nat \<Rightarrow> mem \<Rightarrow> mem" where
  "fill_mem name ino de m =
     (if de_ino m de \<noteq> 0 then entry_mem name ino (de + PMFS_DIR_REC_LEN (de_name_len m de)) (split_mem de m)
      else entry_mem name ino de m)"

lemma split_mem_fields:
  assumes d: "dent_ok m e de" and nz: "de_ino m de \<noteq> 0" and r: "PMFS_DIR_REC_LEN (de_name_len m de) + 16 \<le> de_len m de"
  defines "n \<equiv> PMFS_DIR_REC_LEN (de_name_len m de)"
  shows "de_len (split_mem de m) de = n" "de_len (split_mem de m) (de + n) = de_len m de - n"
    "de_ino (split_mem de m) de = de_ino m de" "de_name_len (split_mem de m) de = de_name_len m de"
    "de_name (split_mem de m) de = de_name m de" "x < de \<or> de + de_len m de \<le> x \<Longrightarrow> split_mem de m x = m x"
proof -
  note b = dent_okD [OF d] and n = rec_len_bounds [of "de_name_len m de", folded n_def]
  have n16: "16 \<le> n" using n(4) [OF b(5) [OF nz]] .
  have l: "de_len m de < 2 ^ 16" unfolding de_len_def using unat_bound [of "get16 m (de + 8)"] by simp
  have nl: "n < 2 ^ 16" using r l by (simp add: n_def)
  have sm: "split_mem de m = nput (de + 8) (le16 (of_nat n)) (nput (de + n + 8) (le16 (of_nat (de_len m de) - of_nat n)) m)"
    by (simp add: split_mem_def Let_def n_def)
  have "nget (split_mem de m) (de + 8) 2 = le16 (of_nat n)" by (simp add: sm)
  from get16_of_bytes [OF this] show "de_len (split_mem de m) de = n" using nl by (simp add: de_len_def unat_of_nat_less)
  have "nget (split_mem de m) (de + n + 8) 2 = le16 (of_nat (de_len m de) - of_nat n)" using n16 by (simp add: sm)
  from get16_of_bytes [OF this] have "de_len (split_mem de m) (de + n) = unat (of_nat (de_len m de) - of_nat n :: u16)"
    by (simp add: de_len_def)
  also have "\<dots> = de_len m de - n" using l nl r by (subst unat_sub_le) (simp_all add: unat_of_nat_less n_def)
  finally show "de_len (split_mem de m) (de + n) = de_len m de - n" .
  have "nget (split_mem de m) de 8 = nget m de 8" using n16 by (simp add: sm)
  then show "de_ino (split_mem de m) de = de_ino m de" by (simp add: de_ino_def get64_def)
  have "split_mem de m (de + 10) = m (de + 10)" using n16 by (simp add: sm nput_def)
  then show q: "de_name_len (split_mem de m) de = de_name_len m de" by (simp add: de_name_len_def)
  have "nget (split_mem de m) (de + 12) (de_name_len m de) = nget m (de + 12) (de_name_len m de)"
    using n(1) by (simp add: sm)
  then show "de_name (split_mem de m) de = de_name m de" by (simp add: de_name_def q)
  show "split_mem de m x = m x" if "x < de \<or> de + de_len m de \<le> x" using that b(1) r by (auto simp: sm nput_def n_def)
qed

lemma fill_mem_ok:
  assumes c1: "chain m a de" and d: "dent_ok m e de" and c2: "chain m (de + de_len m de) e"
    and n: "0 < length name" "length name \<le> 255" and ino: "ino \<noteq> 0" and r: "room m (PMFS_DIR_REC_LEN (length name)) de"
  shows "chain (fill_mem name ino de m) a e"
    "live (fill_mem name ino de m) a e = live m a de @ live1 m de @ [(name, ino)] @ live m (de + de_len m de) e"
    "x < de \<or> de + de_len m de \<le> x \<Longrightarrow> fill_mem name ino de m x = m x"
proof -
  let ?m = "fill_mem name ino de m"
  note b = dent_okD [OF d] and rl = rec_len_bounds [of "length name"]
  have out: "?m x = m x" if x: "x < de \<or> de + de_len m de \<le> x" for x
  proof (cases "de_ino m de = 0")
    case True
    have "entry_mem name ino de m x = m x"
      using x r rl(1) True by (intro entry_mem_fields(5) [OF n(2)]) (auto simp: room_def)
    with True show ?thesis by (simp add: fill_mem_def)
  next
    case False
    let ?n = "PMFS_DIR_REC_LEN (de_name_len m de)"
    have rr: "?n + 16 \<le> de_len m de" using r False rl(4) n(1) by (simp add: room_def)
    have "entry_mem name ino (de + ?n) (split_mem de m) x = split_mem de m x"
      using x r rl(1) False by (intro entry_mem_fields(5) [OF n(2)]) (auto simp: room_def)
    then show ?thesis using False split_mem_fields(6) [OF d False rr x] by (simp add: fill_mem_def)
  qed
  then show "?m x = m x" if "x < de \<or> de + de_len m de \<le> x" using that by simp
  have 1: "chain ?m a de \<and> live ?m a de = live m a de" by (rule chain_cong [OF c1]) (simp add: out)
  have 2: "chain ?m (de + de_len m de) e \<and> live ?m (de + de_len m de) e = live m (de + de_len m de) e"
    by (rule chain_cong [OF c2]) (simp add: out)
  have 3: "chain ?m de e \<and> live ?m de e = live1 m de @ [(name, ino)] @ live m (de + de_len m de) e"
  proof (cases "de_ino m de = 0")
    case True
    note f = entry_mem_fields [OF n(2), where ino = ino and de = de and m = m]
    have m: "?m = entry_mem name ino de m" using True by (simp add: fill_mem_def)
    have d': "dent_ok ?m e de" using b(1,2,4) r True n(1) unfolding m dent_ok_def f(1-4) by (simp add: room_def)
    have l: "live1 ?m de = [(name, ino)]" "de_len ?m de = de_len m de" "live1 m de = []"
      using True ino unfolding live1_def m f(1-4) by simp_all
    show ?thesis using chain_Cons [OF d', unfolded l(2)] 2 l by simp
  next
    case False
    let ?n = "PMFS_DIR_REC_LEN (de_name_len m de)" and ?s = "split_mem de m"
    have rr: "?n + 16 \<le> de_len m de" using r False rl(4) n(1) by (simp add: room_def)
    have rn: "?n + PMFS_DIR_REC_LEN (length name) \<le> de_len m de" using r False by (simp add: room_def)
    note sf = split_mem_fields [OF d False rr] and nb = rec_len_bounds [of "de_name_len m de"]
    have m: "?m = entry_mem name ino (de + ?n) ?s" using False by (simp add: fill_mem_def)
    note f = entry_mem_fields [OF n(2), where ino = ino and de = "de + ?n" and m = ?s]
    have md: "(de_len m de - ?n) mod 4 = 0"
      using b(2) nb(3) by (metis mod_eq_0_iff_dvd dvd_diff_nat)
    have d2: "dent_ok ?m e (de + ?n)" using b(4) rr rn n(1) md unfolding m dent_ok_def f(1-4) sf(2) by (simp add: le_diff_conv2)
    have l2: "live1 ?m (de + ?n) = [(name, ino)]" "de_len ?m (de + ?n) = de_len m de - ?n"
      using ino unfolding live1_def m f(1-4) sf(2) by simp_all
    have e2: "de + ?n + (de_len m de - ?n) = de + de_len m de" using rr by simp
    note k2 = chain_Cons [OF d2, unfolded l2(2) e2]
    have n16: "16 \<le> ?n" using nb(4) [OF b(5) [OF False]] .
    have same: "?m x = ?s x" if "x < de + ?n" for x using that unfolding m by (intro f(5)) simp
    have fl: "de_len ?m de = ?n" "de_ino ?m de = de_ino m de" "de_name_len ?m de = de_name_len m de"
      using field_cong [of de ?m ?s] same n16 sf(1,3,4) by simp_all
    have "de_name ?m de = nget ?s (de + 12) (de_name_len m de)"
      unfolding de_name_def fl(3) using nb(1) by (intro nget_cong same) simp
    then have nm: "de_name ?m de = de_name m de" using sf(4,5) by (simp add: de_name_def)
    have d1: "dent_ok ?m e de" using fl b(4,5) rr n16 nb(3) unfolding dent_ok_def by simp
    have "live1 ?m de = live1 m de" using fl nm by (simp add: live1_def)
    with chain_Cons [OF d1, unfolded fl(1)] k2 l2 2 show ?thesis by simp
  qed
  show "chain ?m a e" "live ?m a e = live m a de @ live1 m de @ [(name, ino)] @ live m (de + de_len m de) e"
    using chain_append [of ?m a de e] 1 3 by simp_all
qed

section \<open>Removing an entry\<close>

lemma remove_first_ok:
  assumes d: "dent_ok m e de" and c2: "chain m (de + de_len m de) e"
  defines "m' \<equiv> nput de (le64 0) m"
  shows "chain m' de e" "live m' de e = live m (de + de_len m de) e"
proof -
  note b = dent_okD [OF d]
  have out: "m' x = m x" if "de + 8 \<le> x" for x using that by (simp add: m'_def nput_def)
  have "nget m' de 8 = le64 0" by (simp add: m'_def)
  then have i: "de_ino m' de = 0" unfolding de_ino_def by (rule get64_of_bytes)
  have "get16 m' (de + 8) = get16 m (de + 8)" by (intro get16_cong out) simp
  then have l: "de_len m' de = de_len m de" by (simp add: de_len_def)
  have nl: "de_name_len m' de = de_name_len m de" using out by (simp add: de_name_len_def)
  have d': "dent_ok m' e de" using b(1-4) by (simp add: dent_ok_def i l nl)
  have c: "chain m' (de + de_len m de) e \<and> live m' (de + de_len m de) e = live m (de + de_len m de) e"
    using b(1) by (intro chain_cong [OF c2] out) simp
  show "chain m' de e" "live m' de e = live m (de + de_len m de) e"
    using chain_Cons [OF d', unfolded l] c by (simp_all add: live1_def i)
qed

lemma merge_ok:
  assumes q: "dent_ok m de q" "q + de_len m q = de" and d: "dent_ok m e de" and c2: "chain m (de + de_len m de) e"
    and small: "e - q < 2 ^ 16"
  defines "m' \<equiv> nput (q + 8) (le16 (get16 m (q + 8) + get16 m (de + 8))) m"
  shows "chain m' q e" "live m' q e = live1 m q @ live m (de + de_len m de) e"
proof -
  note bq = dent_okD [OF q(1)] and b = dent_okD [OF d]
  have out: "m' x = m x" if "x < q + 8 \<or> q + 10 \<le> x" for x using that by (auto simp: m'_def nput_def)
  have "nget m' (q + 8) 2 = le16 (get16 m (q + 8) + get16 m (de + 8))" by (simp add: m'_def)
  then have "get16 m' (q + 8) = get16 m (q + 8) + get16 m (de + 8)" by (rule get16_of_bytes)
  moreover have "unat (get16 m (q + 8)) + unat (get16 m (de + 8)) < 2 ^ LENGTH(16)"
    using small b(4) q(2) bq(1) unfolding de_len_def by simp
  ultimately have l: "de_len m' q = de_len m q + de_len m de" unfolding de_len_def by (simp add: unat_add_less)
  have "get64 m' q = get64 m q" by (intro get64_cong out) simp
  then have i: "de_ino m' q = de_ino m q" by (simp add: de_ino_def)
  have nl: "de_name_len m' q = de_name_len m q" using out by (simp add: de_name_len_def)
  have "nget m' (q + 12) (de_name_len m q) = nget m (q + 12) (de_name_len m q)" by (intro nget_cong out) simp
  then have l1: "live1 m' q = live1 m q" by (simp add: live1_def de_name_def i nl)
  have "(de_len m q + de_len m de) mod 4 = 0" using bq(2) b(2) by (simp add: mod_eq_0_iff_dvd)
  then have d': "dent_ok m' e q" using bq(1,3,5) b(4) q(2) by (simp add: dent_ok_def i l nl)
  have c: "chain m' (de + de_len m de) e \<and> live m' (de + de_len m de) e = live m (de + de_len m de) e"
    using q(2) bq(1) by (intro chain_cong [OF c2] out) simp
  have e: "q + de_len m' q = de + de_len m de" using l q(2) by simp
  show "chain m' q e" "live m' q e = live1 m q @ live m (de + de_len m de) e"
    using chain_Cons [OF d', unfolded e] c l1 by simp_all
qed

end
