(* ===== verification/Pmfs_Dir_Inode.thy ===== *)
theory Pmfs_Dir_Inode
  imports Pmfs_Dir_Edit Pmfs_Btree_Resize Pmfs_Btree_Props
begin

unbundle bit_operations_syntax

text \<open>
  Directories as a whole: the invariant of a directory and the list of its live entries, and the effect of
  adding and removing an entry on both.
\<close>

section \<open>The invariant\<close>

definition dir_n :: "tree_st \<Rightarrow> nat" where "dir_n st = unat (v_size (st_vi st)) div 4096"

definition blk_at :: "tree_st \<Rightarrow> nat \<Rightarrow> nat" where
  "blk_at st k = (case file_page st k of None \<Rightarrow> 0 | Some p \<Rightarrow> p * 4096)"

definition block_live :: "tree_st \<Rightarrow> nat \<Rightarrow> (u8 list \<times> u64) list" where
  "block_live st k = live (st_mem st) (blk_at st k) (blk_at st k + 4096)"

definition dir_list :: "tree_st \<Rightarrow> (u8 list \<times> u64) list" where
  "dir_list st = concat (map (block_live st) [0..<dir_n st])"

definition dir_ok :: "tree_st \<Rightarrow> bool" where
  "dir_ok st \<longleftrightarrow> inode_ok st \<and> unat (v_size (st_vi st)) = dir_n st * 4096 \<and> 0 < dir_n st \<and>
     (\<forall>k < dir_n st. file_page st k \<noteq> None \<and> chain (st_mem st) (blk_at st k) (blk_at st k + 4096))"

lemma dir_okD:
  assumes "dir_ok st"
  shows "inode_ok st" "unat (v_size (st_vi st)) = dir_n st * 4096" "0 < dir_n st"
    "k < dir_n st \<Longrightarrow> file_page st k \<noteq> None" "k < dir_n st \<Longrightarrow> chain (st_mem st) (blk_at st k) (blk_at st k + 4096)"
  using assms by (simp_all add: dir_ok_def)

text \<open>No file has more than \<open>2 ^ 45\<close> pages.\<close>

lemma page_bound:
  assumes "inode_ok st" "file_page st n \<noteq> None"
  shows "n < 2 ^ 45"
proof -
  let ?L = "blk_pages (st_pi st)"
  have "file_block st (n div ?L) \<noteq> 0" using assms(2) by (auto simp: file_page_def Let_def split: if_splits)
  then have "n div ?L < span (hgt st)" by (auto simp: file_block_def split: if_splits)
  moreover have "span (hgt st) \<le> 2 ^ 27" using span_mono [of "hgt st" 3] assms(1) by (simp add: inode_ok_def span_def META_BLK_SHIFT_def)
  ultimately have q: "n div ?L < 2 ^ 27" by simp
  have "?L \<le> 2 ^ 18" using numblocks_bounds(2) by (simp add: blk_pages_def)
  have "n < (n div ?L + 1) * ?L" using dividend_less_div_times [of ?L n] by (simp add: distrib_right)
  also have "\<dots> \<le> 2 ^ 27 * 2 ^ 18" using q \<open>?L \<le> 2 ^ 18\<close> by (intro mult_le_mono) simp_all
  finally show ?thesis by simp
qed

lemma dir_n_bound:
  assumes "dir_ok st"
  shows "dir_n st \<le> 2 ^ 45"
proof -
  have "dir_n st - 1 < 2 ^ 45" using dir_okD(3,4) [OF assms] by (intro page_bound [OF dir_okD(1) [OF assms]]) simp
  then show ?thesis by simp
qed

lemma dir_blocks_n:
  assumes "dir_ok st"
  shows "dir_blocks st = dir_n st"
proof -
  have "unat (v_size (st_vi st)) < 2 ^ 63" using dir_n_bound [OF assms] dir_okD(2) [OF assms] by (simp only: power_numeral Num.pow.simps Num.sqr.simps) simp
  from signed_drop_small [OF this] show ?thesis by (simp add: dir_blocks_def dir_n_def)
qed

lemma find_at_page:
  assumes ok: "inode_ok st" and p: "file_page st k \<noteq> None" and k: "k < 2 ^ 64"
  shows "unat (pmfs_find_data_block st (of_nat k)) = blk_at st k" "pmfs_find_data_block st (of_nat k) \<noteq> 0"
    "4096 \<le> blk_at st k" "blk_at st k div 4096 \<in> data_pages st" "file_page st k = Some (blk_at st k div 4096)"
    "blk_at st k mod 4096 = 0"
proof -
  obtain p where p: "file_page st k = Some p" using p by blast
  have b: "0 < p" "p < 2 ^ 52" using find_data_block_page(2) [OF ok p] by simp_all
  have "unat (of_nat k :: u64) = k" using k by (intro unat_of_nat_less) simp
  then have f: "pmfs_find_data_block st (of_nat k) = of_nat (p * 4096)"
    using find_data_block_page(1) [OF ok, of "of_nat k"] p by simp
  have "unat (of_nat (p * 4096) :: u64) = p * 4096" using b(2) by (intro unat_of_nat_less) simp
  then show u: "unat (pmfs_find_data_block st (of_nat k)) = blk_at st k" using f p by (simp add: blk_at_def)
  show "4096 \<le> blk_at st k" using b(1) p by (simp add: blk_at_def)
  then show "pmfs_find_data_block st (of_nat k) \<noteq> 0" using u by (metis unat_0 not_numeral_le_zero)
  show "blk_at st k div 4096 \<in> data_pages st" using file_page_data [OF p] p by (simp add: blk_at_def)
  show "file_page st k = Some (blk_at st k div 4096)" "blk_at st k mod 4096 = 0" using p by (simp_all add: blk_at_def)
qed

lemma page_byte:
  assumes "b mod 4096 = 0" "b \<le> x" "x < b + 4096"
  shows "x div 4096 = b div (4096 :: nat)"
proof -
  obtain q where q: "b = q * 4096" using assms(1) by auto
  from assms(2,3) q obtain r where "x = q * 4096 + r" "r < 4096" by (auto dest!: le_Suc_ex)
  with q show ?thesis by simp
qed

lemma page_byte_out:
  assumes "b mod 4096 = 0" "x div 4096 \<noteq> b div (4096 :: nat)"
  shows "x < b \<or> b + 4096 \<le> x"
  using page_byte [OF assms(1), of x] assms(2) by fastforce

section \<open>Changing one block\<close>

text \<open>What a directory operation keeps of the inode.\<close>

definition same_file :: "tree_st \<Rightarrow> tree_st \<Rightarrow> bool" where
  "same_file st st' \<longleftrightarrow> root (st_pi st') = root (st_pi st) \<and> height (st_pi st') = height (st_pi st) \<and>
     i_blk_type (st_pi st') = i_blk_type (st_pi st) \<and> i_blocks (st_pi st') = i_blocks (st_pi st) \<and>
     v_size (st_vi st') = v_size (st_vi st)"

lemma one_page_write:
  assumes ok: "inode_ok st" and p: "file_page st k = Some p"
    and sbi: "st_sbi st' = (st_sbi st)\<lparr>nvmm := m'\<rparr>" and sf: "same_file st st'"
    and out: "\<And>x. x < p * 4096 \<or> p * 4096 + 4096 \<le> x \<Longrightarrow> m' x = st_mem st x"
  shows "inode_ok st'" "file_page st' = file_page st" "blk_at st' = blk_at st" "dir_n st' = dir_n st"
    "inode_pages st' = inode_pages st" "same_on (- {p}) (st_mem st) m'"
    "j \<noteq> k \<Longrightarrow> file_page st j \<noteq> None \<Longrightarrow> chain (st_mem st) (blk_at st j) (blk_at st j + 4096) \<Longrightarrow>
       chain m' (blk_at st j) (blk_at st j + 4096) \<and> block_live st' j = block_live st j"
proof -
  have so: "same_on (- {p}) (st_mem st) m'"
    unfolding same_on_def
  proof (intro allI impI)
    fix x
    assume "x div 4096 \<in> - {p}"
    then have "x < p * 4096 \<or> p * 4096 + 4096 \<le> x" using page_byte_out [of "p * 4096" x] by simp
    then show "st_mem st x = m' x" using out by simp
  qed
  then show "same_on (- {p}) (st_mem st) m'" .
  have so': "same_on (- data_pages st) (st_mem st) m'" using file_page_data [OF p] by (intro same_on_mono [OF so]) auto
  note dw = data_write_ok [OF ok sbi _ _ _ _ so']
  show "inode_ok st'" by (rule dw(1)) (use sf in \<open>simp_all add: same_file_def\<close>)
  have fb: "file_block st' = file_block st" by (rule dw(2)) (use sf in \<open>simp_all add: same_file_def\<close>)
  show "inode_pages st' = inode_pages st" by (rule dw(3)) (use sf in \<open>simp_all add: same_file_def\<close>)
  show fp: "file_page st' = file_page st" using sf fb by (auto simp: file_page_def same_file_def blk_pages_def fun_eq_iff)
  then show ba: "blk_at st' = blk_at st" by (simp add: blk_at_def fun_eq_iff)
  show "dir_n st' = dir_n st" using sf by (simp add: dir_n_def same_file_def)
  assume j: "j \<noteq> k" "file_page st j \<noteq> None" and c: "chain (st_mem st) (blk_at st j) (blk_at st j + 4096)"
  obtain q where q: "file_page st j = Some q" using j(2) by blast
  then have "q \<noteq> p" using file_page_inj [OF ok q] p j(1) by blast
  then have eq: "m' x = st_mem st x" if "q * 4096 \<le> x" "x < q * 4096 + 4096" for x
    using that out [of x] by (cases "q < p") linarith+
  have "chain m' (blk_at st j) (blk_at st j + 4096) \<and>
      live m' (blk_at st j) (blk_at st j + 4096) = live (st_mem st) (blk_at st j) (blk_at st j + 4096)"
    using q by (intro chain_cong [OF c] eq) (simp_all add: blk_at_def)
  then show "chain m' (blk_at st j) (blk_at st j + 4096) \<and> block_live st' j = block_live st j"
    using sbi by (simp add: block_live_def ba)
qed

lemma concat_split:
  "k < n \<Longrightarrow> concat (map f [0..<n]) = concat (map f [0..<k]) @ f k @ concat (map f [Suc k..<n])"
proof -
  assume "k < n"
  then have "[0..<n] = [0..<k] @ k # [Suc k..<n]" by (metis upt_add_eq_append [of 0 k "n - k"] upt_conv_Cons le_add_diff_inverse less_imp_le_nat zero_le)
  then show ?thesis by simp
qed

lemma dir_change:
  assumes ok: "dir_ok st" and k: "k < dir_n st"
    and sbi: "st_sbi st' = (st_sbi st)\<lparr>nvmm := m'\<rparr>" and sf: "same_file st st'"
    and out: "\<forall>x. x < blk_at st k \<or> blk_at st k + 4096 \<le> x \<longrightarrow> m' x = st_mem st x"
    and c: "chain m' (blk_at st k) (blk_at st k + 4096)"
  shows "dir_ok st'"
    "dir_list st' = concat (map (block_live st) [0..<k]) @ live m' (blk_at st k) (blk_at st k + 4096) @
       concat (map (block_live st) [Suc k..<dir_n st])"
    "same_on (- {blk_at st k div 4096}) (st_mem st) m'" "inode_pages st' = inode_pages st"
proof -
  note d = dir_okD [OF ok]
  obtain p where p: "file_page st k = Some p" "blk_at st k = p * 4096" using d(4) [OF k] by (auto simp: blk_at_def)
  have out': "m' x = st_mem st x" if "x < p * 4096 \<or> p * 4096 + 4096 \<le> x" for x using out that p(2) by auto
  note o = one_page_write [OF d(1) p(1) sbi sf out']
  have c': "chain m' (blk_at st j) (blk_at st j + 4096)" if "j < dir_n st" for j
    using that c o(7) [of j] d(4,5) by (cases "j = k") auto
  have l: "block_live st' j = block_live st j" if "j < dir_n st" "j \<noteq> k" for j using that o(7) [of j] d(4,5) by simp
  have v: "v_size (st_vi st') = v_size (st_vi st)" using sf by (simp add: same_file_def)
  show "dir_ok st'" using o(1) d(2-4) c' sbi by (simp add: dir_ok_def o(2,3,4) v)
  have lk: "block_live st' k = live m' (blk_at st k) (blk_at st k + 4096)" using sbi by (simp add: block_live_def o(3))
  have "concat (map (block_live st') [0..<k]) = concat (map (block_live st) [0..<k])"
    "concat (map (block_live st') [Suc k..<dir_n st]) = concat (map (block_live st) [Suc k..<dir_n st])"
    using l k by (auto intro!: arg_cong [of _ _ concat])
  then show "dir_list st' = concat (map (block_live st) [0..<k]) @ live m' (blk_at st k) (blk_at st k + 4096) @
      concat (map (block_live st) [Suc k..<dir_n st])"
    using concat_split [OF k, of "block_live st'"] by (simp add: dir_list_def o(4) lk)
  show "same_on (- {blk_at st k div 4096}) (st_mem st) m'" using o(6) p(2) by simp
  show "inode_pages st' = inode_pages st" by (rule o(5))
qed

lemma dir_list_split:
  "k < dir_n st \<Longrightarrow> dir_list st = concat (map (block_live st) [0..<k]) @ block_live st k @
     concat (map (block_live st) [Suc k..<dir_n st])"
  unfolding dir_list_def by (rule concat_split)

end
