(* ===== verification/Pmfs_Dir_Ops.thy ===== *)
theory Pmfs_Dir_Ops
  imports Pmfs_Dir_Inode
begin

unbundle bit_operations_syntax

text \<open>
  \<^verbatim>\<open>pmfs_add_entry\<close>, \<^verbatim>\<open>pmfs_remove_entry\<close> and \<^verbatim>\<open>pmfs_inode_by_name\<close> on a well-formed directory.
\<close>

section \<open>Stores\<close>

lemma dir_store_simps [simp]:
  "st_sbi (log_entry txn a n st) = st_sbi st" "st_pi (log_entry txn a n st) = st_pi st" "st_vi (log_entry txn a n st) = st_vi st"
  "st_sbi (log_inode txn st) = st_sbi st" "st_pi (log_inode txn st) = st_pi st" "st_vi (log_inode txn st) = st_vi st"
  "st_sbi (put_bytes a bs st) = (st_sbi st)\<lparr>nvmm := nput a bs (st_mem st)\<rparr>" "st_pi (put_bytes a bs st) = st_pi st"
  "st_vi (put_bytes a bs st) = st_vi st"
  by (simp_all add: log_entry_def log_inode_def put_bytes_def upd_mem_def act_def)

lemma fill_dirent_fields:
  "st_sbi (fill_dirent txn now name ino de st) = (st_sbi st)\<lparr>nvmm := fill_mem name ino de (st_mem st)\<rparr>"
  "same_file st (fill_dirent txn now name ino de st)"
  by (simp_all add: fill_dirent_def fill_mem_def entry_mem_def split_mem_def same_file_def Let_def upd_pi_def)

lemma dir_ok_cong:
  assumes "st_sbi st' = st_sbi st" "same_file st st'"
  shows "dir_ok st' = dir_ok st" "dir_list st' = dir_list st" "inode_pages st' = inode_pages st" "dir_n st' = dir_n st"
    "blk_at st' = blk_at st" "inode_ok st' = inode_ok st" "file_page st' = file_page st"
proof -
  have f: "root (st_pi st') = root (st_pi st)" "height (st_pi st') = height (st_pi st)"
    "i_blk_type (st_pi st') = i_blk_type (st_pi st)" "i_blocks (st_pi st') = i_blocks (st_pi st)"
    "v_size (st_vi st') = v_size (st_vi st)"
    using assms(2) by (simp_all add: same_file_def)
  note v = inode_view_cong [OF assms(1) f(1-3)]
  show io: "inode_ok st' = inode_ok st" by (rule v(4) [OF f(4)])
  show "inode_pages st' = inode_pages st" by (rule v(2))
  show fp: "file_page st' = file_page st" using v(1) f(3) by (auto simp: file_page_def blk_pages_def fun_eq_iff)
  show n: "dir_n st' = dir_n st" by (simp add: dir_n_def f)
  show ba: "blk_at st' = blk_at st" by (simp add: blk_at_def fp fun_eq_iff)
  show "dir_ok st' = dir_ok st" by (simp add: dir_ok_def io n fp ba f(5) assms(1))
  show "dir_list st' = dir_list st" by (simp add: dir_list_def n block_live_def ba assms(1) cong: map_cong)
qed

section \<open>Adding an entry\<close>

definition frame :: "tree_st \<Rightarrow> tree_st \<Rightarrow> bool" where
  "frame st st' \<longleftrightarrow> st_used st \<subseteq> st_used st' \<and> inode_pages st' = inode_pages st \<union> (st_used st' - st_used st) \<and>
     same_on (- inode_pages st') (st_mem st) (st_mem st')"

definition added :: "u8 list \<Rightarrow> u64 \<Rightarrow> tree_st \<Rightarrow> tree_st \<Rightarrow> bool" where
  "added name ino st st' \<longleftrightarrow> dir_ok st' \<and> frame st st' \<and>
     (\<exists>xs ys. dir_list st = xs @ ys \<and> dir_list st' = xs @ [(name, ino)] @ ys)"

lemma frame_refl: "frame st st" by (simp add: frame_def)

lemma frame_one_page:
  assumes "inode_ok st" "p \<in> inode_pages st" "st_sbi st' = (st_sbi st)\<lparr>nvmm := m'\<rparr>" "same_on (- {p}) (st_mem st) m'"
    "inode_pages st' = inode_pages st"
  shows "frame st st'"
  using assms same_on_mono [OF assms(4), of "- inode_pages st"] by (simp add: frame_def)

lemma blk_in_pages: "dir_ok st \<Longrightarrow> k < dir_n st \<Longrightarrow> blk_at st k div 4096 \<in> inode_pages st"
  using dir_okD(1) [of st] dir_okD(4) [of st k] data_pages_sub [of st] file_page_data [of st k] by (auto simp: blk_at_def)

text \<open>The place of a new entry in block \<open>k\<close>.\<close>

definition slot :: "tree_st \<Rightarrow> nat \<Rightarrow> u8 list \<Rightarrow> nat \<Rightarrow> bool" where
  "slot st k name x \<longleftrightarrow> k < dir_n st \<and> chain (st_mem st) (blk_at st k) x \<and> dent_ok (st_mem st) (blk_at st k + 4096) x \<and>
     chain (st_mem st) (x + de_len (st_mem st) x) (blk_at st k + 4096) \<and> room (st_mem st) (PMFS_DIR_REC_LEN (length name)) x"

lemma slot_live:
  assumes "slot st k name x"
  shows "block_live st k = live (st_mem st) (blk_at st k) x @ live1 (st_mem st) x @
    live (st_mem st) (x + de_len (st_mem st) x) (blk_at st k + 4096)"
proof -
  have s: "chain (st_mem st) (blk_at st k) x" "dent_ok (st_mem st) (blk_at st k + 4096) x"
    "chain (st_mem st) (x + de_len (st_mem st) x) (blk_at st k + 4096)" using assms by (simp_all add: slot_def)
  show ?thesis
    using chain_append [OF s(1) chain_Cons(1) [OF s(2,3)]] chain_Cons(2) [OF s(2,3)] by (simp add: block_live_def)
qed

lemma fill_added:
  assumes ok: "dir_ok st" and sl: "slot st k name x" and n: "0 < length name" "length name \<le> 255" and ino: "ino \<noteq> 0"
  shows "added name ino st (fill_dirent txn now name ino x st)"
proof -
  let ?m = "st_mem st" and ?b = "blk_at st k" and ?st = "fill_dirent txn now name ino x st"
  note d = dir_okD [OF ok]
  have k: "k < dir_n st" and s: "chain ?m ?b x" "dent_ok ?m (?b + 4096) x" "chain ?m (x + de_len ?m x) (?b + 4096)"
    "room ?m (PMFS_DIR_REC_LEN (length name)) x" using sl by (simp_all add: slot_def)
  note f = fill_mem_ok [OF s(1-3) n ino s(4)]
  have out: "\<forall>y. y < ?b \<or> ?b + 4096 \<le> y \<longrightarrow> fill_mem name ino x ?m y = ?m y"
    using chain_le [OF s(1)] dent_okD(4) [OF s(2)] by (intro allI impI f(3)) auto
  note fd = fill_dirent_fields [where txn = txn and now = now and name = name and ino = ino and de = x and st = st]
  note ch = dir_change [OF ok k fd out f(1)]
  have "\<exists>xs ys. dir_list st = xs @ ys \<and> dir_list ?st = xs @ [(name, ino)] @ ys"
    unfolding ch(2) f(2) dir_list_split [OF k] slot_live [OF sl]
    by (rule exI [of _ "concat (map (block_live st) [0..<k]) @ live ?m ?b x @ live1 ?m x"],
        rule exI [of _ "live ?m (x + de_len ?m x) (?b + 4096) @ concat (map (block_live st) [Suc k..<dir_n st])"]) simp
  moreover have "frame st ?st" by (rule frame_one_page [OF d(1) blk_in_pages [OF ok k] fd(1) ch(3,4)])
  ultimately show ?thesis using ch(1) by (simp add: added_def)
qed

lemma add_dirent_ok:
  assumes ok: "dir_ok st" and k: "k < dir_n st" and n: "0 < length name"
  shows "pmfs_add_dirent_to_buf txn now name ino None (blk_at st k) st = Some (- ENOSPC, st) \<or>
    (\<exists>x. pmfs_add_dirent_to_buf txn now name ino None (blk_at st k) st = Some (0, fill_dirent txn now name ino x st) \<and>
       slot st k name x)"
proof -
  let ?m = "st_mem st" and ?b = "blk_at st k" and ?r = "PMFS_DIR_REC_LEN (length name)"
  have c: "chain ?m ?b (?b + 4096)" by (rule dir_okD(5) [OF ok k])
  have lim: "?b + 4096 - ?r < ?b + 4096" using rec_len_bounds(4) [OF n] by simp
  from slot_loop_ok [OF c lim, of ?r] obtain x where x: "slot_loop ?m ?r (?b + 4096 - ?r) ?b = Some x"
    "x \<le> ?b + 4096 - ?r \<longrightarrow> slot st k name x" using k unfolding slot_def by blast
  then show ?thesis by (cases "x \<le> ?b + 4096 - ?r") (auto simp: pmfs_add_dirent_to_buf_def Let_def)
qed

lemma add_entry_loop_ok:
  assumes n: "0 < length name"
  shows "\<lbrakk>dir_ok st; j + i = dir_n st\<rbrakk> \<Longrightarrow>
    add_entry_loop txn now name ino j i st = Some (- ENOSPC, st) \<or>
    (\<exists>k x. add_entry_loop txn now name ino j i st = Some (0, fill_dirent txn now name ino x st) \<and> slot st k name x)"
proof (induction j arbitrary: i)
  case 0
  then show ?case by simp
next
  case (Suc j)
  then have i: "i < dir_n st" by simp
  have i64: "i < 2 ^ 64" using i dir_n_bound [OF Suc.prems(1)] by simp
  note d = dir_okD [OF Suc.prems(1)] and fp = find_at_page [OF dir_okD(1) [OF Suc.prems(1)] _ i64]
  have f: "unat (pmfs_find_data_block st (of_nat i)) = blk_at st i" "pmfs_find_data_block st (of_nat i) \<noteq> 0"
    using fp(1,2) d(4) [OF i] by simp_all
  from add_dirent_ok [OF Suc.prems(1) i n, of txn now ino] show ?case
  proof
    assume a: "pmfs_add_dirent_to_buf txn now name ino None (blk_at st i) st = Some (- ENOSPC, st)"
    have "j + Suc i = dir_n st" using Suc.prems(2) by simp
    from Suc.IH [OF Suc.prems(1) this] a f show ?thesis by (simp add: Let_def)
  next
    assume "\<exists>x. pmfs_add_dirent_to_buf txn now name ino None (blk_at st i) st = Some (0, fill_dirent txn now name ino x st) \<and>
       slot st i name x"
    then obtain x where
      x: "pmfs_add_dirent_to_buf txn now name ino None (blk_at st i) st = Some (0, fill_dirent txn now name ino x st)"
      "slot st i name x" by blast
    have "add_entry_loop txn now name ino (Suc j) i st = Some (0, fill_dirent txn now name ino x st)"
      using x(1) f by (simp add: Let_def)
    with x(2) show ?thesis by blast
  qed
qed

text \<open>Growing the file leaves the directory as it is.\<close>

lemma grown_dir:
  assumes ok: "dir_ok st" and g: "inode_grown R st st1"
    and s': "st_sbi st' = st_sbi st1" "st_pi st' = st_pi st1" "v_size (st_vi st') = v_size (st_vi st1)"
  shows "dir_ok st'" "dir_list st' = dir_list st" "frame st st'" "k < dir_n st \<Longrightarrow> blk_at st' k = blk_at st k" "dir_n st' = dir_n st"
    "k < dir_n st \<Longrightarrow> block_live st' k = block_live st k" "k < dir_n st \<Longrightarrow> file_page st' k = file_page st k"
proof -
  note d = dir_okD [OF ok]
  have ok1: "inode_ok st1" and vi: "st_vi st1 = st_vi st" and L: "blk_pages (st_pi st1) = blk_pages (st_pi st)"
    and so: "same_on (data_pages st) (st_mem st) (st_mem st1)"
    and fb: "\<And>k. file_block st k \<noteq> 0 \<Longrightarrow> file_block st1 k = file_block st k"
    using g unfolding inode_grown_def blk_pages_def by (elim conjE; simp)+
  have ok': "inode_ok st'" using ok1 s' by (simp add: inode_view_cong(4) [of st' st1])
  have fbs: "file_block st' = file_block st1" using s' by (intro inode_view_cong(1)) simp_all
  show fp: "file_page st' k = file_page st k" if "k < dir_n st" for k
    using d(4) [OF that] fb fbs L s' by (auto simp: file_page_def Let_def split: if_splits)
  show n: "dir_n st' = dir_n st" using s' vi by (simp add: dir_n_def)
  show ba: "blk_at st' k = blk_at st k" if "k < dir_n st" for k using fp [OF that] by (simp add: blk_at_def)
  have eq: "st_mem st1 x = st_mem st x" if k: "k < dir_n st" and x: "blk_at st k \<le> x" "x < blk_at st k + 4096" for k x
  proof -
    have "k < 2 ^ 64" using k dir_n_bound [OF ok] by simp
    note f = find_at_page [OF d(1) d(4) [OF k] this]
    have "x div 4096 \<in> data_pages st" using page_byte [OF f(6) x] f(4) by simp
    then show ?thesis using so by (simp add: same_on_def)
  qed
  have c: "chain (st_mem st1) (blk_at st k) (blk_at st k + 4096) \<and>
      live (st_mem st1) (blk_at st k) (blk_at st k + 4096) = live (st_mem st) (blk_at st k) (blk_at st k + 4096)"
    if "k < dir_n st" for k by (rule chain_cong [OF d(5) [OF that]]) (rule eq [OF that])
  then show bl: "block_live st' k = block_live st k" if "k < dir_n st" for k using that ba s' by (simp add: block_live_def)
  show "dir_ok st'" using ok' d(2-4) c fp ba n vi s' by (simp add: dir_ok_def)
  show "dir_list st' = dir_list st" using bl unfolding dir_list_def n by (auto intro!: arg_cong [of _ _ concat])
  have pg: "inode_pages st' = inode_pages st1" using s' by (intro inode_view_cong(2)) simp_all
  show "frame st st'" using g unfolding frame_def pg inode_grown_def s' by (elim conjE) simp
qed

text \<open>A new block holds one entry of the size of the block.\<close>

lemma first_entry_ok:
  fixes m :: mem and b :: nat
  assumes n: "0 < length name" "length name \<le> 255" and ino: "ino \<noteq> 0"
  defines "m3 \<equiv> nput (b + 8) (le16 4096) (nput b (le64 0) m)"
  shows "fill_mem name ino b m3 = entry_mem name ino b m3" "chain (entry_mem name ino b m3) b (b + 4096)"
    "live (entry_mem name ino b m3) b (b + 4096) = [(name, ino)]"
    "x < b \<or> b + 4096 \<le> x \<Longrightarrow> entry_mem name ino b m3 x = m x"
proof -
  let ?m = "entry_mem name ino b m3"
  note f = entry_mem_fields [OF n(2), where ino = ino and de = b and m = m3] and rl = rec_len_bounds [of "length name"]
  have "nget m3 b 8 = le64 0" by (simp add: m3_def)
  then have "de_ino m3 b = 0" unfolding de_ino_def by (rule get64_of_bytes)
  then show "fill_mem name ino b m3 = ?m" by (simp add: fill_mem_def)
  have "nget m3 (b + 8) 2 = le16 4096" by (simp add: m3_def)
  then have "get16 m3 (b + 8) = 4096" by (rule get16_of_bytes)
  then have l: "de_len ?m b = 4096" using f(2) by (simp add: de_len_def)
  have d: "dent_ok ?m (b + 4096) b" using n rl(2) unfolding dent_ok_def l f(3) by simp
  have "live1 ?m b = [(name, ino)]" using ino unfolding live1_def f(1,4) by simp
  then show "chain ?m b (b + 4096)" "live ?m b (b + 4096) = [(name, ino)]" using chain_Cons [OF d, unfolded l] by simp_all
  show "?m x = m x" if "x < b \<or> b + 4096 \<le> x"
    using that f(5) [of x] n(2) by (auto simp: m3_def nput_def)
qed

definition unchanged :: "tree_st \<Rightarrow> tree_st \<Rightarrow> bool" where
  "unchanged st st' \<longleftrightarrow> dir_ok st' \<and> dir_list st' = dir_list st \<and> frame st st'"

lemma add_entry_block_ok:
  assumes ok: "dir_ok st" and n: "0 < length name" "length name \<le> 255" and ino: "ino \<noteq> 0"
  shows "\<exists>e st'. add_entry_block txn now name ino (dir_n st) st = Some (e, st') \<and>
    (e = 0 \<and> added name ino st st' \<and> dir_n st' = Suc (dir_n st) \<or> e = - ENOSPC \<and> unchanged st st')"
proof -
  let ?n = "dir_n st" and ?L = "blk_pages (st_pi st)"
  note d = dir_okD [OF ok] and nb = dir_n_bound [OF ok]
  have un: "unat (of_nat ?n :: u64) = ?n" using nb by (intro unat_of_nat_less) simp
  obtain e sa where run: "pmfs_alloc_blocks txn (of_nat ?n) 1 False st = (e, sa)" by fastforce
  have one: "0 < (1 :: u32)" "unat (of_nat ?n :: u64) + unat (1 :: u32) \<le> 2 ^ 64" using un nb by simp_all
  from alloc_blocks_grown [OF d(1) one run] obtain st1 where
    sa: "sa = st1\<lparr>st_vi := (st_vi st1)\<lparr>v_blocks := i_blocks (st_pi st1)\<rparr>\<rparr>" and
    g: "inode_grown {?n div ?L..(?n + 1 - 1) div ?L} st st1" and e: "e = 0 \<or> e = - ENOSPC" and
    hit: "e = 0 \<longrightarrow> file_block st1 (?n div ?L) \<noteq> 0" by (auto simp: un)
  have sa': "st_sbi sa = st_sbi st1" "st_pi sa = st_pi st1" "v_size (st_vi sa) = v_size (st_vi st1)" using sa by simp_all
  note gd = grown_dir [OF ok g sa']
  show ?thesis
  proof (cases "e = 0")
    case False
    then have "add_entry_block txn now name ino ?n st = Some (e, sa)" using run by (simp add: add_entry_block_def)
    with False e gd show ?thesis by (auto simp: unchanged_def)
  next
    case True
    define st2 where "st2 = pmfs_update_isize (sa\<lparr>st_vi := (st_vi sa)\<lparr>v_size := v_size (st_vi sa) + 4096\<rparr>\<rparr>)"
    have s2: "st_sbi st2 = st_sbi sa" "root (st_pi st2) = root (st_pi sa)" "height (st_pi st2) = height (st_pi sa)"
      "i_blk_type (st_pi st2) = i_blk_type (st_pi sa)" "i_blocks (st_pi st2) = i_blocks (st_pi sa)"
      "v_size (st_vi st2) = v_size (st_vi sa) + 4096"
      by (simp_all add: st2_def pmfs_update_isize_def upd_pi_def act_def)
    note v = inode_view_cong [OF s2(1-4)]
    have ok2: "inode_ok st2" using v(4) [OF s2(5)] dir_okD(1) [OF gd(1)] by simp
    have fp2: "file_page st2 = file_page sa" using v(1) s2(4) by (auto simp: file_page_def blk_pages_def fun_eq_iff)
    then have ba2: "blk_at st2 = blk_at sa" by (simp add: blk_at_def fun_eq_iff)
    have "file_block sa = file_block st1" using sa by (intro inode_view_cong(1)) simp_all
    moreover have "blk_pages (st_pi sa) = ?L" using g sa by (simp add: inode_grown_def blk_pages_def)
    ultimately have pn: "file_page st2 ?n \<noteq> None" using hit True by (simp add: fp2 file_page_def Let_def)
    have n64: "?n < 2 ^ 64" using nb by simp
    note fa = find_at_page [OF ok2 pn n64]
    let ?b = "blk_at st2 ?n"
    define m3 where "m3 = nput (?b + 8) (le16 4096) (nput ?b (le64 0) (st_mem st2))"
    define st3 where "st3 = put_bytes (?b + 8) (le16 4096) (put_bytes ?b (le64 0) st2)"
    let ?st = "fill_dirent False now name ino ?b st3" and ?m = "entry_mem name ino ?b m3"
    note fe = first_entry_ok [OF n ino, where b = ?b and m = "st_mem st2", folded m3_def]
    note fd = fill_dirent_fields [where txn = False and now = now and name = name and ino = ino and de = ?b and st = st3]
    have m: "st_mem st3 = m3" by (simp add: st3_def m3_def)
    have sb: "st_sbi ?st = (st_sbi st2)\<lparr>nvmm := ?m\<rparr>" using fd(1) fe(1) by (simp add: m) (simp add: st3_def)
    have sf: "same_file st2 ?st" using fd(2) by (simp add: same_file_def st3_def)
    have pb: "?b = (?b div 4096) * 4096" using fa(6) by auto
    have out: "?m x = st_mem st2 x" if "x < ?b div 4096 * 4096 \<or> ?b div 4096 * 4096 + 4096 \<le> x" for x
      using fe(4) [of x] that pb by simp
    note ow = one_page_write [OF ok2 fa(5) sb sf out]
    have N: "dir_n ?st = Suc ?n" and V: "unat (v_size (st_vi ?st)) = Suc ?n * 4096"
    proof -
      have "v_size (st_vi ?st) = v_size (st_vi st) + 4096"
        using sf s2(6) sa g by (simp add: same_file_def inode_grown_def)
      moreover have "unat (v_size (st_vi st) + 4096) = ?n * 4096 + 4096"
        using nb d(2) by (subst unat_add_less) simp_all
      ultimately show "unat (v_size (st_vi ?st)) = Suc ?n * 4096" by simp
      then show "dir_n ?st = Suc ?n" by (simp add: dir_n_def)
    qed
    have bj: "blk_at st2 j = blk_at st j" "file_page st2 j = file_page st j" if "j < ?n" for j using gd(4,7) [OF that] ba2 fp2 by simp_all
    have mem2: "st_mem st2 = st_mem sa" using s2(1) by simp
    have old: "chain ?m (blk_at st2 j) (blk_at st2 j + 4096) \<and> block_live ?st j = block_live st j" if j: "j < ?n" for j
    proof -
      have c: "chain (st_mem st2) (blk_at st2 j) (blk_at st2 j + 4096)"
        using dir_okD(5) [OF gd(1)] j gd(5) by (simp add: mem2 ba2)
      have "block_live st2 j = block_live st j" using gd(6) [OF j] by (simp add: block_live_def mem2 ba2)
      with ow(7) [OF _ _ _ c] j bj(2) [OF j] d(4) [OF j] show ?thesis by auto
    qed
    have cn: "chain ?m ?b (?b + 4096)" and ln: "block_live ?st ?n = [(name, ino)]"
      using fe(2,3) sb ow(3) by (simp_all add: block_live_def)
    have okst: "dir_ok ?st"
      unfolding dir_ok_def N V
    proof (intro conjI allI impI)
      show "inode_ok ?st" by (rule ow(1))
      show "file_page ?st k \<noteq> None" if "k < Suc ?n" for k
        using that pn d(4) [of k] bj(2) [of k] ow(2) by (cases "k = ?n") simp_all
      show "chain (st_mem ?st) (blk_at ?st k) (blk_at ?st k + 4096)" if "k < Suc ?n" for k
        using that old [of k] cn sb ow(3) by (cases "k = ?n") simp_all
    qed simp_all
    have dl: "dir_list ?st = dir_list st @ [(name, ino)]"
    proof -
      have "concat (map (block_live ?st) [0..<?n]) = dir_list st"
        unfolding dir_list_def using old by (auto intro!: arg_cong [of _ _ concat])
      then show ?thesis unfolding dir_list_def [of ?st] N by (simp add: ln)
    qed
    have pg: "inode_pages ?st = inode_pages sa" using ow(5) v(2) by simp
    have inp: "?b div 4096 \<in> inode_pages sa" using fa(4) data_pages_sub [OF ok2] v(2) by auto
    have u: "st_used ?st = st_used sa" using sb s2(1) by simp
    have "same_on (- inode_pages sa) (st_mem sa) ?m" using ow(6) inp mem2 by (intro same_on_mono [OF ow(6) [unfolded mem2]]) auto
    moreover have "same_on (- inode_pages sa) (st_mem st) (st_mem sa)" using gd(3) unfolding frame_def by (elim conjE)
    ultimately have "same_on (- inode_pages sa) (st_mem st) ?m" by (rule same_on_trans [rotated])
    then have "frame st ?st" using gd(3) sb unfolding frame_def pg u by simp
    then have "added name ino st ?st" using okst dl unfolding added_def by (intro conjI exI [of _ "dir_list st"] exI [of _ "[]"]) simp_all
    moreover have "add_entry_block txn now name ino ?n st = Some (0, ?st)"
      using run True fa(1,2) unfolding add_entry_block_def Let_def st2_def [symmetric]
      by (simp add: pmfs_add_dirent_to_buf_def st3_def st2_def)
    ultimately show ?thesis using N by blast
  qed
qed

lemma add_entry_cases:
  fixes txn :: bool
  assumes ok: "dir_ok st" and n: "0 < length name" "length name \<le> 255" and ino: "ino \<noteq> 0"
  defines "st0 \<equiv> log_inode txn st"
  shows "(\<exists>k x. pmfs_add_entry txn now name ino st = Some (0, fill_dirent txn now name ino x st0) \<and> slot st0 k name x) \<or>
    (\<exists>e st'. pmfs_add_entry txn now name ino st = Some (e, st') \<and>
       (e = 0 \<and> added name ino st0 st' \<and> dir_n st' = Suc (dir_n st0) \<or> e = - ENOSPC \<and> unchanged st0 st'))"
proof -
  have sf: "same_file st st0" "st_sbi st0 = st_sbi st" by (simp_all add: same_file_def st0_def)
  have ok': "dir_ok st0" using ok dir_ok_cong(1) [OF sf(2,1)] by simp
  have "dir_n st0 + 0 = dir_n st0" by simp
  from add_entry_loop_ok [OF n(1) ok' this, of txn now ino] show ?thesis
  proof
    assume "add_entry_loop txn now name ino (dir_n st0) 0 st0 = Some (- ENOSPC, st0)"
    then have "pmfs_add_entry txn now name ino st = add_entry_block txn now name ino (dir_n st0) st0"
      using n(1) dir_blocks_n [OF ok'] by (simp add: pmfs_add_entry_def Let_def st0_def)
    with add_entry_block_ok [OF ok' n ino, of txn now] show ?thesis by simp
  next
    assume "\<exists>k x. add_entry_loop txn now name ino (dir_n st0) 0 st0 = Some (0, fill_dirent txn now name ino x st0) \<and>
      slot st0 k name x"
    then obtain k x where r: "add_entry_loop txn now name ino (dir_n st0) 0 st0 = Some (0, fill_dirent txn now name ino x st0)"
      "slot st0 k name x" by blast
    then have "pmfs_add_entry txn now name ino st = Some (0, fill_dirent txn now name ino x st0)"
      using n(1) dir_blocks_n [OF ok'] by (simp add: pmfs_add_entry_def Let_def st0_def)
    with r(2) show ?thesis by blast
  qed
qed

lemma log_inode_views [simp]:
  "dir_ok (log_inode txn st) = dir_ok st" "dir_list (log_inode txn st) = dir_list st" "dir_n (log_inode txn st) = dir_n st"
  "added name ino (log_inode txn st) st' = added name ino st st'" "unchanged (log_inode txn st) st' = unchanged st st'"
  "blk_at (log_inode txn st) = blk_at st" "block_live (log_inode txn st) k = block_live st k"
proof -
  have sf: "st_sbi (log_inode txn st) = st_sbi st" "same_file st (log_inode txn st)" by (simp_all add: same_file_def)
  note c = dir_ok_cong [OF sf]
  show "dir_ok (log_inode txn st) = dir_ok st" "dir_list (log_inode txn st) = dir_list st" "dir_n (log_inode txn st) = dir_n st"
    "blk_at (log_inode txn st) = blk_at st" by (rule c)+
  show "added name ino (log_inode txn st) st' = added name ino st st'" "unchanged (log_inode txn st) st' = unchanged st st'"
    "block_live (log_inode txn st) k = block_live st k"
    by (simp_all add: added_def unchanged_def frame_def c block_live_def)
qed

lemma add_entry_ok:
  assumes ok: "dir_ok st" and n: "0 < length name" "length name \<le> 255" and ino: "ino \<noteq> 0"
  shows "\<exists>e st'. pmfs_add_entry txn now name ino st = Some (e, st') \<and>
    (e = 0 \<and> added name ino st st' \<or> e = - ENOSPC \<and> unchanged st st')"
  using add_entry_cases [OF ok n ino, of txn now]
proof
  assume "\<exists>k x. pmfs_add_entry txn now name ino st = Some (0, fill_dirent txn now name ino x (log_inode txn st)) \<and>
    slot (log_inode txn st) k name x"
  then obtain k x where r: "pmfs_add_entry txn now name ino st = Some (0, fill_dirent txn now name ino x (log_inode txn st))"
    "slot (log_inode txn st) k name x" by blast
  have "added name ino (log_inode txn st) (fill_dirent txn now name ino x (log_inode txn st))"
    using ok by (intro fill_added [OF _ r(2) n ino]) simp
  with r(1) show ?thesis by auto
next
  assume "\<exists>e st'. pmfs_add_entry txn now name ino st = Some (e, st') \<and>
    (e = 0 \<and> added name ino (log_inode txn st) st' \<and> dir_n st' = Suc (dir_n (log_inode txn st)) \<or>
     e = - ENOSPC \<and> unchanged (log_inode txn st) st')"
  then show ?thesis by auto
qed

section \<open>Finding an entry\<close>

definition at_block :: "tree_st \<Rightarrow> u8 list \<Rightarrow> nat \<Rightarrow> nat \<Rightarrow> nat option \<Rightarrow> bool" where
  "at_block st name k de prev \<longleftrightarrow> k < dir_n st \<and> located (st_mem st) (blk_at st k) (blk_at st k + 4096) name None de prev"

lemma search_block_ok:
  assumes ok: "dir_ok st" and k: "k < dir_n st"
  shows "if name \<in> fst ` set (block_live st k)
    then \<exists>de prev. pmfs_search_dirblock (st_mem st) (unat (pmfs_find_data_block st (of_nat k))) name = Found de prev \<and>
      at_block st name k de prev
    else pmfs_search_dirblock (st_mem st) (unat (pmfs_find_data_block st (of_nat k))) name = Not_found"
    "pmfs_find_data_block st (of_nat k) \<noteq> 0"
proof -
  have "k < 2 ^ 64" using k dir_n_bound [OF ok] by simp
  note f = find_at_page [OF dir_okD(1) [OF ok] dir_okD(4) [OF ok k] this]
  show "pmfs_find_data_block st (of_nat k) \<noteq> 0" by (rule f(2))
  show "if name \<in> fst ` set (block_live st k)
    then \<exists>de prev. pmfs_search_dirblock (st_mem st) (unat (pmfs_find_data_block st (of_nat k))) name = Found de prev \<and>
      at_block st name k de prev
    else pmfs_search_dirblock (st_mem st) (unat (pmfs_find_data_block st (of_nat k))) name = Not_found"
    using search_loop_ok [OF dir_okD(5) [OF ok k] order_refl refl, of name None] k
    unfolding f(1) pmfs_search_dirblock_def block_live_def at_block_def by (auto split: if_splits)
qed

lemma located_live:
  assumes "located m a e name pde de prev"
  shows "live m a e = live m a de @ [(name, de_ino m de)] @ live m (de + de_len m de) e" "name \<notin> fst ` set (live m a de)"
    "a \<le> de" "de + de_len m de \<le> e"
proof -
  have c: "chain m a de" and d: "dent_ok m e de" and c2: "chain m (de + de_len m de) e" and mt: "pmfs_match m name de"
    and nn: "name \<notin> fst ` set (live m a de)" using assms by (simp_all add: located_def)
  show "name \<notin> fst ` set (live m a de)" by (rule nn)
  show "a \<le> de" by (rule chain_le [OF c])
  show "de + de_len m de \<le> e" by (rule dent_okD(4) [OF d])
  have "live1 m de = [(name, de_ino m de)]" using mt by (simp add: live1_def match_iff)
  with chain_append [OF c chain_Cons(1) [OF d c2]] chain_Cons(2) [OF d c2]
  show "live m a e = live m a de @ [(name, de_ino m de)] @ live m (de + de_len m de) e" by simp
qed

section \<open>Removing an entry\<close>

lemma remove_search_ok:
  assumes ok: "dir_ok st"
  shows "j + i = dir_n st \<Longrightarrow>
    if \<exists>k \<in> {i..<dir_n st}. name \<in> fst ` set (block_live st k)
    then \<exists>k de prev. remove_search name j i st = At de prev \<and> at_block st name k de prev \<and>
      (\<forall>l \<in> {i..<k}. name \<notin> fst ` set (block_live st l))
    else remove_search name j i st = Nowhere"
proof (induction j arbitrary: i)
  case 0
  then show ?case by simp
next
  case (Suc j)
  then have i: "i < dir_n st" and n: "j + Suc i = dir_n st" by simp_all
  note sb = search_block_ok(1) [OF ok i, where name = name] search_block_ok(2) [OF ok i]
  have split: "{i..<dir_n st} = insert i {Suc i..<dir_n st}" using i by auto
  show ?case
  proof (cases "name \<in> fst ` set (block_live st i)")
    case True
    then obtain de prev where
      s: "pmfs_search_dirblock (st_mem st) (unat (pmfs_find_data_block st (of_nat i))) name = Found de prev"
      "at_block st name i de prev" using sb(1) by auto
    then have "remove_search name (Suc j) i st = At de prev" using sb(2) by (simp add: Let_def)
    with s(2) True i show ?thesis by force
  next
    case False
    then have r: "remove_search name (Suc j) i st = remove_search name j (Suc i) st" using sb by (simp add: Let_def)
    have e: "(\<exists>k \<in> {i..<dir_n st}. name \<in> fst ` set (block_live st k)) \<longleftrightarrow>
        (\<exists>k \<in> {Suc i..<dir_n st}. name \<in> fst ` set (block_live st k))" using False unfolding split by simp
    have l: "(\<forall>l \<in> {i..<k}. name \<notin> fst ` set (block_live st l))"
      if "\<forall>l \<in> {Suc i..<k}. name \<notin> fst ` set (block_live st l)" for k
    proof
      fix l
      assume "l \<in> {i..<k}"
      with that False show "name \<notin> fst ` set (block_live st l)" by (cases "l = i") auto
    qed
    show ?thesis
    proof (cases "\<exists>k \<in> {Suc i..<dir_n st}. name \<in> fst ` set (block_live st k)")
      case True
      with Suc.IH [OF n] obtain k de prev where "remove_search name j (Suc i) st = At de prev" "at_block st name k de prev"
        "\<forall>l \<in> {Suc i..<k}. name \<notin> fst ` set (block_live st l)" by auto
      with l [of k] show ?thesis unfolding r e if_P [OF True] by blast
    next
      case no: False
      with Suc.IH [OF n] show ?thesis unfolding r e if_not_P [OF no] by simp
    qed
  qed
qed

definition removed :: "u8 list \<Rightarrow> tree_st \<Rightarrow> tree_st \<Rightarrow> bool" where
  "removed name st st' \<longleftrightarrow> dir_ok st' \<and> frame st st' \<and>
     (\<exists>xs i ys. dir_list st = xs @ [(name, i)] @ ys \<and> dir_list st' = xs @ ys \<and> name \<notin> fst ` set xs)"

definition unlink_mem :: "nat \<Rightarrow> nat option \<Rightarrow> mem \<Rightarrow> mem" where
  "unlink_mem de prev m =
     (case prev of
        Some q \<Rightarrow> nput (q + 8) (le16 (get16 m (q + 8) + get16 m (de + 8))) m
      | None \<Rightarrow> nput de (le64 0) m)"

lemma unlink_mem_ok:
  assumes l: "located m a e name None de prev" and e: "e = a + 4096"
  shows "chain (unlink_mem de prev m) a e"
    "live (unlink_mem de prev m) a e = live m a de @ live m (de + de_len m de) e"
    "x < a \<or> e \<le> x \<Longrightarrow> unlink_mem de prev m x = m x"
proof -
  let ?m = "unlink_mem de prev m"
  have c: "chain m a de" and d: "dent_ok m e de" and c2: "chain m (de + de_len m de) e" using l by (simp_all add: located_def)
  note b = dent_okD [OF d]
  have "chain ?m a e \<and> live ?m a e = live m a de @ live m (de + de_len m de) e \<and> (\<forall>x. x < a \<or> e \<le> x \<longrightarrow> ?m x = m x)"
  proof (cases "a = de")
    case True
    then have p: "prev = None" using l by (simp add: located_def)
    have "?m x = m x" if "x < a \<or> e \<le> x" for x using that b(1,4) True by (auto simp: unlink_mem_def p nput_def)
    with remove_first_ok [OF d c2] True show ?thesis by (simp add: unlink_mem_def p)
  next
    case False
    then obtain q where q: "prev = Some q" "chain m a q" "dent_ok m de q" "q + de_len m q = de"
      using l by (auto simp: located_def)
    note bq = dent_okD [OF q(3)]
    have u: "?m = nput (q + 8) (le16 (get16 m (q + 8) + get16 m (de + 8))) m" by (simp add: unlink_mem_def q(1))
    have small: "e - q < 2 ^ 16" using e chain_le [OF q(2)] by simp
    note mg = merge_ok [OF q(3,4) d c2 small, folded u]
    have out: "?m x = m x" if "x < q \<or> e \<le> x" for x using that bq(1,4) b(1,4) by (auto simp: u nput_def)
    have "chain m de de" by simp
    then have cq: "chain m (q + de_len m q) de" using q(4) by simp
    have lq: "live m a de = live m a q @ live1 m q"
      using chain_append [OF q(2) chain_Cons(1) [OF q(3) cq]] chain_Cons(2) [OF q(3) cq] q(4) by simp
    have "chain ?m a q \<and> live ?m a q = live m a q" by (rule chain_cong [OF q(2)]) (simp add: out)
    with chain_append [of ?m a q e] mg lq out chain_le [OF q(2)] show ?thesis by auto
  qed
  then show "chain ?m a e" "live ?m a e = live m a de @ live m (de + de_len m de) e"
    "x < a \<or> e \<le> x \<Longrightarrow> ?m x = m x" by blast+
qed

lemma dir_list_names: "name \<in> fst ` set (dir_list st) \<longleftrightarrow> (\<exists>k \<in> {0..<dir_n st}. name \<in> fst ` set (block_live st k))"
  by (auto simp: dir_list_def)

lemma remove_entry_ok:
  assumes ok: "dir_ok st" and n: "0 < length name"
  shows "if name \<in> fst ` set (dir_list st)
    then \<exists>st'. pmfs_remove_entry txn now name st = (0, st') \<and> removed name st st'
    else pmfs_remove_entry txn now name st = (- EINVAL, st)"
proof (cases "name \<in> fst ` set (dir_list st)")
  case False
  then have "\<not> (\<exists>k \<in> {0..<dir_n st}. name \<in> fst ` set (block_live st k))" by (simp add: dir_list_names)
  then have "remove_search name (dir_blocks st) 0 st = Nowhere"
    using remove_search_ok [OF ok, of "dir_n st" 0 name] dir_blocks_n [OF ok] by simp
  then show ?thesis using n False by (simp add: pmfs_remove_entry_def)
next
  case True
  then have "\<exists>k \<in> {0..<dir_n st}. name \<in> fst ` set (block_live st k)" by (simp add: dir_list_names)
  then obtain k de prev where r: "remove_search name (dir_blocks st) 0 st = At de prev" and
    k: "k < dir_n st" "located (st_mem st) (blk_at st k) (blk_at st k + 4096) name None de prev" and
    before: "\<forall>l \<in> {0..<k}. name \<notin> fst ` set (block_live st l)"
    using remove_search_ok [OF ok, of "dir_n st" 0 name] dir_blocks_n [OF ok] by (auto simp: at_block_def)
  let ?m = "st_mem st" and ?b = "blk_at st k"
  define st' where "st' = snd (pmfs_remove_entry txn now name st)"
  have run: "pmfs_remove_entry txn now name st = (0, st')" and sb: "st_sbi st' = (st_sbi st)\<lparr>nvmm := unlink_mem de prev ?m\<rparr>"
    and sf: "same_file st st'"
    using n r by (simp_all add: st'_def pmfs_remove_entry_def unlink_mem_def Let_def upd_pi_def same_file_def split: option.split)
  note u = unlink_mem_ok [OF k(2) refl] and ll = located_live [OF k(2)]
  have out: "\<forall>x. x < ?b \<or> ?b + 4096 \<le> x \<longrightarrow> unlink_mem de prev ?m x = ?m x" using u(3) by blast
  note ch = dir_change [OF ok k(1) sb sf out u(1)]
  have bl: "block_live st k = live ?m ?b de @ [(name, de_ino ?m de)] @ live ?m (de + de_len ?m de) (?b + 4096)"
    using ll(1) by (simp add: block_live_def)
  let ?xs = "concat (map (block_live st) [0..<k]) @ live ?m ?b de"
  let ?ys = "live ?m (de + de_len ?m de) (?b + 4096) @ concat (map (block_live st) [Suc k..<dir_n st])"
  have "dir_list st = ?xs @ [(name, de_ino ?m de)] @ ?ys" unfolding dir_list_split [OF k(1)] bl by simp
  moreover have "dir_list st' = ?xs @ ?ys" unfolding ch(2) u(2) by simp
  moreover have "name \<notin> fst ` set ?xs" using before ll(2) by auto
  moreover have "frame st st'"
    by (rule frame_one_page [OF dir_okD(1) [OF ok] blk_in_pages [OF ok k(1)] sb ch(3,4)])
  ultimately have "removed name st st'" using ch(1) unfolding removed_def by blast
  with run True show ?thesis by simp
qed

end
