(* ===== verification/Pmfs_Dir_Lookup.thy ===== *)
theory Pmfs_Dir_Lookup
  imports Pmfs_Dir_Ops
begin

unbundle bit_operations_syntax

text \<open>
  \<^verbatim>\<open>pmfs_inode_by_name\<close> and \<^verbatim>\<open>pmfs_readdir\<close> against the list of live entries.
\<close>

section \<open>Lookup\<close>

text \<open>The blocks that the loop still visits.\<close>

definition visits :: "nat \<Rightarrow> nat \<Rightarrow> nat \<Rightarrow> nat set" where
  "visits nblocks start block = (if block < start then {block..<start} else {block..<nblocks} \<union> {..<start})"

definition in_block :: "tree_st \<Rightarrow> u8 list \<Rightarrow> nat \<Rightarrow> bool" where
  "in_block st name k \<longleftrightarrow> name \<in> fst ` set (block_live st k)"

lemma by_name_loop_ok:
  assumes ok: "dir_ok st" and le: "nblocks \<le> dir_n st" and st: "start < nblocks"
  shows "block < nblocks \<Longrightarrow>
    if \<exists>k \<in> visits nblocks start block. in_block st name k
    then \<exists>k de prev. by_name_loop name nblocks start st block = Some (Hit k de) \<and>
      k \<in> visits nblocks start block \<and> at_block st name k de prev
    else by_name_loop name nblocks start st block = Some Loop_end"
proof (induction "if block < start then start - block else nblocks - block + start" arbitrary: block rule: less_induct)
  case less
  then have k: "block < dir_n st" using le by simp
  note sb = search_block_ok(1) [OF ok k, where name = name] search_block_ok(2) [OF ok k]
  show ?case
  proof (cases "in_block st name block")
    case True
    then obtain de prev where
      s: "pmfs_search_dirblock (st_mem st) (unat (pmfs_find_data_block st (of_nat block))) name = Found de prev"
      "at_block st name block de prev" using sb(1) by (auto simp: in_block_def)
    have "by_name_loop name nblocks start st block = Some (Hit block de)"
      using s(1) sb(2) by (simp add: by_name_loop.simps [of name nblocks start st block] Let_def)
    moreover have "block \<in> visits nblocks start block" using less.prems by (auto simp: visits_def)
    ultimately show ?thesis using s(2) True by auto
  next
    case False
    then have nf: "pmfs_search_dirblock (st_mem st) (unat (pmfs_find_data_block st (of_nat block))) name = Not_found"
      using sb(1) by (simp add: in_block_def)
    let ?b = "if Suc block \<ge> nblocks then 0 else Suc block"
    have r: "by_name_loop name nblocks start st block =
        (if ?b \<noteq> start then by_name_loop name nblocks start st ?b else Some Loop_end)"
      using nf sb(2) by (simp add: by_name_loop.simps [of name nblocks start st block] Let_def)
    show ?thesis
    proof (cases "?b = start")
      case True
      then have "visits nblocks start block = {block}" using less.prems st by (auto simp: visits_def split: if_splits)
      then show ?thesis using True False r by simp
    next
      case ne: False
      have v: "visits nblocks start block = insert block (visits nblocks start ?b)"
        using ne less.prems st by (auto simp: visits_def split: if_splits)
      have "(if ?b < start then start - ?b else nblocks - ?b + start) <
          (if block < start then start - block else nblocks - block + start)"
        using ne less.prems st by (auto split: if_splits)
      moreover have "?b < nblocks" using st less.prems by auto
      ultimately have ih: "if \<exists>k \<in> visits nblocks start ?b. in_block st name k
        then \<exists>k de prev. by_name_loop name nblocks start st ?b = Some (Hit k de) \<and>
          k \<in> visits nblocks start ?b \<and> at_block st name k de prev
        else by_name_loop name nblocks start st ?b = Some Loop_end" by (rule less.hyps)
      have r': "by_name_loop name nblocks start st block = by_name_loop name nblocks start st ?b" using r ne by simp
      show ?thesis using ih False unfolding r' v by (auto split: if_splits)
    qed
  qed
qed

lemma hit_lookup:
  assumes d: "distinct (map fst (dir_list st))" and a: "at_block st name k de prev"
  shows "map_of (dir_list st) name = Some (de_ino (st_mem st) de)" "de_ino (st_mem st) de \<noteq> 0"
proof -
  have k: "k < dir_n st" and l: "located (st_mem st) (blk_at st k) (blk_at st k + 4096) name None de prev"
    using a by (simp_all add: at_block_def)
  have "(name, de_ino (st_mem st) de) \<in> set (block_live st k)" using located_live(1) [OF l] by (simp add: block_live_def)
  then have "(name, de_ino (st_mem st) de) \<in> set (dir_list st)" using k by (auto simp: dir_list_def)
  then show "map_of (dir_list st) name = Some (de_ino (st_mem st) de)" using d by simp
  show "de_ino (st_mem st) de \<noteq> 0" using l by (simp add: located_def match_iff)
qed

lemma not_in_dir: "(\<forall>k < dir_n st. \<not> in_block st name k) \<Longrightarrow> map_of (dir_list st) name = None"
  unfolding map_of_eq_None_iff by (auto simp: dir_list_def in_block_def)

lemma inode_by_name_ok:
  assumes ok: "dir_ok st" and d: "distinct (map fst (dir_list st))" and n: "length name \<le> 255"
  shows "\<exists>de sl'. pmfs_inode_by_name name sl st =
    Some (case map_of (dir_list st) name of None \<Rightarrow> 0 | Some i \<Rightarrow> i, de, sl')"
proof -
  let ?N = "dir_n st"
  define nb where "nb = (if is_dots name then 1 else ?N)"
  define start where "start = (if is_dots name then 0 else if sl \<ge> nb then 0 else sl)"
  have N: "0 < ?N" by (rule dir_okD(3) [OF ok])
  have nb: "nb \<le> ?N" "start < nb" using N by (auto simp: nb_def start_def)
  have all: "visits nb start start = {..<nb}" using nb(2) by (auto simp: visits_def)
  note p1 = by_name_loop_ok [OF ok nb nb(2), of name, unfolded all]
  have def': "pmfs_inode_by_name name sl st = (case by_name_loop name nb start st start of
        None \<Rightarrow> None
      | Some Done \<Rightarrow> Some (0, None, sl)
      | Some (Hit block de) \<Rightarrow> Some (de_ino (st_mem st) de, Some de, block)
      | Some Loop_end \<Rightarrow>
          if nb < ?N then
            (case by_name_loop name ?N 0 st nb of
               None \<Rightarrow> None
             | Some (Hit block de) \<Rightarrow> Some (de_ino (st_mem st) de, Some de, block)
             | Some _ \<Rightarrow> Some (0, None, sl))
          else Some (0, None, sl))"
    using n unfolding pmfs_inode_by_name_def Let_def PMFS_NAME_LEN_def dir_blocks_n [OF ok] start_def nb_def by simp
  show ?thesis
  proof (cases "\<exists>k \<in> {..<nb}. in_block st name k")
    case True
    then obtain k de prev where "by_name_loop name nb start st start = Some (Hit k de)" "at_block st name k de prev"
      using p1 by auto
    with hit_lookup(1) [OF d this(2)] show ?thesis unfolding def' by simp
  next
    case False
    then have e: "by_name_loop name nb start st start = Some Loop_end" using p1 by simp
    show ?thesis
    proof (cases "nb < ?N")
      case True
      have v: "visits ?N 0 nb = {nb..<?N}" by (auto simp: visits_def)
      note p2 = by_name_loop_ok [OF ok order_refl N True, of name, unfolded v]
      show ?thesis
      proof (cases "\<exists>k \<in> {nb..<?N}. in_block st name k")
        case h: True
        then obtain k de prev where "by_name_loop name ?N 0 st nb = Some (Hit k de)" "at_block st name k de prev"
          using p2 by auto
        with hit_lookup(1) [OF d this(2)] e True show ?thesis unfolding def' by simp
      next
        case no: False
        have "\<forall>k < ?N. \<not> in_block st name k" using False no by (metis atLeastLessThan_iff lessThan_iff not_less)
        with not_in_dir e True p2 no show ?thesis unfolding def' by simp
      qed
    next
      case all_seen: False
      have "\<forall>k < ?N. \<not> in_block st name k" using False nb(1) all_seen by (metis lessThan_iff order.strict_trans1 not_less)
      with not_in_dir e all_seen show ?thesis unfolding def' by simp
    qed
  qed
qed

section \<open>Listing\<close>

text \<open>A reader that takes every entry.\<close>

definition collect :: "(u8 list \<times> u64 \<times> u8) list emitter" where
  "collect ctx name ino ty = (True, ctx @ [(name, ino, ty)])"

abbreviation typed :: "(u64 \<Rightarrow> u8) \<Rightarrow> (u8 list \<times> u64) list \<Rightarrow> (u8 list \<times> u64 \<times> u8) list" where
  "typed dtype \<equiv> map (\<lambda>(n, i). (n, i, dtype i))"

lemma readdir_block_ok:
  "\<lbrakk>chain m a e; e = base + 4096; a = base + offset; pos + (4096 - offset) \<le> sz; offset \<le> 4096\<rbrakk> \<Longrightarrow>
   readdir_block collect dtype m sz base pos offset ctx = (False, pos + (4096 - offset), ctx @ typed dtype (live m a e))"
proof (induction m a e arbitrary: pos offset ctx rule: chain.induct)
  case (1 m a e)
  show ?case
  proof (cases "a < e")
    case True
    from chain_step [OF 1(2) True] have d: "dent_ok m e a" and c: "chain m (a + de_len m a) e" by simp_all
    note b = dent_okD [OF d]
    have o: "offset < 4096" "pos < sz" "offset + de_len m a \<le> 4096" using True 1(3-5) b(4) by simp_all
    have chk: "pmfs_check_dir_entry m base (base + offset)" using check_ok [of m base a] d 1(3,4) by simp
    have ih: "readdir_block collect dtype m sz base (pos + de_len m a) (offset + de_len m a) cx =
        (False, pos + (4096 - offset), cx @ typed dtype (live m (a + de_len m a) e))" for cx
      using 1(1) [OF True d c 1(3), of "offset + de_len m a" "pos + de_len m a" cx] 1(4,5) o by simp
    show ?thesis
      using ih chk o 1(4) chain_Cons(2) [OF d c]
      by (subst readdir_block.simps) (simp add: Let_def collect_def [of ctx] live1_def de_name_def)
  next
    case False
    then have "a = e" using chain_le [OF 1(2)] by simp
    with 1(3,4) show ?thesis by (subst readdir_block.simps) simp
  qed
qed

lemma readdir_loop_ok:
  assumes ok: "dir_ok st"
  shows "j + k = dir_n st \<Longrightarrow> readdir_loop collect dtype st (k * 4096) 0 ctx =
    Some (dir_n st * 4096, ctx @ typed dtype (concat (map (block_live st) [k..<dir_n st])))"
proof (induction j arbitrary: k ctx)
  case 0
  then show ?case using dir_okD(2) [OF ok] by (simp add: readdir_loop.simps [of collect dtype st])
next
  case (Suc j)
  then have k: "k < dir_n st" by simp
  note d = dir_okD [OF ok]
  have "k < 2 ^ 64" using k dir_n_bound [OF ok] by simp
  note f = find_at_page [OF d(1) d(4) [OF k] this]
  let ?c = "ctx @ typed dtype (block_live st k)"
  have "Suc k * 4096 \<le> dir_n st * 4096" using k by (intro mult_le_mono) simp_all
  then have rb: "readdir_block collect dtype (st_mem st) (dir_n st * 4096) (blk_at st k) (k * 4096) 0 ctx =
      (False, Suc k * 4096, ?c)"
    using readdir_block_ok [OF d(5) [OF k] refl, of 0 "k * 4096" "dir_n st * 4096" dtype ctx] by (simp add: block_live_def)
  have "readdir_loop collect dtype st (k * 4096) 0 ctx = readdir_loop collect dtype st (Suc k * 4096) 0 ?c"
    using k rb f(1,2) by (simp add: readdir_loop.simps [of collect dtype st "k * 4096"] d(2) Let_def)
  also have "\<dots> = Some (dir_n st * 4096, ?c @ typed dtype (concat (map (block_live st) [Suc k..<dir_n st])))"
    using Suc.IH [of "Suc k" ?c] Suc.prems by simp
  finally show ?case using k by (simp add: upt_conv_Cons)
qed

text \<open>A bad first entry of a block: the position stays where it is, and the loop never ends.\<close>

lemma readdir_stuck:
  assumes size: "k * 4096 < unat (v_size (st_vi st))" and b: "pmfs_find_data_block st (of_nat k) \<noteq> 0"
    and bad: "\<not> pmfs_check_dir_entry (st_mem st) (unat (pmfs_find_data_block st (of_nat k)))
      (unat (pmfs_find_data_block st (of_nat k)))"
  shows "readdir_loop emit dtype st (k * 4096) 0 ctx = None"
proof (rule ccontr)
  assume "readdir_loop emit dtype st (k * 4096) 0 ctx \<noteq> None"
  then obtain y where y: "readdir_loop emit dtype st (k * 4096) 0 ctx = Some y" by blast
  have "\<not> (st = st \<and> k * 4096 = k * 4096 \<and> 0 = (0 :: nat))"
  proof (rule readdir_loop.raw_induct [where P = "\<lambda>em dt s pos off cx y. \<not> (s = st \<and> pos = k * 4096 \<and> off = 0)", OF _ y],
      rule notI)
    fix rec em dt s pos off cx y
    assume ih: "\<And>em dt s pos off cx y. rec em dt s pos off cx = Some y \<Longrightarrow> \<not> (s = st \<and> pos = k * 4096 \<and> off = 0)"
      and run: "(if pos < unat (v_size (st_vi s))
        then let blk_base = pmfs_find_data_block s (of_nat (pos div 4096))
          in if blk_base = 0 then rec em dt s (pos + (4096 - off)) off cx
             else case readdir_block em dt (st_mem s) (unat (v_size (st_vi s))) (unat blk_base) pos off cx of
               (stopped, pos', ctx') \<Rightarrow> if stopped then Some (pos', ctx') else rec em dt s pos' 0 ctx'
        else Some (pos, cx)) = Some y" and a: "s = st \<and> pos = k * 4096 \<and> off = 0"
    have "readdir_block em dt (st_mem st) (unat (v_size (st_vi st))) (unat (pmfs_find_data_block st (of_nat k))) (k * 4096) 0 cx =
        (False, k * 4096, cx)"
      using size bad by (simp add: readdir_block.simps [of em])
    then have "rec em dt st (k * 4096) 0 cx = Some y" using run a size b by (simp add: Let_def)
    from ih [OF this] show False by simp
  qed
  then show False by simp
qed

section \<open>Empty directories\<close>

lemma empty_loop_ok:
  assumes ok: "dir_ok st"
  shows "\<lbrakk>chain (st_mem st) a (blk_at st k + 4096); k < dir_n st; unat b = blk_at st k; blk_at st k \<le> a;
      off = k * 4096 + (a - blk_at st k)\<rbrakk> \<Longrightarrow>
    empty_loop st b a off \<longleftrightarrow>
      live (st_mem st) a (blk_at st k + 4096) = [] \<and> (\<forall>j. k < j \<and> j < dir_n st \<longrightarrow> block_live st j = [])"
proof (induction "dir_n st * 4096 - off" arbitrary: a k b off rule: less_induct)
  case less
  note d = dir_okD [OF ok]
  have k64: "k < 2 ^ 64" using less.prems(2) dir_n_bound [OF ok] by simp
  have b0: "b \<noteq> 0" using find_at_page(3) [OF d(1) d(4) [OF less.prems(2)] k64] less.prems(3) by (metis unat_0 not_numeral_le_zero)
  have le: "Suc k * 4096 \<le> dir_n st * 4096" using less.prems(2) by (intro mult_le_mono) simp_all
  \<comment> \<open>inside a block\<close>
  have inside: "empty_loop st b a off \<longleftrightarrow>
      live (st_mem st) a (blk_at st k + 4096) = [] \<and> (\<forall>j. k < j \<and> j < dir_n st \<longrightarrow> block_live st j = [])"
    if prems: "chain (st_mem st) a (blk_at st k + 4096)" "k < dir_n st" "unat b = blk_at st k" "blk_at st k \<le> a"
      "off = k * 4096 + (a - blk_at st k)" "a < blk_at st k + 4096" "b \<noteq> 0" "Suc k * 4096 \<le> dir_n st * 4096"
    and ih: "\<And>a' k' b' off'. \<lbrakk>dir_n st * 4096 - off' < dir_n st * 4096 - off;
        chain (st_mem st) a' (blk_at st k' + 4096); k' < dir_n st; unat b' = blk_at st k'; blk_at st k' \<le> a';
        off' = k' * 4096 + (a' - blk_at st k')\<rbrakk> \<Longrightarrow>
      empty_loop st b' a' off' \<longleftrightarrow>
        live (st_mem st) a' (blk_at st k' + 4096) = [] \<and> (\<forall>j. k' < j \<and> j < dir_n st \<longrightarrow> block_live st j = [])"
    for a k b off
  proof -
    from chain_step [OF prems(1,6)] have dn: "dent_ok (st_mem st) (blk_at st k + 4096) a"
      and c: "chain (st_mem st) (a + de_len (st_mem st) a) (blk_at st k + 4096)" by simp_all
    note bd = dent_okD [OF dn]
    have sz: "off < dir_n st * 4096" using prems(4-6,8) by simp
    have chk: "pmfs_check_dir_entry (st_mem st) (blk_at st k) a" by (rule check_ok [OF dn prems(4)])
    have step: "empty_loop st b a off \<longleftrightarrow> de_ino (st_mem st) a = 0 \<and>
        empty_loop st b (a + de_len (st_mem st) a) (off + de_len (st_mem st) a)"
      using sz prems(3,6,7) chk by (simp add: empty_loop.simps [of st b a off] d(2) Let_def)
    have "empty_loop st b (a + de_len (st_mem st) a) (off + de_len (st_mem st) a) \<longleftrightarrow>
        live (st_mem st) (a + de_len (st_mem st) a) (blk_at st k + 4096) = [] \<and> (\<forall>j. k < j \<and> j < dir_n st \<longrightarrow> block_live st j = [])"
      using prems(2-5) bd(1) sz by (intro ih [OF _ c]) simp_all
    with step show ?thesis unfolding chain_Cons(2) [OF dn c] by (auto simp: live1_def)
  qed
  show ?case
  proof (cases "a < blk_at st k + 4096")
    case True
    show ?thesis by (rule inside [OF less.prems True b0 le]) (rule less.hyps)
  next
    case False
    then have ae: "a = blk_at st k + 4096" using chain_le [OF less.prems(1)] by simp
    have off: "off = Suc k * 4096" using less.prems(5) ae by simp
    show ?thesis
    proof (cases "Suc k < dir_n st")
      case last: False
      then have "Suc k = dir_n st" using less.prems(2) by simp
      then show ?thesis using ae off by (subst empty_loop.simps) (auto simp: d(2))
    next
      case nxt: True
      have "Suc k < 2 ^ 64" using nxt dir_n_bound [OF ok] by simp
      note f = find_at_page [OF d(1) d(4) [OF nxt] this]
      let ?b = "pmfs_find_data_block st (of_nat (Suc k))"
      have sz: "off < dir_n st * 4096" using nxt off by simp
      have od: "off div 4096 = Suc k" using off by simp
      have sz2: "Suc (Suc k) * 4096 \<le> dir_n st * 4096" using nxt by (intro mult_le_mono) simp_all
      have ge: "unat b + 4096 \<le> a" using ae less.prems(3) by simp
      have same: "empty_loop st b a off = empty_loop st ?b (blk_at st (Suc k)) off"
        using sz ge b0 f(1,2) od
        by (simp add: empty_loop.simps [of st b a off] empty_loop.simps [of st ?b "blk_at st (Suc k)" off] d(2) Let_def
            del: of_nat_Suc)
      have "empty_loop st ?b (blk_at st (Suc k)) off \<longleftrightarrow>
          live (st_mem st) (blk_at st (Suc k)) (blk_at st (Suc k) + 4096) = [] \<and>
          (\<forall>j. Suc k < j \<and> j < dir_n st \<longrightarrow> block_live st j = [])"
        by (rule inside [OF d(5) [OF nxt] nxt f(1) order_refl _ _ f(2) sz2])
          (simp_all add: off less.hyps [unfolded off])
      moreover have "(\<forall>j. k < j \<and> j < dir_n st \<longrightarrow> block_live st j = []) \<longleftrightarrow>
          block_live st (Suc k) = [] \<and> (\<forall>j. Suc k < j \<and> j < dir_n st \<longrightarrow> block_live st j = [])"
        using nxt by (metis Suc_lessI lessI less_SucI not_less_eq)
      ultimately show ?thesis using same ae by (simp add: block_live_def)
    qed
  qed
qed

end
