(* ===== verification/Pmfs_Dir_Undo.thy ===== *)
theory Pmfs_Dir_Undo
  imports Pmfs_Dir_Lookup
begin

unbundle bit_operations_syntax

text \<open>
  What the log entries of a directory operation are good for: writing the old contents of the logged ranges
  back undoes the operation for every reader of the directory.
\<close>

section \<open>Undoing\<close>

text \<open>The memory \<open>m'\<close> with the logged ranges as they were in \<open>m\<close>.\<close>

definition undo_logged :: "tree_act list \<Rightarrow> mem \<Rightarrow> mem \<Rightarrow> mem" where
  "undo_logged acts m m' =
     (\<lambda>x. if list_ex (\<lambda>a. case a of Add_logentry p n \<Rightarrow> p \<le> x \<and> x < p + n | _ \<Rightarrow> False) acts then m x else m' x)"

definition undone :: "tree_st \<Rightarrow> tree_st \<Rightarrow> tree_st" where
  "undone st st' = st\<lparr>st_sbi := (st_sbi st)\<lparr>nvmm := undo_logged (st_acts st') (st_mem st) (st_mem st')\<rparr>\<rparr>"

lemma undone_fields: "st_sbi (undone st st') = (st_sbi st)\<lparr>nvmm := undo_logged (st_acts st') (st_mem st) (st_mem st')\<rparr>"
  "same_file st (undone st st')"
  by (simp_all add: undone_def same_file_def)

lemma acts_simps [simp]:
  "st_acts (put_bytes a bs st) = st_acts st" "st_acts (log_entry txn a n st) = (if txn then st_acts st @ [Add_logentry a n] else st_acts st)"
  "st_acts (log_inode txn st) = (if txn then st_acts st @ [Log_inode] else st_acts st)"
  by (simp_all add: put_bytes_def log_entry_def log_inode_def upd_mem_def act_def)

lemma fill_acts:
  "st_acts (fill_dirent True now name ino de st) = st_acts st @
     (if de_ino (st_mem st) de \<noteq> 0
      then [Add_logentry (de + 8) 2, Flush_buffer (de + PMFS_DIR_REC_LEN (de_name_len (st_mem st) de)) (PMFS_DIR_REC_LEN (length name))]
      else [Add_logentry de 8, Flush_buffer de (PMFS_DIR_REC_LEN (length name))])"
  by (simp add: fill_dirent_def Let_def upd_pi_def act_def)

lemma fill_undo:
  assumes c1: "chain m a de" and d: "dent_ok m e de" and c2: "chain m (de + de_len m de) e"
    and n: "0 < length name" "length name \<le> 255" and r: "room m (PMFS_DIR_REC_LEN (length name)) de"
    and u: "\<And>x. u x = (if (if de_ino m de \<noteq> 0 then de + 8 \<le> x \<and> x < de + 10 else de \<le> x \<and> x < de + 8) then m x
      else fill_mem name ino de m x)"
  shows "chain u a e" "live u a e = live m a e" "x < de \<or> de + de_len m de \<le> x \<Longrightarrow> u x = m x"
proof -
  note b = dent_okD [OF d] and rl = rec_len_bounds [of "length name"]
  let ?n = "PMFS_DIR_REC_LEN (de_name_len m de)"
  have same: "u x = m x" if x: "x < de + (if de_ino m de \<noteq> 0 then ?n else 10) \<and> \<not> (de_ino m de = 0 \<and> x = de + 10)
      \<or> de + de_len m de \<le> x" for x
  proof (cases "de_ino m de = 0")
    case True
    then have "entry_mem name ino de m x = m x" if "de + 8 \<le> x" using that x r rl(1) by (auto simp: entry_mem_def nput_def room_def)
    moreover have "entry_mem name ino de m x = m x" if "x < de" using entry_mem_fields(5) [OF n(2)] that by blast
    ultimately show ?thesis using True by (auto simp: u fill_mem_def)
  next
    case False
    have rr: "?n + 16 \<le> de_len m de" using r False rl(4) n(1) by (simp add: room_def)
    have "entry_mem name ino (de + ?n) (split_mem de m) x = split_mem de m x"
      using x r rl(1) False by (intro entry_mem_fields(5) [OF n(2)]) (auto simp: room_def)
    moreover have "split_mem de m x = m x" if "\<not> (de + 8 \<le> x \<and> x < de + 10)"
      using x False that rr b(1) by (auto simp: split_mem_def Let_def nput_def)
    ultimately show ?thesis using False by (auto simp: u fill_mem_def)
  qed
  show out: "u x = m x" if "x < de \<or> de + de_len m de \<le> x" for x using that by (intro same) auto
  have "get16 u (de + 8) = get16 m (de + 8)"
  proof (cases "de_ino m de = 0")
    case True
    then show ?thesis by (intro get16_cong same) auto
  next
    case False
    then show ?thesis using rec_len_bounds(4) [OF b(5) [OF False]] by (intro get16_cong same) auto
  qed
  then have l: "de_len u de = de_len m de" by (simp add: de_len_def)
  have "get64 u de = get64 m de"
  proof (rule get64_cong)
    fix x
    assume "de \<le> x" "x < de + 8"
    then show "u x = m x" using rec_len_bounds(1) [of "de_name_len m de"] by (intro same) auto
  qed
  then have i: "de_ino u de = de_ino m de" by (simp add: de_ino_def)
  have e: "dent_ok u e de \<and> live1 u de = live1 m de"
  proof (cases "de_ino m de = 0")
    case True
    have "de_name_len u de = length name"
    proof -
      have "u (de + 10) = of_nat (length name)" using True by (simp add: u fill_mem_def entry_mem_def nput_def)
      then show ?thesis using n(2) by (simp add: de_name_len_def unat_of_nat_less)
    qed
    then show ?thesis using b(1,2,4) r True by (simp add: dent_ok_def live1_def i l room_def)
  next
    case False
    note nb = rec_len_bounds [of "de_name_len m de"]
    have nl: "de_name_len u de = de_name_len m de"
      using same [of "de + 10"] False nb(1) by (simp add: de_name_len_def)
    have "nget u (de + 12) (de_name_len m de) = nget m (de + 12) (de_name_len m de)"
      using False nb(1) by (intro nget_cong same) auto
    then show ?thesis using d nl by (simp add: dent_ok_def live1_def i l de_name_def)
  qed
  have 1: "chain u a de \<and> live u a de = live m a de" by (rule chain_cong [OF c1]) (simp add: out)
  have 2: "chain u (de + de_len m de) e \<and> live u (de + de_len m de) e = live m (de + de_len m de) e"
    by (rule chain_cong [OF c2]) (simp add: out)
  have 3: "chain u de e \<and> live u de e = live1 m de @ live m (de + de_len m de) e"
    using chain_Cons [OF conjunct1 [OF e], unfolded l] 2 e by simp
  show "chain u a e" "live u a e = live m a e"
    using chain_append [of u a de e] 1 3 chain_append [OF c1 chain_Cons(1) [OF d c2]] chain_Cons(2) [OF d c2] by simp_all
qed

lemma undo_dir:
  assumes ok: "dir_ok st" and k: "k < dir_n st"
    and out: "\<forall>x. x < blk_at st k \<or> blk_at st k + 4096 \<le> x \<longrightarrow> undo_logged (st_acts st') (st_mem st) (st_mem st') x = st_mem st x"
    and c: "chain (undo_logged (st_acts st') (st_mem st) (st_mem st')) (blk_at st k) (blk_at st k + 4096)"
    and l: "live (undo_logged (st_acts st') (st_mem st) (st_mem st')) (blk_at st k) (blk_at st k + 4096) = block_live st k"
  shows "dir_ok (undone st st') \<and> dir_list (undone st st') = dir_list st"
  using dir_change(1,2) [OF ok k undone_fields out c] l dir_list_split [OF k] by simp

lemma add_undo:
  assumes ok: "dir_ok st" and n: "0 < length name" "length name \<le> 255" and ino: "ino \<noteq> 0" and a: "st_acts st = []"
    and run: "pmfs_add_entry True now name ino st = Some (0, st')" and same: "dir_n st' = dir_n st"
  shows "dir_ok (undone st st') \<and> dir_list (undone st st') = dir_list st"
proof -
  let ?s = "log_inode True st" and ?m = "st_mem st"
  from add_entry_cases [OF ok n ino, of True now] run same obtain k x where
    st': "st' = fill_dirent True now name ino x ?s" and sl: "slot ?s k name x" by auto
  have k: "k < dir_n st" and s: "chain ?m (blk_at st k) x" "dent_ok ?m (blk_at st k + 4096) x"
    "chain ?m (x + de_len ?m x) (blk_at st k + 4096)" "room ?m (PMFS_DIR_REC_LEN (length name)) x"
    using sl by (simp_all add: slot_def)
  have m': "st_mem st' = fill_mem name ino x ?m" unfolding st' fill_dirent_fields(1) by simp
  have ac: "st_acts st' = Log_inode # (if de_ino ?m x \<noteq> 0
      then [Add_logentry (x + 8) 2, Flush_buffer (x + PMFS_DIR_REC_LEN (de_name_len ?m x)) (PMFS_DIR_REC_LEN (length name))]
      else [Add_logentry x 8, Flush_buffer x (PMFS_DIR_REC_LEN (length name))])"
    unfolding st' fill_acts using a by simp
  let ?u = "undo_logged (st_acts st') ?m (st_mem st')"
  have u: "?u y = (if (if de_ino ?m x \<noteq> 0 then x + 8 \<le> y \<and> y < x + 10 else x \<le> y \<and> y < x + 8) then ?m y
      else fill_mem name ino x ?m y)" for y
    by (auto simp: undo_logged_def ac m')
  note f = fill_undo [OF s(1-3) n s(4), of ?u ino, OF u]
  show ?thesis
  proof (rule undo_dir [OF ok k])
    show "chain ?u (blk_at st k) (blk_at st k + 4096)" by (rule f(1))
    show "live ?u (blk_at st k) (blk_at st k + 4096) = block_live st k" using f(2) by (simp add: block_live_def)
    show "\<forall>y. y < blk_at st k \<or> blk_at st k + 4096 \<le> y \<longrightarrow> ?u y = ?m y"
      using chain_le [OF s(1)] dent_okD(4) [OF s(2)] by (intro allI impI f(3)) auto
  qed
qed

lemma remove_undo:
  assumes a: "st_acts st = []" and run: "pmfs_remove_entry True now name st = (0, st')"
  shows "undone st st' = st"
proof -
  have "undo_logged (st_acts st') (st_mem st) (st_mem st') = st_mem st"
    using run a
    by (auto simp: pmfs_remove_entry_def Let_def undo_logged_def fun_eq_iff nput_def EINVAL_def upd_pi_def act_def
        split: if_splits block_search.splits option.splits)
  then show ?thesis by (simp add: undone_def)
qed

end
