(* ===== verification/Directory.thy ===== *)
theory Directory
  imports Main
begin

text \<open>
  What the callers of a directory rely on: names are added, removed and looked up, and a directory shows the
  list of its entries.  The order of the entries is up to the directory.  A sequence of operations, each of
  which may fail, then acts on the directory as the successful ones act on a finite map.
\<close>

datatype ('n, 'i) dir_op =
    Add_name 'n 'i
  | Remove_name 'n

fun dir_step :: "('n \<Rightarrow> 's \<Rightarrow> 'i option) \<Rightarrow> ('n \<Rightarrow> 'i \<Rightarrow> 's \<Rightarrow> 's option) \<Rightarrow> ('n \<Rightarrow> 's \<Rightarrow> 's option) \<Rightarrow>
    ('n, 'i) dir_op \<Rightarrow> 's \<Rightarrow> 's option" where
  "dir_step look add del (Add_name n i) s = (if look n s = None then add n i s else None)"
| "dir_step look add del (Remove_name n) s = del n s"

text \<open>The operations that succeed, and the last state.\<close>

fun run_ops :: "('o \<Rightarrow> 's \<Rightarrow> 's option) \<Rightarrow> 'o list \<Rightarrow> 's \<Rightarrow> 'o list \<times> 's" where
  "run_ops step [] s = ([], s)"
| "run_ops step (x # xs) s =
     (case step x s of
        None \<Rightarrow> run_ops step xs s
      | Some s' \<Rightarrow> (case run_ops step xs s' of (done, t) \<Rightarrow> (x # done, t)))"

text \<open>The same operations on a finite map.\<close>

fun map_step :: "('n, 'i) dir_op \<Rightarrow> ('n \<rightharpoonup> 'i) \<Rightarrow> ('n \<rightharpoonup> 'i) option" where
  "map_step (Add_name n i) m = (if m n = None then Some (m(n \<mapsto> i)) else None)"
| "map_step (Remove_name n) m = (if m n = None then None else Some (m(n := None)))"

fun map_run :: "('n, 'i) dir_op list \<Rightarrow> ('n \<rightharpoonup> 'i) \<Rightarrow> ('n \<rightharpoonup> 'i) option" where
  "map_run [] m = Some m"
| "map_run (x # xs) m = (case map_step x m of None \<Rightarrow> None | Some m' \<Rightarrow> map_run xs m')"

fun op_valid :: "('n \<Rightarrow> bool) \<Rightarrow> ('i \<Rightarrow> bool) \<Rightarrow> ('n, 'i) dir_op \<Rightarrow> bool" where
  "op_valid vn vi (Add_name n i) \<longleftrightarrow> vn n \<and> vi i"
| "op_valid vn vi (Remove_name n) \<longleftrightarrow> vn n"

lemma map_of_insert_mid:
  "n \<notin> fst ` set (xs @ ys) \<Longrightarrow> map_of (xs @ [(n, i)] @ ys) = (map_of (xs @ ys))(n \<mapsto> i)"
  by (induction xs) (auto simp: fun_upd_twist)

lemma map_of_delete_mid:
  "distinct (map fst (xs @ [(n, i)] @ ys)) \<Longrightarrow> map_of (xs @ ys) = (map_of (xs @ [(n, i)] @ ys))(n := None)"
proof -
  assume "distinct (map fst (xs @ [(n, i)] @ ys))"
  then have n: "n \<notin> fst ` set (xs @ ys)" by auto
  then have "map_of (xs @ ys) n = None" by (simp only: map_of_eq_None_iff) simp
  then show ?thesis using map_of_insert_mid [OF n, of i] by (simp add: fun_eq_iff)
qed

locale name_dir =
  fixes ok :: "'s \<Rightarrow> bool" and entries :: "'s \<Rightarrow> ('n \<times> 'i) list" and vname :: "'n \<Rightarrow> bool" and vino :: "'i \<Rightarrow> bool"
    and look :: "'n \<Rightarrow> 's \<Rightarrow> 'i option" and add :: "'n \<Rightarrow> 'i \<Rightarrow> 's \<Rightarrow> 's option" and del :: "'n \<Rightarrow> 's \<Rightarrow> 's option"
  assumes look_law: "\<lbrakk>ok s; distinct (map fst (entries s)); vname n\<rbrakk> \<Longrightarrow> look n s = map_of (entries s) n"
    and add_law: "\<lbrakk>ok s; vname n; vino i; add n i s = Some s'\<rbrakk> \<Longrightarrow>
      ok s' \<and> (\<exists>xs ys. entries s = xs @ ys \<and> entries s' = xs @ [(n, i)] @ ys)"
    and del_law: "\<lbrakk>ok s; vname n\<rbrakk> \<Longrightarrow>
      (case del n s of
         None \<Rightarrow> n \<notin> fst ` set (entries s)
       | Some s' \<Rightarrow> ok s' \<and>
           (\<exists>xs i ys. entries s = xs @ [(n, i)] @ ys \<and> entries s' = xs @ ys \<and> n \<notin> fst ` set xs))"
begin

abbreviation good :: "'s \<Rightarrow> bool" where
  "good s \<equiv> ok s \<and> distinct (map fst (entries s))"

abbreviation step :: "('n, 'i) dir_op \<Rightarrow> 's \<Rightarrow> 's option" where
  "step \<equiv> dir_step look add del"

lemma added_good:
  assumes g: "good s" and v: "vname n" "vino i" and l: "look n s = None" and a: "add n i s = Some s'"
  shows "good s' \<and> map_of (entries s') = (map_of (entries s))(n \<mapsto> i)"
proof -
  from add_law [OF _ v a] g obtain xs ys where
    ok: "ok s'" and e: "entries s = xs @ ys" "entries s' = xs @ [(n, i)] @ ys" by blast
  have "map_of (entries s) n = None" using look_law [of s n] g v(1) l by simp
  then have n: "n \<notin> fst ` set (xs @ ys)" unfolding e map_of_eq_None_iff .
  have "distinct (map fst (entries s'))" using g n e by auto
  then show ?thesis using ok map_of_insert_mid [OF n, of i] unfolding e by blast
qed

lemma deleted_good:
  assumes g: "good s" and v: "vname n" and d: "del n s = Some s'"
  shows "good s' \<and> map_of (entries s) n \<noteq> None \<and> map_of (entries s') = (map_of (entries s))(n := None)"
proof -
  from del_law [of s n] g v d obtain xs i ys where
    ok: "ok s'" and e: "entries s = xs @ [(n, i)] @ ys" "entries s' = xs @ ys" by auto
  have dd: "distinct (map fst (xs @ [(n, i)] @ ys))" using g e(1) by simp
  have "n \<in> fst ` set (entries s)" using e(1) by simp
  then have "map_of (entries s) n \<noteq> None" using map_of_eq_None_iff [of "entries s" n] by blast
  moreover have "distinct (map fst (entries s'))" using dd e(2) by auto
  ultimately show ?thesis using ok map_of_delete_mid [OF dd] unfolding e by blast
qed

lemma step_refines:
  assumes "good s" "op_valid vname vino x" "step x s = Some s'"
  shows "good s' \<and> map_step x (map_of (entries s)) = Some (map_of (entries s'))"
proof (cases x)
  case (Add_name n i)
  then have v: "vname n" "vino i" and l: "look n s = None" and a: "add n i s = Some s'"
    using assms(2,3) by (auto split: if_splits)
  have "map_of (entries s) n = None" using look_law [of s n] assms(1) v(1) l by simp
  then show ?thesis using added_good [OF assms(1) v l a] Add_name by simp
next
  case (Remove_name n)
  then show ?thesis using deleted_good [OF assms(1), of n s'] assms(2,3) by auto
qed

lemma run_refines:
  assumes "good s" "\<forall>x \<in> set xs. op_valid vname vino x" "run_ops step xs s = (done, t)"
  shows "good t \<and> map_run done (map_of (entries s)) = Some (map_of (entries t))"
  using assms
proof (induction xs arbitrary: s "done")
  case Nil
  then show ?case by simp
next
  case (Cons x xs)
  show ?case
  proof (cases "step x s")
    case None
    then show ?thesis using Cons by simp
  next
    case (Some s')
    obtain d where d: "run_ops step xs s' = (d, t)" "done = x # d"
      using Cons.prems(3) Some by (auto split: prod.splits)
    have "good s'" "map_step x (map_of (entries s)) = Some (map_of (entries s'))"
      using step_refines [OF Cons.prems(1) _ Some] Cons.prems(2) by simp_all
    then show ?thesis using Cons.IH [OF _ _ d(1)] Cons.prems(2) d(2) by simp
  qed
qed

lemma add_look_del:
  assumes g: "good s" and v: "vname n" "vino i" and l: "look n s = None" and a: "add n i s = Some s'"
  shows "look n s' = Some i \<and> (\<exists>s''. del n s' = Some s'' \<and> ok s'' \<and> entries s'' = entries s \<and> look n s'' = None)"
proof -
  note ag = added_good [OF g v l a]
  from add_law [OF _ v a] g obtain xs ys where e: "entries s = xs @ ys" "entries s' = xs @ [(n, i)] @ ys" by blast
  have 1: "look n s' = Some i" using ag look_law [of s' n] v(1) by simp
  have "n \<in> fst ` set (entries s')" using e(2) by simp
  then obtain s'' where d: "del n s' = Some s''" using del_law [of s' n] ag v(1) by (cases "del n s'") auto
  with del_law [of s' n] ag v(1) obtain us j vs where
    o: "ok s''" and f: "entries s' = us @ [(n, j)] @ vs" "entries s'' = us @ vs" by auto
  have dist: "distinct (map fst (xs @ [(n, i)] @ ys))" using ag e(2) by simp
  then have nx: "n \<notin> fst ` set xs" "n \<notin> fst ` set ys" by auto
  have nu: "n \<notin> fst ` set us" "n \<notin> fst ` set vs" using ag f(1) by auto
  have eq: "xs @ (n, i) # ys = us @ (n, j) # vs" using e(2) f(1) by simp
  have "xs = us \<and> (n, i) = (n, j) \<and> ys = vs"
    using eq nx nu
  proof (induction xs arbitrary: us)
    case Nil
    then show ?case by (cases us) auto
  next
    case (Cons x xs)
    then show ?case by (cases us) auto
  qed
  then have "entries s'' = entries s" using e(1) f(2) by simp
  moreover from this have "look n s'' = None" using g o v(1) look_law [of s'' n] look_law [of s n] l by simp
  ultimately show ?thesis using 1 d o by blast
qed

end

end
