(* ===== verification/Pmfs_Dir_Props.thy ===== *)
theory Pmfs_Dir_Props
  imports Pmfs_Dir_Undo Directory
begin

unbundle bit_operations_syntax

text \<open>
  New directories, the test for an empty directory, and the properties of directories.
\<close>

section \<open>A new directory\<close>

definition mkdir_mem :: "u64 \<Rightarrow> u64 \<Rightarrow> nat \<Rightarrow> mem \<Rightarrow> mem" where
  "mkdir_mem i parent b m =
     nput (b + 28) [46, 46, 0] (nput (b + 26) [2] (nput (b + 24) (le16 4080) (nput (b + 16) (le64 parent)
       (nput (b + 12) [46, 0] (nput (b + 8) (le16 16) (nput (b + 10) [1] (nput b (le64 i) m)))))))"

lemma mkdir_entries_fields:
  "st_sbi (mkdir_entries i parent b st) = (st_sbi st)\<lparr>nvmm := mkdir_mem i parent b (st_mem st)\<rparr>"
  "same_file st (mkdir_entries i parent b st)"
proof -
  have "nget (nput (b + 12) [46, 0] (nput (b + 8) (le16 16) m)) (b + 8) 2 = le16 16" for m by simp
  then have l: "de_len (nput (b + 12) [46, 0] (nput (b + 8) (le16 16) m)) b = 16" for m
    unfolding de_len_def using get16_of_bytes by simp
  show "st_sbi (mkdir_entries i parent b st) = (st_sbi st)\<lparr>nvmm := mkdir_mem i parent b (st_mem st)\<rparr>"
    "same_file st (mkdir_entries i parent b st)"
    by (simp_all add: mkdir_entries_def Let_def rec_len_vals l mkdir_mem_def same_file_def add.assoc)
qed

lemma mkdir_mem_fields:
  fixes b :: nat and m :: mem and i parent :: u64
  defines "u \<equiv> mkdir_mem i parent b m"
  shows "de_ino u b = i" "de_len u b = 16" "de_name_len u b = 1" "nget u (b + 12) 2 = [46, 0]"
    "de_ino u (b + 16) = parent" "de_len u (b + 16) = 4080" "de_name_len u (b + 16) = 2" "nget u (b + 28) 3 = [46, 46, 0]"
    "x < b \<or> b + 4096 \<le> x \<Longrightarrow> u x = m x"
proof -
  have "nget u b 8 = le64 i" by (simp add: u_def mkdir_mem_def)
  then show "de_ino u b = i" unfolding de_ino_def by (rule get64_of_bytes)
  have "nget u (b + 8) 2 = le16 16" by (simp add: u_def mkdir_mem_def)
  then show "de_len u b = 16" unfolding de_len_def using get16_of_bytes by simp
  show "de_name_len u b = 1" by (simp add: de_name_len_def u_def mkdir_mem_def nput_def)
  show "nget u (b + 12) 2 = [46, 0]" by (simp add: u_def mkdir_mem_def)
  have "nget u (b + 16) 8 = le64 parent" by (simp add: u_def mkdir_mem_def)
  then show "de_ino u (b + 16) = parent" unfolding de_ino_def by (rule get64_of_bytes)
  have "nget u (b + 24) 2 = le16 4080" by (simp add: u_def mkdir_mem_def)
  then have "get16 u (b + 24) = 4080" by (rule get16_of_bytes)
  moreover have "b + 16 + 8 = b + 24" by simp
  ultimately show "de_len u (b + 16) = 4080" by (simp only: de_len_def) simp
  show "de_name_len u (b + 16) = 2" by (simp add: de_name_len_def u_def mkdir_mem_def nput_def)
  show "nget u (b + 28) 3 = [46, 46, 0]" by (simp add: u_def mkdir_mem_def)
  show "u x = m x" if "x < b \<or> b + 4096 \<le> x" using that by (auto simp: u_def mkdir_mem_def nput_def)
qed

lemma nget_prefix: "nget m a (Suc n) = xs @ [x] \<Longrightarrow> nget m a n = xs"
  by (simp add: nget_def)

lemma mkdir_mem_ok:
  fixes b :: nat and m :: mem and i parent :: u64
  assumes "i \<noteq> 0" "parent \<noteq> 0"
  defines "u \<equiv> mkdir_mem i parent b m"
  shows "chain u b (b + 4096)" "live u b (b + 4096) = [([46], i), ([46, 46], parent)]"
proof -
  note f = mkdir_mem_fields [where i = i and parent = parent and b = b and m = m, folded u_def]
  have n1: "de_name u b = [46]"
    unfolding de_name_def f(3) using nget_prefix [of u "b + 12" 1 "[46]" 0] f(4) by (simp add: numeral_2_eq_2)
  have n2: "de_name u (b + 16) = [46, 46]"
    unfolding de_name_def f(7) using nget_prefix [of u "b + 28" 2 "[46, 46]" 0] f(8) by (simp add: numeral_3_eq_3 add.assoc)
  have d1: "dent_ok u (b + 4096) b" and d2: "dent_ok u (b + 4096) (b + 16)"
    unfolding dent_ok_def f(2,3,6,7) using rec_len_vals by simp_all
  have c: "chain u (b + 16 + de_len u (b + 16)) (b + 4096)" "live u (b + 16 + de_len u (b + 16)) (b + 4096) = []"
    unfolding f(6) by (simp_all add: add.assoc)
  note k2 = chain_Cons [OF d2 c(1)]
  have k2': "chain u (b + de_len u b) (b + 4096)" unfolding f(2) by (rule k2(1))
  note k1 = chain_Cons [OF d1 k2']
  show "chain u b (b + 4096)" by (rule k1(1))
  show "live u b (b + 4096) = [([46], i), ([46, 46], parent)]"
    using k1(2) k2(2) c(2) assms(1,2) unfolding f(2) live1_def f(1,5) n1 n2 by simp
qed

lemma mkdir_ok:
  fixes i parent :: u64
  assumes ok: "inode_ok st" and p: "file_page st 0 = Some p" and v: "v_size (st_vi st) = 4096"
    and i: "i \<noteq> 0" "parent \<noteq> 0"
  defines "st' \<equiv> mkdir_entries i parent (p * 4096) st"
  shows "dir_ok st'" "dir_list st' = [([46], i), ([46, 46], parent)]" "blk_at st' 0 = p * 4096"
    "st_mem st' = mkdir_mem i parent (p * 4096) (st_mem st)"
proof -
  note mf = mkdir_entries_fields [where i = i and parent = parent and b = "p * 4096" and st = st, folded st'_def]
  note mo = mkdir_mem_ok [OF i, where b = "p * 4096" and m = "st_mem st"]
  show m: "st_mem st' = mkdir_mem i parent (p * 4096) (st_mem st)" using mf(1) by simp
  have out: "mkdir_mem i parent (p * 4096) (st_mem st) x = st_mem st x" if "x < p * 4096 \<or> p * 4096 + 4096 \<le> x" for x
    by (rule mkdir_mem_fields(9) [OF that])
  note ow = one_page_write [OF ok p mf out]
  have ba: "blk_at st' 0 = p * 4096" using ow(3) p by (simp add: blk_at_def)
  then show "blk_at st' 0 = p * 4096" .
  have N: "dir_n st' = 1" "unat (v_size (st_vi st')) = 4096" using ow(4) v mf(2) by (simp_all add: dir_n_def same_file_def)
  show "dir_ok st'" using ow(1,2) p N mo(1) ba m by (simp add: dir_ok_def)
  show "dir_list st' = [([46], i), ([46, 46], parent)]" using mo(2) ba m N by (simp add: dir_list_def block_live_def)
qed

section \<open>The test for an empty directory\<close>

lemma empty_dir_iff:
  assumes ok: "dir_ok st" and i: "i \<noteq> 0"
    and de: "de = blk_at st 0" "de1 = de + de_len (st_mem st) de" "de1 < de + 4096"
    and dot: "de_ino (st_mem st) de = i" "nget (st_mem st) (de + 12) 2 = [46, 0]"
    and dotdot: "de_ino (st_mem st) de1 \<noteq> 0" "nget (st_mem st) (de1 + 12) 3 = [46, 46, 0]"
  shows "pmfs_empty_dir i st \<longleftrightarrow> length (dir_list st) = 2"
proof -
  let ?m = "st_mem st"
  note d = dir_okD [OF ok]
  have N: "0 < dir_n st" by (rule d(3))
  have "0 < (2 :: nat) ^ 64" by simp
  note f = find_at_page [OF d(1) d(4) [OF N] this]
  let ?b = "pmfs_find_data_block st 0"
  have b: "unat ?b = de" "?b \<noteq> 0" using f(1,2) de(1) by simp_all
  have c0: "chain ?m de (de + 4096)" using d(5) [OF N] de(1) by simp
  have s0: "dent_ok ?m (de + 4096) de" and c1: "chain ?m de1 (de + 4096)" using chain_step [OF c0] de(2) by simp_all
  have s1: "dent_ok ?m (de + 4096) de1" and c2: "chain ?m (de1 + de_len ?m de1) (de + 4096)"
    using chain_step [OF c1 de(3)] by simp_all
  have bl: "block_live st 0 = live1 ?m de @ live1 ?m de1 @ live ?m (de1 + de_len ?m de1) (de + 4096)"
    using chain_Cons(2) [OF s0, folded de(2), OF c1] chain_Cons(2) [OF s1 c2] de(1) by (simp add: block_live_def)
  have v63: "unat (v_size (st_vi st)) < 2 ^ 63"
    using dir_n_bound [OF ok] d(2) by (simp only: power_numeral Num.pow.simps Num.sqr.simps) simp
  have "int (unat (v_size (st_vi st))) < int (2 ^ 63)" using v63 by (simp only: of_nat_less_iff)
  then have sv: "sint (v_size (st_vi st)) = int (unat (v_size (st_vi st)))"
    by (simp add: sint_uint signed_take_bit_int_eq_self_iff) (rule order_trans [OF _ uint_ge_0], simp)
  have "32 \<le> unat (v_size (st_vi st))" using d(2) N by simp
  then have big: "\<not> sint (v_size (st_vi st)) < 32" unfolding sv by linarith
  have "pmfs_empty_dir i st = empty_loop st ?b (de1 + de_len ?m de1) (de_len ?m de + de_len ?m de1)"
    using big b dot dotdot by (simp add: pmfs_empty_dir_def Let_def rec_len_vals de(2) [symmetric])
  also have "\<dots> \<longleftrightarrow> live ?m (de1 + de_len ?m de1) (blk_at st 0 + 4096) = [] \<and>
      (\<forall>j. 0 < j \<and> j < dir_n st \<longrightarrow> block_live st j = [])"
    using de(1,2) c2 N b(1) by (intro empty_loop_ok [OF ok]) simp_all
  also have "\<dots> \<longleftrightarrow> length (dir_list st) = 2"
    using bl dot(1) dotdot(1) i de(1) unfolding dir_list_split [OF N] by (auto simp: live1_def)
  finally show ?thesis .
qed

section \<open>PMFS directories as an interface\<close>

lemma dir_list_nonzero: "(n, i) \<in> set (dir_list st) \<Longrightarrow> i \<noteq> 0"
  by (auto simp: dir_list_def block_live_def dest: live_nonzero)

text \<open>The name operations as their callers see them: success, or an error that is not told apart.\<close>

definition dir_look :: "nat \<Rightarrow> u8 list \<Rightarrow> tree_st \<Rightarrow> u64 option" where
  "dir_look start name st =
     (case pmfs_inode_by_name name start st of
        None \<Rightarrow> None
      | Some (ino, _) \<Rightarrow> if ino = 0 then None else Some ino)"

definition dir_add :: "bool \<Rightarrow> u32 \<Rightarrow> u8 list \<Rightarrow> u64 \<Rightarrow> tree_st \<Rightarrow> tree_st option" where
  "dir_add txn now name ino st =
     (case pmfs_add_entry txn now name ino st of
        None \<Rightarrow> None
      | Some (e, st') \<Rightarrow> if e = 0 then Some st' else None)"

definition dir_del :: "bool \<Rightarrow> u32 \<Rightarrow> u8 list \<Rightarrow> tree_st \<Rightarrow> tree_st option" where
  "dir_del txn now name st = (case pmfs_remove_entry txn now name st of (e, st') \<Rightarrow> if e = 0 then Some st' else None)"

definition name_ok :: "u8 list \<Rightarrow> bool" where
  "name_ok name \<longleftrightarrow> 0 < length name \<and> length name \<le> PMFS_NAME_LEN"

lemma name_okD: "name_ok name \<Longrightarrow> 0 < length name" "name_ok name \<Longrightarrow> length name \<le> 255"
  by (simp_all add: name_ok_def PMFS_NAME_LEN_def)

lemma dir_look_ok:
  assumes "dir_ok st" "distinct (map fst (dir_list st))" "name_ok name"
  shows "dir_look start name st = map_of (dir_list st) name"
proof -
  from inode_by_name_ok [OF assms(1,2) name_okD(2) [OF assms(3)], of start] obtain de sl' where
    r: "pmfs_inode_by_name name start st = Some (case map_of (dir_list st) name of None \<Rightarrow> 0 | Some i \<Rightarrow> i, de, sl')"
    by blast
  show ?thesis
  proof (cases "map_of (dir_list st) name")
    case (Some i)
    then have "i \<noteq> 0" using dir_list_nonzero map_of_SomeD by fast
    with Some r show ?thesis by (simp add: dir_look_def)
  qed (use r in \<open>simp add: dir_look_def\<close>)
qed

lemma dir_add_ok:
  assumes "dir_ok st" "name_ok name" "ino \<noteq> 0" "dir_add txn now name ino st = Some st'"
  shows "added name ino st st'"
  using add_entry_ok [OF assms(1) name_okD [OF assms(2)] assms(3), of txn now] assms(4)
  by (auto simp: dir_add_def ENOSPC_def)

lemma dir_del_ok:
  assumes "dir_ok st" "name_ok name"
  shows "case dir_del txn now name st of None \<Rightarrow> name \<notin> fst ` set (dir_list st) | Some st' \<Rightarrow> removed name st st'"
  using remove_entry_ok [OF assms(1) name_okD(1) [OF assms(2)], of txn now]
  by (auto simp: dir_del_def EINVAL_def split: if_splits)

interpretation pdir: name_dir dir_ok dir_list name_ok "\<lambda>i. i \<noteq> 0" "dir_look start" "dir_add txn now" "dir_del txn now"
  for start :: nat and txn :: bool and now :: u32
proof
  fix st st' :: tree_st and name :: "u8 list" and ino :: u64
  assume ok: "dir_ok st" and n: "name_ok name"
  show "dir_look start name st = map_of (dir_list st) name" if "distinct (map fst (dir_list st))"
    by (rule dir_look_ok [OF ok that n])
  show "dir_ok st' \<and> (\<exists>xs ys. dir_list st = xs @ ys \<and> dir_list st' = xs @ [(name, ino)] @ ys)"
    if "ino \<noteq> 0" "dir_add txn now name ino st = Some st'"
    using dir_add_ok [OF ok n that] by (simp add: added_def)
  show "case dir_del txn now name st of None \<Rightarrow> name \<notin> fst ` set (dir_list st)
      | Some st' \<Rightarrow> dir_ok st' \<and>
          (\<exists>xs i ys. dir_list st = xs @ [(name, i)] @ ys \<and> dir_list st' = xs @ ys \<and> name \<notin> fst ` set xs)"
    using dir_del_ok [OF ok n, of txn now] by (auto simp: removed_def split: option.splits)
qed

section \<open>Properties\<close>


text \<open>A new directory with inode number 9 below inode 3.\<close>

definition dst0 :: tree_st where
  "dst0 = mkdir_entries 9 3 0x5000 (tst1\<lparr>st_vi := (st_vi tst1)\<lparr>v_size := 0x1000\<rparr>, st_acts := []\<rparr>)"

lemma dst0_ok: "dir_ok dst0" "dir_list dst0 = [([46], 9), ([46, 46], 3)]" "blk_at dst0 0 = 0x5000"
  "st_mem dst0 = mkdir_mem 9 3 0x5000 (st_mem tst1)"
proof -
  let ?st = "tst1\<lparr>st_vi := (st_vi tst1)\<lparr>v_size := 0x1000\<rparr>, st_acts := []\<rparr>"
  have "inode_ok ?st = inode_ok tst1" by (rule inode_view_cong(4)) simp_all
  then have ok: "inode_ok ?st" using tst1_ok by simp
  have p: "file_page ?st 0 = Some 5"
    by (simp add: file_page_def file_block_def Let_def tst1_def pi0_def blk_pages_def pblk_def)
  note m = mkdir_ok [OF ok p, where i = 9 and parent = 3]
  show "dir_ok dst0" "dir_list dst0 = [([46], 9), ([46, 46], 3)]" "blk_at dst0 0 = 0x5000"
    "st_mem dst0 = mkdir_mem 9 3 0x5000 (st_mem tst1)"
    using m by (simp_all add: dst0_def)
qed

lemma dst0_facts: "distinct (map fst (dir_list dst0))"
  "pmfs_find_data_block dst0 0 = 0x5000" "dir_n dst0 = 1" "unat (v_size (st_vi dst0)) = 4096"
proof -
  show "distinct (map fst (dir_list dst0))" by (simp add: dst0_ok(2))
  have v: "v_size (st_vi dst0) = 0x1000"
    using mkdir_entries_fields(2) unfolding dst0_def same_file_def by simp
  then show n: "dir_n dst0 = 1" "unat (v_size (st_vi dst0)) = 4096" by (simp_all add: dir_n_def)
  have "0 < dir_n dst0" "0 < (2 :: nat) ^ 64" using n by simp_all
  then have "unat (pmfs_find_data_block dst0 0) = 0x5000"
    using find_at_page(1) [OF dir_okD(1,4) [OF dst0_ok(1)], of 0] dst0_ok(3) by simp
  then show "pmfs_find_data_block dst0 0 = 0x5000" by (simp add: word_unat_eq_iff)
qed

text \<open>The name fits behind the entry of the parent.\<close>

lemma dst0_add:
  assumes "st_sbi st = st_sbi dst0" "same_file dst0 st"
  shows "pmfs_add_entry True now [102] 12 st = Some (0, fill_dirent True now [102] 12 0x5010 (log_inode True st))"
proof -
  let ?st = "log_inode True st"
  have sf: "same_file dst0 ?st" "st_sbi ?st = st_sbi dst0" using assms by (simp_all add: same_file_def)
  have ok: "dir_ok ?st" using dst0_ok(1) dir_ok_cong(1) [OF sf(2,1)] by simp
  have n: "dir_n ?st = 1" using dst0_facts(3) sf(1) by (simp add: dir_n_def same_file_def)
  have m: "st_mem ?st = mkdir_mem 9 3 0x5000 (st_mem tst1)" using assms(1) dst0_ok(4) by simp
  note f = mkdir_mem_fields [where i = 9 and parent = 3 and b = "0x5000" and m = "st_mem tst1", folded m, simplified]
  have "blk_at ?st 0 = 0x5000" using dst0_ok(3) dir_ok_cong [OF sf(2,1)] by simp
  then have b: "unat (pmfs_find_data_block ?st 0) = 0x5000" "pmfs_find_data_block ?st 0 \<noteq> 0"
    using find_at_page(1,2) [OF dir_okD(1,4) [OF ok], of 0] n by simp_all
  have s: "slot_loop (st_mem ?st) 16 24560 0x5000 = Some 0x5010"
    using f by (simp add: slot_loop.simps [of _ 16 24560 "0x5000"] slot_loop.simps [of _ 16 24560 "0x5010"] rec_len_vals)
  show ?thesis
    using b s n dir_blocks_n [OF ok] unfolding pmfs_add_entry_def
    by (simp add: Let_def pmfs_add_dirent_to_buf_def rec_len_vals ENOSPC_def)
qed

text \<open>The same directory at the start of an operation.\<close>

definition dst1 :: tree_st where "dst1 = dst0\<lparr>st_acts := []\<rparr>"

lemma dst1_ok: "dir_ok dst1" "dir_list dst1 = [([46], 9), ([46, 46], 3)]" "st_acts dst1 = []" "dir_n dst1 = 1"
  "pmfs_add_entry True now [102] 12 dst1 = Some (0, fill_dirent True now [102] 12 0x5010 (log_inode True dst1))"
proof -
  have e: "st_sbi dst1 = st_sbi dst0" "same_file dst0 dst1" by (simp_all add: dst1_def same_file_def)
  show "dir_ok dst1" "dir_list dst1 = [([46], 9), ([46, 46], 3)]" "dir_n dst1 = 1"
    using dir_ok_cong [OF e] dst0_ok(1,2) dst0_facts(3) by simp_all
  show "st_acts dst1 = []" by (simp add: dst1_def)
  show "pmfs_add_entry True now [102] 12 dst1 = Some (0, fill_dirent True now [102] 12 0x5010 (log_inode True dst1))"
    by (rule dst0_add [OF e])
qed

lemma name_ok_f: "name_ok [102]" by (simp add: name_ok_def PMFS_NAME_LEN_def)

text \<open>
  C6: Adding a name to a directory always returns.  Either it succeeds, and the directory lists the entries it
  had, in their order, with the new one among them; or there is no space for another block, and the list of
  entries is as before.  In both cases the directory stays well formed, no page it did not own is written but
  those it acquires, and no page that was in use is taken from another file.
\<close>

theorem pmfs_add_entry_spec:
  assumes "dir_ok st" "0 < length name" "length name \<le> 255" "ino \<noteq> 0"
  shows "\<exists>e st'. pmfs_add_entry txn now name ino st = Some (e, st') \<and> dir_ok st' \<and>
    (e = 0 \<and> (\<exists>xs ys. dir_list st = xs @ ys \<and> dir_list st' = xs @ [(name, ino)] @ ys) \<or>
     e = - ENOSPC \<and> dir_list st' = dir_list st) \<and>
    st_used st \<subseteq> st_used st' \<and> inode_pages st' = inode_pages st \<union> (st_used st' - st_used st) \<and>
    same_on (- inode_pages st') (st_mem st) (st_mem st')"
  using add_entry_ok [OF assms, of txn now] by (auto simp: added_def unchanged_def frame_def)

theorem pmfs_add_entry_spec_witness:
  "\<exists>st'. pmfs_add_entry True 7 [102] 12 dst1 = Some (0, st') \<and> length (dir_list st') = 3"
proof -
  let ?st = "fill_dirent True 7 [102] 12 0x5010 (log_inode True dst1)"
  have "\<exists>xs ys. dir_list dst1 = xs @ ys \<and> dir_list ?st = xs @ [([102], 12)] @ ys"
    using pmfs_add_entry_spec [OF dst1_ok(1), of "[102]" 12 True 7] unfolding dst1_ok(5) by (simp add: ENOSPC_def)
  then have "length (dir_list ?st) = Suc (length (dir_list dst1))" by auto
  then show ?thesis unfolding dst1_ok(5) dst1_ok(2) by simp
qed

text \<open>
  C8: Removing a name takes the first entry with that name out of the directory's list and keeps all others;
  it fails with \<open>EINVAL\<close> and changes nothing exactly when there is no such entry.
\<close>

theorem pmfs_remove_entry_spec:
  assumes "dir_ok st" "0 < length name"
  shows "if name \<in> fst ` set (dir_list st)
    then \<exists>st' xs i ys. pmfs_remove_entry txn now name st = (0, st') \<and> dir_ok st' \<and> frame st st' \<and>
      dir_list st = xs @ [(name, i)] @ ys \<and> dir_list st' = xs @ ys \<and> name \<notin> fst ` set xs
    else pmfs_remove_entry txn now name st = (- EINVAL, st)"
  using remove_entry_ok [OF assms, of txn now] unfolding removed_def by (auto split: if_splits)

theorem pmfs_remove_entry_spec_witness:
  "pmfs_remove_entry True 7 [102] dst1 = (- EINVAL, dst1)"
  using pmfs_remove_entry_spec [OF dst1_ok(1), of "[102]" True 7] dst1_ok(2) by simp

text \<open>
  C25: Looking up a name returns, wherever the search starts, the inode number that the directory has for it,
  and 0 when the directory does not have the name.
\<close>

theorem pmfs_inode_by_name_spec:
  assumes "dir_ok st" "distinct (map fst (dir_list st))" "length name \<le> 255"
  shows "\<exists>de start'. pmfs_inode_by_name name start st =
    Some (case map_of (dir_list st) name of None \<Rightarrow> 0 | Some i \<Rightarrow> i, de, start')"
  by (rule inode_by_name_ok [OF assms])

theorem pmfs_inode_by_name_spec_witness:
  "\<exists>de start'. pmfs_inode_by_name [46, 46] 5 dst0 = Some (3, de, start')"
  using pmfs_inode_by_name_spec [OF dst0_ok(1) dst0_facts(1), of "[46, 46]" 5] dst0_ok(2) by simp

text \<open>
  C24: Listing a directory from its start ends, behind the last block, and passes every entry to the caller
  exactly once, in the order of the directory and with the type of its inode.
\<close>

theorem pmfs_readdir_lists:
  assumes "dir_ok st"
  shows "pmfs_readdir collect dtype st 0 [] = Some (dir_n st * 4096, typed dtype (dir_list st))"
  using readdir_loop_ok [OF assms, of "dir_n st" 0 dtype "[]"] by (simp add: pmfs_readdir_def dir_list_def)

theorem pmfs_readdir_lists_witness:
  "pmfs_readdir collect (\<lambda>i. 4) dst0 0 [] = Some (4096, [([46], 9, 4), ([46, 46], 3, 4)])"
  using pmfs_readdir_lists [OF dst0_ok(1), of "\<lambda>i. 4"] dst0_ok(2) dst0_facts(3) by simp

text \<open>
  C5: A directory refines a finite map from names to inode numbers.  In any sequence of additions, each made
  after a lookup did not find the name, and removals, the operations that succeed can be done in the same order
  on the map; the directory stays well formed and without duplicates, and every later lookup gives what the map
  gives.
\<close>

theorem pmfs_dir_refines_map:
  assumes "dir_ok st" "distinct (map fst (dir_list st))"
    and "\<forall>x \<in> set ops. op_valid name_ok (\<lambda>i. i \<noteq> 0) x"
    and "run_ops (dir_step (dir_look start) (dir_add txn now) (dir_del txn now)) ops st = (done, st')"
  shows "dir_ok st' \<and> distinct (map fst (dir_list st')) \<and>
    (\<exists>m. map_run done (map_of (dir_list st)) = Some m \<and> (\<forall>name. name_ok name \<longrightarrow> dir_look start' name st' = m name))"
  using pdir.run_refines [where s = st, OF _ assms(3,4)] assms(1,2) dir_look_ok by auto

theorem pmfs_dir_refines_map_witness:
  "\<exists>st'. run_ops (dir_step (dir_look 0) (dir_add True 7) (dir_del True 7)) [Add_name [102] 12] dst1 = ([Add_name [102] 12], st') \<and>
    dir_look 0 [102] st' = Some 12 \<and> dir_look 0 [46] st' = Some 9"
proof -
  let ?st = "fill_dirent True 7 [102] 12 0x5010 (log_inode True dst1)"
  have d: "distinct (map fst (dir_list dst1))" by (simp add: dst1_ok(2))
  have l: "dir_look 0 [102] dst1 = None" using dir_look_ok [OF dst1_ok(1) d name_ok_f, of 0] dst1_ok(2) by simp
  have r: "run_ops (dir_step (dir_look 0) (dir_add True 7) (dir_del True 7)) [Add_name [102] 12] dst1 = ([Add_name [102] 12], ?st)"
    using l dst1_ok(5) [of 7] by (simp add: dir_add_def)
  have n: "name_ok [46]" by (simp add: name_ok_def PMFS_NAME_LEN_def)
  from pmfs_dir_refines_map [OF dst1_ok(1) d _ r, of 0] show ?thesis
    using r name_ok_f n dst1_ok(2) by auto
qed

text \<open>
  C21: A name that is added to a directory which does not have it is found under its inode number; when it is
  removed again, the directory lists exactly the entries it had before, in the same order.
\<close>

theorem pmfs_add_lookup_remove:
  assumes "dir_ok st" "distinct (map fst (dir_list st))" "name_ok name" "ino \<noteq> 0"
    and "dir_look start name st = None" "dir_add txn now name ino st = Some st'"
  shows "dir_look start name st' = Some ino \<and>
    (\<exists>st''. dir_del txn now name st' = Some st'' \<and> dir_ok st'' \<and> dir_list st'' = dir_list st \<and>
       dir_look start name st'' = None)"
  using pdir.add_look_del [where s = st, OF _ assms(3-6)] assms(1,2) by blast

theorem pmfs_add_lookup_remove_witness:
  "\<exists>st' st''. dir_add True 7 [102] 12 dst1 = Some st' \<and> dir_del True 7 [102] st' = Some st'' \<and>
    dir_list st'' = [([46], 9), ([46, 46], 3)]"
proof -
  have d: "distinct (map fst (dir_list dst1))" by (simp add: dst1_ok(2))
  have l: "dir_look 0 [102] dst1 = None" using dir_look_ok [OF dst1_ok(1) d name_ok_f, of 0] dst1_ok(2) by simp
  have a: "dir_add True 7 [102] 12 dst1 = Some (fill_dirent True 7 [102] 12 0x5010 (log_inode True dst1))"
    using dst1_ok(5) [of 7] by (simp add: dir_add_def)
  from pmfs_add_lookup_remove [OF dst1_ok(1) d name_ok_f _ l a] a dst1_ok(2) show ?thesis by auto
qed

text \<open>
  C23: The journal entries of an addition within the blocks of the directory are enough to undo it: with the
  logged bytes put back, whatever else was written, the directory is well formed and lists what it listed before.
\<close>

theorem pmfs_add_entry_undo:
  assumes "dir_ok st" "0 < length name" "length name \<le> 255" "ino \<noteq> 0" "st_acts st = []"
    and "pmfs_add_entry True now name ino st = Some (0, st')" "dir_n st' = dir_n st"
  shows "dir_ok (undone st st') \<and> dir_list (undone st st') = dir_list st"
  by (rule add_undo [OF assms])

theorem pmfs_add_entry_undo_witness:
  "\<exists>st'. pmfs_add_entry True 7 [102] 12 dst1 = Some (0, st') \<and> dir_list (undone dst1 st') = [([46], 9), ([46, 46], 3)]"
proof -
  let ?st = "fill_dirent True 7 [102] 12 0x5010 (log_inode True dst1)"
  have "same_file dst1 ?st" unfolding same_file_def by (simp add: fill_dirent_def Let_def)
  then have "dir_n ?st = dir_n dst1" by (simp add: dir_n_def same_file_def)
  with pmfs_add_entry_undo [OF dst1_ok(1) _ _ _ dst1_ok(3) dst1_ok(5)] dst1_ok(2,5) show ?thesis by auto
qed

text \<open>
  C31: For a directory whose first block starts with the entries of the directory itself and of its parent, the
  test that allows \<^verbatim>\<open>rmdir\<close> holds exactly when the directory has no other entry.
\<close>

theorem pmfs_empty_dir_correct:
  assumes "dir_ok st" "i \<noteq> 0" "de = blk_at st 0" "dd = de + de_len (st_mem st) de" "dd < de + 4096"
    and "de_ino (st_mem st) de = i" "nget (st_mem st) (de + 12) 2 = [46, 0]"
    and "de_ino (st_mem st) dd \<noteq> 0" "nget (st_mem st) (dd + 12) 3 = [46, 46, 0]"
  shows "pmfs_empty_dir i st \<longleftrightarrow> length (dir_list st) = 2"
  by (rule empty_dir_iff [OF assms])

theorem pmfs_empty_dir_correct_witness: "pmfs_empty_dir 9 dst0"
proof -
  note f = mkdir_mem_fields [where i = 9 and parent = 3 and b = "0x5000" and m = "st_mem tst1", folded dst0_ok(4), simplified]
  have "pmfs_empty_dir 9 dst0 \<longleftrightarrow> length (dir_list dst0) = 2"
    by (rule pmfs_empty_dir_correct [where de = "0x5000" and dd = "0x5010", OF dst0_ok(1)]) (simp_all add: f dst0_ok(3))
  then show ?thesis by (simp add: dst0_ok(2))
qed

text \<open>
  C34: When the first entry of a block is damaged, listing the directory from that block on never returns,
  whatever the caller does with entries: the position is rounded up to the block it is already at.
\<close>

theorem readdir_bad_entry_never_ends:
  assumes "k * 4096 < unat (v_size (st_vi st))" "pmfs_find_data_block st (of_nat k) \<noteq> 0"
    and "\<not> pmfs_check_dir_entry (st_mem st) (unat (pmfs_find_data_block st (of_nat k)))
      (unat (pmfs_find_data_block st (of_nat k)))"
  shows "pmfs_readdir emit dtype st (k * 4096) ctx = None"
  using readdir_stuck [OF assms] by (simp add: pmfs_readdir_def)

text \<open>The same directory with the length of its first entry overwritten.\<close>

definition dst2 :: tree_st where "dst2 = put_bytes 0x5008 [0, 0] dst0"

theorem readdir_bad_entry_never_ends_witness:
  "pmfs_readdir collect (\<lambda>i. 4) dst2 0 [] = None"
proof -
  have m: "nget (st_mem dst2) 0x5008 2 = le16 0" by (simp add: dst2_def le16_def numeral_2_eq_2)
  then have l: "de_len (st_mem dst2) 0x5000 = 0" using get16_of_bytes by (simp add: de_len_def)
  have e: "st_sbi dst2 = (st_sbi dst0)\<lparr>nvmm := nput 0x5008 [0, 0] (st_mem dst0)\<rparr>" "same_file dst0 dst2"
    by (simp_all add: dst2_def same_file_def)
  have p: "file_page dst0 0 = Some 5" "4096 * 5 = (0x5000 :: nat)"
    using find_at_page(5) [OF dir_okD(1,4) [OF dst0_ok(1)], of 0] dst0_facts(3) dst0_ok(3) by simp_all
  note w = one_page_write [OF dir_okD(1) [OF dst0_ok(1)] p(1) e]
  have b: "inode_ok dst2" "file_page dst2 = file_page dst0" "blk_at dst2 = blk_at dst0"
    by (rule w; auto simp: nput_def)+
  have f: "unat (pmfs_find_data_block dst2 0) = 0x5000" "pmfs_find_data_block dst2 0 \<noteq> 0"
    using find_at_page(1,2) [OF b(1), of 0] b(2,3) p(1) dst0_ok(3) by simp_all
  have "\<not> pmfs_check_dir_entry (st_mem dst2) 0x5000 0x5000" using l by (simp add: pmfs_check_dir_entry_def rec_len_vals)
  with readdir_bad_entry_never_ends [of 0 dst2] f e(2) dst0_facts(4) show ?thesis by (simp add: same_file_def)
qed

end
