(* ===== verification/Nova_Range.thy ===== *)
theory Nova_Range
  imports Nvm "HOL-Library.Tree"
begin

unbundle bit_operations_syntax

text \<open>
  Range nodes of NOVA and the trees that hold them (nova.h, and the tree functions of balloc.c), which both the
  block allocator and the inode maps use.

  A node is an object with an address; a tree is a binary tree of addresses, and the nodes themselves are in a
  store, because the code changes them in place.  How the red-black trees of the kernel are balanced is not
  determined by the code here: \<open>rb_insert_color\<close> and \<open>rb_erase\<close> are arguments, and so are the checksum function and
  the module parameter that enables checksums.  \<^verbatim>\<open>rb_next\<close> and \<^verbatim>\<open>rb_prev\<close> give the neighbours in the order of the tree.
\<close>

section \<open>Nodes\<close>

record nova_range_node =
  vma :: u64
  mmap_entry :: u64
  range_low :: u64
  range_high :: u64
  rn_csum :: u32

type_synonym rn_store = "nat \<Rightarrow> nova_range_node"

record rb_kernel =
  rb_insert_color :: "nat \<Rightarrow> nat tree \<Rightarrow> nat tree"
  rb_erase :: "nat \<Rightarrow> nat tree \<Rightarrow> nat tree"
  nova_crc32c :: "u8 list \<Rightarrow> u32"
  dram_struct_csum :: bool

datatype node_type = NODE_BLOCK | NODE_INODE | NODE_DIR

definition zalloc_node :: nova_range_node where
  "zalloc_node = \<lparr>vma = 0, mmap_entry = 0, range_low = 0, range_high = 0, rn_csum = 0\<rparr>"

definition nova_calculate_range_node_csum :: "rb_kernel \<Rightarrow> nova_range_node \<Rightarrow> u32" where
  "nova_calculate_range_node_csum K n =
     nova_crc32c K (le64 (vma n) @ le64 (mmap_entry n) @ le64 (range_low n) @ le64 (range_high n))"

definition nova_update_range_node_checksum :: "rb_kernel \<Rightarrow> nova_range_node \<Rightarrow> nova_range_node" where
  "nova_update_range_node_checksum K n =
     (if dram_struct_csum K then n\<lparr>rn_csum := nova_calculate_range_node_csum K n\<rparr> else n)"

definition nova_range_node_checksum_ok :: "rb_kernel \<Rightarrow> nova_range_node \<Rightarrow> bool" where
  "nova_range_node_checksum_ok K n \<longleftrightarrow> \<not> dram_struct_csum K \<or> rn_csum n = nova_calculate_range_node_csum K n"

text \<open>A change of one node in place, followed by the update of its checksum.\<close>

definition put_node :: "rb_kernel \<Rightarrow> nat \<Rightarrow> (nova_range_node \<Rightarrow> nova_range_node) \<Rightarrow> rn_store \<Rightarrow> rn_store" where
  "put_node K x f h = h(x := nova_update_range_node_checksum K (f (h x)))"

section \<open>Neighbours\<close>

fun next_in :: "nat list \<Rightarrow> nat \<Rightarrow> nat option" where
  "next_in [] x = None"
| "next_in (y # ys) x = (if y = x then (case ys of [] \<Rightarrow> None | z # zs \<Rightarrow> Some z) else next_in ys x)"

definition rb_next :: "nat tree \<Rightarrow> nat \<Rightarrow> nat option" where
  "rb_next t x = next_in (inorder t) x"

definition rb_prev :: "nat tree \<Rightarrow> nat \<Rightarrow> nat option" where
  "rb_prev t x = next_in (rev (inorder t)) x"

section \<open>Search and insertion\<close>

definition nova_rbtree_compare_rangenode :: "nova_range_node \<Rightarrow> u64 \<Rightarrow> node_type \<Rightarrow> int" where
  "nova_rbtree_compare_rangenode cur key type =
     (if type = NODE_DIR then
        \<comment> \<open>the hash of a directory node shares its place with \<open>range_low\<close>\<close>
        if key < range_low cur then - 1 else if key > range_low cur then 1 else 0
      else if key < range_low cur then - 1
      else if key > range_high cur then 1
      else 0)"

fun find_node_loop :: "rn_store \<Rightarrow> u64 \<Rightarrow> node_type \<Rightarrow> nat option \<Rightarrow> nat tree \<Rightarrow> bool \<times> nat option" where
  "find_node_loop h key type cur Leaf = (False, cur)"
| "find_node_loop h key type cur (Node l x r) =
     (let compVal = nova_rbtree_compare_rangenode (h x) key type
      in if compVal = - 1 then find_node_loop h key type (Some x) l
         else if compVal = 1 then find_node_loop h key type (Some x) r
         else (True, Some x))"

definition nova_find_range_node ::
    "rb_kernel \<Rightarrow> rn_store \<Rightarrow> nat tree \<Rightarrow> u64 \<Rightarrow> node_type \<Rightarrow> bool \<times> nat option" where
  "nova_find_range_node K h tree key type =
     (case find_node_loop h key type None tree of (ret, cur) \<Rightarrow>
        (case cur of
           Some x \<Rightarrow> if \<not> nova_range_node_checksum_ok K (h x) then (False, None) else (ret, cur)
         | None \<Rightarrow> (ret, cur)))"

text \<open>The place for a new node; \<open>None\<close> when a node already covers its start.\<close>

fun insert_walk :: "rn_store \<Rightarrow> nat \<Rightarrow> node_type \<Rightarrow> nat tree \<Rightarrow> nat tree option" where
  "insert_walk h new_node type Leaf = Some (Node Leaf new_node Leaf)"
| "insert_walk h new_node type (Node l x r) =
     (let compVal = nova_rbtree_compare_rangenode (h x) (range_low (h new_node)) type
      in if compVal = - 1 then map_option (\<lambda>l'. Node l' x r) (insert_walk h new_node type l)
         else if compVal = 1 then map_option (\<lambda>r'. Node l x r') (insert_walk h new_node type r)
         else None)"

definition nova_insert_range_node ::
    "rb_kernel \<Rightarrow> rn_store \<Rightarrow> nat tree \<Rightarrow> nat \<Rightarrow> node_type \<Rightarrow> int \<times> nat tree" where
  "nova_insert_range_node K h tree new_node type =
     (case insert_walk h new_node type tree of
        None \<Rightarrow> (- EINVAL, tree)
      | Some tree' \<Rightarrow> (0, rb_insert_color K new_node tree'))"

definition nova_insert_blocktree :: "rb_kernel \<Rightarrow> rn_store \<Rightarrow> nat tree \<Rightarrow> nat \<Rightarrow> int \<times> nat tree" where
  "nova_insert_blocktree K h tree new_node = nova_insert_range_node K h tree new_node NODE_BLOCK"

text \<open>The nodes before and behind a range that is not in the tree, or an error.\<close>

definition nova_find_free_slot ::
    "rb_kernel \<Rightarrow> rn_store \<Rightarrow> nat tree \<Rightarrow> u64 \<Rightarrow> u64 \<Rightarrow> int + (nat option \<times> nat option)" where
  "nova_find_free_slot K h tree low high =
     (case nova_find_range_node K h tree low NODE_BLOCK of (ret, ret_node) \<Rightarrow>
        if ret then Inl (- EINVAL)
        else
          case ret_node of
            None \<Rightarrow> Inr (None, None)
          | Some x \<Rightarrow>
              if range_high (h x) < low then
                (case rb_next tree x of
                   None \<Rightarrow> Inr (Some x, None)
                 | Some y \<Rightarrow>
                     if \<not> nova_range_node_checksum_ok K (h y) then Inl (- EIO) else Inr (Some x, Some y))
              else if range_low (h x) > high then
                (case rb_prev tree x of
                   None \<Rightarrow> Inr (None, Some x)
                 | Some y \<Rightarrow>
                     if \<not> nova_range_node_checksum_ok K (h y) then Inl (- EIO) else Inr (Some y, Some x))
              else Inl (- EINVAL))"

text \<open>All nodes of a tree are erased and freed, in order.\<close>

definition nova_destroy_range_node_tree :: "rb_kernel \<Rightarrow> nat tree \<Rightarrow> nat tree" where
  "nova_destroy_range_node_tree K tree = fold (rb_erase K) (inorder tree) tree"

end
