(* ===== verification/Nova_Balloc.thy ===== *)
theory Nova_Balloc
  imports Nova_Range
begin

unbundle bit_operations_syntax

text \<open>
  The block allocator of NOVA (balloc.c): one list of free ranges for each processor, kept in a tree of range nodes.

  An operation runs under the lock of its list, so it is one step here.  Addresses of new nodes and failures of the
  kernel's memory allocator are arguments (\<open>None\<close> is a null pointer).  An access outside the array of free lists
  and a division by zero have the value \<open>None\<close>.  Counters of calls and of search steps that only feed statistics
  output of other files are left out, except those that are fields of the list.
\<close>

record free_list =
  block_free_tree :: "nat tree"
  first_node :: "nat option"
  last_node :: "nat option"
  fl_index :: nat
  csum_start :: u64
  replica_csum_start :: u64
  num_csum_blocks :: u64
  parity_start :: u64
  replica_parity_start :: u64
  num_parity_blocks :: u64
  block_start :: u64
  block_end :: u64
  num_free_blocks :: u64
  num_blocknode :: u64
  alloc_log_count :: u64
  alloc_data_count :: u64
  free_log_count :: u64
  free_data_count :: u64
  alloc_log_pages :: u64
  alloc_data_pages :: u64
  freed_log_pages :: u64
  freed_data_pages :: u64

record inode_map =
  inode_inuse_tree :: "nat tree"
  num_range_node_inode :: u64
  first_inode_range :: "nat option"
  im_allocated :: u32
  im_freed :: u32

record nova_sb_info =
  nodes :: rn_store
  free_lists :: "free_list list"
  per_list_blocks :: u64
  num_blocks :: u64
  initsize :: u64
  head_reserved_blocks :: u64
  tail_reserved_blocks :: u64
  cpus :: nat
  inode_maps :: "inode_map list"
  s_inodes_used_count :: u64
  s_epoch_id :: u64
  snapshot_info_tree :: "u64 \<rightharpoonup> u64"
  nvmm :: mem

datatype nova_alloc_direction = ALLOC_FROM_HEAD | ALLOC_FROM_TAIL
datatype alloc_type = LOG | DATA

definition nova_get_numblocks :: "u16 \<Rightarrow> u64" where
  "nova_get_numblocks btype = (if btype = 0 then 1 else if btype = 1 then 512 else 0x40000)"

definition DEAD_ZONE_BLOCKS :: u64 where "DEAD_ZONE_BLOCKS = 256"

definition ANY_CPU :: nat where "ANY_CPU = 65536"

definition PAGES_PER_2MB_MASK :: u64 where "PAGES_PER_2MB_MASK = 512 - 1"

definition set_list :: "nat \<Rightarrow> free_list \<Rightarrow> nova_sb_info \<Rightarrow> nova_sb_info" where
  "set_list i fl sbi = sbi\<lparr>free_lists := (free_lists sbi)[i := fl]\<rparr>"

section \<open>Initialisation\<close>

definition empty_list :: free_list where
  "empty_list = \<lparr>block_free_tree = Leaf, first_node = None, last_node = None, fl_index = 0, csum_start = 0,
     replica_csum_start = 0, num_csum_blocks = 0, parity_start = 0, replica_parity_start = 0, num_parity_blocks = 0,
     block_start = 0, block_end = 0, num_free_blocks = 0, num_blocknode = 0, alloc_log_count = 0, alloc_data_count = 0,
     free_log_count = 0, free_data_count = 0, alloc_log_pages = 0, alloc_data_pages = 0, freed_log_pages = 0,
     freed_data_pages = 0\<rparr>"

definition nova_alloc_block_free_lists :: "bool \<Rightarrow> nova_sb_info \<Rightarrow> int \<times> nova_sb_info" where
  "nova_alloc_block_free_lists mem sbi =
     (if \<not> mem then (- ENOMEM, sbi\<lparr>free_lists := []\<rparr>)
      else (0, sbi\<lparr>free_lists := map (\<lambda>i. empty_list\<lparr>fl_index := i\<rparr>) [0..<cpus sbi]\<rparr>))"

definition nova_delete_free_lists :: "nova_sb_info \<Rightarrow> nova_sb_info" where
  "nova_delete_free_lists sbi = sbi\<lparr>free_lists := []\<rparr>"

definition nova_data_csum_init_free_list :: "nova_sb_info \<Rightarrow> free_list \<Rightarrow> free_list" where
  "nova_data_csum_init_free_list sbi fl =
     (let n = of_nat (cpus sbi);
          data_csum_blocks = drop_bit 12 (drop_bit 9 (initsize sbi) * 4);
          fl1 = fl\<lparr>csum_start := block_start fl, block_start := block_start fl + data_csum_blocks div n\<rparr>;
          fl2 = (if data_csum_blocks mod n \<noteq> 0 then fl1\<lparr>block_start := block_start fl1 + 1\<rparr> else fl1);
          fl3 = fl2\<lparr>num_csum_blocks := block_start fl2 - csum_start fl2\<rparr>
      in fl3\<lparr>replica_csum_start := block_end fl3 + 1 - num_csum_blocks fl3,
             block_end := block_end fl3 - num_csum_blocks fl3\<rparr>)"

definition nova_data_parity_init_free_list :: "nova_sb_info \<Rightarrow> free_list \<Rightarrow> free_list" where
  "nova_data_parity_init_free_list sbi fl =
     (let n = of_nat (cpus sbi);
          total_blocks = initsize sbi div 4096;
          parity_blocks = total_blocks div (4096 div 512 + 1) +
            (if total_blocks mod (4096 div 512 + 1) \<noteq> 0 then 1 else 0);
          fl1 = fl\<lparr>parity_start := block_start fl, block_start := block_start fl + parity_blocks div n\<rparr>;
          fl2 = (if parity_blocks mod n \<noteq> 0 then fl1\<lparr>block_start := block_start fl1 + 1\<rparr> else fl1);
          fl3 = fl2\<lparr>num_parity_blocks := block_start fl2 - parity_start fl2\<rparr>
      in fl3\<lparr>replica_parity_start := block_end fl3 + 1 - num_parity_blocks fl3\<rparr>)"

definition nova_init_free_list :: "nova_sb_info \<Rightarrow> nat \<Rightarrow> free_list \<Rightarrow> free_list" where
  "nova_init_free_list sbi index fl =
     (let per_list = num_blocks sbi div of_nat (cpus sbi);
          fl1 = fl\<lparr>block_start := per_list * of_nat index, block_end := per_list * of_nat index + per_list - 1\<rparr>;
          fl2 = (if index = 0 then fl1\<lparr>block_start := block_start fl1 + head_reserved_blocks sbi\<rparr> else fl1);
          fl3 = (if index = cpus sbi - 1 then fl2\<lparr>block_end := block_end fl2 - tail_reserved_blocks sbi\<rparr> else fl2)
      in nova_data_parity_init_free_list sbi (nova_data_csum_init_free_list sbi fl3))"

text \<open>One turn of the loop of \<^verbatim>\<open>nova_init_blockmap\<close>; \<open>None\<close> is the \<^verbatim>\<open>BUG\<close> without memory.\<close>

definition init_list :: "rb_kernel \<Rightarrow> bool \<Rightarrow> nat option \<Rightarrow> nat \<Rightarrow> nova_sb_info \<Rightarrow> (bool \<times> nova_sb_info) option" where
  "init_list K recovery new i sbi =
     (let fl = nova_init_free_list sbi i (free_lists sbi ! i)
      in if recovery then Some (True, set_list i fl sbi)
         else
           let fl1 = fl\<lparr>num_free_blocks := block_end fl - block_start fl + 1\<rparr>
           in case new of
                None \<Rightarrow> None
              | Some x \<Rightarrow>
                  let h = put_node K x (\<lambda>n. n\<lparr>range_low := block_start fl1, range_high := block_end fl1\<rparr>)
                            ((nodes sbi)(x := zalloc_node))
                  in case nova_insert_blocktree K h (block_free_tree fl1) x of
                       (ret, tree) \<Rightarrow>
                         if ret \<noteq> 0 then Some (False, set_list i fl1 (sbi\<lparr>nodes := h\<rparr>))
                         else Some (True, set_list i (fl1\<lparr>block_free_tree := tree, first_node := Some x,
                                last_node := Some x, num_blocknode := 1\<rparr>) (sbi\<lparr>nodes := h\<rparr>)))"

fun init_loop :: "rb_kernel \<Rightarrow> bool \<Rightarrow> (nat \<Rightarrow> nat option) \<Rightarrow> nat list \<Rightarrow> nova_sb_info \<Rightarrow> nova_sb_info option" where
  "init_loop K recovery new [] sbi = Some sbi"
| "init_loop K recovery new (i # is) sbi =
     (case init_list K recovery (new i) i sbi of
        None \<Rightarrow> None
      | Some (ok, sbi') \<Rightarrow> if ok then init_loop K recovery new is sbi' else Some sbi')"

definition nova_init_blockmap :: "rb_kernel \<Rightarrow> bool \<Rightarrow> (nat \<Rightarrow> nat option) \<Rightarrow> nova_sb_info \<Rightarrow> nova_sb_info option" where
  "nova_init_blockmap K recovery new sbi =
     init_loop K recovery new [0..<cpus sbi] (sbi\<lparr>per_list_blocks := num_blocks sbi div of_nat (cpus sbi)\<rparr>)"

section \<open>Freeing blocks\<close>

definition count_free :: "bool \<Rightarrow> u64 \<Rightarrow> free_list \<Rightarrow> free_list" where
  "count_free log_page n fl =
     (let fl1 = fl\<lparr>num_free_blocks := num_free_blocks fl + n\<rparr>
      in if log_page then fl1\<lparr>free_log_count := free_log_count fl1 + 1, freed_log_pages := freed_log_pages fl1 + n\<rparr>
         else fl1\<lparr>free_data_count := free_data_count fl1 + 1, freed_data_pages := freed_data_pages fl1 + n\<rparr>)"

text \<open>A node of its own for the freed range.\<close>

definition insert_cur ::
    "rb_kernel \<Rightarrow> nat \<Rightarrow> u64 \<Rightarrow> u64 \<Rightarrow> nat option \<Rightarrow> nat option \<Rightarrow> rn_store \<Rightarrow> free_list \<Rightarrow> int \<times> rn_store \<times> free_list" where
  "insert_cur K cur low high prev next h fl =
     (let h1 = put_node K cur (\<lambda>m. m\<lparr>range_low := low, range_high := high\<rparr>) h
      in case nova_insert_blocktree K h1 (block_free_tree fl) cur of
           (ret, tree) \<Rightarrow>
             if ret \<noteq> 0 then (ret, h1, fl)
             else (0, h1, fl\<lparr>block_free_tree := tree,
               first_node := (if prev = None then Some cur else first_node fl),
               last_node := (if next = None then Some cur else last_node fl),
               num_blocknode := num_blocknode fl + 1\<rparr>))"

text \<open>The freed range joins its neighbours in the tree or gets its own node.\<close>

definition free_place ::
    "rb_kernel \<Rightarrow> nat \<Rightarrow> u64 \<Rightarrow> u64 \<Rightarrow> u64 \<Rightarrow> nat option \<Rightarrow> nat option \<Rightarrow> rn_store \<Rightarrow> free_list \<Rightarrow>
     int \<times> rn_store \<times> free_list" where
  "free_place K cur low high n prev next h fl =
     (let left = (prev \<noteq> None \<and> low = range_high (h (the prev)) + 1);
          right = (next \<noteq> None \<and> high + 1 = range_low (h (the next)))
      in if left \<and> right then
           (0, put_node K (the prev) (\<lambda>m. m\<lparr>range_high := range_high (h (the next))\<rparr>) h,
            fl\<lparr>block_free_tree := rb_erase K (the next) (block_free_tree fl), num_blocknode := num_blocknode fl - 1,
               last_node := (if last_node fl = next then prev else last_node fl)\<rparr>)
         else if left then (0, put_node K (the prev) (\<lambda>m. m\<lparr>range_high := range_high m + n\<rparr>) h, fl)
         else if right then (0, put_node K (the next) (\<lambda>m. m\<lparr>range_low := range_low m - n\<rparr>) h, fl)
         else insert_cur K cur low high prev next h fl)"

text \<open>The index of a list is an \<^verbatim>\<open>int\<close>; a negative one is also outside the array.\<close>

definition list_of_block :: "u64 \<Rightarrow> nova_sb_info \<Rightarrow> nat" where
  "list_of_block blocknr sbi = unat (ucast (blocknr div per_list_blocks sbi) :: u32)"

definition nova_free_blocks ::
    "rb_kernel \<Rightarrow> nat option \<Rightarrow> u64 \<Rightarrow> int \<Rightarrow> u16 \<Rightarrow> bool \<Rightarrow> nova_sb_info \<Rightarrow> (int \<times> nova_sb_info) option" where
  "nova_free_blocks K new blocknr num btype log_page sbi =
     (if num \<le> 0 then Some (- EINVAL, sbi)
      else if per_list_blocks sbi = 0 then None
      else
        let cpuid = list_of_block blocknr sbi
        in case new of
             None \<Rightarrow> Some (- ENOMEM, sbi)
           | Some cur \<Rightarrow>
               if cpuid \<ge> length (free_lists sbi) then None
               else
                 let fl = free_lists sbi ! cpuid;
                     h = (nodes sbi)(cur := zalloc_node);
                     n = nova_get_numblocks btype * of_int num;
                     block_low = blocknr; block_high = blocknr + n - 1
                 in if blocknr < block_start fl \<or> blocknr + of_int num > block_end fl + 1 then
                      Some (- EIO, sbi\<lparr>nodes := h\<rparr>)
                    else
                      case nova_find_free_slot K h (block_free_tree fl) block_low block_high of
                        Inl e \<Rightarrow> Some (e, sbi\<lparr>nodes := h\<rparr>)
                      | Inr (prev, next) \<Rightarrow>
                          (case free_place K cur block_low block_high n prev next h fl of
                             (ret, h1, fl1) \<Rightarrow>
                               if ret \<noteq> 0 then Some (ret, set_list cpuid fl1 (sbi\<lparr>nodes := h1\<rparr>))
                               else Some (0, set_list cpuid (count_free log_page n fl1) (sbi\<lparr>nodes := h1\<rparr>))))"

definition nova_free_data_blocks ::
    "rb_kernel \<Rightarrow> nat option \<Rightarrow> u64 \<Rightarrow> int \<Rightarrow> u16 \<Rightarrow> nova_sb_info \<Rightarrow> (int \<times> nova_sb_info) option" where
  "nova_free_data_blocks K new blocknr num i_blk_type sbi =
     (if blocknr = 0 then Some (- EINVAL, sbi) else nova_free_blocks K new blocknr num i_blk_type False sbi)"

definition nova_free_log_blocks ::
    "rb_kernel \<Rightarrow> nat option \<Rightarrow> u64 \<Rightarrow> int \<Rightarrow> u16 \<Rightarrow> nova_sb_info \<Rightarrow> (int \<times> nova_sb_info) option" where
  "nova_free_log_blocks K new blocknr num i_blk_type sbi =
     (if blocknr = 0 then Some (- EINVAL, sbi) else nova_free_blocks K new blocknr num i_blk_type True sbi)"

section \<open>Allocation of huge pages\<close>

definition not_enough_blocks :: "rn_store \<Rightarrow> free_list \<Rightarrow> u64 \<Rightarrow> alloc_type \<Rightarrow> bool" where
  "not_enough_blocks h fl n atype =
     (case (first_node fl, last_node fl) of
        (Some x, Some y) \<Rightarrow>
          num_free_blocks fl < n \<or>
          atype = LOG \<and> range_high (h y) - range_low (h x) < DEAD_ZONE_BLOCKS
      | _ \<Rightarrow> True)"

text \<open>The nodes that a loop visits when it follows \<^verbatim>\<open>rb_next\<close> or \<^verbatim>\<open>rb_prev\<close> from a node.\<close>

definition visit :: "nova_alloc_direction \<Rightarrow> free_list \<Rightarrow> nat list" where
  "visit from_tail fl =
     (case from_tail of
        ALLOC_FROM_HEAD \<Rightarrow> dropWhile (\<lambda>x. Some x \<noteq> first_node fl) (inorder (block_free_tree fl))
      | ALLOC_FROM_TAIL \<Rightarrow> dropWhile (\<lambda>x. Some x \<noteq> last_node fl) (rev (inorder (block_free_tree fl))))"

text \<open>The node that is taken out of the list altogether.\<close>

definition drop_node :: "rb_kernel \<Rightarrow> nat \<Rightarrow> free_list \<Rightarrow> free_list" where
  "drop_node K cur fl =
     fl\<lparr>first_node := (if first_node fl = Some cur then rb_next (block_free_tree fl) cur else first_node fl),
        last_node := (if last_node fl = Some cur then rb_prev (block_free_tree fl) cur else last_node fl),
        block_free_tree := rb_erase K cur (block_free_tree fl),
        num_blocknode := num_blocknode fl - 1\<rparr>"

text \<open>
  The last case of the code for huge pages.  When the node is also the first one, the code asks for the predecessor
  of its successor; without a successor that is a null pointer.
\<close>

definition drop_superpage :: "rb_kernel \<Rightarrow> nat \<Rightarrow> free_list \<Rightarrow> free_list option" where
  "drop_superpage K cur fl =
     (let t = block_free_tree fl;
          first = (first_node fl = Some cur);
          node = (if first then rb_next t cur else None);
          temp = (if first then rb_next t cur else Some cur);
          fl1 = fl\<lparr>first_node := (if first then node else first_node fl),
                   block_free_tree := rb_erase K cur t, num_blocknode := num_blocknode fl - 1\<rparr>
      in if last_node fl = Some cur then
           (case temp of
              None \<Rightarrow> None
            | Some y \<Rightarrow> Some (fl1\<lparr>last_node := (case rb_prev t y of None \<Rightarrow> node | Some z \<Rightarrow> Some z)\<rparr>))
         else Some fl1)"

text \<open>A node that is large enough is cut: \<open>lm\<close> blocks stay before the allocated ones, the rest behind them.\<close>

definition superpage_cut ::
    "rb_kernel \<Rightarrow> nat option \<Rightarrow> nat \<Rightarrow> u32 \<Rightarrow> u64 \<Rightarrow> rn_store \<Rightarrow> free_list \<Rightarrow> (int \<times> u64 \<times> rn_store \<times> free_list) option" where
  "superpage_cut K new cur left_margin n h fl =
     (let lm = ucast left_margin;
          low = range_low (h cur); high = range_high (h cur);
          new_blocknr = low + lm;
          right_margin = (ucast (high - low + 1 - lm - n) :: u32);
          h1 = (if left_margin \<noteq> 0 then put_node K cur (\<lambda>m. m\<lparr>range_high := low + lm - 1\<rparr>) h else h)
      in if right_margin \<noteq> 0 then
           if left_margin \<noteq> 0 then
             (case new of
                None \<Rightarrow> Some (- ENOMEM, new_blocknr, h1, fl)
              | Some x \<Rightarrow>
                  let h2 = put_node K x (\<lambda>m. m\<lparr>range_low := low + lm + n, range_high := high\<rparr>) (h1(x := zalloc_node));
                      tree = snd (nova_insert_blocktree K h2 (block_free_tree fl) x)
                  in Some (sint n, new_blocknr, h2, fl\<lparr>block_free_tree := tree, num_blocknode := num_blocknode fl + 1,
                       last_node := (if last_node fl = Some cur then Some x else last_node fl)\<rparr>))
           else Some (sint n, new_blocknr, put_node K cur (\<lambda>m. m\<lparr>range_low := low + n\<rparr>) h1, fl)
         else if left_margin \<noteq> 0 then Some (sint n, new_blocknr, h1, fl)
         else map_option (\<lambda>fl'. (sint n, new_blocknr, h1, fl')) (drop_superpage K cur fl))"

fun superpage_loop ::
    "rb_kernel \<Rightarrow> nat option \<Rightarrow> nat list \<Rightarrow> u64 \<Rightarrow> rn_store \<Rightarrow> free_list \<Rightarrow> (int \<times> u64 \<times> rn_store \<times> free_list) option" where
  "superpage_loop K new [] n h fl = Some (0, 0, h, fl)"
| "superpage_loop K new (cur # rest) n h fl =
     (if \<not> nova_range_node_checksum_ok K (h cur) then superpage_loop K new rest n h fl
      else
        let curr_blocks = range_high (h cur) - range_low (h cur) + 1;
            left_margin = (ucast (512 - (range_low (h cur) AND PAGES_PER_2MB_MASK)) :: u32);
            space = curr_blocks - ucast left_margin;
            n' = (if n > space \<and> space AND NOT PAGES_PER_2MB_MASK > 0 then space AND NOT PAGES_PER_2MB_MASK else n)
        in if curr_blocks > ucast left_margin \<and> n' \<le> space then superpage_cut K new cur left_margin n' h fl
           else superpage_loop K new rest n' h fl)"

definition nova_alloc_superpage ::
    "rb_kernel \<Rightarrow> nat option \<Rightarrow> u64 \<Rightarrow> nova_alloc_direction \<Rightarrow> rn_store \<Rightarrow> free_list \<Rightarrow>
     (int \<times> u64 \<times> rn_store \<times> free_list) option" where
  "nova_alloc_superpage K new n from_tail h fl = superpage_loop K new (visit from_tail fl) n h fl"

section \<open>Allocation\<close>

fun alloc_loop ::
    "rb_kernel \<Rightarrow> u16 \<Rightarrow> nova_alloc_direction \<Rightarrow> nat list \<Rightarrow> u64 \<Rightarrow> u64 \<Rightarrow> rn_store \<Rightarrow> free_list \<Rightarrow>
     bool \<times> u64 \<times> u64 \<times> rn_store \<times> free_list" where
  "alloc_loop K btype from_tail [] n nr h fl = (False, n, nr, h, fl)"
| "alloc_loop K btype from_tail (cur # rest) n nr h fl =
     (if \<not> nova_range_node_checksum_ok K (h cur) then alloc_loop K btype from_tail rest n nr h fl
      else
        let low = range_low (h cur); high = range_high (h cur); curr_blocks = high - low + 1
        in if n \<ge> curr_blocks then
             if btype > 0 \<and> n > curr_blocks then alloc_loop K btype from_tail rest n nr h fl
             else (True, curr_blocks, low, h, drop_node K cur fl)
           else
             case from_tail of
               ALLOC_FROM_HEAD \<Rightarrow> (True, n, low, put_node K cur (\<lambda>m. m\<lparr>range_low := low + n\<rparr>) h, fl)
             | ALLOC_FROM_TAIL \<Rightarrow> (True, n, high + 1 - n, put_node K cur (\<lambda>m. m\<lparr>range_high := high - n\<rparr>) h, fl))"

definition nova_alloc_blocks_in_free_list ::
    "rb_kernel \<Rightarrow> nat option \<Rightarrow> u16 \<Rightarrow> alloc_type \<Rightarrow> u64 \<Rightarrow> nova_alloc_direction \<Rightarrow> rn_store \<Rightarrow> free_list \<Rightarrow>
     (int \<times> u64 \<times> rn_store \<times> free_list) option" where
  "nova_alloc_blocks_in_free_list K new btype atype n from_tail h fl =
     (if first_node fl = None \<or> num_free_blocks fl = 0 then Some (- ENOSPC, 0, h, fl)
      else if atype = LOG \<and> not_enough_blocks h fl n atype then Some (- ENOSPC, 0, h, fl)
      else
        let huge = (n AND PAGES_PER_2MB_MASK = 0 \<and> atype = DATA)
        in case (if huge then nova_alloc_superpage K new n from_tail h fl else Some (0, 0, h, fl)) of
             None \<Rightarrow> None
           | Some (ret_blocks, nr, h1, fl1) \<Rightarrow>
               if ret_blocks > 0 \<and> nr \<noteq> 0 then
                 Some (ret_blocks, nr, h1, fl1\<lparr>num_free_blocks := num_free_blocks fl1 - of_int ret_blocks\<rparr>)
               else
                 case alloc_loop K btype from_tail
                        (visit from_tail (fl1\<lparr>first_node := first_node fl, last_node := last_node fl\<rparr>)) n nr h1 fl1 of
                   (found, n', nr', h2, fl2) \<Rightarrow>
                     if num_free_blocks fl2 < n' \<or> \<not> found then Some (- ENOSPC, nr', h2, fl2)
                     else Some (sint n', nr', h2, fl2\<lparr>num_free_blocks := num_free_blocks fl2 - n'\<rparr>))"

text \<open>The list with most free blocks; the maximum so far is an \<^verbatim>\<open>int\<close>.\<close>

definition nova_get_candidate_free_list :: "nova_sb_info \<Rightarrow> nat" where
  "nova_get_candidate_free_list sbi =
     fst (fold (\<lambda>i (cpuid, most). let n = num_free_blocks (free_lists sbi ! i)
                   in if n > scast (most :: u32) then (i, ucast n) else (cpuid, most)) [0..<cpus sbi] (0, 0))"

text \<open>The list to allocate from, with at most \<open>r\<close> further tries; \<open>None\<close> is an index outside the array.\<close>

fun choose_list :: "u64 \<Rightarrow> alloc_type \<Rightarrow> nova_sb_info \<Rightarrow> nat \<Rightarrow> nat \<Rightarrow> nat option" where
  "choose_list n atype sbi r cpuid =
     (if cpuid \<ge> length (free_lists sbi) then None
      else if not_enough_blocks (nodes sbi) (free_lists sbi ! cpuid) n atype then
        (case r of 0 \<Rightarrow> Some cpuid | Suc r' \<Rightarrow> choose_list n atype sbi r' (nova_get_candidate_free_list sbi))
      else Some cpuid)"

definition count_alloc :: "alloc_type \<Rightarrow> int \<Rightarrow> free_list \<Rightarrow> free_list" where
  "count_alloc atype ret fl =
     (if ret > 0 then
        (case atype of
           LOG \<Rightarrow> fl\<lparr>alloc_log_count := alloc_log_count fl + 1, alloc_log_pages := alloc_log_pages fl + of_int ret\<rparr>
         | DATA \<Rightarrow> fl\<lparr>alloc_data_count := alloc_data_count fl + 1, alloc_data_pages := alloc_data_pages fl + of_int ret\<rparr>)
      else fl)"

text \<open>The return value, the block number that is stored on success, and the state.\<close>

definition nova_new_blocks ::
    "rb_kernel \<Rightarrow> nat \<Rightarrow> nat option \<Rightarrow> u32 \<Rightarrow> u16 \<Rightarrow> bool \<Rightarrow> alloc_type \<Rightarrow> nat \<Rightarrow> nova_alloc_direction \<Rightarrow> nova_sb_info \<Rightarrow>
     (int \<times> u64 option \<times> nova_sb_info) option" where
  "nova_new_blocks K this_cpu new num btype zero atype cpuid from_tail sbi =
     (let n = ucast num * nova_get_numblocks btype
      in if n = 0 then Some (- EINVAL, None, sbi)
         else
           case choose_list n atype sbi 2 (if cpuid = ANY_CPU then this_cpu mod cpus sbi else cpuid) of
             None \<Rightarrow> None
           | Some i \<Rightarrow>
               case nova_alloc_blocks_in_free_list K new btype atype n from_tail (nodes sbi) (free_lists sbi ! i) of
                 None \<Rightarrow> None
               | Some (ret, nr, h, fl) \<Rightarrow>
                   let sbi1 = set_list i (count_alloc atype ret fl) (sbi\<lparr>nodes := h\<rparr>)
                   in if ret \<le> 0 \<or> nr = 0 then Some (- ENOSPC, None, sbi1)
                      else
                        let sbi2 = (if zero then sbi1\<lparr>nvmm := nput (unat (push_bit 12 nr)) (replicate (4096 * nat ret) 0) (nvmm sbi1)\<rparr>
                                    else sbi1)
                        in Some (sint (ucast (of_int ret div nova_get_numblocks btype :: u64) :: u32), Some nr, sbi2))"

definition nova_new_data_blocks ::
    "rb_kernel \<Rightarrow> nat \<Rightarrow> nat option \<Rightarrow> u32 \<Rightarrow> u16 \<Rightarrow> bool \<Rightarrow> nat \<Rightarrow> nova_alloc_direction \<Rightarrow> nova_sb_info \<Rightarrow>
     (int \<times> u64 option \<times> nova_sb_info) option" where
  "nova_new_data_blocks K this_cpu new num i_blk_type zero cpu from_tail sbi =
     nova_new_blocks K this_cpu new num i_blk_type zero DATA cpu from_tail sbi"

definition nova_new_log_blocks ::
    "rb_kernel \<Rightarrow> nat \<Rightarrow> nat option \<Rightarrow> u32 \<Rightarrow> u16 \<Rightarrow> bool \<Rightarrow> nat \<Rightarrow> nova_alloc_direction \<Rightarrow> nova_sb_info \<Rightarrow>
     (int \<times> u64 option \<times> nova_sb_info) option" where
  "nova_new_log_blocks K this_cpu new num i_blk_type zero cpu from_tail sbi =
     nova_new_blocks K this_cpu new num i_blk_type zero LOG cpu from_tail sbi"

definition nova_count_free_blocks :: "nova_sb_info \<Rightarrow> u64" where
  "nova_count_free_blocks sbi = fold (\<lambda>i s. s + num_free_blocks (free_lists sbi ! i)) [0..<cpus sbi] 0"

end
