(* ===== verification/Nova_Range_Inv.thy ===== *)
theory Nova_Range_Inv
  imports Nova_Range
begin

text \<open>
  Trees of range nodes: the nodes in order cover disjoint ranges that do not touch, and what search, insertion and
  the search for a free slot do on such trees, however they are balanced.
\<close>

section \<open>The kernel functions\<close>

text \<open>Balancing keeps the order of the nodes, and erasing takes out one node.\<close>

definition rb_ok :: "rb_kernel \<Rightarrow> bool" where
  "rb_ok K \<longleftrightarrow> (\<forall>x t. inorder (rb_insert_color K x t) = inorder t) \<and>
     (\<forall>x t. distinct (inorder t) \<longrightarrow> inorder (rb_erase K x t) = remove1 x (inorder t))"

lemma rb_okD: "rb_ok K \<Longrightarrow> inorder (rb_insert_color K x t) = inorder t"
  "rb_ok K \<Longrightarrow> distinct (inorder t) \<Longrightarrow> inorder (rb_erase K x t) = remove1 x (inorder t)"
  by (simp_all add: rb_ok_def)

text \<open>The plainest such functions: no balancing, and erasing rebuilds a list-shaped tree.\<close>

fun list_tree :: "nat list \<Rightarrow> nat tree" where
  "list_tree [] = Leaf"
| "list_tree (x # xs) = Node Leaf x (list_tree xs)"

lemma inorder_list_tree [simp]: "inorder (list_tree xs) = xs"
  by (induction xs) simp_all

definition plain_rb :: rb_kernel where
  "plain_rb = \<lparr>rb_insert_color = (\<lambda>x t. t), rb_erase = (\<lambda>x t. list_tree (remove1 x (inorder t))),
     nova_crc32c = (\<lambda>bs. 0), dram_struct_csum = False\<rparr>"

lemma plain_rb_ok: "rb_ok plain_rb"
  by (simp add: rb_ok_def plain_rb_def)

section \<open>Nodes\<close>

lemma update_fields [simp]:
  "range_low (nova_update_range_node_checksum K n) = range_low n"
  "range_high (nova_update_range_node_checksum K n) = range_high n"
  by (simp_all add: nova_update_range_node_checksum_def)

lemma update_csum_ok [simp]: "nova_range_node_checksum_ok K (nova_update_range_node_checksum K n)"
  by (simp add: nova_range_node_checksum_ok_def nova_update_range_node_checksum_def nova_calculate_range_node_csum_def)

lemma put_node_simps [simp]:
  "put_node K x f h x = nova_update_range_node_checksum K (f (h x))"
  "y \<noteq> x \<Longrightarrow> put_node K x f h y = h y"
  by (simp_all add: put_node_def)

abbreviation lo :: "rn_store \<Rightarrow> nat \<Rightarrow> nat" where "lo h x \<equiv> unat (range_low (h x))"
abbreviation hi :: "rn_store \<Rightarrow> nat \<Rightarrow> nat" where "hi h x \<equiv> unat (range_high (h x))"

fun ranges_ok :: "rn_store \<Rightarrow> nat \<Rightarrow> nat \<Rightarrow> nat list \<Rightarrow> bool" where
  "ranges_ok h p e [] = True"
| "ranges_ok h p e (x # xs) = (p \<le> lo h x \<and> lo h x \<le> hi h x \<and> hi h x < e \<and> ranges_ok h (hi h x + 2) e xs)"

definition covered :: "rn_store \<Rightarrow> nat list \<Rightarrow> nat set" where
  "covered h xs = (\<Union>x \<in> set xs. {lo h x..hi h x})"

definition tree_ok :: "rb_kernel \<Rightarrow> rn_store \<Rightarrow> nat \<Rightarrow> nat \<Rightarrow> nat tree \<Rightarrow> bool" where
  "tree_ok K h p e t \<longleftrightarrow> distinct (inorder t) \<and> ranges_ok h p e (inorder t) \<and>
     (\<forall>x \<in> set (inorder t). nova_range_node_checksum_ok K (h x))"

lemma tree_okD:
  assumes "tree_ok K h p e t" "inorder t = xs"
  shows "distinct xs" "ranges_ok h p e xs" "y \<in> set xs \<Longrightarrow> nova_range_node_checksum_ok K (h y)"
  using assms by (auto simp: tree_ok_def)

lemma covered_simps [simp]:
  "covered h [] = {}" "covered h (x # xs) = {lo h x..hi h x} \<union> covered h xs"
  "covered h (xs @ ys) = covered h xs \<union> covered h ys" "finite (covered h xs)"
  by (auto simp: covered_def)

lemma ranges_mono: "ranges_ok h p e xs \<Longrightarrow> q \<le> p \<Longrightarrow> ranges_ok h q e xs"
  by (cases xs) auto

lemma ranges_cong: "(\<And>x. x \<in> set xs \<Longrightarrow> h' x = h x) \<Longrightarrow> ranges_ok h' p e xs = ranges_ok h p e xs"
  by (induction xs arbitrary: p) auto

lemma covered_cong: "(\<And>x. x \<in> set xs \<Longrightarrow> h' x = h x) \<Longrightarrow> covered h' xs = covered h xs"
  by (auto simp: covered_def)

lemma ranges_append:
  "ranges_ok h p e (xs @ ys) \<longleftrightarrow> ranges_ok h p e xs \<and> ranges_ok h (if xs = [] then p else hi h (last xs) + 2) e ys"
  by (induction xs arbitrary: p) auto

lemma ranges_sub: "ranges_ok h p e xs \<Longrightarrow> covered h xs \<subseteq> {p..<e}"
proof (induction xs arbitrary: p)
  case (Cons x xs)
  then have "covered h xs \<subseteq> {hi h x + 2..<e}" by simp
  with Cons.prems show ?case by auto
qed simp

lemma ranges_mem: "ranges_ok h p e xs \<Longrightarrow> x \<in> set xs \<Longrightarrow> p \<le> lo h x \<and> lo h x \<le> hi h x \<and> hi h x < e"
proof (induction xs arbitrary: p)
  case (Cons y ys)
  then show ?case by fastforce
qed simp

text \<open>Everything in front of a node lies below it, everything behind it above.\<close>

lemma ranges_split:
  assumes "ranges_ok h p e (xs @ x # ys)"
  shows "y \<in> set xs \<Longrightarrow> hi h y + 1 < lo h x" "y \<in> set ys \<Longrightarrow> hi h x + 1 < lo h y"
proof -
  have b: "ranges_ok h (hi h x + 2) e ys" using assms by (simp add: ranges_append)
  show "hi h x + 1 < lo h y" if "y \<in> set ys" using ranges_mem [OF b that] by simp
  assume "y \<in> set xs"
  then obtain us vs where xs: "xs = us @ y # vs" by (meson split_list)
  have "ranges_ok h (hi h y + 2) e (vs @ x # ys)" using assms by (simp add: xs ranges_append)
  then show "hi h y + 1 < lo h x" using ranges_mem [of h "hi h y + 2" e "vs @ x # ys" x] by simp
qed

lemma covered_below: "\<forall>x \<in> set xs. hi h x < k \<Longrightarrow> covered h xs \<subseteq> {..<k}"
  by (fastforce simp: covered_def)

lemma covered_above: "\<forall>x \<in> set xs. k < lo h x \<Longrightarrow> covered h xs \<subseteq> {k<..}"
  by (fastforce simp: covered_def)

section \<open>Neighbours\<close>

lemma next_in_append:
  "distinct (xs @ y # ys) \<Longrightarrow> next_in (xs @ y # ys) y = (case ys of [] \<Rightarrow> None | z # zs \<Rightarrow> Some z)"
  by (induction xs) auto

lemma rb_neighbours:
  assumes "inorder t = xs @ y # ys" "distinct (inorder t)"
  shows "rb_next t y = (if ys = [] then None else Some (hd ys))" "rb_prev t y = (if xs = [] then None else Some (last xs))"
proof -
  show "rb_next t y = (if ys = [] then None else Some (hd ys))"
    using next_in_append [of xs y ys] assms by (cases ys) (simp_all add: rb_next_def)
  have "rev (inorder t) = rev ys @ y # rev xs" "distinct (rev ys @ y # rev xs)" using assms by auto
  then show "rb_prev t y = (if xs = [] then None else Some (last xs))"
    using next_in_append [of "rev ys" y "rev xs"]
    by (cases xs rule: rev_cases) (simp_all add: rb_prev_def)
qed

section \<open>Search\<close>

lemma compare_block:
  assumes "type \<noteq> NODE_DIR"
  shows "nova_rbtree_compare_rangenode n key type =
    (if unat key < unat (range_low n) then - 1 else if unat (range_high n) < unat key then 1 else 0)"
  using assms by (simp add: nova_rbtree_compare_rangenode_def word_less_nat_alt)

text \<open>A position in an ordered list of ranges: what is below the key and what is above it.\<close>

definition cut_at :: "rn_store \<Rightarrow> nat \<Rightarrow> nat list \<Rightarrow> nat list \<Rightarrow> bool" where
  "cut_at h k xs ys \<longleftrightarrow> (\<forall>x \<in> set xs. hi h x < k) \<and> (\<forall>y \<in> set ys. k < lo h y)"

definition adjacent :: "nat list \<Rightarrow> nat list \<Rightarrow> nat option \<Rightarrow> bool" where
  "adjacent xs ys c \<longleftrightarrow> c = None \<and> xs = [] \<and> ys = [] \<or> xs \<noteq> [] \<and> c = Some (last xs) \<or> ys \<noteq> [] \<and> c = Some (hd ys)"

lemma find_node_loop_ok:
  assumes "type \<noteq> NODE_DIR" "ranges_ok h p e (xs @ inorder t @ ys)" "cut_at h (unat key) xs ys" "adjacent xs ys c"
  shows "(\<exists>x \<in> set (inorder t). find_node_loop h key type c t = (True, Some x) \<and> lo h x \<le> unat key \<and> unat key \<le> hi h x) \<or>
    (\<exists>us vs r. find_node_loop h key type c t = (False, r) \<and> xs @ inorder t @ ys = us @ vs \<and>
       cut_at h (unat key) us vs \<and> adjacent us vs r)"
  using assms
proof (induction t arbitrary: xs ys c)
  case Leaf
  then show ?case by fastforce
next
  case (Node l x r)
  let ?k = "unat key"
  note s = ranges_split [of h p e "xs @ inorder l" x "inorder r @ ys"]
  have rk: "ranges_ok h p e ((xs @ inorder l) @ x # inorder r @ ys)" using Node.prems(2) by simp
  consider (less) "?k < lo h x" | (greater) "hi h x < ?k" "lo h x \<le> ?k" | (eq) "lo h x \<le> ?k" "?k \<le> hi h x" by linarith
  then show ?case
  proof cases
    case less
    have "cut_at h ?k xs (x # inorder r @ ys)"
      using less Node.prems(3) s(2) [OF rk] ranges_mem [OF rk, of x] by (fastforce simp: cut_at_def)
    moreover have "adjacent xs (x # inorder r @ ys) (Some x)" by (simp add: adjacent_def)
    ultimately have "(\<exists>y \<in> set (inorder l). find_node_loop h key type (Some x) l = (True, Some y) \<and> lo h y \<le> ?k \<and> ?k \<le> hi h y) \<or>
      (\<exists>us vs c. find_node_loop h key type (Some x) l = (False, c) \<and> xs @ inorder l @ (x # inorder r @ ys) = us @ vs \<and>
         cut_at h ?k us vs \<and> adjacent us vs c)"
      using Node.prems(1,2) by (intro Node.IH(1)) simp_all
    then show ?thesis using less compare_block [OF Node.prems(1)] by (auto simp: Let_def)
  next
    case greater
    have "cut_at h ?k (xs @ inorder l @ [x]) ys"
      using greater Node.prems(3) s(1) [OF rk] ranges_mem [OF rk, of x] by (fastforce simp: cut_at_def)
    moreover have "adjacent (xs @ inorder l @ [x]) ys (Some x)" by (simp add: adjacent_def)
    ultimately have "(\<exists>y \<in> set (inorder r). find_node_loop h key type (Some x) r = (True, Some y) \<and> lo h y \<le> ?k \<and> ?k \<le> hi h y) \<or>
      (\<exists>us vs c. find_node_loop h key type (Some x) r = (False, c) \<and> (xs @ inorder l @ [x]) @ inorder r @ ys = us @ vs \<and>
         cut_at h ?k us vs \<and> adjacent us vs c)"
      using Node.prems(1,2) by (intro Node.IH(2)) simp_all
    then show ?thesis using greater compare_block [OF Node.prems(1)] by (auto simp: Let_def)
  next
    case eq
    then show ?thesis using compare_block [OF Node.prems(1)] by (auto simp: Let_def)
  qed
qed

lemma adjacent_mem: "adjacent us vs (Some x) \<Longrightarrow> x \<in> set (us @ vs)"
  by (auto simp: adjacent_def)

lemma find_range_node_ok:
  assumes "type \<noteq> NODE_DIR" "tree_ok K h p e t"
  shows "(\<exists>x \<in> set (inorder t). nova_find_range_node K h t key type = (True, Some x) \<and> lo h x \<le> unat key \<and> unat key \<le> hi h x) \<or>
    (\<exists>us vs r. nova_find_range_node K h t key type = (False, r) \<and> inorder t = us @ vs \<and>
       cut_at h (unat key) us vs \<and> adjacent us vs r)"
proof -
  have "ranges_ok h p e ([] @ inorder t @ [])" "cut_at h (unat key) [] []" "adjacent [] [] None"
    using assms(2) by (simp_all add: tree_ok_def cut_at_def adjacent_def)
  from find_node_loop_ok [OF assms(1) this] show ?thesis
  proof
    assume "\<exists>x \<in> set (inorder t). find_node_loop h key type None t = (True, Some x) \<and> lo h x \<le> unat key \<and> unat key \<le> hi h x"
    then show ?thesis using assms(2) by (auto simp: nova_find_range_node_def tree_ok_def)
  next
    assume "\<exists>us vs r. find_node_loop h key type None t = (False, r) \<and> [] @ inorder t @ [] = us @ vs \<and>
       cut_at h (unat key) us vs \<and> adjacent us vs r"
    then obtain us vs r where r: "find_node_loop h key type None t = (False, r)" "inorder t = us @ vs"
      "cut_at h (unat key) us vs" "adjacent us vs r" by auto
    have "nova_range_node_checksum_ok K (h x)" if "r = Some x" for x
      using adjacent_mem [of us vs x] r(2,4) that assms(2) by (auto simp: tree_ok_def)
    then have "nova_find_range_node K h t key type = (False, r)" using r(1) by (auto simp: nova_find_range_node_def split: option.splits)
    with r show ?thesis by blast
  qed
qed

abbreviation last_opt :: "nat list \<Rightarrow> nat option" where "last_opt xs \<equiv> if xs = [] then None else Some (last xs)"
abbreviation hd_opt :: "nat list \<Rightarrow> nat option" where "hd_opt xs \<equiv> if xs = [] then None else Some (hd xs)"

lemma find_free_slot_ok:
  assumes t: "tree_ok K h p e t" and le: "unat low \<le> unat high" and d: "covered h (inorder t) \<inter> {unat low..unat high} = {}"
  shows "\<exists>us vs. inorder t = us @ vs \<and> cut_at h (unat low) us vs \<and> (\<forall>y \<in> set vs. unat high < lo h y) \<and>
    nova_find_free_slot K h t low high = Inr (last_opt us, hd_opt vs)"
proof -
  have dt: "distinct (inorder t)" and rk: "ranges_ok h p e (inorder t)"
    and cs: "\<And>x. x \<in> set (inorder t) \<Longrightarrow> nova_range_node_checksum_ok K (h x)" using t by (simp_all add: tree_ok_def)
  have no: "\<not> (lo h x \<le> unat low \<and> unat low \<le> hi h x)" if "x \<in> set (inorder t)" for x
    using d le that by (fastforce simp: covered_def)
  have B: "(NODE_BLOCK :: node_type) \<noteq> NODE_DIR" by simp
  from find_range_node_ok [OF B t, of low] no obtain us vs r where
    r: "nova_find_range_node K h t low NODE_BLOCK = (False, r)" "inorder t = us @ vs" "cut_at h (unat low) us vs" "adjacent us vs r"
    by blast
  have vs: "unat high < lo h y" if "y \<in> set vs" for y
  proof (rule ccontr)
    assume "\<not> unat high < lo h y"
    moreover have "unat low < lo h y" using r(3) that by (simp add: cut_at_def)
    moreover have "lo h y \<in> covered h (inorder t)"
      using that r(2) ranges_mem [OF rk, of y] by (auto simp: covered_def intro!: bexI [of _ y])
    ultimately show False using d by auto
  qed
  from r(4) consider "r = None" "us = []" "vs = []" | (prev) "us \<noteq> []" "r = Some (last us)" | (succ) "vs \<noteq> []" "r = Some (hd vs)"
    unfolding adjacent_def by blast
  then have "nova_find_free_slot K h t low high = Inr (last_opt us, hd_opt vs)"
  proof cases
    case 1
    then show ?thesis using r(1) by (simp add: nova_find_free_slot_def)
  next
    case prev
    have "inorder t = butlast us @ last us # vs" using r(2) prev(1) by simp
    from rb_neighbours(1) [OF this dt] have "rb_next t (last us) = hd_opt vs" .
    moreover have "range_high (h (last us)) < low" using r(3) prev(1) by (simp add: cut_at_def word_less_nat_alt)
    moreover have "nova_range_node_checksum_ok K (h (hd vs))" if "vs \<noteq> []" using cs r(2) that by simp
    ultimately show ?thesis using r(1) prev by (simp add: nova_find_free_slot_def)
  next
    case succ
    have "inorder t = us @ hd vs # tl vs" using r(2) succ(1) by simp
    from rb_neighbours(2) [OF this dt] have "rb_prev t (hd vs) = last_opt us" .
    moreover have "high < range_low (h (hd vs))" using vs succ(1) by (simp add: word_less_nat_alt)
    moreover have "\<not> range_high (h (hd vs)) < low"
    proof -
      have "hd vs \<in> set vs" using succ(1) by simp
      then have "unat low < lo h (hd vs)" "lo h (hd vs) \<le> hi h (hd vs)"
        using ranges_mem [OF rk, of "hd vs"] r(2,3) by (simp_all add: cut_at_def)
      then show ?thesis by (simp add: word_less_nat_alt)
    qed
    moreover have "nova_range_node_checksum_ok K (h (last us))" if "us \<noteq> []" using cs r(2) that by simp
    ultimately show ?thesis using r(1) succ by (simp add: nova_find_free_slot_def)
  qed
  with r(2,3) vs show ?thesis by blast
qed

lemma find_free_slot_busy:
  assumes t: "tree_ok K h p e t" and b: "unat low \<in> covered h (inorder t)"
  shows "nova_find_free_slot K h t low high = Inl (- EINVAL)"
proof -
  obtain x where x: "x \<in> set (inorder t)" "lo h x \<le> unat low" "unat low \<le> hi h x" using b by (auto simp: covered_def)
  have "\<not> cut_at h (unat low) us vs" if "inorder t = us @ vs" for us vs
    using x that by (fastforce simp: cut_at_def)
  then show ?thesis using find_range_node_ok [of NODE_BLOCK K h p e t low] t by (auto simp: nova_find_free_slot_def)
qed

section \<open>Insertion\<close>

lemma insert_walk_ok:
  assumes "type \<noteq> NODE_DIR" "inorder t = us @ vs" "cut_at h (lo h x) us vs" "\<forall>y \<in> set (us @ vs). lo h y \<le> hi h y"
  shows "\<exists>t'. insert_walk h x type t = Some t' \<and> inorder t' = us @ x # vs"
  using assms
proof (induction t arbitrary: us vs)
  case Leaf
  then show ?case by simp
next
  case (Node l y r)
  from Node.prems(2) have "inorder l @ y # inorder r = us @ vs" by simp
  then consider (left) zs where "us = inorder l @ y # zs" "inorder r = zs @ vs" | (right) zs where "inorder l = us @ zs" "vs = zs @ y # inorder r"
    by (auto simp: append_eq_append_conv2 append_eq_Cons_conv Cons_eq_append_conv)
  then show ?case
  proof cases
    case left
    then have "hi h y < lo h x" "lo h y \<le> hi h y" using Node.prems(3,4) by (simp_all add: cut_at_def)
    moreover have "\<exists>t'. insert_walk h x type r = Some t' \<and> inorder t' = zs @ x # vs"
      using left Node.prems by (intro Node.IH(2)) (auto simp: cut_at_def)
    ultimately show ?thesis using left compare_block [OF Node.prems(1)] by (auto simp: Let_def)
  next
    case right
    then have "lo h x < lo h y" using Node.prems(3) by (simp add: cut_at_def)
    moreover have "\<exists>t'. insert_walk h x type l = Some t' \<and> inorder t' = us @ x # zs"
      using right Node.prems by (intro Node.IH(1)) (auto simp: cut_at_def)
    ultimately show ?thesis using right compare_block [OF Node.prems(1)] by (auto simp: Let_def)
  qed
qed

lemma insert_range_node_ok:
  assumes "rb_ok K" "type \<noteq> NODE_DIR" "inorder t = us @ vs" "cut_at h (lo h x) us vs" "\<forall>y \<in> set (us @ vs). lo h y \<le> hi h y"
  shows "\<exists>t'. nova_insert_range_node K h t x type = (0, t') \<and> inorder t' = us @ x # vs"
  using insert_walk_ok [OF assms(2-5)] rb_okD(1) [OF assms(1)] by (auto simp: nova_insert_range_node_def)

section \<open>Changes of a tree\<close>

text \<open>The invariant is one of the list of nodes in order, so it does not matter how the tree is balanced.\<close>

lemma range_tree_okI:
  assumes "inorder t = xs" "distinct xs" "ranges_ok h p e xs" "\<And>x. x \<in> set xs \<Longrightarrow> nova_range_node_checksum_ok K (h x)"
  shows "tree_ok K h p e t"
  using assms by (simp add: tree_ok_def)

lemma tree_ok_cong:
  assumes "\<And>x. x \<in> set (inorder t) \<Longrightarrow> h' x = h x"
  shows "tree_ok K h' p e t = tree_ok K h p e t"
  using ranges_cong [of "inorder t" h' h] assms by (simp add: tree_ok_def)

lemma erase_mid:
  assumes "rb_ok K" "inorder t = us @ x # vs" "distinct (inorder t)"
  shows "inorder (rb_erase K x t) = us @ vs"
  using rb_okD(2) [OF assms(1,3), of x] assms(2,3) by (simp add: remove1_append)

text \<open>One node is changed, and its range stays between those of its neighbours.\<close>

lemma tree_ok_resize:
  assumes t: "tree_ok K h p e t" and i: "inorder t = us @ x # vs" and h': "h' = put_node K x f h"
    and lo: "if us = [] then p \<le> lo h' x else hi h (last us) + 2 \<le> lo h' x"
    and hi: "lo h' x \<le> hi h' x" "if vs = [] then hi h' x < e else hi h' x + 2 \<le> lo h (hd vs)"
  shows "tree_ok K h' p e t" "covered h' (inorder t) = covered h us \<union> {lo h' x..hi h' x} \<union> covered h vs"
proof -
  note d = tree_okD(1) [OF t i] and r = tree_okD(2) [OF t i] and cs = tree_okD(3) [OF t i]
  have same: "h' y = h y" if "y \<in> set us \<union> set vs" for y using d that h' by (auto simp: put_node_def)
  have ru: "ranges_ok h' p e us" using r same ranges_cong [of us h' h] by (simp add: ranges_append)
  have rv: "ranges_ok h (hi h x + 2) e vs" using r by (simp add: ranges_append)
  then have "ranges_ok h (hi h' x + 2) e vs" using hi(2) by (cases vs) auto
  then have rv': "ranges_ok h' (hi h' x + 2) e vs" using same ranges_cong [of vs h' h] by simp
  have "hi h' x < e"
  proof (cases vs)
    case (Cons y ys)
    then have "lo h y \<le> hi h y" "hi h y < e" using rv by simp_all
    then show ?thesis using hi(2) Cons by simp
  qed (use hi in simp)
  moreover have "(if us = [] then p else hi h' (last us) + 2) \<le> lo h' x" using lo same [of "last us"] by (cases us) simp_all
  ultimately have "ranges_ok h' p e (us @ x # vs)" using ru rv' hi(1) by (simp add: ranges_append)
  moreover have "nova_range_node_checksum_ok K (h' y)" if "y \<in> set (us @ x # vs)" for y
    using cs [OF that] h' by (cases "y = x") simp_all
  ultimately show "tree_ok K h' p e t" using d by (intro range_tree_okI [OF i]) simp_all
  show "covered h' (inorder t) = covered h us \<union> {lo h' x..hi h' x} \<union> covered h vs"
    using covered_cong [of us h' h] covered_cong [of vs h' h] same by (auto simp: i)
qed

text \<open>A node is inserted.\<close>

lemma tree_ok_insert:
  assumes t: "tree_ok K h p e t" and i: "inorder t = us @ vs" and i': "inorder t' = us @ x # vs" and x: "x \<notin> set (inorder t)"
    and h': "\<And>y. y \<in> set (us @ vs) \<Longrightarrow> h' y = h y" and cx: "nova_range_node_checksum_ok K (h' x)"
    and lo: "if us = [] then p \<le> lo h' x else hi h (last us) + 2 \<le> lo h' x"
    and hi: "lo h' x \<le> hi h' x" "if vs = [] then hi h' x < e else hi h' x + 2 \<le> lo h (hd vs)"
  shows "tree_ok K h' p e t'" "covered h' (inorder t') = covered h (inorder t) \<union> {lo h' x..hi h' x}"
proof -
  note d = tree_okD(1) [OF t i] and r = tree_okD(2) [OF t i] and cs = tree_okD(3) [OF t i]
  have ru: "ranges_ok h' p e us" using r h' ranges_cong [of us h' h] by (simp add: ranges_append)
  have rv: "ranges_ok h (if us = [] then p else hi h (last us) + 2) e vs" using r by (simp add: ranges_append)
  then have "ranges_ok h (hi h' x + 2) e vs" using hi(2) by (cases vs) auto
  then have rv': "ranges_ok h' (hi h' x + 2) e vs" using h' ranges_cong [of vs h' h] by simp
  have "hi h' x < e"
  proof (cases vs)
    case (Cons y ys)
    then have "lo h y \<le> hi h y" "hi h y < e" using rv by simp_all
    then show ?thesis using hi(2) Cons by simp
  qed (use hi in simp)
  moreover have "(if us = [] then p else hi h' (last us) + 2) \<le> lo h' x" using lo h' [of "last us"] by (cases us) simp_all
  ultimately have "ranges_ok h' p e (us @ x # vs)" using ru rv' hi(1) by (simp add: ranges_append)
  moreover have "nova_range_node_checksum_ok K (h' y)" if "y \<in> set (us @ x # vs)" for y
    using cs [of y] h' [of y] cx that by (cases "y = x") simp_all
  moreover have "distinct (us @ x # vs)" using d x i by auto
  ultimately show "tree_ok K h' p e t'" by (intro range_tree_okI [OF i'])
  show "covered h' (inorder t') = covered h (inorder t) \<union> {lo h' x..hi h' x}"
    using covered_cong [of us h' h] covered_cong [of vs h' h] h' by (auto simp: i i')
qed

text \<open>A node is erased.\<close>

lemma tree_ok_erase:
  assumes t: "tree_ok K h p e t" and i: "inorder t = us @ x # vs" and i': "inorder t' = us @ vs"
  shows "tree_ok K h p e t'" "covered h (inorder t') = covered h (inorder t) - {lo h x..hi h x}"
proof -
  note d = tree_okD(1) [OF t i] and r = tree_okD(2) [OF t i] and cs = tree_okD(3) [OF t i]
  have "ranges_ok h (hi h x + 2) e vs" "ranges_ok h p e us" "ranges_ok h (if us = [] then p else hi h (last us) + 2) e [x]"
    using r by (simp_all add: ranges_append)
  then have "ranges_ok h p e (us @ vs)"
    using ranges_mono [of h "hi h x + 2" e vs "if us = [] then p else hi h (last us) + 2"] by (simp add: ranges_append)
  then show "tree_ok K h p e t'" using d cs by (intro range_tree_okI [OF i']) auto
  note s = ranges_split [OF r]
  have "covered h us \<inter> {lo h x..hi h x} = {}" "covered h vs \<inter> {lo h x..hi h x} = {}"
    using s by (fastforce simp: covered_def)+
  then show "covered h (inorder t') = covered h (inorder t) - {lo h x..hi h x}" by (auto simp: i i')
qed

end
