(* ===== verification/Nova_Balloc_Inv.thy ===== *)
theory Nova_Balloc_Inv
  imports Nova_Balloc Nova_Range_Inv
begin

unbundle bit_operations_syntax

text \<open>
  The invariant of a free list of NOVA, and freeing: the freed range joins the free blocks, whichever way it touches
  the ranges that are free already.
\<close>

section \<open>One list\<close>

abbreviation ids :: "free_list \<Rightarrow> nat list" where "ids fl \<equiv> inorder (block_free_tree fl)"

abbreviation free_of :: "rn_store \<Rightarrow> free_list \<Rightarrow> nat set" where "free_of h fl \<equiv> covered h (ids fl)"

definition shape_ok :: "rb_kernel \<Rightarrow> rn_store \<Rightarrow> free_list \<Rightarrow> bool" where
  "shape_ok K h fl \<longleftrightarrow> tree_ok K h (unat (block_start fl)) (unat (block_end fl) + 1) (block_free_tree fl) \<and>
     0 < unat (block_start fl) \<and> unat (block_end fl) < 2 ^ 31 \<and>
     first_node fl = hd_opt (ids fl) \<and> last_node fl = last_opt (ids fl) \<and> num_blocknode fl = of_nat (length (ids fl))"

definition list_ok :: "rb_kernel \<Rightarrow> rn_store \<Rightarrow> free_list \<Rightarrow> bool" where
  "list_ok K h fl \<longleftrightarrow> shape_ok K h fl \<and> unat (num_free_blocks fl) = card (free_of h fl)"

lemma shape_okD:
  assumes "shape_ok K h fl"
  shows "tree_ok K h (unat (block_start fl)) (unat (block_end fl) + 1) (block_free_tree fl)"
    "0 < unat (block_start fl)" "unat (block_end fl) < 2 ^ 31" "first_node fl = hd_opt (ids fl)" "last_node fl = last_opt (ids fl)"
    "num_blocknode fl = of_nat (length (ids fl))"
  using assms by (simp_all add: shape_ok_def)

lemma free_of_range: "shape_ok K h fl \<Longrightarrow> free_of h fl \<subseteq> {unat (block_start fl)..unat (block_end fl)}"
  using ranges_sub [OF tree_okD(2) [OF shape_okD(1) refl], of K h fl] by fastforce

lemma node_bounds:
  assumes "shape_ok K h fl" "x \<in> set (ids fl)"
  shows "unat (block_start fl) \<le> lo h x" "lo h x \<le> hi h x" "hi h x \<le> unat (block_end fl)" "0 < lo h x" "hi h x < 2 ^ 31"
  using ranges_mem [OF tree_okD(2) [OF shape_okD(1) [OF assms(1)] refl] assms(2)] shape_okD(2,3) [OF assms(1)] by simp_all

text \<open>What an operation on a list keeps: the bounds of the list, and every node that is not one of its own.\<close>

definition relist :: "nat option \<Rightarrow> rn_store \<Rightarrow> free_list \<Rightarrow> rn_store \<Rightarrow> free_list \<Rightarrow> bool" where
  "relist new h fl h' fl' \<longleftrightarrow> block_start fl' = block_start fl \<and> block_end fl' = block_end fl \<and>
     set (ids fl') \<subseteq> set (ids fl) \<union> set_option new \<and> (\<forall>x. x \<notin> set (ids fl) \<union> set_option new \<longrightarrow> h' x = h x)"

lemma relist_refl [simp]: "relist new h fl h fl" by (auto simp: relist_def)

lemma shape_okI:
  assumes "shape_ok K h fl" "block_start fl' = block_start fl" "block_end fl' = block_end fl"
    "tree_ok K h' (unat (block_start fl)) (unat (block_end fl) + 1) (block_free_tree fl')"
    "first_node fl' = hd_opt (ids fl')" "last_node fl' = last_opt (ids fl')" "num_blocknode fl' = of_nat (length (ids fl'))"
  shows "shape_ok K h' fl'"
  using assms by (simp add: shape_ok_def)

lemma shape_cong:
  assumes "\<And>x. x \<in> set (ids fl) \<Longrightarrow> h' x = h x"
  shows "shape_ok K h' fl = shape_ok K h fl" "free_of h' fl = free_of h fl" "list_ok K h' fl = list_ok K h fl"
proof -
  show s: "shape_ok K h' fl = shape_ok K h fl" using tree_ok_cong [of "block_free_tree fl" h' h] assms by (simp add: shape_ok_def)
  show c: "free_of h' fl = free_of h fl" using assms by (rule covered_cong)
  show "list_ok K h' fl = list_ok K h fl" using s c by (simp add: list_ok_def)
qed

section \<open>Freeing\<close>

lemma touch_left:
  fixes a b :: u64
  assumes "unat b < 2 ^ 31"
  shows "a = b + 1 \<longleftrightarrow> unat a = unat b + 1"
  using assms by (simp add: word_unat_eq_iff unat_add_less)

definition freed_to :: "rb_kernel \<Rightarrow> nat \<Rightarrow> nat set \<Rightarrow> rn_store \<Rightarrow> free_list \<Rightarrow> rn_store \<Rightarrow> free_list \<Rightarrow> bool" where
  "freed_to K cur B h fl h' fl' \<longleftrightarrow> shape_ok K h' fl' \<and> free_of h' fl' = free_of h fl \<union> B \<and>
     relist (Some cur) h fl h' fl' \<and> num_free_blocks fl' = num_free_blocks fl"

text \<open>The four ways a range can be placed.\<close>

lemma freed_resize:
  assumes s: "shape_ok K h fl" and i: "ids fl = us @ x # vs" and h': "h' = put_node K x f h"
    and lo: "if us = [] then unat (block_start fl) \<le> lo h' x else hi h (last us) + 2 \<le> lo h' x"
    and hi: "lo h' x \<le> hi h' x" "if vs = [] then hi h' x \<le> unat (block_end fl) else hi h' x + 2 \<le> lo h (hd vs)"
  shows "shape_ok K h' fl" "free_of h' fl = covered h us \<union> {lo h' x..hi h' x} \<union> covered h vs" "relist new h fl h' fl"
proof -
  have hi': "if vs = [] then hi h' x < unat (block_end fl) + 1 else hi h' x + 2 \<le> lo h (hd vs)"
    using hi(2) by (cases "vs = []") simp_all
  note r = tree_ok_resize [OF shape_okD(1) [OF s] i h' lo hi(1) hi']
  show "shape_ok K h' fl" using s r(1) by (simp add: shape_ok_def)
  show "free_of h' fl = covered h us \<union> {lo h' x..hi h' x} \<union> covered h vs" by (rule r(2))
  show "relist new h fl h' fl" using i h' by (auto simp: relist_def)
qed

lemma freed_left:
  assumes s: "shape_ok K h fl" and i: "ids fl = us @ p # vs" and low: "unat low = hi h p + 1"
    and b: "unat low \<le> unat high" "unat high \<le> unat (block_end fl)" "unat n = unat high - unat low + 1"
    and gap: "vs \<noteq> [] \<Longrightarrow> unat high + 2 \<le> lo h (hd vs)"
  shows "freed_to K cur {unat low..unat high} h fl (put_node K p (\<lambda>m. m\<lparr>range_high := range_high m + n\<rparr>) h) fl"
proof -
  let ?h = "put_node K p (\<lambda>m. m\<lparr>range_high := range_high m + n\<rparr>) h"
  note nb = node_bounds [OF s, of p] and sd = shape_okD [OF s]
  have "hi h p + unat n = unat high" using b low by simp
  moreover from this have "unat (range_high (h p) + n) = hi h p + unat n" using b(2) sd(3) by (intro unat_add_less) simp
  ultimately have hi': "hi ?h p = unat high" by simp
  have r: "ranges_ok h (unat (block_start fl)) (unat (block_end fl) + 1) (us @ p # vs)" by (rule tree_okD(2) [OF sd(1) i])
  have lo: "if us = [] then unat (block_start fl) \<le> lo ?h p else hi h (last us) + 2 \<le> lo ?h p"
    using ranges_split(1) [OF r, of "last us"] nb i by (cases "us = []") simp_all
  have le: "lo ?h p \<le> hi ?h p" using hi' nb(2) i low b(1) by simp
  have top: "if vs = [] then hi ?h p \<le> unat (block_end fl) else hi ?h p + 2 \<le> lo h (hd vs)" using hi' b(2) gap by simp
  note f = freed_resize [OF s i refl lo le top]
  have "{lo ?h p..hi ?h p} = {lo h p..hi h p} \<union> {unat low..unat high}" using hi' low b(1) nb(2) i by auto
  then have "free_of ?h fl = free_of h fl \<union> {unat low..unat high}" using f(2) by (auto simp: i)
  then show ?thesis using f(1) f(3) [of "Some cur"] by (simp add: freed_to_def)
qed

lemma freed_right:
  assumes s: "shape_ok K h fl" and i: "ids fl = us @ q # vs" and high: "unat high + 1 = lo h q"
    and b: "unat low \<le> unat high" "unat (block_start fl) \<le> unat low" "unat n = unat high - unat low + 1"
    and gap: "us \<noteq> [] \<Longrightarrow> hi h (last us) + 2 \<le> unat low"
  shows "freed_to K cur {unat low..unat high} h fl (put_node K q (\<lambda>m. m\<lparr>range_low := range_low m - n\<rparr>) h) fl"
proof -
  let ?h = "put_node K q (\<lambda>m. m\<lparr>range_low := range_low m - n\<rparr>) h"
  note nb = node_bounds [OF s, of q] and sd = shape_okD [OF s]
  have "unat n \<le> lo h q" "lo h q - unat n = unat low" using b high by simp_all
  then have lo': "lo ?h q = unat low" by (simp add: unat_sub_le)
  have r: "ranges_ok h (unat (block_start fl)) (unat (block_end fl) + 1) (us @ q # vs)" by (rule tree_okD(2) [OF sd(1) i])
  have lo: "if us = [] then unat (block_start fl) \<le> lo ?h q else hi h (last us) + 2 \<le> lo ?h q" using lo' b(2) gap by simp
  have le: "lo ?h q \<le> hi ?h q" using lo' nb(2) i high b(1) by simp
  have top: "if vs = [] then hi ?h q \<le> unat (block_end fl) else hi ?h q + 2 \<le> lo h (hd vs)"
    using ranges_split(2) [OF r, of "hd vs"] nb i by (cases "vs = []") simp_all
  note f = freed_resize [OF s i refl lo le top]
  have "{lo ?h q..hi ?h q} = {lo h q..hi h q} \<union> {unat low..unat high}" using lo' high b(1) nb(2) i by auto
  then have "free_of ?h fl = free_of h fl \<union> {unat low..unat high}" using f(2) by (auto simp: i)
  then show ?thesis using f(1) f(3) [of "Some cur"] by (simp add: freed_to_def)
qed

lemma freed_join:
  fixes K :: rb_kernel
  assumes K: "rb_ok K" and s: "shape_ok K h fl" and i: "ids fl = us @ p # q # vs"
    and low: "unat low = hi h p + 1" and high: "unat high + 1 = lo h q" and b: "unat low \<le> unat high"
  defines "h' \<equiv> put_node K p (\<lambda>m. m\<lparr>range_high := range_high (h q)\<rparr>) h"
    and "fl' \<equiv> fl\<lparr>block_free_tree := rb_erase K q (block_free_tree fl), num_blocknode := num_blocknode fl - 1,
      last_node := (if last_node fl = Some q then Some p else last_node fl)\<rparr>"
  shows "freed_to K cur {unat low..unat high} h fl h' fl'"
proof -
  note sd = shape_okD [OF s]
  have i2: "ids fl = (us @ [p]) @ q # vs" using i by simp
  note d = tree_okD(1) [OF sd(1) i]
  have i': "ids fl' = (us @ [p]) @ vs" using erase_mid [OF K i2] d i by (simp add: fl'_def)
  have s': "shape_ok K h fl'"
  proof (rule shape_okI [OF s])
    show "tree_ok K h (unat (block_start fl)) (unat (block_end fl) + 1) (block_free_tree fl')"
      by (rule tree_ok_erase(1) [OF sd(1) i2 i'])
    show "first_node fl' = hd_opt (ids fl')" using sd(4) i i' by (cases us) (simp_all add: fl'_def)
    show "last_node fl' = last_opt (ids fl')" using sd(5) i i' d by (cases "vs = []") (auto simp: fl'_def)
    show "num_blocknode fl' = of_nat (length (ids fl'))" using sd(6) i i' by (simp add: fl'_def)
  qed (simp_all add: fl'_def)
  have r: "ranges_ok h (unat (block_start fl)) (unat (block_end fl) + 1) ((us @ [p]) @ q # vs)" using tree_okD(2) [OF sd(1) i2] .
  have r': "ranges_ok h (unat (block_start fl)) (unat (block_end fl) + 1) (us @ p # (q # vs))" using r by simp
  have nb: "unat (block_start fl) \<le> lo h p" "lo h p \<le> hi h p" "lo h q \<le> hi h q" "hi h q \<le> unat (block_end fl)"
    using node_bounds [OF s, of p] node_bounds [OF s, of q] i by simp_all
  have f: "lo h' p = lo h p" "hi h' p = hi h q" by (simp_all add: h'_def)
  have i'': "ids fl' = us @ p # vs" and be: "block_start fl' = block_start fl" "block_end fl' = block_end fl"
    using i' by (simp_all add: fl'_def)
  have lo: "if us = [] then unat (block_start fl') \<le> lo h' p else hi h (last us) + 2 \<le> lo h' p"
    using ranges_split(1) [OF r', of "last us"] nb(1) f(1) be by (cases "us = []") simp_all
  have le: "lo h' p \<le> hi h' p" using f nb low high b by simp
  have top: "if vs = [] then hi h' p \<le> unat (block_end fl') else hi h' p + 2 \<le> lo h (hd vs)"
    using ranges_split(2) [OF r, of "hd vs"] nb(4) f(2) be by (cases "vs = []") simp_all
  note g = freed_resize [OF s' i'' h'_def [THEN meta_eq_to_obj_eq] lo le top]
  have "{lo h' p..hi h' p} = {lo h p..hi h p} \<union> {unat low..unat high} \<union> {lo h q..hi h q}"
    using f low high b nb by auto
  then have "free_of h' fl' = free_of h fl \<union> {unat low..unat high}" using g(2) i by auto
  moreover have "relist (Some cur) h fl h' fl'" using i i' by (auto simp: relist_def fl'_def h'_def put_node_def)
  ultimately show ?thesis using g(1) by (simp add: freed_to_def fl'_def)
qed

lemma freed_insert:
  assumes K: "rb_ok K" and s: "shape_ok K h fl" and cur: "cur \<notin> set (ids fl)"
    and b: "unat (block_start fl) \<le> unat low" "unat low \<le> unat high" "unat high \<le> unat (block_end fl)"
    and i: "ids fl = us @ vs" and c: "cut_at h (unat low) us vs"
    and gap: "us \<noteq> [] \<Longrightarrow> hi h (last us) + 2 \<le> unat low" "vs \<noteq> [] \<Longrightarrow> unat high + 2 \<le> lo h (hd vs)"
  shows "\<exists>h' fl'. insert_cur K cur low high (last_opt us) (hd_opt vs) h fl = (0, h', fl') \<and>
    freed_to K cur {unat low..unat high} h fl h' fl'"
proof -
  let ?h = "put_node K cur (\<lambda>m. m\<lparr>range_low := low, range_high := high\<rparr>) h"
  note sd = shape_okD [OF s]
  have f: "lo ?h cur = unat low" "hi ?h cur = unat high" by simp_all
  have same: "?h y = h y" if "y \<in> set (us @ vs)" for y using that cur i by (auto simp: put_node_def)
  have "cut_at ?h (lo ?h cur) us vs" using c f same by (simp add: cut_at_def)
  moreover have "\<forall>y \<in> set (us @ vs). lo ?h y \<le> hi ?h y" using node_bounds(2) [OF s] same i by simp
  ultimately obtain t' where t': "nova_insert_range_node K ?h (block_free_tree fl) cur NODE_BLOCK = (0, t')" "inorder t' = us @ cur # vs"
    using insert_range_node_ok [OF K _ i, of NODE_BLOCK ?h cur] by auto
  let ?fl = "fl\<lparr>block_free_tree := t', first_node := (if last_opt us = None then Some cur else first_node fl),
    last_node := (if hd_opt vs = None then Some cur else last_node fl), num_blocknode := num_blocknode fl + 1\<rparr>"
  have run: "insert_cur K cur low high (last_opt us) (hd_opt vs) h fl = (0, ?h, ?fl)"
    using t'(1) by (simp add: insert_cur_def nova_insert_blocktree_def Let_def del: put_node_simps)
  have lo: "if us = [] then unat (block_start fl) \<le> lo ?h cur else hi h (last us) + 2 \<le> lo ?h cur" using f(1) b(1) gap(1) by simp
  have le: "lo ?h cur \<le> hi ?h cur" using f b(2) by simp
  have top: "if vs = [] then hi ?h cur < unat (block_end fl) + 1 else hi ?h cur + 2 \<le> lo h (hd vs)"
    using f(2) b(3) gap(2) by simp
  have cx: "nova_range_node_checksum_ok K (?h cur)" by simp
  note ti = tree_ok_insert [OF sd(1) i t'(2) cur same cx lo le top]
  have "shape_ok K ?h ?fl"
  proof (rule shape_okI [OF s])
    show "first_node ?fl = hd_opt (ids ?fl)" using sd(4) i t'(2) by (cases us) simp_all
    show "last_node ?fl = last_opt (ids ?fl)" using sd(5) i t'(2) by (cases "vs = []") simp_all
    show "num_blocknode ?fl = of_nat (length (ids ?fl))" using sd(6) i t'(2) by simp
    show "tree_ok K ?h (unat (block_start fl)) (unat (block_end fl) + 1) (block_free_tree ?fl)" using ti(1) by simp
  qed simp_all
  moreover have "relist (Some cur) h fl ?h ?fl" using i t'(2) by (auto simp: relist_def put_node_def)
  moreover have "free_of ?h ?fl = free_of h fl \<union> {unat low..unat high}" using ti(2) f by simp
  ultimately have "freed_to K cur {unat low..unat high} h fl ?h ?fl" by (simp add: freed_to_def)
  with run show ?thesis by blast
qed

lemma free_place_ok:
  assumes K: "rb_ok K" and s: "shape_ok K h fl" and cur: "cur \<notin> set (ids fl)"
    and b: "unat (block_start fl) \<le> unat low" "unat low \<le> unat high" "unat high \<le> unat (block_end fl)"
    and n: "unat n = unat high - unat low + 1"
    and i: "ids fl = us @ vs" and c: "cut_at h (unat low) us vs" "\<forall>y \<in> set vs. unat high < lo h y"
  shows "\<exists>h' fl'. free_place K cur low high n (last_opt us) (hd_opt vs) h fl = (0, h', fl') \<and>
    freed_to K cur {unat low..unat high} h fl h' fl'"
proof -
  let ?t = "block_free_tree fl" and ?p = "unat (block_start fl)" and ?e = "unat (block_end fl) + 1"
  let ?R = "{unat low..unat high}"
  note sd = shape_okD [OF s] and nb = node_bounds [OF s]
  note t = sd(1)
  have dst: "distinct (us @ vs)" using tree_okD(1) [OF t i] .
  have b31: "unat high < 2 ^ 31" using b sd(3) by simp
  define L where "L \<longleftrightarrow> us \<noteq> [] \<and> unat low = hi h (last us) + 1"
  define R where "R \<longleftrightarrow> vs \<noteq> [] \<and> unat high + 1 = lo h (hd vs)"
  have left: "(last_opt us \<noteq> None \<and> low = range_high (h (the (last_opt us))) + 1) = L"
    using nb(5) [of "last us"] i touch_left [of "range_high (h (last us))" low] by (cases "us = []") (simp_all add: L_def)
  have right: "(hd_opt vs \<noteq> None \<and> high + 1 = range_low (h (the (hd_opt vs)))) = R"
    using touch_left [OF b31, of "range_low (h (hd vs))"] by (cases "vs = []") (auto simp: R_def)
  have fp: "free_place K cur low high n (last_opt us) (hd_opt vs) h fl =
      (if L \<and> R then
         (0, put_node K (last us) (\<lambda>m. m\<lparr>range_high := range_high (h (hd vs))\<rparr>) h,
          fl\<lparr>block_free_tree := rb_erase K (hd vs) ?t, num_blocknode := num_blocknode fl - 1,
             last_node := (if last_node fl = hd_opt vs then last_opt us else last_node fl)\<rparr>)
       else if L then (0, put_node K (last us) (\<lambda>m. m\<lparr>range_high := range_high m + n\<rparr>) h, fl)
       else if R then (0, put_node K (hd vs) (\<lambda>m. m\<lparr>range_low := range_low m - n\<rparr>) h, fl)
       else insert_cur K cur low high (last_opt us) (hd_opt vs) h fl)"
    unfolding free_place_def Let_def left right by (auto simp: L_def R_def)
  have us: "hi h (last us) + 2 \<le> unat low" if "us \<noteq> []" "\<not> L"
  proof -
    have "hi h (last us) < unat low" using c(1) that(1) by (simp add: cut_at_def)
    then show ?thesis using that by (simp add: L_def)
  qed
  have vs: "unat high + 2 \<le> lo h (hd vs)" if "vs \<noteq> []" "\<not> R"
  proof -
    have "unat high < lo h (hd vs)" using c(2) that(1) by simp
    then show ?thesis using that by (simp add: R_def)
  qed
  have iL: "ids fl = butlast us @ last us # vs" if L using that i by (simp add: L_def)
  have iR: "ids fl = us @ hd vs # tl vs" if R using that i by (simp add: R_def)
  consider "L" "R" | "L" "\<not> R" | "\<not> L" "R" | "\<not> L" "\<not> R" by blast
  then show ?thesis
  proof cases
    case 1
    then have lr: "unat low = hi h (last us) + 1" "unat high + 1 = lo h (hd vs)" "us \<noteq> []" "vs \<noteq> []" by (simp_all add: L_def R_def)
    have "ids fl = butlast us @ last us # hd vs # tl vs" using i lr by simp
    from freed_join [OF K s this lr(1,2) b(2), of cur] show ?thesis unfolding fp using 1 lr(3,4) by (simp split: if_splits)
  next
    case 2
    then have l: "unat low = hi h (last us) + 1" by (simp add: L_def)
    from freed_left [OF s iL l b(2,3) n vs] 2 show ?thesis unfolding fp by simp
  next
    case 3
    then have h: "unat high + 1 = lo h (hd vs)" by (simp add: R_def)
    from freed_right [OF s iR h b(2,1) n us] 3 show ?thesis unfolding fp by simp
  next
    case 4
    from freed_insert [OF K s cur b i c(1) us vs] 4 show ?thesis unfolding fp by simp
  qed
qed

end
