(* ===== verification/Nova_Balloc_Free.thy ===== *)
theory Nova_Balloc_Free
  imports Nova_Balloc_Inv
begin

unbundle bit_operations_syntax

text \<open>
  The invariant of all free lists of NOVA together, and the effect of freeing on the set of free blocks.
\<close>

section \<open>All lists\<close>

abbreviation fl_at :: "nova_sb_info \<Rightarrow> nat \<Rightarrow> free_list" where "fl_at sbi i \<equiv> free_lists sbi ! i"

definition nova_ok :: "rb_kernel \<Rightarrow> nova_sb_info \<Rightarrow> bool" where
  "nova_ok K sbi \<longleftrightarrow> 0 < cpus sbi \<and> length (free_lists sbi) = cpus sbi \<and> 0 < unat (per_list_blocks sbi) \<and>
     (\<forall>i < cpus sbi. list_ok K (nodes sbi) (fl_at sbi i) \<and>
        unat (per_list_blocks sbi) * i \<le> unat (block_start (fl_at sbi i)) \<and>
        unat (block_end (fl_at sbi i)) < unat (per_list_blocks sbi) * Suc i) \<and>
     (\<forall>i < cpus sbi. \<forall>j < cpus sbi. i \<noteq> j \<longrightarrow> set (ids (fl_at sbi i)) \<inter> set (ids (fl_at sbi j)) = {})"

lemma nova_okD:
  assumes "nova_ok K sbi"
  shows "0 < cpus sbi" "length (free_lists sbi) = cpus sbi" "0 < unat (per_list_blocks sbi)"
    "i < cpus sbi \<Longrightarrow> list_ok K (nodes sbi) (fl_at sbi i)"
    "i < cpus sbi \<Longrightarrow> unat (per_list_blocks sbi) * i \<le> unat (block_start (fl_at sbi i))"
    "i < cpus sbi \<Longrightarrow> unat (block_end (fl_at sbi i)) < unat (per_list_blocks sbi) * Suc i"
    "i < cpus sbi \<Longrightarrow> j < cpus sbi \<Longrightarrow> i \<noteq> j \<Longrightarrow> set (ids (fl_at sbi i)) \<inter> set (ids (fl_at sbi j)) = {}"
  using assms unfolding nova_ok_def by blast+

definition nova_free :: "nova_sb_info \<Rightarrow> nat set" where
  "nova_free sbi = (\<Union>i < cpus sbi. free_of (nodes sbi) (fl_at sbi i))"

definition fresh :: "nat \<Rightarrow> nova_sb_info \<Rightarrow> bool" where
  "fresh x sbi \<longleftrightarrow> (\<forall>i < cpus sbi. x \<notin> set (ids (fl_at sbi i)))"

definition zone :: "nova_sb_info \<Rightarrow> nat \<Rightarrow> nat set" where
  "zone sbi i = {unat (block_start (fl_at sbi i))..unat (block_end (fl_at sbi i))}"

lemma zones_disjoint:
  assumes ok: "nova_ok K sbi" and i: "i < cpus sbi" "j < cpus sbi" "i \<noteq> j"
  shows "zone sbi i \<inter> zone sbi j = {}"
proof -
  let ?p = "unat (per_list_blocks sbi)"
  note d = nova_okD [OF ok]
  have "zone sbi a \<inter> zone sbi b = {}" if "a < b" "b < cpus sbi" for a b
  proof -
    have "?p * Suc a \<le> ?p * b" using that(1) by (intro mult_le_mono) simp_all
    then have "unat (block_end (fl_at sbi a)) < unat (block_start (fl_at sbi b))"
      using d(6) [of a] d(5) [of b] that by linarith
    then show ?thesis by (auto simp: zone_def)
  qed
  then show ?thesis using i by (cases "i < j") (blast, metis linorder_neqE_nat Int_commute)
qed

lemma free_in_zone:
  assumes "nova_ok K sbi" "i < cpus sbi"
  shows "free_of (nodes sbi) (fl_at sbi i) \<subseteq> zone sbi i"
  using free_of_range [of K "nodes sbi" "fl_at sbi i"] nova_okD(4) [OF assms] by (simp add: zone_def list_ok_def)

lemma nova_free_zone:
  assumes ok: "nova_ok K sbi" and i: "i < cpus sbi"
  shows "nova_free sbi \<inter> zone sbi i = free_of (nodes sbi) (fl_at sbi i)"
proof -
  have "free_of (nodes sbi) (fl_at sbi j) \<inter> zone sbi i = {}" if "j < cpus sbi" "j \<noteq> i" for j
    using free_in_zone [OF ok that(1)] zones_disjoint [OF ok that(1) i that(2)] by blast
  then show ?thesis using free_in_zone [OF ok i] i by (auto simp: nova_free_def)
qed

text \<open>One list is replaced by the outcome of an operation on it.\<close>

lemma replace_list:
  fixes sbi :: nova_sb_info
  assumes ok: "nova_ok K sbi" and i: "i < cpus sbi" and l: "list_ok K h' fl'"
    and r: "relist new (nodes sbi) (fl_at sbi i) h' fl'" and f: "\<And>x. new = Some x \<Longrightarrow> fresh x sbi"
  defines "sbi' \<equiv> set_list i fl' (sbi\<lparr>nodes := h'\<rparr>)"
  shows "nova_ok K sbi'" "nova_free sbi' = nova_free sbi - zone sbi i \<union> free_of h' fl'"
    "fl_at sbi' i = fl'" "j \<noteq> i \<Longrightarrow> fl_at sbi' j = fl_at sbi j"
    "j < cpus sbi \<Longrightarrow> j \<noteq> i \<Longrightarrow> free_of h' (fl_at sbi j) = free_of (nodes sbi) (fl_at sbi j)"
proof -
  note d = nova_okD [OF ok]
  have len: "i < length (free_lists sbi)" using i d(2) by simp
  show at: "fl_at sbi' i = fl'" "j \<noteq> i \<Longrightarrow> fl_at sbi' j = fl_at sbi j" for j
    using len by (simp_all add: sbi'_def set_list_def)
  have own: "x \<notin> set (ids (fl_at sbi i)) \<union> set_option new" if "j < cpus sbi" "j \<noteq> i" "x \<in> set (ids (fl_at sbi j))" for j x
    using d(7) [OF that(1) i that(2)] f that by (auto simp: fresh_def)
  have same: "h' x = nodes sbi x" if "j < cpus sbi" "j \<noteq> i" "x \<in> set (ids (fl_at sbi j))" for j x
    using own [OF that] r by (simp add: relist_def)
  have cong: "list_ok K h' (fl_at sbi j) = list_ok K (nodes sbi) (fl_at sbi j)"
    "free_of h' (fl_at sbi j) = free_of (nodes sbi) (fl_at sbi j)" if "j < cpus sbi" "j \<noteq> i" for j
    using shape_cong [of "fl_at sbi j" h' "nodes sbi"] same [OF that] by simp_all
  show "free_of h' (fl_at sbi j) = free_of (nodes sbi) (fl_at sbi j)" if "j < cpus sbi" "j \<noteq> i" for j
    using cong(2) [OF that] .
  have fields: "cpus sbi' = cpus sbi" "per_list_blocks sbi' = per_list_blocks sbi" "nodes sbi' = h'" "length (free_lists sbi') = length (free_lists sbi)"
    by (simp_all add: sbi'_def set_list_def)
  have bounds: "block_start (fl_at sbi' j) = block_start (fl_at sbi j)" "block_end (fl_at sbi' j) = block_end (fl_at sbi j)" for j
    using at(1) at(2) [of j] r by (cases "j = i"; simp add: relist_def)+
  have "set (ids (fl_at sbi' a)) \<inter> set (ids (fl_at sbi' b)) = {}" if "a < cpus sbi" "b < cpus sbi" "a \<noteq> b" for a b
  proof -
    have "set (ids fl') \<inter> set (ids (fl_at sbi j)) = {}" if "j < cpus sbi" "j \<noteq> i" for j
      using own [OF that] r by (auto simp: relist_def)
    then show ?thesis using at(1) at(2) [of a] at(2) [of b] d(7) [OF that] that by (cases "a = i"; cases "b = i") auto
  qed
  moreover have "list_ok K h' (fl_at sbi' j)" if "j < cpus sbi" for j
    using cong(1) [OF that] at(1) at(2) [of j] l d(4) [OF that] by (cases "j = i") simp_all
  ultimately show "nova_ok K sbi'"
    using d(1-3,5,6) bounds fields unfolding nova_ok_def by simp
  have eq: "nova_free sbi' = free_of h' fl' \<union> (\<Union>j \<in> {..<cpus sbi} - {i}. free_of (nodes sbi) (fl_at sbi j))"
    proof -
    have "free_of h' (fl_at sbi' j) = free_of (nodes sbi) (fl_at sbi j)" if "j < cpus sbi" "j \<noteq> i" for j
      using at(2) [OF that(2)] cong(2) [OF that] by simp
    then have "(\<Union>j \<in> {..<cpus sbi} - {i}. free_of h' (fl_at sbi' j)) =
        (\<Union>j \<in> {..<cpus sbi} - {i}. free_of (nodes sbi) (fl_at sbi j))" by (intro SUP_cong) simp_all
    moreover have "nova_free sbi' = free_of h' fl' \<union> (\<Union>j \<in> {..<cpus sbi} - {i}. free_of h' (fl_at sbi' j))"
      unfolding nova_free_def fields using at(1) i by blast
    ultimately show ?thesis by (rule trans [OF _ arg_cong [of _ _ "\<lambda>X. free_of h' fl' \<union> X"], rotated])
  qed
  have "free_of (nodes sbi) (fl_at sbi j) \<inter> zone sbi i = {}" if "j < cpus sbi" "j \<noteq> i" for j
    using free_in_zone [OF ok that(1)] zones_disjoint [OF ok that(1) i that(2)] by blast
  then have "nova_free sbi - zone sbi i = (\<Union>j \<in> {..<cpus sbi} - {i}. free_of (nodes sbi) (fl_at sbi j))"
    using free_in_zone [OF ok i] by (auto simp: nova_free_def)
  with eq show "nova_free sbi' = nova_free sbi - zone sbi i \<union> free_of h' fl'" by blast
qed

definition same_zones :: "nova_sb_info \<Rightarrow> nova_sb_info \<Rightarrow> bool" where
  "same_zones sbi sbi' \<longleftrightarrow> cpus sbi' = cpus sbi \<and> (\<forall>i. zone sbi' i = zone sbi i)"

lemma same_zones_simps [simp]: "same_zones sbi sbi" "same_zones sbi (sbi\<lparr>nodes := h\<rparr>)" "same_zones sbi (sbi\<lparr>nvmm := m\<rparr>)"
  by (simp_all add: same_zones_def zone_def)

lemma same_zones_trans: "same_zones a b \<Longrightarrow> same_zones b c \<Longrightarrow> same_zones a c"
  by (simp add: same_zones_def)

lemma replace_zones:
  assumes "relist new h (fl_at sbi i) h' fl'" "i < length (free_lists sbi)"
  shows "same_zones sbi (set_list i fl' (sbi\<lparr>nodes := h'\<rparr>))"
proof -
  have "zone (set_list i fl' (sbi\<lparr>nodes := h'\<rparr>)) j = zone sbi j" for j
    using assms by (cases "j = i") (simp_all add: zone_def set_list_def relist_def)
  then show ?thesis by (simp add: same_zones_def set_list_def)
qed

section \<open>Freeing\<close>

lemma nova_numblocks: "0 < unat (nova_get_numblocks btype)" "unat (nova_get_numblocks btype) \<le> 2 ^ 18"
  by (simp_all add: nova_get_numblocks_def)

lemma unat_of_int: "0 \<le> z \<Longrightarrow> nat z < 2 ^ 64 \<Longrightarrow> unat (of_int z :: u64) = nat z"
  using unat_of_nat_less [of "nat z", where 'a = 64] by simp

lemma free_len:
  assumes "0 < num" "num < 2 ^ 31"
  shows "unat (of_int num :: u64) = nat num" "unat (nova_get_numblocks btype * of_int num) = unat (nova_get_numblocks btype) * nat num"
proof -
  have n: "nat num < 2 ^ 31" using assms by simp
  then show u: "unat (of_int num :: u64) = nat num" using assms(1) by (intro unat_of_int) simp_all
  have "unat (nova_get_numblocks btype) * nat num < 2 ^ 18 * 2 ^ 31 + 1" using nova_numblocks(2) n by (intro le_imp_less_Suc [unfolded Suc_eq_plus1] mult_le_mono) simp_all
  then show "unat (nova_get_numblocks btype * of_int num) = unat (nova_get_numblocks btype) * nat num"
    using u by (simp add: unat_word_ariths)
qed

lemma list_of_block_zone:
  assumes ok: "nova_ok K sbi" and i: "i < cpus sbi" and b: "unat b \<in> zone sbi i"
  shows "list_of_block b sbi = i"
proof -
  note d = nova_okD [OF ok]
  let ?p = "unat (per_list_blocks sbi)"
  have "?p * i \<le> unat b" "unat b < ?p * Suc i" using d(5,6) [OF i] b by (auto simp: zone_def)
  then have q: "unat b div ?p = i" by (rule div_nat_eqI)
  have "unat b < 2 ^ 31" using b d(4) [OF i] by (auto simp: zone_def list_ok_def shape_ok_def)
  then have "unat b div ?p < 2 ^ 32" by (rule le_less_trans [OF div_le_dividend less_trans]) simp
  moreover have "unat (b div per_list_blocks sbi) = unat b div ?p" by (simp add: unat_div)
  ultimately show ?thesis using q by (simp add: list_of_block_def unsigned_ucast_eq take_bit_nat_eq_self)
qed

lemma count_free_fields [simp]:
  "block_free_tree (count_free l n fl) = block_free_tree fl" "first_node (count_free l n fl) = first_node fl"
  "last_node (count_free l n fl) = last_node fl" "block_start (count_free l n fl) = block_start fl"
  "block_end (count_free l n fl) = block_end fl" "num_blocknode (count_free l n fl) = num_blocknode fl"
  "num_free_blocks (count_free l n fl) = num_free_blocks fl + n"
  by (simp_all add: count_free_def Let_def)

lemma count_free_ok:
  assumes l: "list_ok K h fl" and f: "freed_to K cur {a..b} h fl h' fl'" and d: "free_of h fl \<inter> {a..b} = {}" "a \<le> b" and n: "unat n = b - a + 1"
  shows "list_ok K h' (count_free log n fl')" "relist (Some cur) h fl h' (count_free log n fl')"
    "free_of h' (count_free log n fl') = free_of h fl \<union> {a..b}"
proof -
  have s: "shape_ok K h' fl'" and fr: "free_of h' fl' = free_of h fl \<union> {a..b}" and r: "relist (Some cur) h fl h' fl'"
    and nf: "num_free_blocks fl' = num_free_blocks fl" using f by (simp_all add: freed_to_def)
  show "relist (Some cur) h fl h' (count_free log n fl')" using r by (simp add: relist_def)
  show "free_of h' (count_free log n fl') = free_of h fl \<union> {a..b}" using fr by simp
  have c: "card (free_of h' fl') = card (free_of h fl) + (b - a + 1)" unfolding fr using d by (subst card_Un_disjoint) simp_all
  have "card (free_of h' fl') \<le> card {unat (block_start fl')..unat (block_end fl')}"
    by (rule card_mono [OF _ free_of_range [OF s]]) simp
  also have "\<dots> < 2 ^ 32" using shape_okD(2,3) [OF s] by simp
  finally have "unat (num_free_blocks fl' + n) = card (free_of h' fl')"
    using l nf c n by (subst unat_add_less) (simp_all add: list_ok_def)
  then show "list_ok K h' (count_free log n fl')" using s by (simp add: list_ok_def shape_ok_def)
qed

lemma zalloc_same: "fresh x sbi \<Longrightarrow> i < cpus sbi \<Longrightarrow> y \<in> set (ids (fl_at sbi i)) \<Longrightarrow> ((nodes sbi)(x := n)) y = nodes sbi y"
  by (auto simp: fresh_def)

lemma zalloc_ok:
  assumes ok: "nova_ok K sbi" and f: "fresh x sbi"
  shows "nova_ok K (sbi\<lparr>nodes := (nodes sbi)(x := n)\<rparr>)" "nova_free (sbi\<lparr>nodes := (nodes sbi)(x := n)\<rparr>) = nova_free sbi"
proof -
  let ?h = "(nodes sbi)(x := n)"
  have c: "list_ok K ?h (fl_at sbi i) = list_ok K (nodes sbi) (fl_at sbi i)" "free_of ?h (fl_at sbi i) = free_of (nodes sbi) (fl_at sbi i)"
    if "i < cpus sbi" for i
    using shape_cong [of "fl_at sbi i" ?h "nodes sbi"] zalloc_same [OF f that] by blast+
  show "nova_ok K (sbi\<lparr>nodes := ?h\<rparr>)" using ok c(1) by (simp add: nova_ok_def)
  show "nova_free (sbi\<lparr>nodes := ?h\<rparr>) = nova_free sbi" using c(2) by (simp add: nova_free_def)
qed

lemma free_blocks_ok:
  assumes K: "rb_ok K" and ok: "nova_ok K sbi" and f: "fresh cur sbi" and num: "0 < num" "num < 2 ^ 31"
    and len: "len = unat (nova_get_numblocks btype) * nat num"
    and i: "i < cpus sbi" and z: "{unat b..<unat b + len} \<subseteq> zone sbi i" and d: "nova_free sbi \<inter> {unat b..<unat b + len} = {}"
  shows "\<exists>sbi'. nova_free_blocks K (Some cur) b num btype log sbi = Some (0, sbi') \<and> nova_ok K sbi' \<and>
    nova_free sbi' = nova_free sbi \<union> {unat b..<unat b + len} \<and> nvmm sbi' = nvmm sbi \<and> same_zones sbi sbi'"
proof -
  let ?fl = "fl_at sbi i" and ?h = "(nodes sbi)(cur := zalloc_node)" and ?n = "nova_get_numblocks btype * of_int num"
  let ?high = "b + ?n - 1" and ?R = "{unat b..<unat b + len}"
  let ?sbi = "sbi\<lparr>nodes := ?h\<rparr>"
  have lp: "nat num \<le> len" "0 < len" using num len nova_numblocks(1) [of btype] by (simp_all add: Suc_le_eq)
  note u = free_len(1) [OF num] free_len(2) [OF num, of btype]
  have un: "unat ?n = len" using u(2) len by simp
  note nd = nova_okD [OF ok]
  have l: "list_ok K ?h ?fl" and fo: "free_of ?h ?fl = free_of (nodes sbi) ?fl"
    using shape_cong [of ?fl ?h "nodes sbi"] zalloc_same [OF f i] nd(4) [OF i] by simp_all
  have s: "shape_ok K ?h ?fl" using l by (simp add: list_ok_def)
  have ins: "unat b \<in> ?R" "unat b + len - 1 \<in> ?R" using lp(2) by simp_all
  then have zb: "unat b \<in> zone sbi i" "unat b + len - 1 \<in> zone sbi i" using z by blast+
  then have bd: "unat (block_start ?fl) \<le> unat b" "unat b + len - 1 \<le> unat (block_end ?fl)" "unat (block_end ?fl) < 2 ^ 31"
    using shape_okD(3) [OF s] by (simp_all add: zone_def)
  have "unat (b + ?n) = unat b + len" using un bd lp by (subst unat_add_less) simp_all
  then have hi: "unat ?high = unat b + len - 1" using lp(2) by (subst unat_sub_le) simp_all
  have R: "{unat b..unat ?high} = ?R" unfolding hi using lp(2) by auto
  have le: "unat b \<le> unat ?high" "unat ?high \<le> unat (block_end ?fl)" using hi bd(2) lp(2) by simp_all
  have dj: "free_of ?h ?fl \<inter> {unat b..unat ?high} = {}" unfolding R fo using d free_in_zone [OF ok i] nova_free_zone [OF ok i] by blast
  from find_free_slot_ok [OF shape_okD(1) [OF s] le(1) dj] obtain us vs where
    sl: "ids ?fl = us @ vs" "cut_at ?h (unat b) us vs" "\<forall>y \<in> set vs. unat ?high < lo ?h y"
      "nova_find_free_slot K ?h (block_free_tree ?fl) b ?high = Inr (last_opt us, hd_opt vs)" by blast
  have cf: "cur \<notin> set (ids ?fl)" using f i by (simp add: fresh_def)
  have n': "unat ?n = unat ?high - unat b + 1" using un hi lp(2) by simp
  from free_place_ok [OF K s cf bd(1) le n' sl(1-3)] obtain h' fl' where
    fp: "free_place K cur b ?high ?n (last_opt us) (hd_opt vs) ?h ?fl = (0, h', fl')" "freed_to K cur {unat b..unat ?high} ?h ?fl h' fl'" by blast
  note cf' = count_free_ok [OF l fp(2) dj le(1) n', where log = log]
  have "unat (b + of_int num) = unat b + nat num" "unat (block_end ?fl + 1) = unat (block_end ?fl) + 1"
    using u(1) bd lp by (simp_all add: unat_add_less)
  then have chk: "\<not> (b < block_start ?fl \<or> b + of_int num > block_end ?fl + 1)"
    using bd lp by (simp add: word_less_nat_alt)
  have p0: "per_list_blocks sbi \<noteq> 0" using nd(3) by auto
  let ?sbi' = "set_list i (count_free log ?n fl') (sbi\<lparr>nodes := h'\<rparr>)"
  have run: "nova_free_blocks K (Some cur) b num btype log sbi = Some (0, ?sbi')"
    using num(1) p0 list_of_block_zone [OF ok i zb(1)] i nd(2) chk sl(4) fp(1)
    by (simp add: nova_free_blocks_def Let_def del: fun_upd_apply)
  have okz: "nova_ok K ?sbi" by (rule zalloc_ok(1) [OF ok f])
  have "relist (Some cur) (nodes ?sbi) (fl_at ?sbi i) h' (count_free log ?n fl')" using cf'(2) by simp
  from replace_list(1,2) [OF okz _ cf'(1) this] i f
  have r: "nova_ok K (set_list i (count_free log ?n fl') (?sbi\<lparr>nodes := h'\<rparr>))"
    "nova_free (set_list i (count_free log ?n fl') (?sbi\<lparr>nodes := h'\<rparr>)) =
      nova_free ?sbi - zone ?sbi i \<union> free_of h' (count_free log ?n fl')"
    by (simp_all add: fresh_def)
  have e: "?sbi\<lparr>nodes := h'\<rparr> = sbi\<lparr>nodes := h'\<rparr>" by simp
  have "nova_free ?sbi' = nova_free sbi - zone sbi i \<union> (free_of (nodes sbi) ?fl \<union> ?R)"
    using r(2) zalloc_ok(2) [OF ok f] unfolding cf'(3) R fo e by (simp add: zone_def)
  also have "\<dots> = nova_free sbi \<union> ?R" using nova_free_zone [OF ok i] by blast
  finally have "nova_free ?sbi' = nova_free sbi \<union> ?R" .
  moreover have "same_zones sbi ?sbi'" using replace_zones [of "Some cur" ?h sbi i h'] cf'(2) i nd(2) by simp
  ultimately show ?thesis using run r(1) by (simp add: set_list_def)
qed

text \<open>A range whose first block is free already is refused.\<close>

lemma free_blocks_busy:
  assumes ok: "nova_ok K sbi" and f: "fresh cur sbi" and num: "0 < num" "num < 2 ^ 31"
    and len: "len = unat (nova_get_numblocks btype) * nat num"
    and i: "i < cpus sbi" and z: "{unat b..<unat b + len} \<subseteq> zone sbi i" and d: "unat b \<in> nova_free sbi"
  shows "\<exists>sbi'. nova_free_blocks K (Some cur) b num btype log sbi = Some (- EINVAL, sbi') \<and> nova_ok K sbi' \<and>
    nova_free sbi' = nova_free sbi \<and> nvmm sbi' = nvmm sbi"
proof -
  let ?fl = "fl_at sbi i" and ?h = "(nodes sbi)(cur := zalloc_node)" and ?high = "b + nova_get_numblocks btype * of_int num - 1"
  have lp: "nat num \<le> len" "0 < len" using num len nova_numblocks(1) [of btype] by (simp_all add: Suc_le_eq)
  note nd = nova_okD [OF ok]
  have l: "list_ok K ?h ?fl" and fo: "free_of ?h ?fl = free_of (nodes sbi) ?fl"
    using shape_cong [of ?fl ?h "nodes sbi"] zalloc_same [OF f i] nd(4) [OF i] by simp_all
  have s: "shape_ok K ?h ?fl" using l by (simp add: list_ok_def)
  have "unat b \<in> {unat b..<unat b + len}" "unat b + len - 1 \<in> {unat b..<unat b + len}" using lp(2) by simp_all
  then have zb: "unat b \<in> zone sbi i" "unat b + len - 1 \<in> zone sbi i" using z by blast+
  then have bd: "unat (block_start ?fl) \<le> unat b" "unat b + len - 1 \<le> unat (block_end ?fl)" "unat (block_end ?fl) < 2 ^ 31"
    using shape_okD(3) [OF s] by (simp_all add: zone_def)
  have "unat (b + of_int num) = unat b + nat num" "unat (block_end ?fl + 1) = unat (block_end ?fl) + 1"
    using free_len(1) [OF num] bd lp by (simp_all add: unat_add_less)
  then have chk: "\<not> (b < block_start ?fl \<or> b + of_int num > block_end ?fl + 1)"
    using bd lp by (simp add: word_less_nat_alt)
  have "unat b \<in> free_of ?h ?fl" unfolding fo using nova_free_zone [OF ok i] d zb(1) by blast
  then have sl: "nova_find_free_slot K ?h (block_free_tree ?fl) b ?high = Inl (- EINVAL)"
    by (intro find_free_slot_busy [OF shape_okD(1) [OF s]]) simp
  have p0: "per_list_blocks sbi \<noteq> 0" using nd(3) by auto
  have "nova_free_blocks K (Some cur) b num btype log sbi = Some (- EINVAL, sbi\<lparr>nodes := ?h\<rparr>)"
    using num(1) p0 list_of_block_zone [OF ok i zb(1)] i nd(2) chk sl
    by (simp add: nova_free_blocks_def Let_def del: fun_upd_apply)
  then show ?thesis using zalloc_ok [OF ok f] by simp
qed

end
