(* ===== verification/Nova_Balloc_New.thy ===== *)
theory Nova_Balloc_New
  imports Nova_Balloc_Free
begin

unbundle bit_operations_syntax

text \<open>
  Allocation from a free list of NOVA: huge pages, whole nodes and parts of nodes, from either end of the list.
\<close>

section \<open>Taking blocks out of a list\<close>

definition taken_to :: "rb_kernel \<Rightarrow> nat option \<Rightarrow> nat set \<Rightarrow> rn_store \<Rightarrow> free_list \<Rightarrow> rn_store \<Rightarrow> free_list \<Rightarrow> bool" where
  "taken_to K new B h fl h' fl' \<longleftrightarrow> shape_ok K h' fl' \<and> B \<subseteq> free_of h fl \<and> free_of h' fl' = free_of h fl - B \<and>
     relist new h fl h' fl' \<and> num_free_blocks fl' = num_free_blocks fl"

lemma free_split:
  assumes "shape_ok K h fl" "ids fl = us @ x # vs"
  shows "free_of h fl = covered h us \<union> {lo h x..hi h x} \<union> covered h vs"
    "covered h us \<subseteq> {..<lo h x - 1}" "covered h vs \<subseteq> {hi h x + 1<..}"
proof -
  note s = ranges_split [OF tree_okD(2) [OF shape_okD(1) [OF assms(1)] assms(2)]]
  show "free_of h fl = covered h us \<union> {lo h x..hi h x} \<union> covered h vs" using assms(2) by auto
  show "covered h us \<subseteq> {..<lo h x - 1}"
    using s(1) by (intro covered_below) fastforce
  show "covered h vs \<subseteq> {hi h x + 1<..}" using s(2) by (intro covered_above) fastforce
qed

lemma taken_cut:
  fixes K :: rb_kernel
  assumes s: "shape_ok K h fl" and i: "ids fl = us @ x # vs" and h': "h' = put_node K x f h"
    and c: "lo h x \<le> lo h' x" "lo h' x \<le> hi h' x" "hi h' x \<le> hi h x"
  shows "taken_to K new ({lo h x..<lo h' x} \<union> {hi h' x<..hi h x}) h fl h' fl"
proof -
  have r: "ranges_ok h (unat (block_start fl)) (unat (block_end fl) + 1) (us @ x # vs)" by (rule tree_okD(2) [OF shape_okD(1) [OF s] i])
  note nb = node_bounds [OF s, of x] and rs = ranges_split [OF r]
  have lo: "if us = [] then unat (block_start fl) \<le> lo h' x else hi h (last us) + 2 \<le> lo h' x"
    using rs(1) [of "last us"] nb(1) c(1) i by (cases "us = []") auto
  have top: "if vs = [] then hi h' x \<le> unat (block_end fl) else hi h' x + 2 \<le> lo h (hd vs)"
    using rs(2) [of "hd vs"] nb(3) c(3) i by (cases "vs = []") auto
  note f = freed_resize [OF s i h' lo c(2) top] and fs = free_split [OF s i]
  have "free_of h' fl = free_of h fl - ({lo h x..<lo h' x} \<union> {hi h' x<..hi h x})"
  proof -
    have "covered h us \<inter> {lo h x..hi h x} = {}" "covered h vs \<inter> {lo h x..hi h x} = {}" using fs(2,3) by fastforce+
    moreover have "{lo h x..hi h x} - ({lo h x..<lo h' x} \<union> {hi h' x<..hi h x}) = {lo h' x..hi h' x}"
      "{lo h x..<lo h' x} \<union> {hi h' x<..hi h x} \<subseteq> {lo h x..hi h x}" using c by auto
    ultimately show ?thesis unfolding f(2) fs(1) by blast
  qed
  moreover have "{lo h x..<lo h' x} \<union> {hi h' x<..hi h x} \<subseteq> free_of h fl" unfolding fs(1) using c by auto
  ultimately show ?thesis using f(1) f(3) [of new] by (simp add: taken_to_def)
qed

lemma taken_whole:
  assumes K: "rb_ok K" and s: "shape_ok K h fl" and i: "ids fl = us @ x # vs"
  shows "taken_to K new {lo h x..hi h x} h fl h (drop_node K x fl)"
proof -
  note sd = shape_okD [OF s]
  note d = tree_okD(1) [OF sd(1) i]
  have dt: "distinct (ids fl)" using d i by simp
  have i': "ids (drop_node K x fl) = us @ vs" using erase_mid [OF K i dt] by (simp add: drop_node_def)
  note te = tree_ok_erase [OF sd(1) i i'] and rb = rb_neighbours [OF i dt]
  have "shape_ok K h (drop_node K x fl)"
  proof (rule shape_okI [OF s])
    show "tree_ok K h (unat (block_start fl)) (unat (block_end fl) + 1) (block_free_tree (drop_node K x fl))" by (rule te(1))
    show "first_node (drop_node K x fl) = hd_opt (ids (drop_node K x fl))"
      unfolding i' using rb(1) sd(4) i d by (cases us) (auto simp: drop_node_def)
    show "last_node (drop_node K x fl) = last_opt (ids (drop_node K x fl))"
      unfolding i' using rb(2) sd(5) i d by (cases vs rule: rev_cases) (auto simp: drop_node_def)
    show "num_blocknode (drop_node K x fl) = of_nat (length (ids (drop_node K x fl)))"
      unfolding i' using sd(6) i by (simp add: drop_node_def)
  qed (simp_all add: drop_node_def)
  moreover have "relist new h fl h (drop_node K x fl)" using i i' by (auto simp: relist_def drop_node_def)
  moreover have "num_free_blocks (drop_node K x fl) = num_free_blocks fl" by (simp add: drop_node_def)
  ultimately show ?thesis using te(2) free_split(1) [OF s i] by (auto simp: taken_to_def)
qed

section \<open>Ordinary allocation\<close>

lemma cur_blocks:
  assumes "shape_ok K h fl" "x \<in> set (ids fl)"
  shows "unat (range_high (h x) - range_low (h x) + 1) = hi h x - lo h x + 1"
proof -
  note b = node_bounds [OF assms]
  have "unat (range_high (h x) - range_low (h x)) = hi h x - lo h x" using b(2) by (rule unat_sub_le)
  then show ?thesis using b(5) by (subst unat_add_less) simp_all
qed

definition got :: "rb_kernel \<Rightarrow> nat option \<Rightarrow> u64 \<Rightarrow> nat \<Rightarrow> u64 \<Rightarrow> rn_store \<Rightarrow> free_list \<Rightarrow> rn_store \<Rightarrow> free_list \<Rightarrow> bool" where
  "got K new n len nr h fl h' fl' \<longleftrightarrow> 0 < len \<and> len \<le> unat n \<and> taken_to K new {unat nr..<unat nr + len} h fl h' fl'"

lemma alloc_part:
  assumes s: "shape_ok K h fl" and x: "x \<in> set (ids fl)" and n: "0 < unat n" "unat n < hi h x - lo h x + 1"
  shows "got K new n (unat n) (range_low (h x)) h fl (put_node K x (\<lambda>m. m\<lparr>range_low := range_low (h x) + n\<rparr>) h) fl"
    "got K new n (unat n) (range_high (h x) + 1 - n) h fl (put_node K x (\<lambda>m. m\<lparr>range_high := range_high (h x) - n\<rparr>) h) fl"
proof -
  obtain us vs where i: "ids fl = us @ x # vs" using x by (meson split_list)
  note b = node_bounds [OF s x]
  have "unat (range_low (h x) + n) = lo h x + unat n" using n b(2,5) by (subst unat_add_less) simp_all
  then have f: "lo (put_node K x (\<lambda>m. m\<lparr>range_low := range_low (h x) + n\<rparr>) h) x = lo h x + unat n"
    "hi (put_node K x (\<lambda>m. m\<lparr>range_low := range_low (h x) + n\<rparr>) h) x = hi h x" by simp_all
  have "{lo h x..<lo h x + unat n} \<union> {hi h x<..hi h x} = {lo h x..<lo h x + unat n}" by auto
  then show "got K new n (unat n) (range_low (h x)) h fl (put_node K x (\<lambda>m. m\<lparr>range_low := range_low (h x) + n\<rparr>) h) fl"
    using taken_cut [OF s i refl, of "\<lambda>m. m\<lparr>range_low := range_low (h x) + n\<rparr>" new, unfolded f] n b(2) by (simp add: got_def)
  have "unat (range_high (h x) - n) = hi h x - unat n" using n by (subst unat_sub_le) simp_all
  then have g: "hi (put_node K x (\<lambda>m. m\<lparr>range_high := range_high (h x) - n\<rparr>) h) x = hi h x - unat n"
    "lo (put_node K x (\<lambda>m. m\<lparr>range_high := range_high (h x) - n\<rparr>) h) x = lo h x" by simp_all
  have "unat (range_high (h x) + 1) = hi h x + 1" using b(5) by (subst unat_add_less) simp_all
  then have nr: "unat (range_high (h x) + 1 - n) = hi h x + 1 - unat n" using n by (subst unat_sub_le) simp_all
  have "{lo h x..<lo h x} \<union> {hi h x - unat n<..hi h x} = {unat (range_high (h x) + 1 - n)..<unat (range_high (h x) + 1 - n) + unat n}"
    unfolding nr using n by auto
  then show "got K new n (unat n) (range_high (h x) + 1 - n) h fl (put_node K x (\<lambda>m. m\<lparr>range_high := range_high (h x) - n\<rparr>) h) fl"
    using taken_cut [OF s i refl, of "\<lambda>m. m\<lparr>range_high := range_high (h x) - n\<rparr>" new, unfolded g] n b(2) by (simp add: got_def)
qed

lemma alloc_loop_ok:
  assumes K: "rb_ok K" and s: "shape_ok K h fl" and n: "0 < unat n"
  shows "set ws \<subseteq> set (ids fl) \<Longrightarrow>
    alloc_loop K btype dir ws n nr h fl = (False, n, nr, h, fl) \<and> (btype = 0 \<longrightarrow> ws = []) \<or>
    (\<exists>n' nr' h' fl'. alloc_loop K btype dir ws n nr h fl = (True, n', nr', h', fl') \<and> got K new n (unat n') nr' h fl h' fl' \<and>
       (btype \<noteq> 0 \<longrightarrow> n' = n))"
proof (induction ws)
  case (Cons x ws)
  then have x: "x \<in> set (ids fl)" by simp
  note cb = cur_blocks [OF s x] and b = node_bounds [OF s x]
  let ?cb = "range_high (h x) - range_low (h x) + 1"
  have cs: "nova_range_node_checksum_ok K (h x)" using tree_okD(3) [OF shape_okD(1) [OF s] refl x] .
  consider (skip) "n \<ge> ?cb" "btype > 0 \<and> n > ?cb" | (whole) "n \<ge> ?cb" "\<not> (btype > 0 \<and> n > ?cb)" | (part) "n < ?cb" by fastforce
  then show ?case
  proof cases
    case skip
    then have "alloc_loop K btype dir (x # ws) n nr h fl = alloc_loop K btype dir ws n nr h fl" using cs by (simp add: Let_def)
    then show ?thesis using Cons skip(2) by auto
  next
    case whole
    obtain us vs where i: "ids fl = us @ x # vs" using x by (meson split_list)
    have "{lo h x..hi h x} = {lo h x..<lo h x + unat ?cb}" unfolding cb using b(2) by auto
    then have "got K new n (unat ?cb) (range_low (h x)) h fl h (drop_node K x fl)"
      using taken_whole [OF K s i, of new] whole(1) cb by (simp add: got_def word_le_nat_alt)
    moreover have "alloc_loop K btype dir (x # ws) n nr h fl = (True, ?cb, range_low (h x), h, drop_node K x fl)"
      using cs whole by (auto simp: Let_def)
    moreover have "btype \<noteq> 0 \<longrightarrow> ?cb = n" using whole by (metis antisym_conv1 not_less word_gt_0)
    ultimately show ?thesis by blast
  next
    case part
    then have p: "unat n < hi h x - lo h x + 1" using cb by (simp add: word_less_nat_alt)
    have "\<not> ?cb \<le> n" using part by simp
    then show ?thesis
      using alloc_part [OF s x n p, of new] cs by (cases dir) (simp_all add: Let_def)
  qed
qed simp

section \<open>Huge pages\<close>

lemma mask_2mb: "PAGES_PER_2MB_MASK = mask 9" by (simp add: PAGES_PER_2MB_MASK_def mask_eq_decr_exp)

lemma unat_and_2mb: "unat (x AND PAGES_PER_2MB_MASK) = unat x mod 512"
  by (simp only: mask_2mb take_bit_eq_mask [symmetric] unsigned_take_bit_eq) (simp add: take_bit_eq_mod)

lemma unat_ucast_up: "unat (ucast (x :: u32) :: u64) = unat x"
  by (simp add: unsigned_ucast_eq take_bit_nat_eq_self less_trans [OF unsigned_less])

lemma unat_ucast_down: "unat (x :: u64) < 2 ^ 32 \<Longrightarrow> unat (ucast x :: u32) = unat x"
  by (simp add: unsigned_ucast_eq take_bit_nat_eq_self)

lemma sint_small:
  fixes x :: u64
  assumes "unat x < 2 ^ 63"
  shows "sint x = int (unat x)"
proof -
  have "int (unat x) < int (2 ^ 63)" using assms by (simp only: of_nat_less_iff)
  then have "uint x < 2 ^ 63" by simp
  moreover have "- (2 ^ 63) \<le> uint x" by (rule order_trans [OF _ uint_ge_0]) simp
  ultimately show ?thesis by (simp add: sint_uint signed_take_bit_int_eq_self_iff)
qed

lemma left_margin_bounds:
  fixes low :: u64
  defines "lm \<equiv> (ucast (512 - (low AND PAGES_PER_2MB_MASK)) :: u32)"
  shows "0 < unat lm" "unat lm \<le> 512"
proof -
  have m: "unat (low AND PAGES_PER_2MB_MASK) < 512" unfolding unat_and_2mb by simp
  then have "unat (512 - (low AND PAGES_PER_2MB_MASK)) = 512 - unat (low AND PAGES_PER_2MB_MASK)" by (subst unat_sub_le) simp_all
  then have "unat lm = 512 - unat (low AND PAGES_PER_2MB_MASK)" unfolding lm_def by (subst unat_ucast_down) simp_all
  then show "0 < unat lm" "unat lm \<le> 512" using m by simp_all
qed

text \<open>The front of the node stays, so the rest can be seen as a node that is freed again behind it.\<close>

lemma superpage_rest:
  assumes K: "rb_ok K" and s: "shape_ok K h fl" and i: "ids fl = us @ x # vs" and y: "y \<notin> set (ids fl)"
    and b: "hi h x + 2 \<le> unat low" "unat low \<le> unat high" "unat high \<le> unat (block_end fl)"
    and gap: "vs \<noteq> [] \<Longrightarrow> unat high + 2 \<le> lo h (hd vs)"
  shows "\<exists>h' fl'. insert_cur K y low high (Some x) (hd_opt vs) (h(y := zalloc_node)) fl = (0, h', fl') \<and>
    freed_to K y {unat low..unat high} (h(y := zalloc_node)) fl h' fl' \<and> free_of (h(y := zalloc_node)) fl = free_of h fl"
proof -
  let ?h = "h(y := zalloc_node)"
  have same: "?h z = h z" if "z \<in> set (ids fl)" for z using that y by auto
  have s': "shape_ok K ?h fl" and f: "free_of ?h fl = free_of h fl" using shape_cong(1) [of fl ?h h K] shape_cong(2) [of fl ?h h] same s by simp_all
  have i': "ids fl = (us @ [x]) @ vs" using i by simp
  have r: "ranges_ok h (unat (block_start fl)) (unat (block_end fl) + 1) (us @ x # vs)" by (rule tree_okD(2) [OF shape_okD(1) [OF s] i])
  have nb: "unat (block_start fl) \<le> lo h x" "lo h x \<le> hi h x" using node_bounds [OF s, of x] i by simp_all
  have "hi ?h z < unat low" if "z \<in> set (us @ [x])" for z
    using that same [of z] i ranges_split(1) [OF r, of z] b(1) nb(2) by (cases "z = x") auto
  moreover have "unat low < lo ?h z" if z: "z \<in> set vs" for z
  proof -
    obtain v vs' where v: "vs = v # vs'" using z by (cases vs) auto
    have "unat high + 2 \<le> lo h v" using gap v by simp
    moreover have "lo h v \<le> lo h z"
    proof (cases "z = v")
      case False
      have "ranges_ok h (unat (block_start fl)) (unat (block_end fl) + 1) ((us @ [x]) @ v # vs')" using r v by simp
      from ranges_split(2) [OF this, of z] have "hi h v + 1 < lo h z" using z v False by simp
      moreover have "lo h v \<le> hi h v" using node_bounds(2) [OF s, of v] i v by simp
      ultimately show ?thesis by simp
    qed simp
    ultimately show ?thesis using b(2) same [of z] i z by simp
  qed
  ultimately have c: "cut_at ?h (unat low) (us @ [x]) vs" by (simp add: cut_at_def)
  have g: "hi ?h (last (us @ [x])) + 2 \<le> unat low" "vs \<noteq> [] \<Longrightarrow> unat high + 2 \<le> lo ?h (hd vs)"
    using b(1) gap same [of x] same [of "hd vs"] i by auto
  have bs: "unat (block_start fl) \<le> unat low" using nb b(1) by simp
  from freed_insert [OF K s' y bs b(2,3) i' c g] obtain h' fl' where
    "insert_cur K y low high (last_opt (us @ [x])) (hd_opt vs) ?h fl = (0, h', fl')" "freed_to K y {unat low..unat high} ?h fl h' fl'" by blast
  then show ?thesis using f by (simp del: fun_upd_apply)
qed

lemma superpage_cut_run:
  assumes "insert_cur K y (range_low (h x) + ucast lm + n) (range_high (h x)) (Some x) nx (h1(y := zalloc_node)) fl = (0, h2, fl2)"
    and "h1 = put_node K x (\<lambda>m. m\<lparr>range_high := range_low (h x) + ucast lm - 1\<rparr>) h"
    and "lm \<noteq> 0" "(ucast (range_high (h x) - range_low (h x) + 1 - ucast lm - n) :: u32) \<noteq> 0"
    and "nx = None \<longleftrightarrow> last_node fl = Some x"
  shows "superpage_cut K (Some y) x lm n h fl = Some (sint n, range_low (h x) + ucast lm, h2, fl2)"
proof -
  let ?low = "range_low (h x) + ucast lm + n"
  let ?h2 = "put_node K y (\<lambda>m. m\<lparr>range_low := ?low, range_high := range_high (h x)\<rparr>) (h1(y := zalloc_node))"
  obtain ret t where t: "nova_insert_blocktree K ?h2 (block_free_tree fl) y = (ret, t)" by fastforce
  have e: "ret = 0 \<and> h2 = ?h2 \<and> fl2 = fl\<lparr>block_free_tree := t, first_node := first_node fl,
      last_node := (if nx = None then Some y else last_node fl), num_blocknode := num_blocknode fl + 1\<rparr>"
    using assms(1) unfolding insert_cur_def Let_def t by (auto split: if_splits)
  show ?thesis
    using e t assms(3-5) unfolding superpage_cut_def Let_def assms(2) [symmetric]
    by (auto simp del: fun_upd_apply put_node_simps)
qed

lemma superpage_cut_ok:
  assumes K: "rb_ok K" and s: "shape_ok K h fl" and x: "x \<in> set (ids fl)" and y: "y \<notin> set (ids fl)"
    and lm: "0 < unat lm" "unat lm < hi h x - lo h x + 1" and n: "0 < unat n" "unat n \<le> hi h x - lo h x + 1 - unat lm"
  shows "\<exists>nr h' fl'. superpage_cut K (Some y) x lm n h fl = Some (int (unat n), nr, h', fl') \<and>
    got K (Some y) n (unat n) nr h fl h' fl'"
proof -
  let ?low = "range_low (h x)" and ?high = "range_high (h x)"
  let ?h1 = "put_node K x (\<lambda>m. m\<lparr>range_high := ?low + ucast lm - 1\<rparr>) h"
  let ?nr = "?low + ucast lm" and ?rm = "?high - ?low + 1 - ucast lm - n"
  obtain us vs where i: "ids fl = us @ x # vs" using x by (meson split_list)
  note b = node_bounds [OF s x] and cb = cur_blocks [OF s x] and ul = unat_ucast_up [of lm]
  have nr: "unat ?nr = lo h x + unat lm" using lm(2) b ul by (subst unat_add_less) simp_all
  have h1: "lo ?h1 x = lo h x" "hi ?h1 x = lo h x + unat lm - 1" using nr lm(1) by (simp, simp add: unat_sub_le)
  have "unat (?high - ?low + 1 - ucast lm) = hi h x - lo h x + 1 - unat lm" using cb lm(2) ul by (subst unat_sub_le) simp_all
  then have rm: "unat ?rm = hi h x - lo h x + 1 - unat lm - unat n" using n(2) by (subst unat_sub_le) simp_all
  then have rm32: "unat (ucast ?rm :: u32) = hi h x - lo h x + 1 - unat lm - unat n" using b(5) by (subst unat_ucast_down) simp_all
  have sn: "sint n = int (unat n)" using n(2) b(5) by (intro sint_small) simp
  have lm0: "lm \<noteq> 0" using lm(1) by auto
  have tk: "taken_to K (Some y) ({lo h x..<lo ?h1 x} \<union> {hi ?h1 x<..hi h x}) h fl ?h1 fl"
    using h1 lm by (intro taken_cut [OF s i refl]) simp_all
  then have tk: "taken_to K (Some y) {lo h x + unat lm..hi h x} h fl ?h1 fl"
    using h1 lm(1) by (simp add: atLeastSucAtMost_greaterThanAtMost [symmetric])
  show ?thesis
  proof (cases "(ucast ?rm :: u32) = 0")
    case True
    then have "lo h x + unat lm + unat n = hi h x + 1" using rm32 n lm b(2) by simp
    then have "{lo h x + unat lm..hi h x} = {unat ?nr..<unat ?nr + unat n}" unfolding nr by auto
    with tk n(1) have "got K (Some y) n (unat n) ?nr h fl ?h1 fl" by (simp add: got_def)
    moreover have "superpage_cut K (Some y) x lm n h fl = Some (int (unat n), ?nr, ?h1, fl)"
      using True lm0 sn by (simp add: superpage_cut_def Let_def)
    ultimately show ?thesis by blast
  next
    case False
    have "unat (ucast ?rm :: u32) \<noteq> 0" using False by (simp add: unat_eq_0)
    then have room: "lo h x + unat lm + unat n \<le> hi h x" using rm32 b(2) by simp
    have low2: "unat (?nr + n) = lo h x + unat lm + unat n" using nr room b(5) by (subst unat_add_less) simp_all
    have s1: "shape_ok K ?h1 fl" and f1: "free_of ?h1 fl = free_of h fl - {lo h x + unat lm..hi h x}"
      and sub: "{lo h x + unat lm..hi h x} \<subseteq> free_of h fl" using tk by (simp_all add: taken_to_def)
    have d: "distinct (us @ x # vs)" by (rule tree_okD(1) [OF shape_okD(1) [OF s] i])
    have "hi ?h1 x + 2 \<le> unat (?nr + n)" using h1(2) low2 lm(1) n(1) by simp
    moreover have "unat (?nr + n) \<le> hi h x" using low2 room by simp
    moreover have "hi h x + 2 \<le> lo ?h1 (hd vs)" if "vs \<noteq> []"
    proof -
      have "hd vs \<noteq> x" "hd vs \<in> set vs" using d that by auto
      then show ?thesis using ranges_split(2) [OF tree_okD(2) [OF shape_okD(1) [OF s] i], of "hd vs"] by simp
    qed
    ultimately obtain h2 fl2 where
      ins: "insert_cur K y (?nr + n) ?high (Some x) (hd_opt vs) (?h1(y := zalloc_node)) fl = (0, h2, fl2)"
      and fr: "freed_to K y {unat (?nr + n)..hi h x} (?h1(y := zalloc_node)) fl h2 fl2" "free_of (?h1(y := zalloc_node)) fl = free_of ?h1 fl"
      using superpage_rest [OF K s1 i y _ _ b(3)] by blast
    have "(hd_opt vs = None) = (last_node fl = Some x)" using shape_okD(5) [OF s] i d by (cases vs rule: rev_cases) auto
    then have run: "superpage_cut K (Some y) x lm n h fl = Some (int (unat n), ?nr, h2, fl2)"
      using superpage_cut_run [OF ins refl lm0 False] sn by simp
    have B: "{unat ?nr..<unat ?nr + unat n} = {lo h x + unat lm..hi h x} - {unat (?nr + n)..hi h x}"
      "{unat (?nr + n)..hi h x} \<subseteq> {lo h x + unat lm..hi h x}"
      unfolding nr low2 using room by auto
    have "free_of h2 fl2 = free_of h fl - {unat ?nr..<unat ?nr + unat n}"
      using fr(1) fr(2) f1 sub B unfolding freed_to_def by blast
    moreover have "relist (Some y) h fl h2 fl2"
      using fr(1) tk unfolding freed_to_def taken_to_def relist_def by auto
    ultimately have "got K (Some y) n (unat n) ?nr h fl h2 fl2"
      using fr(1) sub B n(1) unfolding freed_to_def got_def taken_to_def by auto
    with run show ?thesis by blast
  qed
qed

lemma round_2mb:
  fixes x :: u64
  shows "unat (x AND NOT PAGES_PER_2MB_MASK) = unat x div 512 * 512"
  using unat_and_not_mask [of 9 x] by (simp add: mask_2mb)

lemma superpage_loop_ok:
  assumes K: "rb_ok K" and s: "shape_ok K h fl" and y: "y \<notin> set (ids fl)" and n63: "unat n < 2 ^ 63"
  shows "0 < unat n \<Longrightarrow> set ws \<subseteq> set (ids fl) \<Longrightarrow>
    superpage_loop K (Some y) ws n h fl = Some (0, 0, h, fl) \<or>
    (\<exists>len nr h' fl'. superpage_loop K (Some y) ws n h fl = Some (int len, nr, h', fl') \<and> got K (Some y) n len nr h fl h' fl' \<and>
       (512 dvd unat n \<longrightarrow> 512 dvd len))"
proof (induction ws)
  case (Cons x ws)
  then have x: "x \<in> set (ids fl)" by simp
  let ?cb = "range_high (h x) - range_low (h x) + 1"
  let ?lm = "ucast (512 - (range_low (h x) AND PAGES_PER_2MB_MASK)) :: u32"
  let ?sp = "?cb - ucast ?lm"
  let ?n = "if n > ?sp \<and> ?sp AND NOT PAGES_PER_2MB_MASK > 0 then ?sp AND NOT PAGES_PER_2MB_MASK else n"
  note b = node_bounds [OF s x] and cb = cur_blocks [OF s x] and lm = left_margin_bounds [of "range_low (h x)"]
  have ul: "unat (ucast ?lm :: u64) = unat ?lm" by (rule unat_ucast_up)
  have cs: "nova_range_node_checksum_ok K (h x)" using tree_okD(3) [OF shape_okD(1) [OF s] refl x] .
  have run: "superpage_loop K (Some y) (x # ws) n h fl =
      (if ?cb > ucast ?lm \<and> ?n \<le> ?sp then superpage_cut K (Some y) x ?lm ?n h fl
       else superpage_loop K (Some y) ws ?n h fl)" using cs by (simp add: Let_def)
  have gt: "?cb > ucast ?lm \<longleftrightarrow> unat ?lm < hi h x - lo h x + 1" unfolding word_less_nat_alt ul cb ..
  have sp: "unat ?sp = hi h x - lo h x + 1 - unat ?lm" if "?cb > ucast ?lm"
    using that unfolding gt by (subst unat_sub_le) (simp_all add: cb ul)
  show ?case
  proof (cases "?cb > ucast ?lm \<and> ?n \<le> ?sp")
    case True
    have n': "0 < unat ?n" "unat ?n \<le> unat n" "512 dvd unat n \<longrightarrow> 512 dvd unat ?n"
    proof -
      show "0 < unat ?n" using Cons.prems(1) by (simp add: word_less_nat_alt)
      show "512 dvd unat n \<longrightarrow> 512 dvd unat ?n" using round_2mb [of ?sp] by simp
      have "unat (?sp AND NOT PAGES_PER_2MB_MASK) \<le> unat ?sp" unfolding round_2mb by simp
      then show "unat ?n \<le> unat n" by (auto simp: word_less_nat_alt)
    qed
    have "unat ?n \<le> hi h x - lo h x + 1 - unat ?lm" using True sp by (simp only: word_le_nat_alt)
    from superpage_cut_ok [OF K s x y lm(1) _ n'(1) this] True gt obtain nr h' fl' where
      r: "superpage_cut K (Some y) x ?lm ?n h fl = Some (int (unat ?n), nr, h', fl')" "got K (Some y) ?n (unat ?n) nr h fl h' fl'" by blast
    have "got K (Some y) n (unat ?n) nr h fl h' fl'" using r(2) n'(2) by (simp add: got_def)
    moreover have "superpage_loop K (Some y) (x # ws) n h fl = Some (int (unat ?n), nr, h', fl')"
      by (rule trans [OF run]) (simp only: if_P [OF True] r(1))
    ultimately show ?thesis using n'(3) by blast
  next
    case False
    have same: "?n = n"
    proof (rule ccontr)
      assume "?n \<noteq> n"
      then have c: "n > ?sp" "?sp AND NOT PAGES_PER_2MB_MASK > 0" "?n = ?sp AND NOT PAGES_PER_2MB_MASK" by (auto split: if_splits)
      have "unat ?n \<le> unat ?sp" unfolding c(3) round_2mb by simp
      then have "\<not> ?cb > ucast ?lm" using False by (simp add: word_le_nat_alt)
      then have l: "unat ?cb \<le> unat ?lm" unfolding gt cb by simp
      have "unat ?sp + unat (ucast ?lm :: u64) < 2 ^ 64" using c(1) n63 lm(2) ul by (simp add: word_less_nat_alt)
      then have "unat (?sp + ucast ?lm) = unat ?sp + unat ?lm" unfolding ul [symmetric] by (intro unat_add_less) simp
      then have "unat ?sp = 0" using l by (simp add: unat_eq_0)
      then have "unat (?sp AND NOT PAGES_PER_2MB_MASK) = 0" unfolding round_2mb by simp
      then show False using c(2) by (simp only: word_less_nat_alt)
    qed
    have "superpage_loop K (Some y) (x # ws) n h fl = superpage_loop K (Some y) ws n h fl"
      by (rule trans [OF run [unfolded same] if_not_P [OF False [unfolded same]]])
    then show ?thesis using Cons by simp
  qed
qed simp

section \<open>One list\<close>

lemma visit_ids:
  assumes "shape_ok K h fl"
  shows "visit ALLOC_FROM_HEAD fl = ids fl" "visit ALLOC_FROM_TAIL fl = rev (ids fl)" "set (visit dir fl) = set (ids fl)"
    "(visit dir fl = []) = (ids fl = [])"
proof -
  note sd = shape_okD(4,5) [OF assms]
  have "dropWhile (\<lambda>x. Some x \<noteq> hd_opt xs) xs = xs" for xs :: "nat list" by (cases xs) simp_all
  then show h: "visit ALLOC_FROM_HEAD fl = ids fl" by (simp only: visit_def sd(1) nova_alloc_direction.case)
  have "dropWhile (\<lambda>x. Some x \<noteq> last_opt xs) (rev xs) = rev xs" for xs :: "nat list" by (cases xs rule: rev_cases) simp_all
  then show t: "visit ALLOC_FROM_TAIL fl = rev (ids fl)" by (simp only: visit_def sd(2) nova_alloc_direction.case)
  show "set (visit dir fl) = set (ids fl)" "(visit dir fl = []) = (ids fl = [])" using h t by (cases dir; simp)+
qed

text \<open>What allocation from a list gives: a range of blocks that were free, or no block at all.\<close>

definition alloc_result ::
    "rb_kernel \<Rightarrow> nat \<Rightarrow> u16 \<Rightarrow> u64 \<Rightarrow> rn_store \<Rightarrow> free_list \<Rightarrow> int \<Rightarrow> u64 \<Rightarrow> rn_store \<Rightarrow> free_list \<Rightarrow> bool" where
  "alloc_result K y btype n h fl ret nr h' fl' \<longleftrightarrow>
     (\<exists>len. ret = int len \<and> 0 < len \<and> len \<le> unat n \<and> 0 < unat nr \<and> {unat nr..<unat nr + len} \<subseteq> free_of h fl \<and>
        list_ok K h' fl' \<and> free_of h' fl' = free_of h fl - {unat nr..<unat nr + len} \<and> relist (Some y) h fl h' fl' \<and>
        (btype = 1 \<longrightarrow> 512 dvd unat n \<longrightarrow> 512 dvd len))"

lemma got_result:
  assumes l: "list_ok K h fl" and g: "got K (Some y) n len nr h fl h' fl'" and w: "w = of_nat len"
    and d: "btype = 1 \<longrightarrow> 512 dvd unat n \<longrightarrow> 512 dvd len"
  shows "alloc_result K y btype n h fl (int len) nr h' (fl'\<lparr>num_free_blocks := num_free_blocks fl' - w\<rparr>)"
    "len \<le> unat (num_free_blocks fl')" "unat nr \<noteq> 0" "len < 2 ^ 32"
proof -
  have t: "shape_ok K h' fl'" "{unat nr..<unat nr + len} \<subseteq> free_of h fl" "free_of h' fl' = free_of h fl - {unat nr..<unat nr + len}"
    "relist (Some y) h fl h' fl'" "num_free_blocks fl' = num_free_blocks fl" and len: "0 < len" "len \<le> unat n"
    using g by (simp_all add: got_def taken_to_def)
  have s: "shape_ok K h fl" and c: "unat (num_free_blocks fl) = card (free_of h fl)" using l by (simp_all add: list_ok_def)
  have "unat nr \<in> free_of h fl" using t(2) len(1) by auto
  then show nr: "unat nr \<noteq> 0" using free_of_range [OF s] shape_okD(2) [OF s] by fastforce
  have cl: "card {unat nr..<unat nr + len} = len" by simp
  have cd: "card (free_of h' fl') = card (free_of h fl) - len" unfolding t(3) using t(2) by (subst card_Diff_subset) simp_all
  have "len \<le> card (free_of h fl)" using card_mono [OF _ t(2)] cl by simp
  then show le: "len \<le> unat (num_free_blocks fl')" using c t(5) by simp
  have "card (free_of h fl) \<le> card {unat (block_start fl)..unat (block_end fl)}"
    by (rule card_mono [OF _ free_of_range [OF s]]) simp
  also have "\<dots> < 2 ^ 32" using shape_okD(2,3) [OF s] by simp
  finally show l32: "len < 2 ^ 32" using le c t(5) by simp
  then have "unat w = len" unfolding w by (intro unat_of_nat_less) simp
  then have "unat (num_free_blocks fl' - w) = card (free_of h' fl')" using le c cd t(5) by (subst unat_sub_le) simp_all
  then have "list_ok K h' (fl'\<lparr>num_free_blocks := num_free_blocks fl' - w\<rparr>)" using t(1) by (simp add: list_ok_def shape_ok_def)
  then show "alloc_result K y btype n h fl (int len) nr h' (fl'\<lparr>num_free_blocks := num_free_blocks fl' - w\<rparr>)"
    unfolding alloc_result_def using len nr t d by (intro exI [of _ len]) (simp add: relist_def)
qed

lemma alloc_in_list_ok:
  assumes K: "rb_ok K" and l: "list_ok K h fl" and y: "y \<notin> set (ids fl)" and n: "0 < unat n" "unat n < 2 ^ 63"
  shows "\<exists>ret nr h' fl'. nova_alloc_blocks_in_free_list K (Some y) btype atype n dir h fl = Some (ret, nr, h', fl') \<and>
    (alloc_result K y btype n h fl ret nr h' fl' \<or>
     ret = - ENOSPC \<and> h' = h \<and> fl' = fl \<and> (btype = 0 \<longrightarrow> atype = DATA \<longrightarrow> free_of h fl = {}))"
proof -
  have s: "shape_ok K h fl" and c: "unat (num_free_blocks fl) = card (free_of h fl)" using l by (simp_all add: list_ok_def)
  note sd = shape_okD [OF s]
  show ?thesis
  proof (cases "first_node fl = None \<or> num_free_blocks fl = 0 \<or> (atype = LOG \<and> not_enough_blocks h fl n atype)")
    case True
    moreover have "free_of h fl = {}" if "first_node fl = None \<or> num_free_blocks fl = 0"
      using that sd(4) c by (auto split: if_splits)
    ultimately show ?thesis by (auto simp: nova_alloc_blocks_in_free_list_def)
  next
    case False
    then have F: "\<not> (first_node fl = None \<or> num_free_blocks fl = 0)" "\<not> (atype = LOG \<and> not_enough_blocks h fl n atype)" by blast+
    let ?huge = "n AND PAGES_PER_2MB_MASK = 0 \<and> atype = DATA"
    let ?sp = "if ?huge then nova_alloc_superpage K (Some y) n dir h fl else Some (0, 0, h, fl)"
    let ?rest = "\<lambda>ret_blocks nr h1 fl1. if ret_blocks > 0 \<and> nr \<noteq> 0 then
          Some (ret_blocks, nr, h1, fl1\<lparr>num_free_blocks := num_free_blocks fl1 - of_int ret_blocks\<rparr>)
        else case alloc_loop K btype dir (visit dir (fl1\<lparr>first_node := first_node fl, last_node := last_node fl\<rparr>)) n nr h1 fl1 of
          (found, n', nr', h2, fl2) \<Rightarrow>
            if num_free_blocks fl2 < n' \<or> \<not> found then Some (- ENOSPC, nr', h2, fl2)
            else Some (sint n', nr', h2, fl2\<lparr>num_free_blocks := num_free_blocks fl2 - n'\<rparr>)"
    have run: "nova_alloc_blocks_in_free_list K (Some y) btype atype n dir h fl =
        (case ?sp of None \<Rightarrow> None | Some (ret_blocks, nr, h1, fl1) \<Rightarrow> ?rest ret_blocks nr h1 fl1)"
      unfolding nova_alloc_blocks_in_free_list_def Let_def if_not_P [OF F(1)] if_not_P [OF F(2)] ..
    have ws: "set (visit dir fl) \<subseteq> set (ids fl)" using visit_ids(3) [OF s] by simp
    have huge: "?sp = Some (0, 0, h, fl) \<or> (\<exists>len nr h' fl'. ?sp = Some (int len, nr, h', fl') \<and>
        got K (Some y) n len nr h fl h' fl' \<and> (512 dvd unat n \<longrightarrow> 512 dvd len))"
      using superpage_loop_ok [OF K s y n(2,1) ws] by (cases ?huge) (simp_all add: nova_alloc_superpage_def)
    show ?thesis
      using huge
    proof
      assume "\<exists>len nr h' fl'. ?sp = Some (int len, nr, h', fl') \<and> got K (Some y) n len nr h fl h' fl' \<and> (512 dvd unat n \<longrightarrow> 512 dvd len)"
      then obtain len nr h' fl' where g: "?sp = Some (int len, nr, h', fl')" "got K (Some y) n len nr h fl h' fl'"
        "512 dvd unat n \<longrightarrow> 512 dvd len" by blast
      note gr = got_result [OF l g(2), where btype = btype and w = "of_nat len"]
      have "nr \<noteq> 0" using gr(3) g(3) by auto
      moreover have "0 < len" using g(2) by (simp add: got_def)
      ultimately have "nova_alloc_blocks_in_free_list K (Some y) btype atype n dir h fl =
          Some (int len, nr, h', fl'\<lparr>num_free_blocks := num_free_blocks fl' - of_nat len\<rparr>)"
        unfolding run g(1) by simp
      with gr(1) g(3) show ?thesis by blast
    next
      assume none: "?sp = Some (0, 0, h, fl)"
      have fle: "fl\<lparr>first_node := first_node fl, last_node := last_node fl\<rparr> = fl" by simp
      have r0: "nova_alloc_blocks_in_free_list K (Some y) btype atype n dir h fl = ?rest 0 0 h fl" unfolding run none by simp
      from alloc_loop_ok [OF K s n(1) ws, of btype dir 0 "Some y"] show ?thesis
      proof
        assume a: "alloc_loop K btype dir (visit dir fl) n 0 h fl = (False, n, 0, h, fl) \<and> (btype = 0 \<longrightarrow> visit dir fl = [])"
        then have "nova_alloc_blocks_in_free_list K (Some y) btype atype n dir h fl = Some (- ENOSPC, 0, h, fl)"
          unfolding r0 fle by simp
        moreover have "btype = 0 \<longrightarrow> free_of h fl = {}" using a visit_ids(4) [OF s, of dir] by simp
        ultimately show ?thesis by blast
      next
        assume "\<exists>n' nr' h' fl'. alloc_loop K btype dir (visit dir fl) n 0 h fl = (True, n', nr', h', fl') \<and>
          got K (Some y) n (unat n') nr' h fl h' fl' \<and> (btype \<noteq> 0 \<longrightarrow> n' = n)"
        then obtain n' nr' h' fl' where g: "alloc_loop K btype dir (visit dir fl) n 0 h fl = (True, n', nr', h', fl')"
          "got K (Some y) n (unat n') nr' h fl h' fl'" "btype \<noteq> 0 \<longrightarrow> n' = n" by blast
        have dv: "btype = 1 \<longrightarrow> 512 dvd unat n \<longrightarrow> 512 dvd unat n'" using g(3) by auto
        have w: "n' = of_nat (unat n')" by simp
        note gr = got_result [OF l g(2) w dv]
        have "sint n' = int (unat n')" using gr(4) by (intro sint_small) simp
        moreover have "\<not> num_free_blocks fl' < n'" using gr(2) by (simp add: word_less_nat_alt)
        ultimately have "nova_alloc_blocks_in_free_list K (Some y) btype atype n dir h fl =
            Some (int (unat n'), nr', h', fl'\<lparr>num_free_blocks := num_free_blocks fl' - n'\<rparr>)"
          unfolding r0 fle g(1) by simp
        with gr(1) show ?thesis by blast
      qed
    qed
  qed
qed

end
