(* ===== verification/Nova_Balloc_Init.thy ===== *)
theory Nova_Balloc_Init
  imports Nova_Balloc_Free
begin

unbundle bit_operations_syntax

text \<open>
  Set-up of the free lists of NOVA: every processor gets its share of the device, less the reserved blocks and the
  blocks for checksums and parity, as one free range.
\<close>

section \<open>The share of a processor\<close>

definition csum_share :: "nova_sb_info \<Rightarrow> u64" where
  "csum_share sbi =
     (let n = of_nat (cpus sbi); d = drop_bit 12 (drop_bit 9 (initsize sbi) * 4)
      in d div n + (if d mod n \<noteq> 0 then 1 else 0))"

definition parity_share :: "nova_sb_info \<Rightarrow> u64" where
  "parity_share sbi =
     (let n = of_nat (cpus sbi); t = initsize sbi div 4096; p = t div 9 + (if t mod 9 \<noteq> 0 then 1 else 0)
      in p div n + (if p mod n \<noteq> 0 then 1 else 0))"

lemma init_free_list_fields:
  fixes sbi :: nova_sb_info and i :: nat and fl :: free_list
  defines "r \<equiv> nova_init_free_list sbi i fl" and "per \<equiv> num_blocks sbi div of_nat (cpus sbi)"
  shows "block_start r = per * of_nat i + (if i = 0 then head_reserved_blocks sbi else 0) + csum_share sbi + parity_share sbi"
    "block_end r = per * of_nat i + per - 1 - (if i = cpus sbi - 1 then tail_reserved_blocks sbi else 0) - csum_share sbi"
    "block_free_tree r = block_free_tree fl"
proof -
  have c: "block_start (nova_data_csum_init_free_list sbi f) = block_start f + csum_share sbi"
    "block_end (nova_data_csum_init_free_list sbi f) = block_end f - csum_share sbi"
    "block_free_tree (nova_data_csum_init_free_list sbi f) = block_free_tree f" for f
    by (simp_all add: nova_data_csum_init_free_list_def csum_share_def Let_def add.assoc)
  have p: "block_start (nova_data_parity_init_free_list sbi f) = block_start f + parity_share sbi"
    "block_end (nova_data_parity_init_free_list sbi f) = block_end f"
    "block_free_tree (nova_data_parity_init_free_list sbi f) = block_free_tree f" for f
    by (simp_all add: nova_data_parity_init_free_list_def parity_share_def Let_def add.assoc)
  show "block_start r = per * of_nat i + (if i = 0 then head_reserved_blocks sbi else 0) + csum_share sbi + parity_share sbi"
    "block_end r = per * of_nat i + per - 1 - (if i = cpus sbi - 1 then tail_reserved_blocks sbi else 0) - csum_share sbi"
    "block_free_tree r = block_free_tree fl"
    unfolding r_def per_def nova_init_free_list_def Let_def p c by simp_all
qed

text \<open>The sizes that the set-up needs: the reserved parts leave room in every share.\<close>

definition layout_ok :: "nova_sb_info \<Rightarrow> bool" where
  "layout_ok sbi \<longleftrightarrow> 0 < cpus sbi \<and> unat (num_blocks sbi) < 2 ^ 31 \<and> cpus sbi < 2 ^ 31 \<and> 0 < unat (head_reserved_blocks sbi) \<and>
     unat (head_reserved_blocks sbi) + unat (tail_reserved_blocks sbi) + 2 * unat (csum_share sbi) + unat (parity_share sbi)
       < unat (num_blocks sbi) div cpus sbi"

definition share :: "nova_sb_info \<Rightarrow> nat \<Rightarrow> nat set" where
  "share sbi i = (let per = unat (num_blocks sbi) div cpus sbi in
     {per * i + (if i = 0 then unat (head_reserved_blocks sbi) else 0) + unat (csum_share sbi) + unat (parity_share sbi) ..<
      per * Suc i - (if i = cpus sbi - 1 then unat (tail_reserved_blocks sbi) else 0) - unat (csum_share sbi)})"

lemma init_bounds:
  fixes sbi :: nova_sb_info and i :: nat and fl :: free_list
  assumes l: "layout_ok sbi" and i: "i < cpus sbi"
  defines "r \<equiv> nova_init_free_list sbi i fl" and "per \<equiv> unat (num_blocks sbi) div cpus sbi"
  shows "{unat (block_start r)..unat (block_end r)} = share sbi i" "unat (block_start r) \<le> unat (block_end r)"
    "0 < unat (block_start r)" "unat (block_end r) < 2 ^ 31" "per * i \<le> unat (block_start r)" "unat (block_end r) < per * Suc i"
    "unat (num_blocks sbi div of_nat (cpus sbi)) = per" "0 < per"
proof -
  let ?H = "if i = 0 then head_reserved_blocks sbi else 0" and ?T = "if i = cpus sbi - 1 then tail_reserved_blocks sbi else 0"
  let ?C = "csum_share sbi" and ?P = "parity_share sbi" and ?per = "num_blocks sbi div of_nat (cpus sbi)"
  have c64: "unat (of_nat (cpus sbi) :: u64) = cpus sbi" using l by (intro unat_of_nat_less) (simp add: layout_ok_def)
  show p: "unat ?per = per" using c64 by (simp add: per_def unat_div)
  have room: "unat ?H + unat ?T + 2 * unat ?C + unat ?P < per" and h0: "0 < unat (head_reserved_blocks sbi)"
    using l by (auto simp: layout_ok_def per_def)
  then show per0: "0 < per" by simp
  have "per * Suc i \<le> per * cpus sbi" using i by (intro mult_le_mono) simp_all
  also have "\<dots> \<le> unat (num_blocks sbi)" by (simp add: per_def)
  finally have top: "per * Suc i < 2 ^ 31" using l by (simp add: layout_ok_def)
  then have pi: "per * i + per < 2 ^ 31" by simp
  have "i < 2 ^ 31" using i l by (simp add: layout_ok_def)
  then have i64: "unat (of_nat i :: u64) = i" by (intro unat_of_nat_less) simp
  have m: "unat (?per * of_nat i) = per * i" using pi by (subst unat_mult_less) (simp_all add: i64 p)
  have s1: "unat (?per * of_nat i + ?H) = per * i + unat ?H" using m room pi by (subst unat_add_less) simp_all
  have s2: "unat (?per * of_nat i + ?H + ?C) = per * i + unat ?H + unat ?C" using s1 room pi by (subst unat_add_less) simp_all
  have "unat (?per * of_nat i + ?H + ?C + ?P) = per * i + unat ?H + unat ?C + unat ?P" using s2 room pi by (subst unat_add_less) simp_all
  then have bs: "unat (block_start r) = per * i + unat ?H + unat ?C + unat ?P"
    unfolding r_def init_free_list_fields by simp
  have e1: "unat (?per * of_nat i + ?per) = per * i + per" using m p pi by (subst unat_add_less) simp_all
  have e2: "unat (?per * of_nat i + ?per - 1) = per * i + per - 1" using e1 per0 by (subst unat_sub_le) simp_all
  have e3: "unat (?per * of_nat i + ?per - 1 - ?T) = per * i + per - 1 - unat ?T" using e2 room by (subst unat_sub_le) simp_all
  have "unat (?per * of_nat i + ?per - 1 - ?T - ?C) = per * i + per - 1 - unat ?T - unat ?C" using e3 room by (subst unat_sub_le) simp_all
  then have be: "unat (block_end r) = per * i + per - 1 - unat ?T - unat ?C"
    unfolding r_def init_free_list_fields by simp
  show "unat (block_start r) \<le> unat (block_end r)" "unat (block_end r) < 2 ^ 31" "per * i \<le> unat (block_start r)"
    "unat (block_end r) < per * Suc i" unfolding bs be using room pi by simp_all
  show "0 < unat (block_start r)" unfolding bs using h0 per0 by (cases "i = 0") simp_all
  have HT: "unat ?H = (if i = 0 then unat (head_reserved_blocks sbi) else 0)"
    "unat ?T = (if i = cpus sbi - 1 then unat (tail_reserved_blocks sbi) else 0)" by simp_all
  have sh: "share sbi i = {per * i + unat ?H + unat ?C + unat ?P..<per * i + per - unat ?T - unat ?C}"
    by (simp only: share_def Let_def per_def HT mult_Suc_right add.commute [of "unat (num_blocks sbi) div cpus sbi"])
  have iv: "{a..b - 1 - t - c} = {a..<b - t - c}" if "t + c < b" for a b t c :: nat using that by auto
  show "{unat (block_start r)..unat (block_end r)} = share sbi i" unfolding bs be sh by (rule iv) (use room in linarith)
qed

section \<open>The set-up of all lists\<close>

text \<open>A list and a node as the set-up leaves them.\<close>

definition init_fl :: "rb_kernel \<Rightarrow> nova_sb_info \<Rightarrow> nat \<Rightarrow> nat \<Rightarrow> free_list \<Rightarrow> free_list" where
  "init_fl K sbi x i fl =
     (let fl1 = nova_init_free_list sbi i fl
      in fl1\<lparr>num_free_blocks := block_end fl1 - block_start fl1 + 1, block_free_tree := rb_insert_color K x (Node Leaf x Leaf),
             first_node := Some x, last_node := Some x, num_blocknode := 1\<rparr>)"

definition init_node :: "rb_kernel \<Rightarrow> nova_sb_info \<Rightarrow> nat \<Rightarrow> free_list \<Rightarrow> nova_range_node" where
  "init_node K sbi i fl =
     (let fl1 = nova_init_free_list sbi i fl
      in nova_update_range_node_checksum K (zalloc_node\<lparr>range_low := block_start fl1, range_high := block_end fl1\<rparr>))"

lemma init_list_run:
  assumes "block_free_tree (fl_at sbi i) = Leaf"
  shows "init_list K False (Some x) i sbi =
    Some (True, set_list i (init_fl K sbi x i (fl_at sbi i)) (sbi\<lparr>nodes := (nodes sbi)(x := init_node K sbi i (fl_at sbi i))\<rparr>))"
  using assms
  by (simp add: init_list_def Let_def init_free_list_fields nova_insert_blocktree_def nova_insert_range_node_def init_fl_def
      init_node_def put_node_def)

lemma init_list_ok:
  assumes K: "rb_ok K" and l: "layout_ok sbi" and i: "i < cpus sbi" and h: "h x = init_node K sbi i fl"
  shows "list_ok K h (init_fl K sbi x i fl)" "free_of h (init_fl K sbi x i fl) = share sbi i" "ids (init_fl K sbi x i fl) = [x]"
proof -
  let ?fl = "init_fl K sbi x i fl" and ?r = "nova_init_free_list sbi i fl"
  note b = init_bounds(1-6) [OF l i, of fl]
  show ids: "ids ?fl = [x]" using rb_okD(1) [OF K] by (simp add: init_fl_def Let_def)
  have f: "lo h x = unat (block_start ?r)" "hi h x = unat (block_end ?r)" using h by (simp_all add: init_node_def Let_def)
  have g: "block_start ?fl = block_start ?r" "block_end ?fl = block_end ?r" by (simp_all add: init_fl_def Let_def)
  have fr: "free_of h ?fl = {unat (block_start ?r)..unat (block_end ?r)}" unfolding ids using f by simp
  then show "free_of h ?fl = share sbi i" using b(1) by simp
  have "tree_ok K h (unat (block_start ?fl)) (unat (block_end ?fl) + 1) (block_free_tree ?fl)"
    by (rule range_tree_okI [OF ids]) (use f g b(2) h in \<open>simp_all add: init_node_def Let_def\<close>)
  then have s: "shape_ok K h ?fl" using b(3,4) ids by (simp add: shape_ok_def g init_fl_def Let_def)
  have "unat (block_end ?r - block_start ?r) = unat (block_end ?r) - unat (block_start ?r)" using b(2) by (rule unat_sub_le)
  then have "unat (block_end ?r - block_start ?r + 1) = unat (block_end ?r) - unat (block_start ?r) + 1"
    using b(4) by (subst unat_add_less) simp_all
  then show "list_ok K h ?fl" using s fr b(2) by (simp add: list_ok_def init_fl_def Let_def)
qed

lemma set_list_fields [simp]:
  "cpus (set_list i fl sbi) = cpus sbi" "num_blocks (set_list i fl sbi) = num_blocks sbi" "initsize (set_list i fl sbi) = initsize sbi"
  "head_reserved_blocks (set_list i fl sbi) = head_reserved_blocks sbi" "tail_reserved_blocks (set_list i fl sbi) = tail_reserved_blocks sbi"
  "nodes (set_list i fl sbi) = nodes sbi" "per_list_blocks (set_list i fl sbi) = per_list_blocks sbi"
  "free_lists (set_list i fl sbi) = (free_lists sbi)[i := fl]"
  by (simp_all add: set_list_def)

text \<open>The lists depend on the sizes of the device only.\<close>

definition sizes :: "nova_sb_info \<Rightarrow> nat \<times> u64 \<times> u64 \<times> u64 \<times> u64" where
  "sizes sbi = (cpus sbi, num_blocks sbi, initsize sbi, head_reserved_blocks sbi, tail_reserved_blocks sbi)"

lemma sizes_cong:
  assumes "sizes s = sizes s'"
  shows "nova_init_free_list s = nova_init_free_list s'" "init_fl K s = init_fl K s'" "init_node K s = init_node K s'"
proof -
  have e: "cpus s = cpus s'" "num_blocks s = num_blocks s'" "initsize s = initsize s'"
    "head_reserved_blocks s = head_reserved_blocks s'" "tail_reserved_blocks s = tail_reserved_blocks s'"
    using assms by (simp_all add: sizes_def)
  show f: "nova_init_free_list s = nova_init_free_list s'"
    by (intro ext) (simp only: nova_init_free_list_def nova_data_csum_init_free_list_def nova_data_parity_init_free_list_def e)
  show "init_fl K s = init_fl K s'" "init_node K s = init_node K s'"
    by (intro ext; simp only: init_fl_def init_node_def f)+
qed


text \<open>The state after the first \<open>k\<close> turns of the loop.\<close>

definition inited :: "rb_kernel \<Rightarrow> (nat \<Rightarrow> nat) \<Rightarrow> nat \<Rightarrow> nova_sb_info \<Rightarrow> nova_sb_info \<Rightarrow> bool" where
  "inited K at k s s' \<longleftrightarrow> sizes s' = sizes s \<and> per_list_blocks s' = per_list_blocks s \<and>
     length (free_lists s') = length (free_lists s) \<and>
     (\<forall>i < cpus s. fl_at s' i = (if i < k then init_fl K s (at i) i (fl_at s i) else fl_at s i)) \<and>
     (\<forall>i < k. nodes s' (at i) = init_node K s i (fl_at s i))"

lemma init_loop_run:
  assumes l: "length (free_lists s) = cpus s" and e: "\<forall>i < cpus s. block_free_tree (fl_at s i) = Leaf"
    and at: "inj_on at {..<cpus s}" and new: "\<forall>i < cpus s. new i = Some (at i)"
  shows "\<lbrakk>j + k = cpus s; inited K at k s s1\<rbrakk> \<Longrightarrow> \<exists>s'. init_loop K False new [k..<cpus s] s1 = Some s' \<and> inited K at (cpus s) s s'"
proof (induction j arbitrary: k s1)
  case 0
  then show ?case by simp
next
  case (Suc j)
  then have k: "k < cpus s" by simp
  have i1: "sizes s1 = sizes s" "fl_at s1 k = fl_at s k" "length (free_lists s1) = cpus s"
    using Suc.prems(2) k l by (simp_all add: inited_def)
  let ?s2 = "set_list k (init_fl K s1 (at k) k (fl_at s1 k)) (s1\<lparr>nodes := (nodes s1)(at k := init_node K s1 k (fl_at s1 k))\<rparr>)"
  have run: "init_list K False (new k) k s1 = Some (True, ?s2)" using init_list_run [of s1 k K "at k"] e i1(2) k new by simp
  have "at i \<noteq> at k" if "i < k" for i using inj_onD [OF at, of i k] that k by auto
  then have "inited K at (Suc k) s ?s2"
    using Suc.prems(2) i1 k sizes_cong [OF i1(1)] by (auto simp: inited_def sizes_def nth_list_update less_Suc_eq)
  from Suc.IH [OF _ this] Suc.prems(1) obtain s' where
    "init_loop K False new [Suc k..<cpus s] ?s2 = Some s'" "inited K at (cpus s) s s'" by auto
  then show ?case using run k by (simp add: upt_conv_Cons)
qed

lemma init_blockmap_ok:
  assumes K: "rb_ok K" and lay: "layout_ok s" and l: "length (free_lists s) = cpus s"
    and e: "\<forall>i < cpus s. block_free_tree (fl_at s i) = Leaf"
    and at: "inj_on at {..<cpus s}" and new: "\<forall>i < cpus s. new i = Some (at i)"
  shows "\<exists>s'. nova_init_blockmap K False new s = Some s' \<and> nova_ok K s' \<and> nova_free s' = (\<Union>i < cpus s. share s i)"
proof -
  let ?s = "s\<lparr>per_list_blocks := num_blocks s div of_nat (cpus s)\<rparr>"
  have v: "sizes ?s = sizes s" by (simp add: sizes_def)
  have "inited K at 0 ?s ?s" by (simp add: inited_def)
  then have "\<exists>s'. init_loop K False new [0..<cpus ?s] ?s = Some s' \<and> inited K at (cpus ?s) ?s s'"
    using l e at new by (intro init_loop_run [where j = "cpus s"]) simp_all
  then obtain s' where run: "init_loop K False new [0..<cpus s] ?s = Some s'" and i: "inited K at (cpus s) ?s s'" by auto
  have f: "cpus s' = cpus s" "length (free_lists s') = cpus s" "per_list_blocks s' = num_blocks s div of_nat (cpus s)"
    using i l by (simp_all add: inited_def sizes_def)
  have fl: "fl_at s' j = init_fl K s (at j) j (fl_at s j)" "nodes s' (at j) = init_node K s j (fl_at s j)" if "j < cpus s" for j
    using i that sizes_cong [OF v] by (simp_all add: inited_def)
  have il: "list_ok K (nodes s') (fl_at s' j)" "free_of (nodes s') (fl_at s' j) = share s j" "ids (fl_at s' j) = [at j]"
    if "j < cpus s" for j
    using init_list_ok [OF K lay that, of "nodes s'" "at j" "fl_at s j"] fl [OF that] by simp_all
  have "nova_ok K s'"
  proof -
    have b: "block_start (init_fl K s (at j) j g) = block_start (nova_init_free_list s j g)"
      "block_end (init_fl K s (at j) j g) = block_end (nova_init_free_list s j g)" for j g by (simp_all add: init_fl_def Let_def)
    have "0 < cpus s" using lay by (simp add: layout_ok_def)
    note p = init_bounds(7,8) [OF lay this]
    have "list_ok K (nodes s') (fl_at s' j) \<and> unat (per_list_blocks s') * j \<le> unat (block_start (fl_at s' j)) \<and>
        unat (block_end (fl_at s' j)) < unat (per_list_blocks s') * Suc j" if j: "j < cpus s" for j
      using il(1) [OF j] init_bounds(5,6) [OF lay j, of "fl_at s j"] unfolding f(3) p(1) by (simp add: fl(1) [OF j] b)
    moreover have "set (ids (fl_at s' a)) \<inter> set (ids (fl_at s' b)) = {}" if "a < cpus s" "b < cpus s" "a \<noteq> b" for a b
      using il(3) [OF that(1)] il(3) [OF that(2)] inj_onD [OF at, of a b] that by auto
    ultimately show ?thesis using f p \<open>0 < cpus s\<close> unfolding nova_ok_def by simp
  qed
  moreover have "nova_free s' = (\<Union>i < cpus s. share s i)"
    unfolding nova_free_def f using il(2) by (intro SUP_cong) simp_all
  ultimately show ?thesis using run by (simp add: nova_init_blockmap_def)
qed

end
