(* ===== verification/Nova_Balloc_Props.thy ===== *)
theory Nova_Balloc_Props
  imports Nova_Balloc_New Nova_Balloc_Init
begin

unbundle bit_operations_syntax

text \<open>
  The choice of a free list, allocation on all lists together, and the properties of the block allocator of NOVA.
\<close>

section \<open>The choice of a list\<close>

lemma unat_scast_small:
  fixes x :: u32
  assumes "unat x < 2 ^ 31"
  shows "unat (scast x :: u64) = unat x"
proof -
  have "int (unat x) < int (2 ^ 31)" using assms by (simp only: of_nat_less_iff)
  then have "uint x < 2 ^ 31" by simp
  moreover have "- (2 ^ 31) \<le> uint x" by (rule order_trans [OF _ uint_ge_0]) simp
  ultimately have "sint x = int (unat x)" by (simp add: sint_uint signed_take_bit_int_eq_self_iff)
  then have "(scast x :: u64) = of_nat (unat x)" by (simp add: scast_eq)
  then show ?thesis using assms by (simp only:) (rule unat_of_nat_less, simp)
qed

lemma free_count_bound:
  assumes "list_ok K h fl"
  shows "unat (num_free_blocks fl) < 2 ^ 31"
proof -
  have s: "shape_ok K h fl" and c: "unat (num_free_blocks fl) = card (free_of h fl)" using assms by (simp_all add: list_ok_def)
  have "card (free_of h fl) \<le> card {unat (block_start fl)..unat (block_end fl)}" by (rule card_mono [OF _ free_of_range [OF s]]) simp
  also have "\<dots> < 2 ^ 31" using shape_okD(2,3) [OF s] by simp
  finally show ?thesis using c by simp
qed

lemma candidate_fold:
  assumes ok: "nova_ok K sbi" and m: "m \<le> cpus sbi"
  shows "\<exists>c most. fold (\<lambda>i (cpuid, most). let n = num_free_blocks (fl_at sbi i)
      in if n > scast (most :: u32) then (i, ucast n) else (cpuid, most)) [0..<m] (0, 0) = (c, most) \<and> c < cpus sbi \<and>
    unat most < 2 ^ 31 \<and> (\<forall>i < m. unat (num_free_blocks (fl_at sbi i)) \<le> unat most) \<and>
    unat most \<le> unat (num_free_blocks (fl_at sbi c))"
  using m
proof (induction m)
  case 0
  then show ?case using nova_okD(1) [OF ok] by simp
next
  case (Suc m)
  then obtain c most where f: "fold (\<lambda>i (cpuid, most). let n = num_free_blocks (fl_at sbi i)
      in if n > scast (most :: u32) then (i, ucast n) else (cpuid, most)) [0..<m] (0, 0) = (c, most)" "c < cpus sbi"
    "unat most < 2 ^ 31" "\<forall>i < m. unat (num_free_blocks (fl_at sbi i)) \<le> unat most"
    "unat most \<le> unat (num_free_blocks (fl_at sbi c))" by auto
  let ?n = "num_free_blocks (fl_at sbi m)"
  have b: "unat ?n < 2 ^ 31" using free_count_bound nova_okD(4) [OF ok, of m] Suc.prems by simp
  then have u: "unat (ucast ?n :: u32) = unat ?n" by (intro unat_ucast_down) simp
  have g: "?n > scast most \<longleftrightarrow> unat most < unat ?n" using unat_scast_small [OF f(3)] by (simp add: word_less_nat_alt)
  show ?case
  proof (cases "?n > scast most")
    case True
    then show ?thesis using f b u g Suc.prems by (auto simp: less_Suc_eq)
  next
    case False
    then show ?thesis using f g Suc.prems by (auto simp: less_Suc_eq)
  qed
qed

lemma candidate_ok:
  assumes ok: "nova_ok K sbi"
  shows "nova_get_candidate_free_list sbi < cpus sbi"
    "i < cpus sbi \<Longrightarrow> unat (num_free_blocks (fl_at sbi i)) \<le> unat (num_free_blocks (fl_at sbi (nova_get_candidate_free_list sbi)))"
  using candidate_fold [OF ok order_refl] unfolding nova_get_candidate_free_list_def by fastforce+

lemma free_empty_iff:
  assumes "list_ok K h fl"
  shows "free_of h fl = {} \<longleftrightarrow> num_free_blocks fl = 0"
proof -
  have "free_of h fl = {} \<longleftrightarrow> unat (num_free_blocks fl) = 0" using assms by (simp add: list_ok_def)
  then show ?thesis by (simp add: unat_eq_0)
qed

lemma candidate_empty:
  assumes ok: "nova_ok K sbi" and e: "free_of (nodes sbi) (fl_at sbi (nova_get_candidate_free_list sbi)) = {}"
  shows "nova_free sbi = {}"
proof -
  note c = candidate_ok [OF ok]
  have "num_free_blocks (fl_at sbi (nova_get_candidate_free_list sbi)) = 0"
    using e free_empty_iff [OF nova_okD(4) [OF ok c(1)]] by simp
  then have "unat (num_free_blocks (fl_at sbi i)) = 0" if "i < cpus sbi" for i using c(2) [OF that] by simp
  then have "free_of (nodes sbi) (fl_at sbi i) = {}" if "i < cpus sbi" for i
    using that free_empty_iff [OF nova_okD(4) [OF ok that]] by (simp add: unat_eq_0)
  then show ?thesis by (simp add: nova_free_def)
qed

lemma enough_nonempty:
  assumes l: "list_ok K h fl" and n: "0 < unat n" and e: "\<not> not_enough_blocks h fl n atype"
  shows "free_of h fl \<noteq> {}"
proof
  assume "free_of h fl = {}"
  then have "num_free_blocks fl = 0" using free_empty_iff [OF l] by simp
  then have "num_free_blocks fl < n" using n by (simp add: word_less_nat_alt)
  then show False using e by (simp add: not_enough_blocks_def split: option.splits)
qed

declare choose_list.simps [simp del]

lemma choose_list_ok:
  assumes ok: "nova_ok K sbi" and n: "0 < unat n"
  shows "cpuid < cpus sbi \<Longrightarrow> 0 < r \<or> cpuid = nova_get_candidate_free_list sbi \<Longrightarrow>
    \<exists>i. choose_list n atype sbi r cpuid = Some i \<and> i < cpus sbi \<and> (free_of (nodes sbi) (fl_at sbi i) = {} \<longrightarrow> nova_free sbi = {})"
proof (induction r arbitrary: cpuid)
  case 0
  then show ?case using nova_okD(2) [OF ok] candidate_empty [OF ok] by (simp add: choose_list.simps)
next
  case (Suc r)
  show ?case
  proof (cases "not_enough_blocks (nodes sbi) (fl_at sbi cpuid) n atype")
    case True
    then show ?thesis
      using Suc.IH [OF candidate_ok(1) [OF ok]] Suc.prems(1) nova_okD(2) [OF ok] by (simp add: choose_list.simps [of n atype sbi "Suc r"])
  next
    case False
    then show ?thesis
      using enough_nonempty [OF nova_okD(4) [OF ok Suc.prems(1)] n False] Suc.prems(1) nova_okD(2) [OF ok]
      by (simp add: choose_list.simps)
  qed
qed

section \<open>Allocation\<close>

lemma new_len:
  "unat (ucast (num :: u32) * nova_get_numblocks btype :: u64) = unat num * unat (nova_get_numblocks btype)"
  "unat num * unat (nova_get_numblocks btype) < 2 ^ 63"
proof -
  have "unat num < 2 ^ 32" using unat_bound [of num] by simp
  then have le: "unat num * unat (nova_get_numblocks btype) \<le> 2 ^ 32 * 2 ^ 18" using nova_numblocks(2) [of btype] by (intro mult_le_mono) simp_all
  then show "unat num * unat (nova_get_numblocks btype) < 2 ^ 63" by simp
  show "unat (ucast (num :: u32) * nova_get_numblocks btype :: u64) = unat num * unat (nova_get_numblocks btype)"
    using le unat_ucast_up [of num] by (simp add: unat_word_ariths)
qed

lemma count_alloc_ok:
  "list_ok K h (count_alloc a r fl) = list_ok K h fl" "ids (count_alloc a r fl) = ids fl"
  "relist new h0 fl0 h (count_alloc a r fl) = relist new h0 fl0 h fl" "r \<le> 0 \<Longrightarrow> count_alloc a r fl = fl"
  by (simp_all add: count_alloc_def list_ok_def shape_ok_def relist_def split: alloc_type.splits)

lemma ret_value:
  assumes "len < 2 ^ 31"
  shows "sint (ucast (of_int (int len) div nova_get_numblocks btype :: u64) :: u32) = int (len div unat (nova_get_numblocks btype))"
proof -
  let ?q = "of_int (int len) div nova_get_numblocks btype :: u64"
  have "unat (of_nat len :: u64) = len" using assms by (intro unat_of_nat_less) simp
  then have q: "unat ?q = len div unat (nova_get_numblocks btype)" by (simp add: unat_div)
  have l: "len div unat (nova_get_numblocks btype) < 2 ^ 31" by (rule le_less_trans [OF div_le_dividend assms])
  then have u: "unat (ucast ?q :: u32) = len div unat (nova_get_numblocks btype)" using q by (subst unat_ucast_down) simp_all
  then have "uint (ucast ?q :: u32) = int (len div unat (nova_get_numblocks btype))" by (simp only: uint_nat)
  moreover have "int (len div unat (nova_get_numblocks btype)) < 2 ^ 31" using l by (simp only: of_nat_less_numeral_power_cancel_iff)
  ultimately show ?thesis by (simp only: sint_uint) (simp add: signed_take_bit_int_eq_self_iff)
qed

definition zeroed :: "bool \<Rightarrow> nat \<Rightarrow> nat \<Rightarrow> mem \<Rightarrow> mem \<Rightarrow> bool" where
  "zeroed zero nr len m m' \<longleftrightarrow> (\<forall>x. m' x = (if zero \<and> nr * 4096 \<le> x \<and> x < (nr + len) * 4096 then 0 else m x))"

definition allocated :: "rb_kernel \<Rightarrow> u32 \<Rightarrow> u16 \<Rightarrow> bool \<Rightarrow> nova_sb_info \<Rightarrow> int \<Rightarrow> u64 \<Rightarrow> nova_sb_info \<Rightarrow> bool" where
  "allocated K num btype zero sbi ret nr sbi' \<longleftrightarrow>
     (\<exists>len. 0 < len \<and> len \<le> unat num * unat (nova_get_numblocks btype) \<and> ret = int (len div unat (nova_get_numblocks btype)) \<and>
        {unat nr..<unat nr + len} \<subseteq> nova_free sbi \<and> nova_free sbi' = nova_free sbi - {unat nr..<unat nr + len} \<and>
        nova_ok K sbi' \<and> zeroed zero (unat nr) len (nvmm sbi) (nvmm sbi') \<and> same_zones sbi sbi' \<and>
        (btype \<le> 1 \<longrightarrow> len = nat ret * unat (nova_get_numblocks btype)))"

lemma alloc_state:
  fixes atype :: alloc_type and zero :: bool
  assumes ok: "nova_ok K sbi" and f: "fresh y sbi" and i: "i < cpus sbi"
    and n: "unat n = unat num * unat (nova_get_numblocks btype)"
    and r: "alloc_result K y btype n (nodes sbi) (fl_at sbi i) ret nr h' fl'"
  defines "sbi1 \<equiv> set_list i (count_alloc atype ret fl') (sbi\<lparr>nodes := h'\<rparr>)"
  shows "0 < ret \<and> nr \<noteq> 0 \<and> allocated K num btype zero sbi
    (sint (ucast (of_int ret div nova_get_numblocks btype :: u64) :: u32)) nr
    (if zero then sbi1\<lparr>nvmm := nput (unat (push_bit 12 nr)) (replicate (4096 * nat ret) 0) (nvmm sbi1)\<rparr> else sbi1)"
proof -
  let ?nb = "unat (nova_get_numblocks btype)"
  let ?sbi = "if zero then sbi1\<lparr>nvmm := nput (unat (push_bit 12 nr)) (replicate (4096 * nat ret) 0) (nvmm sbi1)\<rparr> else sbi1"
  from r obtain len where l: "ret = int len" "0 < len" "len \<le> unat n" "0 < unat nr"
    "{unat nr..<unat nr + len} \<subseteq> free_of (nodes sbi) (fl_at sbi i)" "list_ok K h' fl'"
    "free_of h' fl' = free_of (nodes sbi) (fl_at sbi i) - {unat nr..<unat nr + len}" "relist (Some y) (nodes sbi) (fl_at sbi i) h' fl'"
    "btype = 1 \<longrightarrow> 512 dvd unat n \<longrightarrow> 512 dvd len" by (auto simp: alloc_result_def)
  have li: "list_ok K h' (count_alloc atype ret fl')" "relist (Some y) (nodes sbi) (fl_at sbi i) h' (count_alloc atype ret fl')"
    using l(6,8) count_alloc_ok by simp_all
  note rl = replace_list(1,2) [OF ok i li, folded sbi1_def]
  have ok1: "nova_ok K sbi1" and fr1: "nova_free sbi1 = nova_free sbi - zone sbi i \<union> free_of h' (count_alloc atype ret fl')"
    using rl f by auto
  have zi: "nova_free sbi \<inter> zone sbi i = free_of (nodes sbi) (fl_at sbi i)" by (rule nova_free_zone [OF ok i])
  have fr: "nova_free sbi1 = nova_free sbi - {unat nr..<unat nr + len}"
    unfolding fr1 count_alloc_ok(2) l(7) using zi l(5) by blast
  have view: "nova_ok K (s\<lparr>nvmm := m\<rparr>) = nova_ok K s" "nova_free (s\<lparr>nvmm := m\<rparr>) = nova_free s" for s m
    by (simp_all add: nova_ok_def nova_free_def)
  have "unat nr + len - 1 \<in> zone sbi i" using l(2,5) free_in_zone [OF ok i] by (auto simp: subset_iff)
  then have hi: "unat nr + len - 1 < 2 ^ 31" using nova_okD(4) [OF ok i] by (auto simp: zone_def list_ok_def shape_ok_def)
  then have len31: "len < 2 ^ 31" using l(4) by simp
  have off: "unat (push_bit 12 nr) = unat nr * 4096"
    using hi l(2) by (simp add: push_bit_eq_mult unat_word_ariths)
  have "nvmm sbi1 = nvmm sbi" by (simp add: sbi1_def set_list_def)
  moreover have "(unat nr + len) * 4096 = unat nr * 4096 + 4096 * len" by simp
  ultimately have z: "zeroed zero (unat nr) len (nvmm sbi) (nvmm ?sbi)"
    using l(1) unfolding zeroed_def by (cases zero) (auto simp: nput_def off)
  have ex: "btype \<le> 1 \<longrightarrow> len = nat (int (len div ?nb)) * ?nb"
  proof
    assume "btype \<le> 1"
    then have "unat btype \<le> 1" by (simp add: word_le_nat_alt)
    then have "unat btype = 0 \<or> unat btype = 1" by linarith
    then have "btype = 0 \<or> btype = 1" by (simp add: word_unat_eq_iff)
    then consider "btype = 0" | "btype = 1" by blast
    then show "len = nat (int (len div ?nb)) * ?nb" using l(9) n by cases (simp_all add: nova_get_numblocks_def)
  qed
  have "same_zones sbi sbi1" unfolding sbi1_def using replace_zones [OF li(2)] i nova_okD(2) [OF ok] by simp
  then have sz: "same_zones sbi ?sbi" using same_zones_trans [OF _ same_zones_simps(3)] by simp
  have "allocated K num btype zero sbi (int (len div ?nb)) nr ?sbi"
    unfolding allocated_def using l(2,3,5) n zi ok1 fr z ex view sz by (intro exI [of _ len]) auto
  then show ?thesis using l(1,2,4) ret_value [OF len31, of btype] by auto
qed

lemma new_blocks_ok:
  assumes K: "rb_ok K" and ok: "nova_ok K sbi" and f: "fresh y sbi" and num: "num \<noteq> 0"
    and cpu: "cpuid = ANY_CPU \<or> cpuid < cpus sbi"
  shows "\<exists>ret out sbi'. nova_new_blocks K this_cpu (Some y) num btype zero atype cpuid dir sbi = Some (ret, out, sbi') \<and>
    ((\<exists>nr. out = Some nr \<and> allocated K num btype zero sbi ret nr sbi') \<or>
     ret = - ENOSPC \<and> out = None \<and> sbi' = sbi \<and> (btype = 0 \<longrightarrow> atype = DATA \<longrightarrow> nova_free sbi = {}))"
proof -
  let ?n = "ucast num * nova_get_numblocks btype :: u64"
  let ?c = "if cpuid = ANY_CPU then this_cpu mod cpus sbi else cpuid"
  note nl = new_len [of num btype] and d = nova_okD [OF ok]
  have n: "0 < unat ?n" "unat ?n < 2 ^ 63" using nl num nova_numblocks(1) [of btype] by (simp_all add: unat_gt_0)
  then have n0: "?n \<noteq> 0" by auto
  have "?c < cpus sbi" using cpu d(1) by auto
  from choose_list_ok [OF ok n(1) this, of 2 atype] obtain i where
    ch: "choose_list ?n atype sbi 2 ?c = Some i" "i < cpus sbi" "free_of (nodes sbi) (fl_at sbi i) = {} \<longrightarrow> nova_free sbi = {}" by auto
  have y: "y \<notin> set (ids (fl_at sbi i))" using f ch(2) by (simp add: fresh_def)
  from alloc_in_list_ok [OF K d(4) [OF ch(2)] y n, of btype atype dir] obtain ret nr h' fl' where
    al: "nova_alloc_blocks_in_free_list K (Some y) btype atype ?n dir (nodes sbi) (fl_at sbi i) = Some (ret, nr, h', fl')"
    "alloc_result K y btype ?n (nodes sbi) (fl_at sbi i) ret nr h' fl' \<or>
     ret = - ENOSPC \<and> h' = nodes sbi \<and> fl' = fl_at sbi i \<and> (btype = 0 \<longrightarrow> atype = DATA \<longrightarrow> free_of (nodes sbi) (fl_at sbi i) = {})" by blast
  from al(2) show ?thesis
  proof
    assume "alloc_result K y btype ?n (nodes sbi) (fl_at sbi i) ret nr h' fl'"
    from alloc_state [OF ok f ch(2) nl(1) this, of zero atype] show ?thesis
      unfolding nova_new_blocks_def Let_def using n0 ch(1) al(1) by (simp del: word_neq_0_conv)
  next
    assume e: "ret = - ENOSPC \<and> h' = nodes sbi \<and> fl' = fl_at sbi i \<and> (btype = 0 \<longrightarrow> atype = DATA \<longrightarrow> free_of (nodes sbi) (fl_at sbi i) = {})"
    then have "ret \<le> 0" by (simp add: ENOSPC_def)
    then have "set_list i (count_alloc atype ret fl') (sbi\<lparr>nodes := h'\<rparr>) = sbi"
      using e count_alloc_ok(4) by (simp add: set_list_def)
    with e ch(3) \<open>ret \<le> 0\<close> show ?thesis
      unfolding nova_new_blocks_def Let_def using n0 ch(1) al(1) by simp
  qed
qed

section \<open>Properties\<close>

text \<open>One processor with the free range from block 10 to block 1999.\<close>

definition fl0 :: free_list where
  "fl0 = empty_list\<lparr>block_free_tree := Node Leaf 0 Leaf, first_node := Some 0, last_node := Some 0, block_start := 10,
     block_end := 1999, num_free_blocks := 1990, num_blocknode := 1\<rparr>"

definition nsb0 :: nova_sb_info where
  "nsb0 = \<lparr>nodes = (\<lambda>x. zalloc_node\<lparr>range_low := 10, range_high := 1999\<rparr>), free_lists = [fl0], per_list_blocks = 2000,
     num_blocks = 2000, initsize = 0, head_reserved_blocks = 10, tail_reserved_blocks = 0, cpus = 1, inode_maps = [],
     s_inodes_used_count = 0, s_epoch_id = 0, snapshot_info_tree = Map.empty, nvmm = (\<lambda>a. 1)\<rparr>"

lemma nsb0_ok: "nova_ok plain_rb nsb0" "fresh 5 nsb0" "nova_free nsb0 = {10..1999}" "zone nsb0 0 = {10..1999}"
  by (simp_all add: nova_ok_def list_ok_def shape_ok_def tree_ok_def nsb0_def fl0_def empty_list_def zalloc_node_def
      nova_range_node_checksum_ok_def plain_rb_def fresh_def nova_free_def zone_def lessThan_Suc)




text \<open>The same range is free, in a larger part of the device.\<close>

definition nsb1 :: nova_sb_info where
  "nsb1 = nsb0\<lparr>free_lists := [fl0\<lparr>block_end := 2999\<rparr>], per_list_blocks := 3000\<rparr>"

lemma nsb1_ok: "nova_ok plain_rb nsb1" "fresh 5 nsb1" "nova_free nsb1 = {10..1999}" "zone nsb1 0 = {10..2999}" "cpus nsb1 = 1"
  by (simp_all add: nova_ok_def list_ok_def shape_ok_def tree_ok_def nsb1_def nsb0_def fl0_def empty_list_def zalloc_node_def
      nova_range_node_checksum_ok_def plain_rb_def fresh_def nova_free_def zone_def lessThan_Suc)




text \<open>
  When the kernel has no memory for a second range node, allocating a huge page out of the middle of a free range
  shortens the range and then falls back to ordinary allocation: the request is served, and every block behind the cut
  is in no list any more, although the counter of the list still includes it.
\<close>

lemma superpage_enomem_leaks:
  "\<exists>sbi'. nova_new_blocks plain_rb 0 None 512 0 False DATA 0 ALLOC_FROM_HEAD nsb0 = Some (502, Some 10, sbi') \<and>
     nova_free nsb0 = {10..1999} \<and> nova_free sbi' = {} \<and> num_free_blocks (fl_at sbi' 0) = 1488"
proof -
  let ?h = "(nodes nsb0)(0 := zalloc_node\<lparr>range_low := 10, range_high := 511\<rparr>)"
  let ?fl = "drop_node plain_rb 0 fl0"
  have b: "block_free_tree fl0 = Node Leaf 0 Leaf" "first_node fl0 = Some 0" "last_node fl0 = Some 0" "num_free_blocks fl0 = 1990"
    "free_lists nsb0 = [fl0]" "cpus nsb0 = 1" "nodes nsb0 = (\<lambda>x. zalloc_node\<lparr>range_low := 10, range_high := 1999\<rparr>)"
    by (simp_all add: fl0_def nsb0_def)
  have vis: "visit ALLOC_FROM_HEAD fl0 = [0]" by (simp add: visit_def b)
  have sup: "nova_alloc_superpage plain_rb None 512 ALLOC_FROM_HEAD (nodes nsb0) fl0 = Some (- ENOMEM, 512, ?h, fl0)"
    by (simp add: nova_alloc_superpage_def vis Let_def b superpage_cut_def nova_range_node_checksum_ok_def plain_rb_def
        put_node_def nova_update_range_node_checksum_def zalloc_node_def PAGES_PER_2MB_MASK_def)
  have lp: "alloc_loop plain_rb 0 ALLOC_FROM_HEAD [0] 512 512 ?h fl0 = (True, 502, 10, ?h, ?fl)"
    by (simp add: Let_def nova_range_node_checksum_ok_def plain_rb_def zalloc_node_def)
  have same: "visit ALLOC_FROM_HEAD (fl0\<lparr>first_node := Some 0, last_node := Some 0\<rparr>) = [0]" by (simp add: visit_def b)
  have "(512 :: u64) AND PAGES_PER_2MB_MASK = 0" by (simp add: PAGES_PER_2MB_MASK_def)
  then have al: "nova_alloc_blocks_in_free_list plain_rb None 0 DATA 512 ALLOC_FROM_HEAD (nodes nsb0) fl0 =
      Some (502, 10, ?h, ?fl\<lparr>num_free_blocks := 1488\<rparr>)"
    using sup lp same by (simp add: nova_alloc_blocks_in_free_list_def b ENOMEM_def drop_node_def del: alloc_loop.simps)
  have ch: "choose_list 512 DATA nsb0 2 0 = Some 0" by (subst choose_list.simps) (simp add: not_enough_blocks_def b)
  have "nova_new_blocks plain_rb 0 None 512 0 False DATA 0 ALLOC_FROM_HEAD nsb0 =
      Some (502, Some 10, set_list 0 (count_alloc DATA 502 (?fl\<lparr>num_free_blocks := 1488\<rparr>)) (nsb0\<lparr>nodes := ?h\<rparr>))"
    using ch al by (simp add: nova_new_blocks_def nova_get_numblocks_def ANY_CPU_def Let_def b del: choose_list.simps)
  then show ?thesis using nsb0_ok(3)
    by (simp add: nova_free_def set_list_def b count_alloc_def drop_node_def plain_rb_def)
qed

text \<open>
  A range that reaches into a free range behind it is not recognised when the search stops at the range before it:
  the blocks are freed a second time without an error, and the counter of the list exceeds the number of free blocks.
\<close>

definition nsb2 :: nova_sb_info where
  "nsb2 = nsb0\<lparr>nodes := (\<lambda>x. if x = 0 then zalloc_node\<lparr>range_low := 40, range_high := 49\<rparr> else zalloc_node\<lparr>range_low := 10, range_high := 19\<rparr>),
     free_lists := [fl0\<lparr>block_free_tree := Node (Node Leaf 1 Leaf) 0 Leaf, first_node := Some 1, num_free_blocks := 20, num_blocknode := 2\<rparr>]\<rparr>"

lemma overlap_free_undetected:
  "nova_ok plain_rb nsb2 \<and> (\<exists>sbi'. nova_free_blocks plain_rb (Some 5) 25 20 0 False nsb2 = Some (0, sbi') \<and>
     nova_free sbi' = {10..19} \<union> {25..49} \<and> num_free_blocks (fl_at sbi' 0) = 40 \<and> \<not> nova_ok plain_rb sbi')"
proof -
  let ?h = "(nodes nsb2)(5 := zalloc_node\<lparr>range_low := 25, range_high := 44\<rparr>)"
  let ?fl = "(fl_at nsb2 0)\<lparr>block_free_tree := Node (Node Leaf 1 (Node Leaf 5 Leaf)) 0 Leaf, num_blocknode := 3\<rparr>"
  note d = nsb2_def nsb0_def fl0_def empty_list_def zalloc_node_def nova_range_node_checksum_ok_def plain_rb_def
  have "card ({10..19} \<union> {40..49 :: nat}) = 20" by (subst card_Un_disjoint) simp_all
  then have ok: "nova_ok plain_rb nsb2"
    by (simp add: nova_ok_def list_ok_def shape_ok_def tree_ok_def d)
  have sl: "nova_find_free_slot plain_rb ((nodes nsb2)(5 := zalloc_node)) (block_free_tree (fl_at nsb2 0)) 25 44 = Inr (Some 1, Some 0)"
    by (simp add: nova_find_free_slot_def nova_find_range_node_def nova_rbtree_compare_rangenode_def Let_def rb_next_def d)
  have pl: "free_place plain_rb 5 25 44 20 (Some 1) (Some 0) ((nodes nsb2)(5 := zalloc_node)) (fl_at nsb2 0) = (0, ?h, ?fl)"
    by (simp add: free_place_def insert_cur_def put_node_def nova_update_range_node_checksum_def nova_insert_blocktree_def
        nova_insert_range_node_def nova_rbtree_compare_rangenode_def Let_def d)
  have run: "nova_free_blocks plain_rb (Some 5) 25 20 0 False nsb2 = Some (0, set_list 0 (count_free False 20 ?fl) (nsb2\<lparr>nodes := ?h\<rparr>))"
    using sl pl by (simp add: nova_free_blocks_def list_of_block_def nova_get_numblocks_def Let_def d del: fun_upd_apply)
  have "{10..19} \<union> ({25..44} \<union> {40..49}) = {10..19} \<union> {25..49 :: nat}" by auto
  then have "nova_free (set_list 0 (count_free False 20 ?fl) (nsb2\<lparr>nodes := ?h\<rparr>)) = {10..19} \<union> {25..49}"
    by (simp add: nova_free_def set_list_def lessThan_Suc d)
  moreover have "\<not> nova_ok plain_rb (set_list 0 (count_free False 20 ?fl) (nsb2\<lparr>nodes := ?h\<rparr>))"
    by (simp add: nova_ok_def list_ok_def shape_ok_def tree_ok_def set_list_def d)
  moreover have "num_free_blocks (fl_at (set_list 0 (count_free False 20 ?fl) (nsb2\<lparr>nodes := ?h\<rparr>)) 0) = 40"
    by (simp add: set_list_def d)
  ultimately show ?thesis using ok run by blast
qed

end
