(* ===== verification/Nova_Inode_Map.thy ===== *)
theory Nova_Inode_Map
  imports Nova_Balloc
begin

text \<open>
  The maps of inode numbers in use of NOVA (inode.c, and the insertion during recovery of bbuild.c): one tree of ranges
  for each processor, where inode \<open>ino\<close> belongs to processor \<open>ino mod cpus\<close> under the number \<open>ino div cpus\<close>.

  Operations run under the mutex of their map.  An access outside the array of maps, a null pointer and a \<^verbatim>\<open>BUG\<close>
  have the value \<open>None\<close>.
\<close>

definition NOVA_NORMAL_INODE_START :: u64 where "NOVA_NORMAL_INODE_START = 32"

definition MAX_INODE :: u64 where "MAX_INODE = push_bit 31 1"

definition set_map :: "nat \<Rightarrow> inode_map \<Rightarrow> nova_sb_info \<Rightarrow> nova_sb_info" where
  "set_map i im sbi = sbi\<lparr>inode_maps := (inode_maps sbi)[i := im]\<rparr>"

definition cpus64 :: "nova_sb_info \<Rightarrow> u64" where "cpus64 sbi = of_nat (cpus sbi)"

definition nova_insert_inodetree :: "rb_kernel \<Rightarrow> rn_store \<Rightarrow> nat \<Rightarrow> nat \<Rightarrow> nova_sb_info \<Rightarrow> int \<times> nat tree" where
  "nova_insert_inodetree K h new_node cpu sbi =
     nova_insert_range_node K h (inode_inuse_tree (inode_maps sbi ! cpu)) new_node NODE_INODE"

definition nova_search_inodetree :: "rb_kernel \<Rightarrow> u64 \<Rightarrow> nova_sb_info \<Rightarrow> bool \<times> nat option" where
  "nova_search_inodetree K ino sbi =
     nova_find_range_node K (nodes sbi) (inode_inuse_tree (inode_maps sbi ! unat (ino mod cpus64 sbi)))
       (ino div cpus64 sbi) NODE_INODE"

section \<open>Initialisation\<close>

text \<open>One turn of the loop.\<close>

definition init_inuse :: "rb_kernel \<Rightarrow> nat option \<Rightarrow> u64 \<Rightarrow> nat \<Rightarrow> nova_sb_info \<Rightarrow> int \<times> nova_sb_info" where
  "init_inuse K new high i sbi =
     (case new of
        None \<Rightarrow> (- ENOMEM, sbi)
      | Some x \<Rightarrow>
          let h = put_node K x (\<lambda>n. n\<lparr>range_low := 0, range_high := high\<rparr>) ((nodes sbi)(x := zalloc_node))
          in case nova_insert_inodetree K h x i sbi of
               (ret, tree) \<Rightarrow>
                 if ret \<noteq> 0 then (ret, sbi\<lparr>nodes := h\<rparr>)
                 else (0, set_map i ((inode_maps sbi ! i)\<lparr>inode_inuse_tree := tree, num_range_node_inode := 1,
                         first_inode_range := Some x\<rparr>) (sbi\<lparr>nodes := h\<rparr>)))"

fun init_inuse_loop :: "rb_kernel \<Rightarrow> (nat \<Rightarrow> nat option) \<Rightarrow> u64 \<Rightarrow> nat list \<Rightarrow> nova_sb_info \<Rightarrow> int \<times> nova_sb_info" where
  "init_inuse_loop K new high [] sbi = (0, sbi)"
| "init_inuse_loop K new high (i # is) sbi =
     (case init_inuse K (new i) high i sbi of
        (ret, sbi') \<Rightarrow> if ret \<noteq> 0 then (ret, sbi') else init_inuse_loop K new high is sbi')"

definition nova_init_inode_inuse_list :: "rb_kernel \<Rightarrow> (nat \<Rightarrow> nat option) \<Rightarrow> nova_sb_info \<Rightarrow> int \<times> nova_sb_info" where
  "nova_init_inode_inuse_list K new sbi =
     (let high = NOVA_NORMAL_INODE_START div cpus64 sbi + (if NOVA_NORMAL_INODE_START mod cpus64 sbi \<noteq> 0 then 1 else 0)
      in init_inuse_loop K new high [0..<cpus sbi] (sbi\<lparr>s_inodes_used_count := NOVA_NORMAL_INODE_START\<rparr>))"

section \<open>Allocation\<close>

text \<open>The return value, the new inode number and the state.\<close>

definition nova_alloc_unused_inode :: "rb_kernel \<Rightarrow> nat \<Rightarrow> nova_sb_info \<Rightarrow> (int \<times> u64 option \<times> nova_sb_info) option" where
  "nova_alloc_unused_inode K cpuid sbi =
     (if cpuid \<ge> length (inode_maps sbi) then None
      else
        let im = inode_maps sbi ! cpuid; h = nodes sbi; t = inode_inuse_tree im
        in case first_inode_range im of
             None \<Rightarrow> None
           | Some i \<Rightarrow>
               if \<not> nova_range_node_checksum_ok K (h i) then Some (- EIO, None, sbi)
               else
                 let next = rb_next t i in
                 if (case next of None \<Rightarrow> False | Some j \<Rightarrow> \<not> nova_range_node_checksum_ok K (h j)) then Some (- EIO, None, sbi)
                 else
                   let next_range_low = (case next of None \<Rightarrow> MAX_INODE | Some j \<Rightarrow> range_low (h j));
                       new_ino = range_high (h i) + 1;
                       finish = (\<lambda>h' im'. Some (0, Some (new_ino * cpus64 sbi + of_nat cpuid),
                         set_map cpuid (im'\<lparr>im_allocated := im_allocated im' + 1\<rparr>)
                           (sbi\<lparr>nodes := h', s_inodes_used_count := s_inodes_used_count sbi + 1\<rparr>)))
                   in if next \<noteq> None \<and> new_ino = next_range_low - 1 then
                        finish (put_node K i (\<lambda>n. n\<lparr>range_high := range_high (h (the next))\<rparr>) h)
                          (im\<lparr>inode_inuse_tree := rb_erase K (the next) t, num_range_node_inode := num_range_node_inode im - 1\<rparr>)
                      else if new_ino < next_range_low - 1 then
                        finish (put_node K i (\<lambda>n. n\<lparr>range_high := new_ino\<rparr>) h) im
                      else Some (- ENOSPC, None, sbi))"

section \<open>Freeing\<close>

text \<open>
  When there is no memory for the second half of a range that is split, the code counts the inode as freed and returns
  success without freeing it.
\<close>

definition nova_free_inuse_inode :: "rb_kernel \<Rightarrow> nat option \<Rightarrow> u64 \<Rightarrow> nova_sb_info \<Rightarrow> (int \<times> nova_sb_info) option" where
  "nova_free_inuse_inode K new ino sbi =
     (if cpus64 sbi = 0 then None
      else
        let cpuid = unat (ino mod cpus64 sbi); internal_ino = ino div cpus64 sbi
        in if cpuid \<ge> length (inode_maps sbi) then None
           else
             case nova_search_inodetree K ino sbi of
               (True, Some i) \<Rightarrow>
                 let im = inode_maps sbi ! cpuid; h = nodes sbi; t = inode_inuse_tree im;
                     low = range_low (h i); high = range_high (h i);
                     found = (\<lambda>h' im'. Some (0, set_map cpuid (im'\<lparr>im_freed := im_freed im' + 1\<rparr>)
                       (sbi\<lparr>nodes := h', s_inodes_used_count := s_inodes_used_count sbi - 1\<rparr>)))
                 in if internal_ino = low \<and> internal_ino = high then
                      found h (im\<lparr>inode_inuse_tree := rb_erase K i t, num_range_node_inode := num_range_node_inode im - 1\<rparr>)
                    else if internal_ino = low \<and> internal_ino < high then
                      found (put_node K i (\<lambda>n. n\<lparr>range_low := internal_ino + 1\<rparr>) h) im
                    else if internal_ino > low \<and> internal_ino = high then
                      found (put_node K i (\<lambda>n. n\<lparr>range_high := internal_ino - 1\<rparr>) h) im
                    else if internal_ino > low \<and> internal_ino < high then
                      (case new of
                         None \<Rightarrow> found h im
                       | Some x \<Rightarrow>
                           let h1 = put_node K x (\<lambda>n. n\<lparr>range_low := internal_ino + 1, range_high := high\<rparr>) (h(x := zalloc_node));
                               h2 = put_node K i (\<lambda>n. n\<lparr>range_high := internal_ino - 1\<rparr>) h1
                           in case nova_insert_inodetree K h2 x cpuid sbi of
                                (ret, tree) \<Rightarrow>
                                  if ret \<noteq> 0 then Some (ret, sbi\<lparr>nodes := h2\<rparr>)
                                  else found h2 (im\<lparr>inode_inuse_tree := tree, num_range_node_inode := num_range_node_inode im + 1\<rparr>))
                    else Some (0, sbi)
             | _ \<Rightarrow> Some (- EINVAL, sbi))"

section \<open>Insertion during recovery\<close>

definition nova_failure_insert_inodetree ::
    "rb_kernel \<Rightarrow> nat option \<Rightarrow> u64 \<Rightarrow> u64 \<Rightarrow> nova_sb_info \<Rightarrow> (int \<times> nova_sb_info) option" where
  "nova_failure_insert_inodetree K new ino_low ino_high sbi =
     (if ino_low > ino_high \<or> cpus64 sbi = 0 \<or> ino_high mod cpus64 sbi \<noteq> ino_low mod cpus64 sbi then None
      else
        let cpu = unat (ino_low mod cpus64 sbi); low = ino_low div cpus64 sbi; high = ino_high div cpus64 sbi
        in if cpu \<ge> length (inode_maps sbi) then None
           else
             let im = inode_maps sbi ! cpu; h = nodes sbi; t = inode_inuse_tree im
             in case nova_find_free_slot K h t low high of
                  Inl e \<Rightarrow> Some (e, sbi)
                | Inr (prev, next) \<Rightarrow>
                    let left = (prev \<noteq> None \<and> low = range_high (h (the prev)) + 1);
                        right = (next \<noteq> None \<and> high + 1 = range_low (h (the next)))
                    in if left \<and> right then
                         Some (0, set_map cpu (im\<lparr>inode_inuse_tree := rb_erase K (the next) t,
                             num_range_node_inode := num_range_node_inode im - 1\<rparr>)
                           (sbi\<lparr>nodes := put_node K (the prev) (\<lambda>m. m\<lparr>range_high := range_high (h (the next))\<rparr>) h\<rparr>))
                       else if left then
                         Some (0, sbi\<lparr>nodes := put_node K (the prev) (\<lambda>m. m\<lparr>range_high := range_high m + (high - low + 1)\<rparr>) h\<rparr>)
                       else if right then
                         Some (0, sbi\<lparr>nodes := put_node K (the next) (\<lambda>m. m\<lparr>range_low := range_low m - (high - low + 1)\<rparr>) h\<rparr>)
                       else
                         case new of
                           None \<Rightarrow> None
                         | Some x \<Rightarrow>
                             let h1 = put_node K x (\<lambda>n. n\<lparr>range_low := low, range_high := high\<rparr>) (h(x := zalloc_node))
                             in case nova_insert_inodetree K h1 x cpu sbi of
                                  (ret, tree) \<Rightarrow>
                                    if ret \<noteq> 0 then Some (ret, sbi\<lparr>nodes := h1\<rparr>)
                                    else Some (0, set_map cpu (im\<lparr>inode_inuse_tree := tree,
                                      num_range_node_inode := num_range_node_inode im + 1\<rparr>) (sbi\<lparr>nodes := h1\<rparr>)))"

end
