(* ===== verification/Nova_Inode_Props.thy ===== *)
theory Nova_Inode_Props
  imports Nova_Inode_Map Nova_Range_Inv
begin

text \<open>
  The invariant of the inode maps of NOVA, and the effect of allocating and freeing an inode number on the set of
  numbers in use.
\<close>

section \<open>One map\<close>

definition map_ok :: "rb_kernel \<Rightarrow> rn_store \<Rightarrow> inode_map \<Rightarrow> bool" where
  "map_ok K h im \<longleftrightarrow> tree_ok K h 0 (2 ^ 31 - 1) (inode_inuse_tree im) \<and> inorder (inode_inuse_tree im) \<noteq> [] \<and>
     lo h (hd (inorder (inode_inuse_tree im))) = 0 \<and> first_inode_range im = Some (hd (inorder (inode_inuse_tree im))) \<and>
     num_range_node_inode im = of_nat (length (inorder (inode_inuse_tree im)))"

abbreviation mids :: "inode_map \<Rightarrow> nat list" where "mids im \<equiv> inorder (inode_inuse_tree im)"

abbreviation inuse :: "rn_store \<Rightarrow> inode_map \<Rightarrow> nat set" where "inuse h im \<equiv> covered h (mids im)"

lemma map_okD:
  assumes "map_ok K h im"
  shows "tree_ok K h 0 (2 ^ 31 - 1) (inode_inuse_tree im)" "mids im \<noteq> []" "lo h (hd (mids im)) = 0"
    "first_inode_range im = Some (hd (mids im))" "num_range_node_inode im = of_nat (length (mids im))"
  using assms by (simp_all add: map_ok_def)

lemma map_cong:
  assumes "\<And>x. x \<in> set (mids im) \<Longrightarrow> h' x = h x"
  shows "map_ok K h' im = map_ok K h im" "inuse h' im = inuse h im"
proof -
  show "inuse h' im = inuse h im" using assms by (rule covered_cong)
  have "tree_ok K h' 0 (2 ^ 31 - 1) (inode_inuse_tree im) = tree_ok K h 0 (2 ^ 31 - 1) (inode_inuse_tree im)"
    using assms by (rule tree_ok_cong)
  moreover have "mids im \<noteq> [] \<Longrightarrow> h' (hd (mids im)) = h (hd (mids im))" using assms [OF hd_in_set] by blast
  ultimately show "map_ok K h' im = map_ok K h im" unfolding map_ok_def by (cases "mids im = []") simp_all
qed

text \<open>What an operation keeps: the nodes of the other maps.\<close>

definition remap :: "nat option \<Rightarrow> rn_store \<Rightarrow> inode_map \<Rightarrow> rn_store \<Rightarrow> inode_map \<Rightarrow> bool" where
  "remap new h im h' im' \<longleftrightarrow> set (mids im') \<subseteq> set (mids im) \<union> set_option new \<and>
     (\<forall>x. x \<notin> set (mids im) \<union> set_option new \<longrightarrow> h' x = h x)"

definition becomes :: "rb_kernel \<Rightarrow> nat option \<Rightarrow> nat set \<Rightarrow> rn_store \<Rightarrow> inode_map \<Rightarrow> rn_store \<Rightarrow> inode_map \<Rightarrow> bool" where
  "becomes K new U h im h' im' \<longleftrightarrow> map_ok K h' im' \<and> inuse h' im' = U \<and> remap new h im h' im'"

lemma becomes_resize:
  fixes K :: rb_kernel
  assumes m: "map_ok K h im" and i: "mids im = us @ x # vs" and h': "h' = put_node K x f h"
    and lo: "if us = [] then lo h' x = 0 else hi h (last us) + 2 \<le> lo h' x"
    and hi: "lo h' x \<le> hi h' x" "if vs = [] then hi h' x < 2 ^ 31 - 1 else hi h' x + 2 \<le> lo h (hd vs)"
  shows "becomes K new (covered h us \<union> {lo h' x..hi h' x} \<union> covered h vs) h im h' im"
proof -
  note d = map_okD [OF m]
  have lo': "if us = [] then 0 \<le> lo h' x else hi h (last us) + 2 \<le> lo h' x" using lo by (cases "us = []") simp_all
  note r = tree_ok_resize [OF d(1) i h' lo' hi]
  have dist: "distinct (us @ x # vs)" by (rule tree_okD(1) [OF d(1) i])
  have "lo h' (hd (mids im)) = 0"
  proof (cases us)
    case (Cons u us')
    then have "u \<noteq> x" using dist by auto
    then show ?thesis using d(3) h' i Cons by simp
  qed (use lo i in simp)
  then have "map_ok K h' im" using r(1) d by (simp add: map_ok_def)
  moreover have "remap new h im h' im" using i h' by (auto simp: remap_def)
  ultimately show ?thesis using r(2) by (simp add: becomes_def)
qed

lemma becomes_field [simp]:
  "becomes K new U h im h' (im'\<lparr>im_allocated := a\<rparr>) = becomes K new U h im h' im'"
  "becomes K new U h im h' (im'\<lparr>im_freed := a\<rparr>) = becomes K new U h im h' im'"
  by (simp_all add: becomes_def map_ok_def remap_def)

section \<open>Allocation in one map\<close>

lemma alloc_extend:
  assumes m: "map_ok K h im" and i: "mids im = x # vs" and n: "unat n = hi h x + 1"
    and gap: "if vs = [] then unat n < 2 ^ 31 - 1 else unat n + 2 \<le> lo h (hd vs)"
  shows "becomes K new (insert (unat n) (inuse h im)) h im (put_node K x (\<lambda>m. m\<lparr>range_high := n\<rparr>) h) im"
proof -
  let ?h = "put_node K x (\<lambda>m. m\<lparr>range_high := n\<rparr>) h"
  have lo0: "lo h x = 0" using map_okD(3) [OF m] i by simp
  have f: "lo ?h x = 0" "hi ?h x = unat n" using lo0 by simp_all
  have i': "mids im = [] @ x # vs" using i by simp
  have top: "if vs = [] then hi ?h x < 2 ^ 31 - 1 else hi ?h x + 2 \<le> lo h (hd vs)" unfolding f by (rule gap)
  have "becomes K new (covered h [] \<union> {lo ?h x..hi ?h x} \<union> covered h vs) h im ?h im"
    by (rule becomes_resize [OF m i' refl _ _ top]) (use f in simp_all)
  moreover have "{0..unat n} = insert (unat n) {0..hi h x}" using n by auto
  ultimately show ?thesis using i lo0 by (simp only: f) simp
qed

lemma alloc_join:
  fixes K :: rb_kernel
  assumes K: "rb_ok K" and m: "map_ok K h im" and i: "mids im = x # y # vs" and n: "n = hi h x + 1" "n + 1 = lo h y"
  defines "h' \<equiv> put_node K x (\<lambda>m. m\<lparr>range_high := range_high (h y)\<rparr>) h"
    and "im' \<equiv> im\<lparr>inode_inuse_tree := rb_erase K y (inode_inuse_tree im), num_range_node_inode := num_range_node_inode im - 1\<rparr>"
  shows "becomes K new (insert n (inuse h im)) h im h' im'"
proof -
  note d = map_okD [OF m]
  have i2: "mids im = [x] @ y # vs" using i by simp
  note dist = tree_okD(1) [OF d(1) i] and r = tree_okD(2) [OF d(1) i2]
  have i': "mids im' = [x] @ vs" using erase_mid [OF K i2] dist i by (simp add: im'_def)
  have t': "tree_ok K h 0 (2 ^ 31 - 1) (inode_inuse_tree im')" by (rule tree_ok_erase(1) [OF d(1) i2 i'])
  have lo0: "lo h x = 0" using d(3) i by simp
  have m': "map_ok K h im'" unfolding map_ok_def using t' i' d(4,5) i lo0 by (simp add: im'_def)
  have ie: "mids im' = [] @ x # vs" using i' by simp
  have f: "lo h' x = 0" "hi h' x = hi h y" using lo0 by (simp_all add: h'_def)
  have nb: "lo h y \<le> hi h y" "hi h y < 2 ^ 31 - 1" using ranges_mem [OF r, of y] by simp_all
  have top: "if vs = [] then hi h' x < 2 ^ 31 - 1 else hi h' x + 2 \<le> lo h (hd vs)"
    using ranges_split(2) [OF r, of "hd vs"] nb(2) f(2) by (cases "vs = []") simp_all
  have b: "becomes K new (covered h [] \<union> {lo h' x..hi h' x} \<union> covered h vs) h im' h' im'"
    by (rule becomes_resize [OF m' ie h'_def [THEN meta_eq_to_obj_eq]]) (use f top in \<open>simp_all split: if_splits\<close>)
  have "{0..hi h y} = insert n ({0..hi h x} \<union> {lo h y..hi h y})" using n nb(1) by auto
  then have "covered h [] \<union> {lo h' x..hi h' x} \<union> covered h vs = insert n (inuse h im)" using i lo0 f by auto
  moreover have "remap new h im h' im'" using i i' by (auto simp: remap_def h'_def put_node_def)
  ultimately show ?thesis using b by (simp add: becomes_def)
qed

section \<open>Freeing in one map\<close>

lemma free_whole:
  fixes K :: rb_kernel
  assumes K: "rb_ok K" and m: "map_ok K h im" and i: "mids im = us @ x # vs" and k: "lo h x = k" "hi h x = k" "0 < k"
  defines "im' \<equiv> im\<lparr>inode_inuse_tree := rb_erase K x (inode_inuse_tree im), num_range_node_inode := num_range_node_inode im - 1\<rparr>"
  shows "becomes K new (inuse h im - {k}) h im h im'"
proof -
  note d = map_okD [OF m]
  note dist = tree_okD(1) [OF d(1) i]
  have i': "mids im' = us @ vs" using erase_mid [OF K i] dist i by (simp add: im'_def)
  note te = tree_ok_erase [OF d(1) i i']
  obtain u us' where us: "us = u # us'" using d(3) i k by (cases us) auto
  have "map_ok K h im'" unfolding map_ok_def using te(1) i' d(3,4,5) i us by (simp add: im'_def)
  moreover have "remap new h im h im'" using i i' by (auto simp: remap_def)
  ultimately show ?thesis using te(2) k by (simp add: becomes_def)
qed

lemma covered_around:
  assumes "map_ok K h im" "mids im = us @ x # vs"
  shows "covered h us \<inter> {lo h x..hi h x} = {}" "covered h vs \<inter> {lo h x..hi h x} = {}"
    "us \<noteq> [] \<Longrightarrow> hi h (last us) + 2 \<le> lo h x" "vs \<noteq> [] \<Longrightarrow> hi h x + 2 \<le> lo h (hd vs)" "lo h x \<le> hi h x" "hi h x < 2 ^ 31 - 1"
    "us = [] \<Longrightarrow> lo h x = 0"
proof -
  note d = map_okD [OF assms(1)]
  note r = tree_okD(2) [OF d(1) assms(2)]
  note s = ranges_split [OF r]
  show "covered h us \<inter> {lo h x..hi h x} = {}" "covered h vs \<inter> {lo h x..hi h x} = {}" using s by (fastforce simp: covered_def)+
  show "us \<noteq> [] \<Longrightarrow> hi h (last us) + 2 \<le> lo h x" "vs \<noteq> [] \<Longrightarrow> hi h x + 2 \<le> lo h (hd vs)"
    using s(1) [of "last us"] s(2) [of "hd vs"] by simp_all
  show "lo h x \<le> hi h x" "hi h x < 2 ^ 31 - 1" using ranges_mem [OF r, of x] by simp_all
  show "us = [] \<Longrightarrow> lo h x = 0" using d(3) assms(2) by simp
qed

lemma free_end:
  fixes K :: rb_kernel
  assumes m: "map_ok K h im" and i: "mids im = us @ x # vs" and h': "h' = put_node K x f h"
    and k: "0 < k" "lo h' x \<le> hi h' x" "lo h' x = (if lo h x = k then k + 1 else lo h x)" "hi h' x = (if lo h x = k then hi h x else k - 1)"
    "hi h x = k \<or> lo h x = k" "lo h x < hi h x"
  shows "becomes K new (inuse h im - {k}) h im h' im"
proof -
  note c = covered_around [OF m i]
  have lo: "if us = [] then lo h' x = 0 else hi h (last us) + 2 \<le> lo h' x"
    using c(3,7) k by (cases "us = []") auto
  have top: "if vs = [] then hi h' x < 2 ^ 31 - 1 else hi h' x + 2 \<le> lo h (hd vs)"
    using c(4,6) k by (cases "vs = []") auto
  have "{lo h' x..hi h' x} = {lo h x..hi h x} - {k}" using k by auto
  moreover have "inuse h im = covered h us \<union> {lo h x..hi h x} \<union> covered h vs" using i by auto
  moreover have "k \<in> {lo h x..hi h x}" using k(5,6) by auto
  ultimately have "covered h us \<union> {lo h' x..hi h' x} \<union> covered h vs = inuse h im - {k}" using c(1,2) by blast
  then show ?thesis using becomes_resize [OF m i h' lo k(2) top, of new] by simp
qed

lemma free_split_node:
  fixes K :: rb_kernel
  assumes K: "rb_ok K" and m: "map_ok K h im" and i: "mids im = us @ x # vs" and y: "y \<notin> set (mids im)"
    and k: "lo h x < unat k" "unat k < hi h x"
  defines "h1 \<equiv> put_node K y (\<lambda>n. n\<lparr>range_low := k + 1, range_high := range_high (h x)\<rparr>) (h(y := zalloc_node))"
  defines "h2 \<equiv> put_node K x (\<lambda>n. n\<lparr>range_high := k - 1\<rparr>) h1"
  shows "\<exists>t'. nova_insert_range_node K h2 (inode_inuse_tree im) y NODE_INODE = (0, t') \<and>
    becomes K (Some y) (inuse h im - {unat k}) h im h2
      (im\<lparr>inode_inuse_tree := t', num_range_node_inode := num_range_node_inode im + 1\<rparr>)"
proof -
  note c = covered_around [OF m i]
  have xy: "x \<noteq> y" using y i by auto
  have same: "h1 z = h z" if "z \<in> set (mids im)" for z using that y by (auto simp: h1_def put_node_def)
  have same': "h1 z = h z" if "z \<in> set us \<union> set vs \<union> {x}" for z using same i that by auto
  have m1: "map_ok K h1 im" and u1: "inuse h1 im = inuse h im" using map_cong [of im h1 h] same m by simp_all
  have kb: "unat (k - 1) = unat k - 1" "unat (k + 1) = unat k + 1"
    using k c(6) by (simp_all add: unat_sub_le unat_add_less)
  have f: "lo h2 x = lo h x" "hi h2 x = unat k - 1" "lo h2 y = unat k + 1" "hi h2 y = hi h x"
    using xy same' [of x] kb by (simp_all add: h2_def h1_def)
  have lu: "us \<noteq> [] \<Longrightarrow> h1 (last us) = h (last us)" and hv: "vs \<noteq> [] \<Longrightarrow> h1 (hd vs) = h (hd vs)" using same' by simp_all
  have lo: "if us = [] then lo h2 x = 0 else hi h1 (last us) + 2 \<le> lo h2 x" using c(3,7) f(1) lu by (cases "us = []") simp_all
  have le: "lo h2 x \<le> hi h2 x" using f k by simp
  have top: "if vs = [] then hi h2 x < 2 ^ 31 - 1 else hi h2 x + 2 \<le> lo h1 (hd vs)"
    using c(4,6) f(2) k hv by (cases "vs = []") simp_all
  have b: "becomes K None (covered h1 us \<union> {lo h2 x..hi h2 x} \<union> covered h1 vs) h1 im h2 im"
    by (rule becomes_resize [OF m1 i h2_def [THEN meta_eq_to_obj_eq] lo le top])
  then have m2: "map_ok K h2 im" and u2: "inuse h2 im = covered h1 us \<union> {lo h2 x..hi h2 x} \<union> covered h1 vs" by (simp_all add: becomes_def)
  note d2 = map_okD [OF m2]
  have i2: "mids im = (us @ [x]) @ vs" using i by simp
  note r2 = tree_okD(2) [OF d2(1) i2] and c2 = covered_around [OF m2 i]
  have h2v: "h2 z = h z" if "z \<in> set vs" for z
    using that same' [of z] tree_okD(1) [OF d2(1) i] by (auto simp: h2_def put_node_def)
  have cut: "cut_at h2 (lo h2 y) (us @ [x]) vs"
  proof -
    have "hi h2 z < lo h2 y" if "z \<in> set (us @ [x])" for z
    proof (cases "z = x")
      case False
      then have "hi h2 z + 1 < lo h2 x" using that ranges_split(1) [OF tree_okD(2) [OF d2(1) i], of z] by simp
      then show ?thesis using f k by simp
    qed (use f k in simp)
    moreover have "lo h2 y < lo h2 z" if "z \<in> set vs" for z
      using ranges_split(2) [OF tree_okD(2) [OF map_okD(1) [OF m] i] that] h2v [OF that] f k by simp
    ultimately show ?thesis by (simp add: cut_at_def)
  qed
  have "\<forall>z \<in> set ((us @ [x]) @ vs). lo h2 z \<le> hi h2 z" using ranges_mem [OF r2] by blast
  from insert_range_node_ok [OF K _ i2 cut this, of NODE_INODE] obtain t' where
    t': "nova_insert_range_node K h2 (inode_inuse_tree im) y NODE_INODE = (0, t')" "inorder t' = (us @ [x]) @ y # vs" by auto
  have cy: "nova_range_node_checksum_ok K (h2 y)" using xy by (simp add: h2_def h1_def)
  have lo2: "if us @ [x] = [] then 0 \<le> lo h2 y else hi h2 (last (us @ [x])) + 2 \<le> lo h2 y" using f k by simp
  have le2: "lo h2 y \<le> hi h2 y" using f k by simp
  have top2: "if vs = [] then hi h2 y < 2 ^ 31 - 1 else hi h2 y + 2 \<le> lo h2 (hd vs)"
    using c(4,6) f(4) h2v [of "hd vs"] by (cases "vs = []") simp_all
  note ti = tree_ok_insert [OF d2(1) i2 t'(2) y refl cy lo2 le2 top2]
  let ?im = "im\<lparr>inode_inuse_tree := t', num_range_node_inode := num_range_node_inode im + 1\<rparr>"
  have "map_ok K h2 ?im" unfolding map_ok_def using ti(1) t'(2) d2 i by (cases us) simp_all
  moreover have "inuse h2 ?im = inuse h im - {unat k}"
  proof -
    have e: "covered h1 us = covered h us" "covered h1 vs = covered h vs" using same' by (intro covered_cong; simp)+
    have "{lo h2 x..hi h2 x} \<union> {lo h2 y..hi h2 y} = {lo h x..hi h x} - {unat k}" unfolding f using k by auto
    moreover have "inuse h2 ?im = covered h us \<union> ({lo h2 x..hi h2 x} \<union> {lo h2 y..hi h2 y}) \<union> covered h vs"
      using ti(2) u2 e by auto
    moreover have "inuse h im = covered h us \<union> {lo h x..hi h x} \<union> covered h vs" using i by auto
    moreover have "unat k \<in> {lo h x..hi h x}" using k by auto
    ultimately show ?thesis using c(1,2) by blast
  qed
  moreover have "remap (Some y) h im h2 ?im" using i t'(2) by (auto simp: remap_def h2_def h1_def put_node_def)
  ultimately show ?thesis using t'(1) by (auto simp: becomes_def)
qed

section \<open>All maps\<close>

abbreviation im_at :: "nova_sb_info \<Rightarrow> nat \<Rightarrow> inode_map" where "im_at sbi i \<equiv> inode_maps sbi ! i"

definition maps_ok :: "rb_kernel \<Rightarrow> nova_sb_info \<Rightarrow> bool" where
  "maps_ok K sbi \<longleftrightarrow> 0 < cpus sbi \<and> cpus sbi < 2 ^ 31 \<and> length (inode_maps sbi) = cpus sbi \<and>
     (\<forall>i < cpus sbi. map_ok K (nodes sbi) (im_at sbi i)) \<and>
     (\<forall>i < cpus sbi. \<forall>j < cpus sbi. i \<noteq> j \<longrightarrow> set (mids (im_at sbi i)) \<inter> set (mids (im_at sbi j)) = {})"

lemma maps_okD:
  assumes "maps_ok K sbi"
  shows "0 < cpus sbi" "cpus sbi < 2 ^ 31" "length (inode_maps sbi) = cpus sbi"
    "i < cpus sbi \<Longrightarrow> map_ok K (nodes sbi) (im_at sbi i)"
    "i < cpus sbi \<Longrightarrow> j < cpus sbi \<Longrightarrow> i \<noteq> j \<Longrightarrow> set (mids (im_at sbi i)) \<inter> set (mids (im_at sbi j)) = {}"
  using assms unfolding maps_ok_def by blast+

definition used_inos :: "nova_sb_info \<Rightarrow> nat set" where
  "used_inos sbi = {ino. ino div cpus sbi \<in> inuse (nodes sbi) (im_at sbi (ino mod cpus sbi))}"

definition new_inode_node :: "nat \<Rightarrow> nova_sb_info \<Rightarrow> bool" where
  "new_inode_node x sbi \<longleftrightarrow> (\<forall>i < cpus sbi. x \<notin> set (mids (im_at sbi i)))"

lemma replace_map:
  fixes sbi :: nova_sb_info and c :: u64
  assumes ok: "maps_ok K sbi" and i: "i < cpus sbi" and b: "becomes K new U (nodes sbi) (im_at sbi i) h' im'"
    and f: "\<And>x. new = Some x \<Longrightarrow> new_inode_node x sbi"
  defines "sbi' \<equiv> set_map i im' (sbi\<lparr>nodes := h', s_inodes_used_count := c\<rparr>)"
  shows "maps_ok K sbi'" "used_inos sbi' = {ino. if ino mod cpus sbi = i then ino div cpus sbi \<in> U else ino \<in> used_inos sbi}"
proof -
  note d = maps_okD [OF ok]
  have bd: "map_ok K h' im'" "inuse h' im' = U" and r: "remap new (nodes sbi) (im_at sbi i) h' im'" using b by (simp_all add: becomes_def)
  have at: "im_at sbi' i = im'" "j \<noteq> i \<Longrightarrow> im_at sbi' j = im_at sbi j" for j using i d(3) by (simp_all add: sbi'_def set_map_def)
  have fields: "cpus sbi' = cpus sbi" "nodes sbi' = h'" "length (inode_maps sbi') = length (inode_maps sbi)" by (simp_all add: sbi'_def set_map_def)
  have own: "x \<notin> set (mids (im_at sbi i)) \<union> set_option new" if "j < cpus sbi" "j \<noteq> i" "x \<in> set (mids (im_at sbi j))" for j x
    using d(5) [OF that(1) i that(2)] f that unfolding new_inode_node_def by auto
  have same: "h' x = nodes sbi x" if "j < cpus sbi" "j \<noteq> i" "x \<in> set (mids (im_at sbi j))" for j x
    using own [OF that] r unfolding remap_def by blast
  have cong: "map_ok K h' (im_at sbi j) = map_ok K (nodes sbi) (im_at sbi j)" "inuse h' (im_at sbi j) = inuse (nodes sbi) (im_at sbi j)"
    if "j < cpus sbi" "j \<noteq> i" for j
    using map_cong [of "im_at sbi j" h' "nodes sbi"] same [OF that] by blast+
  have "map_ok K h' (im_at sbi' j)" if "j < cpus sbi" for j using cong(1) [OF that] at(1) at(2) [of j] bd(1) d(4) [OF that] by (cases "j = i") simp_all
  moreover have "set (mids (im_at sbi' a)) \<inter> set (mids (im_at sbi' b)) = {}" if "a < cpus sbi" "b < cpus sbi" "a \<noteq> b" for a b
  proof -
    have "set (mids im') \<inter> set (mids (im_at sbi j)) = {}" if "j < cpus sbi" "j \<noteq> i" for j
      using own [OF that] r unfolding remap_def by blast
    then show ?thesis using at(1) at(2) [of a] at(2) [of b] d(5) [OF that] that by (cases "a = i"; cases "b = i") auto
  qed
  ultimately show "maps_ok K sbi'" using d(1-3) fields unfolding maps_ok_def by simp
  have "ino \<in> used_inos sbi' \<longleftrightarrow> (if ino mod cpus sbi = i then ino div cpus sbi \<in> U else ino \<in> used_inos sbi)" for ino
    using cong(2) [of "ino mod cpus sbi"] at(1) at(2) [of "ino mod cpus sbi"] bd(2) d(1)
    by (cases "ino mod cpus sbi = i") (simp_all add: used_inos_def fields)
  then show "used_inos sbi' = {ino. if ino mod cpus sbi = i then ino div cpus sbi \<in> U else ino \<in> used_inos sbi}" by blast
qed

lemma cpus64_val: "maps_ok K sbi \<Longrightarrow> unat (cpus64 sbi) = cpus sbi" "maps_ok K sbi \<Longrightarrow> cpus64 sbi \<noteq> 0"
proof -
  assume ok: "maps_ok K sbi"
  show v: "unat (cpus64 sbi) = cpus sbi" unfolding cpus64_def using maps_okD(2) [OF ok] by (intro unat_of_nat_less) simp
  then show "cpus64 sbi \<noteq> 0" using maps_okD(1) [OF ok] by auto
qed

section \<open>Allocation\<close>

lemma ino_value:
  assumes ok: "maps_ok K sbi" and c: "c < cpus sbi" and n: "unat n < 2 ^ 31"
  shows "unat (n * cpus64 sbi + of_nat c) = unat n * cpus sbi + c"
proof -
  note d = maps_okD [OF ok] and v = cpus64_val(1) [OF ok]
  have "unat n * cpus sbi \<le> 2 ^ 31 * 2 ^ 31" using n d(2) by (intro mult_le_mono) simp_all
  then have le: "unat n * cpus sbi \<le> 2 ^ 62" by simp
  have "unat (of_nat c :: u64) = c" using c d(2) by (intro unat_of_nat_less) simp
  moreover have "unat (n * cpus64 sbi) = unat n * cpus sbi" using le v by (subst unat_mult_less) simp_all
  ultimately show ?thesis using le c d(2) by (subst unat_add_less) simp_all
qed

definition inode_added :: "rb_kernel \<Rightarrow> nat \<Rightarrow> nova_sb_info \<Rightarrow> u64 \<Rightarrow> nova_sb_info \<Rightarrow> bool" where
  "inode_added K c sbi ino sbi' \<longleftrightarrow> unat ino mod cpus sbi = c \<and> unat ino \<notin> used_inos sbi \<and>
     used_inos sbi' = insert (unat ino) (used_inos sbi) \<and> maps_ok K sbi' \<and>
     (\<forall>j < unat ino. j mod cpus sbi = c \<longrightarrow> j \<in> used_inos sbi)"

lemma inode_added_ok:
  assumes ok: "maps_ok K sbi" and c: "c < cpus sbi" and n: "unat n < 2 ^ 31"
    and b: "becomes K None (insert (unat n) (inuse (nodes sbi) (im_at sbi c))) (nodes sbi) (im_at sbi c) h' im'"
    and fresh: "unat n \<notin> inuse (nodes sbi) (im_at sbi c)" "\<forall>j < unat n. j \<in> inuse (nodes sbi) (im_at sbi c)"
  shows "inode_added K c sbi (n * cpus64 sbi + of_nat c)
    (set_map c im' (sbi\<lparr>nodes := h', s_inodes_used_count := cnt\<rparr>))"
proof -
  let ?m = "cpus sbi"
  note iv = ino_value [OF ok c n] and rm = replace_map [OF ok c b]
  have m: "(unat n * ?m + c) mod ?m = c" "(unat n * ?m + c) div ?m = unat n" using c by simp_all
  have "unat n * ?m + c \<notin> used_inos sbi" unfolding used_inos_def using m fresh(1) by simp
  moreover have "{ino. if ino mod ?m = c then ino div ?m \<in> insert (unat n) (inuse (nodes sbi) (im_at sbi c)) else ino \<in> used_inos sbi} =
      insert (unat n * ?m + c) (used_inos sbi)"
  proof -
    have "ino = unat n * ?m + c" if "ino mod ?m = c" "ino div ?m = unat n" for ino using that div_mult_mod_eq [of ino ?m] by simp
    then show ?thesis using m by (auto simp: used_inos_def)
  qed
  moreover have "j \<in> used_inos sbi" if "j < unat n * ?m + c" "j mod ?m = c" for j
  proof -
    have "j div ?m < unat n"
    proof (rule ccontr)
      assume "\<not> j div ?m < unat n"
      then have "unat n * ?m \<le> j div ?m * ?m" by (intro mult_le_mono) simp_all
      then show False using that div_mult_mod_eq [of j ?m] by linarith
    qed
    then show ?thesis using fresh(2) that(2) by (simp add: used_inos_def)
  qed
  ultimately show ?thesis unfolding inode_added_def iv using rm m(1) by simp
qed

lemma alloc_inode_ok:
  assumes K: "rb_ok K" and ok: "maps_ok K sbi" and c: "c < cpus sbi"
  shows "\<exists>ret out sbi'. nova_alloc_unused_inode K c sbi = Some (ret, out, sbi') \<and>
    (ret = 0 \<and> (\<exists>ino. out = Some ino \<and> inode_added K c sbi ino sbi') \<or>
     ret = - ENOSPC \<and> out = None \<and> sbi' = sbi \<and> {..<2 ^ 31 - 1} \<subseteq> inuse (nodes sbi) (im_at sbi c))"
proof -
  let ?im = "im_at sbi c" and ?h = "nodes sbi"
  let ?t = "inode_inuse_tree ?im"
  note m = maps_okD(4) [OF ok c]
  note d = map_okD [OF m]
  obtain x vs where i: "mids ?im = x # vs" using d(2) by (cases "mids ?im") auto
  have i0: "mids ?im = [] @ x # vs" using i by simp
  note dist = tree_okD(1) [OF d(1) i] and ca = covered_around [OF m i0]
  have lo0: "lo ?h x = 0" using d(3) i by simp
  have first: "first_inode_range ?im = Some x" using d(4) i by simp
  have nx: "rb_next ?t x = hd_opt vs" using rb_neighbours(1) [OF i0] dist i by simp
  have cs: "nova_range_node_checksum_ok K (?h z)" if "z \<in> set (x # vs)" for z using tree_okD(3) [OF d(1) i that] .
  let ?n = "range_high (?h x) + 1"
  have n: "unat ?n = hi ?h x + 1" using ca(6) by (subst unat_add_less) simp_all
  have n31: "unat ?n < 2 ^ 31" using n ca(6) by simp
  have used: "inuse ?h ?im = {0..hi ?h x} \<union> covered ?h vs" using i lo0 by simp
  have vs: "covered ?h vs \<subseteq> {hi ?h x + 1<..}" using ranges_split(2) [OF tree_okD(2) [OF d(1) i0]] by (intro covered_above) fastforce
  have fresh: "unat ?n \<notin> inuse ?h ?im" "\<forall>j < unat ?n. j \<in> inuse ?h ?im" unfolding used n using vs by auto
  define low where "low = (case hd_opt vs of None \<Rightarrow> MAX_INODE | Some j \<Rightarrow> range_low (?h j))"
  define fin where "fin = (\<lambda>h' im'. Some (0 :: int, Some (?n * cpus64 sbi + of_nat c),
    set_map c (im'\<lparr>im_allocated := im_allocated im' + 1\<rparr>) (sbi\<lparr>nodes := h', s_inodes_used_count := s_inodes_used_count sbi + 1\<rparr>)))"
  have fin: "\<exists>ret out sbi'. fin h' im' = Some (ret, out, sbi') \<and> ret = 0 \<and> (\<exists>ino. out = Some ino \<and> inode_added K c sbi ino sbi')"
    if "becomes K None (insert (unat ?n) (inuse ?h ?im)) ?h ?im h' im'" for h' im'
    using inode_added_ok [OF ok c n31 _ fresh, of h' "im'\<lparr>im_allocated := im_allocated im' + 1\<rparr>" "s_inodes_used_count sbi + 1"] that
    by (simp add: fin_def)
  have run: "nova_alloc_unused_inode K c sbi =
      (if vs \<noteq> [] \<and> ?n = low - 1 then
         fin (put_node K x (\<lambda>n. n\<lparr>range_high := range_high (?h (hd vs))\<rparr>) ?h)
           (?im\<lparr>inode_inuse_tree := rb_erase K (hd vs) ?t, num_range_node_inode := num_range_node_inode ?im - 1\<rparr>)
       else if ?n < low - 1 then fin (put_node K x (\<lambda>n. n\<lparr>range_high := ?n\<rparr>) ?h) ?im
       else Some (- ENOSPC, None, sbi))"
    using c maps_okD(3) [OF ok] first nx cs [of x] cs [of "hd vs"]
    unfolding nova_alloc_unused_inode_def Let_def low_def fin_def by (cases "vs = []") simp_all
  show ?thesis
  proof (cases "vs = []")
    case True
    have l: "unat (low - 1) = 2 ^ 31 - 1" using True by (simp add: low_def MAX_INODE_def push_bit_eq_mult unat_sub_le)
    show ?thesis
    proof (cases "?n < low - 1")
      case True
      then have g: "if vs = [] then unat ?n < 2 ^ 31 - 1 else unat ?n + 2 \<le> lo ?h (hd vs)"
        using l \<open>vs = []\<close> by (simp add: word_less_nat_alt)
      show ?thesis using fin [OF alloc_extend [OF m i n g]] True \<open>vs = []\<close> unfolding run by auto
    next
      case False
      then have "hi ?h x + 1 = 2 ^ 31 - 1" using l n ca(6) by (simp add: word_less_nat_alt)
      then have "{..<2 ^ 31 - 1} \<subseteq> inuse ?h ?im" unfolding used by auto
      then show ?thesis using False \<open>vs = []\<close> unfolding run by simp
    qed
  next
    case False
    then obtain y ws where v: "vs = y # ws" by (cases vs) auto
    have g: "hi ?h x + 2 \<le> lo ?h y" using ca(4) v by simp
    then have l: "unat (low - 1) = lo ?h y - 1" using v by (simp add: low_def unat_sub_le)
    have i2: "mids ?im = x # y # ws" using i v by simp
    show ?thesis
    proof (cases "?n = low - 1")
      case True
      then have "unat ?n = unat (low - 1)" by (rule arg_cong)
      then have "unat ?n + 1 = lo ?h y" unfolding l using g by linarith
      then show ?thesis using fin [OF alloc_join [OF K m i2 n]] True v unfolding run by auto
    next
      case ne: False
      then have "unat ?n \<noteq> unat (low - 1)" by (simp add: word_unat_eq_iff)
      then have lt: "unat ?n + 2 \<le> lo ?h y" using l n g by simp
      then have "?n < low - 1" using l by (simp add: word_less_nat_alt)
      moreover have "if vs = [] then unat ?n < 2 ^ 31 - 1 else unat ?n + 2 \<le> lo ?h (hd vs)" using lt v by simp
      ultimately show ?thesis using fin [OF alloc_extend [OF m i n]] ne unfolding run by auto
    qed
  qed
qed

section \<open>Freeing\<close>

lemma inode_removed_ok:
  assumes ok: "maps_ok K sbi" and k: "unat ino mod cpus sbi = c" "unat ino div cpus sbi = k"
    and b: "becomes K new (inuse (nodes sbi) (im_at sbi c) - {k}) (nodes sbi) (im_at sbi c) h' im'"
    and f: "\<And>x. new = Some x \<Longrightarrow> new_inode_node x sbi"
  shows "maps_ok K (set_map c im' (sbi\<lparr>nodes := h', s_inodes_used_count := cnt\<rparr>)) \<and>
    used_inos (set_map c im' (sbi\<lparr>nodes := h', s_inodes_used_count := cnt\<rparr>)) = used_inos sbi - {unat ino}"
proof -
  have c: "c < cpus sbi" using k(1) maps_okD(1) [OF ok] mod_less_divisor [of "cpus sbi" "unat ino"] by simp
  note rm = replace_map [OF ok c b f, of cnt]
  have "{x. if x mod cpus sbi = c then x div cpus sbi \<in> inuse (nodes sbi) (im_at sbi c) - {k} else x \<in> used_inos sbi} =
      used_inos sbi - {unat ino}"
  proof -
    have eq: "x = unat ino \<longleftrightarrow> x div cpus sbi = k" if "x mod cpus sbi = c" for x
      using that k div_mult_mod_eq [of x "cpus sbi"] div_mult_mod_eq [of "unat ino" "cpus sbi"] by metis
    have "(if x mod cpus sbi = c then x div cpus sbi \<in> inuse (nodes sbi) (im_at sbi c) - {k} else x \<in> used_inos sbi) \<longleftrightarrow>
        x \<in> used_inos sbi \<and> x \<noteq> unat ino" for x
    proof (cases "x mod cpus sbi = c")
      case True
      then have "x \<in> used_inos sbi \<longleftrightarrow> x div cpus sbi \<in> inuse (nodes sbi) (im_at sbi c)" unfolding used_inos_def by blast
      then show ?thesis using eq [OF True] True by (simp only: simp_thms if_True Diff_iff singleton_iff)
    next
      case False
      then show ?thesis using k(1) by auto
    qed
    then show ?thesis by blast
  qed
  then show ?thesis using rm by simp
qed

lemma free_inode_ok:
  assumes K: "rb_ok K" and ok: "maps_ok K sbi" and y: "new_inode_node y sbi" and pos: "0 < unat ino div cpus sbi"
  shows "if unat ino \<in> used_inos sbi
    then \<exists>sbi'. nova_free_inuse_inode K (Some y) ino sbi = Some (0, sbi') \<and> maps_ok K sbi' \<and> used_inos sbi' = used_inos sbi - {unat ino}
    else nova_free_inuse_inode K (Some y) ino sbi = Some (- EINVAL, sbi)"
proof -
  let ?c = "unat ino mod cpus sbi" and ?k = "ino div cpus64 sbi"
  let ?im = "im_at sbi ?c" and ?h = "nodes sbi"
  note d = maps_okD [OF ok] and cv = cpus64_val [OF ok]
  have c: "?c < cpus sbi" using d(1) by simp
  have um: "unat (ino mod cpus64 sbi) = ?c" "unat ?k = unat ino div cpus sbi" using cv(1) by (simp_all add: unat_mod unat_div)
  note m = d(4) [OF c]
  note md = map_okD [OF m]
  have used: "unat ino \<in> used_inos sbi \<longleftrightarrow> unat ?k \<in> inuse ?h ?im" by (simp add: used_inos_def um)
  have se: "nova_search_inodetree K ino sbi = nova_find_range_node K ?h (inode_inuse_tree ?im) ?k NODE_INODE"
    by (simp add: nova_search_inodetree_def um)
  have I: "(NODE_INODE :: node_type) \<noteq> NODE_DIR" by simp
  note fr = find_range_node_ok [OF I md(1), of ?k]
  show ?thesis
  proof (cases "unat ?k \<in> inuse ?h ?im")
    case False
    have "\<not> (lo ?h x \<le> unat ?k \<and> unat ?k \<le> hi ?h x)" if "x \<in> set (mids ?im)" for x using False that by (auto simp: covered_def)
    then obtain r where "nova_search_inodetree K ino sbi = (False, r)" using fr unfolding se by blast
    then have "nova_free_inuse_inode K (Some y) ino sbi = Some (- EINVAL, sbi)"
      using cv(2) c d(3) by (simp add: nova_free_inuse_inode_def um Let_def)
    then show ?thesis using False used by simp
  next
    case True
    have "\<not> cut_at ?h (unat ?k) us vs" if "mids ?im = us @ vs" for us vs
      using True that by (fastforce simp: covered_def cut_at_def)
    then obtain x where x: "x \<in> set (mids ?im)" "nova_search_inodetree K ino sbi = (True, Some x)" "lo ?h x \<le> unat ?k" "unat ?k \<le> hi ?h x"
      using fr unfolding se by blast
    obtain us vs where i: "mids ?im = us @ x # vs" using x(1) by (meson split_list)
    note ca = covered_around [OF m i]
    have yn: "y \<notin> set (mids ?im)" using y c by (simp add: new_inode_node_def)
    have kb: "unat (?k - 1) = unat ?k - 1" "unat (?k + 1) = unat ?k + 1"
      using pos um(2) x(4) ca(6) by (simp_all add: unat_sub_le unat_add_less)
    have k0: "0 < unat ?k" using pos um(2) by simp
    define fin where "fin = (\<lambda>h' im'. Some (0 :: int, set_map ?c (im'\<lparr>im_freed := im_freed im' + 1\<rparr>)
      (sbi\<lparr>nodes := h', s_inodes_used_count := s_inodes_used_count sbi - 1\<rparr>)))"
    have fin: "\<exists>sbi'. fin h' im' = Some (0, sbi') \<and> maps_ok K sbi' \<and> used_inos sbi' = used_inos sbi - {unat ino}"
      if "becomes K (Some y) (inuse ?h ?im - {unat ?k}) ?h ?im h' im'" for h' im'
      using inode_removed_ok [OF ok refl um(2) [symmetric], of "Some y" h' "im'\<lparr>im_freed := im_freed im' + 1\<rparr>" "s_inodes_used_count sbi - 1"] that y
      by (simp add: fin_def)
    let ?low = "range_low (?h x)" and ?high = "range_high (?h x)"
    have ins: "nova_insert_inodetree K h y ?c sbi = nova_insert_range_node K h (inode_inuse_tree ?im) y NODE_INODE" for h
      by (simp add: nova_insert_inodetree_def)
    have nl: "(length (inode_maps sbi) \<le> ?c) = False" using c d(3) by simp
    have run: "nova_free_inuse_inode K (Some y) ino sbi =
      (if ?k = ?low \<and> ?k = ?high then
         fin ?h (?im\<lparr>inode_inuse_tree := rb_erase K x (inode_inuse_tree ?im), num_range_node_inode := num_range_node_inode ?im - 1\<rparr>)
       else if ?k = ?low \<and> ?k < ?high then fin (put_node K x (\<lambda>n. n\<lparr>range_low := ?k + 1\<rparr>) ?h) ?im
       else if ?k > ?low \<and> ?k = ?high then fin (put_node K x (\<lambda>n. n\<lparr>range_high := ?k - 1\<rparr>) ?h) ?im
       else if ?k > ?low \<and> ?k < ?high then
         (let h2 = put_node K x (\<lambda>n. n\<lparr>range_high := ?k - 1\<rparr>)
             (put_node K y (\<lambda>n. n\<lparr>range_low := ?k + 1, range_high := ?high\<rparr>) (?h(y := zalloc_node)))
          in case nova_insert_range_node K h2 (inode_inuse_tree ?im) y NODE_INODE of
            (ret, tree) \<Rightarrow> if ret \<noteq> 0 then Some (ret, sbi\<lparr>nodes := h2\<rparr>)
              else fin h2 (?im\<lparr>inode_inuse_tree := tree, num_range_node_inode := num_range_node_inode ?im + 1\<rparr>))
       else Some (0, sbi))"
      by (simp only: nova_free_inuse_inode_def Let_def fin_def um(1) ins if_not_P [OF cv(2)] nl if_False x(2) prod.case option.case bool.case)
    have eqs: "?k = ?low \<longleftrightarrow> unat ?k = lo ?h x" "?k = ?high \<longleftrightarrow> unat ?k = hi ?h x" "?k < ?high \<longleftrightarrow> unat ?k < hi ?h x"
      "?k > ?low \<longleftrightarrow> lo ?h x < unat ?k" unfolding word_less_nat_alt word_unat_eq_iff by (rule refl)+
    have split: "(case nova_insert_range_node K h2 t y NODE_INODE of (ret, tree) \<Rightarrow> if ret \<noteq> 0 then A ret tree else B tree) = B t'"
      if "nova_insert_range_node K h2 t y NODE_INODE = (0, t')" for h2 t A t' and B :: "nat tree \<Rightarrow> (int \<times> nova_sb_info) option"
      using that by simp
    consider (whole) "unat ?k = lo ?h x" "unat ?k = hi ?h x" | (left) "unat ?k = lo ?h x" "unat ?k < hi ?h x"
      | (right) "lo ?h x < unat ?k" "unat ?k = hi ?h x" | (mid) "lo ?h x < unat ?k" "unat ?k < hi ?h x" using x(3,4) by linarith
    then have "\<exists>sbi'. nova_free_inuse_inode K (Some y) ino sbi = Some (0, sbi') \<and> maps_ok K sbi' \<and> used_inos sbi' = used_inos sbi - {unat ino}"
    proof cases
      case whole
      then show ?thesis
        using fin [OF free_whole [OF K m i whole(1) [symmetric] whole(2) [symmetric] k0]] unfolding run eqs by simp
    next
      case left
      let ?h' = "put_node K x (\<lambda>n. n\<lparr>range_low := ?k + 1\<rparr>) ?h"
      have "becomes K (Some y) (inuse ?h ?im - {unat ?k}) ?h ?im ?h' ?im"
        using left kb k0 by (intro free_end [OF m i refl k0]) simp_all
      from fin [OF this] show ?thesis unfolding run eqs using left by simp
    next
      case right
      let ?h' = "put_node K x (\<lambda>n. n\<lparr>range_high := ?k - 1\<rparr>) ?h"
      have "becomes K (Some y) (inuse ?h ?im - {unat ?k}) ?h ?im ?h' ?im"
        using right kb k0 by (intro free_end [OF m i refl k0]) simp_all
      from fin [OF this] show ?thesis unfolding run eqs using right by simp
    next
      case mid
      from free_split_node [OF K m i yn mid] obtain t' where
        t': "nova_insert_range_node K (put_node K x (\<lambda>n. n\<lparr>range_high := ?k - 1\<rparr>)
             (put_node K y (\<lambda>n. n\<lparr>range_low := ?k + 1, range_high := ?high\<rparr>) (?h(y := zalloc_node)))) (inode_inuse_tree ?im) y NODE_INODE = (0, t')"
        "becomes K (Some y) (inuse ?h ?im - {unat ?k}) ?h ?im (put_node K x (\<lambda>n. n\<lparr>range_high := ?k - 1\<rparr>)
             (put_node K y (\<lambda>n. n\<lparr>range_low := ?k + 1, range_high := ?high\<rparr>) (?h(y := zalloc_node))))
           (?im\<lparr>inode_inuse_tree := t', num_range_node_inode := num_range_node_inode ?im + 1\<rparr>)" by blast
      from fin [OF t'(2)] show ?thesis unfolding run eqs Let_def split [OF t'(1)] using mid by simp
    qed
    then show ?thesis using True used by simp
  qed
qed

section \<open>Properties\<close>

text \<open>Two processors, with the numbers of the reserved inodes in use.\<close>

definition im0 :: "nat \<Rightarrow> inode_map" where
  "im0 x = \<lparr>inode_inuse_tree = Node Leaf x Leaf, num_range_node_inode = 1, first_inode_range = Some x,
     im_allocated = 0, im_freed = 0\<rparr>"

definition isb0 :: nova_sb_info where
  "isb0 = \<lparr>nodes = (\<lambda>x. zalloc_node\<lparr>range_high := 17\<rparr>), free_lists = [], per_list_blocks = 0, num_blocks = 0, initsize = 0,
     head_reserved_blocks = 0, tail_reserved_blocks = 0, cpus = 2, inode_maps = [im0 0, im0 1], s_inodes_used_count = 32, s_epoch_id = 0, snapshot_info_tree = Map.empty,
     nvmm = (\<lambda>a. 0)\<rparr>"

lemma isb0_ok: "maps_ok plain_rb isb0" "new_inode_node 2 isb0" "used_inos isb0 = {..<36}"
proof -
  have m: "map_ok plain_rb (nodes isb0) (im0 x)" for x
    by (simp add: map_ok_def tree_ok_def im0_def isb0_def zalloc_node_def nova_range_node_checksum_ok_def plain_rb_def)
  show "maps_ok plain_rb isb0" using m unfolding maps_ok_def by (auto simp: isb0_def im0_def less_2_cases_iff)
  show "new_inode_node 2 isb0" by (auto simp: new_inode_node_def isb0_def im0_def less_2_cases_iff)
  have "inuse (nodes isb0) (im_at isb0 (ino mod 2)) = {0..17}" for ino
    by (cases "ino mod 2 = 0") (simp_all add: isb0_def im0_def zalloc_node_def)
  then show "used_inos isb0 = {..<36}" unfolding used_inos_def by (auto simp: isb0_def)
qed

text \<open>
  C15: Allocating an inode number returns the lowest number of the processor that is not in use, and adds exactly that
  number to the numbers in use; it fails, with \<open>ENOSPC\<close> and no change, only when all \<open>2 ^ 31 - 1\<close> numbers of the
  processor are in use.  The maps stay well formed, whichever way the tree is balanced.
\<close>

theorem nova_alloc_unused_inode_spec:
  assumes "rb_ok K" "maps_ok K sbi" "c < cpus sbi"
  shows "\<exists>ret out sbi'. nova_alloc_unused_inode K c sbi = Some (ret, out, sbi') \<and> maps_ok K sbi' \<and>
    (ret = 0 \<and> (\<exists>ino. out = Some ino \<and> unat ino mod cpus sbi = c \<and> unat ino \<notin> used_inos sbi \<and>
        (\<forall>j < unat ino. j mod cpus sbi = c \<longrightarrow> j \<in> used_inos sbi) \<and> used_inos sbi' = insert (unat ino) (used_inos sbi)) \<or>
     ret = - ENOSPC \<and> out = None \<and> sbi' = sbi \<and> (\<forall>k < 2 ^ 31 - 1. k * cpus sbi + c \<in> used_inos sbi))"
proof -
  from alloc_inode_ok [OF assms] obtain ret out sbi' where r: "nova_alloc_unused_inode K c sbi = Some (ret, out, sbi')"
    "ret = 0 \<and> (\<exists>ino. out = Some ino \<and> inode_added K c sbi ino sbi') \<or>
     ret = - ENOSPC \<and> out = None \<and> sbi' = sbi \<and> {..<2 ^ 31 - 1} \<subseteq> inuse (nodes sbi) (im_at sbi c)" by blast
  have "k * cpus sbi + c \<in> used_inos sbi" if "{..<2 ^ 31 - 1} \<subseteq> inuse (nodes sbi) (im_at sbi c)" "k < 2 ^ 31 - 1" for k
    using that assms(3) unfolding used_inos_def by auto
  then show ?thesis using r assms(2) unfolding inode_added_def by blast
qed

theorem nova_alloc_unused_inode_spec_witness:
  "\<exists>sbi'. nova_alloc_unused_inode plain_rb 0 isb0 = Some (0, Some 36, sbi') \<and> used_inos sbi' = {..<37}"
proof -
  obtain sbi' where r: "nova_alloc_unused_inode plain_rb 0 isb0 = Some (0, Some 36, sbi')"
    by (simp add: nova_alloc_unused_inode_def isb0_def im0_def Let_def rb_next_def MAX_INODE_def cpus64_def zalloc_node_def
        nova_range_node_checksum_ok_def plain_rb_def)
  have "0 < cpus isb0" by (simp add: isb0_def)
  from nova_alloc_unused_inode_spec [OF plain_rb_ok isb0_ok(1) this] obtain ret out s where
    s: "nova_alloc_unused_inode plain_rb 0 isb0 = Some (ret, out, s)"
    "ret = - ENOSPC \<or> (\<exists>ino. out = Some ino \<and> used_inos s = insert (unat ino) (used_inos isb0))" by blast
  have eq: "ret = 0" "out = Some 36" "s = sbi'" using s(1) r by simp_all
  have "ret \<noteq> - ENOSPC" by (simp add: eq ENOSPC_def)
  then obtain ino where "out = Some ino" "used_inos s = insert (unat ino) (used_inos isb0)" using s(2) by blast
  then have "ino = 36" "used_inos sbi' = insert (unat ino) (used_inos isb0)" using eq by simp_all
  then have "used_inos sbi' = insert 36 {..<36}" using isb0_ok(3) by simp
  also have "\<dots> = {..<37}" using lessThan_Suc [of 36] by simp
  finally show ?thesis using r by blast
qed



end
