(* ===== verification/Nova_Log.thy ===== *)
theory Nova_Log
  imports Nova_Journal Nova_Balloc
begin

unbundle bit_operations_syntax

text \<open>
  The pages of an inode log of NOVA (log.c, log.h and the page functions of nova.h): a log is a chain of 4 KiB
  pages, each of which ends with a tail that holds its entry counts and the address of the next page.

  Addresses are offsets from the start of the device.  Stores are made to the memory of the file system in program
  order; flushes and fences are left out here, and reads do not meet media errors.  The processor that runs the code and
  the address of a new range node (\<open>None\<close> is a null pointer) are given by the record \<open>nova_env\<close>.  A walk of a chain may not
  end; it is a partial function whose value is then \<open>None\<close>, as is an access through a null pointer and a \<^verbatim>\<open>BUG\<close>.

  The module parameter \<^verbatim>\<open>metadata_csum\<close> has its default value 0: there is no second copy of the log, and entries and
  inodes carry no checksum.

  The radix tree of a file is a map from page offsets to the addresses of write entries.  The nodes of the tree of a
  directory and of the tree of mapped areas are in the store of range nodes; in a node of a directory the hash is the field
  \<open>range_low\<close> and the address of the entry is \<open>range_high\<close>, with which they share their place.
\<close>

record nova_env =
  rbk :: rb_kernel
  smp_processor_id :: "nova_sb_info \<Rightarrow> nat"
  node_at :: "nova_sb_info \<Rightarrow> nat option"

record nova_inode_info_header =
  entry_tree :: "u64 \<rightharpoonup> u64"
  rb_tree :: "nat tree"
  vma_tree :: "nat tree"
  num_vmas :: nat
  log_pages :: u64
  sih_i_blocks :: u64
  valid_entries :: u64
  num_entries :: u64
  last_setattr :: u64
  last_link_change :: u64
  last_dentry :: u64
  trans_id :: u64
  log_head :: u64
  log_tail :: u64
  alter_log_head :: u64
  alter_log_tail :: u64
  i_blk_type :: u8

definition mem_upd :: "(mem \<Rightarrow> mem) \<Rightarrow> nova_sb_info \<Rightarrow> nova_sb_info" where
  "mem_upd f sbi = sbi\<lparr>nvmm := f (nvmm sbi)\<rparr>"

section \<open>Page tails\<close>

definition BLOCK_OFF :: "u64 \<Rightarrow> u64" where "BLOCK_OFF p = p AND NOT 4095"
definition ENTRY_LOC :: "u64 \<Rightarrow> u64" where "ENTRY_LOC p = p AND 4095"
definition LOG_BLOCK_TAIL :: nat where "LOG_BLOCK_TAIL = 4064"

text \<open>The fields of the tail of the page at an address.\<close>

definition invalid_entries_at :: "nat \<Rightarrow> nat" where "invalid_entries_at page = page + LOG_BLOCK_TAIL"
definition num_entries_at :: "nat \<Rightarrow> nat" where "num_entries_at page = page + LOG_BLOCK_TAIL + 4"
definition next_page_at :: "nat \<Rightarrow> nat" where "next_page_at page = page + LOG_BLOCK_TAIL + 24"

definition next_log_page :: "mem \<Rightarrow> u64 \<Rightarrow> u64" where
  "next_log_page m p = get64 m (next_page_at (unat (BLOCK_OFF p)))"

definition nova_set_entry_type :: "nat \<Rightarrow> u8 \<Rightarrow> mem \<Rightarrow> mem" where
  "nova_set_entry_type p ty m = nput p [ty] m"

definition nova_set_next_page_flag :: "u64 \<Rightarrow> mem \<Rightarrow> mem" where
  "nova_set_next_page_flag p m =
     (if unat (ENTRY_LOC p) \<ge> LOG_BLOCK_TAIL then m else nova_set_entry_type (unat p) 7 m)"

definition nova_set_next_page_address :: "nat \<Rightarrow> u64 \<Rightarrow> mem \<Rightarrow> mem" where
  "nova_set_next_page_address page next m = nput (next_page_at page) (le64 next) m"

definition nova_set_page_num_entries :: "nat \<Rightarrow> u32 \<Rightarrow> mem \<Rightarrow> mem" where
  "nova_set_page_num_entries page num m = nput (num_entries_at page) (le32 num) m"

definition nova_set_page_invalid_entries :: "nat \<Rightarrow> u32 \<Rightarrow> mem \<Rightarrow> mem" where
  "nova_set_page_invalid_entries page num m = nput (invalid_entries_at page) (le32 num) m"

definition nova_inc_page_num_entries :: "u64 \<Rightarrow> mem \<Rightarrow> mem" where
  "nova_inc_page_num_entries p m =
     (let a = num_entries_at (unat (BLOCK_OFF p)) in nput a (le32 (get32 m a + 1)) m)"

definition nova_inc_page_invalid_entries :: "u64 \<Rightarrow> mem \<Rightarrow> mem" where
  "nova_inc_page_invalid_entries p m =
     (let a = invalid_entries_at (unat (BLOCK_OFF p)) in nput a (le32 (get32 m a + 1)) m)"

text \<open>The end of the entry is an \<^verbatim>\<open>unsigned int\<close>.\<close>

definition is_last_entry :: "u64 \<Rightarrow> u64 \<Rightarrow> bool" where
  "is_last_entry p sz \<longleftrightarrow> unat (ucast (ENTRY_LOC p + sz) :: u32) > LOG_BLOCK_TAIL"

definition goto_next_page :: "mem \<Rightarrow> u64 \<Rightarrow> bool" where
  "goto_next_page m p \<longleftrightarrow> unat (ENTRY_LOC p) + 32 > LOG_BLOCK_TAIL \<or> m (unat p) = 7"

definition nova_get_block_off :: "u64 \<Rightarrow> u64" where "nova_get_block_off blocknr = push_bit 12 blocknr"

definition nova_get_blocknr :: "u64 \<Rightarrow> u64" where "nova_get_blocknr block = drop_bit 12 block"

section \<open>Allocation of pages\<close>

text \<open>The pages behind the first one are linked; \<open>n\<close> turns are left.\<close>

fun coalesce_loop :: "nat \<Rightarrow> nat \<Rightarrow> u64 \<Rightarrow> mem \<Rightarrow> nat \<times> mem" where
  "coalesce_loop 0 page next_blocknr m = (page, m)"
| "coalesce_loop (Suc n) page next_blocknr m =
     coalesce_loop n (page + 4096) (next_blocknr + 1)
       (nova_set_next_page_address page (nova_get_block_off next_blocknr)
         (nova_set_page_invalid_entries page 0 (nova_set_page_num_entries page 0 m)))"

definition nova_coalesce_log_pages :: "u64 \<Rightarrow> u64 \<Rightarrow> u64 \<Rightarrow> mem \<Rightarrow> mem" where
  "nova_coalesce_log_pages prev_blocknr first_blocknr num_pages m =
     (let m1 = (if prev_blocknr \<noteq> 0
                then nova_set_next_page_address (unat (nova_get_block_off prev_blocknr)) (nova_get_block_off first_blocknr) m
                else m)
      in case coalesce_loop (unat (num_pages - 1)) (unat (nova_get_block_off first_blocknr)) (first_blocknr + 1) m1 of
           (page, m2) \<Rightarrow>
             nova_set_next_page_address page 0
               (nova_set_page_invalid_entries page 0 (nova_set_page_num_entries page 0 m2)))"

text \<open>A request for log pages of the inode.\<close>

definition log_blocks ::
    "nova_env \<Rightarrow> nova_inode_info_header \<Rightarrow> u64 \<Rightarrow> nat \<Rightarrow> nova_alloc_direction \<Rightarrow> nova_sb_info \<Rightarrow> (int \<times> u64 option \<times> nova_sb_info) option" where
  "log_blocks E sih num_pages cpuid from_tail sbi =
     nova_new_log_blocks (rbk E) (smp_processor_id E sbi) (node_at E sbi) (ucast num_pages) (ucast (i_blk_type sih)) False
       cpuid from_tail sbi"

text \<open>The remaining pages: the number of pages that were added, and the state.\<close>

partial_function (option) alloc_pages_loop ::
    "nova_env \<Rightarrow> nova_inode_info_header \<Rightarrow> nat \<Rightarrow> nova_alloc_direction \<Rightarrow> u64 \<Rightarrow> u64 \<Rightarrow> int \<Rightarrow> nova_sb_info \<Rightarrow> (int \<times> nova_sb_info) option" where
  "alloc_pages_loop E sih cpuid from_tail num_pages prev_blocknr ret_pages sbi =
     (if num_pages = 0 then Some (ret_pages, sbi)
      else
        Option.bind (log_blocks E sih num_pages cpuid from_tail sbi) (\<lambda>(allocated, out, sbi1).
          (case out of
             None \<Rightarrow> Some (ret_pages, sbi1)
           | Some nr \<Rightarrow>
               if allocated \<le> 0 then Some (ret_pages, sbi1)
               else
                 alloc_pages_loop E sih cpuid from_tail (num_pages - of_int allocated) (nr + of_int allocated - 1) (ret_pages + allocated)
                   (mem_upd (nova_coalesce_log_pages prev_blocknr nr (of_int allocated)) sbi1))))"

definition nova_allocate_inode_log_pages ::
    "nova_env \<Rightarrow> nova_inode_info_header \<Rightarrow> u64 \<Rightarrow> nat \<Rightarrow> nova_alloc_direction \<Rightarrow> nova_sb_info \<Rightarrow> (int \<times> u64 option \<times> nova_sb_info) option" where
  "nova_allocate_inode_log_pages E sih num_pages cpuid from_tail sbi =
     Option.bind (log_blocks E sih num_pages cpuid from_tail sbi) (\<lambda>(allocated, out, sbi1).
       (case out of
          None \<Rightarrow> Some (allocated, None, sbi1)
        | Some nr \<Rightarrow>
            if allocated \<le> 0 then Some (allocated, None, sbi1)
            else
              Option.bind (alloc_pages_loop E sih cpuid from_tail (num_pages - of_int allocated) (nr + of_int allocated - 1) allocated
                  (mem_upd (nova_coalesce_log_pages 0 nr (of_int allocated)) sbi1))
                (\<lambda>(ret_pages, sbi2). Some (ret_pages, Some (nova_get_block_off nr), sbi2))))"

section \<open>Freeing pages\<close>

definition free_run :: "nova_env \<Rightarrow> nova_inode_info_header \<Rightarrow> u64 \<Rightarrow> int \<Rightarrow> nova_sb_info \<Rightarrow> nova_sb_info option" where
  "free_run E sih start num sbi =
     map_option snd (nova_free_log_blocks (rbk E) (node_at E sbi) start num (ucast (i_blk_type sih)) sbi)"

text \<open>The walk over the chain; contiguous pages are collected and freed together.\<close>

partial_function (option) free_pages_loop ::
    "nova_env \<Rightarrow> nova_inode_info_header \<Rightarrow> u64 \<Rightarrow> u64 \<Rightarrow> int \<Rightarrow> int \<Rightarrow> nova_sb_info \<Rightarrow> (u64 \<times> int \<times> int \<times> nova_sb_info) option" where
  "free_pages_loop E sih curr_block start_blocknr num_free freed sbi =
     (if curr_block = 0 \<or> ENTRY_LOC curr_block \<noteq> 0 then Some (start_blocknr, num_free, freed, sbi)
      else
        let blocknr = nova_get_blocknr curr_block; next = next_log_page (nvmm sbi) curr_block
        in if start_blocknr = 0 then free_pages_loop E sih next blocknr 1 freed sbi
           else if blocknr = start_blocknr + of_int num_free then free_pages_loop E sih next start_blocknr (num_free + 1) freed sbi
           else
             Option.bind (free_run E sih start_blocknr num_free sbi) (\<lambda>sbi1.
               free_pages_loop E sih next blocknr 1 (freed + num_free) sbi1))"

definition nova_free_contiguous_log_blocks ::
    "nova_env \<Rightarrow> nova_inode_info_header \<Rightarrow> u64 \<Rightarrow> nova_sb_info \<Rightarrow> (int \<times> nova_sb_info) option" where
  "nova_free_contiguous_log_blocks E sih head sbi =
     Option.bind (free_pages_loop E sih head 0 0 0 sbi) (\<lambda>(start_blocknr, num_free, freed, sbi1).
       if start_blocknr \<noteq> 0 then map_option (\<lambda>sbi2. (freed + num_free, sbi2)) (free_run E sih start_blocknr num_free sbi1)
       else Some (freed, sbi1))"

definition nova_free_inode_log ::
    "nova_env \<Rightarrow> nat option \<Rightarrow> nova_inode_info_header \<Rightarrow> nova_sb_info \<Rightarrow> (int \<times> nova_sb_info) option" where
  "nova_free_inode_log E pi sih sbi =
     (if log_head sih = 0 \<or> log_tail sih = 0 then Some (0, sbi)
      else
        let sbi1 = (case pi of None \<Rightarrow> sbi | Some a \<Rightarrow> mem_upd (nput (a + 64) (concat (replicate 4 (le64 0)))) sbi)
        in Option.bind (nova_free_contiguous_log_blocks E sih (log_head sih) sbi1) (\<lambda>(_, sbi2).
             Option.bind (nova_free_contiguous_log_blocks E sih (alter_log_head sih) sbi2) (\<lambda>(_, sbi3). Some (0, sbi3))))"

section \<open>The place for the next entry\<close>

definition nova_initialize_inode_log ::
    "nova_env \<Rightarrow> nat \<Rightarrow> bool \<Rightarrow> nova_inode_info_header \<Rightarrow> nova_sb_info \<Rightarrow> (int \<times> nova_inode_info_header \<times> nova_sb_info) option" where
  "nova_initialize_inode_log E pi main sih sbi =
     Option.bind (nova_allocate_inode_log_pages E sih 1 ANY_CPU (if main then ALLOC_FROM_HEAD else ALLOC_FROM_TAIL) sbi) (\<lambda>(allocated, out, sbi1).
       (case out of
          None \<Rightarrow> Some (- ENOSPC, sih, sbi1)
        | Some new_block \<Rightarrow>
            if allocated \<noteq> 1 then Some (- ENOSPC, sih, sbi1)
            else if main then
              Some (0, sih\<lparr>log_head := new_block, log_tail := new_block, log_pages := 1\<rparr>,
                mem_upd (\<lambda>m. nput (pi + 64) (le64 new_block) (nput (pi + 72) (le64 new_block) m)) sbi1)
            else
              Some (0, sih\<lparr>alter_log_head := new_block, alter_log_tail := new_block, log_pages := log_pages sih + 1\<rparr>,
                mem_upd (\<lambda>m. nput (pi + 80) (le64 new_block) (nput (pi + 88) (le64 new_block) m)) sbi1)))"

text \<open>The position, or 0 without a page.\<close>

definition nova_append_one_log_page :: "nova_env \<Rightarrow> nova_inode_info_header \<Rightarrow> u64 \<Rightarrow> nova_sb_info \<Rightarrow> (u64 \<times> nova_sb_info) option" where
  "nova_append_one_log_page E sih curr_p sbi =
     Option.bind (nova_allocate_inode_log_pages E sih 1 ANY_CPU ALLOC_FROM_HEAD sbi) (\<lambda>(allocated, out, sbi1).
       (case out of
          None \<Rightarrow> Some (0, sbi1)
        | Some new_block \<Rightarrow>
            if allocated \<noteq> 1 then Some (0, sbi1)
            else if curr_p = 0 then Some (new_block, sbi1)
            else Some (curr_p, mem_upd (nova_set_next_page_address (unat (BLOCK_OFF curr_p)) new_block) sbi1)))"

text \<open>
  The search for a place, with the way to extend the log as an argument.  The result tells whether the log was
  extended.
\<close>

definition append_head ::
    "(u64 \<Rightarrow> nova_inode_info_header \<Rightarrow> nova_sb_info \<Rightarrow> (u64 \<times> nova_inode_info_header \<times> nova_sb_info) option) \<Rightarrow> u64 \<Rightarrow> u64 \<Rightarrow> bool \<Rightarrow>
     nova_inode_info_header \<Rightarrow> nova_sb_info \<Rightarrow> (u64 \<times> bool \<times> nova_inode_info_header \<times> nova_sb_info) option" where
  "append_head ext tail sz main sih sbi =
     (let curr_p = (if tail \<noteq> 0 then tail else if main then log_tail sih else alter_log_tail sih);
          finish = (\<lambda>p extended sih' sbi'.
            if is_last_entry p sz then
              let sbi2 = mem_upd (nova_set_next_page_flag p) sbi'
              in Some (next_log_page (nvmm sbi2) p, extended, sih', sbi2)
            else Some (p, extended, sih', sbi'))
      in if curr_p = 0 \<or> is_last_entry curr_p sz \<and> next_log_page (nvmm sbi) curr_p = 0 then
           if curr_p = 0 \<and> is_last_entry curr_p sz then None
           else
             let sbi1 = (if is_last_entry curr_p sz then mem_upd (nova_set_next_page_flag curr_p) sbi else sbi)
             in if \<not> main then Some (0, False, sih, sbi1)
                else
                  Option.bind (ext curr_p sih sbi1) (\<lambda>(p, sih', sbi'). if p = 0 then Some (0, True, sih', sbi') else finish p True sih' sbi')
         else finish curr_p False sih sbi)"

text \<open>The thorough collector extends the new log by one page at a time.\<close>

definition extend_one ::
    "nova_env \<Rightarrow> u64 \<Rightarrow> nova_inode_info_header \<Rightarrow> nova_sb_info \<Rightarrow> (u64 \<times> nova_inode_info_header \<times> nova_sb_info) option" where
  "extend_one E curr_p sih sbi = map_option (\<lambda>(p, sbi'). (p, sih, sbi')) (nova_append_one_log_page E sih curr_p sbi)"

end
