(* ===== verification/Nova_Gc.thy ===== *)
theory Nova_Gc
  imports Nova_Log
begin

unbundle bit_operations_syntax

text \<open>
  Garbage collection of inode logs of NOVA (gc.c), without the second copy of the log: the fast collector unlinks pages
  without valid entries, the thorough collector copies the valid entries to a new log.

  A null pointer and a \<^verbatim>\<open>BUG\<close> have the value \<open>None\<close>, and so has a loop that does not end.
\<close>

section \<open>Entries\<close>

definition get_byte :: "mem \<Rightarrow> u64 \<Rightarrow> nat \<Rightarrow> u8" where "get_byte m p off = m (unat p + off)"
definition get16_at :: "mem \<Rightarrow> u64 \<Rightarrow> nat \<Rightarrow> u16" where "get16_at m p off = of_nat (le_nat (nget m (unat p + off) 2))"
definition get32_at :: "mem \<Rightarrow> u64 \<Rightarrow> nat \<Rightarrow> u32" where "get32_at m p off = get32 m (unat p + off)"
definition get64_at :: "mem \<Rightarrow> u64 \<Rightarrow> nat \<Rightarrow> u64" where "get64_at m p off = get64 m (unat p + off)"

definition nova_get_entry_type :: "mem \<Rightarrow> u64 \<Rightarrow> u8" where "nova_get_entry_type m p = get_byte m p 0"

text \<open>Whether the entry at a position is invalid, and its length.  The last case is for a flag or an unknown type.\<close>

definition curr_log_entry_invalid :: "nova_inode_info_header \<Rightarrow> u64 \<Rightarrow> mem \<Rightarrow> bool \<times> u64" where
  "curr_log_entry_invalid sih curr_p m =
     (let type = nova_get_entry_type m curr_p in
      if type = 3 then (get_byte m curr_p 48 \<noteq> 0, 56)
      else if type = 4 then (get_byte m curr_p 1 \<noteq> 0, 40)
      else if type = 1 then (get32_at m curr_p 4 = get32_at m curr_p 24, 64)
      else if type = 2 then (get_byte m curr_p 3 \<noteq> 0 \<and> last_dentry sih \<noteq> curr_p, ucast (get16_at m curr_p 4))
      else if type = 5 then (get_byte m curr_p 1 \<noteq> 0, 40)
      else if type = 6 then (get_byte m curr_p 1 \<noteq> 0, 40)
      else (True, 4096 - ENTRY_LOC curr_p))"

section \<open>Pages\<close>

text \<open>The counters of the header are updated for a page that stays.\<close>

definition curr_page_invalid :: "u64 \<Rightarrow> mem \<Rightarrow> nova_inode_info_header \<Rightarrow> bool \<times> nova_inode_info_header" where
  "curr_page_invalid page_head m sih =
     (let num = get32 m (num_entries_at (unat page_head)); invalid = get32 m (invalid_entries_at (unat page_head))
      in if invalid = num then (True, sih)
         else (False, sih\<lparr>num_entries := num_entries sih + ucast num, valid_entries := valid_entries sih + ucast (num - invalid)\<rparr>))"

definition free_curr_page :: "nova_env \<Rightarrow> nova_inode_info_header \<Rightarrow> u64 \<Rightarrow> u64 \<Rightarrow> nova_sb_info \<Rightarrow> nova_sb_info option" where
  "free_curr_page E sih last_page cur sbi =
     free_run E sih (nova_get_blocknr cur) 1
       (mem_upd (nova_set_next_page_address (unat last_page) (get64 (nvmm sbi) (next_page_at (unat cur)))) sbi)"

section \<open>Pointers to a moved entry\<close>

definition nova_gc_assign_file_entry :: "u64 \<Rightarrow> u64 \<Rightarrow> mem \<Rightarrow> nova_inode_info_header \<Rightarrow> nova_inode_info_header" where
  "nova_gc_assign_file_entry old_entry new_entry m sih =
     fold (\<lambda>i sih'. let pgoff = get64_at m old_entry 16 + of_nat i
             in if entry_tree sih' pgoff = Some old_entry then sih'\<lparr>entry_tree := (entry_tree sih')(pgoff \<mapsto> new_entry)\<rparr> else sih')
       [0..<unat (get32_at m old_entry 4)] sih"

text \<open>A \<^verbatim>\<open>char\<close> is signed.\<close>

definition BKDRHash :: "u8 list \<Rightarrow> u64" where
  "BKDRHash str = fold (\<lambda>c hash. hash * 131 + scast c) str 0"

definition nova_gc_assign_dentry :: "nova_env \<Rightarrow> u64 \<Rightarrow> u64 \<Rightarrow> nova_inode_info_header \<Rightarrow> nova_sb_info \<Rightarrow> nova_sb_info" where
  "nova_gc_assign_dentry E old_dentry new_dentry sih sbi =
     (let m = nvmm sbi; hash = BKDRHash (nget m (unat old_dentry + 48) (unat (get_byte m old_dentry 1)))
      in case nova_find_range_node (rbk E) (nodes sbi) (rb_tree sih) hash NODE_DIR of
           (True, Some x) \<Rightarrow>
             if hash = range_low (nodes sbi x) then
               sbi\<lparr>nodes := put_node (rbk E) x (\<lambda>n. if range_high n = old_dentry then n\<lparr>range_high := new_dentry\<rparr> else n) (nodes sbi)\<rparr>
             else sbi
         | _ \<Rightarrow> sbi)"

definition nova_gc_assign_mmap_entry :: "u64 \<Rightarrow> u64 \<Rightarrow> nova_inode_info_header \<Rightarrow> nova_sb_info \<Rightarrow> nova_sb_info" where
  "nova_gc_assign_mmap_entry curr_p new_curr sih sbi =
     (if num_vmas sih = 0 then sbi
      else case List.find (\<lambda>x. mmap_entry (nodes sbi x) = curr_p) (inorder (vma_tree sih)) of
             None \<Rightarrow> sbi
           | Some x \<Rightarrow> sbi\<lparr>nodes := (nodes sbi)(x := (nodes sbi x)\<lparr>mmap_entry := new_curr\<rparr>)\<rparr>)"

definition nova_gc_assign_snapshot_entry :: "u64 \<Rightarrow> u64 \<Rightarrow> nova_sb_info \<Rightarrow> nova_sb_info" where
  "nova_gc_assign_snapshot_entry curr_p new_curr sbi =
     (let epoch = get64_at (nvmm sbi) curr_p 8
      in if snapshot_info_tree sbi epoch = Some curr_p then sbi\<lparr>snapshot_info_tree := (snapshot_info_tree sbi)(epoch \<mapsto> new_curr)\<rparr>
         else sbi)"

definition nova_gc_assign_new_entry ::
    "nova_env \<Rightarrow> u64 \<Rightarrow> u64 \<Rightarrow> nova_inode_info_header \<Rightarrow> nova_sb_info \<Rightarrow> nova_inode_info_header \<times> nova_sb_info" where
  "nova_gc_assign_new_entry E curr_p new_curr sih sbi =
     (let type = nova_get_entry_type (nvmm sbi) curr_p in
      if type = 3 then (sih\<lparr>last_setattr := new_curr\<rparr>, sbi)
      else if type = 4 then (sih\<lparr>last_link_change := new_curr\<rparr>, sbi)
      else if type = 5 then (sih, nova_gc_assign_mmap_entry curr_p new_curr sih sbi)
      else if type = 6 then (sih, nova_gc_assign_snapshot_entry curr_p new_curr sbi)
      else if type = 1 then (nova_gc_assign_file_entry curr_p new_curr (nvmm sbi) sih, sbi)
      else if type = 2 then
        let sih1 = (if last_dentry sih = curr_p then sih\<lparr>last_dentry := new_curr\<rparr> else sih)
        in (sih1, nova_gc_assign_dentry E curr_p new_curr sih1 sbi)
      else (sih, sbi))"

section \<open>Thorough collection\<close>

record gc_copy =
  gc_curr :: u64
  gc_old :: u64
  gc_new :: u64
  gc_blocks :: u64

text \<open>The loop that copies the valid entries in front of the page of the tail.\<close>

partial_function (option) gc_copy_loop ::
    "nova_env \<Rightarrow> gc_copy \<Rightarrow> nova_inode_info_header \<Rightarrow> nova_sb_info \<Rightarrow> (gc_copy \<times> nova_inode_info_header \<times> nova_sb_info) option" where
  "gc_copy_loop E g sih sbi =
     (if gc_curr g = log_tail sih then Some (g, sih, sbi)
      else
        let curr_p = (if goto_next_page (nvmm sbi) (gc_curr g) then next_log_page (nvmm sbi) (gc_curr g) else gc_curr g);
            g1 = g\<lparr>gc_old := gc_curr g, gc_curr := curr_p\<rparr>
        in if drop_bit 12 curr_p = drop_bit 12 (log_tail sih) then Some (g1, sih, sbi)
           else if curr_p = 0 then None
           else
             case curr_log_entry_invalid sih curr_p (nvmm sbi) of
               (invalid, len) \<Rightarrow>
                 if invalid then gc_copy_loop E (g1\<lparr>gc_curr := curr_p + len\<rparr>) sih sbi
                 else
                   Option.bind (append_head (extend_one E) (gc_new g) len True sih sbi) (\<lambda>(new_curr, extended, sih1, sbi1).
                     if new_curr = 0 then None
                     else
                       let sbi2 = mem_upd (\<lambda>m. nova_inc_page_num_entries new_curr
                             (nput (unat new_curr) (nget m (unat curr_p) (unat len)) m)) sbi1
                       in case nova_gc_assign_new_entry E curr_p new_curr sih1 sbi2 of
                            (sih2, sbi3) \<Rightarrow>
                              gc_copy_loop E (g1\<lparr>gc_curr := curr_p + len, gc_new := new_curr + len,
                                gc_blocks := (if extended then gc_blocks g + 1 else gc_blocks g)\<rparr>) sih2 sbi3))"

text \<open>The new log is linked to the page of the tail, becomes the log, and the old one is freed.\<close>

definition gc_switch ::
    "nova_env \<Rightarrow> nat \<Rightarrow> u64 \<Rightarrow> u64 \<Rightarrow> gc_copy \<Rightarrow> nova_inode_info_header \<Rightarrow> nova_sb_info \<Rightarrow> (u64 \<times> nova_inode_info_header \<times> nova_sb_info) option" where
  "gc_switch E pi new_head checked_pages g sih sbi =
     (let tail_block = BLOCK_OFF (log_tail sih); old_head = log_head sih; next = next_log_page (nvmm sbi) (gc_new g)
      in Option.bind (if next \<noteq> 0 then nova_free_contiguous_log_blocks E sih next sbi else Some (0, sbi)) (\<lambda>(_, sbi1).
           let sbi2 = mem_upd (\<lambda>m. nova_set_next_page_address (unat (BLOCK_OFF (gc_new g))) tail_block
                        (nova_set_next_page_flag (gc_new g) m)) sbi1;
               sbi3 = mem_upd (nput (pi + 64) (le64 new_head)) sbi2;
               sih1 = sih\<lparr>log_head := new_head\<rparr>
           in if next_log_page (nvmm sbi3) (gc_old g) \<noteq> tail_block then None
              else
                Option.bind (nova_free_contiguous_log_blocks E sih1 old_head
                    (mem_upd (nova_set_next_page_address (unat (BLOCK_OFF (gc_old g))) 0) sbi3)) (\<lambda>(_, sbi4).
                  Some (gc_blocks g, sih1\<lparr>log_pages := log_pages sih1 + gc_blocks g - checked_pages\<rparr>, sbi4))))"

definition nova_inode_log_thorough_gc ::
    "nova_env \<Rightarrow> nat \<Rightarrow> u64 \<Rightarrow> u64 \<Rightarrow> nova_inode_info_header \<Rightarrow> nova_sb_info \<Rightarrow> (u64 \<times> nova_inode_info_header \<times> nova_sb_info) option" where
  "nova_inode_log_thorough_gc E pi blocks checked_pages sih sbi =
     (if log_head sih = 0 \<and> log_tail sih = 0 \<or> drop_bit 12 (log_head sih) = drop_bit 12 (log_tail sih) then Some (blocks, sih, sbi)
      else
        Option.bind (nova_allocate_inode_log_pages E sih blocks ANY_CPU ALLOC_FROM_HEAD sbi) (\<lambda>(allocated, out, sbi1).
          (case out of
             None \<Rightarrow> Some (blocks, sih, sbi1)
           | Some new_head \<Rightarrow>
               if of_int allocated \<noteq> blocks then Some (blocks, sih, sbi1)
               else
                 Option.bind (gc_copy_loop E \<lparr>gc_curr = log_head sih, gc_old = log_head sih, gc_new = new_head, gc_blocks = blocks\<rparr> sih sbi1)
                   (\<lambda>(g, sih1, sbi2). gc_switch E pi new_head checked_pages g sih1 sbi2))))"

section \<open>Fast collection\<close>

record gc_scan =
  sc_curr :: u64
  sc_alter :: u64
  sc_head :: u64
  sc_alter_head :: u64
  sc_found :: bool
  sc_last :: u64
  sc_first_free :: bool
  sc_checked :: u64
  sc_freed :: nat

text \<open>One turn of the loop: a page in front of the page of the tail.\<close>

definition gc_page ::
    "nova_env \<Rightarrow> gc_scan \<Rightarrow> nova_inode_info_header \<Rightarrow> nova_sb_info \<Rightarrow> (gc_scan \<times> nova_inode_info_header \<times> nova_sb_info) option" where
  "gc_page E g sih sbi =
     (let cur = sc_curr g;
          next_page = (\<lambda>g'. g'\<lparr>sc_curr := next_log_page (nvmm sbi) cur, sc_alter := 0, sc_checked := sc_checked g' + 1\<rparr>)
      in case curr_page_invalid cur (nvmm sbi) sih of
           (True, sih1) \<Rightarrow>
             if cur = log_head sih1 then
               Some (next_page (g\<lparr>sc_first_free := True, sc_last := cur, sc_freed := sc_freed g + 1\<rparr>), sih1, sbi)
             else
               map_option (\<lambda>sbi1. (next_page (g\<lparr>sc_freed := sc_freed g + 1\<rparr>), sih1, sbi1)) (free_curr_page E sih1 (sc_last g) cur sbi)
         | (False, sih1) \<Rightarrow>
             Some (next_page (if sc_found g then g\<lparr>sc_last := cur\<rparr>
                              else g\<lparr>sc_head := cur, sc_alter_head := sc_alter g, sc_found := True, sc_last := cur\<rparr>), sih1, sbi))"

partial_function (option) gc_scan_loop ::
    "nova_env \<Rightarrow> gc_scan \<Rightarrow> nova_inode_info_header \<Rightarrow> nova_sb_info \<Rightarrow> (gc_scan \<times> nova_inode_info_header \<times> nova_sb_info) option" where
  "gc_scan_loop E g sih sbi =
     (if drop_bit 12 (sc_curr g) = drop_bit 12 (log_tail sih) then
        Some (if sc_found g then g else g\<lparr>sc_head := sc_curr g, sc_alter_head := sc_alter g\<rparr>, sih, sbi)
      else if sc_curr g = 0 then None
      else
        Option.bind (gc_page E g sih sbi) (\<lambda>(g1, sih1, sbi1).
          if sc_curr g1 = 0 then Some (g1, sih1, sbi1) else gc_scan_loop E g1 sih1 sbi1))"

text \<open>The part of the collector up to the decision about a thorough collection.\<close>

definition gc_sweep ::
    "nova_env \<Rightarrow> nat \<Rightarrow> u64 \<Rightarrow> u64 \<Rightarrow> int \<Rightarrow> nova_inode_info_header \<Rightarrow> nova_sb_info \<Rightarrow> (gc_scan \<times> nova_inode_info_header \<times> nova_sb_info) option" where
  "gc_sweep E pi curr_tail new_block num_pages sih sbi =
     (let old_head = log_head sih
      in Option.bind (gc_scan_loop E \<lparr>sc_curr = old_head, sc_alter = alter_log_head sih, sc_head = 0, sc_alter_head = 0, sc_found = False, sc_last = 0, sc_first_free = False, sc_checked = 0, sc_freed = 0\<rparr>
             (sih\<lparr>valid_entries := 0, num_entries := 0\<rparr>) sbi) (\<lambda>(g, sih1, sbi1).
           let sbi2 = (if num_pages > 0 then mem_upd (nova_set_next_page_address (unat (BLOCK_OFF curr_tail)) new_block) sbi1 else sbi1);
               sbi3 = mem_upd (\<lambda>m. nput (pi + 80) (le64 (sc_alter_head g)) (nput (pi + 64) (le64 (sc_head g)) m)) sbi2;
               sih2 = sih1\<lparr>log_head := sc_head g, alter_log_head := sc_alter_head g, log_pages := log_pages sih1 + of_int (num_pages - int (sc_freed g))\<rparr>;
               g1 = g\<lparr>sc_checked := sc_checked g - of_nat (sc_freed g)\<rparr>
           in if sc_first_free g then map_option (\<lambda>sbi4. (g1, sih2, sbi4)) (free_run E sih2 (nova_get_blocknr old_head) 1 sbi3)
              else Some (g1, sih2, sbi3)))"

definition nova_inode_log_fast_gc ::
    "nova_env \<Rightarrow> nat \<Rightarrow> u64 \<Rightarrow> u64 \<Rightarrow> int \<Rightarrow> bool \<Rightarrow> nova_inode_info_header \<Rightarrow> nova_sb_info \<Rightarrow> (nova_inode_info_header \<times> nova_sb_info) option" where
  "nova_inode_log_fast_gc E pi curr_tail new_block num_pages force_thorough sih sbi =
     Option.bind (gc_sweep E pi curr_tail new_block num_pages sih sbi) (\<lambda>(g, sih1, sbi1).
       if num_entries sih1 = 0 then Some (sih1, sbi1)
       else
         let valid = valid_entries sih1 * sc_checked g;
             blocks = valid div num_entries sih1 + (if valid mod num_entries sih1 \<noteq> 0 then 1 else 0)
         in if force_thorough \<or> blocks \<noteq> 0 \<and> blocks * 2 < sc_checked g then
              map_option snd (nova_inode_log_thorough_gc E pi blocks (sc_checked g) sih1 sbi1)
            else Some (sih1, sbi1))"

end
