(* ===== verification/Nova_Log_Pages.thy ===== *)
theory Nova_Log_Pages
  imports Nova_Log Nova_Balloc_Props
begin

unbundle bit_operations_syntax

text \<open>
  Chains of log pages: what linking pages does to a chain, and that allocating log pages gives a chain of
  pages that were free.
\<close>

section \<open>Pages\<close>

lemma block_off_val [simp]: "unat (BLOCK_OFF p) = unat p div 4096 * 4096"
proof -
  have "(4095 :: u64) = mask 12" by (simp add: mask_eq_exp_minus_1)
  then show ?thesis unfolding BLOCK_OFF_def using unat_and_not_mask [of 12 p] by simp
qed

lemma entry_loc_val [simp]: "unat (ENTRY_LOC p) = unat p mod 4096"
proof -
  have "(4095 :: u64) = mask 12" by (simp add: mask_eq_exp_minus_1)
  then have "ENTRY_LOC p = take_bit 12 p" by (simp only: ENTRY_LOC_def take_bit_eq_mask)
  then have "unat (ENTRY_LOC p) = take_bit 12 (unat p)" by (simp only: unsigned_take_bit_eq)
  then show ?thesis by (simp add: take_bit_eq_mod)
qed

lemma blocknr_val [simp]: "unat (nova_get_blocknr p) = unat p div 4096"
  unfolding nova_get_blocknr_def by (simp only: unat_drop_bit_eq) (simp add: drop_bit_eq_div)

lemma get_block_off_val: "unat w < 2 ^ 31 \<Longrightarrow> unat (nova_get_block_off w) = unat w * 4096"
  unfolding nova_get_block_off_def by (simp add: push_bit_eq_mult unat_mult_less mult.commute)

text \<open>The address of the page with a block number, and the pointer in its tail.\<close>

definition page_off :: "nat \<Rightarrow> u64" where "page_off b = of_nat (b * 4096)"

lemma tail_at:
  "next_page_at (b * 4096) = b * 4096 + 4088" "num_entries_at (b * 4096) = b * 4096 + 4068"
  "invalid_entries_at (b * 4096) = b * 4096 + 4064"
  by (simp_all add: next_page_at_def num_entries_at_def invalid_entries_at_def LOG_BLOCK_TAIL_def)

definition next_of :: "mem \<Rightarrow> nat \<Rightarrow> u64" where "next_of m b = get64 m (next_page_at (b * 4096))"

lemma page_off_val: "b < 2 ^ 31 \<Longrightarrow> unat (page_off b) = b * 4096"
  unfolding page_off_def by (rule unat_of_nat_less) simp

lemma next_log_page_of: "next_log_page m p = next_of m (unat p div 4096)"
  by (simp add: next_log_page_def next_of_def)

fun log_chain :: "mem \<Rightarrow> u64 \<Rightarrow> nat list \<Rightarrow> bool" where
  "log_chain m p [] \<longleftrightarrow> p = 0"
| "log_chain m p (b # bs) \<longleftrightarrow> 0 < b \<and> b < 2 ^ 31 \<and> p = page_off b \<and> log_chain m (next_of m b) bs"

text \<open>Only the given pages change.\<close>

definition only_pages :: "nat set \<Rightarrow> mem \<Rightarrow> mem \<Rightarrow> bool" where
  "only_pages S m m' \<longleftrightarrow> (\<forall>x. x div 4096 \<notin> S \<longrightarrow> m' x = m x)"

lemma only_pages_refl [simp]: "only_pages S m m"
  by (simp add: only_pages_def)

lemma only_pages_trans: "only_pages S m m' \<Longrightarrow> only_pages T m' m'' \<Longrightarrow> S \<subseteq> U \<Longrightarrow> T \<subseteq> U \<Longrightarrow> only_pages U m m''"
  unfolding only_pages_def by (metis subset_iff)

lemma only_pages_put: "bs \<noteq> [] \<Longrightarrow> a div 4096 = b \<Longrightarrow> (a + length bs - 1) div 4096 = b \<Longrightarrow> only_pages {b} m (nput a bs m)"
proof -
  assume b: "bs \<noteq> []" "a div 4096 = b" "(a + length bs - 1) div 4096 = b"
  have "x div 4096 = b" if "a \<le> x" "x < a + length bs" for x
  proof -
    have "a div 4096 \<le> x div 4096" "x div 4096 \<le> (a + length bs - 1) div 4096" using that by (intro div_le_mono; simp)+
    then show ?thesis using b by simp
  qed
  then show ?thesis by (auto simp: only_pages_def nput_def)
qed

lemma page_div: "r < 4096 \<Longrightarrow> (b * 4096 + r) div 4096 = (b :: nat)"
  by simp

lemma only_pages_get:
  assumes "only_pages S m m'" "b \<notin> S" "r + n \<le> 4096"
  shows "nget m' (b * 4096 + r) n = nget m (b * 4096 + r) n"
proof (rule nget_cong)
  fix x assume x: "b * 4096 + r \<le> x" "x < b * 4096 + r + n"
  then have "x = b * 4096 + (x - b * 4096)" "x - b * 4096 < 4096" using assms(3) by simp_all
  then have "x div 4096 = b" by (metis page_div)
  then show "m' x = m x" using assms(1,2) by (simp add: only_pages_def)
qed

lemma only_pages_next: "only_pages S m m' \<Longrightarrow> b \<notin> S \<Longrightarrow> next_of m' b = next_of m b"
  using only_pages_get [of S m m' b 4088 8] by (simp add: next_of_def get64_def tail_at)

lemma only_pages_chain: "only_pages S m m' \<Longrightarrow> set bs \<inter> S = {} \<Longrightarrow> log_chain m' p bs = log_chain m p bs"
  by (induction bs arbitrary: p) (auto simp: only_pages_next)

text \<open>The counts in the tail of a page.\<close>

definition num_of :: "mem \<Rightarrow> nat \<Rightarrow> u32" where "num_of m b = get32 m (num_entries_at (b * 4096))"
definition invalid_of :: "mem \<Rightarrow> nat \<Rightarrow> u32" where "invalid_of m b = get32 m (invalid_entries_at (b * 4096))"

lemma only_pages_counts:
  assumes "only_pages S m m'" "b \<notin> S"
  shows "num_of m' b = num_of m b" "invalid_of m' b = invalid_of m b"
  using only_pages_get [OF assms, of 4068 4] only_pages_get [OF assms, of 4064 4]
  by (simp_all add: num_of_def invalid_of_def get32_def tail_at)

lemma set_pages [simp]:
  "only_pages {b} m (nova_set_next_page_address (b * 4096) q m)"
  "only_pages {b} m (nova_set_page_num_entries (b * 4096) k m)"
  "only_pages {b} m (nova_set_page_invalid_entries (b * 4096) k m)"
  unfolding nova_set_next_page_address_def nova_set_page_num_entries_def nova_set_page_invalid_entries_def tail_at
  by (rule only_pages_put; simp)+

lemma set_fields:
  "next_of (nova_set_next_page_address (b * 4096) q m) b = q"
  "num_of (nova_set_next_page_address (b * 4096) q m) b = num_of m b"
  "invalid_of (nova_set_next_page_address (b * 4096) q m) b = invalid_of m b"
  "num_of (nova_set_page_num_entries (b * 4096) k m) b = k"
  "num_of (nova_set_page_invalid_entries (b * 4096) k m) b = num_of m b"
  "invalid_of (nova_set_page_invalid_entries (b * 4096) k m) b = k"
  unfolding nova_set_next_page_address_def nova_set_page_num_entries_def nova_set_page_invalid_entries_def
    next_of_def num_of_def invalid_of_def tail_at
  by (simp_all add: get64_of_bytes get32_of_bytes) (simp_all add: get32_def)

text \<open>A fresh page with the address of its successor.\<close>

definition fresh_page :: "nat \<Rightarrow> u64 \<Rightarrow> mem \<Rightarrow> mem" where
  "fresh_page b q m = nova_set_next_page_address (b * 4096) q
     (nova_set_page_invalid_entries (b * 4096) 0 (nova_set_page_num_entries (b * 4096) 0 m))"

lemma fresh_page_ok:
  "only_pages {b} m (fresh_page b q m)" "next_of (fresh_page b q m) b = q" "num_of (fresh_page b q m) b = 0"
  "invalid_of (fresh_page b q m) b = 0"
proof -
  show "only_pages {b} m (fresh_page b q m)"
    unfolding fresh_page_def
    by (rule only_pages_trans [OF only_pages_trans [OF set_pages(2) set_pages(3) subset_refl subset_refl] set_pages(1)]) simp_all
qed (simp_all add: fresh_page_def set_fields)

definition linked :: "nat \<Rightarrow> nat \<Rightarrow> u64 \<Rightarrow> mem \<Rightarrow> bool" where
  "linked b n q m \<longleftrightarrow> (\<forall>j < n. next_of m (b + j) = (if Suc j = n then q else page_off (b + Suc j)) \<and>
     num_of m (b + j) = 0 \<and> invalid_of m (b + j) = 0)"

lemma coalesce_loop_ok:
  assumes "unat w = Suc b" "b + n < 2 ^ 31"
  shows "\<exists>m'. coalesce_loop n (b * 4096) w m = ((b + n) * 4096, m') \<and> only_pages {b..<b + n} m m' \<and> linked b n (page_off (b + n)) m'"
  using assms
proof (induction n arbitrary: b w m)
  case 0
  then show ?case by (simp add: linked_def)
next
  case (Suc n)
  let ?m = "fresh_page b (nova_get_block_off w) m"
  have w: "nova_get_block_off w = page_off (Suc b)"
    using get_block_off_val [of w] page_off_val [of "Suc b"] Suc.prems by (simp add: word_unat_eq_iff)
  have "unat (w + 1) = Suc (Suc b)" using Suc.prems by (subst unat_add_less) simp_all
  then obtain m' where m': "coalesce_loop n (Suc b * 4096) (w + 1) ?m = ((Suc b + n) * 4096, m')"
    "only_pages {Suc b..<Suc b + n} ?m m'" "linked (Suc b) n (page_off (Suc b + n)) m'"
    using Suc.IH [of "w + 1" "Suc b" ?m] Suc.prems by auto
  have run: "coalesce_loop (Suc n) (b * 4096) w m = ((b + Suc n) * 4096, m')"
    using m'(1) by (simp add: fresh_page_def add.commute)
  have fr: "only_pages {b..<b + Suc n} m m'"
    by (rule only_pages_trans [OF fresh_page_ok(1) m'(2)]) auto
  have b: "b \<notin> {Suc b..<Suc b + n}" by simp
  note keep = only_pages_next [OF m'(2) b] only_pages_counts [OF m'(2) b] fresh_page_ok(2-4) [of b "nova_get_block_off w" m]
  have "linked b (Suc n) (page_off (b + Suc n)) m'"
    unfolding linked_def
  proof (intro allI impI)
    fix j assume "j < Suc n"
    then show "next_of m' (b + j) = (if Suc j = Suc n then page_off (b + Suc n) else page_off (b + Suc j)) \<and>
        num_of m' (b + j) = 0 \<and> invalid_of m' (b + j) = 0"
      using keep w m'(3) by (cases j) (auto simp: linked_def)
  qed
  with run fr show ?case by blast
qed

text \<open>A run of pages joins a chain.\<close>

definition joined :: "nat \<Rightarrow> nat \<Rightarrow> nat \<Rightarrow> mem \<Rightarrow> mem \<Rightarrow> bool" where
  "joined a b n m m' \<longleftrightarrow> linked b n 0 m' \<and> only_pages (insert a {b..<b + n}) m m' \<and>
     (if a = 0 then only_pages {b..<b + n} m m' else next_of m' a = page_off b \<and> num_of m' a = num_of m a \<and> invalid_of m' a = invalid_of m a)"

lemma coalesce_ok:
  assumes a: "unat prev < 2 ^ 31" "unat prev \<notin> {unat first..<unat first + n}"
    and n: "0 < n" "unat k = n" "unat first + n \<le> 2 ^ 31"
  shows "joined (unat prev) (unat first) n m (nova_coalesce_log_pages prev first k m)"
proof -
  let ?b = "unat first" and ?a = "unat prev"
  let ?m1 = "if prev \<noteq> 0 then nova_set_next_page_address (unat (nova_get_block_off prev)) (nova_get_block_off first) m else m"
  have f: "nova_get_block_off first = page_off ?b" "unat (nova_get_block_off first) = ?b * 4096"
    "unat (nova_get_block_off prev) = ?a * 4096"
    using get_block_off_val [of first] get_block_off_val [of prev] page_off_val [of ?b] n a by (simp_all add: word_unat_eq_iff)
  have k: "unat (k - 1) = n - 1" using n by (subst unat_sub_le) (simp_all add: word_le_nat_alt)
  have w: "unat (first + 1) = Suc ?b" using n by (subst unat_add_less) simp_all
  have "?b + (n - 1) < 2 ^ 31" using n by simp
  from coalesce_loop_ok [OF w this, of ?m1] obtain m2 where
    l: "coalesce_loop (n - 1) (?b * 4096) (first + 1) ?m1 = ((?b + (n - 1)) * 4096, m2)" "only_pages {?b..<?b + (n - 1)} ?m1 m2"
      "linked ?b (n - 1) (page_off (?b + (n - 1))) m2" by blast
  let ?e = "?b + (n - 1)" and ?m' = "fresh_page (?b + (n - 1)) 0 m2"
  have run: "nova_coalesce_log_pages prev first k m = ?m'"
    unfolding nova_coalesce_log_pages_def Let_def k f(2) l(1) by (simp add: fresh_page_def)
  have o1: "only_pages (if ?a = 0 then {} else {?a}) m ?m1" using f(3) by (simp add: unat_eq_0)
  have o2: "only_pages {?b..<?b + n} ?m1 ?m'"
    by (rule only_pages_trans [OF l(2) fresh_page_ok(1)]) (use n in auto)
  have o: "only_pages (insert ?a {?b..<?b + n}) m ?m'" "?a = 0 \<Longrightarrow> only_pages {?b..<?b + n} m ?m'"
    by (rule only_pages_trans [OF o1 o2]; auto)+
  have "next_of ?m' ?a = page_off ?b \<and> num_of ?m' ?a = num_of m ?a \<and> invalid_of ?m' ?a = invalid_of m ?a" if "?a \<noteq> 0"
    using that only_pages_next [OF o2 a(2)] only_pages_counts [OF o2 a(2)] f by (simp add: set_fields unat_eq_0)
  moreover have "linked ?b n 0 ?m'"
    unfolding linked_def
  proof (intro allI impI)
    fix j assume j: "j < n"
    show "next_of ?m' (?b + j) = (if Suc j = n then 0 else page_off (?b + Suc j)) \<and> num_of ?m' (?b + j) = 0 \<and> invalid_of ?m' (?b + j) = 0"
    proof (cases "Suc j = n")
      case True
      then show ?thesis using fresh_page_ok(2-4) [of ?e 0 m2] by auto
    next
      case False
      then have "?b + j \<notin> {?e}" "j < n - 1" using j by simp_all
      then show ?thesis using only_pages_next [OF fresh_page_ok(1)] only_pages_counts [OF fresh_page_ok(1)] l(3) False
        by (cases "Suc j = n - 1") (auto simp: linked_def)
    qed
  qed
  ultimately show ?thesis unfolding run joined_def using o by simp
qed

lemma linked_counts: "linked b n q m \<Longrightarrow> c \<in> {b..<b + n} \<Longrightarrow> num_of m c = 0 \<and> invalid_of m c = 0"
proof -
  assume l: "linked b n q m" "c \<in> {b..<b + n}"
  then have "b + (c - b) = c" "c - b < n" by auto
  with l(1) [unfolded linked_def, rule_format, of "c - b"] show ?thesis by simp
qed

lemma linked_chain: "linked b n q m \<Longrightarrow> 0 < b \<Longrightarrow> b + n \<le> 2 ^ 31 \<Longrightarrow> 0 < n \<Longrightarrow> log_chain m q cs \<Longrightarrow> log_chain m (page_off b) ([b..<b + n] @ cs)"
proof (induction n arbitrary: b)
  case 0
  then show ?case by simp
next
  case (Suc n)
  have up: "[b..<b + Suc n] = b # [Suc b..<Suc b + n]" by (simp add: upt_rec)
  have nx: "next_of m b = (if n = 0 then q else page_off (Suc b))" using Suc.prems(1) by (auto simp: linked_def)
  have "linked (Suc b) n q m"
    unfolding linked_def
  proof (intro allI impI)
    fix j assume "j < n"
    with Suc.prems(1) [unfolded linked_def, rule_format, of "Suc j"]
    show "next_of m (Suc b + j) = (if Suc j = n then q else page_off (Suc b + Suc j)) \<and> num_of m (Suc b + j) = 0 \<and> invalid_of m (Suc b + j) = 0"
      by simp
  qed
  then have "0 < n \<Longrightarrow> log_chain m (page_off (Suc b)) ([Suc b..<Suc b + n] @ cs)"
    by (rule Suc.IH) (use Suc.prems in simp_all)
  then show ?case using Suc.prems nx unfolding up by (cases "n = 0") simp_all
qed

lemma chain_extend:
  assumes "log_chain m p (bs @ [a])" "\<And>b. b \<in> set bs \<Longrightarrow> next_of m' b = next_of m b" "next_of m' a = q" "log_chain m' q cs"
  shows "log_chain m' p (bs @ a # cs)"
  using assms by (induction bs arbitrary: p) auto

section \<open>Allocation\<close>

text \<open>What the code relies on in its surroundings: the kernel keeps the order of trees and finds memory for nodes.\<close>

definition env_ok :: "nova_env \<Rightarrow> bool" where
  "env_ok E \<longleftrightarrow> rb_ok (rbk E) \<and> (\<forall>sbi. nova_ok (rbk E) sbi \<longrightarrow> (\<exists>y. node_at E sbi = Some y \<and> fresh y sbi))"

abbreviation st_ok :: "nova_env \<Rightarrow> nova_sb_info \<Rightarrow> bool" where "st_ok E sbi \<equiv> nova_ok (rbk E) sbi"

lemma free_bounds:
  assumes ok: "nova_ok K sbi" and b: "b \<in> nova_free sbi"
  shows "0 < b" "b < 2 ^ 31" "\<exists>i < cpus sbi. b \<in> zone sbi i"
proof -
  from b obtain i where i: "i < cpus sbi" "b \<in> free_of (nodes sbi) (fl_at sbi i)" by (auto simp: nova_free_def)
  then have z: "b \<in> zone sbi i" using free_in_zone [OF ok i(1)] by blast
  have "shape_ok K (nodes sbi) (fl_at sbi i)" using nova_okD(4) [OF ok i(1)] by (simp add: list_ok_def)
  then show "0 < b" "b < 2 ^ 31" using z by (auto simp: zone_def shape_ok_def)
  show "\<exists>i < cpus sbi. b \<in> zone sbi i" using i z by blast
qed

definition got_pages :: "nova_env \<Rightarrow> nova_sb_info \<Rightarrow> nat \<Rightarrow> nat \<Rightarrow> nova_sb_info \<Rightarrow> bool" where
  "got_pages E sbi b n sbi' \<longleftrightarrow> st_ok E sbi' \<and> 0 < n \<and> {b..<b + n} \<subseteq> nova_free sbi \<and> nova_free sbi' = nova_free sbi - {b..<b + n} \<and>
     nvmm sbi' = nvmm sbi \<and> same_zones sbi sbi'"

lemma log_blocks_ok:
  assumes E: "env_ok E" and ok: "st_ok E sbi" and t: "i_blk_type sih = 0" and n: "num \<noteq> 0" "unat num < 2 ^ 32"
  shows "\<exists>ret out sbi'. log_blocks E sih num ANY_CPU dir sbi = Some (ret, out, sbi') \<and>
    ((\<exists>nr k. out = Some nr \<and> ret = int k \<and> k \<le> unat num \<and> got_pages E sbi (unat nr) k sbi') \<or>
     ret = - ENOSPC \<and> out = None \<and> sbi' = sbi)"
proof -
  from E ok obtain y where y: "node_at E sbi = Some y" "fresh y sbi" and K: "rb_ok (rbk E)" by (auto simp: env_ok_def)
  have u: "unat (ucast num :: u32) = unat num" using n(2) by (simp add: unsigned_ucast_eq take_bit_nat_eq_self)
  then have "(ucast num :: u32) \<noteq> 0" using n(1) by (metis unat_0 unat_eq_0)
  from new_blocks_ok [OF K ok y(2) this, of ANY_CPU "smp_processor_id E sbi" 0 False LOG dir] obtain ret out sbi' where
    r: "nova_new_blocks (rbk E) (smp_processor_id E sbi) (Some y) (ucast num) 0 False LOG ANY_CPU dir sbi = Some (ret, out, sbi')"
    "(\<exists>nr. out = Some nr \<and> allocated (rbk E) (ucast num) 0 False sbi ret nr sbi') \<or> ret = - ENOSPC \<and> out = None \<and> sbi' = sbi"
    by blast
  have "\<exists>k. ret = int k \<and> k \<le> unat num \<and> got_pages E sbi (unat nr) k sbi'" if "allocated (rbk E) (ucast num) 0 False sbi ret nr sbi'" for nr
    using that unfolding allocated_def got_pages_def zeroed_def
    by (auto simp: nova_get_numblocks_def u fun_eq_iff intro!: exI [of _ "nat ret"])
  then show ?thesis using r t y(1) by (simp add: log_blocks_def nova_new_log_blocks_def) blast
qed

lemma mem_upd_simps [simp]:
  "nova_ok K (mem_upd f sbi) = nova_ok K sbi" "nova_free (mem_upd f sbi) = nova_free sbi" "nvmm (mem_upd f sbi) = f (nvmm sbi)"
  "same_zones sbi' (mem_upd f sbi) = same_zones sbi' sbi"
  by (simp_all add: mem_upd_def nova_ok_def nova_free_def same_zones_def zone_def)

text \<open>A chain of pages that were free before.\<close>

definition new_chain :: "nova_env \<Rightarrow> nova_sb_info \<Rightarrow> u64 \<Rightarrow> nat list \<Rightarrow> nova_sb_info \<Rightarrow> bool" where
  "new_chain E sbi p bs sbi' \<longleftrightarrow> st_ok E sbi' \<and> bs \<noteq> [] \<and> distinct bs \<and> log_chain (nvmm sbi') p bs \<and> set bs \<subseteq> nova_free sbi \<and>
     nova_free sbi' = nova_free sbi - set bs \<and> only_pages (set bs) (nvmm sbi) (nvmm sbi') \<and> same_zones sbi sbi' \<and>
     (\<forall>b \<in> set bs. num_of (nvmm sbi') b = 0 \<and> invalid_of (nvmm sbi') b = 0)"

lemma got_run:
  assumes ok: "st_ok E sbi" and g: "got_pages E sbi b n sbi'"
  shows "0 < b" "b + n \<le> 2 ^ 31" "0 < n"
proof -
  have r: "b \<in> nova_free sbi" "b + n - 1 \<in> nova_free sbi" using g by (auto simp: got_pages_def)
  then show "0 < b" "b + n \<le> 2 ^ 31" "0 < n" using free_bounds(1,2) [OF ok] g by (force simp: got_pages_def)+
qed

lemma first_run:
  assumes ok: "st_ok E sbi" and g: "got_pages E sbi (unat nr) n sbi1" and k: "unat k = n"
  shows "new_chain E sbi (page_off (unat nr)) [unat nr..<unat nr + n] (mem_upd (nova_coalesce_log_pages 0 nr k) sbi1)"
proof -
  let ?m = "nova_coalesce_log_pages 0 nr k (nvmm sbi1)"
  note r = got_run [OF ok g]
  have j: "joined 0 (unat nr) n (nvmm sbi1) ?m" using coalesce_ok [of 0 nr n k "nvmm sbi1"] r k by simp
  then have l: "linked (unat nr) n 0 ?m" and o: "only_pages {unat nr..<unat nr + n} (nvmm sbi1) ?m" by (simp_all add: joined_def)
  show ?thesis using linked_counts [OF l] linked_chain [OF l r(1-3), of "[]"] g o unfolding new_chain_def got_pages_def by auto
qed

lemma next_run:
  assumes c: "new_chain E s0 p bs sbi" and a: "unat prev = last bs" and g: "got_pages E sbi (unat nr) n sbi1" and k: "unat k = n"
  shows "new_chain E s0 p (bs @ [unat nr..<unat nr + n]) (mem_upd (nova_coalesce_log_pages prev nr k) sbi1)"
proof -
  let ?R = "{unat nr..<unat nr + n}" and ?m = "nova_coalesce_log_pages prev nr k (nvmm sbi1)"
  have ok: "st_ok E sbi" using c by (simp add: new_chain_def)
  note r = got_run [OF ok g]
  obtain as where bs: "bs = as @ [last bs]" using c by (metis append_butlast_last_id new_chain_def)
  have sb: "set bs = insert (last bs) (set as)" by (subst bs) simp
  have dj: "set bs \<inter> ?R = {}" using c g by (auto simp: new_chain_def got_pages_def)
  have lb: "last bs \<in> set bs" using c by (simp add: new_chain_def)
  have ch: "log_chain (nvmm sbi) p bs" and fr: "set bs \<subseteq> nova_free s0" using c by (simp_all add: new_chain_def)
  have "0 < b \<and> b < 2 ^ 31" if "log_chain m q xs" "b \<in> set xs" for m q xs b using that by (induction xs arbitrary: q) auto
  then have l31: "0 < last bs" "last bs < 2 ^ 31" using ch lb by blast+
  have "joined (unat prev) (unat nr) n (nvmm sbi1) ?m" 
  proof (rule coalesce_ok)
    show "unat prev \<notin> ?R" using a dj lb by auto
  qed (use a l31 r k in simp_all)
  then have l: "linked (unat nr) n 0 ?m" and o: "only_pages (insert (last bs) ?R) (nvmm sbi1) ?m"
    and nx: "next_of ?m (last bs) = page_off (unat nr)" "num_of ?m (last bs) = num_of (nvmm sbi1) (last bs)"
      "invalid_of ?m (last bs) = invalid_of (nvmm sbi1) (last bs)"
    using a l31 by (auto simp: joined_def)
  have m1: "nvmm sbi1 = nvmm sbi" using g by (simp add: got_pages_def)
  have "distinct (as @ [last bs])" using c bs by (simp add: new_chain_def)
  then have as: "b \<notin> insert (last bs) ?R" if "b \<in> set as" for b using that dj unfolding sb by auto
  have "log_chain ?m p (as @ last bs # [unat nr..<unat nr + n])"
  proof (rule chain_extend)
    show "log_chain (nvmm sbi1) p (as @ [last bs])" using ch bs m1 by simp
    show "next_of ?m b = next_of (nvmm sbi1) b" if "b \<in> set as" for b by (rule only_pages_next [OF o as [OF that]])
    show "log_chain ?m (page_off (unat nr)) [unat nr..<unat nr + n]" using linked_chain [OF l r(1-3), of "[]"] by simp
  qed (rule nx(1))
  then have "log_chain ?m p (bs @ [unat nr..<unat nr + n])" by (subst bs) simp
  moreover have "num_of ?m b = 0 \<and> invalid_of ?m b = 0" if "b \<in> set (bs @ [unat nr..<unat nr + n])" for b
  proof -
    have "b \<in> set bs \<or> b \<in> ?R" using that by simp
    then consider "b \<in> set as" | "b = last bs" | "b \<in> ?R" unfolding sb by blast
    then show ?thesis
    proof cases
      case 1
      then have "b \<in> set bs" using sb by blast
      then show ?thesis using only_pages_counts [OF o as [OF 1]] c m1 by (simp add: new_chain_def)
    next
      case 2
      then show ?thesis using nx(2,3) lb c m1 by (simp add: new_chain_def)
    next
      case 3
      then show ?thesis using linked_counts [OF l] by blast
    qed
  qed
  moreover have "only_pages (set bs \<union> ?R) (nvmm s0) ?m"
    by (rule only_pages_trans [of "set bs" _ "nvmm sbi" "insert (last bs) ?R"]) (use c o m1 lb in \<open>auto simp: new_chain_def\<close>)
  moreover have "same_zones s0 sbi1" using c g same_zones_trans by (auto simp: new_chain_def got_pages_def)
  moreover have "?R \<subseteq> nova_free s0" "nova_free sbi1 = nova_free s0 - (set bs \<union> ?R)" using c g by (auto simp: new_chain_def got_pages_def)
  ultimately show ?thesis using c g dj unfolding new_chain_def got_pages_def by auto
qed

lemma got_run_words:
  fixes num nr :: u64
  assumes "got_pages E sbi (unat nr) k sbi1" "st_ok E sbi" "k \<le> unat num"
  shows "unat (of_int (int k) :: u64) = k" "unat (num - of_int (int k)) = unat num - k" "unat (nr + of_int (int k) - 1) = unat nr + k - 1"
proof -
  note r = got_run [OF assms(2,1)]
  show k: "unat (of_int (int k) :: u64) = k" using r by (simp add: unat_of_nat_less)
  show "unat (num - of_int (int k)) = unat num - k" using assms(3) k by (subst unat_sub_le) (simp_all add: word_le_nat_alt)
  have "unat (nr + of_int (int k)) = unat nr + k" using k r by (subst unat_add_less) simp_all
  then show "unat (nr + of_int (int k) - 1) = unat nr + k - 1" using r by (subst unat_sub_le) (simp_all add: word_le_nat_alt)
qed

lemma alloc_pages_loop_ok:
  assumes E: "env_ok E" and t: "i_blk_type sih = 0"
    and "new_chain E s0 p bs sbi" "unat prev = last bs" "unat num < 2 ^ 32"
  shows "\<exists>cs sbi'. alloc_pages_loop E sih ANY_CPU dir num prev ret sbi = Some (ret + int (length cs), sbi') \<and>
    new_chain E s0 p (bs @ cs) sbi' \<and> length cs \<le> unat num"
  using assms(3-5)
proof (induction "unat num" arbitrary: num prev ret bs sbi rule: less_induct)
  case less
  show ?case
  proof (cases "num = 0")
    case True
    then show ?thesis using less.prems(1) by (subst alloc_pages_loop.simps) (auto intro!: exI [of _ "[]"])
  next
    case False
    have ok: "st_ok E sbi" using less.prems(1) by (simp add: new_chain_def)
    from log_blocks_ok [OF E ok t False less.prems(3), of dir] obtain r out sbi1 where
      l: "log_blocks E sih num ANY_CPU dir sbi = Some (r, out, sbi1)"
      "(\<exists>nr k. out = Some nr \<and> r = int k \<and> k \<le> unat num \<and> got_pages E sbi (unat nr) k sbi1) \<or> r = - ENOSPC \<and> out = None \<and> sbi1 = sbi" by blast
    from l(2) consider (got) nr k where "out = Some nr" "r = int k" "k \<le> unat num" "got_pages E sbi (unat nr) k sbi1"
      | (full) "out = None" "sbi1 = sbi" by blast
    then show ?thesis
    proof cases
      case full
      then show ?thesis using less.prems(1) l(1) False by (subst alloc_pages_loop.simps) (auto intro!: exI [of _ "[]"])
    next
      case got
      note w = got_run_words [OF got(4) ok got(3)] and run = got_run [OF ok got(4)]
      let ?prev = "nr + of_int (int k) - 1" and ?num = "num - of_int (int k)"
      let ?sbi = "mem_upd (nova_coalesce_log_pages prev nr (of_int (int k))) sbi1" and ?bs = "bs @ [unat nr..<unat nr + k]"
      have c: "new_chain E s0 p ?bs ?sbi" by (rule next_run [OF less.prems(1,2) got(4) w(1)])
      have "unat ?prev = last ?bs" using w(3) run(3) by simp
      moreover have "unat ?num < unat num" "unat ?num < 2 ^ 32" using w(2) run(3) got(3) less.prems(3) by simp_all
      ultimately obtain cs sbi' where IH:
        "alloc_pages_loop E sih ANY_CPU dir ?num ?prev (ret + int k) ?sbi = Some (ret + int k + int (length cs), sbi')"
        "new_chain E s0 p (?bs @ cs) sbi'" "length cs \<le> unat ?num"
        using less.hyps [of ?num ?bs ?sbi ?prev "ret + int k"] c by blast
      have "alloc_pages_loop E sih ANY_CPU dir num prev ret sbi = Some (ret + int (length ([unat nr..<unat nr + k] @ cs)), sbi')"
        using IH(1) l(1) got(1,2) False run(3) by (subst alloc_pages_loop.simps) (simp add: algebra_simps)
      moreover have "length ([unat nr..<unat nr + k] @ cs) \<le> unat num" using IH(3) w(2) got(3) by simp
      ultimately show ?thesis using IH(2) by (intro exI [of _ "[unat nr..<unat nr + k] @ cs"] exI [of _ sbi']) simp
    qed
  qed
qed

lemma allocate_log_pages_ok:
  assumes E: "env_ok E" and ok: "st_ok E sbi" and t: "i_blk_type sih = 0" and n: "num \<noteq> 0" "unat num < 2 ^ 32"
  shows "(\<exists>p bs sbi'. nova_allocate_inode_log_pages E sih num ANY_CPU dir sbi = Some (int (length bs), Some p, sbi') \<and>
      new_chain E sbi p bs sbi' \<and> length bs \<le> unat num) \<or>
    nova_allocate_inode_log_pages E sih num ANY_CPU dir sbi = Some (- ENOSPC, None, sbi)"
proof -
  from log_blocks_ok [OF E ok t n, of dir] obtain r out sbi1 where
    l: "log_blocks E sih num ANY_CPU dir sbi = Some (r, out, sbi1)"
    "(\<exists>nr k. out = Some nr \<and> r = int k \<and> k \<le> unat num \<and> got_pages E sbi (unat nr) k sbi1) \<or> r = - ENOSPC \<and> out = None \<and> sbi1 = sbi" by blast
  from l(2) consider (got) nr k where "out = Some nr" "r = int k" "k \<le> unat num" "got_pages E sbi (unat nr) k sbi1"
    | (full) "r = - ENOSPC" "out = None" "sbi1 = sbi" by blast
  then show ?thesis
  proof cases
    case full
    then show ?thesis using l(1) by (simp add: nova_allocate_inode_log_pages_def)
  next
    case got
    note w = got_run_words [OF got(4) ok got(3)] and run = got_run [OF ok got(4)]
    let ?prev = "nr + of_int (int k) - 1" and ?num = "num - of_int (int k)"
    let ?sbi = "mem_upd (nova_coalesce_log_pages 0 nr (of_int (int k))) sbi1" and ?bs = "[unat nr..<unat nr + k]"
    have off: "nova_get_block_off nr = page_off (unat nr)"
      using get_block_off_val [of nr] page_off_val [of "unat nr"] run by (simp add: word_unat_eq_iff)
    have c: "new_chain E sbi (page_off (unat nr)) ?bs ?sbi" by (rule first_run [OF ok got(4) w(1)])
    have "unat ?prev = last ?bs" "unat ?num < 2 ^ 32" using w run(3) n(2) by simp_all
    from alloc_pages_loop_ok [OF E t c this, of dir "int k"] obtain cs sbi' where
      r: "alloc_pages_loop E sih ANY_CPU dir ?num ?prev (int k) ?sbi = Some (int k + int (length cs), sbi')"
      "new_chain E sbi (page_off (unat nr)) (?bs @ cs) sbi'" "length cs \<le> unat ?num" by blast
    have "nova_allocate_inode_log_pages E sih num ANY_CPU dir sbi = Some (int (length (?bs @ cs)), Some (page_off (unat nr)), sbi')"
      using l(1) got(1,2) run(3) r(1) off by (simp add: nova_allocate_inode_log_pages_def)
    moreover have "length (?bs @ cs) \<le> unat num" using r(3) w(2) got(3) by simp
    ultimately show ?thesis using r(2) by blast
  qed
qed

end
