(* ===== verification/Nova_Log_Free.thy ===== *)
theory Nova_Log_Free
  imports Nova_Log_Pages
begin

text \<open>
  Freeing the pages of a chain: the walk ends, and exactly the pages of the chain become free.
\<close>

text \<open>
  Adjacent blocks of a set belong to the same processor.  A run of them then does, and the free list that is
  chosen by its first block takes all of it.
\<close>

definition gap_ok :: "nova_sb_info \<Rightarrow> nat set \<Rightarrow> bool" where
  "gap_ok sbi B \<longleftrightarrow> (\<forall>i < cpus sbi. \<forall>j < cpus sbi. \<forall>b. b \<in> B \<longrightarrow> Suc b \<in> B \<longrightarrow> b \<in> zone sbi i \<longrightarrow> Suc b \<in> zone sbi j \<longrightarrow> i = j)"

lemma gap_ok_one [simp]: "gap_ok sbi {b}"
  by (simp add: gap_ok_def)

lemma gap_ok_mono: "gap_ok sbi B \<Longrightarrow> C \<subseteq> B \<Longrightarrow> gap_ok sbi C"
  unfolding gap_ok_def by blast

definition in_zones :: "nova_sb_info \<Rightarrow> nat set \<Rightarrow> bool" where
  "in_zones sbi B \<longleftrightarrow> (\<forall>b \<in> B. \<exists>i < cpus sbi. b \<in> zone sbi i)"

lemma zones_cong: "same_zones sbi sbi' \<Longrightarrow> gap_ok sbi' B = gap_ok sbi B" "same_zones sbi sbi' \<Longrightarrow> in_zones sbi' B = in_zones sbi B"
  by (simp_all add: same_zones_def gap_ok_def in_zones_def)

lemma run_in_zone:
  assumes "gap_ok sbi {a..<a + n}" "in_zones sbi {a..<a + n}" "0 < n"
  shows "\<exists>i < cpus sbi. {a..<a + n} \<subseteq> zone sbi i"
  using assms
proof (induction n)
  case (Suc n)
  have z: "\<exists>i < cpus sbi. a + n \<in> zone sbi i" using Suc.prems(2) by (simp add: in_zones_def)
  show ?case
  proof (cases "n = 0")
    case True
    with z show ?thesis by auto
  next
    case False
    then obtain m where m: "n = Suc m" by (cases n) simp_all
    have "gap_ok sbi {a..<a + n}" by (rule gap_ok_mono [OF Suc.prems(1)]) auto
    with False Suc obtain i where i: "i < cpus sbi" "{a..<a + n} \<subseteq> zone sbi i" by (auto simp: in_zones_def)
    obtain j where j: "j < cpus sbi" "a + n \<in> zone sbi j" using z by blast
    have "a + m \<in> zone sbi i" using i(2) m by auto
    moreover have "a + m \<in> {a..<a + Suc n}" "Suc (a + m) \<in> {a..<a + Suc n}" "Suc (a + m) = a + n" using m by simp_all
    ultimately have "i = j" using Suc.prems(1) i(1) j unfolding gap_ok_def by metis
    moreover have "{a..<a + Suc n} = insert (a + n) {a..<a + n}" by auto
    ultimately show ?thesis using i j by auto
  qed
qed simp

lemma free_run_ok:
  assumes E: "env_ok E" and t: "i_blk_type sih = 0" and ok: "st_ok E sbi" and g: "gap_ok sbi {unat s..<unat s + n}"
    and z: "in_zones sbi {unat s..<unat s + n}" and f: "nova_free sbi \<inter> {unat s..<unat s + n} = {}" and n: "0 < n" "n < 2 ^ 31" and s: "s \<noteq> 0"
  shows "\<exists>sbi'. free_run E sih s (int n) sbi = Some sbi' \<and> st_ok E sbi' \<and> nova_free sbi' = nova_free sbi \<union> {unat s..<unat s + n} \<and>
    nvmm sbi' = nvmm sbi \<and> same_zones sbi sbi'"
proof -
  from E ok obtain y where y: "node_at E sbi = Some y" "fresh y sbi" and K: "rb_ok (rbk E)" by (auto simp: env_ok_def)
  from run_in_zone [OF g z n(1)] obtain i where i: "i < cpus sbi" "{unat s..<unat s + n} \<subseteq> zone sbi i" by blast
  have l: "n = unat (nova_get_numblocks 0) * nat (int n)" by (simp add: nova_get_numblocks_def)
  have "(0 :: int) < int n" "int n < 2 ^ 31" using n by simp_all
  from free_blocks_ok [OF K ok y(2) this l i f, of True] show ?thesis
    using y(1) t s by (auto simp: free_run_def nova_free_log_blocks_def)
qed

text \<open>The run that the walk has collected so far.\<close>

definition pending :: "nova_env \<Rightarrow> nat set \<Rightarrow> nova_sb_info \<Rightarrow> u64 \<Rightarrow> nat \<Rightarrow> bool" where
  "pending E B sbi s k \<longleftrightarrow> st_ok E sbi \<and> gap_ok sbi B \<and> {unat s..<unat s + k} \<subseteq> B \<and> in_zones sbi {unat s..<unat s + k} \<and> nova_free sbi \<inter> {unat s..<unat s + k} = {} \<and>
     0 < k \<and> s \<noteq> 0 \<and> unat s + k \<le> 2 ^ 31"

lemma pending_freed:
  assumes E: "env_ok E" and t: "i_blk_type sih = 0" and p: "pending E B sbi s k"
  shows "\<exists>sbi'. free_run E sih s (int k) sbi = Some sbi' \<and> st_ok E sbi' \<and> gap_ok sbi' B \<and>
    nova_free sbi' = nova_free sbi \<union> {unat s..<unat s + k} \<and> nvmm sbi' = nvmm sbi \<and> same_zones sbi sbi'"
proof -
  note d = p [unfolded pending_def]
  have "unat s \<noteq> 0" using d by (simp add: unat_eq_0)
  then have "k < 2 ^ 31" using d by linarith
  then have "\<exists>sbi'. free_run E sih s (int k) sbi = Some sbi' \<and> st_ok E sbi' \<and> nova_free sbi' = nova_free sbi \<union> {unat s..<unat s + k} \<and>
      nvmm sbi' = nvmm sbi \<and> same_zones sbi sbi'"
    using free_run_ok [OF E t _ gap_ok_mono, of sbi B s k] d by blast
  then show ?thesis using d zones_cong(1) by blast
qed

lemma page_walk:
  assumes "log_chain m p (b # bs)"
  shows "p \<noteq> 0" "ENTRY_LOC p = 0" "unat (nova_get_blocknr p) = b" "log_chain m (next_log_page m p) bs" "0 < b" "b < 2 ^ 31"
proof -
  show b: "0 < b" "b < 2 ^ 31" using assms by simp_all
  then have u: "unat p = b * 4096" using assms page_off_val by simp
  show "p \<noteq> 0" using u b(1) by auto
  show "ENTRY_LOC p = 0" using u entry_loc_val [of p] by (simp add: unat_eq_0 [symmetric] del: entry_loc_val)
  show "unat (nova_get_blocknr p) = b" "log_chain m (next_log_page m p) bs" using u assms by (simp_all add: next_log_page_of)
qed

lemma pending_one:
  assumes "st_ok E sbi" "gap_ok sbi B" "b \<in> B" "in_zones sbi {b}" "b \<notin> nova_free sbi" "0 < b" "b < 2 ^ 31" "unat w = b"
  shows "pending E B sbi w 1"
proof -
  have "{b..<Suc b} = {b}" by auto
  then show ?thesis using assms by (auto simp: pending_def)
qed

lemma pending_more:
  assumes p: "pending E B sbi s k" and b: "unat s + k \<in> B" "in_zones sbi {unat s + k}" "unat s + k \<notin> nova_free sbi" "unat s + k < 2 ^ 31"
  shows "pending E B sbi s (Suc k)"
proof -
  have "{unat s..<unat s + Suc k} = insert (unat s + k) {unat s..<unat s + k}" by auto
  then show ?thesis using assms by (auto simp: pending_def in_zones_def)
qed

lemma free_pages_loop_ok:
  assumes E: "env_ok E" and t: "i_blk_type sih = 0"
    and "pending E B sbi s k" "log_chain (nvmm sbi) p bs" "distinct bs" "set bs \<inter> {unat s..<unat s + k} = {}"
      "set bs \<inter> nova_free sbi = {}" "in_zones sbi (set bs)" "set bs \<subseteq> B"
  shows "\<exists>s' k' freed' sbi'. free_pages_loop E sih p s (int k) freed sbi = Some (s', int k', freed', sbi') \<and> pending E B sbi' s' k' \<and>
    nova_free sbi' \<union> {unat s'..<unat s' + k'} = nova_free sbi \<union> {unat s..<unat s + k} \<union> set bs \<and>
    freed' + int k' = freed + int k + int (length bs) \<and> nvmm sbi' = nvmm sbi \<and> same_zones sbi sbi'"
  using assms(3-)
proof (induction bs arbitrary: p s k freed sbi)
  case Nil
  then show ?case by (subst free_pages_loop.simps) auto
next
  case (Cons b bs)
  note w = page_walk [OF Cons.prems(2)] and P = Cons.prems(1)
  let ?next = "next_log_page (nvmm sbi) p" and ?w = "nova_get_blocknr p"
  have sk: "unat (s + of_int (int k)) = unat s + k"
    using P by (subst unat_add_less) (simp_all add: pending_def unat_of_nat_less)
  have s0: "s \<noteq> 0" using P by (simp add: pending_def)
  have zb: "in_zones sbi {b}" "in_zones sbi (set bs)" using Cons.prems(6) by (simp_all add: in_zones_def)
  have sB: "set bs \<subseteq> B" using Cons.prems(7) by simp
  show ?case
  proof (cases "b = unat s + k")
    case True
    then have eq: "?w = s + of_int (int k)" using sk w(3) by (simp only: word_unat_eq_iff)
    have p: "pending E B sbi s (Suc k)" using pending_more [OF P] True zb(1) w(6) Cons.prems(5,7) by simp
    have r: "{unat s..<unat s + Suc k} = insert b {unat s..<unat s + k}" using True by auto
    have "set bs \<inter> {unat s..<unat s + Suc k} = {}" "set bs \<inter> nova_free sbi = {}" "distinct bs"
      using Cons.prems(3-5) unfolding r by auto
    from Cons.IH [OF p w(4) this(3,1,2) zb(2) sB, of freed] obtain s' k' freed' sbi' where
      IH: "free_pages_loop E sih ?next s (int (Suc k)) freed sbi = Some (s', int k', freed', sbi')" "pending E B sbi' s' k'"
        "nova_free sbi' \<union> {unat s'..<unat s' + k'} = nova_free sbi \<union> {unat s..<unat s + Suc k} \<union> set bs"
        "freed' + int k' = freed + int (Suc k) + int (length bs)" "nvmm sbi' = nvmm sbi" "same_zones sbi sbi'" by blast
    have "free_pages_loop E sih p s (int k) freed sbi = Some (s', int k', freed', sbi')"
      using IH(1) w(1,2) s0 eq by (subst free_pages_loop.simps) (simp add: Let_def add.commute)
    moreover have "nova_free sbi' \<union> {unat s'..<unat s' + k'} = nova_free sbi \<union> {unat s..<unat s + k} \<union> set (b # bs)"
      unfolding IH(3) r by auto
    moreover have "freed' + int k' = freed + int k + int (length (b # bs))" using IH(4) by simp
    ultimately show ?thesis using IH(2,5,6) by blast
  next
    case False
    then have ne: "?w \<noteq> s + of_int (int k)" using sk w(3) by metis
    from pending_freed [OF E t P] obtain sbi1 where
      f: "free_run E sih s (int k) sbi = Some sbi1" "st_ok E sbi1" "gap_ok sbi1 B" "nova_free sbi1 = nova_free sbi \<union> {unat s..<unat s + k}"
        "nvmm sbi1 = nvmm sbi" "same_zones sbi sbi1" by blast
    have b: "b \<notin> nova_free sbi1" using Cons.prems(4,5) f(4) by auto
    have p: "pending E B sbi1 ?w 1" using pending_one [OF f(2,3) _ _ b w(5,6,3)] zones_cong(2) [OF f(6)] zb(1) Cons.prems(7) by simp
    have r: "{unat ?w..<unat ?w + 1} = {b}" using w(3) by auto
    have "set bs \<inter> {unat ?w..<unat ?w + 1} = {}" "set bs \<inter> nova_free sbi1 = {}" "distinct bs" "in_zones sbi1 (set bs)" "log_chain (nvmm sbi1) ?next bs"
      using Cons.prems(3-5) f(4,5) zones_cong(2) [OF f(6)] zb(2) w(4) unfolding r by auto
    from Cons.IH [OF p this(5,3,1,2,4) sB, of "freed + int k"] obtain s' k' freed' sbi' where
      IH: "free_pages_loop E sih ?next ?w (int 1) (freed + int k) sbi1 = Some (s', int k', freed', sbi')" "pending E B sbi' s' k'"
        "nova_free sbi' \<union> {unat s'..<unat s' + k'} = nova_free sbi1 \<union> {unat ?w..<unat ?w + 1} \<union> set bs"
        "freed' + int k' = freed + int k + int 1 + int (length bs)" "nvmm sbi' = nvmm sbi1" "same_zones sbi1 sbi'" by blast
    have "free_pages_loop E sih p s (int k) freed sbi = Some (s', int k', freed', sbi')"
      using IH(1) w(1,2) s0 ne f(1) by (subst free_pages_loop.simps) (simp add: Let_def)
    moreover have "nova_free sbi' \<union> {unat s'..<unat s' + k'} = nova_free sbi \<union> {unat s..<unat s + k} \<union> set (b # bs)"
      unfolding IH(3) r f(4) by auto
    moreover have "freed' + int k' = freed + int k + int (length (b # bs))" using IH(4) by simp
    moreover have "nvmm sbi' = nvmm sbi" using IH(5) f(5) by simp
    ultimately show ?thesis using IH(2) same_zones_trans [OF f(6) IH(6)] by blast
  qed
qed

lemma free_contiguous_ok:
  assumes E: "env_ok E" and t: "i_blk_type sih = 0" and ok: "st_ok E sbi" "gap_ok sbi (set bs)"
    and c: "log_chain (nvmm sbi) p bs" "distinct bs" "set bs \<inter> nova_free sbi = {}" "in_zones sbi (set bs)"
  shows "\<exists>sbi'. nova_free_contiguous_log_blocks E sih p sbi = Some (int (length bs), sbi') \<and> st_ok E sbi' \<and>
    nova_free sbi' = nova_free sbi \<union> set bs \<and> nvmm sbi' = nvmm sbi \<and> same_zones sbi sbi'"
proof (cases bs)
  case Nil
  then have "free_pages_loop E sih p 0 0 0 sbi = Some (0, 0, 0, sbi)" using c by (subst free_pages_loop.simps) simp
  then show ?thesis using Nil ok by (simp add: nova_free_contiguous_log_blocks_def)
next
  case (Cons b cs)
  note w = page_walk [OF c(1) [unfolded Cons]]
  let ?next = "next_log_page (nvmm sbi) p" and ?w = "nova_get_blocknr p"
  have p: "pending E (set bs) sbi ?w 1" using pending_one [OF ok _ _ _ w(5,6,3)] c Cons by (simp add: in_zones_def)
  have r: "{unat ?w..<unat ?w + 1} = {b}" using w(3) by auto
  have "set cs \<inter> {unat ?w..<unat ?w + 1} = {}" "set cs \<inter> nova_free sbi = {}" "distinct cs" "in_zones sbi (set cs)" "set cs \<subseteq> set bs"
    using c(2-4) Cons unfolding r by (auto simp: in_zones_def)
  from free_pages_loop_ok [OF E t p w(4) this(3,1,2,4,5), of 0] obtain s' k' freed' sbi1 where
    l: "free_pages_loop E sih ?next ?w (int 1) 0 sbi = Some (s', int k', freed', sbi1)" "pending E (set bs) sbi1 s' k'"
      "nova_free sbi1 \<union> {unat s'..<unat s' + k'} = nova_free sbi \<union> {unat ?w..<unat ?w + 1} \<union> set cs"
      "freed' + int k' = 0 + int 1 + int (length cs)" "nvmm sbi1 = nvmm sbi" "same_zones sbi sbi1" by blast
  have run: "free_pages_loop E sih p 0 0 0 sbi = Some (s', int k', freed', sbi1)"
    using l(1) w(1,2) by (subst free_pages_loop.simps) (simp add: Let_def)
  from pending_freed [OF E t l(2)] obtain sbi' where
    f: "free_run E sih s' (int k') sbi1 = Some sbi'" "st_ok E sbi'" "nova_free sbi' = nova_free sbi1 \<union> {unat s'..<unat s' + k'}"
      "nvmm sbi' = nvmm sbi1" "same_zones sbi1 sbi'" by blast
  have "nova_free sbi' = nova_free sbi \<union> set bs" using f(3) l(3) unfolding r Cons by auto
  moreover have "nova_free_contiguous_log_blocks E sih p sbi = Some (int (length bs), sbi')"
    using run f(1) l(2,4) Cons by (simp add: nova_free_contiguous_log_blocks_def pending_def)
  ultimately show ?thesis using f l(5) same_zones_trans [OF l(6) f(5)] by simp
qed

text \<open>A run that reaches behind the part of the processor of its first block is refused, and the walk goes on.\<close>

lemma free_run_beyond:
  assumes E: "env_ok E" and t: "i_blk_type sih = 0" and ok: "st_ok E sbi" and i: "i < cpus sbi" "unat s \<in> zone sbi i"
    and n: "0 < n" "n < 2 ^ 31" "unat s + n - 1 \<notin> zone sbi i"
  shows "\<exists>sbi'. free_run E sih s (int n) sbi = Some sbi' \<and> st_ok E sbi' \<and> nova_free sbi' = nova_free sbi"
proof -
  from E ok obtain y where y: "node_at E sbi = Some y" "fresh y sbi" by (auto simp: env_ok_def)
  let ?fl = "fl_at sbi i" and ?h = "(nodes sbi)(y := zalloc_node)"
  note nd = nova_okD [OF ok]
  have sh: "shape_ok (rbk E) (nodes sbi) ?fl" using nd(4) [OF i(1)] by (simp add: list_ok_def)
  have b: "unat (block_start ?fl) \<le> unat s" "unat s \<le> unat (block_end ?fl)" "unat (block_end ?fl) < 2 ^ 31"
    using i(2) shape_okD(3) [OF sh] by (simp_all add: zone_def)
  have "unat (s + of_int (int n)) = unat s + n" "unat (block_end ?fl + 1) = unat (block_end ?fl) + 1"
    using b n(2) by (simp_all add: unat_add_less unat_of_nat_less)
  moreover have "unat (block_end ?fl) + 1 < unat s + n" using b n(1,3) by (auto simp: zone_def)
  ultimately have chk: "s + of_int (int n) > block_end ?fl + 1" by (simp only: word_less_nat_alt)
  have "s \<noteq> 0" using b(1) shape_okD(2) [OF sh] by auto
  moreover have "per_list_blocks sbi \<noteq> 0" using nd(3) by auto
  ultimately have "free_run E sih s (int n) sbi = Some (sbi\<lparr>nodes := ?h\<rparr>)"
    using n(1) y(1) t chk list_of_block_zone [OF ok i] i(1) nd(2)
    by (simp add: free_run_def nova_free_log_blocks_def nova_free_blocks_def Let_def del: fun_upd_apply)
  then show ?thesis using zalloc_ok [OF ok y(2)] by simp
qed

lemma free_two_beyond:
  assumes E: "env_ok E" and t: "i_blk_type sih = 0" and ok: "st_ok E sbi" and c: "log_chain (nvmm sbi) p [b, Suc b]"
    and i: "i < cpus sbi" "b \<in> zone sbi i" "Suc b \<notin> zone sbi i"
  shows "\<exists>sbi'. nova_free_contiguous_log_blocks E sih p sbi = Some (2, sbi') \<and> st_ok E sbi' \<and> nova_free sbi' = nova_free sbi"
proof -
  note w = page_walk [OF c]
  let ?q = "next_log_page (nvmm sbi) p" and ?w = "nova_get_blocknr p"
  note v = page_walk [OF w(4)]
  have r: "next_log_page (nvmm sbi) ?q = 0" using v(4) by simp
  have n: "?w \<noteq> 0" using w(3,5) by (metis less_irrefl unat_0)
  have "unat (?w + 1) = Suc b" using w(3,6) by (subst unat_add_less) simp_all
  then have eq: "nova_get_blocknr ?q = ?w + 1" using v(3) by (simp only: word_unat_eq_iff)
  have "free_pages_loop E sih 0 ?w 2 0 sbi = Some (?w, 2, 0, sbi)" by (subst free_pages_loop.simps) simp
  then have "free_pages_loop E sih ?q ?w 1 0 sbi = Some (?w, 2, 0, sbi)"
    using v(1,2) n eq r by (subst free_pages_loop.simps) (simp add: Let_def)
  then have l: "free_pages_loop E sih p 0 0 0 sbi = Some (?w, 2, 0, sbi)"
    using w(1,2) by (subst free_pages_loop.simps) (simp add: Let_def)
  from free_run_beyond [OF E t ok i(1), of ?w 2] i(2,3) w(3) obtain sbi' where
    "free_run E sih ?w 2 sbi = Some sbi'" "st_ok E sbi'" "nova_free sbi' = nova_free sbi" by auto
  then show ?thesis using l n by (simp add: nova_free_contiguous_log_blocks_def)
qed

end
