(* ===== verification/Nova_Gc_Pages.thy ===== *)
theory Nova_Gc_Pages
  imports Nova_Gc Nova_Log_Free
begin

text \<open>
  The fast collector unlinks and frees exactly the pages without valid entries in front of the page of the tail.
\<close>

section \<open>Paths\<close>

fun log_path :: "mem \<Rightarrow> u64 \<Rightarrow> nat list \<Rightarrow> u64 \<Rightarrow> bool" where
  "log_path m p [] q \<longleftrightarrow> p = q"
| "log_path m p (b # bs) q \<longleftrightarrow> 0 < b \<and> b < 2 ^ 31 \<and> p = page_off b \<and> log_path m (next_of m b) bs q"

lemma path_append: "log_path m p (as @ bs) q \<longleftrightarrow> (\<exists>r. log_path m p as r \<and> log_path m r bs q)"
  by (induction as arbitrary: p) auto

lemma path_chain: "log_chain m p (as @ bs) \<longleftrightarrow> (\<exists>r. log_path m p as r \<and> log_chain m r bs)"
  by (induction as arbitrary: p) auto

lemma path_cong: "(\<And>b. b \<in> set bs \<Longrightarrow> next_of m' b = next_of m b) \<Longrightarrow> log_path m' p bs q = log_path m p bs q"
  by (induction bs arbitrary: p) auto

lemma log_chain_cong: "(\<And>b. b \<in> set bs \<Longrightarrow> next_of m' b = next_of m b) \<Longrightarrow> log_chain m' p bs = log_chain m p bs"
  by (induction bs arbitrary: p) auto

lemma path_redirect:
  assumes "log_path m p (as @ [a]) q" "a \<notin> set as" "\<And>b. b \<noteq> a \<Longrightarrow> next_of m' b = next_of m b" "next_of m' a = r"
  shows "log_path m' p (as @ [a]) r"
proof -
  have "log_path m' p as s = log_path m p as s" for s using assms(2,3) by (intro path_cong) metis
  then show ?thesis using assms(1,4) by (auto simp: path_append)
qed

text \<open>Only pointers to next pages change.\<close>

definition only_links :: "nat set \<Rightarrow> mem \<Rightarrow> mem \<Rightarrow> bool" where
  "only_links S m m' \<longleftrightarrow> (\<forall>x. (\<forall>b \<in> S. x < b * 4096 + 4088 \<or> b * 4096 + 4096 \<le> x) \<longrightarrow> m' x = m x)"

lemma only_links_refl [simp]: "only_links S m m" by (simp add: only_links_def)

lemma only_links_trans: "only_links S m m' \<Longrightarrow> only_links T m' m'' \<Longrightarrow> S \<subseteq> U \<Longrightarrow> T \<subseteq> U \<Longrightarrow> only_links U m m''"
  unfolding only_links_def by (metis subset_iff)

lemma only_links_set: "only_links {b} m (nova_set_next_page_address (b * 4096) q m)"
  unfolding only_links_def nova_set_next_page_address_def tail_at by (auto simp: nput_def)

lemma only_links_counts:
  assumes "only_links S m m'"
  shows "num_of m' b = num_of m b" "invalid_of m' b = invalid_of m b"
proof -
  have "x < c * 4096 + 4088 \<or> c * 4096 + 4096 \<le> x" if "b * 4096 + 4064 \<le> x" "x < b * 4096 + 4072" for x c
  proof (cases "c < b")
    case True
    then have "Suc c * 4096 \<le> b * 4096" by (intro mult_le_mono) simp_all
    then show ?thesis using that by simp
  next
    case False
    then have "b * 4096 \<le> c * 4096" by simp
    then show ?thesis using that by simp
  qed
  then have "nget m' (b * 4096 + r) 4 = nget m (b * 4096 + r) 4" if "r = 4064 \<or> r = 4068" for r
    using assms that by (intro nget_cong) (auto simp: only_links_def)
  then show "num_of m' b = num_of m b" "invalid_of m' b = invalid_of m b"
    by (simp_all add: num_of_def invalid_of_def get32_def tail_at)
qed

lemma only_links_next:
  assumes "only_links S m m'" "b \<notin> S"
  shows "next_of m' b = next_of m b"
proof -
  have "x < c * 4096 + 4088 \<or> c * 4096 + 4096 \<le> x" if "b * 4096 + 4088 \<le> x" "x < b * 4096 + 4088 + 8" "c \<in> S" for x c
  proof -
    have "c \<noteq> b" using that(3) assms(2) by blast
    then consider "Suc c * 4096 \<le> b * 4096" | "Suc b * 4096 \<le> c * 4096" by (cases "c < b") (auto intro: mult_le_mono)
    then show ?thesis using that by cases simp_all
  qed
  then have "nget m' (b * 4096 + 4088) 8 = nget m (b * 4096 + 4088) 8"
    using assms(1) by (intro nget_cong) (auto simp: only_links_def)
  then show ?thesis by (simp add: next_of_def get64_def tail_at)
qed

section \<open>The scan\<close>

definition valid_page :: "mem \<Rightarrow> nat \<Rightarrow> bool" where "valid_page m b \<longleftrightarrow> invalid_of m b \<noteq> num_of m b"

abbreviation kept :: "mem \<Rightarrow> nat list \<Rightarrow> nat list" where "kept m \<equiv> filter (valid_page m)"
abbreviation dropped :: "mem \<Rightarrow> nat list \<Rightarrow> nat list" where "dropped m \<equiv> filter (\<lambda>b. \<not> valid_page m b)"

text \<open>The log before a collection.\<close>

definition gc_start :: "nova_env \<Rightarrow> nova_inode_info_header \<Rightarrow> nova_sb_info \<Rightarrow> nat list \<Rightarrow> bool" where
  "gc_start E sih sbi bs \<longleftrightarrow> env_ok E \<and> i_blk_type sih = 0 \<and> st_ok E sbi \<and> bs \<noteq> [] \<and>
     log_chain (nvmm sbi) (log_head sih) bs \<and> distinct bs \<and> set bs \<inter> nova_free sbi = {} \<and> in_zones sbi (set bs)"

text \<open>The state when the pages \<open>ps\<close> have been visited and \<open>rs\<close> have not.\<close>

definition scanned ::
    "nova_env \<Rightarrow> nova_inode_info_header \<Rightarrow> nova_sb_info \<Rightarrow> nat list \<Rightarrow> nat list \<Rightarrow> gc_scan \<Rightarrow> nova_inode_info_header \<Rightarrow> nova_sb_info \<Rightarrow> bool" where
  "scanned E sih0 s0 ps rs g sih sbi \<longleftrightarrow> st_ok E sbi \<and> same_zones s0 sbi \<and> log_chain (nvmm sbi) (sc_curr g) rs \<and>
     only_links (set ps) (nvmm s0) (nvmm sbi) \<and> sc_found g = (kept (nvmm s0) ps \<noteq> []) \<and>
     (kept (nvmm s0) ps \<noteq> [] \<longrightarrow> log_path (nvmm sbi) (sc_head g) (kept (nvmm s0) ps) (sc_curr g)) \<and>
     (ps \<noteq> [] \<longrightarrow> sc_last g = page_off (if kept (nvmm s0) ps = [] then hd ps else last (kept (nvmm s0) ps))) \<and>
     sc_freed g = length (dropped (nvmm s0) ps) \<and> sc_first_free g = (ps \<noteq> [] \<and> \<not> valid_page (nvmm s0) (hd ps)) \<and>
     nova_free sbi = nova_free s0 \<union> (set (dropped (nvmm s0) ps) - {hd (ps @ rs)}) \<and>
     sc_checked g = of_nat (length ps) \<and> (\<exists>a c. sih = sih0\<lparr>num_entries := a, valid_entries := c\<rparr>)"

lemma page_fields:
  assumes "b < 2 ^ 31"
  shows "num_entries_at (unat (page_off b)) = num_entries_at (b * 4096)" "invalid_entries_at (unat (page_off b)) = invalid_entries_at (b * 4096)"
    "next_page_at (unat (page_off b)) = next_page_at (b * 4096)" "unat (nova_get_blocknr (page_off b)) = b"
    "next_log_page m (page_off b) = next_of m b"
  using page_off_val [OF assms] by (simp_all add: next_log_page_of)

lemma page_off_inj: "b < 2 ^ 31 \<Longrightarrow> c < 2 ^ 31 \<Longrightarrow> page_off b = page_off c \<longleftrightarrow> b = c"
  using page_off_val [of b] page_off_val [of c] by (auto simp: word_unat_eq_iff)

lemma curr_page_invalid_ok:
  assumes "b < 2 ^ 31" "only_links S (nvmm s0) m"
  shows "\<exists>a c. curr_page_invalid (page_off b) m sih = (\<not> valid_page (nvmm s0) b, sih\<lparr>num_entries := a, valid_entries := c\<rparr>)"
proof -
  have n: "get32 m (num_entries_at (unat (page_off b))) = num_of (nvmm s0) b" "get32 m (invalid_entries_at (unat (page_off b))) = invalid_of (nvmm s0) b"
    using only_links_counts [OF assms(2), of b] page_fields [OF assms(1)] by (simp_all add: num_of_def invalid_of_def)
  show ?thesis
  proof (cases "valid_page (nvmm s0) b")
    case True
    then show ?thesis unfolding curr_page_invalid_def n Let_def valid_page_def by auto
  next
    case False
    then have "curr_page_invalid (page_off b) m sih = (True, sih\<lparr>num_entries := num_entries sih, valid_entries := valid_entries sih\<rparr>)"
      unfolding curr_page_invalid_def n Let_def valid_page_def by simp
    then show ?thesis using False by (intro exI [of _ "num_entries sih"] exI [of _ "valid_entries sih"]) simp
  qed
qed

lemma chain_bounds: "log_chain m p bs \<Longrightarrow> b \<in> set bs \<Longrightarrow> 0 < b \<and> b < 2 ^ 31"
  by (induction bs arbitrary: p) auto

lemma distinct_last: "xs \<noteq> [] \<Longrightarrow> distinct xs \<Longrightarrow> last xs \<notin> set (butlast xs)"
  by (induction xs rule: rev_induct) auto

text \<open>One page of the log becomes free.\<close>

lemma free_one:
  assumes E: "env_ok E" and t: "i_blk_type sih = 0" and ok: "st_ok E sbi" "in_zones sbi {b}" "b \<notin> nova_free sbi" and b: "0 < b" "b < 2 ^ 31"
  shows "\<exists>sbi'. free_run E sih (nova_get_blocknr (page_off b)) 1 sbi = Some sbi' \<and> st_ok E sbi' \<and> nova_free sbi' = insert b (nova_free sbi) \<and>
    nvmm sbi' = nvmm sbi \<and> same_zones sbi sbi'"
proof -
  have w: "unat (nova_get_blocknr (page_off b)) = b" by (rule page_fields(4) [OF b(2)])
  have r: "{b..<b + 1} = {b}" by auto
  have "nova_get_blocknr (page_off b) \<noteq> 0" using w b(1) by (metis less_irrefl unat_0)
  with free_run_ok [OF E t ok(1), of "nova_get_blocknr (page_off b)" 1, unfolded w r] ok(2,3) show ?thesis by auto
qed

text \<open>Unlinking a page that is not the first one.\<close>

lemma free_curr_page_ok:
  assumes st: "gc_start E sih0 s0 (ps @ b # rs)" and sc: "scanned E sih0 s0 ps (b # rs) g sih sbi" and ps: "ps \<noteq> []"
  defines "l \<equiv> if kept (nvmm s0) ps = [] then hd ps else last (kept (nvmm s0) ps)"
  shows "\<exists>sbi1. free_curr_page E sih (sc_last g) (page_off b) sbi = Some sbi1 \<and> st_ok E sbi1 \<and> same_zones s0 sbi1 \<and>
    nova_free sbi1 = nova_free sbi \<union> {b} \<and> nvmm sbi1 = nova_set_next_page_address (l * 4096) (next_of (nvmm sbi) b) (nvmm sbi) \<and> l \<in> set ps"
proof -
  have l: "l \<in> set ps"
  proof (cases "kept (nvmm s0) ps = []")
    case True
    then show ?thesis using ps by (simp add: l_def)
  next
    case False
    from last_in_set [OF this] show ?thesis using False by (simp add: l_def)
  qed
  have b31: "0 < c \<and> c < 2 ^ 31" if "c \<in> set (ps @ b # rs)" for c using chain_bounds that st unfolding gc_start_def by blast
  have lp: "unat (sc_last g) = l * 4096" using sc ps page_off_val b31 l by (simp add: scanned_def l_def)
  have sih: "i_blk_type sih = 0" and E: "env_ok E" using st sc by (auto simp: gc_start_def scanned_def)
  have b: "0 < b" "b < 2 ^ 31" using b31 by simp_all
  let ?s = "mem_upd (nova_set_next_page_address (unat (sc_last g)) (get64 (nvmm sbi) (next_page_at (unat (page_off b))))) sbi"
  have ok: "st_ok E ?s" and z: "same_zones s0 ?s" using sc by (simp_all add: scanned_def)
  have "in_zones s0 {b}" using st by (simp_all add: gc_start_def in_zones_def)
  then have zs: "in_zones ?s {b}" using zones_cong(2) [OF z] by simp
  have nf: "b \<notin> nova_free ?s"
  proof -
    have "b \<notin> set ps" "b \<notin> nova_free s0" using st by (auto simp: gc_start_def)
    then show ?thesis using sc by (auto simp: scanned_def)
  qed
  from free_one [OF E sih ok zs nf b] obtain sbi1 where
    f: "free_run E sih (nova_get_blocknr (page_off b)) 1 ?s = Some sbi1" "st_ok E sbi1" "nova_free sbi1 = insert b (nova_free ?s)"
      "nvmm sbi1 = nvmm ?s" "same_zones ?s sbi1" by blast
  have "free_curr_page E sih (sc_last g) (page_off b) sbi = Some sbi1" using f(1) by (simp add: free_curr_page_def)
  moreover have "nvmm sbi1 = nova_set_next_page_address (l * 4096) (next_of (nvmm sbi) b) (nvmm sbi)"
    using f(4) lp page_fields(3) [OF b(2)] by (simp add: next_of_def)
  ultimately show ?thesis using f(2,3,5) same_zones_trans [OF z] l by auto
qed

lemma gc_page_ok:
  assumes st: "gc_start E sih0 s0 (ps @ b # rs)" and sc: "scanned E sih0 s0 ps (b # rs) g sih sbi"
  shows "\<exists>g' sih' sbi'. gc_page E g sih sbi = Some (g', sih', sbi') \<and> scanned E sih0 s0 (ps @ [b]) rs g' sih' sbi'"
proof -
  let ?mz = "nvmm s0" and ?m = "nvmm sbi"
  have b31: "0 < c \<and> c < 2 ^ 31" if "c \<in> set (ps @ b # rs)" for c using chain_bounds that st unfolding gc_start_def by blast
  have b: "0 < b" "b < 2 ^ 31" using b31 by simp_all
  have cur: "sc_curr g = page_off b" and ch: "log_chain ?m (next_of ?m b) rs" using sc by (simp_all add: scanned_def)
  have ol: "only_links (set ps) ?mz ?m" using sc by (simp add: scanned_def)
  from curr_page_invalid_ok [OF b(2) ol, of sih] obtain a c where
    inv: "curr_page_invalid (sc_curr g) ?m sih = (\<not> valid_page ?mz b, sih\<lparr>num_entries := a, valid_entries := c\<rparr>)" using cur by auto
  let ?sih = "sih\<lparr>num_entries := a, valid_entries := c\<rparr>"
  obtain a' c' where sih: "sih = sih0\<lparr>num_entries := a', valid_entries := c'\<rparr>" using sc by (auto simp: scanned_def)
  have sihx: "\<exists>x y. ?sih = sih0\<lparr>num_entries := x, valid_entries := y\<rparr>" unfolding sih by (intro exI [of _ a] exI [of _ c]) simp
  have nx: "next_log_page ?m (sc_curr g) = next_of ?m b" using page_fields(5) [OF b(2)] cur by simp
  have dist: "distinct (ps @ b # rs)" and bf: "b \<notin> nova_free s0" using st by (auto simp: gc_start_def)
  have hd0: "log_head sih0 = page_off (hd (ps @ b # rs))" using st by (cases ps) (auto simp: gc_start_def)
  have chk: "of_nat (length ps) + 1 = (of_nat (length (ps @ [b])) :: u64)" by simp
  show ?thesis
  proof (cases "valid_page ?mz b")
    case True
    let ?g = "(if sc_found g then g\<lparr>sc_last := sc_curr g\<rparr> else g\<lparr>sc_head := sc_curr g, sc_alter_head := sc_alter g, sc_found := True, sc_last := sc_curr g\<rparr>)
        \<lparr>sc_curr := next_of ?m b, sc_alter := 0, sc_checked := sc_checked g + 1\<rparr>"
    have run: "gc_page E g sih sbi = Some (?g, ?sih, sbi)" using inv True nx by (simp add: gc_page_def Let_def)
    have k: "kept ?mz (ps @ [b]) = kept ?mz ps @ [b]" "dropped ?mz (ps @ [b]) = dropped ?mz ps" using True by simp_all
    have path: "log_path ?m (sc_head ?g) (kept ?mz ps @ [b]) (next_of ?m b)"
      using sc cur b by (auto simp: scanned_def path_append)
    have "only_links (set (ps @ [b])) ?mz ?m" by (rule only_links_trans [OF ol only_links_refl [of "{}"]]) auto
    then have "scanned E sih0 s0 (ps @ [b]) rs ?g ?sih sbi"
      unfolding scanned_def k using sc ch path sihx cur chk True by (auto simp: scanned_def hd_append)
    with run show ?thesis by blast
  next
    case False
    have k: "kept ?mz (ps @ [b]) = kept ?mz ps" "dropped ?mz (ps @ [b]) = dropped ?mz ps @ [b]" using False by simp_all
    show ?thesis
    proof (cases "ps = []")
      case True
      let ?g = "g\<lparr>sc_first_free := True, sc_last := sc_curr g, sc_freed := sc_freed g + 1, sc_curr := next_of ?m b, sc_alter := 0, sc_checked := sc_checked g + 1\<rparr>"
      have "sc_curr g = log_head ?sih" using cur hd0 sih True by simp
      then have run: "gc_page E g sih sbi = Some (?g, ?sih, sbi)" using inv False nx by (simp add: gc_page_def Let_def)
      have "only_links (set (ps @ [b])) ?mz ?m" by (rule only_links_trans [OF ol only_links_refl [of "{}"]]) auto
      then have "scanned E sih0 s0 (ps @ [b]) rs ?g ?sih sbi"
        unfolding scanned_def k using sc ch sihx cur chk True False by (auto simp: scanned_def)
      with run show ?thesis by blast
    next
      case ps: False
      let ?l = "if kept ?mz ps = [] then hd ps else last (kept ?mz ps)"
      have sc': "scanned E sih0 s0 ps (b # rs) g ?sih sbi" using sc sihx unfolding scanned_def by blast
      from free_curr_page_ok [OF st sc' ps] obtain sbi1 where
        f: "free_curr_page E ?sih (sc_last g) (page_off b) sbi = Some sbi1" "st_ok E sbi1" "same_zones s0 sbi1" "nova_free sbi1 = nova_free sbi \<union> {b}"
          "nvmm sbi1 = nova_set_next_page_address (?l * 4096) (next_of ?m b) ?m" "?l \<in> set ps" by auto
      let ?g = "g\<lparr>sc_freed := sc_freed g + 1, sc_curr := next_of ?m b, sc_alter := 0, sc_checked := sc_checked g + 1\<rparr>"
      have "hd ps \<noteq> b" using dist ps by (cases ps) auto
      then have hb: "sc_curr g \<noteq> log_head ?sih" using cur hd0 sih ps page_off_inj [of b "hd ps"] b31 by (simp add: hd_append)
      then have run: "gc_page E g sih sbi = Some (?g, ?sih, sbi1)" using inv False nx f(1) cur by (simp add: gc_page_def Let_def)
      have o1: "only_links {?l} ?m (nvmm sbi1)" unfolding f(5) by (rule only_links_set)
      have o: "only_links (set (ps @ [b])) ?mz (nvmm sbi1)" by (rule only_links_trans [OF ol o1]) (use f(6) in auto)
      have nl: "next_of (nvmm sbi1) x = next_of ?m x" if "x \<noteq> ?l" for x using only_links_next [OF o1] that by simp
      have ll: "next_of (nvmm sbi1) ?l = next_of ?m b" unfolding f(5) by (rule set_fields(1))
      have rs: "?l \<notin> set rs" using f(6) dist by auto
      have chain: "log_chain (nvmm sbi1) (next_of ?m b) rs" using ch log_chain_cong [of rs "nvmm sbi1" ?m] nl rs by metis
      have path: "log_path (nvmm sbi1) (sc_head g) (kept ?mz ps) (next_of ?m b)" if K: "kept ?mz ps \<noteq> []"
      proof -
        let ?K = "kept ?mz ps"
        have K': "?K = butlast ?K @ [?l]" using K by simp
        have n: "?l \<notin> set (butlast ?K)" using distinct_last [OF K] dist K by simp
        have "log_path ?m (sc_head g) ?K (sc_curr g)" using sc K unfolding scanned_def by blast
        then have "log_path ?m (sc_head g) (butlast ?K @ [?l]) (sc_curr g)" using K by simp
        from path_redirect [OF this n nl ll] show ?thesis using K by simp
      qed
      have fr: "nova_free sbi1 = nova_free s0 \<union> (set (dropped ?mz ps @ [b]) - {hd ((ps @ [b]) @ rs)})"
        using sc f(4) \<open>hd ps \<noteq> b\<close> ps by (auto simp: scanned_def)
      have "scanned E sih0 s0 (ps @ [b]) rs ?g ?sih sbi1"
        unfolding scanned_def k using sc f(2,3) chain o path fr sihx chk ps by (simp add: scanned_def)
      with run show ?thesis by blast
    qed
  qed
qed

lemma page_number:
  assumes "b < 2 ^ 31"
  shows "drop_bit 12 (page_off b) = drop_bit 12 q \<longleftrightarrow> b = unat q div 4096"
proof -
  have "unat (drop_bit 12 (page_off b)) = b" "unat (drop_bit 12 q) = unat q div 4096"
    using blocknr_val [of "page_off b"] blocknr_val [of q] page_off_val [OF assms] by (simp_all add: nova_get_blocknr_def)
  then show ?thesis by (metis word_unat_eq_iff)
qed

lemma gc_scan_loop_ok:
  assumes st: "gc_start E sih0 s0 (ps @ us @ t # vs)" and sc: "scanned E sih0 s0 ps (us @ t # vs) g sih sbi"
    and t: "unat (log_tail sih0) div 4096 = t"
  shows "\<exists>g' sih' sbi'. gc_scan_loop E g sih sbi = Some (if sc_found g' then g' else g'\<lparr>sc_head := sc_curr g', sc_alter_head := sc_alter g'\<rparr>, sih', sbi') \<and>
    scanned E sih0 s0 (ps @ us) (t # vs) g' sih' sbi'"
  using st sc
proof (induction us arbitrary: ps g sih sbi)
  case Nil
  have b: "t < 2 ^ 31" using Nil.prems(1) chain_bounds [of "nvmm s0" "log_head sih0" "ps @ t # vs" t] by (simp add: gc_start_def)
  have "sc_curr g = page_off t" "log_tail sih = log_tail sih0" using Nil.prems(2) by (auto simp: scanned_def)
  then have "gc_scan_loop E g sih sbi = Some (if sc_found g then g else g\<lparr>sc_head := sc_curr g, sc_alter_head := sc_alter g\<rparr>, sih, sbi)"
    using page_number [OF b] t by (subst gc_scan_loop.simps) simp
  then show ?case using Nil.prems(2) by auto
next
  case (Cons b us)
  have all: "0 < c \<and> c < 2 ^ 31" if "c \<in> set (ps @ (b # us) @ t # vs)" for c
    using chain_bounds that Cons.prems(1) unfolding gc_start_def by blast
  then have b: "0 < b" "b < 2 ^ 31" by simp_all
  have st': "gc_start E sih0 s0 (ps @ b # (us @ t # vs))" and sc': "scanned E sih0 s0 ps (b # (us @ t # vs)) g sih sbi" using Cons.prems by simp_all
  from gc_page_ok [OF st' sc'] obtain g1 sih1 sbi1 where
    p: "gc_page E g sih sbi = Some (g1, sih1, sbi1)" "scanned E sih0 s0 (ps @ [b]) (us @ t # vs) g1 sih1 sbi1" by blast
  have cur: "sc_curr g = page_off b" "log_tail sih = log_tail sih0" using sc' by (auto simp: scanned_def)
  have "b \<noteq> t" using Cons.prems(1) by (auto simp: gc_start_def)
  then have ne: "drop_bit 12 (sc_curr g) \<noteq> drop_bit 12 (log_tail sih)" using page_number [OF b(2)] cur t by simp
  have c0: "sc_curr g \<noteq> 0" using cur page_off_val [OF b(2)] b(1) by (metis mult_is_0 not_gr_zero unat_0 zero_neq_numeral)
  obtain c cs where cs: "us @ t # vs = c # cs" by (cases us) auto
  have "0 < c" "c < 2 ^ 31" using all cs by (cases us; auto)+
  then have c1: "sc_curr g1 \<noteq> 0"
    using p(2) cs page_off_val [of c] unfolding scanned_def by (metis log_chain.simps(2) mult_is_0 not_gr_zero unat_0 zero_neq_numeral)
  have st1: "gc_start E sih0 s0 ((ps @ [b]) @ us @ t # vs)" using Cons.prems(1) by simp
  from Cons.IH [OF st1 p(2)] obtain g' sih' sbi' where
    IH: "gc_scan_loop E g1 sih1 sbi1 = Some (if sc_found g' then g' else g'\<lparr>sc_head := sc_curr g', sc_alter_head := sc_alter g'\<rparr>, sih', sbi')"
      "scanned E sih0 s0 ((ps @ [b]) @ us) (t # vs) g' sih' sbi'" by blast
  have "gc_scan_loop E g sih sbi = gc_scan_loop E g1 sih1 sbi1"
    using ne c0 p(1) c1 by (subst gc_scan_loop.simps) simp
  then show ?case using IH by auto
qed

lemma scan_ok:
  assumes st: "gc_start E sih s0 (us @ t # vs)" and t: "unat (log_tail sih) div 4096 = t"
  defines "gi \<equiv> \<lparr>sc_curr = log_head sih, sc_alter = alter_log_head sih, sc_head = 0, sc_alter_head = 0, sc_found = False, sc_last = 0,
      sc_first_free = False, sc_checked = 0, sc_freed = 0\<rparr>"
  shows "\<exists>g sih' sbi. gc_scan_loop E gi (sih\<lparr>valid_entries := 0, num_entries := 0\<rparr>) s0 = Some (g, sih', sbi) \<and>
    st_ok E sbi \<and> same_zones s0 sbi \<and> only_links (set us) (nvmm s0) (nvmm sbi) \<and> log_chain (nvmm sbi) (page_off t) (t # vs) \<and>
    log_path (nvmm sbi) (sc_head g) (kept (nvmm s0) us) (page_off t) \<and> sc_freed g = length (dropped (nvmm s0) us) \<and>
    sc_first_free g = (us \<noteq> [] \<and> \<not> valid_page (nvmm s0) (hd us)) \<and>
    nova_free sbi = nova_free s0 \<union> (set (dropped (nvmm s0) us) - {hd (us @ t # vs)}) \<and>
    (\<exists>a c. sih' = sih\<lparr>num_entries := a, valid_entries := c\<rparr>)"
proof -
  have sc: "scanned E sih s0 [] (us @ t # vs) gi (sih\<lparr>valid_entries := 0, num_entries := 0\<rparr>) s0"
    unfolding scanned_def gi_def using st by (auto simp: gc_start_def intro!: exI [of _ 0])
  have st': "gc_start E sih s0 ([] @ us @ t # vs)" using st by simp
  from gc_scan_loop_ok [OF st' sc t] obtain g sih' sbi where
    l: "gc_scan_loop E gi (sih\<lparr>valid_entries := 0, num_entries := 0\<rparr>) s0 =
        Some (if sc_found g then g else g\<lparr>sc_head := sc_curr g, sc_alter_head := sc_alter g\<rparr>, sih', sbi)"
      "scanned E sih s0 us (t # vs) g sih' sbi" unfolding append_Nil by blast
  let ?g = "if sc_found g then g else g\<lparr>sc_head := sc_curr g, sc_alter_head := sc_alter g\<rparr>"
  have c: "sc_curr g = page_off t" using l(2) by (simp add: scanned_def)
  have "log_path (nvmm sbi) (sc_head ?g) (kept (nvmm s0) us) (page_off t)"
    using l(2) c by (cases "kept (nvmm s0) us = []") (simp_all add: scanned_def)
  then show ?thesis using l c by (intro exI [of _ ?g] exI [of _ sih'] exI [of _ sbi]) (simp add: scanned_def)
qed

section \<open>The sweep\<close>

text \<open>Stores to the inode, which is in no page of the log.\<close>

definition apart :: "nat \<Rightarrow> nat set \<Rightarrow> bool" where
  "apart pi B \<longleftrightarrow> (\<forall>x. pi \<le> x \<and> x < pi + 120 \<longrightarrow> x div 4096 \<notin> B)"

lemma apart_put:
  assumes "apart pi B" "r + length bs \<le> 120"
  shows "only_pages (- B) m (nput (pi + r) bs m)"
  using assms by (auto simp: only_pages_def apart_def nput_def)

definition head_written :: "nat \<Rightarrow> u64 \<Rightarrow> u64 \<Rightarrow> mem \<Rightarrow> mem" where
  "head_written pi h a m = nput (pi + 80) (le64 a) (nput (pi + 64) (le64 h) m)"

lemma head_written_ok:
  "apart pi B \<Longrightarrow> only_pages (- B) m (head_written pi h a m)" "get64 (head_written pi h a m) (pi + 64) = h"
proof -
  show "get64 (head_written pi h a m) (pi + 64) = h" unfolding head_written_def by (simp add: get64_of_bytes)
  assume a: "apart pi B"
  show "only_pages (- B) m (head_written pi h a m)"
    unfolding head_written_def by (rule only_pages_trans [OF apart_put [OF a] apart_put [OF a]]) simp_all
qed

lemma links_bytes: "only_links S m m' \<Longrightarrow> r < 4088 \<Longrightarrow> m' (b * 4096 + r) = m (b * 4096 + r)"
proof -
  assume o: "only_links S m m'" and r: "r < 4088"
  have "b * 4096 + r < c * 4096 + 4088 \<or> c * 4096 + 4096 \<le> b * 4096 + r" for c
  proof (cases "c < b")
    case True
    then have "Suc c * 4096 \<le> b * 4096" by (intro mult_le_mono) simp_all
    then show ?thesis by simp
  next
    case False
    then have "b * 4096 \<le> c * 4096" by simp
    then show ?thesis using r by simp
  qed
  then show ?thesis using o by (simp add: only_links_def)
qed

text \<open>The new pages behind the last page of the log.\<close>

lemma link_new_pages:
  assumes c: "log_chain m (page_off t) (t # vs)" "distinct (t # vs)" "log_chain m q cs" "last (t # vs) \<notin> set cs"
  defines "m' \<equiv> if cs = [] then m else nova_set_next_page_address (last (t # vs) * 4096) q m"
  shows "log_chain m' (page_off t) (t # vs @ cs)" "only_links {last (t # vs)} m m'"
proof -
  let ?l = "last (t # vs)"
  show o: "only_links {?l} m m'" using only_links_set by (simp add: m'_def)
  have bs: "t # vs = butlast (t # vs) @ [?l]" by simp
  show "log_chain m' (page_off t) (t # vs @ cs)"
  proof (cases "cs = []")
    case True
    then show ?thesis using c(1) by (simp add: m'_def)
  next
    case False
    have nl: "next_of m' b = next_of m b" if "b \<noteq> ?l" for b using only_links_next [OF o] that by simp
    have "log_chain m' (page_off t) (butlast (t # vs) @ ?l # cs)"
    proof (rule chain_extend)
      show "log_chain m (page_off t) (butlast (t # vs) @ [?l])" using c(1) bs by metis
      show "next_of m' b = next_of m b" if "b \<in> set (butlast (t # vs))" for b
      proof (rule nl)
        have "?l \<notin> set (butlast (t # vs))" by (rule distinct_last [OF _ c(2)]) simp
        then show "b \<noteq> ?l" using that by blast
      qed
      show "next_of m' ?l = q" using False by (simp add: m'_def set_fields)
      show "log_chain m' q cs" using c(3,4) log_chain_cong [of cs m' m q] nl by metis
    qed
    moreover have "butlast (t # vs) @ ?l # cs = (t # vs) @ cs" using bs by (metis append.assoc append_Cons append_Nil)
    ultimately show ?thesis by (simp only: append_Cons)
  qed
qed

definition swept ::
    "nova_env \<Rightarrow> nat \<Rightarrow> nova_inode_info_header \<Rightarrow> nova_sb_info \<Rightarrow> nat list \<Rightarrow> nat list \<Rightarrow> nat list \<Rightarrow> nova_inode_info_header \<Rightarrow> nova_sb_info \<Rightarrow> bool" where
  "swept E pi sih sbi us ts cs sih' sbi' \<longleftrightarrow> st_ok E sbi' \<and> same_zones sbi sbi' \<and>
     log_chain (nvmm sbi') (log_head sih') (kept (nvmm sbi) us @ ts @ cs) \<and> get64 (nvmm sbi') (pi + 64) = log_head sih' \<and>
     log_tail sih' = log_tail sih \<and> log_pages sih' = log_pages sih + of_nat (length cs) - of_nat (length (dropped (nvmm sbi) us)) \<and>
     nova_free sbi' = nova_free sbi \<union> set (dropped (nvmm sbi) us) \<and>
     (\<forall>b \<in> set (us @ ts @ cs). \<forall>r < 4088. nvmm sbi' (b * 4096 + r) = nvmm sbi (b * 4096 + r))"

lemma gc_sweep_ok:
  assumes st: "gc_start E sih s0 (us @ t # vs)" and t: "unat (log_tail sih) div 4096 = t"
    and cs: "log_chain (nvmm s0) new_block cs" "set cs \<inter> set (us @ t # vs) = {}"
    and ct: "unat curr_tail div 4096 = last (t # vs)" and pi: "apart pi (set (us @ t # vs @ cs))"
  shows "\<exists>g sih' sbi'. gc_sweep E pi curr_tail new_block (int (length cs)) sih s0 = Some (g, sih', sbi') \<and> swept E pi sih s0 us (t # vs) cs sih' sbi'"
proof -
  let ?B = "set (us @ t # vs @ cs)" and ?l = "last (t # vs)"
  from scan_ok [OF st t] obtain g sih1 s1 where
    sc: "gc_scan_loop E \<lparr>sc_curr = log_head sih, sc_alter = alter_log_head sih, sc_head = 0, sc_alter_head = 0, sc_found = False, sc_last = 0,
        sc_first_free = False, sc_checked = 0, sc_freed = 0\<rparr> (sih\<lparr>valid_entries := 0, num_entries := 0\<rparr>) s0 = Some (g, sih1, s1)"
      "st_ok E s1" "same_zones s0 s1" "only_links (set us) (nvmm s0) (nvmm s1)" "log_chain (nvmm s1) (page_off t) (t # vs)"
      "log_path (nvmm s1) (sc_head g) (kept (nvmm s0) us) (page_off t)" "sc_freed g = length (dropped (nvmm s0) us)"
      "sc_first_free g = (us \<noteq> [] \<and> \<not> valid_page (nvmm s0) (hd us))"
      "nova_free s1 = nova_free s0 \<union> (set (dropped (nvmm s0) us) - {hd (us @ t # vs)})"
    and sih1: "\<exists>a c. sih1 = sih\<lparr>num_entries := a, valid_entries := c\<rparr>" by blast
  have dist: "distinct (us @ t # vs)" using st by (simp add: gc_start_def)
  have lB: "?l \<in> set (t # vs)" by (rule last_in_set) simp
  have l: "?l \<notin> set cs" "?l \<notin> set us" using lB cs(2) dist by auto
  have ccs: "log_chain (nvmm s1) new_block cs"
    using cs only_links_next [OF sc(4)] by (subst log_chain_cong [of cs _ "nvmm s0"]) auto
  have dt: "distinct (t # vs)" using dist by simp
  define m2 where "m2 = (if cs = [] then nvmm s1 else nova_set_next_page_address (?l * 4096) new_block (nvmm s1))"
  note lk = link_new_pages [OF sc(5) dt ccs l(1), folded m2_def]
  define m3 where "m3 = head_written pi (sc_head g) (sc_alter_head g) m2"
  have o3: "only_pages (- ?B) m2 m3" unfolding m3_def by (rule head_written_ok(1) [OF pi])
  have n3: "next_of m3 b = next_of m2 b" if "b \<in> ?B" for b using only_pages_next [OF o3] that by simp
  have path2: "log_path m2 (sc_head g) (kept (nvmm s0) us) (page_off t)"
  proof (subst path_cong [of _ _ "nvmm s1"])
    fix b
    assume "b \<in> set (kept (nvmm s0) us)"
    then have "b \<notin> {?l}" using l(2) by auto
    then show "next_of m2 b = next_of (nvmm s1) b" by (rule only_links_next [OF lk(2)])
  qed (rule sc(6))
  have "log_chain m2 (sc_head g) (kept (nvmm s0) us @ t # vs @ cs)" using path2 lk(1) by (auto simp: path_chain)
  then have chain: "log_chain m3 (sc_head g) (kept (nvmm s0) us @ t # vs @ cs)"
    using n3 by (subst log_chain_cong [of _ _ m2]) auto
  have bytes: "m3 (b * 4096 + r) = nvmm s0 (b * 4096 + r)" if "b \<in> ?B" "r < 4088" for b r
  proof -
    have "(b * 4096 + r) div 4096 \<notin> - ?B" using page_div that by simp
    then have "m3 (b * 4096 + r) = m2 (b * 4096 + r)" using o3 unfolding only_pages_def by blast
    then show ?thesis using links_bytes [OF lk(2) that(2)] links_bytes [OF sc(4) that(2)] by simp
  qed
  let ?s3 = "mem_upd (\<lambda>m. nput (pi + 80) (le64 (sc_alter_head g)) (nput (pi + 64) (le64 (sc_head g)) m))
      (if int (length cs) > 0 then mem_upd (nova_set_next_page_address (unat (BLOCK_OFF curr_tail)) new_block) s1 else s1)"
  have m3: "nvmm ?s3 = m3" and ok3: "st_ok E ?s3" "same_zones s0 ?s3" "nova_free ?s3 = nova_free s1"
    using sc(2,3) ct by (auto simp: m3_def m2_def head_written_def)
  let ?sih = "sih1\<lparr>log_head := sc_head g, alter_log_head := sc_alter_head g, log_pages := log_pages sih1 + of_int (int (length cs) - int (sc_freed g))\<rparr>"
  let ?g = "g\<lparr>sc_checked := sc_checked g - of_nat (sc_freed g)\<rparr>"
  have sf: "log_tail ?sih = log_tail sih" "i_blk_type ?sih = 0" "log_head ?sih = sc_head g"
      "log_pages ?sih = log_pages sih + of_nat (length cs) - of_nat (length (dropped (nvmm s0) us))"
    using sih1 sc(7) st by (auto simp: gc_start_def)
  have fin: "swept E pi sih s0 us (t # vs) cs ?sih s'" if "st_ok E s'" "same_zones s0 s'" "nvmm s' = m3" "nova_free s' = nova_free s0 \<union> set (dropped (nvmm s0) us)" for s'
    unfolding swept_def using that chain bytes sf head_written_ok(2) [of pi "sc_head g" "sc_alter_head g" m2, folded m3_def] by simp
  show ?thesis
  proof (cases "sc_first_free g")
    case False
    have "hd (us @ t # vs) \<notin> set (dropped (nvmm s0) us)" using False sc(8) dist by (cases us) auto
    then have "nova_free ?s3 = nova_free s0 \<union> set (dropped (nvmm s0) us)" using ok3(3) sc(9) by auto
    from fin [OF ok3(1,2) m3 this] show ?thesis unfolding gc_sweep_def Let_def sc(1) using False by simp
  next
    case True
    let ?h = "hd us"
    have us: "us \<noteq> []" "\<not> valid_page (nvmm s0) ?h" "?h \<in> set us" using True sc(8) by auto
    have hb: "0 < ?h" "?h < 2 ^ 31" "log_head sih = page_off ?h"
      using us(1,3) st chain_bounds [of "nvmm s0" "log_head sih" "us @ t # vs" ?h] by (cases us; auto simp: gc_start_def)+
    have gz: "in_zones ?s3 {?h}" using zones_cong(2) [OF ok3(2)] st us(3) by (simp_all add: gc_start_def in_zones_def)
    have "?h \<notin> nova_free s0" using st us(3) by (auto simp: gc_start_def)
    then have nf: "?h \<notin> nova_free ?s3" using ok3(3) sc(9) us(1) by (auto simp: hd_append)
    have E: "env_ok E" using st by (simp add: gc_start_def)
    from free_one [OF E sf(2) ok3(1) gz nf hb(1,2)] obtain s4 where
      f: "free_run E ?sih (nova_get_blocknr (page_off ?h)) 1 ?s3 = Some s4" "st_ok E s4" "nova_free s4 = insert ?h (nova_free ?s3)"
        "nvmm s4 = nvmm ?s3" "same_zones ?s3 s4" by blast
    have "nova_free s4 = nova_free s0 \<union> set (dropped (nvmm s0) us)" using f(3) ok3(3) sc(9) us by (auto simp: hd_append)
    from fin [OF f(2) same_zones_trans [OF ok3(2) f(5)] _ this] m3 f(4)
    have "swept E pi sih s0 us (t # vs) cs ?sih s4" by simp
    moreover have "gc_sweep E pi curr_tail new_block (int (length cs)) sih s0 = Some (?g, ?sih, s4)"
      unfolding gc_sweep_def Let_def sc(1) using True f(1) hb(3) by simp
    ultimately show ?thesis by blast
  qed
qed

end
