(* ===== verification/Nova_Log_Entry.thy ===== *)
theory Nova_Log_Entry
  imports Nova_Gc
begin

unbundle bit_operations_syntax

text \<open>
  Appending entries to an inode log of NOVA (log.c): the log is extended when its last page is full, the new entry is
  written behind the tail, and the entry becomes part of the log when the tail of the inode is updated.  The values of the inode of
  the kernel are arguments.  Without metadata checksums the update of a checksum is only a flush.
\<close>

section \<open>Extension of the log\<close>

definition EXTEND_THRESHOLD :: u64 where "EXTEND_THRESHOLD = 256"

definition nova_extend_inode_log ::
    "nova_env \<Rightarrow> nat \<Rightarrow> u64 \<Rightarrow> nova_inode_info_header \<Rightarrow> nova_sb_info \<Rightarrow> (u64 \<times> nova_inode_info_header \<times> nova_sb_info) option" where
  "nova_extend_inode_log E pi curr_p sih sbi =
     (if curr_p = 0 then
        Option.bind (nova_initialize_inode_log E pi True sih sbi) (\<lambda>(ret, sih1, sbi1).
          if ret \<noteq> 0 then Some (0, sih1, sbi1) else Some (log_head sih1, sih1, sbi1))
      else
        let num_pages = (if log_pages sih \<ge> EXTEND_THRESHOLD then EXTEND_THRESHOLD else log_pages sih)
        in Option.bind (nova_allocate_inode_log_pages E sih num_pages ANY_CPU ALLOC_FROM_HEAD sbi) (\<lambda>(allocated, out, sbi1).
             (case out of
                None \<Rightarrow> Some (0, sih, sbi1)
              | Some new_block \<Rightarrow>
                  if allocated \<le> 0 then Some (0, sih, sbi1)
                  else
                    map_option (\<lambda>(sih2, sbi2). (new_block, sih2, sbi2))
                      (nova_inode_log_fast_gc E pi curr_p new_block allocated False sih sbi1))))"

definition nova_get_append_head ::
    "nova_env \<Rightarrow> nat \<Rightarrow> u64 \<Rightarrow> u64 \<Rightarrow> bool \<Rightarrow> bool \<Rightarrow> nova_inode_info_header \<Rightarrow> nova_sb_info \<Rightarrow>
     (u64 \<times> bool \<times> nova_inode_info_header \<times> nova_sb_info) option" where
  "nova_get_append_head E pi tail sz main thorough_gc sih sbi =
     map_option (\<lambda>(p, extended, sih', sbi'). (p, extended \<and> thorough_gc, sih', sbi'))
       (append_head (if thorough_gc then extend_one E else nova_extend_inode_log E pi) tail sz main sih sbi)"

section \<open>Contents of entries\<close>

text \<open>The fields of the inode of the kernel that entries hold; \<open>vi_flags\<close> is the field \<^verbatim>\<open>i_flags\<close> of the header.\<close>

record vfs_inode =
  vi_mode :: u16
  vi_uid :: u32
  vi_gid :: u32
  vi_atime :: u64
  vi_mtime :: u64
  vi_ctime :: u64
  vi_size :: u64
  vi_nlink :: u32
  vi_generation :: u32
  vi_flags :: u32

record iattr =
  ia_valid :: u32
  ia_size :: u64

record nova_log_entry_info =
  ei_type :: nova_entry_type
  ei_attr :: iattr
  ei_data :: "u8 list"
  ei_epoch_id :: u64
  ei_trans_id :: u64
  ei_file_size :: u64
  ei_ino :: u64
  ei_time :: u32
  ei_link_change :: int
  ei_inplace :: bool

definition le16_bytes :: "u16 \<Rightarrow> u8 list" where "le16_bytes w = le_bytes 2 (unat w)"

definition nova_update_setattr_entry :: "vfs_inode \<Rightarrow> nat \<Rightarrow> nova_log_entry_info \<Rightarrow> mem \<Rightarrow> mem" where
  "nova_update_setattr_entry inode p ei m =
     (let v = ia_valid (ei_attr ei)
      in nput (p + 24) (le64 (if v AND 8 \<noteq> 0 then ia_size (ei_attr ei) else vi_size inode))
          (nput (p + 48) [0] (nput (p + 40) (le64 (ei_trans_id ei)) (nput (p + 32) (le64 (ei_epoch_id ei))
          (nput (p + 16) (le32 (ucast (vi_mtime inode))) (nput (p + 20) (le32 (ucast (vi_ctime inode)))
          (nput (p + 12) (le32 (ucast (vi_atime inode))) (nput (p + 8) (le32 (vi_gid inode)) (nput (p + 4) (le32 (vi_uid inode))
          (nput (p + 2) (le16_bytes (vi_mode inode)) (nput (p + 1) [ucast (v AND 127)] (nput p [3] m))))))))))))"

definition nova_update_link_change_entry :: "vfs_inode \<Rightarrow> nat \<Rightarrow> nova_log_entry_info \<Rightarrow> mem \<Rightarrow> mem" where
  "nova_update_link_change_entry inode p ei m =
     nput (p + 12) (le32 (vi_generation inode)) (nput (p + 8) (le32 (vi_flags inode))
      (nput (p + 4) (le32 (ucast (vi_ctime inode))) (nput (p + 2) (le16_bytes (ucast (vi_nlink inode)))
      (nput (p + 1) [0] (nput (p + 24) (le64 (ei_trans_id ei)) (nput (p + 16) (le64 (ei_epoch_id ei)) (nput p [4] m)))))))"

definition nova_update_write_entry :: "nat \<Rightarrow> nova_log_entry_info \<Rightarrow> mem \<Rightarrow> mem" where
  "nova_update_write_entry p ei m =
     nput (p + 2) [0] (nput (p + 32) (le64 (ei_file_size ei)) (nput (p + 28) (le32 (ei_time ei))
      (nput (p + 48) (le64 (ei_trans_id ei)) (nput (p + 40) (le64 (ei_epoch_id ei)) m))))"

text \<open>The number of links in a directory entry.\<close>

definition new_links :: "vfs_inode \<Rightarrow> int \<Rightarrow> u16" where
  "new_links dir link_change =
     (let links = ucast (vi_nlink dir) :: u16
      in if links = 0 \<and> link_change = - 1 then 0 else links + of_int link_change)"

definition nova_update_old_dentry :: "vfs_inode \<Rightarrow> nat \<Rightarrow> nova_log_entry_info \<Rightarrow> mem \<Rightarrow> mem" where
  "nova_update_old_dentry dir p ei m =
     nova_inc_page_invalid_entries (of_nat p)
      (nput (p + 6) (le16_bytes (new_links dir (ei_link_change ei))) (nput (p + 8) (le32 (ucast (vi_mtime dir)))
      (nput (p + 3) [1] (nput (p + 16) (le64 0) (nput (p + 40) (le64 (ei_trans_id ei)) (nput (p + 32) (le64 (ei_epoch_id ei)) m))))))"

definition nova_update_new_dentry :: "vfs_inode \<Rightarrow> nat \<Rightarrow> nova_log_entry_info \<Rightarrow> mem \<Rightarrow> mem" where
  "nova_update_new_dentry dir p ei m =
     nput (p + 4) (le16_bytes (ucast (ei_file_size ei))) (nput (p + 6) (le16_bytes (new_links dir (ei_link_change ei)))
      (nput (p + 8) (le32 (ucast (vi_mtime dir))) (nput (p + 48) (ei_data ei @ [0])
      (nput (p + 1) [of_nat (length (ei_data ei))] (nput (p + 16) (le64 (ei_ino ei))
      (nput (p + 40) (le64 (ei_trans_id ei)) (nput (p + 32) (le64 (ei_epoch_id ei)) (nput p [2] m))))))))"

fun nova_update_log_entry :: "nova_entry_type \<Rightarrow> vfs_inode \<Rightarrow> nat \<Rightarrow> nova_log_entry_info \<Rightarrow> mem \<Rightarrow> mem" where
  "nova_update_log_entry FILE_WRITE inode p ei m = (if ei_inplace ei then nova_update_write_entry p ei m else nput p (take 64 (ei_data ei)) m)"
| "nova_update_log_entry DIR_LOG inode p ei m =
     (if ei_inplace ei then nova_update_old_dentry inode p ei m else nova_update_new_dentry inode p ei m)"
| "nova_update_log_entry SET_ATTR inode p ei m = nova_update_setattr_entry inode p ei m"
| "nova_update_log_entry LINK_CHANGE inode p ei m = nova_update_link_change_entry inode p ei m"
| "nova_update_log_entry MMAP_WRITE inode p ei m = nput p (take 40 (ei_data ei)) m"
| "nova_update_log_entry SNAPSHOT_INFO inode p ei m = nput p (take 40 (ei_data ei)) m"
| "nova_update_log_entry NEXT_PAGE inode p ei m = m"

section \<open>Appending\<close>

record nova_inode_update =
  up_tail :: u64
  up_alter_tail :: u64
  up_curr_entry :: u64

definition entry_size :: "nova_log_entry_info \<Rightarrow> u64" where
  "entry_size ei = (if ei_type ei = DIR_LOG then ei_file_size ei else of_nat (nova_get_log_entry_size (ei_type ei)))"

definition nova_append_log_entry ::
    "nova_env \<Rightarrow> nat \<Rightarrow> vfs_inode \<Rightarrow> nova_log_entry_info \<Rightarrow> nova_inode_update \<Rightarrow> nova_inode_info_header \<Rightarrow> nova_sb_info \<Rightarrow>
     (int \<times> nova_inode_update \<times> nova_inode_info_header \<times> nova_sb_info) option" where
  "nova_append_log_entry E pi inode ei update sih sbi =
     (let sz = entry_size ei
      in Option.bind (nova_get_append_head E pi (up_tail update) sz True False sih sbi) (\<lambda>(curr_p, _, sih1, sbi1).
           if curr_p = 0 then Some (- ENOSPC, update, sih1, sbi1)
           else
             Some (0, update\<lparr>up_curr_entry := curr_p, up_tail := curr_p + sz\<rparr>, sih1,
               mem_upd (\<lambda>m. nova_inc_page_num_entries curr_p
                 (nova_update_log_entry (ei_type ei) inode (unat curr_p) ei (nput (unat curr_p) (replicate (unat sz) 0) m))) sbi1)))"

text \<open>The new tail makes the entries part of the log.\<close>

definition nova_update_tail :: "nat \<Rightarrow> u64 \<Rightarrow> mem \<Rightarrow> mem" where
  "nova_update_tail pi new_tail m = nput (pi + 72) (le64 new_tail) m"

definition nova_update_inode ::
    "nat \<Rightarrow> nova_inode_update \<Rightarrow> nova_inode_info_header \<Rightarrow> nova_sb_info \<Rightarrow> nova_inode_info_header \<times> nova_sb_info" where
  "nova_update_inode pi update sih sbi =
     (sih\<lparr>log_tail := up_tail update, alter_log_tail := up_alter_tail update\<rparr>, mem_upd (nova_update_tail pi (up_tail update)) sbi)"

definition nova_append_setattr_entry ::
    "nova_env \<Rightarrow> nat \<Rightarrow> vfs_inode \<Rightarrow> iattr \<Rightarrow> u64 \<Rightarrow> nova_inode_update \<Rightarrow> nova_inode_info_header \<Rightarrow> nova_sb_info \<Rightarrow>
     (int \<times> u64 \<times> nova_inode_update \<times> nova_inode_info_header \<times> nova_sb_info) option" where
  "nova_append_setattr_entry E pi inode attr epoch_id update sih sbi =
     Option.bind (nova_append_log_entry E pi inode
         \<lparr>ei_type = SET_ATTR, ei_attr = attr, ei_data = [], ei_epoch_id = epoch_id, ei_trans_id = trans_id sih, ei_file_size = 0,
           ei_ino = 0, ei_time = 0, ei_link_change = 0, ei_inplace = False\<rparr> update sih sbi) (\<lambda>(ret, update1, sih1, sbi1).
       if ret \<noteq> 0 then Some (ret, 0, update1, sih1, sbi1)
       else Some (0, last_setattr sih1, update1, sih1\<lparr>last_setattr := up_curr_entry update1\<rparr>, sbi1))"

definition nova_append_link_change_entry ::
    "nova_env \<Rightarrow> nat \<Rightarrow> vfs_inode \<Rightarrow> u64 \<Rightarrow> nova_inode_update \<Rightarrow> nova_inode_info_header \<Rightarrow> nova_sb_info \<Rightarrow>
     (int \<times> u64 \<times> nova_inode_update \<times> nova_inode_info_header \<times> nova_sb_info) option" where
  "nova_append_link_change_entry E pi inode epoch_id update sih sbi =
     Option.bind (nova_append_log_entry E pi inode
         \<lparr>ei_type = LINK_CHANGE, ei_attr = \<lparr>ia_valid = 0, ia_size = 0\<rparr>, ei_data = [], ei_epoch_id = epoch_id, ei_trans_id = trans_id sih,
           ei_file_size = 0, ei_ino = 0, ei_time = 0, ei_link_change = 0, ei_inplace = False\<rparr> update sih sbi) (\<lambda>(ret, update1, sih1, sbi1).
       if ret \<noteq> 0 then Some (ret, 0, update1, sih1, sbi1)
       else Some (0, last_link_change sih1, update1, sih1\<lparr>last_link_change := up_curr_entry update1, trans_id := trans_id sih1 + 1\<rparr>, sbi1))"

definition nova_append_file_write_entry ::
    "nova_env \<Rightarrow> nat \<Rightarrow> vfs_inode \<Rightarrow> u8 list \<Rightarrow> nova_inode_update \<Rightarrow> nova_inode_info_header \<Rightarrow> nova_sb_info \<Rightarrow>
     (int \<times> nova_inode_update \<times> nova_inode_info_header \<times> nova_sb_info) option" where
  "nova_append_file_write_entry E pi inode data update sih sbi =
     nova_append_log_entry E pi inode
       \<lparr>ei_type = FILE_WRITE, ei_attr = \<lparr>ia_valid = 0, ia_size = 0\<rparr>, ei_data = data, ei_epoch_id = of_nat (le_nat (take 8 (drop 40 data))),
         ei_trans_id = of_nat (le_nat (take 8 (drop 48 data))), ei_file_size = 0, ei_ino = 0, ei_time = 0, ei_link_change = 0,
         ei_inplace = False\<rparr> update sih sbi"

definition nova_append_dentry ::
    "nova_env \<Rightarrow> nat \<Rightarrow> vfs_inode \<Rightarrow> u8 list \<Rightarrow> u64 \<Rightarrow> u16 \<Rightarrow> int \<Rightarrow> u64 \<Rightarrow> nova_inode_update \<Rightarrow> nova_inode_info_header \<Rightarrow> nova_sb_info \<Rightarrow>
     (int \<times> nova_inode_update \<times> nova_inode_info_header \<times> nova_sb_info) option" where
  "nova_append_dentry E pi dir name ino de_len link_change epoch_id update sih sbi =
     nova_append_log_entry E pi dir
       \<lparr>ei_type = DIR_LOG, ei_attr = \<lparr>ia_valid = 0, ia_size = 0\<rparr>, ei_data = name, ei_epoch_id = epoch_id, ei_trans_id = trans_id sih,
         ei_file_size = ucast de_len, ei_ino = ino, ei_time = 0, ei_link_change = link_change, ei_inplace = False\<rparr> update sih sbi"

section \<open>Invalid entries\<close>

text \<open>An entry is marked; a file write entry is invalid when all its pages are.\<close>

definition nova_execute_invalidate_reassign_logentry :: "u64 \<Rightarrow> nova_entry_type \<Rightarrow> bool \<Rightarrow> u32 \<Rightarrow> mem \<Rightarrow> mem" where
  "nova_execute_invalidate_reassign_logentry entry type reassign num_free m =
     (let p = unat entry;
          mark = (\<lambda>off. nova_inc_page_invalid_entries entry (nput (p + off) [1] m))
      in case type of
           FILE_WRITE \<Rightarrow>
             let m1 = (if reassign then nput (p + 1) [1] m else m);
                 m2 = (if num_free \<noteq> 0 then nput (p + 24) (le32 (get32 m1 (p + 24) + num_free)) m1 else m1)
             in if get32 m2 (p + 24) = get32 m2 (p + 4) then nova_inc_page_invalid_entries entry m2 else m2
         | DIR_LOG \<Rightarrow> if reassign then nput (p + 2) [1] m else mark 3
         | SET_ATTR \<Rightarrow> mark 48
         | LINK_CHANGE \<Rightarrow> mark 1
         | MMAP_WRITE \<Rightarrow> mark 1
         | SNAPSHOT_INFO \<Rightarrow> mark 1
         | NEXT_PAGE \<Rightarrow> m)"

definition nova_invalidate_logentry :: "u64 \<Rightarrow> nova_entry_type \<Rightarrow> u32 \<Rightarrow> mem \<Rightarrow> mem" where
  "nova_invalidate_logentry entry type num_free m = nova_execute_invalidate_reassign_logentry entry type False num_free m"

definition nova_reassign_logentry :: "u64 \<Rightarrow> nova_entry_type \<Rightarrow> mem \<Rightarrow> mem" where
  "nova_reassign_logentry entry type m = nova_execute_invalidate_reassign_logentry entry type True 0 m"

definition nova_invalidate_write_entry :: "u64 option \<Rightarrow> bool \<Rightarrow> u32 \<Rightarrow> mem \<Rightarrow> mem" where
  "nova_invalidate_write_entry entry reassign num_free m =
     (case entry of
        None \<Rightarrow> m
      | Some p \<Rightarrow> if num_free = 0 \<and> m (unat p + 1) = 1 then m
                  else nova_execute_invalidate_reassign_logentry p FILE_WRITE reassign num_free m)"

definition old_entry_freeable :: "u64 \<Rightarrow> nova_sb_info \<Rightarrow> bool" where
  "old_entry_freeable epoch_id sbi \<longleftrightarrow> epoch_id = s_epoch_id sbi"

definition nova_invalidate_setattr_entry :: "u64 \<Rightarrow> nova_sb_info \<Rightarrow> nova_sb_info" where
  "nova_invalidate_setattr_entry last_entry sbi =
     (if \<not> old_entry_freeable (get64_at (nvmm sbi) last_entry 32) sbi \<or> get_byte (nvmm sbi) last_entry 1 AND 8 \<noteq> 0 then sbi
      else mem_upd (nova_invalidate_logentry last_entry SET_ATTR 0) sbi)"

definition nova_invalidate_link_change_entry :: "u64 \<Rightarrow> nova_sb_info \<Rightarrow> nova_sb_info" where
  "nova_invalidate_link_change_entry old sbi =
     (if old = 0 \<or> \<not> old_entry_freeable (get64_at (nvmm sbi) old 16) sbi then sbi
      else mem_upd (nova_invalidate_logentry old LINK_CHANGE 0) sbi)"

end
