(* ===== verification/Nova_Log_Props.thy ===== *)
theory Nova_Log_Props
  imports Nova_Gc_Pages Nova_Log_Entry
begin

unbundle bit_operations_syntax

text \<open>
  The properties of the inode logs of NOVA: log pages are allocated and freed as chains, a collection keeps
  the pages with valid entries, and an append leaves the entries in front of the tail as they are.
\<close>

section \<open>Appending an entry\<close>

text \<open>Only the bytes of a range change.\<close>

definition within :: "nat \<Rightarrow> nat \<Rightarrow> mem \<Rightarrow> mem \<Rightarrow> bool" where
  "within a n m m' \<longleftrightarrow> (\<forall>x. x < a \<or> a + n \<le> x \<longrightarrow> m' x = m x)"

lemma within_refl [simp]: "within a n m m"
  by (simp add: within_def)

lemma within_put: "a \<le> c \<Longrightarrow> c + length bs \<le> a + n \<Longrightarrow> within a n m m' \<Longrightarrow> within a n m (nput c bs m')"
  by (simp add: within_def nput_def)

lemma within_trans: "within a n m m' \<Longrightarrow> within a n m' m'' \<Longrightarrow> within a n m m''"
  by (simp add: within_def)

lemma length_le16_bytes [simp]: "length (le16_bytes w) = 2"
  by (simp add: le16_bytes_def)

text \<open>The type of a new entry, which for the entries that are copied is the first byte of the data.\<close>

definition type_of :: "nova_log_entry_info \<Rightarrow> u8" where
  "type_of ei = (case ei_type ei of SET_ATTR \<Rightarrow> 3 | LINK_CHANGE \<Rightarrow> 4 | DIR_LOG \<Rightarrow> 2 | _ \<Rightarrow> hd (ei_data ei))"

text \<open>An entry that fits into its length.\<close>

definition entry_ok :: "nova_log_entry_info \<Rightarrow> bool" where
  "entry_ok ei \<longleftrightarrow> \<not> ei_inplace ei \<and>
     (case ei_type ei of
        DIR_LOG \<Rightarrow> 48 + length (ei_data ei) < unat (ei_file_size ei) \<and> unat (ei_file_size ei) \<le> LOG_BLOCK_TAIL
      | FILE_WRITE \<Rightarrow> length (ei_data ei) = 64
      | MMAP_WRITE \<Rightarrow> length (ei_data ei) = 40
      | SNAPSHOT_INFO \<Rightarrow> length (ei_data ei) = 40
      | NEXT_PAGE \<Rightarrow> False
      | _ \<Rightarrow> True)"

lemma entry_size_ok:
  assumes "entry_ok ei"
  shows "0 < unat (entry_size ei)" "unat (entry_size ei) \<le> 4064"
  using assms by (cases "ei_type ei"; simp add: entry_ok_def entry_size_def LOG_BLOCK_TAIL_def)+

lemma update_entry_ok:
  assumes "entry_ok ei"
  shows "within p (unat (entry_size ei)) m (nova_update_log_entry (ei_type ei) inode p ei m)"
    "nova_update_log_entry (ei_type ei) inode p ei m p = type_of ei"
proof -
  note d = nova_update_new_dentry_def nova_update_setattr_entry_def nova_update_link_change_entry_def Let_def
  show "within p (unat (entry_size ei)) m (nova_update_log_entry (ei_type ei) inode p ei m)"
    using assms by (cases "ei_type ei"; simp add: entry_ok_def entry_size_def d within_put)
  show "nova_update_log_entry (ei_type ei) inode p ei m p = type_of ei"
    using assms by (cases "ei_type ei"; cases "ei_data ei"; simp add: entry_ok_def type_of_def d nput_def)
qed

lemma is_last_entry_val: "unat sz \<le> 4064 \<Longrightarrow> is_last_entry p sz \<longleftrightarrow> 4064 < unat p mod 4096 + unat sz"
proof -
  assume sz: "unat sz \<le> 4064"
  have m: "unat p mod 4096 < 4096" by simp
  then have "unat (ENTRY_LOC p + sz) = unat p mod 4096 + unat sz" using sz by (simp add: unat_word_ariths)
  moreover have "unat (ucast (ENTRY_LOC p + sz) :: u32) = unat (ENTRY_LOC p + sz)"
    using calculation m sz by (intro unat_ucast_down) simp
  ultimately show ?thesis by (simp add: is_last_entry_def LOG_BLOCK_TAIL_def)
qed

text \<open>An entry of the given length at a place that has room for it.\<close>

definition written :: "u64 \<Rightarrow> nova_log_entry_info \<Rightarrow> mem \<Rightarrow> mem \<Rightarrow> bool" where
  "written p ei m m' \<longleftrightarrow> nova_get_entry_type m' p = type_of ei \<and> num_of m' (unat p div 4096) = num_of m (unat p div 4096) + 1 \<and>
     (\<forall>x. (x < unat p \<or> unat p + unat (entry_size ei) \<le> x) \<and> (x < unat p div 4096 * 4096 + 4068 \<or> unat p div 4096 * 4096 + 4072 \<le> x) \<longrightarrow> m' x = m x)"

lemma entry_written:
  assumes ei: "entry_ok ei" and room: "unat p mod 4096 + unat (entry_size ei) \<le> 4064"
  shows "written p ei m (nova_inc_page_num_entries p
    (nova_update_log_entry (ei_type ei) inode (unat p) ei (nput (unat p) (replicate (unat (entry_size ei)) 0) m)))"
proof -
  let ?n = "unat (entry_size ei)" and ?b = "unat p div 4096"
  let ?m0 = "nput (unat p) (replicate ?n 0) m"
  define m1 where "m1 = nova_update_log_entry (ei_type ei) inode (unat p) ei ?m0"
  have w: "within (unat p) ?n m m1" unfolding m1_def
    by (rule within_trans [OF _ update_entry_ok(1) [OF ei]]) (rule within_put; simp)
  have t: "m1 (unat p) = type_of ei" unfolding m1_def by (rule update_entry_ok(2) [OF ei])
  have p: "unat p = ?b * 4096 + unat p mod 4096" by simp
  then have below: "unat p + ?n \<le> ?b * 4096 + 4064" using room by linarith
  have "nget m1 (?b * 4096 + 4068) 4 = nget m (?b * 4096 + 4068) 4"
    by (rule nget_cong) (use w below in \<open>simp add: within_def\<close>)
  then have num: "num_of m1 ?b = num_of m ?b" by (simp add: num_of_def get32_def tail_at)
  let ?m2 = "nput (?b * 4096 + 4068) (le32 (num_of m ?b + 1)) m1"
  have run: "nova_inc_page_num_entries p m1 = ?m2"
    unfolding nova_inc_page_num_entries_def Let_def block_off_val using num by (simp add: num_of_def tail_at)
  have lt: "unat p < ?b * 4096 + 4068" using below entry_size_ok(1) [OF ei] by linarith
  have "written p ei m ?m2" unfolding written_def
  proof (intro conjI allI impI)
    show "nova_get_entry_type ?m2 p = type_of ei" using t lt by (simp add: nova_get_entry_type_def get_byte_def nput_def)
    show "num_of ?m2 ?b = num_of m ?b + 1" by (simp add: num_of_def tail_at get32_of_bytes)
    fix x
    assume x: "(x < unat p \<or> unat p + ?n \<le> x) \<and> (x < ?b * 4096 + 4068 \<or> ?b * 4096 + 4072 \<le> x)"
    then have "?m2 x = m1 x" by (auto simp: nput_def)
    then show "?m2 x = m x" using w x unfolding within_def by metis
  qed
  then show ?thesis unfolding m1_def [symmetric] run .
qed

text \<open>The place for the entry: behind the tail, or on the next page of the log when there is one.\<close>

lemma flag_next:
  "next_log_page (nova_set_next_page_flag p m) p = next_log_page m p"
  "x \<noteq> unat p \<Longrightarrow> nova_set_next_page_flag p m x = m x"
  "unat p mod 4096 < 4064 \<Longrightarrow> nova_set_next_page_flag p m (unat p) = 7"
proof -
  have p: "unat p = unat p div 4096 * 4096 + unat p mod 4096" by simp
  show x: "nova_set_next_page_flag p m x = m x" if "x \<noteq> unat p" for x
    using that by (simp add: nova_set_next_page_flag_def nova_set_entry_type_def nput_def)
  show "unat p mod 4096 < 4064 \<Longrightarrow> nova_set_next_page_flag p m (unat p) = 7"
    by (simp add: nova_set_next_page_flag_def nova_set_entry_type_def nput_def LOG_BLOCK_TAIL_def)
  show "next_log_page (nova_set_next_page_flag p m) p = next_log_page m p"
  proof (cases "unat p mod 4096 < 4064")
    case True
    then have "unat p < unat p div 4096 * 4096 + 4088" using p by linarith
    then have "nget (nova_set_next_page_flag p m) (unat p div 4096 * 4096 + 4088) 8 = nget m (unat p div 4096 * 4096 + 4088) 8"
      by (intro nget_cong x) simp
    then show ?thesis by (simp add: next_log_page_of next_of_def get64_def tail_at)
  next
    case False
    then show ?thesis by (simp add: nova_set_next_page_flag_def LOG_BLOCK_TAIL_def)
  qed
qed

definition place :: "u64 \<Rightarrow> u64 \<Rightarrow> mem \<Rightarrow> u64 \<times> mem" where
  "place p sz m = (if unat p mod 4096 + unat sz \<le> 4064 then (p, m) else (next_log_page m p, nova_set_next_page_flag p m))"

lemma append_head_place:
  assumes p: "p = (if tail = 0 then log_tail sih else tail)" "p \<noteq> 0" and sz: "unat sz \<le> 4064"
    and q: "place p sz (nvmm sbi) = (q, m)" "q \<noteq> 0"
  shows "append_head ext tail sz True sih sbi = Some (q, False, sih, sbi\<lparr>nvmm := m\<rparr>)"
proof -
  have e: "(if tail \<noteq> 0 then tail else if True then log_tail sih else alter_log_tail sih) = p" using p(1) by simp
  note l = is_last_entry_val [OF sz, of p]
  show ?thesis
  proof (cases "unat p mod 4096 + unat sz \<le> 4064")
    case True
    then have "q = p" "m = nvmm sbi" using q(1) by (simp_all add: place_def)
    then show ?thesis unfolding append_head_def Let_def e using p(2) l True by simp
  next
    case False
    then have "q = next_log_page (nvmm sbi) p" "m = nova_set_next_page_flag p (nvmm sbi)" using q(1) by (simp_all add: place_def)
    then show ?thesis unfolding append_head_def Let_def e using p(2) q(2) l False by (simp add: mem_upd_def flag_next)
  qed
qed

lemma append_entry_ok:
  assumes p: "p = (if up_tail up = 0 then log_tail sih else up_tail up)" "p \<noteq> 0" and ei: "entry_ok ei"
    and q: "place p (entry_size ei) (nvmm sbi) = (q, m)" "q \<noteq> 0" "unat p mod 4096 + unat (entry_size ei) \<le> 4064 \<or> unat q mod 4096 = 0"
  shows "\<exists>m'. nova_append_log_entry E pi inode ei up sih sbi =
      Some (0, up\<lparr>up_curr_entry := q, up_tail := q + entry_size ei\<rparr>, sih, sbi\<lparr>nvmm := m'\<rparr>) \<and> written q ei m m'"
proof -
  have room: "unat q mod 4096 + unat (entry_size ei) \<le> 4064"
    using q entry_size_ok(2) [OF ei] by (auto simp: place_def split: if_splits)
  have "nova_get_append_head E pi (up_tail up) (entry_size ei) True False sih sbi = Some (q, False, sih, sbi\<lparr>nvmm := m\<rparr>)"
    unfolding nova_get_append_head_def using append_head_place [OF p entry_size_ok(2) [OF ei] q(1,2)] by simp
  then have "nova_append_log_entry E pi inode ei up sih sbi = Some (0, up\<lparr>up_curr_entry := q, up_tail := q + entry_size ei\<rparr>, sih,
      sbi\<lparr>nvmm := nova_inc_page_num_entries q
        (nova_update_log_entry (ei_type ei) inode (unat q) ei (nput (unat q) (replicate (unat (entry_size ei)) 0) m))\<rparr>)"
    using q(2) by (simp add: nova_append_log_entry_def mem_upd_def Let_def)
  with entry_written [OF ei room] show ?thesis by blast
qed

section \<open>A small device\<close>

text \<open>An environment in which every request for a node gives an address that no node has.\<close>

definition plain_env :: nova_env where
  "plain_env = \<lparr>rbk = plain_rb, smp_processor_id = (\<lambda>sbi. 0),
     node_at = (\<lambda>sbi. Some (Suc (sum_list (concat (map ids (free_lists sbi))))))\<rparr>"

lemma plain_env_ok: "env_ok plain_env"
proof -
  have "fresh (Suc (sum_list (concat (map ids (free_lists sbi))))) sbi" if ok: "nova_ok plain_rb sbi" for sbi
    unfolding fresh_def
  proof (intro allI impI)
    fix i
    assume "i < cpus sbi"
    then have "fl_at sbi i \<in> set (free_lists sbi)" using nova_okD(2) [OF ok] by simp
    then have "set (ids (fl_at sbi i)) \<subseteq> set (concat (map ids (free_lists sbi)))" by auto
    moreover have "Suc (sum_list (concat (map ids (free_lists sbi)))) \<notin> set (concat (map ids (free_lists sbi)))"
      using member_le_sum_list [of "Suc (sum_list (concat (map ids (free_lists sbi))))" "concat (map ids (free_lists sbi))"] by auto
    ultimately show "Suc (sum_list (concat (map ids (free_lists sbi)))) \<notin> set (ids (fl_at sbi i))" by blast
  qed
  then show ?thesis by (simp add: env_ok_def plain_env_def plain_rb_ok)
qed

text \<open>A page with a number of entries.\<close>

definition busy_page :: "nat \<Rightarrow> u64 \<Rightarrow> u32 \<Rightarrow> mem \<Rightarrow> mem" where
  "busy_page b q k m = nova_set_page_num_entries (b * 4096) k (fresh_page b q m)"

lemma busy_page_fields:
  "next_of (busy_page b q k m) c = (if c = b then q else next_of m c)"
  "num_of (busy_page b q k m) c = (if c = b then k else num_of m c)"
  "invalid_of (busy_page b q k m) c = (if c = b then 0 else invalid_of m c)"
proof -
  have "only_pages {b} m (busy_page b q k m)" unfolding busy_page_def
    by (rule only_pages_trans [OF fresh_page_ok(1) set_pages(2)]) simp_all
  note o = only_pages_next [OF this, of c] only_pages_counts [OF this, of c]
  have "next_of (busy_page b q k m) b = q" "invalid_of (busy_page b q k m) b = 0"
    using fresh_page_ok(2,4) [of b q m] unfolding busy_page_def nova_set_page_num_entries_def next_of_def invalid_of_def tail_at
    by (simp_all add: get64_def get32_def)
  moreover have "num_of (busy_page b q k m) b = k" unfolding busy_page_def by (rule set_fields(4))
  ultimately show "next_of (busy_page b q k m) c = (if c = b then q else next_of m c)"
    "num_of (busy_page b q k m) c = (if c = b then k else num_of m c)"
    "invalid_of (busy_page b q k m) c = (if c = b then 0 else invalid_of m c)" using o by auto
qed

text \<open>A log of three pages, of which the first has no valid entry, and a page that is not linked yet.\<close>

definition log_mem :: mem where
  "log_mem = busy_page 2000 (page_off 2001) 0 (busy_page 2001 (page_off 2500) 3 (busy_page 2500 0 1 (busy_page 2600 0 0 (\<lambda>a. 1))))"

definition log_sih :: nova_inode_info_header where
  "log_sih = \<lparr>entry_tree = Map.empty, rb_tree = Leaf, vma_tree = Leaf, num_vmas = 0, log_pages = 3, sih_i_blocks = 3, valid_entries = 4,
     num_entries = 4, last_setattr = 0, last_link_change = 0, last_dentry = 0, trans_id = 1, log_head = page_off 2000,
     log_tail = page_off 2500 + 64, alter_log_head = 0, alter_log_tail = 0, i_blk_type = 0\<rparr>"

definition log_sb :: nova_sb_info where "log_sb = mem_upd (\<lambda>m. log_mem) nsb1"

lemma log_sb_ok: "st_ok plain_env log_sb" "nova_free log_sb = {10..1999}" "gap_ok log_sb B" "in_zones log_sb B = (B \<subseteq> {10..2999})"
proof -
  show "st_ok plain_env log_sb" using nsb1_ok(1) by (simp add: log_sb_def plain_env_def)
  show "nova_free log_sb = {10..1999}" using nsb1_ok(3) by (simp add: log_sb_def)
  have z: "cpus log_sb = 1" "zone log_sb 0 = {10..2999}" using nsb1_ok(4,5) by (simp_all add: log_sb_def mem_upd_def zone_def)
  show "gap_ok log_sb B" by (simp add: gap_ok_def z)
  show "in_zones log_sb B = (B \<subseteq> {10..2999})" by (auto simp: in_zones_def z)
qed

lemma log_chain_sb: "log_chain (nvmm log_sb) (page_off 2000) [2000, 2001, 2500]" "log_chain (nvmm log_sb) (page_off 2600) [2600]"
  by (simp_all add: log_sb_def log_mem_def busy_page_fields)


lemma log_alloc_sb: "\<exists>s. nova_allocate_inode_log_pages plain_env log_sih 2 ANY_CPU ALLOC_FROM_HEAD log_sb = Some (2, Some (page_off 10), s)"
proof -
  let ?fl = "fl0\<lparr>block_end := 2999\<rparr>" and ?h = "nodes nsb0"
  let ?h1 = "put_node plain_rb 0 (\<lambda>m. m\<lparr>range_low := 12\<rparr>) ?h"
  have b: "block_free_tree ?fl = Node Leaf 0 Leaf" "first_node ?fl = Some 0" "last_node ?fl = Some 0" "num_free_blocks ?fl = 1990"
    "free_lists log_sb = [?fl]" "cpus log_sb = 1" "nodes log_sb = ?h" "range_low (?h x) = 10" "range_high (?h x) = 1999" for x
    by (simp_all add: fl0_def nsb0_def nsb1_def log_sb_def mem_upd_def)
  have ne: "\<not> not_enough_blocks ?h ?fl 2 LOG" using b by (simp add: not_enough_blocks_def DEAD_ZONE_BLOCKS_def)
  have ch: "choose_list 2 LOG log_sb 2 0 = Some 0" using ne b(5,7) by (subst choose_list.simps) simp
  have v: "visit ALLOC_FROM_HEAD (?fl\<lparr>first_node := Some 0, last_node := Some 0\<rparr>) = [0]" by (simp add: visit_def fl0_def)
  have lp: "alloc_loop plain_rb 0 ALLOC_FROM_HEAD [0] 2 0 ?h ?fl = (True, 2, 10, ?h1, ?fl)"
    using b(8,9) by (simp add: Let_def nova_range_node_checksum_ok_def plain_rb_def)
  have al: "nova_alloc_blocks_in_free_list plain_rb y 0 LOG 2 ALLOC_FROM_HEAD ?h ?fl = Some (2, 10, ?h1, ?fl\<lparr>num_free_blocks := 1988\<rparr>)" for y
    using lp v ne b(2-4) by (simp add: nova_alloc_blocks_in_free_list_def del: alloc_loop.simps)
  obtain s1 where "log_blocks plain_env log_sih 2 ANY_CPU ALLOC_FROM_HEAD log_sb = Some (2, Some 10, s1)"
    using ch al b(5-7) by (simp add: log_blocks_def nova_new_log_blocks_def nova_new_blocks_def nova_get_numblocks_def Let_def
        plain_env_def log_sih_def del: choose_list.simps)
  then show ?thesis
    by (simp add: nova_allocate_inode_log_pages_def alloc_pages_loop.simps nova_get_block_off_def page_off_def push_bit_eq_mult)
qed

text \<open>Two processors whose parts of the device touch, and a log that crosses the border.\<close>

definition two_sb :: nova_sb_info where
  "two_sb = nsb0\<lparr>nodes := (\<lambda>x. if x = 0 then zalloc_node\<lparr>range_low := 10, range_high := 19\<rparr> else zalloc_node\<lparr>range_low := 1900, range_high := 1999\<rparr>),
     free_lists := [fl0\<lparr>block_end := 999, num_free_blocks := 10\<rparr>,
       fl0\<lparr>block_free_tree := Node Leaf 1 Leaf, first_node := Some 1, last_node := Some 1, block_start := 1000, num_free_blocks := 100\<rparr>],
     per_list_blocks := 1000, cpus := 2, nvmm := busy_page 999 (page_off 1000) 1 (busy_page 1000 0 1 (\<lambda>a. 1))\<rparr>"

lemma two_sb_ok: "st_ok plain_env two_sb" "nova_free two_sb = {10..19} \<union> {1900..1999}" "zone two_sb 0 = {10..999}" "zone two_sb 1 = {1000..1999}"
  "cpus two_sb = 2" "log_chain (nvmm two_sb) (page_off 999) [999, 1000]"
proof -
  note d = two_sb_def nsb0_def fl0_def empty_list_def zalloc_node_def plain_rb_def
  have two: "(\<forall>i < (2 :: nat). P i) = (P 0 \<and> P 1)" "{..<2 :: nat} = {0, 1}" for P by (auto simp: less_2_cases_iff)
  have "cpus two_sb = 2" by (simp add: two_sb_def)
  then show "st_ok plain_env two_sb" unfolding nova_ok_def two
    by (simp add: list_ok_def shape_ok_def tree_ok_def d nova_range_node_checksum_ok_def plain_env_def two)
  show "nova_free two_sb = {10..19} \<union> {1900..1999}" by (simp add: nova_free_def d two)
  show "zone two_sb 0 = {10..999}" "zone two_sb 1 = {1000..1999}" "cpus two_sb = 2" by (simp_all add: zone_def d)
  show "log_chain (nvmm two_sb) (page_off 999) [999, 1000]" by (simp add: two_sb_def busy_page_fields)
qed

text \<open>A change of attributes, to be logged at the end of a page.\<close>

definition some_inode :: vfs_inode where
  "some_inode = \<lparr>vi_mode = 420, vi_uid = 0, vi_gid = 0, vi_atime = 5, vi_mtime = 5, vi_ctime = 5, vi_size = 0, vi_nlink = 1, vi_generation = 0, vi_flags = 0\<rparr>"

definition some_entry :: nova_log_entry_info where
  "some_entry = \<lparr>ei_type = SET_ATTR, ei_attr = \<lparr>ia_valid = 1, ia_size = 0\<rparr>, ei_data = [], ei_epoch_id = 7, ei_trans_id = 1, ei_file_size = 0,
     ei_ino = 0, ei_time = 0, ei_link_change = 0, ei_inplace = False\<rparr>"

definition some_update :: nova_inode_update where "some_update = \<lparr>up_tail = 8196040, up_alter_tail = 0, up_curr_entry = 0\<rparr>"

lemma some_entry_facts: "entry_size some_entry = 56" "type_of some_entry = 3" "entry_ok some_entry"
  by (simp_all add: some_entry_def entry_size_def type_of_def entry_ok_def)

section \<open>Properties\<close>

text \<open>
  C13: A request for log pages gives a chain of at most the requested number of distinct pages that were free,
  starting at the returned address, with empty counts and a last page without a successor; exactly these pages leave the free blocks
  and no byte outside them changes.  The return value is the length of the chain.  Otherwise the result is
  \<open>ENOSPC\<close> and the state is as before.
\<close>

theorem nova_allocate_inode_log_pages_spec:
  assumes "env_ok E" "st_ok E sbi" "i_blk_type sih = 0" "num \<noteq> 0" "unat num < 2 ^ 32"
  shows "(\<exists>p bs sbi'. nova_allocate_inode_log_pages E sih num ANY_CPU dir sbi = Some (int (length bs), Some p, sbi') \<and>
      st_ok E sbi' \<and> bs \<noteq> [] \<and> length bs \<le> unat num \<and> distinct bs \<and> log_chain (nvmm sbi') p bs \<and> set bs \<subseteq> nova_free sbi \<and>
      nova_free sbi' = nova_free sbi - set bs \<and> only_pages (set bs) (nvmm sbi) (nvmm sbi') \<and>
      (\<forall>b \<in> set bs. num_of (nvmm sbi') b = 0 \<and> invalid_of (nvmm sbi') b = 0)) \<or>
    nova_allocate_inode_log_pages E sih num ANY_CPU dir sbi = Some (- ENOSPC, None, sbi)"
  using allocate_log_pages_ok [OF assms, of dir] unfolding new_chain_def by blast

theorem nova_allocate_inode_log_pages_spec_witness:
  "\<exists>p bs sbi'. nova_allocate_inode_log_pages plain_env log_sih 2 ANY_CPU ALLOC_FROM_HEAD log_sb = Some (2, Some p, sbi') \<and>
     length bs = 2 \<and> log_chain (nvmm sbi') p bs \<and> set bs \<subseteq> {10..1999} \<and> nova_free sbi' = {10..1999} - set bs"
proof -
  have h: "i_blk_type log_sih = 0" "(2 :: u64) \<noteq> 0" "unat (2 :: u64) < 2 ^ 32" by (simp_all add: log_sih_def)
  from log_alloc_sb obtain s where a: "nova_allocate_inode_log_pages plain_env log_sih 2 ANY_CPU ALLOC_FROM_HEAD log_sb = Some (2, Some (page_off 10), s)"
    by blast
  have two: "2 = int k \<longleftrightarrow> k = 2" for k by auto
  show ?thesis using nova_allocate_inode_log_pages_spec [OF plain_env_ok log_sb_ok(1) h, of ALLOC_FROM_HEAD]
    unfolding a log_sb_ok(2) by (auto simp: two)
qed



text \<open>
  C22: Log pages that were allocated and are freed again leave the free blocks as they were.
\<close>

theorem log_pages_alloc_free:
  assumes "env_ok E" "st_ok E sbi" "gap_ok sbi (nova_free sbi)" "i_blk_type sih = 0" "num \<noteq> 0" "unat num < 2 ^ 32"
    and "nova_allocate_inode_log_pages E sih num ANY_CPU dir sbi = Some (n, Some p, sbi1)"
  shows "\<exists>sbi2. nova_free_contiguous_log_blocks E sih p sbi1 = Some (n, sbi2) \<and> st_ok E sbi2 \<and> nova_free sbi2 = nova_free sbi"
proof -
  from allocate_log_pages_ok [OF assms(1,2,4-6), of dir] assms(7) obtain bs where
    n: "n = int (length bs)" and c: "new_chain E sbi p bs sbi1" by auto
  note d = c [unfolded new_chain_def]
  have z: "same_zones sbi sbi1" and sub: "set bs \<subseteq> nova_free sbi" and f: "nova_free sbi1 = nova_free sbi - set bs" using d by blast+
  have "in_zones sbi (set bs)" using free_bounds(3) [OF assms(2)] sub unfolding in_zones_def by blast
  then have g: "gap_ok sbi1 (set bs)" "in_zones sbi1 (set bs)" using zones_cong [OF z] gap_ok_mono [OF assms(3) sub] by simp_all
  have "set bs \<inter> nova_free sbi1 = {}" using f by blast
  with free_contiguous_ok [OF assms(1,4) _ g(1), of p] d g(2) obtain sbi2 where
    "nova_free_contiguous_log_blocks E sih p sbi1 = Some (int (length bs), sbi2)" "st_ok E sbi2" "nova_free sbi2 = nova_free sbi1 \<union> set bs"
    by blast
  then show ?thesis using n sub f by auto
qed

theorem log_pages_alloc_free_witness:
  "\<exists>n p s1 s2. nova_allocate_inode_log_pages plain_env log_sih 2 ANY_CPU ALLOC_FROM_HEAD log_sb = Some (n, Some p, s1) \<and>
     nova_free_contiguous_log_blocks plain_env log_sih p s1 = Some (n, s2) \<and> nova_free s2 = {10..1999}"
proof -
  have h: "i_blk_type log_sih = 0" "(2 :: u64) \<noteq> 0" "unat (2 :: u64) < 2 ^ 32" by (simp_all add: log_sih_def)
  from log_alloc_sb obtain s where a: "nova_allocate_inode_log_pages plain_env log_sih 2 ANY_CPU ALLOC_FROM_HEAD log_sb = Some (2, Some (page_off 10), s)"
    by blast
  from log_pages_alloc_free [OF plain_env_ok log_sb_ok(1,3) h a] a show ?thesis unfolding log_sb_ok(2) by blast
qed

text \<open>
  C11: The fast collection of a log keeps, in their order, the pages with a valid entry in front of the page of the
  tail, followed by the pages from the tail on and the new pages; the head in the header and in the inode is the
  first of them.  The pages without a valid entry, the first page of the log included, become free, and nothing else does.  No byte of
  a page changes except its pointer to the next page.
\<close>

theorem nova_fast_gc_sweep_spec:
  assumes "gc_start E sih sbi (us @ t # vs)" "unat (log_tail sih) div 4096 = t"
    and "log_chain (nvmm sbi) new_block cs" "set cs \<inter> set (us @ t # vs) = {}"
    and "unat curr_tail div 4096 = last (t # vs)" "apart pi (set (us @ t # vs @ cs))"
  shows "\<exists>g sih' sbi'. gc_sweep E pi curr_tail new_block (int (length cs)) sih sbi = Some (g, sih', sbi') \<and> st_ok E sbi' \<and>
    log_chain (nvmm sbi') (log_head sih') (filter (\<lambda>b. invalid_of (nvmm sbi) b \<noteq> num_of (nvmm sbi) b) us @ t # vs @ cs) \<and>
    get64 (nvmm sbi') (pi + 64) = log_head sih' \<and> log_tail sih' = log_tail sih \<and>
    nova_free sbi' = nova_free sbi \<union> {b \<in> set us. invalid_of (nvmm sbi) b = num_of (nvmm sbi) b} \<and>
    (\<forall>b \<in> set (us @ t # vs @ cs). \<forall>r < 4088. nvmm sbi' (b * 4096 + r) = nvmm sbi (b * 4096 + r))"
proof -
  have k: "kept m us = filter (\<lambda>b. invalid_of m b \<noteq> num_of m b) us" "set (dropped m us) = {b \<in> set us. invalid_of m b = num_of m b}" for m
    by (auto simp: valid_page_def cong: filter_cong)
  show ?thesis using gc_sweep_ok [OF assms] unfolding swept_def k append_Cons by blast
qed

theorem nova_fast_gc_sweep_spec_witness:
  "\<exists>g sih' sbi'. gc_sweep plain_env 4096 (page_off 2500) (page_off 2600) 1 log_sih log_sb = Some (g, sih', sbi') \<and>
     log_chain (nvmm sbi') (log_head sih') [2001, 2500, 2600] \<and> nova_free sbi' = {10..1999} \<union> {2000}"
proof -
  have c: "invalid_of (nvmm log_sb) 2000 = 0" "num_of (nvmm log_sb) 2000 = 0" "invalid_of (nvmm log_sb) 2001 = 0" "num_of (nvmm log_sb) 2001 = 3"
    by (simp_all add: log_sb_def log_mem_def busy_page_fields)
  have s: "gc_start plain_env log_sih log_sb ([2000, 2001] @ 2500 # [])"
    unfolding gc_start_def log_sb_ok using plain_env_ok log_sb_ok(1) log_chain_sb(1) by (simp add: log_sih_def)
  have t: "unat (log_tail log_sih) div 4096 = 2500" by (simp add: log_sih_def page_off_def)
  have l: "unat (page_off 2500) div 4096 = last (2500 # [])" by (simp add: page_off_def)
  have d: "set [2600 :: nat] \<inter> set ([2000, 2001] @ 2500 # []) = {}" by simp
  have a: "apart 4096 (set ([2000, 2001] @ 2500 # [] @ [2600]))" by (auto simp: apart_def)
  show ?thesis using nova_fast_gc_sweep_spec [OF s t log_chain_sb(2) d l a] unfolding log_sb_ok(2)
    by (auto simp: c)
qed

text \<open>
  C12: Appending an entry puts it behind the tail, or at the start of the next page when the page of the tail has no room
  and a successor: its type is that of the entry, the tail of the update is its end, and the count of its page
  grows by one.  No byte outside the entry, the count and, on a change of page, the flag at the old tail changes, so the
  entries of the log and the tail in the inode are as before until the tail is updated.
\<close>

theorem nova_append_log_entry_spec:
  assumes "p = (if up_tail up = 0 then log_tail sih else up_tail up)" "p \<noteq> 0" "entry_ok ei"
    and "room = (unat p mod 4096 + unat (entry_size ei) \<le> 4064)" "q = (if room then p else next_log_page (nvmm sbi) p)"
    and "room \<or> q \<noteq> 0 \<and> unat q mod 4096 = 0 \<and> unat q div 4096 \<noteq> unat p div 4096"
  shows "\<exists>m'. nova_append_log_entry E pi inode ei up sih sbi =
      Some (0, up\<lparr>up_curr_entry := q, up_tail := q + entry_size ei\<rparr>, sih, sbi\<lparr>nvmm := m'\<rparr>) \<and>
    nova_get_entry_type m' q = type_of ei \<and> num_of m' (unat q div 4096) = num_of (nvmm sbi) (unat q div 4096) + 1 \<and>
    (\<forall>x. (x < unat q \<or> unat q + unat (entry_size ei) \<le> x) \<and> (x < unat q div 4096 * 4096 + 4068 \<or> unat q div 4096 * 4096 + 4072 \<le> x) \<and>
       (room \<or> x \<noteq> unat p) \<longrightarrow> m' x = nvmm sbi x)"
proof -
  define m where "m = (if room then nvmm sbi else nova_set_next_page_flag p (nvmm sbi))"
  have pl: "place p (entry_size ei) (nvmm sbi) = (q, m)" using assms(4,5) by (simp add: place_def m_def)
  have q: "q \<noteq> 0" "unat p mod 4096 + unat (entry_size ei) \<le> 4064 \<or> unat q mod 4096 = 0" using assms(2,4-6) by auto
  from append_entry_ok [OF assms(1-3) pl q] obtain m' where
    r: "nova_append_log_entry E pi inode ei up sih sbi =
      Some (0, up\<lparr>up_curr_entry := q, up_tail := q + entry_size ei\<rparr>, sih, sbi\<lparr>nvmm := m'\<rparr>)" "written q ei m m'" by blast
  have mx: "m x = nvmm sbi x" if "room \<or> x \<noteq> unat p" for x using that by (auto simp: m_def flag_next(2))
  have "only_pages {unat p div 4096} (nvmm sbi) m" unfolding only_pages_def using mx by (metis singletonI)
  then have "num_of m (unat q div 4096) = num_of (nvmm sbi) (unat q div 4096)"
    using assms(6) only_pages_counts(1) [of "{unat p div 4096}" "nvmm sbi" m "unat q div 4096"] by (auto simp: m_def)
  then show ?thesis using r mx unfolding written_def by auto
qed

theorem nova_append_log_entry_spec_witness:
  "\<exists>m'. nova_append_log_entry plain_env 4096 some_inode some_entry some_update log_sih log_sb =
      Some (0, some_update\<lparr>up_curr_entry := 8196096, up_tail := 8196152\<rparr>, log_sih, log_sb\<lparr>nvmm := m'\<rparr>) \<and>
    nova_get_entry_type m' 8196096 = 3 \<and> num_of m' 2001 = 4 \<and> m' 8200000 = nvmm log_sb 8200000"
proof -
  have q: "page_off 2001 = 8196096" by (simp add: page_off_def)
  have n: "next_log_page (nvmm log_sb) 8196040 = 8196096" "num_of (nvmm log_sb) 2001 = 3"
    by (simp_all add: next_log_page_of log_sb_def log_mem_def busy_page_fields q)
  have a: "8196040 = (if up_tail some_update = 0 then log_tail log_sih else up_tail some_update)" "(8196040 :: u64) \<noteq> 0"
    by (simp_all add: some_update_def)
  have r: "False = (unat (8196040 :: u64) mod 4096 + unat (entry_size some_entry) \<le> 4064)"
    "8196096 = (if False then 8196040 else next_log_page (nvmm log_sb) 8196040)"
    "False \<or> (8196096 :: u64) \<noteq> 0 \<and> unat (8196096 :: u64) mod 4096 = 0 \<and> unat (8196096 :: u64) div 4096 \<noteq> unat (8196040 :: u64) div 4096"
    unfolding some_entry_facts n by simp_all
  from nova_append_log_entry_spec [OF a some_entry_facts(3) r, of plain_env 4096 some_inode] obtain m' where
    w: "nova_append_log_entry plain_env 4096 some_inode some_entry some_update log_sih log_sb =
        Some (0, some_update\<lparr>up_curr_entry := 8196096, up_tail := 8196096 + entry_size some_entry\<rparr>, log_sih, log_sb\<lparr>nvmm := m'\<rparr>)"
      "nova_get_entry_type m' 8196096 = type_of some_entry"
      "num_of m' (unat (8196096 :: u64) div 4096) = num_of (nvmm log_sb) (unat (8196096 :: u64) div 4096) + 1"
      "\<forall>x. (x < unat (8196096 :: u64) \<or> unat (8196096 :: u64) + unat (entry_size some_entry) \<le> x) \<and>
         (x < unat (8196096 :: u64) div 4096 * 4096 + 4068 \<or> unat (8196096 :: u64) div 4096 * 4096 + 4072 \<le> x) \<and>
         (False \<or> x \<noteq> unat (8196040 :: u64)) \<longrightarrow> m' x = nvmm log_sb x" by blast
  have "m' 8200000 = nvmm log_sb 8200000" using w(4) [rule_format, of 8200000] unfolding some_entry_facts by simp
  then show ?thesis using w(1-3) n(2) unfolding some_entry_facts by (intro exI [of _ m']) simp
qed



end
