(* ===== verification/Spec2Isabelle.thy ===== *)
theory Spec2Isabelle
  imports Trace_Faults Pmfs_Bbuild_Props Pmfs_Atomic Nova_Props Pmfs_Btree_Seek Pmfs_Dir_Props Nova_Balloc_Props Nova_Inode_Props Nova_Log_Props
begin

text \<open>
  Silhouette finds crash-consistency bugs in file systems for persistent memory.  A compiler pass
  (codebase/trace/src) instruments the file system under test, a runtime in the kernel (codebase/trace/runtime)
  records every store, flush and fence, and Python tools (codebase/scripts) build crash images from the trace.
  The file systems under test are kept with it: PMFS, NOVA and WineFS (thirdPart).  This library models the runtime
  and the parts of PMFS and NOVA on which crash consistency rests, from their C sources.

  \<^bold>\<open>Trace runtime\<close> (codebase/trace/runtime/NOVA, pmfs, winefs: KernelTracing.c).  \<open>Trace_Kernel\<close> has the output side of
  the NOVA copy: files, write buffers and locks; \<open>Trace_Pmfs\<close> the output functions of the PMFS and WineFS copies, which differ;
  \<open>Trace_Api\<close> the functions that instrumented code calls.  The functions of the kernel are a record that is an argument
  of every definition.  The contract of the output side is the locale \<open>trace_sink\<close> (\<open>Trace_Sink\<close>), interpreted on both
  copies with the lemmas of \<open>Trace_Log\<close>; \<open>Trace_Clients\<close> has an instrumented store and the reader of the stored values.
  \<open>Trace_Props\<close> shows that every traced store is in the files, in order and with its bytes, and that
  concurrent clients do not mix their records; \<open>Trace_Faults\<close> shows the error paths: dead-lock on unload, reuse of a
  closed file, records that do not fit their buffer, large sequence numbers.

  \<^bold>\<open>PMFS block allocator\<close> (balloc.c, parts of super.c and pmfs.h).  \<open>Pmfs_Balloc\<close> translates the in-use list and
  its operations; \<open>Pmfs_Balloc_Inv\<close> and \<open>Pmfs_Balloc_Free\<close> show that allocation and free keep it sorted and
  disjoint with an exact free count; \<open>Allocator\<close> states the interface as a locale, and
  \<open>Pmfs_Alloc_Props\<close> interprets it.  \<open>Pmfs_Bbuild\<close> and \<open>Pmfs_Bbuild_Props\<close> treat the rebuild of the list
  from scan bitmaps after a crash (bbuild.c).

  \<^bold>\<open>PMFS block tree of an inode\<close> (inode.c, first half).  \<open>Pmfs_Btree\<close> translates lookup, search for data and holes,
  allocation, truncation and the change of height, on the bytes of the device and on top of the allocator.
  \<open>Pmfs_Btree_Wf\<close> defines well-formed trees and their footprint with frame lemmas; \<open>Pmfs_Btree_Alloc\<close>,
  \<open>Pmfs_Btree_Grow\<close> and \<open>Pmfs_Btree_Inode\<close> carry allocation and growth; \<open>Pmfs_Btree_Cut\<close>, \<open>Pmfs_Btree_Trunc\<close>,
  \<open>Pmfs_Btree_Shrink\<close> and \<open>Pmfs_Btree_Resize\<close> carry truncation.  The properties are in \<open>Pmfs_Btree_Props\<close>,
  \<open>Pmfs_Btree_Truncate\<close> and \<open>Pmfs_Btree_Seek\<close>; \<open>Pmfs_Btree_Eval\<close> evaluates the code on concrete files.
  The abstract specification is a partial map from file pages to device pages.  Trees have at most three levels of pointers, as
  the code enforces; truncation is stated for block counts below \<open>2 ^ 32\<close>, in which the code counts.

  \<^bold>\<open>PMFS journal\<close> (journal.c, journal.h).  \<open>Cache_Lines\<close> and \<open>Pmem\<close> model a persistent memory behind a cache: a store may
  become persistent at any time, a flush with a fence makes it so, and at a crash every line keeps a prefix of its stores.
  \<open>Pmfs_Journal\<close> translates log entries, transactions, commit, abort, the cleaner and recovery.
  \<open>Undo_Log\<close> is the abstract undo log; \<open>Pmfs_Jnl_Run\<close>, \<open>Pmfs_Recover\<close>, \<open>Pmfs_Trace_Rules\<close>, \<open>Pmfs_Entries\<close>,
  \<open>Pmfs_Crash\<close> and \<open>Pmfs_Commit\<close> lead to \<open>Pmfs_Atomic\<close>: after a crash at any point of a transaction recovery
  restores the state before it or keeps the state behind it.

  \<^bold>\<open>NOVA lite journal\<close> (journal.c, journal.h).  \<open>Nvm\<close> has the byte-level memory with cache lines, \<open>Nova_Journal\<close> the
  code, and \<open>Nova_Jnl_Run\<close>, \<open>Nova_Recover\<close>, \<open>Nova_Atomic\<close>, \<open>Nova_Crash\<close> and \<open>Nova_Props\<close> the same argument for it.
  The checksum function is a parameter.  A walk of a journal that may not end is a partial function whose value
  is then \<open>None\<close>; the properties show that it ends.

  \<^bold>\<open>NOVA block allocator and inode numbers\<close> (balloc.c, balloc.h, parts of nova.h, inode.c, bbuild.c).  Both keep ranges in
  red-black trees of the kernel.  \<open>Nova_Range\<close> has range nodes in a store, because the code changes them in place, and the
  tree functions; how a tree is balanced is a parameter of which \<open>rb_ok\<close> says only that the order of the nodes is kept.
  \<open>Nova_Range_Inv\<close> defines trees of disjoint ranges and shows search and insertion.  \<open>Nova_Balloc\<close> translates
  the free lists of the processors, \<open>Nova_Balloc_Inv\<close>, \<open>Nova_Balloc_Free\<close>, \<open>Nova_Balloc_New\<close> and
  \<open>Nova_Balloc_Init\<close> show that freeing, allocation and set-up keep the invariant \<open>nova_ok\<close> and what they do to the set
  \<open>nova_free\<close>; the properties are in \<open>Nova_Balloc_Props\<close>.  \<open>Nova_Inode_Map\<close> and \<open>Nova_Inode_Props\<close> do the same for
  the inode numbers in use (\<open>maps_ok\<close>, \<open>used_inos\<close>).  Block numbers are below \<open>2 ^ 31\<close>, since the code
  keeps counts of them in an \<^verbatim>\<open>int\<close>.

  \<^bold>\<open>NOVA inode logs\<close> (log.c, log.h, gc.c, parts of nova.h and inode.h).  \<open>Nova_Log\<close> translates log pages: their tails, allocation as a
  chain on top of the block allocator, freeing in runs, and the place of the next entry; \<open>Nova_Log_Entry\<close> the entries, appending,
  the update of the tail and invalid entries; \<open>Nova_Gc\<close> the fast and the thorough garbage collector.  The header of an inode is the record
  \<open>nova_inode_info_header\<close>.  \<open>Nova_Log_Pages\<close> shows with \<open>log_chain\<close> what linking and allocation do to the chain of pages, \<open>Nova_Log_Free\<close>
  that freeing walks all of it, and \<open>Nova_Gc_Pages\<close> what the fast collection keeps and frees; \<open>Nova_Log_Props\<close> has the
  properties.  Walks of a chain are partial functions, and the properties show that they end on a log.  The module
  parameter \<^verbatim>\<open>metadata_csum\<close> has its default value 0, so there is no alternate log; the new range nodes are given by \<open>nova_env\<close>, and
  \<open>env_ok\<close> says that there is always one.  \<open>gap_ok\<close> says of a set of blocks that neighbours in it belong to the
  same processor; without it pages are lost when a log is freed, which is
  shown as well.  Of the thorough collector no property is proved yet.

  \<^bold>\<open>PMFS directories\<close> (dir.c, parts of namei.c).  \<open>Pmfs_Dir\<close> translates search, addition, removal, lookup, listing, the
  first block of a new directory and the emptiness test, on the bytes of the blocks that the tree of the directory
  maps.  \<open>Pmfs_Dir_Wf\<close> defines chains of entries, \<open>Pmfs_Dir_Edit\<close> changes within a block, \<open>Pmfs_Dir_Inode\<close> the
  invariant \<open>dir_ok\<close> and the list \<open>dir_list\<close> of the entries of a whole directory; \<open>Pmfs_Dir_Ops\<close>, \<open>Pmfs_Dir_Lookup\<close> and
  \<open>Pmfs_Dir_Undo\<close> treat the operations and what their journal entries undo.  \<open>Directory\<close> states the interface as a locale;
  \<open>Pmfs_Dir_Props\<close> interprets it, so that a directory refines a finite map.  The callback and the inode types of a
  listing are arguments.  Loops that follow unchecked lengths are partial functions.

  \<^bold>\<open>Loops.\<close>  A loop over an index is a recursion on the number of steps left; \<open>levels\<close> and the other loops that are
  not structural have a measure.  Out-of-memory results are arguments of the definitions, so every property
  holds for all of them.

  \<^bold>\<open>Not modelled.\<close>  The Python tools and the C++ compiler pass (apart from the calls around a store) are outside the
  C sources that the library follows.  Of the file systems, the layers that are mostly calls into the kernel
  (mounting, page cache, memory mapping, ioctl, extended attributes, sysfs, statistics) are left out, as are
  NOVA's alternate logs, snapshots, checksums and data path, and WineFS, which remain for later.
\<close>

end
